(* ===== verification/Prelude.thy ===== *)
theory Prelude
  imports Main "HOL-Library.Word" "HOL-Library.AList" "HOL-Library.Monad_Syntax"
    "HOL-Library.List_Lexorder" "HOL-Library.Char_ord"
begin

text \<open>
  Shared vocabulary of the development: the names of the C++ types, the wrap-around of
  signed machine integers, byte constants, decimal digits, and the lemmas on lists,
  association lists and digit strings that the component theories use.

  Conventions of the whole development:
  \<^item> a \<open>QString\<close> (\<open>std::string\<close>) is a \<^typ>\<open>char list\<close>, one \<^typ>\<open>char\<close> per byte;
  \<^item> a C++ \<open>int\<close> or \<open>long\<close> is an \<^typ>\<open>int\<close>; where an operation can leave the
    range of its type the result goes through \<open>wrap32\<close> / \<open>wrap64\<close> (two's complement,
    what the compiled code does where the standard leaves signed overflow undefined);
  \<^item> \<open>uint64_t\<close> clock values are \<open>64 word\<close>, the LRU clock is a \<open>32 word\<close>, an object's
    LRU stamp is a \<open>24 word\<close>;
  \<^item> a function of type \<open>\<dots> option\<close> whose \<^const>\<open>None\<close> stands for a failed
    \<open>assert\<close>, an uncaught exception or an out-of-bounds access models code that can bring
    the process down: \<^const>\<open>None\<close> is "the server dies here".
\<close>

type_synonym QString = string
type_synonym u64 = "64 word"

text \<open>Facts that rewrite the byte-level encoders and the association lists.\<close>

named_theorems bytes_simps \<open>equations of the byte encoders\<close>
named_theorems store_simps \<open>equations of the key space operations\<close>
named_theorems inv_intros \<open>operations preserve the invariants\<close>
named_theorems safe_intros \<open>rules for results that keep the invariant\<close>
named_theorems safe_cmds \<open>commands that keep the invariant\<close>

subsection \<open>Signed machine integers\<close>

definition wrap32 :: "int \<Rightarrow> int" where
  "wrap32 x = (x + 2 ^ 31) mod 2 ^ 32 - 2 ^ 31"

definition wrap64 :: "int \<Rightarrow> int" where
  "wrap64 x = (x + 2 ^ 63) mod 2 ^ 64 - 2 ^ 63"

definition LONG_MAX :: int where "LONG_MAX = 2 ^ 63 - 1"
definition LONG_MIN :: int where "LONG_MIN = - (2 ^ 63)"

lemma wrap32_id [simp]: "- (2 ^ 31) \<le> x \<Longrightarrow> x < 2 ^ 31 \<Longrightarrow> wrap32 x = x"
  by (simp add: wrap32_def)

lemma wrap64_id: "LONG_MIN \<le> x \<Longrightarrow> x \<le> LONG_MAX \<Longrightarrow> wrap64 x = x"
  by (simp add: wrap64_def LONG_MIN_def LONG_MAX_def)

lemma wrap64_range: "LONG_MIN \<le> wrap64 x \<and> wrap64 x \<le> LONG_MAX"
proof -
  have "0 \<le> (x + 2 ^ 63) mod 2 ^ 64 \<and> (x + 2 ^ 63) mod 2 ^ 64 < (2::int) ^ 64"
    by (intro conjI pos_mod_sign pos_mod_bound) simp_all
  then show ?thesis by (simp add: wrap64_def LONG_MIN_def LONG_MAX_def)
qed

subsection \<open>Bytes\<close>

abbreviation CR :: char where "CR \<equiv> CHR 0x0D"
abbreviation LF :: char where "LF \<equiv> CHR 0x0A"
abbreviation NUL :: char where "NUL \<equiv> CHR 0x00"

definition CRLF :: string where "CRLF = [CR, LF]"

definition code :: "char \<Rightarrow> nat" where "code c = of_char c"

lemma code_less [simp]: "code c < 256"
  by (simp add: code_def)

lemma code_char_of [simp]: "n < 256 \<Longrightarrow> code (char_of n) = n"
  by (simp add: code_def)

lemma code_inject [simp]: "code c = code d \<longleftrightarrow> c = d"
  by (metis code_def char_of_char)

subsection \<open>Decimal digits\<close>

definition isdigit :: "char \<Rightarrow> bool" where
  "isdigit c \<longleftrightarrow> 48 \<le> code c \<and> code c \<le> 57"

definition digit_char :: "nat \<Rightarrow> char" where
  "digit_char d = char_of (48 + d)"

definition digit_value :: "char \<Rightarrow> int" where
  "digit_value c = int (code c) - 48"

lemma isdigit_digit_char [simp]: "d < 10 \<Longrightarrow> isdigit (digit_char d)"
  by (simp add: isdigit_def digit_char_def)

lemma digit_value_digit_char [simp]: "d < 10 \<Longrightarrow> digit_value (digit_char d) = int d"
  by (simp add: digit_value_def digit_char_def)

lemma digit_value_range: "isdigit c \<Longrightarrow> 0 \<le> digit_value c \<and> digit_value c \<le> 9"
  by (simp add: isdigit_def digit_value_def)

lemma not_digit [simp]:
  "\<not> isdigit CR" "\<not> isdigit LF" "\<not> isdigit NUL" "\<not> isdigit (CHR ''-'')" "\<not> isdigit (CHR ''+'')"
  "\<not> isdigit (CHR ''$'')" "\<not> isdigit (CHR ''*'')"
  by (simp_all add: isdigit_def code_def)

text \<open>The digits \<open>%lu\<close> and \<open>%ld\<close> print.\<close>

fun show_nat :: "nat \<Rightarrow> string" where
  "show_nat n = (if n < 10 then [digit_char n]
                 else show_nat (n div 10) @ [digit_char (n mod 10)])"

declare show_nat.simps [simp del]

definition show_int :: "int \<Rightarrow> string" where
  "show_int x = (if x < 0 then CHR ''-'' # show_nat (nat (- x)) else show_nat (nat x))"

definition digits_value :: "string \<Rightarrow> int" where
  "digits_value cs = foldl (\<lambda>v c. v * 10 + digit_value c) 0 cs"

lemma digits_value_snoc [simp]: "digits_value (cs @ [c]) = digits_value cs * 10 + digit_value c"
  by (simp add: digits_value_def)

lemma digits_value_Nil [simp]: "digits_value [] = 0"
  by (simp add: digits_value_def)

lemma show_nat_small: "n < 10 \<Longrightarrow> show_nat n = [digit_char n]"
  by (simp add: show_nat.simps)

lemma show_nat_digits: "\<forall>c \<in> set (show_nat n). isdigit c"
proof (induction n rule: show_nat.induct)
  case (1 n)
  then show ?case by (subst show_nat.simps) auto
qed

lemma show_nat_value [simp]: "digits_value (show_nat n) = int n"
proof (induction n rule: show_nat.induct)
  case (1 n)
  show ?case
  proof (cases "n < 10")
    case True
    then show ?thesis
      by (subst show_nat.simps) (simp add: digits_value_def)
  next
    case False
    with "1" have "digits_value (show_nat (n div 10)) = int (n div 10)" by simp
    moreover have "int (n div 10) * 10 + int (n mod 10) = int n" by presburger
    ultimately show ?thesis
      using False by (subst show_nat.simps) simp
  qed
qed

lemma show_nat_nonempty [simp]: "show_nat n \<noteq> []"
  by (subst show_nat.simps) simp

text \<open>No leading zero: only the number 0 starts with the digit 0.\<close>

lemma show_nat_hd: "0 < n \<Longrightarrow> \<exists>d cs. show_nat n = digit_char d # cs \<and> 0 < d \<and> d < 10"
proof (induction n rule: show_nat.induct)
  case (1 n)
  show ?case
  proof (cases "n < 10")
    case True
    with "1.prems" show ?thesis by (subst show_nat.simps) auto
  next
    case False
    then have "0 < n div 10" by (simp add: div_greater_zero_iff)
    with "1.IH" False obtain d cs where "show_nat (n div 10) = digit_char d # cs" "0 < d" "d < 10"
      by blast
    with False show ?thesis by (subst show_nat.simps) auto
  qed
qed

lemma show_nat_length: "n < 10 ^ k \<Longrightarrow> 0 < k \<Longrightarrow> length (show_nat n) \<le> k"
proof (induction n arbitrary: k rule: show_nat.induct)
  case (1 n)
  show ?case
  proof (cases "n < 10")
    case True
    then show ?thesis using "1.prems" by (subst show_nat.simps) simp
  next
    case False
    obtain j where k: "k = Suc j" using "1.prems" by (cases k) auto
    with False "1.prems" have "0 < j" by (cases j) auto
    have "n div 10 < 10 ^ j" using "1.prems"(1) k by (simp add: less_mult_imp_div_less)
    with "1.IH" False \<open>0 < j\<close> have "length (show_nat (n div 10)) \<le> j" by blast
    with False k show ?thesis by (subst show_nat.simps) simp
  qed
qed

subsection \<open>Lists and association lists\<close>

lemma takeWhile_all_append:
  "\<forall>x \<in> set xs. P x \<Longrightarrow> takeWhile P (xs @ ys) = xs @ takeWhile P ys"
  by (induction xs) auto

lemma dropWhile_all_append:
  "\<forall>x \<in> set xs. P x \<Longrightarrow> dropWhile P (xs @ ys) = dropWhile P ys"
  by (induction xs) auto

lemma map_of_update [simp]: "map_of (AList.update k v al) = (map_of al)(k \<mapsto> v)"
  by (simp add: update_conv')

lemma map_of_delete [simp]: "map_of (AList.delete k al) = (map_of al)(k := None)"
  by (simp add: delete_conv')

definition keys_distinct :: "('k \<times> 'v) list \<Rightarrow> bool" where
  "keys_distinct al \<longleftrightarrow> distinct (map fst al)"

lemma keys_distinct_Nil [simp, inv_intros]: "keys_distinct []"
  by (simp add: keys_distinct_def)

lemma keys_distinct_update [inv_intros]: "keys_distinct al \<Longrightarrow> keys_distinct (AList.update k v al)"
  by (simp add: keys_distinct_def distinct_update)

lemma keys_distinct_delete [inv_intros]: "keys_distinct al \<Longrightarrow> keys_distinct (AList.delete k al)"
  by (simp add: keys_distinct_def distinct_delete)

end
