(* ===== verification/Common.thy ===== *)
theory Common
  imports Prelude
begin

text \<open>
  QedisCore/QCommon.h and QCommon.cc: the type, encoding and error enumerations, the
  number/string conversions (\<open>Number2Str\<close>, \<open>TryStr2Long\<close>, \<open>Strtol\<close>), the RESP reply
  formatters, \<open>AdjustIndex\<close>, \<open>GetIntUntilCRLF\<close> and \<open>SplitString\<close>.

  A reply buffer pointer (\<open>UnboundedBuffer*\<close>) is a \<open>reply\<close>: \<^const>\<open>None\<close> is the null
  pointer (a command replayed from the master or the AOF), \<open>Some b\<close> a buffer holding the
  bytes \<open>b\<close>. Functions that scan a C string take the characters before its terminator.
\<close>

subsection \<open>Enumerations\<close>

datatype QType = QType_invalid | QType_string | QType_list | QType_set
  | QType_sortedSet | QType_hash

datatype QEncode = QEncode_invalid | QEncode_raw | QEncode_int | QEncode_list
  | QEncode_set | QEncode_hash | QEncode_sset

fun EncodingStringInfo :: "QEncode \<Rightarrow> string" where
  "EncodingStringInfo QEncode_raw = ''raw''"
| "EncodingStringInfo QEncode_int = ''int''"
| "EncodingStringInfo QEncode_list = ''list''"
| "EncodingStringInfo QEncode_set = ''set''"
| "EncodingStringInfo QEncode_hash = ''hash''"
| "EncodingStringInfo QEncode_sset = ''sset''"
| "EncodingStringInfo QEncode_invalid = ''unknown''"

datatype QError = QError_nop | QError_ok | QError_type | QError_exist | QError_notExist
  | QError_param | QError_unknowCmd | QError_nan | QError_syntax | QError_dirtyExec
  | QError_watch | QError_noMulti | QError_invalidDB | QError_readonlySlave
  | QError_needAuth | QError_errAuth | QError_nomodule | QError_moduleinit
  | QError_moduleuninit | QError_modulerepeat | QError_busykey

text \<open>
  The table \<open>g_errorInfo\<close>, indexed by the error. \<open>QError_nop\<close> is \<open>-1\<close>: indexing the
  table with it reads before the array, so it has no entry.
\<close>

fun g_errorInfo :: "QError \<Rightarrow> string option" where
  "g_errorInfo QError_nop = None"
| "g_errorInfo QError_ok = Some (''+OK'' @ CRLF)"
| "g_errorInfo QError_type =
     Some (''-ERR Operation against a key holding the wrong kind of value'' @ CRLF)"
| "g_errorInfo QError_exist = Some ''-ERR already exist''"
| "g_errorInfo QError_notExist = Some (''-ERR no such key'' @ CRLF)"
| "g_errorInfo QError_param = Some (''-ERR wrong number of arguments'' @ CRLF)"
| "g_errorInfo QError_unknowCmd = Some (''-ERR Unknown command'' @ CRLF)"
| "g_errorInfo QError_nan = Some (''-ERR value is not an integer or out of range'' @ CRLF)"
| "g_errorInfo QError_syntax = Some (''-ERR syntax error'' @ CRLF)"
| "g_errorInfo QError_dirtyExec =
     Some (''-EXECABORT Transaction discarded because of previous errors.'' @ CRLF)"
| "g_errorInfo QError_watch = Some (''-WATCH inside MULTI is not allowed'' @ CRLF)"
| "g_errorInfo QError_noMulti = Some (''-EXEC without MULTI'' @ CRLF)"
| "g_errorInfo QError_invalidDB = Some (''-ERR invalid DB index'' @ CRLF)"
| "g_errorInfo QError_readonlySlave =
     Some (''-READONLY You can'' @ [CHR 0x27] @ ''t write against a read only slave.'' @ CRLF)"
| "g_errorInfo QError_needAuth = Some (''-ERR operation not permitted'' @ CRLF)"
| "g_errorInfo QError_errAuth = Some (''-ERR invalid password'' @ CRLF)"
| "g_errorInfo QError_nomodule = Some (''-ERR no such module'' @ CRLF)"
| "g_errorInfo QError_moduleinit = Some (''-ERR init module failed'' @ CRLF)"
| "g_errorInfo QError_moduleuninit = Some (''-ERR uninit module failed'' @ CRLF)"
| "g_errorInfo QError_modulerepeat = Some (''-ERR module already loaded'' @ CRLF)"
| "g_errorInfo QError_busykey = Some (''-BUSYKEY Target key name already exists.'' @ CRLF)"

subsection \<open>Numbers to strings\<close>

text \<open>
  \<open>Number2Str\<close> writes the digits of a 64-bit value into a buffer of \<open>nBytes\<close> bytes, low
  digit first, then the sign, then reverses. It returns the characters written; the empty
  list is the return value 0 (no room).
\<close>

function Number2Str_loop :: "nat \<Rightarrow> int \<Rightarrow> string \<Rightarrow> string option" where
  "Number2Str_loop nBytes val acc =
     (if val \<le> 0 then Some acc
      else if nBytes \<le> length acc then None
      else Number2Str_loop nBytes (val div 10) (acc @ [digit_char (nat (val mod 10))]))"
  by pat_completeness auto
termination
  by (relation "measure (\<lambda>(n, v, acc). nat v)") auto

declare Number2Str_loop.simps [simp del]

definition Number2Str :: "nat \<Rightarrow> int \<Rightarrow> string" where
  "Number2Str nBytes val =
     (if nBytes < 2 then []
      else if val = 0 then ''0''
      else
        let negative = val < 0;
            v = (if negative then wrap64 (- val) else val)
        in case Number2Str_loop nBytes v [] of
             None \<Rightarrow> []
           | Some ds \<Rightarrow>
               if negative then
                 (if nBytes \<le> length ds then [] else rev (ds @ ''-''))
               else rev ds)"

subsection \<open>Strings to numbers\<close>

text \<open>
  \<open>TryStr2Long\<close>: decimal only, stops at the first byte that is no digit. The result is the
  returned flag with the value left in \<open>val\<close>.
\<close>

fun TryStr2Long_loop :: "bool \<Rightarrow> int \<Rightarrow> string \<Rightarrow> bool \<times> int" where
  "TryStr2Long_loop negtive val [] = (True, if negtive then wrap64 (- val) else val)"
| "TryStr2Long_loop negtive val (c # cs) =
     (if \<not> isdigit c then (True, if negtive then wrap64 (- val) else val)
      else if \<not> negtive \<and> val > LONG_MAX div 10 then (False, val)
      else if negtive \<and> val > LONG_MAX div 10 then (False, val)
      else
        let val' = wrap64 (val * 10) in
        if \<not> negtive \<and> val' > LONG_MAX - digit_value c then (False, val')
        else if negtive \<and> wrap64 (val' - 1) > LONG_MAX - digit_value c then (False, val')
        else TryStr2Long_loop negtive (wrap64 (val' + digit_value c)) cs)"

definition TryStr2Long :: "string \<Rightarrow> bool \<times> int" where
  "TryStr2Long s =
     (case s of
        [] \<Rightarrow> TryStr2Long_loop False 0 []
      | c # cs \<Rightarrow>
          if c = CHR ''-'' \<or> c = CHR ''+'' then
            (case cs of
               [] \<Rightarrow> (False, 0)
             | d # _ \<Rightarrow> if \<not> isdigit d then (False, 0)
                        else TryStr2Long_loop (c = CHR ''-'') 0 cs)
          else TryStr2Long_loop False 0 s)"

text \<open>
  The C library's \<open>strtol(s, &end, 0)\<close>: leading white space, a sign, a prefix that selects
  base 16 or 8, then the longest run of digits of that base.
\<close>

definition isspace :: "char \<Rightarrow> bool" where
  "isspace c \<longleftrightarrow> code c = 32 \<or> 9 \<le> code c \<and> code c \<le> 13"

definition base_digit :: "char \<Rightarrow> nat option" where
  "base_digit c =
     (let n = code c in
      if 48 \<le> n \<and> n \<le> 57 then Some (n - 48)
      else if 97 \<le> n \<and> n \<le> 122 then Some (n - 87)
      else if 65 \<le> n \<and> n \<le> 90 then Some (n - 55)
      else None)"

definition in_base :: "nat \<Rightarrow> char \<Rightarrow> bool" where
  "in_base b c = (case base_digit c of None \<Rightarrow> False | Some d \<Rightarrow> d < b)"

definition base_value :: "nat \<Rightarrow> string \<Rightarrow> int" where
  "base_value b cs = foldl (\<lambda>v c. v * int b + int (the (base_digit c))) 0 cs"

fun strtol_base :: "string \<Rightarrow> nat \<times> string" where
  "strtol_base (z # x # h # cs) =
     (if z = CHR ''0'' \<and> (x = CHR ''x'' \<or> x = CHR ''X'') \<and> in_base 16 h then (16, h # cs)
      else if z = CHR ''0'' then (8, z # x # h # cs) else (10, z # x # h # cs))"
| "strtol_base (z # cs) = (if z = CHR ''0'' then (8, z # cs) else (10, z # cs))"
| "strtol_base [] = (10, [])"

definition strtol_sign :: "string \<Rightarrow> bool \<times> string" where
  "strtol_sign s =
     (case s of
        [] \<Rightarrow> (False, [])
      | c # cs \<Rightarrow> if c = CHR ''-'' then (True, cs) else if c = CHR ''+'' then (False, cs)
                  else (False, s))"

text \<open>The value (\<^const>\<open>None\<close>: \<open>ERANGE\<close>) and the characters from \<open>end\<close> on.\<close>

definition strtol0 :: "string \<Rightarrow> int option \<times> string" where
  "strtol0 s =
     (let (neg, s1) = strtol_sign (dropWhile isspace s);
          (b, s2) = strtol_base s1;
          ds = takeWhile (in_base b) s2;
          v = (if neg then - base_value b ds else base_value b ds)
      in if ds = [] then (Some 0, s)
         else (if LONG_MIN \<le> v \<and> v \<le> LONG_MAX then Some v else None, drop (length ds) s2))"

definition Strtol :: "string \<Rightarrow> int option" where
  "Strtol s =
     (if length s = 0 \<or> 20 < length s then None
      else case strtol0 s of
             (None, _) \<Rightarrow> None
           | (Some v, rest) \<Rightarrow> if rest = [] then Some v else None)"

text \<open>
  \<open>Strtof\<close> and \<open>Strtod\<close> differ in the C function they call, which is an argument here: the
  value and the number of characters it read, or nothing for \<open>ERANGE\<close>.
\<close>

definition Strtod :: "(string \<Rightarrow> ('f \<times> nat) option) \<Rightarrow> string \<Rightarrow> 'f option" where
  "Strtod strtod s =
     (if length s = 0 \<or> 20 < length s then None
      else case strtod s of None \<Rightarrow> None | Some (v, n) \<Rightarrow> if n = length s then Some v else None)"

subsection \<open>Case\<close>

definition tolower :: "char \<Rightarrow> char" where
  "tolower c = (if 65 \<le> code c \<and> code c \<le> 90 then char_of (code c + 32) else c)"

text \<open>\<open>strncasecmp(s, t, n) == 0\<close> for a text of at least \<open>n\<close> bytes without terminators.\<close>

definition strncaseeq :: "string \<Rightarrow> string \<Rightarrow> nat \<Rightarrow> bool" where
  "strncaseeq s t n \<longleftrightarrow> map tolower (take n s) = map tolower (take n t)"

subsection \<open>Searching\<close>

text \<open>\<open>Strstr\<close> is \<open>std::search\<close>; the result is the offset of the first match.\<close>

fun search_at :: "nat \<Rightarrow> string \<Rightarrow> string \<Rightarrow> nat option" where
  "search_at i pat s =
     (if take (length pat) s = pat then Some i
      else case s of [] \<Rightarrow> None | _ # cs \<Rightarrow> search_at (Suc i) pat cs)"

declare search_at.simps [simp del]

definition Strstr :: "string \<Rightarrow> string \<Rightarrow> nat option" where
  "Strstr s pattern = (if pattern = [] then None else search_at 0 pattern s)"

definition SearchCRLF :: "string \<Rightarrow> nat option" where
  "SearchCRLF s = Strstr s CRLF"

subsection \<open>Reply formatting\<close>

type_synonym reply = "string option"

definition PushData :: "string \<Rightarrow> reply \<Rightarrow> reply" where
  "PushData bytes r = map_option (\<lambda>b. b @ bytes) r"

definition FormatInt :: "int \<Rightarrow> reply \<Rightarrow> reply" where
  "FormatInt v r = PushData ('':'' @ show_int v @ CRLF) r"

definition FormatSingle :: "string \<Rightarrow> reply \<Rightarrow> reply" where
  "FormatSingle s r = PushData (''+'' @ s @ CRLF) r"

definition FormatBulk :: "string \<Rightarrow> reply \<Rightarrow> reply" where
  "FormatBulk s r = PushData (''$'' @ show_nat (length s) @ CRLF @ s @ CRLF) r"

definition PreFormatMultiBulk :: "nat \<Rightarrow> reply \<Rightarrow> reply" where
  "PreFormatMultiBulk n r = PushData (''*'' @ show_nat n @ CRLF) r"

definition FormatMultiBulk :: "string list \<Rightarrow> reply \<Rightarrow> reply" where
  "FormatMultiBulk vs r = fold FormatBulk vs r"

text \<open>\<open>FormatEmptyBulk\<close> does not test its buffer: a null one is dereferenced.\<close>

definition FormatEmptyBulk :: "reply \<Rightarrow> reply option" where
  "FormatEmptyBulk r = (case r of None \<Rightarrow> None | Some b \<Rightarrow> Some (Some (b @ ''$0'' @ CRLF @ CRLF)))"

definition FormatNull :: "reply \<Rightarrow> reply" where
  "FormatNull r = PushData (''$-1'' @ CRLF) r"

definition FormatNullArray :: "reply \<Rightarrow> reply" where
  "FormatNullArray r = PushData (''*-1'' @ CRLF) r"

definition FormatOK :: "reply \<Rightarrow> reply" where
  "FormatOK r = PushData (''+OK'' @ CRLF) r"

definition Format1 :: "reply \<Rightarrow> reply" where
  "Format1 r = PushData ('':1'' @ CRLF) r"

definition Format0 :: "reply \<Rightarrow> reply" where
  "Format0 r = PushData ('':0'' @ CRLF) r"

text \<open>\<open>ReplyError\<close> reads \<open>g_errorInfo[err]\<close>, which has no entry for \<open>QError_nop\<close>.\<close>

definition ReplyError :: "QError \<Rightarrow> reply \<Rightarrow> reply option" where
  "ReplyError err r =
     (case r of None \<Rightarrow> Some None
      | Some b \<Rightarrow> (case g_errorInfo err of None \<Rightarrow> None | Some s \<Rightarrow> Some (Some (b @ s))))"

subsection \<open>Index ranges\<close>

definition AdjustIndex :: "int \<Rightarrow> int \<Rightarrow> nat \<Rightarrow> int \<times> int" where
  "AdjustIndex start end sz =
     (if sz = 0 then (1, 0)
      else
        let start = (if start < 0 then start + int sz else start);
            start = (if start < 0 then 0 else start);
            end = (if end < 0 then end + int sz else end);
            end = (if end \<ge> int sz then int sz - 1 else end)
        in (start, end))"

subsection \<open>Parsing a header line\<close>

datatype QParseResult = QParseResult_ok | QParseResult_wait | QParseResult_error

text \<open>
  The scanning loop of \<open>GetIntUntilCRLF\<close> over the bytes that remain; \<open>i\<close> is the index
  reached. The result is the parse result, the distance \<open>ptr\<close> moves and the value. When the
  bytes run out inside the digits the loop just ends, and the code after it moves \<open>ptr\<close> by
  \<open>i + 2\<close> as if the two bytes of a line end had been there.
\<close>

fun GetInt_loop :: "nat \<Rightarrow> int \<Rightarrow> string \<Rightarrow> QParseResult \<times> nat \<times> int" where
  "GetInt_loop i v [] = (QParseResult_ok, i + 2, v)"
| "GetInt_loop i v (c # cs) =
     (if isdigit c then GetInt_loop (Suc i) (wrap32 (wrap32 (v * 10) + digit_value c)) cs
      else if c \<noteq> CR \<or> (cs \<noteq> [] \<and> hd cs \<noteq> LF) then (QParseResult_error, 0, 0)
      else if cs = [] then (QParseResult_wait, 0, 0)
      else (QParseResult_ok, i + 2, v))"

definition GetIntUntilCRLF :: "string \<Rightarrow> QParseResult \<times> nat \<times> int" where
  "GetIntUntilCRLF s =
     (if length s < 3 then (QParseResult_wait, 0, 0)
      else
        let negtive = (hd s = CHR ''-'');
            signed = (hd s = CHR ''-'' \<or> hd s = CHR ''+'');
            (r, n, v) = (if signed then GetInt_loop 1 0 (tl s) else GetInt_loop 0 0 s)
        in (r, n, if negtive then wrap32 (- v) else v))"

subsection \<open>Splitting\<close>

text \<open>\<open>SplitString\<close>: the pieces between separators, empty ones dropped.\<close>

fun SplitString_loop :: "char \<Rightarrow> string \<Rightarrow> string \<Rightarrow> string list" where
  "SplitString_loop sep piece [] = (if piece = [] then [] else [piece])"
| "SplitString_loop sep piece (c # cs) =
     (if c = sep then (if piece = [] then [] else [piece]) @ SplitString_loop sep [] cs
      else SplitString_loop sep (piece @ [c]) cs)"

definition SplitString :: "string \<Rightarrow> char \<Rightarrow> string list" where
  "SplitString s seperator = SplitString_loop seperator [] s"

subsection \<open>Correctness of the conversions\<close>

lemma base10_digit: "isdigit c \<Longrightarrow> base_digit c = Some (nat (digit_value c))"
  by (simp add: isdigit_def base_digit_def digit_value_def Let_def nat_diff_distrib)

lemma base10_value: "\<forall>c \<in> set cs. isdigit c \<Longrightarrow> base_value 10 cs = digits_value cs"
proof (induction cs rule: rev_induct)
  case Nil
  then show ?case by (simp add: base_value_def)
next
  case (snoc c cs)
  then have "the (base_digit c) = nat (digit_value c)" "0 \<le> digit_value c"
    using digit_value_range [of c] by (auto simp: base10_digit)
  with snoc show ?case by (simp add: base_value_def)
qed

lemma in_base10: "isdigit c \<Longrightarrow> in_base 10 c"
  using digit_value_range [of c] by (simp add: in_base_def base10_digit) linarith

lemma isdigit_not_space: "isdigit c \<Longrightarrow> \<not> isspace c"
  by (auto simp: isdigit_def isspace_def)

lemma digit_char_nonzero:
  assumes "0 < d" "d < 10"
  shows "digit_char d \<noteq> CHR ''0''"
proof
  assume "digit_char d = CHR ''0''"
  then have "code (digit_char d) = code (CHR ''0'')" by simp
  then have "48 + d = 48" using assms(2) unfolding digit_char_def by (simp add: code_def)
  with assms(1) show False by simp
qed

lemma digit_char_0 [simp]: "digit_char 0 = CHR ''0''"
  by code_simp

lemma show_nat_0: "show_nat 0 = ''0''"
  by (subst show_nat.simps) simp

lemma strtol_base_digit: "z \<noteq> CHR ''0'' \<Longrightarrow> strtol_base (z # cs) = (10, z # cs)"
  by (cases "z # cs" rule: strtol_base.cases) auto

lemma strtol_base_show_nat:
  "strtol_base (show_nat n) = (if n = 0 then 8 else 10, show_nat n)"
proof (cases "n = 0")
  case True
  then show ?thesis by (simp add: show_nat_0)
next
  case False
  then obtain d cs where "show_nat n = digit_char d # cs" "0 < d" "d < 10"
    using show_nat_hd [of n] by auto
  with False show ?thesis by (simp add: strtol_base_digit digit_char_nonzero)
qed

lemma show_nat_run: "takeWhile (in_base (if n = 0 then 8 else 10)) (show_nat n) = show_nat n"
proof (cases "n = 0")
  case True
  then show ?thesis by (simp add: show_nat_0 in_base_def base_digit_def code_def)
next
  case False
  then show ?thesis using show_nat_digits [of n] by (simp add: takeWhile_eq_all_conv in_base10)
qed

lemma base_value_show_nat: "base_value (if n = 0 then 8 else 10) (show_nat n) = int n"
proof (cases "n = 0")
  case True
  then show ?thesis by (simp add: show_nat_0 base_value_def base_digit_def code_def)
next
  case False
  then show ?thesis using show_nat_digits [of n] by (simp add: base10_value)
qed

lemma show_nat_sign: "strtol_sign (show_nat n) = (False, show_nat n)"
proof (cases "show_nat n")
  case (Cons c cs)
  then have "isdigit c" using show_nat_digits [of n] by simp
  then have "c \<noteq> CHR ''-''" "c \<noteq> CHR ''+''" by auto
  with Cons show ?thesis by (simp add: strtol_sign_def)
qed simp

lemma show_nat_no_space: "dropWhile isspace (show_nat n) = show_nat n"
proof (cases "show_nat n")
  case (Cons c cs)
  then have "isdigit c" using show_nat_digits [of n] by simp
  with Cons show ?thesis by (simp add: isdigit_not_space)
qed simp

lemma strtol0_show_int:
  assumes "LONG_MIN \<le> x" "x \<le> LONG_MAX"
  shows "strtol0 (show_int x) = (Some x, [])"
proof (cases "x < 0")
  case True
  let ?n = "nat (- x)"
  have sp: "\<not> isspace (CHR ''-'')" by (simp add: isspace_def code_def)
  have "takeWhile (in_base 10) (show_nat ?n) = show_nat ?n" "base_value 10 (show_nat ?n) = - x"
    using True show_nat_run [of ?n] base_value_show_nat [of ?n] by simp_all
  then have "strtol0 (CHR ''-'' # show_nat ?n) = (Some x, [])"
    using True assms sp
    by (simp add: strtol0_def Let_def strtol_sign_def strtol_base_show_nat del: takeWhile_eq_all_conv)
  with True show ?thesis by (simp add: show_int_def)
next
  case False
  let ?n = "nat x"
  have "strtol0 (show_nat ?n) = (Some x, [])"
    using False assms
    by (simp only: strtol0_def Let_def show_nat_no_space show_nat_sign strtol_base_show_nat
        show_nat_run base_value_show_nat prod.case) simp
  with False show ?thesis by (simp add: show_int_def)
qed

lemma length_show_int:
  assumes "LONG_MIN \<le> x" "x \<le> LONG_MAX"
  shows "length (show_int x) \<le> 20" and "length (show_int x) \<noteq> 0"
proof -
  have "nat \<bar>x\<bar> < 10 ^ 19" using assms by (simp add: LONG_MIN_def LONG_MAX_def)
  then have "length (show_nat (nat \<bar>x\<bar>)) \<le> 19" by (rule show_nat_length) simp
  then show "length (show_int x) \<le> 20" by (auto simp: show_int_def abs_if split: if_splits)
  show "length (show_int x) \<noteq> 0" by (simp add: show_int_def)
qed

lemma Strtol_show_int [simp]:
  "LONG_MIN \<le> x \<Longrightarrow> x \<le> LONG_MAX \<Longrightarrow> Strtol (show_int x) = Some x"
  using length_show_int [of x] strtol0_show_int [of x] by (simp add: Strtol_def)


lemma Number2Str_loop_show:
  assumes "0 < v" "length acc + length (show_nat (nat v)) \<le> n"
  shows "Number2Str_loop n v acc = Some (acc @ rev (show_nat (nat v)))"
  using assms
proof (induction n v acc rule: Number2Str_loop.induct)
  case (1 n v acc)
  let ?acc = "acc @ [digit_char (nat (v mod 10))]"
  have room: "\<not> n \<le> length acc"
    using "1.prems"(2) show_nat_nonempty [of "nat v"] by (cases "show_nat (nat v)") auto
  have step: "Number2Str_loop n v acc = Number2Str_loop n (v div 10) ?acc"
    using "1.prems"(1) room by (subst Number2Str_loop.simps) simp
  show ?case
  proof (cases "v < 10")
    case True
    then have "v div 10 = 0" "show_nat (nat v) = [digit_char (nat v)]" "v mod 10 = v"
      using "1.prems"(1) by (auto simp: show_nat.simps [of "nat v"])
    then show ?thesis using step by (simp add: Number2Str_loop.simps [of n 0])
  next
    case False
    then have pos: "0 < v div 10" by (simp add: pos_imp_zdiv_pos_iff)
    have split: "show_nat (nat v) = show_nat (nat (v div 10)) @ [digit_char (nat (v mod 10))]"
      using False "1.prems"(1)
      by (subst show_nat.simps) (simp add: nat_div_distrib nat_mod_distrib)
    have "Number2Str_loop n (v div 10) ?acc = Some (?acc @ rev (show_nat (nat (v div 10))))"
      using "1.IH" "1.prems" room pos split by simp
    then show ?thesis using step split by simp
  qed
qed

lemma Number2Str_show_int:
  assumes "LONG_MIN < x" "x \<le> LONG_MAX" "length (show_int x) \<le> n" "2 \<le> n"
  shows "Number2Str n x = show_int x"
proof (cases "x < 0")
  case True
  then have w: "wrap64 (- x) = - x"
    using assms by (intro wrap64_id) (auto simp: LONG_MIN_def LONG_MAX_def)
  have "Number2Str_loop n (- x) [] = Some (rev (show_nat (nat (- x))))"
    using Number2Str_loop_show [of "- x" "[]" n] True assms(3) by (simp add: show_int_def)
  then show ?thesis using True assms w by (simp add: Number2Str_def show_int_def)
next
  case False
  show ?thesis
  proof (cases "x = 0")
    case True
    then show ?thesis using assms by (simp add: Number2Str_def show_int_def show_nat_0)
  next
    case nz: False
    have "Number2Str_loop n x [] = Some (rev (show_nat (nat x)))"
      using Number2Str_loop_show [of x "[]" n] False nz assms(3) by (simp add: show_int_def)
    then show ?thesis using False nz assms by (simp add: Number2Str_def show_int_def)
  qed
qed

lemma Number2Str_LONG_MIN: "2 \<le> n \<Longrightarrow> Number2Str n LONG_MIN = ''-''"
  by (simp add: Number2Str_def LONG_MIN_def wrap64_def Number2Str_loop.simps)

lemma digits_value_nonneg: "\<forall>c \<in> set cs. isdigit c \<Longrightarrow> 0 \<le> digits_value cs"
proof (induction cs rule: rev_induct)
  case (snoc c cs)
  then show ?case using digit_value_range [of c] by simp
qed simp

lemma foldl_digits:
  "foldl (\<lambda>v c. v * 10 + digit_value c) v cs = v * 10 ^ length cs + digits_value cs"
proof (induction cs rule: rev_induct)
  case (snoc c cs)
  then show ?case by (simp add: algebra_simps)
qed simp

lemma digits_value_Cons: "digits_value (c # cs) = digit_value c * 10 ^ length cs + digits_value cs"
  using foldl_digits [of "digit_value c" cs] by (simp add: digits_value_def)

lemma digits_prefix_le:
  assumes "0 \<le> v" "\<forall>c \<in> set cs. isdigit c"
  shows "v \<le> v * 10 ^ length cs + digits_value cs"
proof -
  have "v * 1 \<le> v * 10 ^ length cs" using assms(1) by (intro mult_left_mono) simp_all
  then show ?thesis using digits_value_nonneg [OF assms(2)] by linarith
qed

lemma TryStr2Long_loop_digits:
  assumes "0 \<le> v" "\<forall>c \<in> set cs. isdigit c"
    and "v * 10 ^ length cs + digits_value cs \<le> LONG_MAX"
  shows "TryStr2Long_loop neg v cs =
    (True, if neg then - (v * 10 ^ length cs + digits_value cs)
           else v * 10 ^ length cs + digits_value cs)"
  using assms
proof (induction neg v cs rule: TryStr2Long_loop.induct)
  case (1 neg v)
  then show ?case by (auto intro: wrap64_id simp: LONG_MIN_def LONG_MAX_def)
next
  case (2 neg v c cs)
  let ?w = "v * 10 + digit_value c"
  have d: "0 \<le> digit_value c" "digit_value c \<le> 9" "isdigit c"
    using "2.prems"(2) digit_value_range [of c] by auto
  have tot: "v * 10 ^ length (c # cs) + digits_value (c # cs) = ?w * 10 ^ length cs + digits_value cs"
    by (simp add: digits_value_Cons algebra_simps)
  have "?w \<le> LONG_MAX"
    using digits_prefix_le [of ?w cs] "2.prems" d tot by simp
  then have b: "v \<le> LONG_MAX div 10" "v * 10 \<le> LONG_MAX" "?w \<le> LONG_MAX"
    using d by (auto simp: LONG_MAX_def)
  have w: "wrap64 (v * 10) = v * 10" "wrap64 ?w = ?w" "wrap64 (v * 10 - 1) = v * 10 - 1"
    using b d "2.prems"(1) by (auto intro!: wrap64_id simp: LONG_MIN_def LONG_MAX_def)
  have "TryStr2Long_loop neg v (c # cs) = TryStr2Long_loop neg ?w cs"
    using b d w by (simp add: Let_def)
  also have "\<dots> = (True, if neg then - (?w * 10 ^ length cs + digits_value cs)
                        else ?w * 10 ^ length cs + digits_value cs)"
    using "2.IH" [OF _ _ _ refl] "2.prems" b d w tot by (simp add: Let_def)
  finally show ?case by (simp only: tot)
qed

lemma TryStr2Long_show_int:
  assumes "LONG_MIN < x" "x \<le> LONG_MAX"
  shows "TryStr2Long (show_int x) = (True, x)"
proof (cases "x < 0")
  case True
  obtain c cs where c: "show_nat (nat (- x)) = c # cs" "isdigit c"
    using show_nat_nonempty [of "nat (- x)"] show_nat_digits [of "nat (- x)"]
    by (cases "show_nat (nat (- x))") auto
  have "TryStr2Long_loop True 0 (show_nat (nat (- x))) = (True, x)"
    using TryStr2Long_loop_digits [of 0 "show_nat (nat (- x))" True] show_nat_digits [of "nat (- x)"]
      True assms by (simp add: LONG_MIN_def LONG_MAX_def)
  then show ?thesis using True c by (simp add: TryStr2Long_def show_int_def)
next
  case False
  obtain c cs where c: "show_nat (nat x) = c # cs" "isdigit c"
    using show_nat_nonempty [of "nat x"] show_nat_digits [of "nat x"]
    by (cases "show_nat (nat x)") auto
  then have "c \<noteq> CHR ''-''" "c \<noteq> CHR ''+''" by auto
  moreover have "TryStr2Long_loop False 0 (show_nat (nat x)) = (True, x)"
    using TryStr2Long_loop_digits [of 0 "show_nat (nat x)" False] show_nat_digits [of "nat x"]
      False assms by (simp add: LONG_MIN_def LONG_MAX_def)
  ultimately show ?thesis using False c by (simp add: TryStr2Long_def show_int_def)
qed

subsection \<open>Index ranges: what a clamped range selects\<close>

definition norm_index :: "int \<Rightarrow> nat \<Rightarrow> int" where
  "norm_index i n = (if i < 0 then i + int n else i)"

lemma AdjustIndex_bounds:
  "AdjustIndex start end n = (s, e) \<Longrightarrow> s \<le> e \<Longrightarrow> 0 \<le> s \<and> e < int n"
  by (auto simp: AdjustIndex_def Let_def split: if_splits)

lemma AdjustIndex_nonneg: "0 \<le> fst (AdjustIndex start end n)"
  by (simp add: AdjustIndex_def Let_def)

lemma AdjustIndex_selects:
  assumes "AdjustIndex start end n = (s, e)" "i < n"
  shows "s \<le> int i \<and> int i \<le> e \<longleftrightarrow> norm_index start n \<le> int i \<and> int i \<le> norm_index end n"
  using assms by (auto simp: AdjustIndex_def Let_def norm_index_def split: if_splits)

text \<open>A slice, position by position.\<close>

lemma take_drop_filter:
  "take (b - a) (drop a xs) = map ((!) xs) (filter (\<lambda>i. a \<le> i \<and> i < b) [0..<length xs])"
proof (induction xs rule: rev_induct)
  case (snoc x xs)
  have m: "map ((!) (xs @ [x])) (filter P [0..<length xs]) = map ((!) xs) (filter P [0..<length xs])" for P
    by (auto simp: nth_append)
  show ?case
  proof (cases "a \<le> length xs")
    case True
    then show ?thesis using snoc m by auto
  next
    case False
    then have "filter (\<lambda>i. a \<le> i \<and> i < b) [0..<length xs] = []" by (auto simp: filter_empty_conv)
    then show ?thesis using False by simp
  qed
qed simp

definition slice :: "int \<Rightarrow> int \<Rightarrow> 'x list \<Rightarrow> 'x list" where
  "slice i j xs = map ((!) xs)
     (filter (\<lambda>n. norm_index i (length xs) \<le> int n \<and> int n \<le> norm_index j (length xs)) [0..<length xs])"

lemma slice_AdjustIndex:
  assumes "AdjustIndex i j (length xs) = (a, e)"
  shows "slice i j xs = (if a \<le> e then take (nat (e - a + 1)) (drop (nat a) xs) else [])"
proof -
  have "filter (\<lambda>n. norm_index i (length xs) \<le> int n \<and> int n \<le> norm_index j (length xs)) [0..<length xs] =
      filter (\<lambda>n. a \<le> int n \<and> int n \<le> e) [0..<length xs]"
    using AdjustIndex_selects [OF assms] by (intro filter_cong) auto
  then have s: "slice i j xs = map ((!) xs) (filter (\<lambda>n. a \<le> int n \<and> int n \<le> e) [0..<length xs])"
    by (simp add: slice_def)
  show ?thesis
  proof (cases "a \<le> e")
    case True
    then have "0 \<le> a" using AdjustIndex_bounds [OF assms] by simp
    then have "(\<lambda>n. a \<le> int n \<and> int n \<le> e) = (\<lambda>n. nat a \<le> n \<and> n < nat e + 1)" "nat (e - a + 1) = nat e + 1 - nat a"
      using True by (auto simp: fun_eq_iff)
    then show ?thesis using s True take_drop_filter [of "nat e + 1" "nat a" xs] by simp
  next
    case False
    then show ?thesis using s by (auto simp: filter_empty_conv)
  qed
qed

subsection \<open>Splitting\<close>

lemma SplitString_loop_concat:
  "concat (SplitString_loop sep p s) = p @ filter (\<lambda>c. c \<noteq> sep) s"
  by (induction sep p s rule: SplitString_loop.induct) auto

lemma SplitString_loop_pieces:
  "sep \<notin> set p \<Longrightarrow> w \<in> set (SplitString_loop sep p s) \<Longrightarrow> w \<noteq> [] \<and> sep \<notin> set w"
proof (induction sep p s rule: SplitString_loop.induct)
  case (1 sep p)
  then show ?case by (simp split: if_splits)
next
  case (2 sep p c cs)
  show ?case
  proof (cases "c = sep")
    case True
    with "2.prems" have "p \<noteq> [] \<and> w = p \<or> w \<in> set (SplitString_loop sep [] cs)"
      by (auto split: if_splits)
    with True "2.IH"(1) "2.prems"(1) show ?thesis by auto
  next
    case False
    with "2" show ?thesis by simp
  qed
qed

subsection \<open>Header lines\<close>

lemma GetInt_loop_digits:
  assumes "\<forall>c \<in> set ds. isdigit c" "0 \<le> v" "v * 10 ^ length ds + digits_value ds < 2 ^ 31"
  shows "GetInt_loop i v (ds @ CR # LF # rest) =
    (QParseResult_ok, i + length ds + 2, v * 10 ^ length ds + digits_value ds)"
  using assms
proof (induction ds arbitrary: i v)
  case Nil
  then show ?case by simp
next
  case (Cons c ds)
  let ?w = "v * 10 + digit_value c"
  have d: "0 \<le> digit_value c" "isdigit c" using Cons.prems digit_value_range [of c] by auto
  have tot: "v * 10 ^ length (c # ds) + digits_value (c # ds) = ?w * 10 ^ length ds + digits_value ds"
    by (simp add: digits_value_Cons algebra_simps)
  have "?w < 2 ^ 31" using digits_prefix_le [of ?w ds] Cons.prems d tot by simp
  then have w: "wrap32 (v * 10) = v * 10" "wrap32 ?w = ?w"
    using Cons.prems(2) d by (auto intro!: wrap32_id)
  have "GetInt_loop (Suc i) ?w (ds @ CR # LF # rest) =
    (QParseResult_ok, Suc i + length ds + 2, ?w * 10 ^ length ds + digits_value ds)"
    using Cons.prems d tot by (intro Cons.IH) auto
  then show ?case using d w tot by simp
qed

text \<open>Digits that reach the end of the buffer: the same value, two bytes too far.\<close>

lemma GetInt_loop_cut:
  assumes "\<forall>c \<in> set ds. isdigit c" "0 \<le> v" "v * 10 ^ length ds + digits_value ds < 2 ^ 31"
  shows "GetInt_loop i v ds =
    (QParseResult_ok, i + length ds + 2, v * 10 ^ length ds + digits_value ds)"
  using assms
proof (induction ds arbitrary: i v)
  case Nil
  then show ?case by simp
next
  case (Cons c ds)
  let ?w = "v * 10 + digit_value c"
  have d: "0 \<le> digit_value c" "isdigit c" using Cons.prems digit_value_range [of c] by auto
  have tot: "v * 10 ^ length (c # ds) + digits_value (c # ds) = ?w * 10 ^ length ds + digits_value ds"
    by (simp add: digits_value_Cons algebra_simps)
  have "?w < 2 ^ 31" using digits_prefix_le [of ?w ds] Cons.prems d tot by simp
  then have w: "wrap32 (v * 10) = v * 10" "wrap32 ?w = ?w"
    using Cons.prems(2) d by (auto intro!: wrap32_id)
  have "GetInt_loop (Suc i) ?w ds =
    (QParseResult_ok, Suc i + length ds + 2, ?w * 10 ^ length ds + digits_value ds)"
    using Cons.prems d tot by (intro Cons.IH) auto
  then show ?case using d w tot by simp
qed

lemma GetIntUntilCRLF_show_nat:
  assumes "n < 2 ^ 31"
  shows "GetIntUntilCRLF (show_nat n @ CRLF @ rest) =
    (QParseResult_ok, length (show_nat n) + 2, int n)"
proof -
  obtain c cs where c: "show_nat n = c # cs" "isdigit c"
    using show_nat_nonempty [of n] show_nat_digits [of n] by (cases "show_nat n") auto
  then have "c \<noteq> CHR ''-''" "c \<noteq> CHR ''+''" by auto
  moreover have "GetInt_loop 0 0 (show_nat n @ CR # LF # rest) =
      (QParseResult_ok, 0 + length (show_nat n) + 2, 0 * 10 ^ length (show_nat n) + digits_value (show_nat n))"
    using assms show_nat_digits [of n] by (intro GetInt_loop_digits) auto
  moreover have "digits_value (c # cs) = int n"
    using show_nat_value [of n] c by simp
  ultimately show ?thesis using c by (simp add: GetIntUntilCRLF_def CRLF_def Let_def)
qed

subsection \<open>Properties\<close>

text \<open>C4: Numbers survive the trip through their text. For every \<open>long\<close> but the least one, the
  digits \<open>Number2Str\<close> prints into the 64-byte buffer are read back by both parsers,
  \<open>Strtol\<close> and \<open>TryStr2Long\<close>; of the least one only the sign is printed.\<close>

theorem number_roundtrip:
  "(LONG_MIN < x \<longrightarrow> x \<le> LONG_MAX \<longrightarrow>
     Strtol (Number2Str 64 x) = Some x \<and> TryStr2Long (Number2Str 64 x) = (True, x)) \<and>
   Number2Str 64 LONG_MIN = ''-''"
proof (intro conjI impI)
  assume x: "LONG_MIN < x" "x \<le> LONG_MAX"
  then have n: "Number2Str 64 x = show_int x"
    using length_show_int(1) [of x] by (intro Number2Str_show_int) simp_all
  from x n show "Strtol (Number2Str 64 x) = Some x" by simp
  from x n show "TryStr2Long (Number2Str 64 x) = (True, x)" by (simp add: TryStr2Long_show_int)
qed (simp add: Number2Str_LONG_MIN)

theorem number_roundtrip_witness:
  "Strtol (Number2Str 64 (-1207)) = Some (-1207) \<and> TryStr2Long (Number2Str 64 (-1207)) = (True, -1207)"
  using number_roundtrip [of "-1207"] by (simp add: LONG_MIN_def LONG_MAX_def)


end
