(* ===== verification/Proto.thy ===== *)
theory Proto
  imports Common
begin

text \<open>
  QedisCore/QProtoParser.h and .cc: the resumable request parser, and the command encoder of
  QedisCore/QAOF.h (\<open>SaveCommand\<close>) that writes what it reads, with the AOF loader of QAOF.cc.

  The input of one \<open>ParseRequest\<close> call is the buffer \<open>[start, end)\<close>; \<open>ptr\<close> is an offset into
  it, which the code can move past \<open>end\<close>. A result \<^const>\<open>None\<close> is a read outside the buffer.
\<close>

subsection \<open>The parser state\<close>

record QProtoParser =
  pa_multi :: int
  pa_paramLen :: int
  pa_numOfParam :: nat
  pa_params :: "QString list"

definition QProtoParser_new :: QProtoParser where
  "QProtoParser_new = \<lparr>pa_multi = -1, pa_paramLen = -1, pa_numOfParam = 0, pa_params = []\<rparr>"

definition Parser_Reset :: "QProtoParser \<Rightarrow> QProtoParser" where
  "Parser_Reset p = p\<lparr>pa_multi := -1, pa_paramLen := -1, pa_numOfParam := 0, pa_params := take 3 (pa_params p)\<rparr>"

definition IsInitialState :: "QProtoParser \<Rightarrow> bool" where
  "IsInitialState p \<longleftrightarrow> pa_multi p = -1"

definition SetParams :: "QString list \<Rightarrow> QProtoParser \<Rightarrow> QProtoParser" where
  "SetParams ps p = p\<lparr>pa_params := ps\<rparr>"

text \<open>\<open>end - ptr\<close>.\<close>

definition avail :: "string \<Rightarrow> nat \<Rightarrow> int" where
  "avail buf ptr = int (length buf) - int ptr"

subsection \<open>The parsing functions\<close>

definition ParseMulti :: "string \<Rightarrow> nat \<Rightarrow> int \<Rightarrow> QParseResult \<times> nat \<times> int" where
  "ParseMulti buf ptr result =
     (if avail buf ptr < 3 then (QParseResult_wait, ptr, result)
      else if buf ! ptr \<noteq> CHR ''*'' then (QParseResult_error, ptr, result)
      else
        let ptr = ptr + 1;
            (r, n, v) = GetIntUntilCRLF (drop ptr buf)
        in if r = QParseResult_ok then (r, ptr + n, v) else (r, ptr, result))"

definition ParseStrlen :: "string \<Rightarrow> nat \<Rightarrow> int \<Rightarrow> QParseResult \<times> nat \<times> int" where
  "ParseStrlen buf ptr result =
     (if avail buf ptr < 3 then (QParseResult_wait, ptr, result)
      else if buf ! ptr \<noteq> CHR ''$'' then (QParseResult_error, ptr, result)
      else
        let (r, n, v) = GetIntUntilCRLF (drop (ptr + 1) buf)
        in if r = QParseResult_ok then (r, ptr + 1 + n, v) else (r, ptr, result))"

text \<open>
  \<open>ParseStrval\<close> compares 32-bit values: \<open>paramLen_ + 2\<close> can wrap, and then the two bytes at
  \<open>tail\<close> may lie outside the buffer.
\<close>

definition ParseStrval ::
  "string \<Rightarrow> nat \<Rightarrow> QProtoParser \<Rightarrow> QString \<Rightarrow> (QParseResult \<times> nat \<times> QProtoParser \<times> QString) option" where
  "ParseStrval buf ptr p result =
     (if pa_paramLen p < 0 then None
      else if wrap32 (avail buf ptr) < wrap32 (pa_paramLen p + 2) then Some (QParseResult_wait, ptr, p, result)
      else
        let tail = int ptr + pa_paramLen p in
        if int (length buf) \<le> tail then None
        else if buf ! nat tail \<noteq> CR then Some (QParseResult_error, ptr, p, result)
        else if int (length buf) \<le> tail + 1 then None
        else if buf ! nat (tail + 1) \<noteq> LF then Some (QParseResult_error, ptr, p, result)
        else Some (QParseResult_ok, nat (tail + 2), p\<lparr>pa_paramLen := -1\<rparr>,
                   take (nat (pa_paramLen p)) (drop ptr buf)))"

definition ParseStr ::
  "string \<Rightarrow> nat \<Rightarrow> QProtoParser \<Rightarrow> QString \<Rightarrow> (QParseResult \<times> nat \<times> QProtoParser \<times> QString) option" where
  "ParseStr buf ptr p result =
     (let (r, ptr, p) =
        (if pa_paramLen p = -1 then
           (let (r, ptr, n) = ParseStrlen buf ptr (pa_paramLen p);
                p = p\<lparr>pa_paramLen := n\<rparr>
            in (if r = QParseResult_error \<or> n < -1 then QParseResult_error
                else if r \<noteq> QParseResult_ok then QParseResult_wait else QParseResult_ok, ptr, p))
         else (QParseResult_ok, ptr, p))
      in if r \<noteq> QParseResult_ok then Some (r, ptr, p, result)
         else if pa_paramLen p = -1 then Some (QParseResult_ok, ptr, p, [])
         else ParseStrval buf ptr p result)"

text \<open>
  The loop of \<open>_ParseStrlist\<close>: \<open>results\<close> (the member \<open>params_\<close>) is grown before each string
  and cut to \<open>numOfParam_\<close> at the end.
\<close>

definition grow :: "nat \<Rightarrow> QString list \<Rightarrow> QString list" where
  "grow n xs = (if length xs < n then xs @ replicate (n - length xs) [] else xs)"

function ParseStrlist ::
  "string \<Rightarrow> nat \<Rightarrow> QProtoParser \<Rightarrow> (QParseResult \<times> nat \<times> QProtoParser) option" where
  "ParseStrlist buf ptr p =
     (if int (pa_numOfParam p) < pa_multi p then
        (let rs = grow (pa_numOfParam p + 1) (pa_params p) in
         case ParseStr buf ptr p (rs ! pa_numOfParam p) of
           None \<Rightarrow> None
         | Some (r, ptr', p', s) \<Rightarrow>
             let rs' = rs[pa_numOfParam p := s] in
             if r = QParseResult_ok then
               ParseStrlist buf ptr'
                 \<lparr>pa_multi = pa_multi p, pa_paramLen = pa_paramLen p', pa_numOfParam = pa_numOfParam p + 1,
                  pa_params = rs'\<rparr>
             else Some (r, ptr', p'\<lparr>pa_params := rs'\<rparr>))
      else Some (QParseResult_ok, ptr, p\<lparr>pa_params := take (pa_numOfParam p) (pa_params p)\<rparr>))"
  by pat_completeness auto
termination
  by (relation "measure (\<lambda>(buf, ptr, p). nat (pa_multi p) - pa_numOfParam p)") auto

declare ParseStrlist.simps [simp del]

definition ParseRequest ::
  "string \<Rightarrow> nat \<Rightarrow> QProtoParser \<Rightarrow> (QParseResult \<times> nat \<times> QProtoParser) option" where
  "ParseRequest buf ptr p =
     (if pa_multi p = -1 then
        (let (r, ptr, n) = ParseMulti buf ptr (pa_multi p);
             p = p\<lparr>pa_multi := n\<rparr>
         in if r = QParseResult_error \<or> n < -1 then Some (QParseResult_error, ptr, p)
            else if r \<noteq> QParseResult_ok then Some (QParseResult_wait, ptr, p)
            else ParseStrlist buf ptr p)
      else ParseStrlist buf ptr p)"

subsection \<open>The encoder\<close>

definition WriteBulkString :: "QString \<Rightarrow> string" where
  "WriteBulkString s = ''$'' @ show_nat (length s) @ CRLF @ s @ CRLF"

definition WriteMultiBulkLong :: "nat \<Rightarrow> string" where
  "WriteMultiBulkLong n = ''*'' @ show_nat n @ CRLF"

definition WriteBulkLong :: "nat \<Rightarrow> string" where
  "WriteBulkLong n = WriteBulkString (show_nat n)"

definition SaveCommand :: "QString list \<Rightarrow> string" where
  "SaveCommand params = WriteMultiBulkLong (length params) @ concat (map WriteBulkString params)"

subsection \<open>Complete requests\<close>

lemma ParseStrlen_header:
  assumes "n < 2 ^ 31"
  shows "ParseStrlen (pre @ ''$'' @ show_nat n @ CRLF @ rest) (length pre) v =
    (QParseResult_ok, length pre + 1 + (length (show_nat n) + 2), int n)"
  using GetIntUntilCRLF_show_nat [OF assms, of rest]
  by (simp add: ParseStrlen_def avail_def nth_append CRLF_def)

lemma ParseMulti_header:
  assumes "n < 2 ^ 31"
  shows "ParseMulti (pre @ ''*'' @ show_nat n @ CRLF @ rest) (length pre) v =
    (QParseResult_ok, length pre + 1 + (length (show_nat n) + 2), int n)"
  using GetIntUntilCRLF_show_nat [OF assms, of rest]
  by (simp add: ParseMulti_def avail_def nth_append CRLF_def)

lemma ParseStrval_data:
  assumes "length (pre @ s @ CRLF @ rest) < 2 ^ 31" "pa_paramLen p = int (length s)"
  shows "ParseStrval (pre @ s @ CRLF @ rest) (length pre) p r =
    Some (QParseResult_ok, length pre + length s + 2, p\<lparr>pa_paramLen := -1\<rparr>, s)"
proof -
  let ?buf = "pre @ s @ CRLF @ rest"
  have "?buf ! (length pre + length s) = CR" "?buf ! (length pre + length s + 1) = LF"
    by (simp_all add: CRLF_def nth_append)
  moreover have "nat (int (length pre) + int (length s)) = length pre + length s"
    "nat (int (length pre) + int (length s) + 1) = length pre + length s + 1"
    "nat (int (length pre) + int (length s) + 2) = length pre + length s + 2" by simp_all
  moreover have "wrap32 (int (length s) + 2) = int (length s) + 2"
    "wrap32 (avail ?buf (length pre)) = avail ?buf (length pre)"
    using assms(1) by (auto intro!: wrap32_id simp: avail_def CRLF_def)
  ultimately show ?thesis
    using assms by (simp add: ParseStrval_def Let_def avail_def) (simp add: CRLF_def)
qed

lemma ParseStr_bulk:
  assumes "length (pre @ WriteBulkString s @ rest) < 2 ^ 31" "pa_paramLen p = -1"
  shows "ParseStr (pre @ WriteBulkString s @ rest) (length pre) p r =
    Some (QParseResult_ok, length pre + length (WriteBulkString s), p, s)"
proof -
  let ?h = "''$'' @ show_nat (length s) @ CRLF"
  have buf: "pre @ WriteBulkString s @ rest = (pre @ ?h) @ s @ CRLF @ rest"
    by (simp add: WriteBulkString_def)
  have l: "length pre + 1 + (length (show_nat (length s)) + 2) = length (pre @ ?h)"
    by (simp add: CRLF_def)
  have "length s < 2 ^ 31" using assms(1) by (simp add: WriteBulkString_def)
  then have len: "ParseStrlen (pre @ WriteBulkString s @ rest) (length pre) (-1) =
      (QParseResult_ok, length (pre @ ?h), int (length s))"
    using ParseStrlen_header [of "length s" pre "s @ CRLF @ rest" "-1"] l
    by (simp add: WriteBulkString_def)
  let ?p = "p\<lparr>pa_paramLen := int (length s)\<rparr>"
  have val: "ParseStrval ((pre @ ?h) @ s @ CRLF @ rest) (length (pre @ ?h)) ?p r =
      Some (QParseResult_ok, length (pre @ ?h) + length s + 2, ?p\<lparr>pa_paramLen := -1\<rparr>, s)"
    using assms(1) buf by (intro ParseStrval_data) auto
  have e: "?p\<lparr>pa_paramLen := -1\<rparr> = p" using assms(2) by simp
  show ?thesis
    using len val assms(2) by (simp add: ParseStr_def buf e del: append_assoc) (simp add: WriteBulkString_def CRLF_def)
qed

text \<open>The loop reads the complete strings at the front and goes on behind them.\<close>

lemma ParseStrlist_skip:
  assumes "length (pre @ concat (map WriteBulkString todo) @ rest) < 2 ^ 31"
    and "int (length done + length todo) \<le> pa_multi p" "pa_paramLen p = -1"
    and "pa_numOfParam p = length done" "take (length done) (pa_params p) = done"
  shows "\<exists>ps. take (length done + length todo) ps = done @ todo \<and>
    ParseStrlist (pre @ concat (map WriteBulkString todo) @ rest) (length pre) p =
    ParseStrlist (pre @ concat (map WriteBulkString todo) @ rest)
      (length pre + length (concat (map WriteBulkString todo)))
      \<lparr>pa_multi = pa_multi p, pa_paramLen = -1, pa_numOfParam = length done + length todo, pa_params = ps\<rparr>"
  using assms
proof (induction todo arbitrary: pre "done" p)
  case Nil
  have eq: "\<lparr>pa_multi = pa_multi p, pa_paramLen = -1, pa_numOfParam = length done, pa_params = pa_params p\<rparr> = p"
    using Nil.prems by simp
  show ?case
    using Nil.prems(5)
    by (intro exI [of _ "pa_params p"] conjI) (simp_all add: eq)
next
  case (Cons s todo)
  let ?buf = "pre @ concat (map WriteBulkString (s # todo)) @ rest"
  let ?tl = "concat (map WriteBulkString todo) @ rest"
  let ?rs = "(grow (length done + 1) (pa_params p))[length done := s]"
  let ?p = "\<lparr>pa_multi = pa_multi p, pa_paramLen = -1, pa_numOfParam = length done + 1, pa_params = ?rs\<rparr>"
  have one: "ParseStr ?buf (length pre) p r = Some (QParseResult_ok, length pre + length (WriteBulkString s), p, s)" for r
    using ParseStr_bulk [of pre s ?tl p r] Cons.prems by simp
  have "length done < length (grow (length done + 1) (pa_params p))"
    by (simp add: grow_def)
  moreover have "take (length done) (grow (length done + 1) (pa_params p)) = done"
    using Cons.prems(5) by (auto simp: grow_def)
  ultimately have tk: "take (length (done @ [s])) ?rs = done @ [s]"
    by (simp add: take_Suc_conv_app_nth)
  have step: "ParseStrlist ?buf (length pre) p = ParseStrlist ?buf (length (pre @ WriteBulkString s)) ?p"
    using Cons.prems one by (subst ParseStrlist.simps) (simp add: Let_def)
  have "\<exists>ps. take (length (done @ [s]) + length todo) ps = (done @ [s]) @ todo \<and>
    ParseStrlist ((pre @ WriteBulkString s) @ ?tl) (length (pre @ WriteBulkString s)) ?p =
    ParseStrlist ((pre @ WriteBulkString s) @ ?tl)
      (length (pre @ WriteBulkString s) + length (concat (map WriteBulkString todo)))
      \<lparr>pa_multi = pa_multi ?p, pa_paramLen = -1, pa_numOfParam = length (done @ [s]) + length todo, pa_params = ps\<rparr>"
    using Cons.prems tk by (intro Cons.IH) (simp_all del: take_append)
  then show ?case using step by (simp add: add.assoc)
qed

lemma ParseStrlist_bulks:
  assumes "length (pre @ concat (map WriteBulkString todo) @ rest) < 2 ^ 31"
    and "pa_multi p = int (length done + length todo)" "pa_paramLen p = -1"
    and "pa_numOfParam p = length done" "take (length done) (pa_params p) = done"
  shows "ParseStrlist (pre @ concat (map WriteBulkString todo) @ rest) (length pre) p =
    Some (QParseResult_ok, length pre + length (concat (map WriteBulkString todo)),
      \<lparr>pa_multi = pa_multi p, pa_paramLen = -1, pa_numOfParam = length done + length todo,
       pa_params = done @ todo\<rparr>)"
  using ParseStrlist_skip [OF assms(1) _ assms(3-5)] assms(2)
  by (auto simp: ParseStrlist.simps [of _ "length pre + length (concat (map WriteBulkString todo))"])

text \<open>A payload that is not complete yet: the length is remembered and nothing is consumed.\<close>

lemma ParseStrval_short:
  "0 \<le> pa_paramLen p \<Longrightarrow> wrap32 (avail buf ptr) < wrap32 (pa_paramLen p + 2) \<Longrightarrow>
    ParseStrval buf ptr p r = Some (QParseResult_wait, ptr, p, r)"
  by (simp add: ParseStrval_def)

lemma ParseStr_wait:
  assumes "length (pre @ ''$'' @ show_nat n @ CRLF @ part) < 2 ^ 31" "n + 2 < 2 ^ 31"
    and "length part < n + 2" "pa_paramLen p = -1"
  shows "ParseStr (pre @ ''$'' @ show_nat n @ CRLF @ part) (length pre) p r =
    Some (QParseResult_wait, length (pre @ ''$'' @ show_nat n @ CRLF), p\<lparr>pa_paramLen := int n\<rparr>, r)"
proof -
  let ?buf = "pre @ ''$'' @ show_nat n @ CRLF @ part"
  let ?fin = "length (pre @ ''$'' @ show_nat n @ CRLF)"
  have len: "ParseStrlen ?buf (length pre) (-1) = (QParseResult_ok, ?fin, int n)"
    using ParseStrlen_header [of n pre part "-1"] assms(2) by (simp add: CRLF_def)
  have av: "avail ?buf ?fin = int (length part)" by (simp add: avail_def)
  have "wrap32 (int n + 2) = int n + 2" "wrap32 (int (length part)) = int (length part)"
    using assms(1,2) by (auto intro!: wrap32_id)
  then have "ParseStrval ?buf ?fin (p\<lparr>pa_paramLen := int n\<rparr>) r =
      Some (QParseResult_wait, ?fin, p\<lparr>pa_paramLen := int n\<rparr>, r)"
    using assms(3) av by (intro ParseStrval_short) auto
  then show ?thesis using len assms(4) by (simp add: ParseStr_def)
qed

lemma ParseStr_resume:
  assumes "length (s @ CRLF @ rest) < 2 ^ 31" "pa_paramLen p = int (length s)"
  shows "ParseStr (s @ CRLF @ rest) 0 p r = Some (QParseResult_ok, length s + 2, p\<lparr>pa_paramLen := -1\<rparr>, s)"
  using ParseStrval_data [of "[]" s rest p r] assms by (simp add: ParseStr_def)

lemma SaveCommand_ParseRequest:
  assumes "length (pre @ SaveCommand ps @ rest) < 2 ^ 31"
    and "pa_multi p = -1" "pa_paramLen p = -1" "pa_numOfParam p = 0"
  shows "ParseRequest (pre @ SaveCommand ps @ rest) (length pre) p =
    Some (QParseResult_ok, length pre + length (SaveCommand ps),
      \<lparr>pa_multi = int (length ps), pa_paramLen = -1, pa_numOfParam = length ps, pa_params = ps\<rparr>)"
proof -
  let ?h = "''*'' @ show_nat (length ps) @ CRLF"
  let ?d = "concat (map WriteBulkString ps)"
  have bnd: "length xs \<le> length (concat (map WriteBulkString xs))" for xs
    by (induction xs) (simp_all add: WriteBulkString_def)
  have n: "length ps < 2 ^ 31" using assms(1) bnd [of ps] by (simp add: SaveCommand_def)
  have l: "length pre + 1 + (length (show_nat (length ps)) + 2) = length (pre @ ?h)"
    by (simp add: CRLF_def)
  have m: "ParseMulti (pre @ SaveCommand ps @ rest) (length pre) (-1) =
      (QParseResult_ok, length (pre @ ?h), int (length ps))"
    using ParseMulti_header [OF n, of pre "?d @ rest" "-1"] l
    by (simp add: SaveCommand_def WriteMultiBulkLong_def)
  let ?p = "p\<lparr>pa_multi := int (length ps)\<rparr>"
  have buf: "pre @ SaveCommand ps @ rest = (pre @ ?h) @ ?d @ rest"
    by (simp add: SaveCommand_def WriteMultiBulkLong_def)
  have "ParseStrlist ((pre @ ?h) @ ?d @ rest) (length (pre @ ?h)) ?p =
    Some (QParseResult_ok, length (pre @ ?h) + length ?d,
      \<lparr>pa_multi = pa_multi ?p, pa_paramLen = -1, pa_numOfParam = length ([]::string list) + length ps, pa_params = [] @ ps\<rparr>)"
    using assms buf by (intro ParseStrlist_bulks) (simp_all add: SaveCommand_def WriteMultiBulkLong_def)
  then have "ParseStrlist (pre @ SaveCommand ps @ rest) (length (pre @ ?h)) ?p =
    Some (QParseResult_ok, length pre + length (SaveCommand ps),
      \<lparr>pa_multi = int (length ps), pa_paramLen = -1, pa_numOfParam = length ps, pa_params = ps\<rparr>)"
    by (simp add: SaveCommand_def WriteMultiBulkLong_def)
  then show ?thesis using m assms by (simp add: ParseRequest_def)
qed

subsection \<open>The AOF loader\<close>

text \<open>A successful parse moves \<open>ptr\<close> forward: the loader's loop ends.\<close>

lemma ParseStr_mono: "ParseStr buf ptr p r = Some (q, ptr', p', s) \<Longrightarrow> ptr \<le> ptr'"
  by (auto simp: ParseStr_def ParseStrlen_def ParseStrval_def Let_def split: if_splits prod.splits)

lemma ParseStrlist_mono: "ParseStrlist buf ptr p = Some (q, ptr', p') \<Longrightarrow> ptr \<le> ptr'"
proof (induction buf ptr p arbitrary: q ptr' p' rule: ParseStrlist.induct)
  case (1 buf ptr p)
  show ?case
  proof (cases "int (pa_numOfParam p) < pa_multi p")
    case False
    then show ?thesis using "1.prems" by (subst (asm) ParseStrlist.simps) simp
  next
    case True
    let ?rs = "grow (pa_numOfParam p + 1) (pa_params p)"
    obtain r1 ptr1 p1 s where st: "ParseStr buf ptr p (?rs ! pa_numOfParam p) = Some (r1, ptr1, p1, s)"
      using "1.prems" True by (subst (asm) ParseStrlist.simps) (auto simp: Let_def split: option.splits)
    have le: "ptr \<le> ptr1" using st by (rule ParseStr_mono)
    show ?thesis
    proof (cases "r1 = QParseResult_ok")
      case False
      then show ?thesis using "1.prems" True st le by (subst (asm) ParseStrlist.simps) (simp add: Let_def)
    next
      case ok: True
      let ?p = "\<lparr>pa_multi = pa_multi p, pa_paramLen = pa_paramLen p1, pa_numOfParam = pa_numOfParam p + 1,
        pa_params = ?rs[pa_numOfParam p := s]\<rparr>"
      have "ParseStrlist buf ptr1 ?p = Some (q, ptr', p')"
        using "1.prems" True st ok by (subst (asm) ParseStrlist.simps) (simp add: Let_def)
      then have "ptr1 \<le> ptr'"
        using "1.IH" [OF True refl st refl refl refl refl ok] by simp
      with le show ?thesis by simp
    qed
  qed
qed

lemma ParseRequest_progress:
  assumes "ParseRequest buf ptr p = Some (QParseResult_ok, ptr', p')" "pa_multi p = -1"
  shows "ptr < ptr'"
proof -
  obtain r ptr1 n where m: "ParseMulti buf ptr (-1) = (r, ptr1, n)" by (metis prod_cases3)
  have ok: "r = QParseResult_ok" "ParseStrlist buf ptr1 (p\<lparr>pa_multi := n\<rparr>) = Some (QParseResult_ok, ptr', p')"
    using assms m by (auto simp: ParseRequest_def Let_def split: if_splits)
  have "ptr < ptr1"
    using m ok(1) by (auto simp: ParseMulti_def Let_def split: if_splits prod.splits)
  with ParseStrlist_mono [OF ok(2)] show ?thesis by simp
qed

text \<open>
  \<open>QAOFLoader::Load\<close> on the mapped file: the flag it returns, with the commands collected.
\<close>

function AOF_Load_loop ::
  "string \<Rightarrow> nat \<Rightarrow> QProtoParser \<Rightarrow> QString list list \<Rightarrow> (bool \<times> QString list list) option" where
  "AOF_Load_loop buf ptr p cmds =
     (if ptr < length buf then
        (case ParseRequest buf ptr (Parser_Reset p) of
           None \<Rightarrow> None
         | Some (r, ptr', p') \<Rightarrow>
             if r = QParseResult_ok then AOF_Load_loop buf ptr' p' (cmds @ [pa_params p'])
             else Some (False, cmds))
      else Some (True, cmds))"
  by pat_completeness auto
termination
proof (relation "measure (\<lambda>(buf, ptr, p, cmds). length buf - ptr)", goal_cases)
  case 1
  show ?case by simp
next
  case (2 buf ptr p cmds x r y ptr' p')
  then have "ParseRequest buf ptr (Parser_Reset p) = Some (QParseResult_ok, ptr', p')" by simp
  then have "ptr < ptr'" by (rule ParseRequest_progress) (simp add: Parser_Reset_def)
  with 2 show ?case by auto
qed

declare AOF_Load_loop.simps [simp del]

definition AOF_Load :: "string \<Rightarrow> (bool \<times> QString list list) option" where
  "AOF_Load content =
     (if content = [] then Some (False, []) else AOF_Load_loop content 0 QProtoParser_new [])"

lemma AOF_Load_loop_commands:
  assumes "length (pre @ concat (map SaveCommand cmds)) < 2 ^ 31"
  shows "AOF_Load_loop (pre @ concat (map SaveCommand cmds)) (length pre) p acc = Some (True, acc @ cmds)"
  using assms
proof (induction cmds arbitrary: pre p acc)
  case Nil
  then show ?case by (subst AOF_Load_loop.simps) simp
next
  case (Cons c cmds)
  let ?buf = "pre @ SaveCommand c @ concat (map SaveCommand cmds)"
  let ?q = "\<lparr>pa_multi = int (length c), pa_paramLen = -1, pa_numOfParam = length c, pa_params = c\<rparr>"
  have "ParseRequest ?buf (length pre) (Parser_Reset p) =
      Some (QParseResult_ok, length pre + length (SaveCommand c), ?q)"
    using Cons.prems by (intro SaveCommand_ParseRequest) (simp_all add: Parser_Reset_def)
  moreover have "length pre < length ?buf"
    by (simp add: SaveCommand_def WriteMultiBulkLong_def)
  ultimately have "AOF_Load_loop ?buf (length pre) p acc =
      AOF_Load_loop ?buf (length pre + length (SaveCommand c)) ?q (acc @ [c])"
    by (subst AOF_Load_loop.simps) simp
  also have "\<dots> = Some (True, (acc @ [c]) @ cmds)"
    using Cons.IH [of "pre @ SaveCommand c" ?q "acc @ [c]"] Cons.prems by simp
  finally show ?case by simp
qed


subsection \<open>Resuming after a partial payload\<close>

lemma ParseStrlist_wait:
  assumes "length (pre @ concat (map WriteBulkString ds) @ ''$'' @ show_nat n @ CRLF @ part) < 2 ^ 31"
    and "n + 2 < 2 ^ 31" "length part < n + 2"
    and "int (length ds) < pa_multi p" "pa_paramLen p = -1" "pa_numOfParam p = 0"
  shows "\<exists>p'. ParseStrlist (pre @ concat (map WriteBulkString ds) @ ''$'' @ show_nat n @ CRLF @ part) (length pre) p =
      Some (QParseResult_wait, length (pre @ concat (map WriteBulkString ds) @ ''$'' @ show_nat n @ CRLF), p') \<and>
    pa_multi p' = pa_multi p \<and> pa_paramLen p' = int n \<and> pa_numOfParam p' = length ds \<and>
    take (length ds) (pa_params p') = ds"
proof -
  let ?hd = "pre @ concat (map WriteBulkString ds)"
  let ?buf = "pre @ concat (map WriteBulkString ds) @ ''$'' @ show_nat n @ CRLF @ part"
  obtain ps where ps: "take (length ds) ps = ds"
    and skip: "ParseStrlist ?buf (length pre) p = ParseStrlist ?buf (length ?hd)
      \<lparr>pa_multi = pa_multi p, pa_paramLen = -1, pa_numOfParam = length ds, pa_params = ps\<rparr>"
    using ParseStrlist_skip [of pre ds "''$'' @ show_nat n @ CRLF @ part" "[]" p] assms by auto
  let ?p = "\<lparr>pa_multi = pa_multi p, pa_paramLen = -1, pa_numOfParam = length ds, pa_params = ps\<rparr>"
  have w: "ParseStr (?hd @ ''$'' @ show_nat n @ CRLF @ part) (length ?hd) ?p r =
    Some (QParseResult_wait, length (?hd @ ''$'' @ show_nat n @ CRLF), ?p\<lparr>pa_paramLen := int n\<rparr>, r)" for r
    using assms by (intro ParseStr_wait) simp_all
  have "take (length ds) (grow (length ds + 1) ps) = ds"
    using ps by (auto simp: grow_def)
  then have "ParseStrlist ?buf (length ?hd) ?p = Some (QParseResult_wait,
      length (?hd @ ''$'' @ show_nat n @ CRLF),
      ?p\<lparr>pa_paramLen := int n, pa_params := grow (length ds + 1) ps\<rparr>)"
    using w assms(4) by (subst ParseStrlist.simps) (simp add: Let_def)
  then show ?thesis
    using skip \<open>take (length ds) (grow (length ds + 1) ps) = ds\<close> by simp
qed

lemma ParseStrlist_resume:
  assumes "length (s @ CRLF @ concat (map WriteBulkString todo) @ rest) < 2 ^ 31"
    and "pa_multi p = int (length ds + 1 + length todo)" "pa_paramLen p = int (length s)"
    and "pa_numOfParam p = length ds" "take (length ds) (pa_params p) = ds"
  shows "ParseStrlist (s @ CRLF @ concat (map WriteBulkString todo) @ rest) 0 p =
    Some (QParseResult_ok, length (s @ CRLF @ concat (map WriteBulkString todo)),
      \<lparr>pa_multi = pa_multi p, pa_paramLen = -1, pa_numOfParam = length ds + 1 + length todo,
       pa_params = ds @ s # todo\<rparr>)"
proof -
  let ?tl = "concat (map WriteBulkString todo) @ rest"
  let ?rs = "(grow (length ds + 1) (pa_params p))[length ds := s]"
  let ?p = "\<lparr>pa_multi = pa_multi p, pa_paramLen = -1, pa_numOfParam = length ds + 1, pa_params = ?rs\<rparr>"
  have one: "ParseStr (s @ CRLF @ ?tl) 0 p r =
      Some (QParseResult_ok, length s + 2, p\<lparr>pa_paramLen := -1\<rparr>, s)" for r
    using assms by (intro ParseStr_resume) simp_all
  have "length ds < length (grow (length ds + 1) (pa_params p))"
    by (simp add: grow_def)
  moreover have "take (length ds) (grow (length ds + 1) (pa_params p)) = ds"
    using assms(5) by (auto simp: grow_def)
  ultimately have tk: "take (length (ds @ [s])) ?rs = ds @ [s]"
    by (simp add: take_Suc_conv_app_nth)
  have "ParseStrlist ((s @ CRLF) @ ?tl) (length (s @ CRLF)) ?p = Some (QParseResult_ok,
      length (s @ CRLF) + length (concat (map WriteBulkString todo)),
      \<lparr>pa_multi = pa_multi ?p, pa_paramLen = -1, pa_numOfParam = length (ds @ [s]) + length todo,
       pa_params = (ds @ [s]) @ todo\<rparr>)"
    using assms tk by (intro ParseStrlist_bulks) (simp_all del: take_append)
  moreover have "ParseStrlist (s @ CRLF @ ?tl) 0 p = ParseStrlist (s @ CRLF @ ?tl) (length (s @ CRLF)) ?p"
    using assms one by (subst ParseStrlist.simps) (simp add: Let_def CRLF_def)
  ultimately show ?thesis by simp
qed

subsection \<open>Properties\<close>

text \<open>C1: Encoding a command and parsing it gives the command back. Wherever in the receive
  buffer an encoded request starts, a parser in its reset state reads exactly that request,
  returns its parameters and stops at the first byte behind it, whatever follows (pipelined
  requests). The bound is the 32-bit comparison of the code.\<close>

theorem request_roundtrip:
  assumes "length (pre @ SaveCommand ps @ rest) < 2 ^ 31"
    and "pa_multi p = -1" "pa_paramLen p = -1" "pa_numOfParam p = 0"
  shows "ParseRequest (pre @ SaveCommand ps @ rest) (length pre) p =
    Some (QParseResult_ok, length pre + length (SaveCommand ps),
      \<lparr>pa_multi = int (length ps), pa_paramLen = -1, pa_numOfParam = length ps, pa_params = ps\<rparr>)"
  using assms by (rule SaveCommand_ParseRequest)

theorem request_roundtrip_witness:
  "ParseRequest (''x'' @ SaveCommand [''get'', ''k''] @ ''yz'') 1 QProtoParser_new =
    Some (QParseResult_ok, 1 + length (SaveCommand [''get'', ''k'']),
      \<lparr>pa_multi = 2, pa_paramLen = -1, pa_numOfParam = 2, pa_params = [''get'', ''k'']\<rparr>)"
proof -
  have "length (''x'' @ SaveCommand [''get'', ''k''] @ ''yz'') < 2 ^ 31"
    by (simp add: SaveCommand_def WriteMultiBulkLong_def WriteBulkString_def CRLF_def show_nat_small)
  from request_roundtrip [OF this, of QProtoParser_new] show ?thesis
    by (simp add: QProtoParser_new_def)
qed

text \<open>C2: The append-only file is a faithful log. Loading the concatenation of the encoded
  commands returns success with exactly the commands written, in order.\<close>

theorem aof_roundtrip:
  assumes "cmds \<noteq> []" "length (concat (map SaveCommand cmds)) < 2 ^ 31"
  shows "AOF_Load (concat (map SaveCommand cmds)) = Some (True, cmds)"
proof -
  have "concat (map SaveCommand cmds) \<noteq> []"
    using assms(1) by (cases cmds) (simp_all add: SaveCommand_def WriteMultiBulkLong_def)
  then show ?thesis
    using AOF_Load_loop_commands [of "[]" cmds QProtoParser_new "[]"] assms(2)
    by (simp add: AOF_Load_def)
qed

theorem aof_roundtrip_witness:
  "AOF_Load (concat (map SaveCommand [[''set'', ''a'', ''1''], [''del'', ''a'']])) =
    Some (True, [[''set'', ''a'', ''1''], [''del'', ''a'']])"
proof (rule aof_roundtrip)
  show "length (concat (map SaveCommand [[''set'', ''a'', ''1''], [''del'', ''a'']])) < 2 ^ 31"
    by (simp add: SaveCommand_def WriteMultiBulkLong_def WriteBulkString_def CRLF_def show_nat_small)
qed simp

text \<open>The two reads of a cut request, one lemma each.\<close>

lemma cut_request_bounds:
  assumes "length (SaveCommand (ds @ s # todo)) < 2 ^ 31"
  shows "length ds + 1 + length todo < 2 ^ 31"
    and "length (''*'' @ show_nat (length ds + 1 + length todo) @ CRLF) +
      length (concat (map WriteBulkString ds)) + length (''$'' @ show_nat (length s) @ CRLF) +
      length s + 2 + length (concat (map WriteBulkString todo)) < 2 ^ 31"
proof -
  have bnd: "length xs \<le> length (concat (map WriteBulkString xs))" for xs
    by (induction xs) (simp_all add: WriteBulkString_def)
  have sb: "length (WriteBulkString s) = length (''$'' @ show_nat (length s) @ CRLF) + length s + 2"
    by (simp add: WriteBulkString_def CRLF_def)
  show tot: "length (''*'' @ show_nat (length ds + 1 + length todo) @ CRLF) +
      length (concat (map WriteBulkString ds)) + length (''$'' @ show_nat (length s) @ CRLF) +
      length s + 2 + length (concat (map WriteBulkString todo)) < 2 ^ 31"
    using assms sb by (simp add: SaveCommand_def WriteMultiBulkLong_def)
  show "length ds + 1 + length todo < 2 ^ 31"
    using tot bnd [of ds] bnd [of todo] by simp
qed

lemma cut_request_first:
  assumes "length (SaveCommand (ds @ s # todo)) < 2 ^ 31" "length part < length s + 2"
  obtains p' where "ParseRequest (WriteMultiBulkLong (length ds + 1 + length todo) @
        concat (map WriteBulkString ds) @ ''$'' @ show_nat (length s) @ CRLF @ part) 0 QProtoParser_new =
      Some (QParseResult_wait, length (WriteMultiBulkLong (length ds + 1 + length todo) @
        concat (map WriteBulkString ds) @ ''$'' @ show_nat (length s) @ CRLF), p')"
    and "pa_multi p' = int (length ds + 1 + length todo)" "pa_paramLen p' = int (length s)"
    and "pa_numOfParam p' = length ds" "take (length ds) (pa_params p') = ds"
proof -
  let ?n = "length ds + 1 + length todo"
  let ?h = "''*'' @ show_nat ?n @ CRLF"
  let ?b = "concat (map WriteBulkString ds) @ ''$'' @ show_nat (length s) @ CRLF @ part"
  let ?p = "QProtoParser_new\<lparr>pa_multi := int ?n\<rparr>"
  note b = cut_request_bounds [OF assms(1)]
  have "\<exists>p'. ParseStrlist (?h @ ?b) (length ?h) ?p = Some (QParseResult_wait,
      length (?h @ concat (map WriteBulkString ds) @ ''$'' @ show_nat (length s) @ CRLF), p') \<and>
    pa_multi p' = pa_multi ?p \<and> pa_paramLen p' = int (length s) \<and> pa_numOfParam p' = length ds \<and>
    take (length ds) (pa_params p') = ds"
    using b assms(2) by (intro ParseStrlist_wait) (simp_all add: QProtoParser_new_def)
  moreover have "ParseMulti (?h @ ?b) 0 (-1) = (QParseResult_ok, length ?h, int ?n)"
    using ParseMulti_header [OF b(1), of "[]" ?b "-1"] by (simp add: CRLF_def)
  ultimately show thesis
    using that by (auto simp: ParseRequest_def QProtoParser_new_def WriteMultiBulkLong_def)
qed

lemma cut_request_second:
  assumes "length (SaveCommand (ds @ s # todo)) < 2 ^ 31"
    and "pa_multi p' = int (length ds + 1 + length todo)" "pa_paramLen p' = int (length s)"
    and "pa_numOfParam p' = length ds" "take (length ds) (pa_params p') = ds"
  shows "ParseRequest (s @ CRLF @ concat (map WriteBulkString todo)) 0 p' =
      Some (QParseResult_ok, length (s @ CRLF @ concat (map WriteBulkString todo)),
        \<lparr>pa_multi = int (length ds + 1 + length todo), pa_paramLen = -1,
         pa_numOfParam = length ds + 1 + length todo, pa_params = ds @ s # todo\<rparr>)"
proof -
  have "ParseStrlist (s @ CRLF @ concat (map WriteBulkString todo) @ []) 0 p' =
    Some (QParseResult_ok, length (s @ CRLF @ concat (map WriteBulkString todo)),
      \<lparr>pa_multi = pa_multi p', pa_paramLen = -1, pa_numOfParam = length ds + 1 + length todo,
       pa_params = ds @ s # todo\<rparr>)"
    using assms(2-) cut_request_bounds [OF assms(1)]
    by (intro ParseStrlist_resume) (simp_all add: CRLF_def)
  then show ?thesis using assms(2) by (simp add: ParseRequest_def)
qed

text \<open>A request whose bytes arrive in two reads is parsed as if they had come in one, when
  the cut lies in the payload of a string or its line end: the first call consumes what is
  complete and waits, the second call, on the unconsumed bytes and the rest, delivers all the
  parameters.\<close>

theorem request_resumes:
  assumes "length (SaveCommand (ds @ s # todo)) < 2 ^ 31" "s @ CRLF = part @ after" "after \<noteq> []"
  shows "\<exists>p'. ParseRequest (WriteMultiBulkLong (length ds + 1 + length todo) @
        concat (map WriteBulkString ds) @ ''$'' @ show_nat (length s) @ CRLF @ part) 0 QProtoParser_new =
      Some (QParseResult_wait, length (WriteMultiBulkLong (length ds + 1 + length todo) @
        concat (map WriteBulkString ds) @ ''$'' @ show_nat (length s) @ CRLF), p') \<and>
    ParseRequest (part @ after @ concat (map WriteBulkString todo)) 0 p' =
      Some (QParseResult_ok, length (part @ after @ concat (map WriteBulkString todo)),
        \<lparr>pa_multi = int (length ds + 1 + length todo), pa_paramLen = -1,
         pa_numOfParam = length ds + 1 + length todo, pa_params = ds @ s # todo\<rparr>)"
proof -
  have len: "length part + length after = length s + 2"
    using arg_cong [OF assms(2), of length] by (simp add: CRLF_def)
  then have "length part < length s + 2" using assms(3) by (cases after) auto
  from cut_request_first [OF assms(1) this] obtain p' where
    one: "ParseRequest (WriteMultiBulkLong (length ds + 1 + length todo) @
        concat (map WriteBulkString ds) @ ''$'' @ show_nat (length s) @ CRLF @ part) 0 QProtoParser_new =
      Some (QParseResult_wait, length (WriteMultiBulkLong (length ds + 1 + length todo) @
        concat (map WriteBulkString ds) @ ''$'' @ show_nat (length s) @ CRLF), p')"
    and p': "pa_multi p' = int (length ds + 1 + length todo)" "pa_paramLen p' = int (length s)"
      "pa_numOfParam p' = length ds" "take (length ds) (pa_params p') = ds"
    by blast
  have e: "part @ after @ concat (map WriteBulkString todo) = s @ CRLF @ concat (map WriteBulkString todo)"
    using assms(2) by (metis append_assoc)
  show ?thesis
    using one cut_request_second [OF assms(1) p'] unfolding e by blast
qed

theorem request_resumes_witness:
  "\<exists>p'. ParseRequest (WriteMultiBulkLong 2 @ concat (map WriteBulkString [''get'']) @ ''$5'' @ CRLF @ ''he'')
        0 QProtoParser_new =
      Some (QParseResult_wait,
        length (WriteMultiBulkLong 2 @ concat (map WriteBulkString [''get'']) @ ''$5'' @ CRLF), p') \<and>
    ParseRequest (''he'' @ (''llo'' @ CRLF) @ []) 0 p' =
      Some (QParseResult_ok, 7,
        \<lparr>pa_multi = 2, pa_paramLen = -1, pa_numOfParam = 2, pa_params = [''get'', ''hello'']\<rparr>)"
proof -
  have l: "length (SaveCommand ([''get''] @ ''hello'' # [])) < 2 ^ 31"
    by (simp add: SaveCommand_def WriteMultiBulkLong_def WriteBulkString_def CRLF_def show_nat_small)
  have "show_nat (Suc (Suc (Suc (Suc (Suc 0))))) = ''5''" by code_simp
  then show ?thesis
    using request_resumes [OF l, of "''he''" "''llo'' @ CRLF"] by (simp add: CRLF_def eval_nat_numeral)
qed

text \<open>A cut inside the header line is not survived. When the read ends inside the digits of
  a request's argument count, the parser takes the digits seen so far for the whole number and
  moves \<open>ptr\<close> two bytes past the end of the buffer, instead of waiting for the rest.\<close>

theorem header_cut_in_digits:
  assumes "100 \<le> n" "n < 2 ^ 31"
  shows "ParseMulti (''*'' @ show_nat n) 0 (-1) =
    (QParseResult_ok, length (''*'' @ show_nat n) + 2, int n)"
proof -
  have d: "\<forall>c \<in> set (show_nat n). isdigit c" by (rule show_nat_digits)
  obtain c cs where c: "show_nat n = c # cs" "isdigit c"
    using show_nat_nonempty [of n] d by (cases "show_nat n") auto
  then have sgn: "c \<noteq> CHR ''-''" "c \<noteq> CHR ''+''" by auto
  have "\<not> n < 10" "\<not> n div 10 < 10" using assms(1) by auto
  then have "3 \<le> length (show_nat n)"
    by (subst show_nat.simps, simp, subst show_nat.simps, simp)
      (use show_nat_nonempty in \<open>simp add: Suc_le_eq\<close>)
  moreover have "GetInt_loop 0 0 (show_nat n) = (QParseResult_ok, length (show_nat n) + 2, int n)"
    using GetInt_loop_cut [OF d, of 0 0] assms(2) by simp
  ultimately show ?thesis
    using c sgn by (auto simp: ParseMulti_def avail_def GetIntUntilCRLF_def)
qed

theorem header_cut_in_digits_witness:
  "ParseMulti ''*123'' 0 (-1) = (QParseResult_ok, 6, 123)"
proof -
  have "show_nat 123 = ''123''" by code_simp
  then show ?thesis using header_cut_in_digits [of 123] by simp
qed

end
