(* ===== verification/Glob.thy ===== *)
theory Glob
  imports Common
begin

text \<open>
  QedisCore/QGlobRegex.h and .cc: the glob matcher behind KEYS, SCAN and PSUBSCRIBE.

  The matcher walks two offsets, \<open>pOff_\<close> into the pattern and \<open>tOff_\<close> into the text. The
  text is a C string: reading at its length gives the terminator, reading behind that is
  outside the buffer (\<^const>\<open>None\<close>). The specification below it is a translation of the
  pattern to tokens and the usual meaning of the tokens.
\<close>

subsection \<open>The matcher\<close>

definition NotGlobRegex :: "string \<Rightarrow> bool" where
  "NotGlobRegex pattern \<longleftrightarrow>
     list_all (\<lambda>c. c \<notin> {CHR ''?'', CHR 0x5C, CHR ''['', CHR '']'', CHR ''*'', CHR ''^'', CHR ''-''}) pattern"

text \<open>A plain \<open>char\<close> is signed on the platforms the code builds for.\<close>

definition schar :: "char \<Rightarrow> int" where
  "schar c = (if code c < 128 then int (code c) else int (code c) - 256)"

definition text_at :: "string \<Rightarrow> nat \<Rightarrow> char option" where
  "text_at t i = (if i < length t then Some (t ! i) else if i = length t then Some NUL else None)"

function ProcessQuestion :: "string \<Rightarrow> string \<Rightarrow> nat \<Rightarrow> nat \<Rightarrow> bool \<times> nat \<times> nat" where
  "ProcessQuestion p t pOff tOff =
     (if pOff < length p then
        if p ! pOff \<noteq> CHR ''?'' then (True, pOff, tOff)
        else if tOff = length t then (False, pOff, tOff)
        else ProcessQuestion p t (pOff + 1) (tOff + 1)
      else (True, pOff, tOff))"
  by pat_completeness auto
termination
  by (relation "measure (\<lambda>(p, t, pOff, tOff). length p - pOff)") auto

text \<open>
  The loop over the members of a bracket: single characters and \<open>a-z\<close> spans. A span of equal
  ends is kept as a character, one with its ends swapped is turned round.
\<close>

definition span_chars :: "char \<Rightarrow> char \<Rightarrow> char list \<Rightarrow> char list" where
  "span_chars a b chars = (if schar a = schar b then a # chars else chars)"

definition span_spans :: "char \<Rightarrow> char \<Rightarrow> (int \<times> int) list \<Rightarrow> (int \<times> int) list" where
  "span_spans a b spans =
     (if schar a = schar b then spans
      else if schar a > schar b then (schar b, schar a) # spans else (schar a, schar b) # spans)"

function BracketScan ::
  "string \<Rightarrow> nat \<Rightarrow> char list \<Rightarrow> (int \<times> int) list \<Rightarrow> nat \<times> char list \<times> (int \<times> int) list" where
  "BracketScan p pOff chars spans =
     (if pOff < length p \<and> p ! pOff \<noteq> CHR '']'' then
        if pOff + 3 < length p \<and> p ! (pOff + 1) = CHR ''-'' then
          BracketScan p (pOff + 3) (span_chars (p ! pOff) (p ! (pOff + 2)) chars)
            (span_spans (p ! pOff) (p ! (pOff + 2)) spans)
        else BracketScan p (pOff + 1) (p ! pOff # chars) spans
      else (pOff, chars, spans))"
  by pat_completeness auto
termination
  by (relation "measure (\<lambda>(p, pOff, chars, spans). length p - pOff)") auto

definition accepts :: "bool \<Rightarrow> char list \<Rightarrow> (int \<times> int) list \<Rightarrow> char \<Rightarrow> bool" where
  "accepts incl chars spans c \<longleftrightarrow>
     (if c \<in> set chars \<or> list_ex (\<lambda>(a, b). a \<le> schar c \<and> schar c \<le> b) spans then incl else \<not> incl)"

text \<open>The head of a bracket: \<open>[\<close>, an optional \<open>^\<close>, and a \<open>]\<close> that is a member when it comes first.\<close>

definition bracket_open :: "string \<Rightarrow> nat \<Rightarrow> bool \<times> nat \<times> char list" where
  "bracket_open p pOff =
     (let incl = (p ! (pOff + 1) \<noteq> CHR ''^'');
          pOff = (if incl then pOff + 1 else pOff + 2)
      in if pOff < length p \<and> p ! pOff = CHR '']'' then (incl, pOff + 1, [CHR '']''])
         else (incl, pOff, []))"

definition ProcessBracket ::
  "string \<Rightarrow> string \<Rightarrow> nat \<Rightarrow> nat \<Rightarrow> (bool \<times> nat \<times> nat) option" where
  "ProcessBracket p t pOff tOff =
     (if length p \<le> pOff + 1 then Some (False, pOff, tOff)
      else
        case bracket_open p pOff of (incl, pOff1, chars) \<Rightarrow>
        case BracketScan p pOff1 chars [] of (pOff2, chars, spans) \<Rightarrow>
          if pOff2 = length p then Some (False, pOff2, tOff)
          else
            (case text_at t tOff of
               None \<Rightarrow> None
             | Some c \<Rightarrow>
                 if accepts incl chars spans c then Some (True, pOff2 + 1, tOff + 1)
                 else Some (False, pOff2 + 1, tOff)))"

function skip_stars :: "string \<Rightarrow> nat \<Rightarrow> nat" where
  "skip_stars p pOff =
     (if pOff < length p \<and> p ! pOff = CHR ''*'' then skip_stars p (pOff + 1) else pOff)"
  by pat_completeness auto
termination
  by (relation "measure (\<lambda>(p, pOff). length p - pOff)") auto

declare ProcessQuestion.simps [simp del] BracketScan.simps [simp del] skip_stars.simps [simp del]

subsection \<open>Progress\<close>

lemma ProcessQuestion_mono:
  "ProcessQuestion p t pOff tOff = (ok, pOff', tOff') \<Longrightarrow> pOff \<le> pOff'"
proof (induction p t pOff tOff rule: ProcessQuestion.induct)
  case (1 p t pOff tOff)
  from "1.prems" show ?case
    by (subst (asm) ProcessQuestion.simps) (auto split: if_splits dest!: "1.IH")
qed

lemma ProcessQuestion_progress:
  "ProcessQuestion p t pOff tOff = (True, pOff', tOff') \<Longrightarrow> pOff < length p \<Longrightarrow> p ! pOff = CHR ''?'' \<Longrightarrow>
    pOff < pOff'"
  by (subst (asm) ProcessQuestion.simps) (auto split: if_splits dest!: ProcessQuestion_mono)

lemma BracketScan_stop:
  "\<not> (pOff < length p \<and> p ! pOff \<noteq> CHR '']'') \<Longrightarrow> BracketScan p pOff cs sp = (pOff, cs, sp)"
  by (simp add: BracketScan.simps)

lemma BracketScan_span:
  "p ! pOff \<noteq> CHR '']'' \<Longrightarrow> pOff + 3 < length p \<Longrightarrow> p ! (pOff + 1) = CHR ''-'' \<Longrightarrow>
    BracketScan p pOff cs sp = BracketScan p (pOff + 3)
      (span_chars (p ! pOff) (p ! (pOff + 2)) cs) (span_spans (p ! pOff) (p ! (pOff + 2)) sp)"
  by (subst BracketScan.simps) simp

lemma BracketScan_char:
  "pOff < length p \<Longrightarrow> p ! pOff \<noteq> CHR '']'' \<Longrightarrow>
    \<not> (pOff + 3 < length p \<and> p ! (pOff + 1) = CHR ''-'') \<Longrightarrow>
    BracketScan p pOff cs sp = BracketScan p (pOff + 1) (p ! pOff # cs) sp"
  by (subst BracketScan.simps) auto

text \<open>Where the scan ends: at a closing bracket or at the end of the pattern.\<close>

lemma BracketScan_end:
  "pOff \<le> length p \<Longrightarrow> BracketScan p pOff cs sp = (pOff', cs', sp') \<Longrightarrow>
    pOff \<le> pOff' \<and> pOff' \<le> length p \<and> (pOff' < length p \<longrightarrow> p ! pOff' = CHR '']'')"
proof (induction p pOff cs sp rule: BracketScan.induct)
  case (1 p pOff cs sp)
  show ?case
  proof (cases "pOff < length p \<and> p ! pOff \<noteq> CHR '']''")
    case False
    then show ?thesis using "1.prems" by (auto simp: BracketScan_stop)
  next
    case more: True
    show ?thesis
    proof (cases "pOff + 3 < length p \<and> p ! (pOff + 1) = CHR ''-''")
      case True
      then show ?thesis
        using "1.IH"(1) [OF more True] "1.prems" more by (simp add: BracketScan_span)
    next
      case False
      then show ?thesis
        using "1.IH"(2) [OF more False] "1.prems" more by (simp add: BracketScan_char)
    qed
  qed
qed

lemma bracket_open_progress: "bracket_open p pOff = (incl, pOff', cs) \<Longrightarrow> pOff < pOff'"
  by (auto simp: bracket_open_def Let_def split: if_splits)

lemma bracket_open_bound:
  "bracket_open p pOff = (incl, pOff', cs) \<Longrightarrow> pOff + 1 < length p \<Longrightarrow> pOff' \<le> length p"
  by (auto simp: bracket_open_def Let_def split: if_splits)

lemma ProcessBracket_progress:
  assumes "ProcessBracket p t pOff tOff = Some (True, pOff', tOff')"
  shows "pOff < pOff'"
proof -
  obtain incl o1 ch where o: "bracket_open p pOff = (incl, o1, ch)" by (metis prod_cases3)
  obtain o2 cs sp where s: "BracketScan p o1 ch [] = (o2, cs, sp)" by (metis prod_cases3)
  have "pOff' = o2 + 1" "pOff + 1 < length p"
    using assms o s by (auto simp: ProcessBracket_def split: if_splits option.splits)
  with bracket_open_progress [OF o] BracketScan_end [OF bracket_open_bound [OF o] s]
  show ?thesis by simp
qed

lemma skip_stars_mono: "pOff \<le> skip_stars p pOff"
proof (induction p pOff rule: skip_stars.induct)
  case (1 p pOff)
  then show ?case by (subst skip_stars.simps) auto
qed

text \<open>\<open>TryMatch\<close> and the loop of \<open>_ProcessStar\<close>.\<close>

function TryMatch :: "string \<Rightarrow> string \<Rightarrow> nat \<Rightarrow> nat \<Rightarrow> bool option"
  and StarLoop :: "string \<Rightarrow> string \<Rightarrow> nat \<Rightarrow> nat \<Rightarrow> bool option" where
  "TryMatch p t pOff tOff =
     (if pOff < length p then
        if p ! pOff = CHR ''*'' then
          (let pOff = skip_stars p (pOff + 1) in
           if pOff = length p then Some True else StarLoop p t pOff tOff)
        else if p ! pOff = CHR ''?'' then
          (case ProcessQuestion p t pOff tOff of
             (ok, pOff', tOff') \<Rightarrow> if \<not> ok then Some False else TryMatch p t pOff' tOff')
        else if p ! pOff = CHR ''['' then
          (case ProcessBracket p t pOff tOff of
             None \<Rightarrow> None
           | Some (ok, pOff', tOff') \<Rightarrow> if \<not> ok then Some False else TryMatch p t pOff' tOff')
        else
          (let pOff1 = (if p ! pOff = CHR 0x5C \<and> pOff + 1 < length p \<and> p ! (pOff + 1) = CHR ''[''
                        then pOff + 1 else pOff) in
           if length t \<le> tOff then Some False
           else if p ! pOff1 \<noteq> t ! tOff then Some False
           else TryMatch p t (pOff1 + 1) (tOff + 1))
      else Some (pOff = length p \<and> length t = tOff))"
| "StarLoop p t pOff tOff =
     (if tOff < length t then
        (case TryMatch p t pOff tOff of
           None \<Rightarrow> None
         | Some r \<Rightarrow> if r then Some True else StarLoop p t pOff (tOff + 1))
      else Some False)"
  by pat_completeness auto
termination
proof (relation "measures [\<lambda>x. case x of Inl (p, t, a, b) \<Rightarrow> length p - a | Inr (p, t, a, b) \<Rightarrow> length p - a,
    \<lambda>x. case x of Inl (p, t, a, b) \<Rightarrow> length t - b | Inr (p, t, a, b) \<Rightarrow> length t - b,
    \<lambda>x. case x of Inl _ \<Rightarrow> 0 | Inr _ \<Rightarrow> 1]", goal_cases)
  case 1
  show ?case by simp
next
  case (2 p t pOff tOff x)
  then show ?case using skip_stars_mono [of "Suc pOff" p] by auto
next
  case (3 p t pOff tOff)
  then show ?case by (auto dest: ProcessQuestion_progress [OF sym])
next
  case (4 p t pOff tOff)
  then show ?case by (auto dest: ProcessBracket_progress)
qed auto

declare TryMatch.simps [simp del] StarLoop.simps [simp del]

definition glob_match :: "string \<Rightarrow> string \<Rightarrow> bool option" where
  "glob_match pattern t = TryMatch pattern t 0 0"

definition glob_search :: "string \<Rightarrow> string \<Rightarrow> bool option" where
  "glob_search pattern str = glob_match (''*'' @ pattern @ ''*'') str"

subsection \<open>What a pattern means\<close>

datatype gtok = GStar | GAny | GClass bool "char list" "(int \<times> int) list" | GLit char | GBad

function class_body ::
  "string \<Rightarrow> char list \<Rightarrow> (int \<times> int) list \<Rightarrow> (char list \<times> (int \<times> int) list \<times> string) option" where
  "class_body [] cs sp = None"
| "class_body (c # s) cs sp =
     (if c = CHR '']'' then Some (cs, sp, s)
      else if 3 \<le> length s \<and> s ! 0 = CHR ''-'' then
        class_body (drop 2 s) (span_chars c (s ! 1) cs) (span_spans c (s ! 1) sp)
      else class_body s (c # cs) sp)"
  by pat_completeness auto
termination
  by (relation "measure (\<lambda>(s, cs, sp). length s)") auto

declare class_body.simps(2) [simp del]

definition class_head :: "string \<Rightarrow> (bool \<times> char list \<times> (int \<times> int) list \<times> string) option" where
  "class_head s =
     (if s = [] then None
      else
        let incl = (hd s \<noteq> CHR ''^'');
            s1 = (if incl then s else tl s)
        in map_option (Pair incl)
             (if s1 \<noteq> [] \<and> hd s1 = CHR '']'' then class_body (tl s1) [CHR '']''] [] else class_body s1 [] []))"

lemma class_body_shorter: "class_body s cs sp = Some (cs', sp', r) \<Longrightarrow> length r < length s"
proof (induction s cs sp rule: class_body.induct)
  case (2 c s cs sp)
  then show ?case by (auto simp: class_body.simps(2) [of c s cs sp] split: if_splits)
qed simp

lemma class_head_shorter: "class_head s = Some (incl, cs, sp, r) \<Longrightarrow> length r < length s"
  by (auto simp: class_head_def Let_def dest!: class_body_shorter split: if_splits)

function compile :: "string \<Rightarrow> gtok list" where
  "compile [] = []"
| "compile (c # s) =
     (if c = CHR ''*'' then GStar # compile s
      else if c = CHR ''?'' then GAny # compile s
      else if c = CHR ''['' then
        (case class_head s of
           None \<Rightarrow> [GBad]
         | Some (incl, cs, sp, r) \<Rightarrow> GClass incl cs sp # compile r)
      else if c = CHR 0x5C \<and> s \<noteq> [] \<and> hd s = CHR ''['' then GLit (CHR ''['') # compile (tl s)
      else GLit c # compile s)"
  by pat_completeness auto
termination
  by (relation "measure length") (auto dest: class_head_shorter)

declare compile.simps(2) [simp del]

fun gmatch :: "gtok list \<Rightarrow> string \<Rightarrow> bool" where
  "gmatch [] s = (s = [])"
| "gmatch (GStar # ts) s = (gmatch ts s \<or> (case s of [] \<Rightarrow> False | _ # s' \<Rightarrow> gmatch (GStar # ts) s'))"
| "gmatch (GAny # ts) s = (case s of [] \<Rightarrow> False | _ # s' \<Rightarrow> gmatch ts s')"
| "gmatch (GClass incl cs sp # ts) s =
     (case s of [] \<Rightarrow> False | c # s' \<Rightarrow> accepts incl cs sp c \<and> gmatch ts s')"
| "gmatch (GLit d # ts) s = (case s of [] \<Rightarrow> False | c # s' \<Rightarrow> c = d \<and> gmatch ts s')"
| "gmatch (GBad # ts) s = False"

text \<open>The patterns whose classes cannot match the text's terminator.\<close>

fun nul_safe :: "gtok list \<Rightarrow> bool" where
  "nul_safe [] = True"
| "nul_safe (GClass incl cs sp # ts) = (\<not> accepts incl cs sp NUL \<and> nul_safe ts)"
| "nul_safe (_ # ts) = nul_safe ts"

subsection \<open>The matcher decides the specification\<close>

lemma gmatch_star: "gmatch (GStar # ts) s \<longleftrightarrow> (\<exists>i \<le> length s. gmatch ts (drop i s))"
proof (induction s)
  case Nil
  then show ?case by simp
next
  case (Cons c s)
  have "(\<exists>i \<le> length (c # s). gmatch ts (drop i (c # s))) \<longleftrightarrow>
      gmatch ts (c # s) \<or> (\<exists>i \<le> length s. gmatch ts (drop i s))"
    by (metis Suc_le_mono drop0 drop_Suc_Cons le0 length_Cons not0_implies_Suc)
  with Cons show ?case by simp
qed

lemma gmatch_star_star: "gmatch (GStar # GStar # ts) s = gmatch (GStar # ts) s"
  by (induction s) auto

lemma drop_step: "i < length p \<Longrightarrow> drop i p = p ! i # drop (Suc i) p"
  by (simp add: Cons_nth_drop_Suc)

lemma class_body_scan:
  "pOff \<le> length p \<Longrightarrow> BracketScan p pOff cs sp = (pOff', cs', sp') \<Longrightarrow>
    class_body (drop pOff p) cs sp =
    (if pOff' = length p then None else Some (cs', sp', drop (pOff' + 1) p))"
proof (induction p pOff cs sp rule: BracketScan.induct)
  case (1 p pOff cs sp)
  show ?case
  proof (cases "pOff < length p \<and> p ! pOff \<noteq> CHR '']''")
    case False
    then show ?thesis
      using "1.prems" by (cases "pOff < length p") (auto simp: BracketScan_stop drop_step class_body.simps(2))
  next
    case more: True
    have d: "drop pOff p = p ! pOff # drop (Suc pOff) p" using more by (simp add: drop_step)
    show ?thesis
    proof (cases "pOff + 3 < length p \<and> p ! (pOff + 1) = CHR ''-''")
      case True
      then have "drop (Suc pOff) p ! 0 = CHR ''-''" "drop (Suc pOff) p ! 1 = p ! (pOff + 2)"
        "3 \<le> length (drop (Suc pOff) p)" "drop 2 (drop (Suc pOff) p) = drop (pOff + 3) p"
        by (auto simp: numeral_3_eq_3 eval_nat_numeral)
      then show ?thesis
        using "1.IH"(1) [OF more True] "1.prems" more True
        by (simp add: BracketScan_span d class_body.simps(2) del: drop_drop)
    next
      case False
      then have "\<not> (3 \<le> length (drop (Suc pOff) p) \<and> drop (Suc pOff) p ! 0 = CHR ''-'')"
        by auto
      then show ?thesis
        using "1.IH"(2) [OF more False] "1.prems" more False
        by (auto simp add: BracketScan_char d class_body.simps(2) simp del: drop_drop length_drop nth_drop)
    qed
  qed
qed

lemma bracket_open_head:
  assumes "bracket_open p pOff = (incl, o1, ch)" "pOff + 1 < length p"
  shows "class_head (drop (Suc pOff) p) = map_option (Pair incl) (class_body (drop o1 p) ch [])"
proof -
  let ?s = "drop (Suc pOff) p"
  have s: "?s = p ! Suc pOff # drop (Suc (Suc pOff)) p" using assms(2) by (simp add: drop_step)
  have hd: "drop j p \<noteq> [] \<and> hd (drop j p) = c \<longleftrightarrow> j < length p \<and> p ! j = c" for j c
    by (auto simp: hd_drop_conv_nth)
  show ?thesis
  proof (cases "p ! Suc pOff = CHR ''^''")
    case True
    then show ?thesis
      using assms hd [of "Suc (Suc pOff)" "CHR '']''"] s
      by (auto simp: bracket_open_def class_head_def Let_def tl_drop drop_Suc split: if_splits)
  next
    case False
    then show ?thesis
      using assms hd [of "Suc pOff" "CHR '']''"] s
      by (auto simp: bracket_open_def class_head_def Let_def tl_drop drop_Suc split: if_splits)
  qed
qed


lemma skip_stars_compile:
  "gmatch (GStar # compile (drop pOff p)) s = gmatch (GStar # compile (drop (skip_stars p pOff) p)) s \<and>
   nul_safe (compile (drop pOff p)) = nul_safe (compile (drop (skip_stars p pOff) p))"
proof (induction p pOff rule: skip_stars.induct)
  case (1 p pOff)
  show ?case
  proof (cases "pOff < length p \<and> p ! pOff = CHR ''*''")
    case True
    then have d: "compile (drop pOff p) = GStar # compile (drop (pOff + 1) p)"
      by (simp add: drop_step compile.simps(2))
    have k: "skip_stars p pOff = skip_stars p (pOff + 1)"
      using True by (subst skip_stars.simps) simp
    show ?thesis using "1.IH" [OF True] unfolding d k
      by (simp add: gmatch_star_star del: gmatch.simps)
  next
    case False
    then have "skip_stars p pOff = pOff" by (subst skip_stars.simps) auto
    then show ?thesis by simp
  qed
qed

lemma skip_stars_end:
  "pOff \<le> length p \<Longrightarrow> skip_stars p pOff \<le> length p \<and>
    (skip_stars p pOff < length p \<longrightarrow> p ! skip_stars p pOff \<noteq> CHR ''*'')"
proof (induction p pOff rule: skip_stars.induct)
  case (1 p pOff)
  show ?case
  proof (cases "pOff < length p \<and> p ! pOff = CHR ''*''")
    case True
    then have "skip_stars p pOff = skip_stars p (pOff + 1)" by (subst skip_stars.simps) simp
    then show ?thesis using "1.IH" [OF True] True by simp
  next
    case False
    then have "skip_stars p pOff = pOff" by (subst skip_stars.simps) auto
    then show ?thesis using "1.prems" False by auto
  qed
qed

text \<open>Only stars match the empty text.\<close>

lemma gmatch_nil_head:
  "p \<noteq> [] \<Longrightarrow> hd p \<noteq> CHR ''*'' \<Longrightarrow> \<not> gmatch (compile p) []"
  by (cases p) (auto simp: compile.simps(2) split: option.splits)

lemma ProcessQuestion_spec:
  assumes "pOff \<le> length p" "tOff \<le> length t" "ProcessQuestion p t pOff tOff = (ok, pOff', tOff')"
  shows "(if ok then pOff' \<le> length p \<and> tOff' \<le> length t \<and>
      nul_safe (compile (drop pOff' p)) = nul_safe (compile (drop pOff p)) \<and>
      gmatch (compile (drop pOff p)) (drop tOff t) = gmatch (compile (drop pOff' p)) (drop tOff' t)
    else \<not> gmatch (compile (drop pOff p)) (drop tOff t))"
  using assms
proof (induction p t pOff tOff rule: ProcessQuestion.induct)
  case (1 p t pOff tOff)
  show ?case
  proof (cases "pOff < length p \<and> p ! pOff = CHR ''?''")
    case False
    then have "ProcessQuestion p t pOff tOff = (True, pOff, tOff)"
      by (subst ProcessQuestion.simps) auto
    then show ?thesis using "1.prems" by simp
  next
    case q: True
    then have d: "compile (drop pOff p) = GAny # compile (drop (pOff + 1) p)"
      by (simp add: drop_step compile.simps(2))
    show ?thesis
    proof (cases "tOff = length t")
      case True
      then have "ProcessQuestion p t pOff tOff = (False, pOff, tOff)"
        using q by (subst ProcessQuestion.simps) auto
      then show ?thesis using "1.prems" True d by simp
    next
      case False
      then have "ProcessQuestion p t pOff tOff = ProcessQuestion p t (pOff + 1) (tOff + 1)"
        using q by (subst ProcessQuestion.simps) simp
      moreover have "drop tOff t = t ! tOff # drop (tOff + 1) t"
        using False "1.prems"(2) by (simp add: drop_step)
      ultimately show ?thesis
        using "1.IH" q False "1.prems" d by (simp split: if_splits)
    qed
  qed
qed

lemma ProcessBracket_spec:
  assumes "pOff < length p" "p ! pOff = CHR ''[''" "tOff \<le> length t" "nul_safe (compile (drop pOff p))"
  shows "\<exists>ok pOff' tOff'. ProcessBracket p t pOff tOff = Some (ok, pOff', tOff') \<and>
    (if ok then pOff' \<le> length p \<and> tOff' \<le> length t \<and> nul_safe (compile (drop pOff' p)) \<and>
       gmatch (compile (drop pOff p)) (drop tOff t) = gmatch (compile (drop pOff' p)) (drop tOff' t)
     else \<not> gmatch (compile (drop pOff p)) (drop tOff t))"
proof (cases "pOff + 1 < length p")
  case False
  then have "class_head (drop (Suc pOff) p) = None" by (simp add: class_head_def)
  then have "compile (drop pOff p) = [GBad]" using assms(1,2) by (simp add: drop_step compile.simps(2))
  then show ?thesis using False by (auto simp add: ProcessBracket_def)
next
  case True
  obtain incl o1 ch where op: "bracket_open p pOff = (incl, o1, ch)" by (metis prod_cases3)
  have o1: "o1 \<le> length p" using bracket_open_bound [OF op True] .
  obtain o2 cs sp where sc: "BracketScan p o1 ch [] = (o2, cs, sp)" by (metis prod_cases3)
  have o2: "o2 \<le> length p" using BracketScan_end [OF o1 sc] by simp
  have hd: "class_head (drop (Suc pOff) p) =
      (if o2 = length p then None else Some (incl, cs, sp, drop (o2 + 1) p))"
    using bracket_open_head [OF op True] class_body_scan [OF o1 sc] by simp
  show ?thesis
  proof (cases "o2 = length p")
    case True
    then have "compile (drop pOff p) = [GBad]"
      using hd assms(1,2) by (simp add: drop_step compile.simps(2))
    then show ?thesis using True op sc \<open>pOff + 1 < length p\<close> by (auto simp add: ProcessBracket_def)
  next
    case False
    have c: "compile (drop pOff p) = GClass incl cs sp # compile (drop (o2 + 1) p)"
      using hd False assms(1,2) by (simp add: drop_step compile.simps(2))
    show ?thesis
    proof (cases "tOff < length t")
      case True
      then show ?thesis using c op sc False o2 assms(4) \<open>pOff + 1 < length p\<close>
        by (auto simp add: ProcessBracket_def text_at_def drop_step [OF True])
    next
      case eot: False
      then have "text_at t tOff = Some NUL" using assms(3) by (simp add: text_at_def)
      moreover have "\<not> accepts incl cs sp NUL" using assms(4) c by simp
      ultimately show ?thesis using c op sc False eot \<open>pOff + 1 < length p\<close>
        by (auto simp add: ProcessBracket_def)
    qed
  qed
qed

lemma TryMatch_decides:
  "pOff \<le> length p \<Longrightarrow> tOff \<le> length t \<Longrightarrow> nul_safe (compile (drop pOff p)) \<Longrightarrow>
    TryMatch p t pOff tOff = Some (gmatch (compile (drop pOff p)) (drop tOff t))"
  and StarLoop_decides:
  "pOff < length p \<Longrightarrow> p ! pOff \<noteq> CHR ''*'' \<Longrightarrow> tOff \<le> length t \<Longrightarrow> nul_safe (compile (drop pOff p)) \<Longrightarrow>
    StarLoop p t pOff tOff = Some (\<exists>i. tOff \<le> i \<and> i < length t \<and> gmatch (compile (drop pOff p)) (drop i t))"
proof (induction p t pOff tOff and p t pOff tOff rule: TryMatch_StarLoop.induct)
  case (1 p t pOff tOff)
  show ?case
  proof (cases "pOff < length p")
    case False
    then show ?thesis using "1.prems" by (subst TryMatch.simps) auto
  next
    case lt: True
    have d: "drop pOff p = p ! pOff # drop (pOff + 1) p" using lt by (simp add: drop_step)
    consider (star) "p ! pOff = CHR ''*''" | (any) "p ! pOff = CHR ''?''" | (cls) "p ! pOff = CHR ''[''"
      | (lit) "p ! pOff \<noteq> CHR ''*''" "p ! pOff \<noteq> CHR ''?''" "p ! pOff \<noteq> CHR ''[''" by blast
    then show ?thesis
    proof cases
      case star
      let ?o = "skip_stars p (pOff + 1)"
      have c: "compile (drop pOff p) = GStar # compile (drop (pOff + 1) p)"
        using d star by (simp add: compile.simps(2))
      have e: "?o \<le> length p" "?o < length p \<Longrightarrow> p ! ?o \<noteq> CHR ''*''"
        using skip_stars_end [of "pOff + 1" p] lt by auto
      have g: "gmatch (compile (drop pOff p)) (drop tOff t) \<longleftrightarrow>
          (\<exists>i \<le> length (drop tOff t). gmatch (compile (drop ?o p)) (drop i (drop tOff t)))"
        using skip_stars_compile [of "pOff + 1" p "drop tOff t"] c gmatch_star by metis
      show ?thesis
      proof (cases "?o = length p")
        case True
        have "gmatch (compile (drop pOff p)) (drop tOff t)"
          unfolding g True by (rule exI [of _ "length (drop tOff t)"]) simp
        then show ?thesis using star lt True by (subst TryMatch.simps) simp
      next
        case False
        then have o: "?o < length p" using e(1) by simp
        have nil: "\<not> gmatch (compile (drop ?o p)) []"
          using gmatch_nil_head [of "drop ?o p"] o e(2) by (simp add: hd_drop_conv_nth)
        have "(\<exists>i. tOff \<le> i \<and> i < length t \<and> gmatch (compile (drop ?o p)) (drop i t)) =
            gmatch (compile (drop pOff p)) (drop tOff t)" (is "?L = _")
        proof
          assume ?L
          then obtain i where "tOff \<le> i" "i < length t" "gmatch (compile (drop ?o p)) (drop i t)" by blast
          then show "gmatch (compile (drop pOff p)) (drop tOff t)"
            unfolding g by (intro exI [of _ "i - tOff"]) simp
        next
          assume "gmatch (compile (drop pOff p)) (drop tOff t)"
          then obtain i where i: "i \<le> length t - tOff" "gmatch (compile (drop ?o p)) (drop (tOff + i) t)"
            unfolding g by (auto simp: add.commute)
          then have "tOff + i \<noteq> length t" using nil by auto
          with i "1.prems"(2) show ?L by (intro exI [of _ "tOff + i"]) auto
        qed
        moreover have "nul_safe (compile (drop ?o p))"
          using "1.prems"(3) c skip_stars_compile [of "pOff + 1" p] by simp
        ultimately have "StarLoop p t ?o tOff = Some (gmatch (compile (drop pOff p)) (drop tOff t))"
          using "1.IH"(1) [OF lt star refl False o e(2) [OF o] "1.prems"(2)] by simp
        then show ?thesis using star lt False by (subst TryMatch.simps) simp
      qed
    next
      case any
      obtain ok p' t' where q: "ProcessQuestion p t pOff tOff = (ok, p', t')" by (metis prod_cases3)
      note s = ProcessQuestion_spec [OF "1.prems"(1,2) q]
      show ?thesis
      proof (cases ok)
        case False
        then show ?thesis using s q any lt by (subst TryMatch.simps) simp
      next
        case True
        then have "TryMatch p t p' t' = Some (gmatch (compile (drop p' p)) (drop t' t))"
          using "1.IH"(2) [OF lt _ any q [symmetric] refl] s "1.prems"(3) any by simp
        then show ?thesis using s q any lt True by (subst TryMatch.simps) simp
      qed
    next
      case cls
      obtain ok p' t' where b: "ProcessBracket p t pOff tOff = Some (ok, p', t')"
        and s: "if ok then p' \<le> length p \<and> t' \<le> length t \<and> nul_safe (compile (drop p' p)) \<and>
            gmatch (compile (drop pOff p)) (drop tOff t) = gmatch (compile (drop p' p)) (drop t' t)
          else \<not> gmatch (compile (drop pOff p)) (drop tOff t)"
        using ProcessBracket_spec [OF lt cls "1.prems"(2,3)] by blast
      show ?thesis
      proof (cases ok)
        case False
        then show ?thesis using s b cls lt by (subst TryMatch.simps) simp
      next
        case True
        then have "TryMatch p t p' t' = Some (gmatch (compile (drop p' p)) (drop t' t))"
          using "1.IH"(3) [OF lt _ _ cls b refl refl] s cls by simp
        then show ?thesis using s b cls lt True by (subst TryMatch.simps) simp
      qed
    next
      case lit
      let ?esc = "p ! pOff = CHR 0x5C \<and> pOff + 1 < length p \<and> p ! (pOff + 1) = CHR ''[''"
      let ?o = "if ?esc then pOff + 1 else pOff"
      have c: "compile (drop pOff p) = GLit (p ! ?o) # compile (drop (?o + 1) p)"
      proof -
        have tl: "tl (drop (Suc pOff) p) = drop (Suc (Suc pOff)) p" by (simp add: drop_Suc tl_drop)
        show ?thesis using lit d by (auto simp: compile.simps(2) hd_drop_conv_nth tl)
      qed
      have o: "?o + 1 \<le> length p" using lt by simp
      show ?thesis
      proof (cases "tOff < length t")
        case False
        then show ?thesis using lit lt c "1.prems"(2) by (subst TryMatch.simps) (simp add: Let_def)
      next
        case True
        have IH: "t ! tOff = p ! ?o \<Longrightarrow> TryMatch p t (?o + 1) (tOff + 1) =
            Some (gmatch (compile (drop (?o + 1) p)) (drop (tOff + 1) t))"
          using "1.IH"(4) [OF lt lit refl] True o c "1.prems" by (simp split: if_splits)
        show ?thesis
          using IH lit lt c True by (subst TryMatch.simps) (auto simp: Let_def drop_step)
      qed
    qed
  qed
next
  case (2 p t pOff tOff)
  show ?case
  proof (cases "tOff < length t")
    case False
    then show ?thesis by (subst StarLoop.simps) auto
  next
    case True
    have t: "TryMatch p t pOff tOff = Some (gmatch (compile (drop pOff p)) (drop tOff t))"
      using "2.IH"(1) True "2.prems" by simp
    show ?thesis
    proof (cases "gmatch (compile (drop pOff p)) (drop tOff t)")
      case m: True
      then show ?thesis using t True by (subst StarLoop.simps) auto
    next
      case m: False
      have "StarLoop p t pOff (tOff + 1) =
          Some (\<exists>i. tOff + 1 \<le> i \<and> i < length t \<and> gmatch (compile (drop pOff p)) (drop i t))"
        using "2.IH"(2) [OF True t m] "2.prems" True by simp
      moreover have "(\<exists>i. tOff + 1 \<le> i \<and> i < length t \<and> gmatch (compile (drop pOff p)) (drop i t)) =
          (\<exists>i. tOff \<le> i \<and> i < length t \<and> gmatch (compile (drop pOff p)) (drop i t))"
        using m by (metis Suc_eq_plus1 le_antisym not_less_eq_eq Suc_leD)
      ultimately show ?thesis using t m True by (subst StarLoop.simps) simp
    qed
  qed
qed

subsection \<open>Properties\<close>

text \<open>C3: The glob matcher decides the meaning of its pattern: on a pattern none of whose classes
  can match the text's terminator, it never leaves the buffer and answers whether the token
  list of the pattern matches the whole text.\<close>

theorem glob_correct:
  assumes "nul_safe (compile p)"
  shows "glob_match p t = Some (gmatch (compile p) t)"
  using TryMatch_decides [of 0 p 0 t] assms by (simp add: glob_match_def)

theorem glob_correct_witness:
  "glob_match ''h[a-e]?lo*'' ''hello!'' = Some True"
proof -
  have "nul_safe (compile ''h[a-e]?lo*'') \<and> gmatch (compile ''h[a-e]?lo*'') ''hello!''" by code_simp
  then show ?thesis using glob_correct [of "''h[a-e]?lo*''" "''hello!''"] by simp
qed

text \<open>A negated class at the end of the text is the exception: it accepts the terminator of
  the text as if it were a character, so a longer pattern matches a text one byte too short, and
  a second such class reads behind the terminator.\<close>

theorem glob_negated_class_overrun:
  "glob_match ''a[^b]*'' ''a'' = Some True \<and> \<not> gmatch (compile ''a[^b]*'') ''a'' \<and>
   glob_match ''[^a][^b]'' [] = None"
  by code_simp

text \<open>The unit test of the repository (UnitTest/QGlobRegex\_unittest.cc).\<close>

lemma unit_test_match:
  "list_all (\<lambda>(p, t, r). glob_match p t = Some r)
     [(''a*b?*?'', ''abxy'', True), (''*a'', ''aa'', True), (''*a'', ''abaa'', True),
      (''***a'', ''aaaa'', True), (''a*b?*?'', ''cb'', False), (''a*b'', ''ab'', True),
      (''a*b'', ''acb'', True), (''a*b'', ''acccb'', True), (''a*b'', ''accc'', False),
      (''a?b'', ''ab'', False), (''a?b'', ''acb'', True), (''a?b'', ''acc'', False),
      (''a?b'', ''accb'', False), (''[-]'', ''-'', True), (''[-abc]'', ''-'', True),
      (''[-]??'', ''--x'', True), (''[a-ce-a]'', ''a'', True), (''[a-eg-z]'', ''u'', True),
      (''[^a-eg-z]'', ''u'', False), (''[abcx-z]'', ''c'', True), (''[abcx-z]'', ''y'', True),
      (''[^abcx-z]'', ''c'', False), (''[^abcx-z]'', ''y'', False), (''[a-z]'', ''U'', False),
      (''[^a-z]'', ''U'', True), (''[a--]'', ''-'', True), (''[^a--]'', ''-'', False),
      (''[---]'', ''-'', True), (''[-]'', ''-'', True), (''[-xyz]'', ''-'', True),
      (''[]]'', '']'', True), (''x[]abc]'', ''x]'', True), (''x[ab]c]'', ''x]'', False),
      (''x'' @ [CHR 0x5C] @ ''[ab]y'', ''x[ab]y'', True),
      (''x*'' @ [CHR 0x5C], ''xab'' @ [CHR 0x5C], True),
      ([CHR 0x5C] @ ''*'' @ [CHR 0x5C], [CHR 0x5C] @ ''fuckyou'' @ [CHR 0x5C], True),
      (''[a-e]'', ''xa'', False), (''*[a-e]*'', ''x'', False), (''*[a-e]*'', ''xy'', False),
      (''*[a-e]*'', ''xya'', True), (''*[a-e]*'', ''xay'', True), (''*[a-e]*'', ''axy'', True),
      (''[a-e'', ''a'', False), (''*a-e]*'', ''a-e]'', True), (''[a-e*'', ''a'', False),
      (''a[-]'', ''a-'', True), (''a['', ''a['', False),
      (''a'' @ [CHR 0x5C] @ ''['', ''a['', True), (''a[]]'', ''a]'', True),
      (''a[^^]'', ''a$'', True), (''a[^^]'', ''a^'', False), (''a**[^^]'', ''a^!'', True),
      (''**a**'', ''xyz'', False)]"
  by code_simp

lemma unit_test_search:
  "list_all (\<lambda>(p, t, r). glob_search p t = Some r)
     [(''[a-e]'', ''xa'', True), (''[a-e]'', ''x'', False), (''[a-e]'', ''xy'', False),
      (''[a-e]'', ''xya'', True), (''[a-e]'', ''xay'', True), (''[a-e]'', ''axy'', True)]"
  by code_simp

end
