(* ===== verification/Helper.thy ===== *)
theory Helper
  imports Prelude
begin

text \<open>
  QedisCore/QHelper.h and QHelper.cc: the string hash, the bit count of BITCOUNT and the cursor
  scan over the buckets of a hash table (SCAN, HSCAN, SSCAN). A hash table is its list of buckets.
\<close>

subsection \<open>The hash function\<close>

definition hash_m :: "32 word" where "hash_m = 0x5bd1e995"

definition byte32 :: "char \<Rightarrow> 32 word" where "byte32 c = of_nat (code c)"

text \<open>Four bytes at a time, read as a little-endian word, then the last bytes, then the final mix.\<close>

definition load32 :: "char \<Rightarrow> char \<Rightarrow> char \<Rightarrow> char \<Rightarrow> 32 word" where
  "load32 a b c d = or (byte32 a) (or (push_bit 8 (byte32 b)) (or (push_bit 16 (byte32 c)) (push_bit 24 (byte32 d))))"

fun hash_blocks :: "32 word \<Rightarrow> string \<Rightarrow> 32 word \<times> string" where
  "hash_blocks h (a # b # c # d # data) =
     (let k = load32 a b c d * hash_m;
          k = xor k (drop_bit 24 k);
          k = k * hash_m
      in hash_blocks (xor (h * hash_m) k) data)"
| "hash_blocks h data = (h, data)"

definition hash_tail :: "32 word \<Rightarrow> string \<Rightarrow> 32 word" where
  "hash_tail h data =
     (if data = [] then h
      else
        let h = (if 3 \<le> length data then xor h (push_bit 16 (byte32 (data ! 2))) else h);
            h = (if 2 \<le> length data then xor h (push_bit 8 (byte32 (data ! 1))) else h)
        in xor h (byte32 (data ! 0)) * hash_m)"

definition dictGenHashFunction :: "string \<Rightarrow> 32 word" where
  "dictGenHashFunction key =
     (let (h, rest) = hash_blocks (xor 5381 (of_nat (length key))) key;
          h = hash_tail h rest;
          h = xor h (drop_bit 13 h);
          h = h * hash_m
      in xor h (drop_bit 15 h))"

subsection \<open>Counting bits\<close>

definition bitsinbyte :: "nat list" where
  "bitsinbyte =
     [0, 1, 1, 2, 1, 2, 2, 3, 1, 2, 2, 3, 2, 3, 3, 4, 1, 2, 2, 3, 2, 3, 3, 4, 2, 3, 3, 4, 3, 4, 4, 5,
      1, 2, 2, 3, 2, 3, 3, 4, 2, 3, 3, 4, 3, 4, 4, 5, 2, 3, 3, 4, 3, 4, 4, 5, 3, 4, 4, 5, 4, 5, 5, 6,
      1, 2, 2, 3, 2, 3, 3, 4, 2, 3, 3, 4, 3, 4, 4, 5, 2, 3, 3, 4, 3, 4, 4, 5, 3, 4, 4, 5, 4, 5, 5, 6,
      2, 3, 3, 4, 3, 4, 4, 5, 3, 4, 4, 5, 4, 5, 5, 6, 3, 4, 4, 5, 4, 5, 5, 6, 4, 5, 5, 6, 5, 6, 6, 7,
      1, 2, 2, 3, 2, 3, 3, 4, 2, 3, 3, 4, 3, 4, 4, 5, 2, 3, 3, 4, 3, 4, 4, 5, 3, 4, 4, 5, 4, 5, 5, 6,
      2, 3, 3, 4, 3, 4, 4, 5, 3, 4, 4, 5, 4, 5, 5, 6, 3, 4, 4, 5, 4, 5, 5, 6, 4, 5, 5, 6, 5, 6, 6, 7,
      2, 3, 3, 4, 3, 4, 4, 5, 3, 4, 4, 5, 4, 5, 5, 6, 3, 4, 4, 5, 4, 5, 5, 6, 4, 5, 5, 6, 5, 6, 6, 7,
      3, 4, 4, 5, 4, 5, 5, 6, 4, 5, 5, 6, 5, 6, 6, 7, 4, 5, 5, 6, 5, 6, 6, 7, 5, 6, 6, 7, 6, 7, 7, 8]"

primrec BitCount_words :: "nat \<Rightarrow> char list \<Rightarrow> nat" where
  "BitCount_words 0 buf = 0"
| "BitCount_words (Suc i) buf =
     BitCount_words i buf + bitsinbyte ! code (buf ! (4 * i)) + bitsinbyte ! code (buf ! (4 * i + 1)) +
     bitsinbyte ! code (buf ! (4 * i + 2)) + bitsinbyte ! code (buf ! (4 * i + 3))"

primrec BitCount_rest :: "nat \<Rightarrow> nat \<Rightarrow> char list \<Rightarrow> nat" where
  "BitCount_rest loop 0 buf = 0"
| "BitCount_rest loop (Suc i) buf = BitCount_rest loop i buf + bitsinbyte ! code (buf ! (4 * loop + i))"

definition BitCount :: "char list \<Rightarrow> nat \<Rightarrow> nat" where
  "BitCount buf len = BitCount_words (len div 4) buf + BitCount_rest (len div 4) (len mod 4) buf"

text \<open>The specification: the bits that are set in a byte.\<close>

fun popcount :: "nat \<Rightarrow> nat" where
  "popcount n = (if n = 0 then 0 else n mod 2 + popcount (n div 2))"

declare popcount.simps [simp del]

lemma bitsinbyte_popcount: "map popcount [0..<256] = bitsinbyte"
  unfolding bitsinbyte_def by code_simp

lemma bitsinbyte_nth: "n < 256 \<Longrightarrow> bitsinbyte ! n = popcount n"
  by (simp flip: bitsinbyte_popcount)

lemma BitCount_words_spec:
  "4 * n \<le> length buf \<Longrightarrow> BitCount_words n buf = (\<Sum>c\<leftarrow>take (4 * n) buf. popcount (code c))"
proof (induction n)
  case (Suc n)
  have "take (4 * Suc n) buf = take (4 * n) buf @ [buf ! (4 * n), buf ! (4 * n + 1), buf ! (4 * n + 2), buf ! (4 * n + 3)]"
    using Suc.prems take_Suc_conv_app_nth [of "4 * n" buf] take_Suc_conv_app_nth [of "Suc (4 * n)" buf]
      take_Suc_conv_app_nth [of "Suc (Suc (4 * n))" buf] take_Suc_conv_app_nth [of "Suc (Suc (Suc (4 * n)))" buf]
    by (simp add: eval_nat_numeral)
  then show ?case using Suc by (simp add: bitsinbyte_nth)
qed simp

lemma BitCount_rest_spec:
  "4 * loop + n \<le> length buf \<Longrightarrow>
    BitCount_rest loop n buf = (\<Sum>c\<leftarrow>take n (drop (4 * loop) buf). popcount (code c))"
proof (induction n)
  case (Suc n)
  then show ?case by (simp add: take_Suc_conv_app_nth bitsinbyte_nth)
qed simp

lemma BitCount_spec:
  assumes "len \<le> length buf"
  shows "BitCount buf len = (\<Sum>c\<leftarrow>take len buf. popcount (code c))"
proof -
  have "take len buf = take (4 * (len div 4)) buf @ take (len mod 4) (drop (4 * (len div 4)) buf)"
    by (metis mult_div_mod_eq take_add)
  moreover have "4 * (len div 4) + len mod 4 \<le> length buf" using assms by simp
  ultimately show ?thesis
    using BitCount_words_spec [of "len div 4" buf] BitCount_rest_spec [of "len div 4" "len mod 4" buf]
    by (simp add: BitCount_def)
qed

subsection \<open>The cursor scan\<close>

fun next_bucket :: "'a list list \<Rightarrow> ('a list \<times> 'a list list) option" where
  "next_bucket [] = None"
| "next_bucket (b # bs) = (if b \<noteq> [] then Some (b, bs) else next_bucket bs)"

lemma next_bucket_concat:
  "next_bucket bs = Some (b, bs') \<Longrightarrow> b \<noteq> [] \<and> concat bs = b @ concat bs'"
  "next_bucket bs = None \<Longrightarrow> concat bs = []"
  by (induction bs rule: next_bucket.induct) (auto split: if_splits)

text \<open>The inner loop: \<open>it\<close> is the rest of the current bucket, \<open>bs\<close> the buckets behind it.\<close>

function scan_fill :: "nat \<Rightarrow> nat \<Rightarrow> 'a list \<Rightarrow> 'a list list \<Rightarrow> 'a list \<Rightarrow> nat \<times> 'a list" where
  "scan_fill count newCursor it bs res =
     (if length res < count \<and> it \<noteq> [] then
        if tl it \<noteq> [] then scan_fill count (newCursor + 1) (tl it) bs (res @ [hd it])
        else
          (case next_bucket bs of
             None \<Rightarrow> (0, res @ [hd it])
           | Some (it', bs') \<Rightarrow> scan_fill count (newCursor + 1) it' bs' (res @ [hd it]))
      else (newCursor, res))"
  by pat_completeness auto
termination
  by (relation "measure (\<lambda>(count, nc, it, bs, res). length it + length (concat bs))")
    (auto dest!: next_bucket_concat(1) simp: neq_Nil_conv)

declare scan_fill.simps [simp del]

fun scan_find :: "nat \<Rightarrow> nat \<Rightarrow> nat \<Rightarrow> 'a list list \<Rightarrow> nat \<times> 'a list" where
  "scan_find idx cursor count [] = (0, [])"
| "scan_find idx cursor count (b # bs) =
     (if idx < length b then scan_fill count cursor (drop idx b) bs []
      else scan_find (idx - length b) cursor count bs)"

definition ScanHashMember :: "'a list list \<Rightarrow> nat \<Rightarrow> nat \<Rightarrow> nat \<times> 'a list" where
  "ScanHashMember buckets cursor count =
     (if length (concat buckets) \<le> cursor then (0, []) else scan_find cursor cursor count buckets)"

text \<open>
  \<open>RandomHashMember\<close> draws buckets until one is not empty, then a position in it. The numbers
  \<open>random()\<close> returns are the list; \<^const>\<open>None\<close> stands for a run that has used them up.
\<close>

fun random_bucket :: "nat list \<Rightarrow> 'a list list \<Rightarrow> ('a list \<times> nat list) option" where
  "random_bucket [] buckets = None"
| "random_bucket (n # ns) buckets =
     (let b = buckets ! (n mod length buckets) in if b = [] then random_bucket ns buckets else Some (b, ns))"

definition RandomHashMember :: "nat list \<Rightarrow> 'a list list \<Rightarrow> 'a option option" where
  "RandomHashMember ns buckets =
     (if concat buckets = [] then Some None
      else
        case random_bucket ns buckets of
          Some (b, n # ns) \<Rightarrow> Some (Some (b ! (n mod length b)))
        | _ \<Rightarrow> None)"

lemma random_bucket_member: "random_bucket ns buckets = Some (b, ms) \<Longrightarrow> buckets \<noteq> [] \<Longrightarrow> b \<in> set buckets \<and> b \<noteq> []"
  by (induction ns buckets rule: random_bucket.induct) (auto simp: Let_def split: if_splits)

text \<open>A choice that is made is a member, and none is made only from an empty table.\<close>

lemma RandomHashMember_member:
  "RandomHashMember ns buckets = Some x \<Longrightarrow>
    (case x of None \<Rightarrow> concat buckets = [] | Some y \<Rightarrow> y \<in> set (concat buckets))"
proof -
  assume r: "RandomHashMember ns buckets = Some x"
  show ?thesis
  proof (cases "concat buckets = []")
    case False
    then obtain b n ms where b: "random_bucket ns buckets = Some (b, n # ms)" "x = Some (b ! (n mod length b))"
      using r by (auto simp: RandomHashMember_def simp del: concat_eq_Nil_conv split: option.splits list.splits)
    moreover have "buckets \<noteq> []" using False by auto
    ultimately have "b \<in> set buckets" "b \<noteq> []" using random_bucket_member by blast+
    then have "b ! (n mod length b) \<in> set b" by simp
    with \<open>b \<in> set buckets\<close> b(2) show ?thesis by (auto simp del: nth_mem)
  qed (use r in \<open>simp add: RandomHashMember_def\<close>)
qed

lemma scan_fill_spec:
  assumes "it \<noteq> []"
  shows "scan_fill count nc it bs res =
    (let xs = it @ concat bs; n = count - length res in
     (if n = 0 then nc else if n < length xs then nc + n else 0, res @ take n xs))"
  using assms
proof (induction count nc it bs res rule: scan_fill.induct)
  case (1 count nc it bs res)
  obtain x xs where it: "it = x # xs" using "1.prems" by (cases it) auto
  show ?case
  proof (cases "length res < count")
    case False
    then show ?thesis by (subst scan_fill.simps) simp
  next
    case True
    then obtain n where n: "count - length res = Suc n" "count - Suc (length res) = n"
      by (metis Suc_diff_Suc)
    show ?thesis
    proof (cases "xs = []")
      case False
      then have "scan_fill count (nc + 1) xs bs (res @ [x]) =
        (let ys = xs @ concat bs; n = count - length (res @ [x]) in
         (if n = 0 then nc + 1 else if n < length ys then nc + 1 + n else 0, (res @ [x]) @ take n ys))"
        using "1.IH"(1) True it by simp
      then show ?thesis using False True it n by (subst scan_fill.simps) (simp add: Let_def)
    next
      case xs: True
      show ?thesis
      proof (cases "next_bucket bs")
        case None
        then show ?thesis
          using next_bucket_concat(2) [OF None] True it xs n
          by (subst scan_fill.simps) (simp add: Let_def del: concat_eq_Nil_conv)
      next
        case (Some bb)
        obtain it' bs' where bb: "bb = (it', bs')" by (cases bb)
        note c = next_bucket_concat(1) [OF Some [unfolded bb]]
        then have "scan_fill count (nc + 1) it' bs' (res @ [x]) =
          (let ys = it' @ concat bs'; n = count - length (res @ [x]) in
           (if n = 0 then nc + 1 else if n < length ys then nc + 1 + n else 0, (res @ [x]) @ take n ys))"
          using "1.IH"(2) True it xs Some bb by simp
        then show ?thesis
          using True it xs n Some bb c by (subst scan_fill.simps) (simp add: Let_def)
      qed
    qed
  qed
qed

lemma scan_find_spec:
  "idx < length (concat bs) \<Longrightarrow>
    scan_find idx cursor count bs =
    (if count = 0 then cursor else if count < length (concat bs) - idx then cursor + count else 0,
     take count (drop idx (concat bs)))"
proof (induction idx cursor count bs rule: scan_find.induct)
  case (2 idx cursor count b bs)
  show ?case
  proof (cases "idx < length b")
    case True
    then show ?thesis by (simp add: scan_fill_spec Let_def)
  next
    case False
    then show ?thesis using 2 by (simp add: add.commute)
  qed
qed simp

lemma ScanHashMember_spec:
  "ScanHashMember buckets cursor count =
    (if count = 0 \<and> cursor < length (concat buckets) then cursor
     else if cursor + count < length (concat buckets) then cursor + count else 0,
     take count (drop cursor (concat buckets)))"
  by (auto simp: ScanHashMember_def scan_find_spec)

text \<open>A scan session: the pages a client receives until the cursor is 0 again.\<close>

fun scan_session :: "nat \<Rightarrow> 'a list list \<Rightarrow> nat \<Rightarrow> nat \<Rightarrow> 'a list list option" where
  "scan_session 0 buckets count cursor = None"
| "scan_session (Suc fuel) buckets count cursor =
     (case ScanHashMember buckets cursor count of
        (next, page) \<Rightarrow>
          if next = 0 then Some [page] else map_option (Cons page) (scan_session fuel buckets count next))"

lemma scan_session_from:
  "0 < count \<Longrightarrow> length (concat buckets) - cursor < fuel \<Longrightarrow>
    \<exists>pages. scan_session fuel buckets count cursor = Some pages \<and> concat pages = drop cursor (concat buckets)"
proof (induction fuel arbitrary: cursor)
  case (Suc fuel)
  show ?case
  proof (cases "cursor + count < length (concat buckets)")
    case True
    then have "length (concat buckets) - (cursor + count) < fuel" using Suc.prems by linarith
    from Suc.IH [OF Suc.prems(1) this] obtain pages where
      p: "scan_session fuel buckets count (cursor + count) = Some pages"
        "concat pages = drop (cursor + count) (concat buckets)" by blast
    then show ?thesis
      using True Suc.prems(1)
      by (simp add: ScanHashMember_spec) (metis add.commute append_take_drop_id drop_drop)
  next
    case False
    then show ?thesis using Suc.prems(1) by (simp add: ScanHashMember_spec)
  qed
qed simp

subsection \<open>Properties\<close>

text \<open>The table-driven bit count, four bytes per round, is the number of bits that are set in
  the first \<open>len\<close> bytes.\<close>

theorem BitCount_correct:
  assumes "len \<le> length buf"
  shows "BitCount buf len = (\<Sum>c\<leftarrow>take len buf. popcount (code c))"
  using assms by (rule BitCount_spec)

theorem BitCount_correct_witness: "BitCount ''foobar'' 6 = 26"
proof -
  have "(\<Sum>c\<leftarrow>take 6 ''foobar''. popcount (code c)) = 26" by code_simp
  then show ?thesis using BitCount_correct [of 6 "''foobar''"] by simp
qed

text \<open>C5: A scan is complete and duplicate free. Over a table that does not change, following the
  cursor from 0 with any positive page size comes back to 0, after at most one call per element
  and one more, and the pages put together are all elements, each once, in bucket order.\<close>

theorem scan_complete:
  assumes "0 < count"
  shows "\<exists>pages. scan_session (Suc (length (concat buckets))) buckets count 0 = Some pages \<and>
    concat pages = concat buckets"
  using scan_session_from [OF assms, of buckets 0 "Suc (length (concat buckets))"] by simp

theorem scan_complete_witness:
  "\<exists>pages. scan_session 6 [[1], [], [2, 3, 4], [5::nat]] 2 0 = Some pages \<and> concat pages = [1, 2, 3, 4, 5]"
  using scan_complete [of 2 "[[1], [], [2, 3, 4], [5::nat]]"] by (simp add: eval_nat_numeral)

end
