(* ===== verification/Store.thy ===== *)
theory Store
  imports Common
begin

text \<open>
  QedisCore/QStore.h and QStore.cc: the objects, the numbered databases with their expiry
  tables, and the disk backends behind them.

  A database (\<open>QDB\<close>) and an expiry table (\<open>Q_EXPIRE_DB\<close>) are association lists with
  distinct keys; nothing proved depends on their order. \<open>::Now()\<close> is the field \<open>now\<close>,
  constant while one command runs. A pointer into the table is the key it was obtained for: a
  mutation through it is an update of the current database at that key (\<open>put_obj\<close>).
  A backend is a function from keys to the object its \<open>Get\<close> decodes, with the
  remaining seconds to live in the object's \<open>lru\<close> field, as in the code. In
  \<open>waitSyncKeys\<close> (empty when there is no backend) a key carries whether its object pointer
  is non-null. What concerns blocked clients and propagation is in the theory \<open>Server\<close>.
\<close>

subsection \<open>Objects\<close>

text \<open>
  Doubles are IEEE bit patterns. A sorted set keeps its members twice: by score, in the order of
  the \<open>std::map\<close> and the \<open>std::set\<close>s in it, and by name.
\<close>

type_synonym double = "64 word"

record QSortedSet =
  zscores :: "(double \<times> QString list) list"
  zmembers :: "(QString \<times> double) list"

text \<open>
  The order of doubles, on their bits: \<open>dbl_key\<close> is strictly monotone on the values that are
  no NaN and sends both zeros to 0.
\<close>

definition dbl_key :: "double \<Rightarrow> int" where
  "dbl_key d = (if bit d 63 then - uint (take_bit 63 d) else uint (take_bit 63 d))"

definition dbl_nan :: "double \<Rightarrow> bool" where
  "dbl_nan d \<longleftrightarrow> take_bit 63 d > 0x7FF0000000000000"

definition dbl_less :: "double \<Rightarrow> double \<Rightarrow> bool" where
  "dbl_less a b \<longleftrightarrow> \<not> dbl_nan a \<and> \<not> dbl_nan b \<and> dbl_key a < dbl_key b"

definition dbl_eq :: "double \<Rightarrow> double \<Rightarrow> bool" where
  "dbl_eq a b \<longleftrightarrow> \<not> dbl_nan a \<and> \<not> dbl_nan b \<and> dbl_key a = dbl_key b"

text \<open>
  What the two halves of a sorted set owe each other: the score buckets ascend, every bucket is a
  sorted set, and a member is in exactly the bucket of its score. Buckets may be empty.
\<close>

definition zset_ok :: "QSortedSet \<Rightarrow> bool" where
  "zset_ok z \<longleftrightarrow>
     keys_distinct (zmembers z) \<and> sorted_wrt (<) (map (dbl_key \<circ> fst) (zscores z)) \<and>
     (\<forall>(d, ms) \<in> set (zscores z). \<not> dbl_nan d \<and> sorted_wrt (<) ms \<and>
        (\<forall>m \<in> set ms. \<exists>d'. map_of (zmembers z) m = Some d' \<and> dbl_key d' = dbl_key d)) \<and>
     (\<forall>(m, d) \<in> set (zmembers z). \<not> dbl_nan d \<and>
        (\<exists>(d', ms) \<in> set (zscores z). dbl_key d' = dbl_key d \<and> m \<in> set ms))"

datatype qvalue = VNull | VRaw QString | VInt int | VList "QString list" | VSet "QString list"
  | VHash "(QString \<times> QString) list" | VSSet QSortedSet

record qobject =
  otype :: QType
  encoding :: QEncode
  lru :: "24 word"
  oval :: qvalue

fun default_encoding :: "QType \<Rightarrow> QEncode" where
  "default_encoding QType_list = QEncode_list"
| "default_encoding QType_set = QEncode_set"
| "default_encoding QType_sortedSet = QEncode_sset"
| "default_encoding QType_hash = QEncode_hash"
| "default_encoding _ = QEncode_invalid"

definition QObject_new :: "QType \<Rightarrow> qobject" where
  "QObject_new t = \<lparr>otype = t, encoding = default_encoding t, lru = 0, oval = VNull\<rparr>"

definition Obj_Clear :: "qobject \<Rightarrow> qobject" where
  "Obj_Clear ob = \<lparr>otype = QType_invalid, encoding = QEncode_invalid, lru = 0, oval = VNull\<rparr>"

definition Obj_Reset :: "qvalue \<Rightarrow> qobject \<Rightarrow> qobject" where
  "Obj_Reset v ob = ob\<lparr>oval := v\<rparr>"

text \<open>\<open>_MoveFrom\<close>: the target takes everything over, the source is left invalid.\<close>

definition MoveFrom :: "qobject \<Rightarrow> qobject \<Rightarrow> qobject \<times> qobject" where
  "MoveFrom this obj =
     ((Obj_Reset VNull this)\<lparr>encoding := encoding obj, otype := otype obj, oval := oval obj, lru := lru obj\<rparr>,
      obj\<lparr>encoding := QEncode_invalid, otype := QType_invalid, oval := VNull, lru := 0\<rparr>)"

definition CreateString :: "QString \<Rightarrow> qobject" where
  "CreateString v =
     (case Strtol v of
        Some n \<Rightarrow> (QObject_new QType_string)\<lparr>encoding := QEncode_int, oval := VInt n\<rparr>
      | None \<Rightarrow> (QObject_new QType_string)\<lparr>encoding := QEncode_raw, oval := VRaw v\<rparr>)"

definition CreateString_long :: "int \<Rightarrow> qobject" where
  "CreateString_long v = (QObject_new QType_string)\<lparr>encoding := QEncode_int, oval := VInt v\<rparr>"

definition CreateList :: qobject where
  "CreateList = Obj_Reset (VList []) (QObject_new QType_list)"

definition CreateSet :: qobject where
  "CreateSet = Obj_Reset (VSet []) (QObject_new QType_set)"

definition CreateHash :: qobject where
  "CreateHash = Obj_Reset (VHash []) (QObject_new QType_hash)"

definition CreateSSet :: qobject where
  "CreateSSet = Obj_Reset (VSSet \<lparr>zscores = [], zmembers = []\<rparr>) (QObject_new QType_sortedSet)"

text \<open>
  The casts reinterpret the pointer; on a value of another shape the access is undefined. The
  encoding decides how \<open>GetDecodedString\<close> reads a string.
\<close>

fun CastList :: "qvalue \<Rightarrow> QString list option" where
  "CastList (VList l) = Some l" | "CastList _ = None"

fun CastSet :: "qvalue \<Rightarrow> QString list option" where
  "CastSet (VSet l) = Some l" | "CastSet _ = None"

fun CastHash :: "qvalue \<Rightarrow> (QString \<times> QString) list option" where
  "CastHash (VHash l) = Some l" | "CastHash _ = None"

fun CastSortedSet :: "qvalue \<Rightarrow> QSortedSet option" where
  "CastSortedSet (VSSet z) = Some z" | "CastSortedSet _ = None"

definition GetDecodedString :: "qobject \<Rightarrow> QString option" where
  "GetDecodedString ob =
     (if encoding ob = QEncode_raw then (case oval ob of VRaw s \<Rightarrow> Some s | _ \<Rightarrow> None)
      else if encoding ob = QEncode_int then (case oval ob of VInt n \<Rightarrow> Some (show_int n) | _ \<Rightarrow> None)
      else None)"

subsection \<open>The store\<close>

datatype ListPosition = Pos_head | Pos_tail

record qstore =
  store :: "(QString \<times> qobject) list list"
  expiresDb :: "(QString \<times> u64) list list"
  blockedClients :: "(QString \<times> (nat \<times> u64 \<times> ListPosition) list) list list"
  backends :: "(QString \<Rightarrow> qobject option) list"
  waitSyncKeys :: "(QString \<times> bool) list list"
  dbno :: nat
  now :: u64
  lruclock :: "32 word"
  rewritePid :: int
  qdbPid :: int

definition cur_db :: "'a qstore_scheme \<Rightarrow> (QString \<times> qobject) list" where
  "cur_db s = store s ! dbno s"

definition cur_exp :: "'a qstore_scheme \<Rightarrow> (QString \<times> u64) list" where
  "cur_exp s = expiresDb s ! dbno s"

definition upd_db :: "((QString \<times> qobject) list \<Rightarrow> (QString \<times> qobject) list) \<Rightarrow>
    'a qstore_scheme \<Rightarrow> 'a qstore_scheme" where
  "upd_db f s = s\<lparr>store := (store s)[dbno s := f (cur_db s)]\<rparr>"

definition upd_exp :: "((QString \<times> u64) list \<Rightarrow> (QString \<times> u64) list) \<Rightarrow>
    'a qstore_scheme \<Rightarrow> 'a qstore_scheme" where
  "upd_exp f s = s\<lparr>expiresDb := (expiresDb s)[dbno s := f (cur_exp s)]\<rparr>"

text \<open>A write through a pointer to the object of \<open>key\<close> in the current database.\<close>

definition put_obj :: "QString \<Rightarrow> qobject \<Rightarrow> 'a qstore_scheme \<Rightarrow> 'a qstore_scheme" where
  "put_obj key ob = upd_db (AList.update key ob)"

definition kMaxDbNum :: int where "kMaxDbNum = 65536"

definition resize :: "nat \<Rightarrow> 'a \<Rightarrow> 'a list \<Rightarrow> 'a list" where
  "resize n x xs = take n xs @ replicate (n - length xs) x"

definition Store_Init :: "int \<Rightarrow> 'a qstore_scheme \<Rightarrow> 'a qstore_scheme" where
  "Store_Init dbNum s =
     (let n = nat (if dbNum < 1 then 1 else if dbNum > kMaxDbNum then kMaxDbNum else dbNum)
      in s\<lparr>store := resize n [] (store s), expiresDb := resize n [] (expiresDb s),
           blockedClients := resize n [] (blockedClients s)\<rparr>)"

definition SelectDB :: "int \<Rightarrow> 'a qstore_scheme \<Rightarrow> int \<times> 'a qstore_scheme" where
  "SelectDB db s =
     (if db = int (dbno s) then (int (dbno s), s)
      else if 0 \<le> db \<and> db < int (length (store s)) then (int (dbno s), s\<lparr>dbno := nat db\<rparr>)
      else (-1, s))"

definition GetDB :: "'a qstore_scheme \<Rightarrow> int" where
  "GetDB s = int (dbno s)"

definition DBSize :: "'a qstore_scheme \<Rightarrow> nat" where
  "DBSize s = length (cur_db s)"

definition SetExpire :: "QString \<Rightarrow> u64 \<Rightarrow> 'a qstore_scheme \<Rightarrow> 'a qstore_scheme" where
  "SetExpire key when s = upd_exp (AList.update key when) s"

definition SetExpireAfter :: "QString \<Rightarrow> u64 \<Rightarrow> 'a qstore_scheme \<Rightarrow> 'a qstore_scheme" where
  "SetExpireAfter key ttl s = SetExpire key (now s + ttl) s"

text \<open>
  A miss consults the backend, unless the key waits to be synchronised. The time to live is read
  from the object after it has been moved from.
\<close>

definition GetObject :: "QString \<Rightarrow> 'a qstore_scheme \<Rightarrow> qobject option \<times> 'a qstore_scheme" where
  "GetObject key s =
     (case map_of (cur_db s) key of
        Some ob \<Rightarrow> (Some ob, s)
      | None \<Rightarrow>
          if backends s \<noteq> [] then
            (if map_of (waitSyncKeys s ! dbno s) key \<noteq> None then (None, s)
             else
               case (backends s ! dbno s) key of
                 None \<Rightarrow> (None, s)
               | Some obj \<Rightarrow>
                   let (realobj, obj) = MoveFrom (QObject_new QType_invalid) obj;
                       realobj = realobj\<lparr>lru := ucast (lruclock s)\<rparr>;
                       s = put_obj key realobj s;
                       remain = lru obj;
                       s = (if 0 < remain then SetExpire key (now s + ucast remain * 1000) s else s)
                   in (Some realobj, s))
          else (None, s))"

text \<open>\<open>waitSyncKeys_[dbno_][key] = ...\<close>, when there is a backend.\<close>

definition mark_sync :: "QString \<Rightarrow> bool \<Rightarrow> 'a qstore_scheme \<Rightarrow> 'a qstore_scheme" where
  "mark_sync key b s =
     (if waitSyncKeys s \<noteq> []
      then s\<lparr>waitSyncKeys := (waitSyncKeys s)[dbno s := AList.update key b (waitSyncKeys s ! dbno s)]\<rparr>
      else s)"

definition DeleteKey :: "QString \<Rightarrow> 'a qstore_scheme \<Rightarrow> bool \<times> 'a qstore_scheme" where
  "DeleteKey key s =
     (let s' = mark_sync key False s
      in (map_of (cur_db s') key \<noteq> None, upd_db (AList.delete key) s'))"

definition ExistsKey :: "QString \<Rightarrow> 'a qstore_scheme \<Rightarrow> bool \<times> 'a qstore_scheme" where
  "ExistsKey key s = (case GetObject key s of (ob, s) \<Rightarrow> (ob \<noteq> None, s))"

definition KeyType :: "QString \<Rightarrow> 'a qstore_scheme \<Rightarrow> QType \<times> 'a qstore_scheme" where
  "KeyType key s =
     (case GetObject key s of
        (None, s) \<Rightarrow> (QType_invalid, s)
      | (Some ob, s) \<Rightarrow> (otype ob, s))"

text \<open>\<open>ExpireResult\<close>: \<open>expired\<close> and \<open>notExist\<close> are the same number.\<close>

definition notExpire :: int where "notExpire = 0"
definition persist :: int where "persist = -1"
definition expired :: int where "expired = -2"
definition notExist :: int where "notExist = -2"

definition ExpireIfNeed :: "QString \<Rightarrow> u64 \<Rightarrow> 'a qstore_scheme \<Rightarrow> int \<times> 'a qstore_scheme" where
  "ExpireIfNeed key t s =
     (case map_of (cur_exp s) key of
        Some when \<Rightarrow>
          if when > t then (notExpire, s)
          else (expired, upd_exp (AList.delete key) (snd (DeleteKey key s)))
      | None \<Rightarrow> (persist, s))"

definition TTL :: "QString \<Rightarrow> u64 \<Rightarrow> 'a qstore_scheme \<Rightarrow> int \<times> 'a qstore_scheme" where
  "TTL key t s =
     (case ExistsKey key s of
        (ex, s) \<Rightarrow>
          if \<not> ex then (notExist, s)
          else
            case ExpireIfNeed key t s of
              (ret, s) \<Rightarrow>
                if ret = expired \<or> ret = persist then (ret, s)
                else (sint (the (map_of (cur_exp s) key) - t), s))"

definition ClearExpire :: "QString \<Rightarrow> 'a qstore_scheme \<Rightarrow> bool \<times> 'a qstore_scheme" where
  "ClearExpire key s =
     (case ExpireIfNeed key (- 1) s of (ret, s) \<Rightarrow> (ret = expired, s))"

text \<open>
  The three \<open>GetValue\<close> variants: an error, or the object the out-parameter points to.
\<close>

definition GetValueByType_touch ::
  "QString \<Rightarrow> QType \<Rightarrow> bool \<Rightarrow> 'a qstore_scheme \<Rightarrow> (QError + qobject) \<times> 'a qstore_scheme" where
  "GetValueByType_touch key ty touch s =
     (case ExpireIfNeed key (now s) s of
        (ret, s) \<Rightarrow>
          if ret = expired then (Inl QError_notExist, s)
          else
            case GetObject key s of
              (None, s) \<Rightarrow> (Inl QError_notExist, s)
            | (Some cobj, s) \<Rightarrow>
                if ty \<noteq> QType_invalid \<and> ty \<noteq> otype cobj then (Inl QError_type, s)
                else if touch \<and> rewritePid s = -1 \<and> qdbPid s = -1 then
                  (let value = cobj\<lparr>lru := ucast (lruclock s)\<rparr> in (Inr value, put_obj key value s))
                else (Inr cobj, s))"

definition GetValueByType ::
  "QString \<Rightarrow> QType \<Rightarrow> 'a qstore_scheme \<Rightarrow> (QError + qobject) \<times> 'a qstore_scheme" where
  "GetValueByType key ty s = GetValueByType_touch key ty True s"

definition GetValueByTypeNoTouch ::
  "QString \<Rightarrow> QType \<Rightarrow> 'a qstore_scheme \<Rightarrow> (QError + qobject) \<times> 'a qstore_scheme" where
  "GetValueByTypeNoTouch key ty s = GetValueByType_touch key ty False s"

definition GetValue ::
  "QString \<Rightarrow> bool \<Rightarrow> 'a qstore_scheme \<Rightarrow> (QError + qobject) \<times> 'a qstore_scheme" where
  "GetValue key touch s =
     (if touch then GetValueByType key QType_invalid s else GetValueByTypeNoTouch key QType_invalid s)"

definition SetValue :: "QString \<Rightarrow> qobject \<Rightarrow> 'a qstore_scheme \<Rightarrow> qobject \<times> 'a qstore_scheme" where
  "SetValue key v s =
     (let obj = (fst (MoveFrom (QObject_new QType_invalid) v))\<lparr>lru := ucast (lruclock s)\<rparr>
      in (obj, mark_sync key True (put_obj key obj s)))"

definition AddDirtyKey :: "QString \<Rightarrow> 'a qstore_scheme \<Rightarrow> 'a qstore_scheme" where
  "AddDirtyKey key s =
     (if waitSyncKeys s \<noteq> [] then
        case GetValue key True s of (r, s) \<Rightarrow> mark_sync key (case r of Inl _ \<Rightarrow> False | Inr _ \<Rightarrow> True) s
      else s)"

definition AddDirtyKey_value :: "QString \<Rightarrow> qobject option \<Rightarrow> 'a qstore_scheme \<Rightarrow> 'a qstore_scheme" where
  "AddDirtyKey_value key v s = mark_sync key (v \<noteq> None) s"

definition ClearCurrentDB :: "'a qstore_scheme \<Rightarrow> 'a qstore_scheme" where
  "ClearCurrentDB s = upd_db (\<lambda>_. []) s"

definition ResetDb :: "'a qstore_scheme \<Rightarrow> 'a qstore_scheme" where
  "ResetDb s = s\<lparr>store := replicate (length (store s)) [], expiresDb := replicate (length (expiresDb s)) [],
     blockedClients := replicate (length (blockedClients s)) [], dbno := 0\<rparr>"

definition BlockedSize :: "'a qstore_scheme \<Rightarrow> nat" where
  "BlockedSize s = sum_list (map length (blockedClients s))"

definition kMaxLRUValue :: "32 word" where "kMaxLRUValue = 0xFFFFFF"

definition EstimateIdleTime :: "32 word \<Rightarrow> 32 word \<Rightarrow> 32 word" where
  "EstimateIdleTime clock l = (if l \<le> clock then clock - l else (kMaxLRUValue - l) + clock)"

subsection \<open>Invariant and abstract view\<close>

fun vtype :: "qvalue \<Rightarrow> QType" where
  "vtype VNull = QType_invalid"
| "vtype (VRaw _) = QType_string"
| "vtype (VInt _) = QType_string"
| "vtype (VList _) = QType_list"
| "vtype (VSet _) = QType_set"
| "vtype (VHash _) = QType_hash"
| "vtype (VSSet _) = QType_sortedSet"

fun vencoding :: "qvalue \<Rightarrow> QEncode" where
  "vencoding VNull = QEncode_invalid"
| "vencoding (VRaw _) = QEncode_raw"
| "vencoding (VInt _) = QEncode_int"
| "vencoding (VList _) = QEncode_list"
| "vencoding (VSet _) = QEncode_set"
| "vencoding (VHash _) = QEncode_hash"
| "vencoding (VSSet _) = QEncode_sset"

fun value_ok :: "qvalue \<Rightarrow> bool" where
  "value_ok VNull = False"
| "value_ok (VRaw _) = True"
| "value_ok (VInt n) = (LONG_MIN \<le> n \<and> n \<le> LONG_MAX)"
| "value_ok (VList _) = True"
| "value_ok (VSet l) = distinct l"
| "value_ok (VHash h) = keys_distinct h"
| "value_ok (VSSet z) = zset_ok z"

definition obj_ok :: "qobject \<Rightarrow> bool" where
  "obj_ok ob \<longleftrightarrow> otype ob = vtype (oval ob) \<and> encoding ob = vencoding (oval ob) \<and> value_ok (oval ob)"

text \<open>
  The invariant of a store without backend: the current database exists, the tables have the same
  length and distinct keys, and every object is what its tag bits say.
\<close>

definition db_ok :: "(QString \<times> qobject) list \<Rightarrow> bool" where
  "db_ok db \<longleftrightarrow> keys_distinct db \<and> (\<forall>(k, ob) \<in> set db. obj_ok ob)"

definition store_ok :: "'a qstore_scheme \<Rightarrow> bool" where
  "store_ok s \<longleftrightarrow>
     dbno s < length (store s) \<and> length (expiresDb s) = length (store s) \<and>
     length (blockedClients s) = length (store s) \<and>
     backends s = [] \<and> waitSyncKeys s = [] \<and>
     (\<forall>db \<in> set (store s). db_ok db) \<and> (\<forall>ex \<in> set (expiresDb s). keys_distinct ex)"

fun expired_at :: "u64 \<Rightarrow> u64 option \<Rightarrow> bool" where
  "expired_at t None = False"
| "expired_at t (Some when) = (when \<le> t)"

definition is_expired :: "'a qstore_scheme \<Rightarrow> QString \<Rightarrow> bool" where
  "is_expired s k = expired_at (now s) (map_of (cur_exp s) k)"

text \<open>What a client can see of the current database: the values of the keys that have not expired.\<close>

definition vis :: "'a qstore_scheme \<Rightarrow> QString \<Rightarrow> qvalue option" where
  "vis s k = (if is_expired s k then None else map_option oval (map_of (cur_db s) k))"

lemma cur_db_upd_db [simp]: "dbno s < length (store s) \<Longrightarrow> cur_db (upd_db f s) = f (cur_db s)"
  by (simp add: cur_db_def upd_db_def)

lemma cur_exp_upd_exp [simp]: "dbno s < length (expiresDb s) \<Longrightarrow> cur_exp (upd_exp f s) = f (cur_exp s)"
  by (simp add: cur_exp_def upd_exp_def)

lemma upd_db_fields [simp]:
  "cur_exp (upd_db f s) = cur_exp s" "expiresDb (upd_db f s) = expiresDb s"
  "blockedClients (upd_db f s) = blockedClients s" "backends (upd_db f s) = backends s"
  "waitSyncKeys (upd_db f s) = waitSyncKeys s" "dbno (upd_db f s) = dbno s" "now (upd_db f s) = now s"
  "lruclock (upd_db f s) = lruclock s" "rewritePid (upd_db f s) = rewritePid s"
  "qdbPid (upd_db f s) = qdbPid s" "length (store (upd_db f s)) = length (store s)"
  "qstore.more (upd_db f s) = qstore.more s"
  by (simp_all add: upd_db_def cur_exp_def)

lemma upd_exp_fields [simp]:
  "cur_db (upd_exp f s) = cur_db s" "store (upd_exp f s) = store s"
  "blockedClients (upd_exp f s) = blockedClients s" "backends (upd_exp f s) = backends s"
  "waitSyncKeys (upd_exp f s) = waitSyncKeys s" "dbno (upd_exp f s) = dbno s" "now (upd_exp f s) = now s"
  "lruclock (upd_exp f s) = lruclock s" "rewritePid (upd_exp f s) = rewritePid s"
  "qdbPid (upd_exp f s) = qdbPid s" "length (expiresDb (upd_exp f s)) = length (expiresDb s)"
  "qstore.more (upd_exp f s) = qstore.more s"
  by (simp_all add: upd_exp_def cur_db_def)

lemma db_ok_iff:
  "db_ok db \<longleftrightarrow> keys_distinct db \<and> (\<forall>k ob. map_of db k = Some ob \<longrightarrow> obj_ok ob)"
  by (fastforce simp: db_ok_def keys_distinct_def)

lemma db_ok_update [inv_intros]: "db_ok db \<Longrightarrow> obj_ok ob \<Longrightarrow> db_ok (AList.update k ob db)"
  by (auto simp: db_ok_iff keys_distinct_update split: if_splits)

lemma db_ok_delete [inv_intros]: "db_ok db \<Longrightarrow> db_ok (AList.delete k db)"
  by (auto simp: db_ok_iff keys_distinct_delete split: if_splits)

lemma db_ok_Nil [simp, inv_intros]: "db_ok []"
  by (simp add: db_ok_def)

lemma db_ok_map_of: "db_ok db \<Longrightarrow> map_of db k = Some ob \<Longrightarrow> obj_ok ob"
  by (auto simp: db_ok_def dest!: map_of_SomeD)

lemma store_ok_current:
  assumes "store_ok s"
  shows "dbno s < length (store s)" "dbno s < length (expiresDb s)" "db_ok (cur_db s)"
    "keys_distinct (cur_exp s)" "backends s = []" "waitSyncKeys s = []"
  using assms by (auto simp: store_ok_def cur_db_def cur_exp_def)

lemma store_ok_upd_db [inv_intros]: "store_ok s \<Longrightarrow> db_ok (f (cur_db s)) \<Longrightarrow> store_ok (upd_db f s)"
  by (auto simp: store_ok_def upd_db_def dest: set_update_subset_insert [THEN subsetD])

lemma store_ok_upd_exp [inv_intros]:
  "store_ok s \<Longrightarrow> keys_distinct (f (cur_exp s)) \<Longrightarrow> store_ok (upd_exp f s)"
  by (auto simp: store_ok_def upd_exp_def dest: set_update_subset_insert [THEN subsetD])

lemma store_ok_put_obj [inv_intros]: "store_ok s \<Longrightarrow> obj_ok ob \<Longrightarrow> store_ok (put_obj k ob s)"
  by (simp add: put_obj_def store_ok_upd_db db_ok_update store_ok_current)

lemma is_expired_upd_db [simp]: "is_expired (upd_db f s) = is_expired s"
  by (simp add: is_expired_def fun_eq_iff)

lemma vis_upd_db: "store_ok s \<Longrightarrow>
    vis (upd_db f s) = (\<lambda>k. if is_expired s k then None else map_option oval (map_of (f (cur_db s)) k))"
  by (auto simp: vis_def store_ok_current fun_eq_iff)

lemma vis_put_obj: "store_ok s \<Longrightarrow> \<not> is_expired s k \<Longrightarrow> vis (put_obj k ob s) = (vis s)(k \<mapsto> oval ob)"
  by (auto simp: put_obj_def vis_upd_db fun_eq_iff vis_def)

lemma vis_put_obj_same:
  "store_ok s \<Longrightarrow> map_of (cur_db s) k = Some ob \<Longrightarrow> oval ob' = oval ob \<Longrightarrow> vis (put_obj k ob' s) = vis s"
  by (auto simp: put_obj_def vis_upd_db fun_eq_iff vis_def)

subsection \<open>Operations that only the current database sees\<close>

definition frame :: "'a qstore_scheme \<Rightarrow> 'a qstore_scheme \<Rightarrow> bool" where
  "frame s s' \<longleftrightarrow> (\<exists>db ex. s' = s\<lparr>store := (store s)[dbno s := db], expiresDb := (expiresDb s)[dbno s := ex]\<rparr>)"

lemma frame_refl [simp, intro]: "frame s s"
proof -
  have "s = s\<lparr>store := (store s)[dbno s := store s ! dbno s],
      expiresDb := (expiresDb s)[dbno s := expiresDb s ! dbno s]\<rparr>" by simp
  then show ?thesis unfolding frame_def by blast
qed

lemma frame_trans [trans]: "frame s s' \<Longrightarrow> frame s' s'' \<Longrightarrow> frame s s''"
  by (fastforce simp: frame_def)

lemma frame_upd_db [inv_intros]: "frame s (upd_db f s)"
proof -
  have "upd_db f s = s\<lparr>store := (store s)[dbno s := f (cur_db s)],
      expiresDb := (expiresDb s)[dbno s := expiresDb s ! dbno s]\<rparr>" by (simp add: upd_db_def)
  then show ?thesis unfolding frame_def by blast
qed

lemma frame_upd_exp [inv_intros]: "frame s (upd_exp f s)"
proof -
  have "upd_exp f s = s\<lparr>store := (store s)[dbno s := store s ! dbno s],
      expiresDb := (expiresDb s)[dbno s := f (cur_exp s)]\<rparr>" by (simp add: upd_exp_def)
  then show ?thesis unfolding frame_def by blast
qed

lemma frame_fields:
  assumes "frame s s'"
  shows "dbno s' = dbno s" "now s' = now s" "lruclock s' = lruclock s" "backends s' = backends s"
    "waitSyncKeys s' = waitSyncKeys s" "blockedClients s' = blockedClients s"
    "rewritePid s' = rewritePid s" "qdbPid s' = qdbPid s" "qstore.more s' = qstore.more s"
    "length (store s') = length (store s)" "length (expiresDb s') = length (expiresDb s)"
    "i \<noteq> dbno s \<Longrightarrow> store s' ! i = store s ! i" "i \<noteq> dbno s \<Longrightarrow> expiresDb s' ! i = expiresDb s ! i"
  using assms by (auto simp: frame_def)

text \<open>A step that is invisible to clients: it may drop an expired key or touch an LRU stamp.\<close>

definition quiet :: "'a qstore_scheme \<Rightarrow> 'a qstore_scheme \<Rightarrow> bool" where
  "quiet s s' \<longleftrightarrow> store_ok s' \<and> frame s s' \<and> vis s' = vis s"

lemma quiet_refl [simp, intro]: "store_ok s \<Longrightarrow> quiet s s"
  by (simp add: quiet_def)

lemma quiet_trans [trans]: "quiet s s' \<Longrightarrow> quiet s' s'' \<Longrightarrow> quiet s s''"
  by (auto simp: quiet_def intro: frame_trans)

subsection \<open>Reading and writing keys\<close>

lemma GetObject_memory [store_simps]:
  "backends s = [] \<Longrightarrow> GetObject k s = (map_of (cur_db s) k, s)"
  by (auto simp: GetObject_def split: option.split)

lemma DeleteKey_memory [store_simps]:
  "waitSyncKeys s = [] \<Longrightarrow> DeleteKey k s = (map_of (cur_db s) k \<noteq> None, upd_db (AList.delete k) s)"
  by (simp add: DeleteKey_def mark_sync_def)

lemma expired_codes [simp]:
  "expired \<noteq> persist" "expired \<noteq> notExpire" "persist \<noteq> notExpire"
  "persist \<noteq> expired" "notExpire \<noteq> expired" "notExpire \<noteq> persist" "notExist = expired"
  by (simp_all add: expired_def persist_def notExpire_def notExist_def)

lemma ExpireIfNeed_live: "\<not> is_expired s k \<Longrightarrow>
    ExpireIfNeed k (now s) s = (if map_of (cur_exp s) k = None then persist else notExpire, s)"
  by (auto simp: ExpireIfNeed_def is_expired_def not_le split: option.splits)

lemma ExpireIfNeed_expired: "store_ok s \<Longrightarrow> is_expired s k \<Longrightarrow>
    ExpireIfNeed k (now s) s = (expired, upd_exp (AList.delete k) (upd_db (AList.delete k) s))"
  by (cases "map_of (cur_exp s) k") (auto simp: ExpireIfNeed_def is_expired_def store_simps store_ok_current)

lemma expire_step:
  assumes "store_ok s"
  shows "store_ok (upd_exp (AList.delete k) (upd_db (AList.delete k) s))"
    "frame s (upd_exp (AList.delete k) (upd_db (AList.delete k) s))"
    "vis (upd_exp (AList.delete k) (upd_db (AList.delete k) s)) = (vis s)(k := None)"
proof -
  note c = store_ok_current [OF assms]
  show "store_ok (upd_exp (AList.delete k) (upd_db (AList.delete k) s))"
    using assms c by (intro inv_intros) auto
  show "frame s (upd_exp (AList.delete k) (upd_db (AList.delete k) s))"
    by (rule frame_trans [OF frame_upd_db frame_upd_exp])
  show "vis (upd_exp (AList.delete k) (upd_db (AList.delete k) s)) = (vis s)(k := None)"
    using c by (auto simp: vis_def is_expired_def fun_eq_iff)
qed

definition seen_obj :: "QString \<Rightarrow> QType \<Rightarrow> bool \<Rightarrow> 'a qstore_scheme \<Rightarrow> qobject" where
  "seen_obj k ty b s = (case fst (GetValueByType_touch k ty b s) of Inr ob \<Rightarrow> ob | Inl _ \<Rightarrow> QObject_new ty)"

definition after_get :: "QString \<Rightarrow> QType \<Rightarrow> bool \<Rightarrow> 'a qstore_scheme \<Rightarrow> 'a qstore_scheme" where
  "after_get k ty b s = snd (GetValueByType_touch k ty b s)"

lemma get_result:
  assumes "store_ok s"
  shows "fst (GetValueByType_touch k ty b s) =
      (case vis s k of None \<Rightarrow> Inl QError_notExist
       | Some v \<Rightarrow> if ty \<noteq> QType_invalid \<and> ty \<noteq> vtype v then Inl QError_type else Inr (seen_obj k ty b s))"
    and "quiet s (after_get k ty b s)" "\<not> is_expired (after_get k ty b s) k"
    and "vis s k = Some v \<Longrightarrow> ty = QType_invalid \<or> ty = vtype v \<Longrightarrow>
      oval (seen_obj k ty b s) = v \<and> obj_ok (seen_obj k ty b s) \<and>
      map_of (cur_db (after_get k ty b s)) k = Some (seen_obj k ty b s)"
proof -
  note c = store_ok_current [OF assms]
  have ty: "map_of (cur_db s) k = Some ob \<Longrightarrow> otype ob = vtype (oval ob)" for ob
    using db_ok_map_of [OF c(3)] by (simp add: obj_ok_def)
  have ok: "map_of (cur_db s) k = Some ob \<Longrightarrow> obj_ok (ob\<lparr>lru := x\<rparr>)" for ob x
    using db_ok_map_of [OF c(3)] by (simp add: obj_ok_def)
  note defs = GetValueByType_touch_def ExpireIfNeed_live GetObject_memory seen_obj_def after_get_def Let_def
  show "fst (GetValueByType_touch k ty b s) =
      (case vis s k of None \<Rightarrow> Inl QError_notExist
       | Some v \<Rightarrow> if ty \<noteq> QType_invalid \<and> ty \<noteq> vtype v then Inl QError_type else Inr (seen_obj k ty b s))"
  proof (cases "is_expired s k")
    case True
    then show ?thesis by (simp add: defs ExpireIfNeed_expired assms vis_def)
  next
    case False
    then show ?thesis using c ty by (auto simp: defs vis_def split: option.splits)
  qed
  show q: "quiet s (after_get k ty b s)"
  proof (cases "is_expired s k")
    case True
    then have "(vis s)(k := None) = vis s" by (auto simp: vis_def)
    with True show ?thesis
      using assms by (simp add: defs ExpireIfNeed_expired quiet_def expire_step)
  next
    case False
    have "map_of (cur_db s) k = Some ob \<Longrightarrow> quiet s (put_obj k (ob\<lparr>lru := x\<rparr>) s)" for ob x
      using assms ok [of ob x] vis_put_obj_same [OF assms, of k ob "ob\<lparr>lru := x\<rparr>"]
      by (simp add: quiet_def store_ok_put_obj) (simp add: put_obj_def frame_upd_db)
    then show ?thesis using False c assms by (auto simp: defs split: option.splits)
  qed
  show "\<not> is_expired (after_get k ty b s) k"
  proof (cases "is_expired s k")
    case True
    then show ?thesis using c
      by (simp add: defs ExpireIfNeed_expired assms) (simp add: is_expired_def)
  next
    case False
    then show ?thesis using c by (auto simp: defs put_obj_def split: option.splits)
  qed
  assume v: "vis s k = Some v" "ty = QType_invalid \<or> ty = vtype v"
  then obtain ob where ob: "map_of (cur_db s) k = Some ob" "oval ob = v" "\<not> is_expired s k"
    by (auto simp: vis_def split: if_splits)
  then show "oval (seen_obj k ty b s) = v \<and> obj_ok (seen_obj k ty b s) \<and>
      map_of (cur_db (after_get k ty b s)) k = Some (seen_obj k ty b s)"
    using c v ty [OF ob(1)] ok [OF ob(1)] db_ok_map_of [OF c(3) ob(1)]
    by (auto simp: defs put_obj_def)
qed

lemma SetValue_memory [store_simps]:
  "waitSyncKeys s = [] \<Longrightarrow>
    SetValue k v s = (v\<lparr>lru := ucast (lruclock s)\<rparr>, put_obj k (v\<lparr>lru := ucast (lruclock s)\<rparr>) s)"
  by (cases v) (simp add: SetValue_def mark_sync_def put_obj_def MoveFrom_def Obj_Reset_def QObject_new_def Let_def)

lemma obj_ok_lru [simp]: "obj_ok (v\<lparr>lru := x\<rparr>) = obj_ok v"
  by (simp add: obj_ok_def)

lemma frame_put_obj [inv_intros]: "frame s (put_obj k ob s)"
  by (simp add: put_obj_def frame_upd_db)

lemma set_step:
  assumes "store_ok s" "obj_ok v"
  shows "store_ok (snd (SetValue k v s))" "frame s (snd (SetValue k v s))"
    "\<not> is_expired s k \<Longrightarrow> vis (snd (SetValue k v s)) = (vis s)(k \<mapsto> oval v)"
    "map_of (cur_db (snd (SetValue k v s))) k = Some (fst (SetValue k v s))"
    "oval (fst (SetValue k v s)) = oval v" "obj_ok (fst (SetValue k v s))"
  using assms store_ok_current [OF assms(1)] vis_put_obj [OF assms(1)]
  by (simp_all add: SetValue_memory store_ok_put_obj frame_put_obj) (simp add: put_obj_def)

lemma delete_step:
  assumes "store_ok s"
  shows "store_ok (snd (DeleteKey k s))" "frame s (snd (DeleteKey k s))"
    "vis (snd (DeleteKey k s)) = (vis s)(k := None)"
    "\<not> is_expired s k \<Longrightarrow> fst (DeleteKey k s) \<longleftrightarrow> vis s k \<noteq> None"
  using assms store_ok_current [OF assms]
  by (auto simp: DeleteKey_memory store_ok_upd_db db_ok_delete frame_upd_db vis_upd_db fun_eq_iff vis_def)

lemma ClearExpire_cases:
  assumes "store_ok s"
  shows "map_of (cur_exp s) k = None \<Longrightarrow> ClearExpire k s = (False, s)"
    and "map_of (cur_exp s) k \<noteq> None \<Longrightarrow>
      ClearExpire k s = (True, upd_exp (AList.delete k) (upd_db (AList.delete k) s))"
proof -
  have "\<not> w > (- 1 :: u64)" for w :: u64 by simp
  then show "map_of (cur_exp s) k \<noteq> None \<Longrightarrow>
      ClearExpire k s = (True, upd_exp (AList.delete k) (upd_db (AList.delete k) s))"
    using store_ok_current [OF assms]
    by (auto simp: ClearExpire_def ExpireIfNeed_def DeleteKey_memory)
qed (simp add: ClearExpire_def ExpireIfNeed_def)

lemma clear_step:
  assumes "store_ok s"
  shows "store_ok (snd (ClearExpire k s))" "frame s (snd (ClearExpire k s))"
    "map_of (cur_exp (snd (ClearExpire k s))) k = None" "\<not> is_expired (snd (ClearExpire k s)) k"
    "vis (snd (ClearExpire k s)) = (if map_of (cur_exp s) k = None then vis s else (vis s)(k := None))"
proof -
  note c = store_ok_current [OF assms] expire_step [OF assms, of k]
  have "store_ok (snd (ClearExpire k s)) \<and> frame s (snd (ClearExpire k s)) \<and>
    map_of (cur_exp (snd (ClearExpire k s))) k = None \<and>
    vis (snd (ClearExpire k s)) = (if map_of (cur_exp s) k = None then vis s else (vis s)(k := None))"
    using c assms ClearExpire_cases [OF assms, of k] by (cases "map_of (cur_exp s) k = None") auto
  then show "store_ok (snd (ClearExpire k s))" "frame s (snd (ClearExpire k s))"
    "map_of (cur_exp (snd (ClearExpire k s))) k = None" "\<not> is_expired (snd (ClearExpire k s)) k"
    "vis (snd (ClearExpire k s)) = (if map_of (cur_exp s) k = None then vis s else (vis s)(k := None))"
    by (simp_all add: is_expired_def)
qed

text \<open>Giving a visible key a deadline in the future changes nothing clients see.\<close>

lemma SetExpire_step:
  assumes "store_ok s"
  shows "store_ok (SetExpire k w s)" "frame s (SetExpire k w s)"
    "\<not> is_expired s k \<Longrightarrow> vis (SetExpire k w s) = (if w \<le> now s then (vis s)(k := None) else vis s)"
  using assms store_ok_current [OF assms]
  by (auto simp: SetExpire_def store_ok_upd_exp keys_distinct_update frame_upd_exp vis_def is_expired_def fun_eq_iff)

subsection \<open>Results of the store operations, for the proofs about commands\<close>

lemma GetValueByType_Inr:
  assumes "GetValueByType_touch k ty b s = (Inr ob, s')" "store_ok s"
  shows "quiet s s'" "store_ok s'" "\<not> is_expired s' k" "vis s k = Some (oval ob)" "vis s' = vis s" "obj_ok ob"
    "map_of (cur_db s') k = Some ob" "ty = QType_invalid \<or> ty = vtype (oval ob)"
proof -
  note g = get_result [OF assms(2), where k = k and ty = ty and b = b]
  have s': "after_get k ty b s = s'" and ob: "seen_obj k ty b s = ob"
    using assms(1) by (simp_all add: after_get_def seen_obj_def)
  from g(1) assms(1) obtain v where v: "vis s k = Some v" "ty = QType_invalid \<or> ty = vtype v"
    by (auto split: option.splits if_splits)
  show "quiet s s'" "\<not> is_expired s' k" using g(2,3) s' by simp_all
  then show "store_ok s'" "vis s' = vis s" by (simp_all add: quiet_def)
  show "vis s k = Some (oval ob)" "obj_ok ob" "map_of (cur_db s') k = Some ob"
    "ty = QType_invalid \<or> ty = vtype (oval ob)"
    using g(4) [OF v] v s' ob by auto
qed

lemma GetValueByType_Inl:
  assumes "GetValueByType_touch k ty b s = (Inl e, s')" "store_ok s"
  shows "quiet s s'" "store_ok s'" "\<not> is_expired s' k" "vis s' = vis s"
    "e = QError_notExist \<and> vis s k = None \<or>
     e = QError_type \<and> (\<exists>v. vis s k = Some v \<and> ty \<noteq> QType_invalid \<and> ty \<noteq> vtype v)"
proof -
  note g = get_result [OF assms(2), where k = k and ty = ty and b = b]
  have s': "after_get k ty b s = s'" using assms(1) by (simp add: after_get_def)
  show "quiet s s'" "\<not> is_expired s' k" using g(2,3) s' by simp_all
  then show "store_ok s'" "vis s' = vis s" by (simp_all add: quiet_def)
  show "e = QError_notExist \<and> vis s k = None \<or>
     e = QError_type \<and> (\<exists>v. vis s k = Some v \<and> ty \<noteq> QType_invalid \<and> ty \<noteq> vtype v)"
    using g(1) assms(1) by (auto split: option.splits if_splits)
qed

lemmas get_defs = GetValueByType_def GetValueByTypeNoTouch_def GetValue_def

lemma SetValue_result:
  assumes "SetValue k v s = (ob, s')" "store_ok s" "obj_ok v"
  shows "store_ok s'" "frame s s'" "oval ob = oval v" "obj_ok ob" "map_of (cur_db s') k = Some ob"
    "\<not> is_expired s k \<Longrightarrow> vis s' = (vis s)(k \<mapsto> oval v)" "is_expired s' = is_expired s"
proof -
  note c = store_ok_current [OF assms(2)]
  show "is_expired s' = is_expired s"
    using assms(1) by (auto simp: SetValue_memory c(6) put_obj_def)
qed (use set_step [OF assms(2,3), of k] assms(1) in simp_all)

subsection \<open>The key space as an interface\<close>

text \<open>
  What the commands on several keys rely on: a state with a view, a lookup that leaves the view
  alone, an insertion and a deletion that change it at one key. The insertion may store a
  normal form of the value it is given.
\<close>

locale keyspace =
  fixes ok :: "'s \<Rightarrow> bool"
    and view :: "'s \<Rightarrow> 'k \<Rightarrow> 'v option"
    and good :: "'v \<Rightarrow> bool"
    and norm :: "'v \<Rightarrow> 'v"
    and get :: "'k \<Rightarrow> 's \<Rightarrow> 'v option \<times> 's"
    and put :: "'k \<Rightarrow> 'v \<Rightarrow> 's \<Rightarrow> 's"
    and del :: "'k \<Rightarrow> 's \<Rightarrow> 's"
  assumes get_result: "ok s \<Longrightarrow> fst (get k s) = view s k"
    and get_ok: "ok s \<Longrightarrow> ok (snd (get k s))"
    and get_view: "ok s \<Longrightarrow> view (snd (get k s)) = view s"
    and put_ok: "ok s \<Longrightarrow> good v \<Longrightarrow> ok (put k v s)"
    and put_view: "ok s \<Longrightarrow> good v \<Longrightarrow> view (put k v s) = (view s)(k \<mapsto> norm v)"
    and del_ok: "ok s \<Longrightarrow> ok (del k s)"
    and del_view: "ok s \<Longrightarrow> view (del k s) = (view s)(k := None)"
begin

text \<open>Writing a list of pairs leaves the last value of every key.\<close>

lemma puts:
  "ok s \<Longrightarrow> \<forall>(k, v) \<in> set kvs. good v \<Longrightarrow>
    ok (fold (\<lambda>(k, v). put k v) kvs s) \<and>
    view (fold (\<lambda>(k, v). put k v) kvs s) = view s ++ map_of (rev (map (\<lambda>(k, v). (k, norm v)) kvs))"
proof (induction kvs arbitrary: s)
  case (Cons kv kvs)
  obtain k v where kv: "kv = (k, v)" by (cases kv)
  with Cons.prems have "ok (put k v s)" "view (put k v s) = (view s)(k \<mapsto> norm v)"
    by (simp_all add: put_ok put_view)
  then show ?case
    using Cons.IH [of "put k v s"] Cons.prems by (simp add: kv map_add_upd_left map_add_def fun_eq_iff split: option.split)
qed simp

text \<open>Reading a list of keys gives the view at each of them.\<close>

primrec gets :: "'k list \<Rightarrow> 's \<Rightarrow> 'v option list \<times> 's" where
  "gets [] s = ([], s)"
| "gets (k # ks) s = (case get k s of (v, s) \<Rightarrow> case gets ks s of (vs, s) \<Rightarrow> (v # vs, s))"

lemma gets_view:
  "ok s \<Longrightarrow> fst (gets ks s) = map (view s) ks \<and> ok (snd (gets ks s)) \<and> view (snd (gets ks s)) = view s"
proof (induction ks arbitrary: s)
  case (Cons k ks)
  then show ?case
    using Cons.IH [of "snd (get k s)"] by (simp add: get_result get_ok get_view split_beta)
qed simp

lemma dels:
  "ok s \<Longrightarrow> ok (fold del ks s) \<and> view (fold del ks s) = (\<lambda>k. if k \<in> set ks then None else view s k)"
proof (induction ks arbitrary: s)
  case (Cons k ks)
  then show ?case using Cons.IH [of "del k s"] by (auto simp: del_ok del_view fun_eq_iff)
qed simp

end

subsection \<open>Typed access as an interface\<close>

text \<open>
  The macros \<open>GET_LIST\<close>, \<open>GET_OR_SET_SET\<close>, ... of the command files: fetch a key as one type, or
  create it.
\<close>

definition get_or_set ::
  "QType \<Rightarrow> qobject \<Rightarrow> QString \<Rightarrow> 'a qstore_scheme \<Rightarrow> (QError + qobject) \<times> 'a qstore_scheme" where
  "get_or_set ty new key s =
     (case GetValueByType key ty s of
        (Inr value, s) \<Rightarrow> (Inr value, s)
      | (Inl err, s) \<Rightarrow>
          if err \<noteq> QError_notExist then (Inl err, s)
          else (case SetValue key new s of (value, s) \<Rightarrow> (Inr value, s)))"

text \<open>
  A type tag with the projection the commands of that type use. What it promises is that on
  well-formed values the projection succeeds exactly for the tag.
\<close>

locale typed_object =
  fixes ty :: QType
    and prj :: "qvalue \<Rightarrow> 'v option"
  assumes ty_valid: "ty \<noteq> QType_invalid"
    and prj_type: "value_ok v \<Longrightarrow> prj v \<noteq> None \<longleftrightarrow> vtype v = ty"
begin

lemma get_cases:
  assumes "store_ok s"
  obtains (miss) e s' where "GetValueByType k ty s = (Inl e, s')" "Option.bind (vis s k) prj = None" "quiet s s'"
      "e = QError_notExist \<and> vis s k = None \<or> e = QError_type \<and> vis s k \<noteq> None" "\<not> is_expired s' k"
  | (hit) ob s' x where "GetValueByType k ty s = (Inr ob, s')" "quiet s s'" "prj (oval ob) = Some x"
      "vis s k = Some (oval ob)" "obj_ok ob" "map_of (cur_db s') k = Some ob" "\<not> is_expired s' k"
proof (cases "GetValueByType k ty s")
  case (Pair res s')
  show thesis
  proof (cases res)
    case (Inl e)
    then have i: "GetValueByType_touch k ty True s = (Inl e, s')"
      using Pair by (simp add: GetValueByType_def)
    note g = GetValueByType_Inl [OF i assms]
    have "Option.bind (vis s k) prj = None"
    proof (cases "vis s k")
      case (Some v)
      then obtain ob where "map_of (cur_db s) k = Some ob" "oval ob = v"
        by (auto simp: vis_def split: if_splits)
      then have "value_ok v"
        using db_ok_map_of [OF store_ok_current(3) [OF assms]] by (auto simp: obj_ok_def)
      moreover have "ty \<noteq> vtype v" using g(5) Some by auto
      ultimately show ?thesis using Some prj_type [of v] by simp
    qed simp
    with g Pair Inl show thesis by (intro miss) auto
  next
    case (Inr ob)
    then have i: "GetValueByType_touch k ty True s = (Inr ob, s')"
      using Pair by (simp add: GetValueByType_def)
    note g = GetValueByType_Inr [OF i assms]
    have "prj (oval ob) \<noteq> None" using g(6,8) prj_type [of "oval ob"] ty_valid by (auto simp: obj_ok_def)
    then obtain x where x: "prj (oval ob) = Some x" by blast
    show thesis
      by (rule hit [OF _ g(1) x g(4,6,7,3)]) (use Pair Inr in simp)
  qed
qed

lemma get_or_set_cases:
  assumes "store_ok s" "obj_ok new" "prj (oval new) = Some x0"
  obtains (wrong) s' where "get_or_set ty new k s = (Inl QError_type, s')" "quiet s s'"
      "vis s k \<noteq> None" "Option.bind (vis s k) prj = None"
  | (got) ob s' x where "get_or_set ty new k s = (Inr ob, s')" "store_ok s'" "frame s s'"
      "vis s' = (vis s)(k \<mapsto> oval ob)" "obj_ok ob" "map_of (cur_db s') k = Some ob" "\<not> is_expired s' k"
      "prj (oval ob) = Some x" "x = (case vis s k of None \<Rightarrow> x0 | Some v \<Rightarrow> the (prj v))"
  using assms(1)
proof (cases rule: get_cases [of _ k])
  case (miss e s')
  then consider "e = QError_notExist" "vis s k = None" | "e = QError_type" "vis s k \<noteq> None" by auto
  then show thesis
  proof cases
    case 1
    obtain ob s2 where s2: "SetValue k new s' = (ob, s2)" by (cases "SetValue k new s'")
    have q: "store_ok s'" "frame s s'" "vis s' = vis s" using miss(3) by (simp_all add: quiet_def)
    note r = SetValue_result [OF s2 q(1) assms(2)]
    have "frame s s2" using frame_trans [OF q(2) r(2)] .
    then show thesis
      using 1 miss(1,5) s2 r q assms(3) by (intro got [of ob s2 x0]) (auto simp: get_or_set_def)
  next
    case 2
    then show thesis using miss by (intro wrong) (auto simp: get_or_set_def)
  qed
next
  case (hit ob s' x)
  then have "store_ok s'" "frame s s'" "vis s' = vis s" by (simp_all add: quiet_def)
  then show thesis
    using hit by (intro got [of ob s' x]) (auto simp: get_or_set_def fun_eq_iff)
qed

end

end
