(* ===== verification/Server.thy ===== *)
theory Server
  imports Store Proto
begin

text \<open>
  The server state around the store: the connected clients (QClient.h, QClient.cc), the table of
  watched keys (QMulti), the propagation of writes to watchers, append-only file and slaves
  (\<open>Propogate\<close> in QStore.cc, QAOF.cc, \<open>SendToSlaves\<close> in QReplication.cc).

  Clients are identified by numbers; a \<open>weak_ptr\<close> is such a number, expired when no client has
  it. What is sent to a client is appended to its field \<open>out\<close>.
\<close>

subsection \<open>Clients\<close>

type_synonym client_id = nat

record qclient =
  cl_db :: int
  flag :: "32 word"
  watchKeys :: "(int \<times> QString list) list"
  queueCmds :: "QString list list"
  waitingKeys :: "QString list"
  target :: QString
  channels :: "QString list"
  patternChannels :: "QString list"
  cl_name :: QString
  auth :: bool
  lastauth :: int
  parser :: QProtoParser
  out :: string

definition ClientFlag_multi :: "32 word" where "ClientFlag_multi = 1"
definition ClientFlag_dirty :: "32 word" where "ClientFlag_dirty = 2"
definition ClientFlag_wrongExec :: "32 word" where "ClientFlag_wrongExec = 4"
definition ClientFlag_master :: "32 word" where "ClientFlag_master = 8"

definition SetFlag :: "32 word \<Rightarrow> qclient \<Rightarrow> qclient" where
  "SetFlag f c = c\<lparr>flag := or (flag c) f\<rparr>"

definition ClearFlag :: "32 word \<Rightarrow> qclient \<Rightarrow> qclient" where
  "ClearFlag f c = c\<lparr>flag := and (flag c) (not f)\<rparr>"

definition IsFlagOn :: "32 word \<Rightarrow> qclient \<Rightarrow> bool" where
  "IsFlagOn f c \<longleftrightarrow> and (flag c) f \<noteq> 0"

definition FlagExecWrong :: "qclient \<Rightarrow> qclient" where
  "FlagExecWrong c = (if IsFlagOn ClientFlag_multi c then SetFlag ClientFlag_wrongExec c else c)"

definition set_insert :: "'x \<Rightarrow> 'x list \<Rightarrow> bool \<times> 'x list" where
  "set_insert x xs = (if x \<in> set xs then (False, xs) else (True, xs @ [x]))"

definition watch_set :: "int \<Rightarrow> qclient \<Rightarrow> QString list" where
  "watch_set db c = (case map_of (watchKeys c) db of None \<Rightarrow> [] | Some ks \<Rightarrow> ks)"

definition Client_Watch :: "int \<Rightarrow> QString \<Rightarrow> qclient \<Rightarrow> bool \<times> qclient" where
  "Client_Watch db key c =
     (case set_insert key (watch_set db c) of
        (fresh, ks) \<Rightarrow> (fresh, c\<lparr>watchKeys := AList.update db ks (watchKeys c)\<rparr>))"

definition Client_NotifyDirty :: "int \<Rightarrow> QString \<Rightarrow> qclient \<Rightarrow> bool \<times> qclient" where
  "Client_NotifyDirty db key c =
     (if IsFlagOn ClientFlag_dirty c then (True, c)
      else
        let c' = c\<lparr>watchKeys := AList.update db (watch_set db c) (watchKeys c)\<rparr>
        in if key \<in> set (watch_set db c) then (True, SetFlag ClientFlag_dirty c') else (False, c'))"

definition ClearMulti :: "qclient \<Rightarrow> qclient" where
  "ClearMulti c = ClearFlag ClientFlag_wrongExec (ClearFlag ClientFlag_multi (c\<lparr>queueCmds := []\<rparr>))"

definition ClearWatch :: "qclient \<Rightarrow> qclient" where
  "ClearWatch c = ClearFlag ClientFlag_dirty (c\<lparr>watchKeys := []\<rparr>)"

definition WaitFor :: "QString \<Rightarrow> QString option \<Rightarrow> qclient \<Rightarrow> bool \<times> qclient" where
  "WaitFor key tgt c =
     (case set_insert key (waitingKeys c) of
        (succ, ks) \<Rightarrow>
          (case tgt of
             None \<Rightarrow> (succ, c\<lparr>waitingKeys := ks\<rparr>)
           | Some t \<Rightarrow>
               if succ then
                 (if target c \<noteq> [] then (False, c\<lparr>waitingKeys := removeAll key ks\<rparr>)
                  else (succ, c\<lparr>waitingKeys := ks, target := t\<rparr>))
               else (succ, c\<lparr>waitingKeys := ks\<rparr>)))"

definition ClearWaitingKeys :: "qclient \<Rightarrow> qclient" where
  "ClearWaitingKeys c = c\<lparr>waitingKeys := [], target := []\<rparr>"

definition SendPacket :: "string \<Rightarrow> qclient \<Rightarrow> qclient" where
  "SendPacket bytes c = c\<lparr>out := out c @ bytes\<rparr>"

definition SetName :: "QString \<Rightarrow> qclient \<Rightarrow> qclient" where
  "SetName n c = c\<lparr>cl_name := n\<rparr>"

definition SetAuth :: "qclient \<Rightarrow> qclient" where
  "SetAuth c = c\<lparr>auth := True\<rparr>"

definition RewriteCmd :: "QString list \<Rightarrow> qclient \<Rightarrow> qclient" where
  "RewriteCmd ps c = c\<lparr>parser := SetParams ps (parser c)\<rparr>"

subsection \<open>The server state\<close>

text \<open>QSlowLog.h: what has been logged, the newest first.\<close>

record QSlowLog =
  threshold :: int
  beginUs :: int
  logMaxCount :: nat
  slow_logs :: "(nat \<times> QString list) list"

text \<open>QReplication.h: the state of the server as a slave.\<close>

datatype QReplState = QReplState_none | QReplState_connecting | QReplState_connected | QReplState_wait_auth
  | QReplState_wait_replconf | QReplState_wait_rdb | QReplState_online

text \<open>
  \<open>masterState\<close> is the field \<open>state\<close> of the master's information; \<open>chanClients\<close>
  and \<open>patClients\<close> are the two tables of QPubsub.
\<close>

record server = qstore +
  dirty :: int
  dirtyKeys :: "QString list"
  watched :: "(int \<times> (QString \<times> client_id list) list) list"
  clients :: "(client_id \<times> qclient) list"
  current :: "client_id option"
  appendonly :: bool
  aofLastDb :: int
  aofBuf :: string
  slaves :: "(client_id \<times> bool) list"
  bgsaving :: bool
  replBuf :: string
  masterState :: QReplState
  monitors :: "client_id list"
  password :: QString
  chanClients :: "(QString \<times> client_id list) list"
  patClients :: "(QString \<times> client_id list) list"
  slowlog :: QSlowLog

definition put_client :: "client_id \<Rightarrow> qclient \<Rightarrow> 'a server_scheme \<Rightarrow> 'a server_scheme" where
  "put_client i c s = s\<lparr>clients := AList.update i c (clients s)\<rparr>"

text \<open>\<open>QClient::Current()\<close>; dereferencing it without a current client is fatal.\<close>

definition Current :: "'a server_scheme \<Rightarrow> (client_id \<times> qclient) option" where
  "Current s =
     (case current s of None \<Rightarrow> None | Some i \<Rightarrow> map_option (Pair i) (map_of (clients s) i))"

definition upd_current :: "(qclient \<Rightarrow> qclient) \<Rightarrow> 'a server_scheme \<Rightarrow> 'a server_scheme option" where
  "upd_current f s = (case Current s of None \<Rightarrow> None | Some (i, c) \<Rightarrow> Some (put_client i (f c) s))"

subsection \<open>Watched keys\<close>

definition watchers :: "int \<Rightarrow> QString \<Rightarrow> 'a server_scheme \<Rightarrow> client_id list" where
  "watchers db key s =
     (case map_of (watched s) db of None \<Rightarrow> []
      | Some ks \<Rightarrow> (case map_of ks key of None \<Rightarrow> [] | Some cls \<Rightarrow> cls))"

definition watched_in :: "int \<Rightarrow> 'a server_scheme \<Rightarrow> (QString \<times> client_id list) list" where
  "watched_in db s = (case map_of (watched s) db of None \<Rightarrow> [] | Some ks \<Rightarrow> ks)"

definition Multi_Watch :: "client_id \<Rightarrow> int \<Rightarrow> QString \<Rightarrow> 'a server_scheme \<Rightarrow> 'a server_scheme option" where
  "Multi_Watch i db key s =
     (case map_of (clients s) i of
        None \<Rightarrow> None
      | Some c \<Rightarrow>
          (case Client_Watch db key c of
             (fresh, c) \<Rightarrow>
               let s = put_client i c s in
               Some (if fresh then
                       s\<lparr>watched := AList.update db
                           (AList.update key (watchers db key s @ [i]) (watched_in db s)) (watched s)\<rparr>
                     else s)))"

fun NotifyDirty_loop :: "int \<Rightarrow> QString \<Rightarrow> client_id list \<Rightarrow> 'a server_scheme \<Rightarrow> client_id list \<times> 'a server_scheme" where
  "NotifyDirty_loop db key [] s = ([], s)"
| "NotifyDirty_loop db key (i # cls) s =
     (case map_of (clients s) i of
        None \<Rightarrow> NotifyDirty_loop db key cls s
      | Some c \<Rightarrow>
          if current s = Some i then
            (case NotifyDirty_loop db key cls s of (kept, s) \<Rightarrow> (i # kept, s))
          else
            case Client_NotifyDirty db key c of
              (isdirty, c) \<Rightarrow>
                case NotifyDirty_loop db key cls (put_client i c s) of
                  (kept, s) \<Rightarrow> (if isdirty then kept else i # kept, s))"

definition NotifyDirty :: "int \<Rightarrow> QString \<Rightarrow> 'a server_scheme \<Rightarrow> 'a server_scheme" where
  "NotifyDirty db key s =
     (case map_of (watched s) db of
        None \<Rightarrow> s
      | Some ks \<Rightarrow>
          (case map_of ks key of
             None \<Rightarrow> s
           | Some cls \<Rightarrow>
               (case NotifyDirty_loop db key cls s of
                  (kept, s) \<Rightarrow>
                    s\<lparr>watched := AList.update db
                       (if kept = [] then AList.delete key ks else AList.update key kept ks) (watched s)\<rparr>)))"

text \<open>\<open>NotifyDirtyAll\<close>: every client that watches a key of the database (of any, for \<open>-1\<close>).\<close>

definition flag_dirty :: "client_id \<Rightarrow> 'a server_scheme \<Rightarrow> 'a server_scheme" where
  "flag_dirty i s =
     (case map_of (clients s) i of None \<Rightarrow> s | Some c \<Rightarrow> put_client i (SetFlag ClientFlag_dirty c) s)"

definition NotifyDirtyAll :: "int \<Rightarrow> 'a server_scheme \<Rightarrow> 'a server_scheme" where
  "NotifyDirtyAll db s =
     (if db = -1 then fold (\<lambda>(d, ks). fold (\<lambda>(k, cls). fold flag_dirty cls) ks) (watched s) s
      else fold (\<lambda>(k, cls). fold flag_dirty cls) (watched_in db s) s)"

subsection \<open>Propagation of writes\<close>

definition WriteSelectDB :: "int \<Rightarrow> 'a server_scheme \<Rightarrow> 'a server_scheme" where
  "WriteSelectDB db s =
     (if db = aofLastDb s then s
      else s\<lparr>aofLastDb := db,
             aofBuf := aofBuf s @ WriteMultiBulkLong 2 @ WriteBulkString ''select'' @ WriteBulkLong (nat db)\<rparr>)"

definition AOF_SaveCommand :: "QString list \<Rightarrow> int \<Rightarrow> 'a server_scheme \<Rightarrow> 'a server_scheme" where
  "AOF_SaveCommand params db s =
     (let s = WriteSelectDB db s in s\<lparr>aofBuf := aofBuf s @ SaveCommand params\<rparr>)"

definition send_to :: "string \<Rightarrow> client_id \<times> bool \<Rightarrow> 'a server_scheme \<Rightarrow> 'a server_scheme" where
  "send_to bytes slave s =
     (case slave of
        (i, online) \<Rightarrow>
          (case map_of (clients s) i of
             None \<Rightarrow> s
           | Some c \<Rightarrow> if online then put_client i (SendPacket bytes c) s else s))"

definition SendToSlaves :: "QString list \<Rightarrow> 'a server_scheme \<Rightarrow> 'a server_scheme" where
  "SendToSlaves params s =
     (if bgsaving s then s\<lparr>replBuf := replBuf s @ SaveCommand params\<rparr>
      else fold (send_to (SaveCommand params)) (slaves s) s)"

definition signal_dirty :: "QString \<Rightarrow> 'a server_scheme \<Rightarrow> 'a server_scheme" where
  "signal_dirty k s =
     (let s = s\<lparr>dirty := wrap32 (dirty s + 1)\<rparr> in AddDirtyKey k (NotifyDirty (GetDB s) k s))"

text \<open>\<open>Propogate\<close>. The keys a command put in \<open>g_dirtyKeys\<close> take the place of its first argument.\<close>

definition notify_writes :: "QString list \<Rightarrow> 'a server_scheme \<Rightarrow> 'a server_scheme" where
  "notify_writes params s =
     (if dirtyKeys s \<noteq> [] then (fold signal_dirty (dirtyKeys s) s)\<lparr>dirtyKeys := []\<rparr>
      else if 1 < length params then signal_dirty (params ! 1) s else s)"

definition log_write :: "QString list \<Rightarrow> 'a server_scheme \<Rightarrow> 'a server_scheme" where
  "log_write params s = (if appendonly s then AOF_SaveCommand params (GetDB s) s else s)"

definition Propogate :: "QString list \<Rightarrow> 'a server_scheme \<Rightarrow> 'a server_scheme option" where
  "Propogate params s =
     (if params = [] then None
      else Some (SendToSlaves params (log_write params (notify_writes params s))))"

definition Propogate_db :: "int \<Rightarrow> QString list \<Rightarrow> 'a server_scheme \<Rightarrow> 'a server_scheme option" where
  "Propogate_db db params s = Propogate params (NotifyDirtyAll db s)"

text \<open>A command: its parameters, its reply buffer and the state before; the error it returns, the
  reply and the state after, or nothing when the process dies.\<close>

type_synonym result = "(QError \<times> reply \<times> server) option"
type_synonym handler = "QString list \<Rightarrow> reply \<Rightarrow> server \<Rightarrow> result"

definition fail :: "QError \<Rightarrow> QError \<Rightarrow> reply \<Rightarrow> server \<Rightarrow> result" where
  "fail shown ret r s = (case ReplyError shown r of None \<Rightarrow> None | Some r \<Rightarrow> Some (ret, r, s))"

subsection \<open>What leaves the store alone\<close>

text \<open>Two server states with the same store part look the same to the store.\<close>

definition same_store :: "server \<Rightarrow> server \<Rightarrow> bool" where
  "same_store s s' \<longleftrightarrow> qstore.truncate s' = qstore.truncate s"

lemma truncate_view [simp]:
  "cur_db (qstore.truncate s) = cur_db s" "cur_exp (qstore.truncate s) = cur_exp s"
  "is_expired (qstore.truncate s) = is_expired s" "vis (qstore.truncate s) = vis s"
  "store_ok (qstore.truncate s) = store_ok s" "dbno (qstore.truncate s) = dbno s"
  "now (qstore.truncate s) = now s" "store (qstore.truncate s) = store s"
  "expiresDb (qstore.truncate s) = expiresDb s" "waitSyncKeys (qstore.truncate s) = waitSyncKeys s"
  by (simp_all add: cur_db_def cur_exp_def is_expired_def vis_def store_ok_def fun_eq_iff qstore.truncate_def)

lemma same_store_view:
  assumes "same_store s s'"
  shows "cur_db s' = cur_db s" "cur_exp s' = cur_exp s" "is_expired s' = is_expired s" "vis s' = vis s"
    "store_ok s' = store_ok s" "dbno s' = dbno s" "now s' = now s" "store s' = store s"
    "expiresDb s' = expiresDb s" "waitSyncKeys s' = waitSyncKeys s"
  using assms truncate_view [of s] truncate_view [of s'] by (simp_all add: same_store_def)

lemma same_store_refl [simp, intro]: "same_store s s"
  by (simp add: same_store_def)

lemma same_store_trans [trans]: "same_store s s' \<Longrightarrow> same_store s' s'' \<Longrightarrow> same_store s s''"
  by (simp add: same_store_def)

lemma same_store_updates [simp]:
  "same_store s (s'\<lparr>dirty := a\<rparr>) = same_store s s'" "same_store s (s'\<lparr>dirtyKeys := b\<rparr>) = same_store s s'"
  "same_store s (s'\<lparr>watched := c\<rparr>) = same_store s s'" "same_store s (s'\<lparr>clients := d\<rparr>) = same_store s s'"
  "same_store s (s'\<lparr>current := e\<rparr>) = same_store s s'" "same_store s (s'\<lparr>aofLastDb := f\<rparr>) = same_store s s'"
  "same_store s (s'\<lparr>aofBuf := g\<rparr>) = same_store s s'" "same_store s (s'\<lparr>slaves := h\<rparr>) = same_store s s'"
  "same_store s (s'\<lparr>replBuf := i\<rparr>) = same_store s s'" "same_store s (put_client j k s') = same_store s s'"
  by (simp_all add: same_store_def qstore.truncate_def put_client_def)

lemma same_store_fold:
  "(\<And>x s. x \<in> set xs \<Longrightarrow> same_store s (f x s)) \<Longrightarrow> same_store s (fold f xs s)"
proof (induction xs arbitrary: s)
  case (Cons x xs)
  then have "same_store s (f x s)" "same_store (f x s) (fold f xs (f x s))" by simp_all
  then show ?case by (auto intro: same_store_trans)
qed simp

lemma same_store_NotifyDirty_loop: "NotifyDirty_loop db k cls s = (kept, s') \<Longrightarrow> same_store s s'"
proof (induction db k cls s arbitrary: kept s' rule: NotifyDirty_loop.induct)
  case (2 db key i cls s)
  show ?case
  proof (cases "map_of (clients s) i")
    case None
    then show ?thesis using "2.IH"(1) "2.prems" by simp
  next
    case (Some c)
    show ?thesis
    proof (cases "current s = Some i")
      case True
      then show ?thesis using "2.IH"(2) [OF Some True] "2.prems" Some by (simp split: prod.splits)
    next
      case False
      obtain d c' where d: "Client_NotifyDirty db key c = (d, c')" by (cases "Client_NotifyDirty db key c")
      obtain kept' s1 where r: "NotifyDirty_loop db key cls (put_client i c' s) = (kept', s1)"
        by (cases "NotifyDirty_loop db key cls (put_client i c' s)")
      have "same_store (put_client i c' s) s1"
        using "2.IH"(3) [OF Some False d [symmetric] r] .
      then have "same_store s s1" by (simp add: same_store_def put_client_def qstore.truncate_def)
      moreover have "s' = s1" using "2.prems" Some False d r by simp
      ultimately show ?thesis by simp
    qed
  qed
qed simp

lemma same_store_NotifyDirty [simp]: "same_store s (NotifyDirty db k s)"
  by (auto simp: NotifyDirty_def split: option.split prod.split dest: same_store_NotifyDirty_loop)

lemma AddDirtyKey_memory [store_simps]: "waitSyncKeys s = [] \<Longrightarrow> AddDirtyKey k s = s"
  by (simp add: AddDirtyKey_def)

lemma same_store_signal: "waitSyncKeys s = [] \<Longrightarrow> same_store s (signal_dirty k s)"
proof -
  assume w: "waitSyncKeys s = []"
  let ?s = "s\<lparr>dirty := wrap32 (dirty s + 1)\<rparr>"
  have 1: "same_store s ?s" by simp
  have 2: "same_store ?s (NotifyDirty (GetDB ?s) k ?s)" by simp
  from w 2 have "waitSyncKeys (NotifyDirty (GetDB ?s) k ?s) = []" by (simp add: same_store_view(10) [OF 2])
  then have "signal_dirty k s = NotifyDirty (GetDB ?s) k ?s"
    by (simp add: signal_dirty_def Let_def AddDirtyKey_memory)
  with same_store_trans [OF 1 2] show ?thesis by simp
qed

lemma same_store_SendToSlaves: "same_store s (SendToSlaves params s)"
  unfolding SendToSlaves_def
  by (auto simp: send_to_def split: option.split intro!: same_store_fold)

lemma same_store_fold_signal: "waitSyncKeys s = [] \<Longrightarrow> same_store s (fold signal_dirty ks s)"
proof (induction ks arbitrary: s)
  case (Cons k ks)
  have 1: "same_store s (signal_dirty k s)" using same_store_signal [OF Cons.prems] .
  then have "same_store (signal_dirty k s) (fold signal_dirty ks (signal_dirty k s))"
    using Cons same_store_view(10) [OF 1] by simp
  with 1 show ?case by (auto intro: same_store_trans)
qed simp

lemma same_store_notify_writes: "waitSyncKeys s = [] \<Longrightarrow> same_store s (notify_writes params s)"
  by (simp add: notify_writes_def same_store_fold_signal same_store_signal)

lemma same_store_log_write: "same_store s (log_write params s)"
  by (simp add: log_write_def AOF_SaveCommand_def WriteSelectDB_def Let_def)

text \<open>Without a backend, propagation always returns and never changes the store.\<close>

lemma Propogate_memory:
  assumes "waitSyncKeys s = []" "params \<noteq> []"
  obtains s' where "Propogate params s = Some s'" "same_store s s'"
proof
  show "Propogate params s = Some (SendToSlaves params (log_write params (notify_writes params s)))"
    using assms(2) by (simp add: Propogate_def)
  show "same_store s (SendToSlaves params (log_write params (notify_writes params s)))"
    using same_store_notify_writes [OF assms(1)] same_store_log_write same_store_SendToSlaves
    by (blast intro: same_store_trans)
qed

lemma frame_dirtyKeys: "frame s s' \<Longrightarrow> server.dirtyKeys s' = server.dirtyKeys (s :: server)"
  by (auto simp: frame_def)

subsection \<open>A server at start\<close>

definition server_new :: server where
  "server_new = \<lparr>store = [], expiresDb = [], blockedClients = [], backends = [], waitSyncKeys = [],
     dbno = 0, now = 0, lruclock = 0, rewritePid = -1, qdbPid = -1,
     dirty = 0, dirtyKeys = [], watched = [], clients = [], current = None, appendonly = False,
     aofLastDb = -1, aofBuf = [], slaves = [], bgsaving = False, replBuf = [],
     masterState = QReplState_none, monitors = [], password = [], chanClients = [], patClients = [],
     slowlog = \<lparr>threshold = 0, beginUs = 0, logMaxCount = 0, slow_logs = []\<rparr>\<rparr>"

text \<open>A client as its constructor leaves it.\<close>

definition client_new :: qclient where
  "client_new = \<lparr>cl_db = 0, flag = 0, watchKeys = [], queueCmds = [], waitingKeys = [], target = [], channels = [],
     patternChannels = [], cl_name = ''clientxxx'', auth = False, lastauth = 0, parser = QProtoParser_new, out = []\<rparr>"

lemma store_ok_Init:
  assumes "dbno s = 0" "store s = []" "expiresDb s = []" "blockedClients s = []" "backends s = []"
    "waitSyncKeys s = []"
  shows "store_ok (Store_Init n s)"
  using assms by (auto simp: Store_Init_def Let_def store_ok_def resize_def kMaxDbNum_def)

lemma store_ok_server_new [simp]: "store_ok (Store_Init n server_new)"
  by (rule store_ok_Init) (simp_all add: server_new_def)

lemma vis_server_new [simp]: "vis (Store_Init n server_new) = Map.empty"
proof -
  have "cur_db (Store_Init n server_new) = []"
    using store_ok_current(1) [OF store_ok_server_new, of n]
    by (simp add: cur_db_def Store_Init_def Let_def server_new_def resize_def)
  then show ?thesis by (simp add: vis_def fun_eq_iff)
qed

subsection \<open>A server with some values\<close>

definition obj_of :: "qvalue \<Rightarrow> qobject" where
  "obj_of v = \<lparr>otype = vtype v, encoding = vencoding v, lru = 0, oval = v\<rparr>"

definition server_with :: "(QString \<times> qvalue) list \<Rightarrow> server" where
  "server_with kvs = fold (\<lambda>(k, v). put_obj k (obj_of v)) kvs (Store_Init 1 server_new)"

lemma obj_of [simp]: "oval (obj_of v) = v" "obj_ok (obj_of v) = value_ok v"
  by (simp_all add: obj_of_def obj_ok_def)

lemma put_obj_fields [simp]: "is_expired (put_obj k ob s) = is_expired s" "dbno (put_obj k ob s) = dbno s"
  by (simp_all add: put_obj_def)

lemma server_with_fold:
  "store_ok (s :: server) \<Longrightarrow> (\<And>k. \<not> is_expired s k) \<Longrightarrow> \<forall>(k, v) \<in> set kvs. value_ok v \<Longrightarrow>
    store_ok (fold (\<lambda>(k, v). put_obj k (obj_of v)) kvs s) \<and>
    vis (fold (\<lambda>(k, v). put_obj k (obj_of v)) kvs s) = vis s ++ map_of (rev kvs) \<and>
    frame s (fold (\<lambda>(k, v). put_obj k (obj_of v)) kvs s)"
proof (induction kvs arbitrary: s)
  case (Cons kv kvs)
  obtain k v where kv: "kv = (k, v)" by (cases kv)
  have "store_ok (put_obj k (obj_of v) s)" using Cons.prems kv by (simp add: store_ok_put_obj)
  then show ?case
    using Cons.IH [of "put_obj k (obj_of v) s"] Cons.prems kv vis_put_obj [OF Cons.prems(1,2)]
      frame_trans [OF frame_put_obj]
    by (auto simp: map_add_def fun_eq_iff split: option.split)
qed simp

lemma not_expired_new [simp]: "\<not> is_expired (Store_Init 1 server_new) k"
  by (simp add: is_expired_def cur_exp_def Store_Init_def server_new_def resize_def kMaxDbNum_def Let_def)

lemma server_with:
  assumes "\<forall>(k, v) \<in> set kvs. value_ok v"
  shows "store_ok (server_with kvs)" "vis (server_with kvs) = map_of (rev kvs)"
    "frame (Store_Init 1 server_new) (server_with kvs)"
  using server_with_fold [OF _ _ assms, of "Store_Init 1 server_new"] by (simp_all add: server_with_def)

subsection \<open>Results that keep the invariant\<close>

text \<open>
  A command result that is a crash or a state satisfying the store's invariant. The rules
  below walk through the case distinctions of a handler.
\<close>

fun safe_result :: "result \<Rightarrow> bool" where
  "safe_result None = True"
| "safe_result (Some (e, r, s)) = store_ok s"

definition safe_cmd :: "handler \<Rightarrow> bool" where
  "safe_cmd h \<longleftrightarrow> (\<forall>params r s. store_ok s \<longrightarrow> safe_result (h params r s))"

lemma safe_cmdI: "(\<And>params r s. store_ok s \<Longrightarrow> safe_result (h params r s)) \<Longrightarrow> safe_cmd h"
  by (simp add: safe_cmd_def)

lemma safe_Some [safe_intros]: "store_ok s \<Longrightarrow> safe_result (Some (e, r, s))"
  by simp

lemma safe_None [safe_intros]: "safe_result None"
  by simp

lemma safe_fail [safe_intros]: "store_ok s \<Longrightarrow> safe_result (fail a b r s)"
  by (simp add: fail_def split: option.split)

lemma safe_get [safe_intros]:
  assumes "store_ok s" "\<And>e s'. store_ok s' \<Longrightarrow> safe_result (f e s')"
    "\<And>v s'. store_ok s' \<Longrightarrow> obj_ok v \<Longrightarrow> ty \<noteq> QType_invalid \<longrightarrow> vtype (oval v) = ty \<Longrightarrow> safe_result (g v s')"
  shows "safe_result (case GetValueByType k ty s of (x, s') \<Rightarrow> (case x of Inl e \<Rightarrow> f e s' | Inr v \<Rightarrow> g v s'))"
proof (cases "GetValueByType k ty s")
  case (Pair x s')
  then have g: "GetValueByType_touch k ty True s = (x, s')" by (simp add: GetValueByType_def)
  show ?thesis
  proof (cases x)
    case (Inl e)
    then show ?thesis using Pair GetValueByType_Inl(2) [OF g [unfolded Inl] assms(1)] assms(2) by simp
  next
    case (Inr v)
    note r = GetValueByType_Inr [OF g [unfolded Inr] assms(1)]
    have "ty \<noteq> QType_invalid \<longrightarrow> vtype (oval v) = ty" using r(8) by auto
    then show ?thesis using Pair Inr assms(3) [OF r(2,6)] by simp
  qed
qed

lemma safe_set [safe_intros]:
  assumes "store_ok s" "obj_ok v" "\<And>ob s'. store_ok s' \<Longrightarrow> obj_ok ob \<Longrightarrow> oval ob = oval v \<Longrightarrow> safe_result (f ob s')"
  shows "safe_result (case SetValue k v s of (ob, s') \<Rightarrow> f ob s')"
  using SetValue_result [OF _ assms(1,2)] assms(3) by (auto split: prod.split)

lemma safe_if [safe_intros]:
  "(b \<Longrightarrow> safe_result x) \<Longrightarrow> (\<not> b \<Longrightarrow> safe_result y) \<Longrightarrow> safe_result (if b then x else y)"
  by simp

lemma safe_option [safe_intros]:
  "(x = None \<Longrightarrow> safe_result a) \<Longrightarrow> (\<And>y. x = Some y \<Longrightarrow> safe_result (f y)) \<Longrightarrow>
    safe_result (case x of None \<Rightarrow> a | Some y \<Rightarrow> f y)"
  by (simp split: option.split)

lemma safe_AdjustIndex [safe_intros]:
  "(\<And>x y. AdjustIndex a b n = (x, y) \<Longrightarrow> safe_result (f x y)) \<Longrightarrow>
    safe_result (case AdjustIndex a b n of (x, y) \<Rightarrow> f x y)"
  by (simp split: prod.split)

text \<open>Pairs of plain data, as opposed to pairs that carry the state on.\<close>

lemma safe_prod_long [safe_intros]:
  "(\<And>x y. p = (x, y) \<Longrightarrow> safe_result (f x y)) \<Longrightarrow> safe_result (case (p :: bool \<times> int) of (x, y) \<Rightarrow> f x y)"
  by (simp split: prod.split)

lemma safe_prod_nat [safe_intros]:
  "(\<And>x y. p = (x, y) \<Longrightarrow> safe_result (f x y)) \<Longrightarrow> safe_result (case (p :: nat \<times> 'b) of (x, y) \<Rightarrow> f x y)"
  by (simp split: prod.split)

lemma safe_prod_list [safe_intros]:
  "(\<And>x y. p = (x, y) \<Longrightarrow> safe_result (f x y)) \<Longrightarrow> safe_result (case (p :: 'b list \<times> nat) of (x, y) \<Rightarrow> f x y)"
  by (simp split: prod.split)

lemma safe_bool [safe_intros]:
  "(b \<Longrightarrow> safe_result x) \<Longrightarrow> (\<not> b \<Longrightarrow> safe_result y) \<Longrightarrow> safe_result (case b of True \<Rightarrow> x | False \<Rightarrow> y)"
  by (simp split: bool.split)

lemma store_ok_SetValue [inv_intros]: "store_ok s \<Longrightarrow> obj_ok v \<Longrightarrow> store_ok (snd (SetValue k v s))"
  by (rule set_step(1))

lemma store_ok_ClearExpire [inv_intros]: "store_ok s \<Longrightarrow> store_ok (snd (ClearExpire k s))"
  by (rule clear_step(1))

lemma store_ok_DeleteKey [inv_intros]: "store_ok s \<Longrightarrow> store_ok (snd (DeleteKey k s))"
  by (rule delete_step(1))

lemma store_ok_SetExpire [inv_intros]: "store_ok s \<Longrightarrow> store_ok (SetExpire k w s)"
  by (rule SetExpire_step(1))

lemma safe_VInt [safe_intros]:
  "(\<And>n. v = VInt n \<Longrightarrow> safe_result (f n)) \<Longrightarrow> safe_result (case v of VInt n \<Rightarrow> f n | _ \<Rightarrow> None)"
  by (cases v) auto

lemma safe_map_reply [safe_intros]: "store_ok s \<Longrightarrow> safe_result (map_option (\<lambda>r. (e, r, s)) x)"
  by (cases x) simp_all

lemma safe_map_result [safe_intros]:
  "(\<And>r' s'. x = Some (r', s') \<Longrightarrow> store_ok s') \<Longrightarrow> safe_result (map_option (Pair e) x)"
  by (cases x) auto

lemma safe_get_or_set [safe_intros]:
  assumes "store_ok s" "obj_ok new" "vtype (oval new) = ty" "ty \<noteq> QType_invalid"
    "\<And>e s'. store_ok s' \<Longrightarrow> safe_result (f e s')"
    "\<And>v s'. store_ok s' \<Longrightarrow> obj_ok v \<Longrightarrow> vtype (oval v) = ty \<Longrightarrow> safe_result (g v s')"
  shows "safe_result (case get_or_set ty new k s of (x, s') \<Rightarrow> (case x of Inl e \<Rightarrow> f e s' | Inr v \<Rightarrow> g v s'))"
proof (cases "GetValueByType k ty s")
  case (Pair x s')
  then have g: "GetValueByType_touch k ty True s = (x, s')" by (simp add: GetValueByType_def)
  show ?thesis
  proof (cases x)
    case (Inr v)
    note r = GetValueByType_Inr [OF g [unfolded Inr] assms(1)]
    have "vtype (oval v) = ty" using r(8) assms(4) by auto
    then show ?thesis using Pair Inr assms(6) [OF r(2,6)] by (simp add: get_or_set_def)
  next
    case (Inl e)
    note r = GetValueByType_Inl [OF g [unfolded Inl] assms(1)]
    obtain ob s2 where s2: "SetValue k new s' = (ob, s2)" by (cases "SetValue k new s'")
    note q = SetValue_result [OF s2 r(2) assms(2)]
    show ?thesis
      using Pair Inl s2 assms(3,5) assms(6) [OF q(1,4)] q(3) r(2) by (simp add: get_or_set_def)
  qed
qed

subsection \<open>What propagation does to clients\<close>

text \<open>What a client waits for, and what it has been sent.\<close>

definition wait_of :: "client_id \<Rightarrow> 'a server_scheme \<Rightarrow> (QString list \<times> QString) option" where
  "wait_of i s = map_option (\<lambda>c. (waitingKeys c, target c)) (map_of (clients s) i)"

definition out_of :: "client_id \<Rightarrow> 'a server_scheme \<Rightarrow> string option" where
  "out_of i s = map_option out (map_of (clients s) i)"

definition slave_ids :: "'a server_scheme \<Rightarrow> client_id set" where
  "slave_ids s = fst ` set (slaves s)"

text \<open>Nobody waits for something else, and only slaves are sent anything.\<close>

definition same_clients :: "server \<Rightarrow> server \<Rightarrow> bool" where
  "same_clients s s' \<longleftrightarrow> slaves s' = slaves s \<and> (\<forall>i. wait_of i s' = wait_of i s) \<and>
     (\<forall>i. i \<notin> slave_ids s \<longrightarrow> out_of i s' = out_of i s)"

lemma same_clients_refl [simp, intro]: "same_clients s s"
  by (simp add: same_clients_def)

lemma same_clients_trans [trans]: "same_clients s s' \<Longrightarrow> same_clients s' s'' \<Longrightarrow> same_clients s s''"
  by (auto simp: same_clients_def slave_ids_def)

lemma same_clients_updates [simp]:
  "same_clients s (s'\<lparr>dirty := a\<rparr>) = same_clients s s'" "same_clients s (s'\<lparr>dirtyKeys := b\<rparr>) = same_clients s s'"
  "same_clients s (s'\<lparr>watched := d\<rparr>) = same_clients s s'" "same_clients s (s'\<lparr>aofLastDb := f\<rparr>) = same_clients s s'"
  "same_clients s (s'\<lparr>aofBuf := g\<rparr>) = same_clients s s'" "same_clients s (s'\<lparr>replBuf := h\<rparr>) = same_clients s s'"
  by (simp_all add: same_clients_def wait_of_def out_of_def)

lemma wait_of_put_client [simp]: "wait_of j (put_client i c s) = (if j = i then Some (waitingKeys c, target c) else wait_of j s)"
  by (simp add: wait_of_def put_client_def)

lemma out_of_put_client [simp]: "out_of j (put_client i c s) = (if j = i then Some (out c) else out_of j s)"
  by (simp add: out_of_def put_client_def)

lemma slaves_put_client [simp]: "slaves (put_client i c s) = slaves s"
  by (simp add: put_client_def)

lemma Client_NotifyDirty_keeps:
  "Client_NotifyDirty db key c = (d, c') \<Longrightarrow> waitingKeys c' = waitingKeys c \<and> target c' = target c \<and> out c' = out c"
  by (auto simp: Client_NotifyDirty_def Let_def SetFlag_def split: if_splits)

lemma same_clients_NotifyDirty_loop: "NotifyDirty_loop db k cls s = (kept, s') \<Longrightarrow> same_clients s s'"
proof (induction cls arbitrary: kept s s')
  case (Cons i cls)
  show ?case
  proof (cases "map_of (clients s) i")
    case None
    then show ?thesis using Cons by simp
  next
    case (Some c)
    show ?thesis
    proof (cases "current s = Some i")
      case True
      then show ?thesis using Cons Some by (auto split: prod.splits)
    next
      case False
      obtain d c' where d: "Client_NotifyDirty db k c = (d, c')" by (cases "Client_NotifyDirty db k c")
      obtain kept' s1 where r: "NotifyDirty_loop db k cls (put_client i c' s) = (kept', s1)"
        by (cases "NotifyDirty_loop db k cls (put_client i c' s)")
      have "same_clients s (put_client i c' s)"
        using Client_NotifyDirty_keeps [OF d] Some
        by (auto simp: same_clients_def) (simp_all add: wait_of_def out_of_def)
      from same_clients_trans [OF this Cons.IH [OF r]] show ?thesis using Cons.prems Some False d r by simp
    qed
  qed
qed simp

lemma same_clients_NotifyDirty [simp]: "same_clients s (NotifyDirty db k s)"
  by (auto simp: NotifyDirty_def split: option.split prod.split dest: same_clients_NotifyDirty_loop)

lemma same_clients_fold:
  "(\<And>x s. x \<in> set xs \<Longrightarrow> same_clients s (f x s)) \<Longrightarrow> same_clients s (fold f xs s)"
proof (induction xs arbitrary: s)
  case (Cons x xs)
  then have "same_clients s (f x s)" "same_clients (f x s) (fold f xs (f x s))" by simp_all
  then show ?case by (auto intro: same_clients_trans)
qed simp

lemma same_clients_send:
  "fst ` set xs \<subseteq> slave_ids s \<Longrightarrow> same_clients s (fold (send_to bytes) xs s)"
proof (induction xs arbitrary: s)
  case (Cons x xs)
  obtain i online where x: "x = (i, online)" by (cases x)
  have 1: "same_clients s (send_to bytes x s)"
    using Cons.prems x
    by (auto simp: send_to_def same_clients_def split: option.split) (simp_all add: wait_of_def SendPacket_def)
  then have "slave_ids (send_to bytes x s) = slave_ids s" by (simp add: same_clients_def slave_ids_def)
  then have "same_clients (send_to bytes x s) (fold (send_to bytes) xs (send_to bytes x s))"
    using Cons by simp
  with 1 show ?case by (auto intro: same_clients_trans)
qed simp

lemma same_clients_signal: "waitSyncKeys s = [] \<Longrightarrow> same_clients s (signal_dirty k s)"
proof -
  assume w: "waitSyncKeys s = []"
  let ?s = "s\<lparr>dirty := wrap32 (dirty s + 1)\<rparr>"
  have "waitSyncKeys (NotifyDirty (GetDB ?s) k ?s) = []"
    using w same_store_view(10) [OF same_store_NotifyDirty [of ?s "GetDB ?s" k]] by simp
  then have "signal_dirty k s = NotifyDirty (GetDB ?s) k ?s"
    by (simp add: signal_dirty_def Let_def AddDirtyKey_memory)
  moreover have "same_clients s ?s" by simp
  ultimately show ?thesis using same_clients_NotifyDirty same_clients_trans by metis
qed

lemma same_clients_fold_signal: "waitSyncKeys s = [] \<Longrightarrow> same_clients s (fold signal_dirty ks s)"
proof (induction ks arbitrary: s)
  case (Cons k ks)
  have "waitSyncKeys (signal_dirty k s) = []"
    using same_store_view(10) [OF same_store_signal [OF Cons.prems]] Cons.prems by simp
  from Cons.IH [OF this] same_clients_signal [OF Cons.prems] show ?case
    by (auto intro: same_clients_trans)
qed simp

lemma Propogate_step:
  assumes "waitSyncKeys s = []" "params \<noteq> []"
  obtains s' where "Propogate params s = Some s'" "same_store s s'" "same_clients s s'"
proof -
  let ?s1 = "notify_writes params s" and ?s2 = "log_write params (notify_writes params s)"
  have 1: "same_clients s ?s1"
    using same_clients_fold_signal [OF assms(1)] same_clients_signal [OF assms(1)]
    by (simp add: notify_writes_def)
  have 2: "same_clients t (log_write params t)" for t
    by (simp add: log_write_def AOF_SaveCommand_def WriteSelectDB_def Let_def)
  have 3: "same_clients t (SendToSlaves params t)" for t
    using same_clients_send [of "slaves t" t] by (simp add: SendToSlaves_def slave_ids_def)
  have p: "Propogate params s = Some (SendToSlaves params ?s2)" using assms(2) by (simp add: Propogate_def)
  from Propogate_memory [OF assms] obtain s' where s': "Propogate params s = Some s'" "same_store s s'" .
  have "same_clients s (SendToSlaves params ?s2)" using 1 2 3 by (blast intro: same_clients_trans)
  then show thesis using that s' p by simp
qed

subsection \<open>Typed access in commands\<close>

text \<open>
  The macros \<open>GET_SET\<close>, \<open>GET_HASH\<close>, \<open>GET_SORTEDSET\<close> and their \<open>GET_OR_SET\<close> variants fetch a key as one
  type and return early on an error. \<open>miss\<close> is what the macro does with the error, \<open>hit\<close> the rest of
  the command, which gets the object and what its cast yields.
\<close>

definition with_obj ::
  "(qvalue \<Rightarrow> 'v option) \<Rightarrow> QType \<Rightarrow> (QError \<Rightarrow> server \<Rightarrow> result) \<Rightarrow> (qobject \<Rightarrow> 'v \<Rightarrow> server \<Rightarrow> result) \<Rightarrow>
    QString \<Rightarrow> server \<Rightarrow> result" where
  "with_obj prj ty miss hit key s =
     (case GetValueByType key ty s of
        (Inl err, s) \<Rightarrow> miss err s
      | (Inr value, s) \<Rightarrow> (case prj (oval value) of None \<Rightarrow> None | Some x \<Rightarrow> hit value x s))"

definition with_new ::
  "(qvalue \<Rightarrow> 'v option) \<Rightarrow> QType \<Rightarrow> qobject \<Rightarrow> (QError \<Rightarrow> server \<Rightarrow> result) \<Rightarrow>
    (qobject \<Rightarrow> 'v \<Rightarrow> server \<Rightarrow> result) \<Rightarrow> QString \<Rightarrow> server \<Rightarrow> result" where
  "with_new prj ty new miss hit key s =
     (case get_or_set ty new key s of
        (Inl err, s) \<Rightarrow> miss err s
      | (Inr value, s) \<Rightarrow> (case prj (oval value) of None \<Rightarrow> None | Some x \<Rightarrow> hit value x s))"

text \<open>\<open>if (err == QError_notExist) FormatNull(reply); else ReplyError(err, reply); return err;\<close>\<close>

definition null_or_error :: "reply \<Rightarrow> QError \<Rightarrow> server \<Rightarrow> result" where
  "null_or_error r err s =
     (if err = QError_notExist then Some (err, FormatNull r, s) else fail err err r s)"

definition report :: "reply \<Rightarrow> QError \<Rightarrow> server \<Rightarrow> result" where
  "report r err s = fail err err r s"

lemma safe_with_obj [safe_intros]:
  assumes "store_ok s" "\<And>e s'. store_ok s' \<Longrightarrow> safe_result (miss e s')"
    "\<And>ob x s'. store_ok s' \<Longrightarrow> obj_ok ob \<Longrightarrow> prj (oval ob) = Some x \<Longrightarrow> safe_result (hit ob x s')"
  shows "safe_result (with_obj prj ty miss hit k s)"
  unfolding with_obj_def by (rule safe_get) (use assms in \<open>auto split: option.split\<close>)

lemma safe_with_new [safe_intros]:
  assumes "store_ok s" "obj_ok new" "vtype (oval new) = ty" "ty \<noteq> QType_invalid"
    "\<And>e s'. store_ok s' \<Longrightarrow> safe_result (miss e s')"
    "\<And>ob x s'. store_ok s' \<Longrightarrow> obj_ok ob \<Longrightarrow> prj (oval ob) = Some x \<Longrightarrow> safe_result (hit ob x s')"
  shows "safe_result (with_new prj ty new miss hit k s)"
  unfolding with_new_def by (rule safe_get_or_set) (use assms in \<open>auto split: option.split\<close>)

lemma safe_null_or_error [safe_intros]: "store_ok s \<Longrightarrow> safe_result (null_or_error r e s)"
  by (simp add: null_or_error_def safe_fail)

lemma safe_report [safe_intros]: "store_ok s \<Longrightarrow> safe_result (report r e s)"
  by (simp add: report_def safe_fail)

text \<open>
  A type whose values are built by one constructor. The locale adds to \<open>typed_object\<close> what commands
  of the type rely on when they write through the pointer: any good value may take the place of
  another.
\<close>

locale typed_value = typed_object ty prj
  for ty :: QType and prj :: "qvalue \<Rightarrow> 'v option" +
  fixes mk :: "'v \<Rightarrow> qvalue" and good :: "'v \<Rightarrow> bool" and new :: qobject and start :: 'v
  assumes prj_mk: "prj v = Some x \<longleftrightarrow> v = mk x"
    and mk_type: "vtype (mk x) = ty" "vencoding (mk x) = vencoding (mk y)"
    and mk_ok: "value_ok (mk x) = good x"
    and new_ok: "obj_ok new" "oval new = mk start"
begin

lemma mk_inject: "mk x = mk y \<Longrightarrow> x = y"
  using prj_mk [of "mk x" x] prj_mk [of "mk x" y] by simp

lemma prj_of_mk [simp]: "prj (mk x) = Some x"
  using prj_mk by blast

lemma put_value:
  assumes "store_ok s" "obj_ok ob" "oval ob = mk x" "good y" "\<not> is_expired s k"
  shows "store_ok (put_obj k (ob\<lparr>oval := mk y\<rparr>) s)" "vis (put_obj k (ob\<lparr>oval := mk y\<rparr>) s) = (vis s)(k \<mapsto> mk y)"
    "frame s (put_obj k (ob\<lparr>oval := mk y\<rparr>) s)" "\<not> is_expired (put_obj k (ob\<lparr>oval := mk y\<rparr>) s) k"
    "obj_ok (ob\<lparr>oval := mk y\<rparr>)"
proof -
  show ok: "obj_ok (ob\<lparr>oval := mk y\<rparr>)"
    using assms(2-4) mk_type(1) [of x] mk_type(1) [of y] mk_type(2) [of x y] by (simp add: obj_ok_def mk_ok)
  show "store_ok (put_obj k (ob\<lparr>oval := mk y\<rparr>) s)" "vis (put_obj k (ob\<lparr>oval := mk y\<rparr>) s) = (vis s)(k \<mapsto> mk y)"
    "frame s (put_obj k (ob\<lparr>oval := mk y\<rparr>) s)" "\<not> is_expired (put_obj k (ob\<lparr>oval := mk y\<rparr>) s) k"
    using assms vis_put_obj [OF assms(1,5)] ok by (simp_all add: store_ok_put_obj frame_put_obj)
qed

lemma put_ok: "store_ok s \<Longrightarrow> obj_ok ob \<Longrightarrow> prj (oval ob) = Some x \<Longrightarrow> good y \<Longrightarrow> store_ok (put_obj k (ob\<lparr>oval := mk y\<rparr>) s)"
  using mk_type(1) [of x] mk_type(1) [of y] mk_type(2) [of x y]
  by (intro store_ok_put_obj) (simp_all add: obj_ok_def mk_ok prj_mk)

lemma good_prj: "obj_ok ob \<Longrightarrow> prj (oval ob) = Some x \<Longrightarrow> good x"
  by (simp add: obj_ok_def prj_mk mk_ok [symmetric])

lemma with_obj_hit:
  assumes "store_ok s" "vis s k = Some (mk x)"
  obtains ob s' where "\<And>miss hit. with_obj prj ty miss hit k s = hit ob x s'" "quiet s s'" "store_ok s'" "frame s s'"
    "vis s' = vis s" "oval ob = mk x" "obj_ok ob" "good x" "\<not> is_expired s' k"
proof (cases rule: get_cases [OF assms(1), of k])
  case (1 e s')
  then show thesis using assms(2) prj_mk [of "mk x" x] by simp
next
  case (2 ob s' y)
  then have y: "y = x" "oval ob = mk x" using assms(2) prj_mk mk_inject by auto
  then have "good x" using 2 by (intro good_prj [of ob]) simp_all
  then show thesis using 2 y by (intro that [of ob s']) (simp_all add: with_obj_def quiet_def)
qed

lemma with_obj_miss:
  assumes "store_ok s" "vis s k = None"
  obtains s' where "\<And>miss hit. with_obj prj ty miss hit k s = miss QError_notExist s'" "quiet s s'" "\<not> is_expired s' k"
proof (cases rule: get_cases [OF assms(1), of k])
  case (1 e s')
  then show thesis using assms(2) by (intro that [of s']) (auto simp: with_obj_def)
qed (use assms(2) in simp)

lemma with_new_get:
  assumes "store_ok s" "vis s k = None \<and> x = start \<or> vis s k = Some (mk x)"
  obtains ob s' where "\<And>miss hit. with_new prj ty new miss hit k s = hit ob x s'" "store_ok s'" "frame s s'"
    "vis s' = (vis s)(k \<mapsto> mk x)" "oval ob = mk x" "obj_ok ob" "good x" "\<not> is_expired s' k"
proof -
  have "prj (oval new) = Some start" using new_ok(2) prj_mk by simp
  from assms(1) new_ok(1) this show thesis
  proof (cases rule: get_or_set_cases [of _ _ _ k])
    case (wrong s')
    then show ?thesis using assms(2) prj_mk [of "mk x" x] by auto
  next
    case (got ob s' y)
    then have y: "y = x" "oval ob = mk x" using assms(2) prj_mk mk_inject by (auto split: option.splits)
    then have "good x" using got by (intro good_prj [of ob]) simp_all
    then show ?thesis using got y by (intro that [of ob s']) (simp_all add: with_new_def)
  qed
qed

end

end
