(* ===== verification/Strings.thy ===== *)
theory Strings
  imports Server Helper
begin

text \<open>
  QedisCore/QString.cc: the string commands. A string object is raw bytes or, when its text is a
  number for \<open>Strtol\<close>, a \<open>long\<close>. The command names of the code carry the suffix \<open>_cmd\<close>.
\<close>

subsection \<open>Storing\<close>

definition SetString :: "QString \<Rightarrow> QString \<Rightarrow> bool \<Rightarrow> server \<Rightarrow> bool \<times> server" where
  "SetString key v exclusive s =
     (let put = (\<lambda>s. snd (SetValue key (CreateString v) (snd (ClearExpire key s)))) in
      if exclusive then
        (case GetValue key True s of
           (Inr _, s) \<Rightarrow> (False, s)
         | (Inl _, s) \<Rightarrow> (True, put s))
      else (True, put s))"

definition set_cmd :: handler where
  "set_cmd params r s =
     (case SetString (params ! 1) (params ! 2) False s of (_, s) \<Rightarrow> Some (QError_ok, FormatOK r, s))"

definition setnx_cmd :: handler where
  "setnx_cmd params r s =
     (case SetString (params ! 1) (params ! 2) True s of
        (ok, s) \<Rightarrow> Some (QError_ok, if ok then Format1 r else Format0 r, s))"

text \<open>The loop of MSET and MSETNX over the pairs: note the key as dirty, then store.\<close>

fun mset_loop :: "QString list \<Rightarrow> server \<Rightarrow> server" where
  "mset_loop (k # v # rest) s =
     mset_loop rest (snd (SetString k v False (s\<lparr>dirtyKeys := dirtyKeys s @ [k]\<rparr>)))"
| "mset_loop _ s = s"

definition mset_cmd :: handler where
  "mset_cmd params r s =
     (if length params mod 2 \<noteq> 1 then fail QError_param QError_param r s
      else Some (QError_ok, FormatOK r, mset_loop (tl params) s))"

fun msetnx_check :: "QString list \<Rightarrow> server \<Rightarrow> bool \<times> server" where
  "msetnx_check (k # v # rest) s =
     (case GetValue k True s of
        (Inr _, s) \<Rightarrow> (True, s)
      | (Inl _, s) \<Rightarrow> msetnx_check rest s)"
| "msetnx_check _ s = (False, s)"

definition msetnx_cmd :: handler where
  "msetnx_cmd params r s =
     (if length params mod 2 \<noteq> 1 then fail QError_param QError_param r s
      else
        case msetnx_check (tl params) s of
          (True, s) \<Rightarrow> Some (QError_ok, Format0 r, s)
        | (False, s) \<Rightarrow> Some (QError_ok, Format1 r, mset_loop (tl params) s))"

definition setex_cmd :: handler where
  "setex_cmd params r s =
     (case Strtol (params ! 2) of
        None \<Rightarrow> fail QError_nan QError_nan r s
      | Some seconds \<Rightarrow>
          let s = snd (SetValue (params ! 1) (CreateString (params ! 3)) s);
              s = SetExpire (params ! 1) (now s + word_of_int (wrap64 (seconds * 1000))) s
          in Some (QError_ok, FormatOK r, s))"

definition psetex_cmd :: handler where
  "psetex_cmd params r s =
     (case Strtol (params ! 2) of
        None \<Rightarrow> fail QError_nan QError_nan r s
      | Some milliseconds \<Rightarrow>
          let s = snd (SetValue (params ! 1) (CreateString (params ! 3)) s);
              s = SetExpire (params ! 1) (now s + word_of_int milliseconds) s
          in Some (QError_ok, FormatOK r, s))"

text \<open>\<open>std::string::max_size\<close>: \<open>resize\<close> beyond it throws.\<close>

definition string_max_size :: int where "string_max_size = 2 ^ 63 - 1"

definition replace_at :: "nat \<Rightarrow> string \<Rightarrow> string \<Rightarrow> string" where
  "replace_at off new str = take off str @ new @ drop (off + length new) str"

text \<open>
  \<open>resize\<close> and \<open>replace\<close> throw on a size or position out of range, and nothing catches it. A raw
  string is changed in place, an integer is replaced by the changed text.
\<close>

definition setrange_cmd :: handler where
  "setrange_cmd params r s =
     (case Strtol (params ! 2) of
        None \<Rightarrow> fail QError_nan QError_nan r s
      | Some offset \<Rightarrow>
          let key = params ! 1;
              go = (\<lambda>value s.
                case GetDecodedString value of
                  None \<Rightarrow> None
                | Some str \<Rightarrow>
                    let newSize = (offset + int (length (params ! 3))) mod 2 ^ 64 in
                    if newSize > int (length str) \<and> newSize > string_max_size then None
                    else
                      let str = (if newSize > int (length str) then resize (nat newSize) NUL str else str)
                      in if offset < 0 \<or> offset > int (length str) then None
                         else
                           let str = replace_at (nat offset) (params ! 3) str;
                               value = value\<lparr>oval := VRaw str, encoding := QEncode_raw\<rparr>
                           in Some (QError_ok, FormatInt (int (length str)) r, put_obj key value s))
          in case GetValueByType key QType_string s of
               (Inr value, s) \<Rightarrow> go value s
             | (Inl err, s) \<Rightarrow>
                 if err = QError_notExist then
                   (case SetValue key (CreateString []) s of (value, s) \<Rightarrow> go value s)
                 else fail err err r s)"

subsection \<open>Reading\<close>

definition AddReply :: "qobject \<Rightarrow> reply \<Rightarrow> reply option" where
  "AddReply value r = map_option (\<lambda>str. FormatBulk str r) (GetDecodedString value)"

definition get_cmd :: handler where
  "get_cmd params r s =
     (case GetValueByType (params ! 1) QType_string s of
        (Inl err, s) \<Rightarrow>
          if err = QError_notExist then Some (err, FormatNull r, s) else fail err err r s
      | (Inr value, s) \<Rightarrow> map_option (\<lambda>r. (QError_ok, r, s)) (AddReply value r))"

fun mget_loop :: "QString list \<Rightarrow> reply \<Rightarrow> server \<Rightarrow> (reply \<times> server) option" where
  "mget_loop [] r s = Some (r, s)"
| "mget_loop (k # ks) r s =
     (case GetValueByType k QType_string s of
        (Inl _, s) \<Rightarrow> mget_loop ks (FormatNull r) s
      | (Inr value, s) \<Rightarrow>
          (case AddReply value r of None \<Rightarrow> None | Some r \<Rightarrow> mget_loop ks r s))"

definition mget_cmd :: handler where
  "mget_cmd params r s =
     map_option (Pair QError_ok) (mget_loop (tl params) (PreFormatMultiBulk (length params - 1) r) s)"

definition getrange_cmd :: handler where
  "getrange_cmd params r s =
     (case GetValueByType (params ! 1) QType_string s of
        (Inl err, s) \<Rightarrow>
          if err = QError_notExist then Some (err, FormatBulk [] r, s) else fail err err r s
      | (Inr value, s) \<Rightarrow>
          (case (Strtol (params ! 2), Strtol (params ! 3)) of
             (Some start, Some end_) \<Rightarrow>
               (case GetDecodedString value of
                  None \<Rightarrow> None
                | Some str \<Rightarrow>
                    (case AdjustIndex start end_ (length str) of
                       (start, end_) \<Rightarrow>
                         if start \<le> end_ then
                           Some (QError_ok, FormatBulk (take (nat (end_ - start + 1)) (drop (nat start) str)) r, s)
                         else map_option (\<lambda>r. (QError_ok, r, s)) (FormatEmptyBulk r)))
           | _ \<Rightarrow> fail QError_nan QError_nan r s))"

definition getset_cmd :: handler where
  "getset_cmd params r s =
     (let put = (\<lambda>s. snd (SetValue (params ! 1) (CreateString (params ! 2)) s)) in
      case GetValueByType (params ! 1) QType_string s of
        (Inl err, s) \<Rightarrow>
          if err = QError_notExist then Some (QError_ok, FormatNull r, put s) else fail err err r s
      | (Inr value, s) \<Rightarrow>
          (case GetDecodedString value of
             None \<Rightarrow> None
           | Some str \<Rightarrow> Some (QError_ok, FormatBulk str r, put s)))"

definition append_cmd :: handler where
  "append_cmd params r s =
     (let finish = (\<lambda>value s.
            case GetDecodedString value of
              None \<Rightarrow> None
            | Some str \<Rightarrow> Some (QError_ok, FormatInt (int (length str)) r, s))
      in case GetValueByType (params ! 1) QType_string s of
           (Inr value, s) \<Rightarrow>
             (case GetDecodedString value of
                None \<Rightarrow> None
              | Some str \<Rightarrow>
                  case SetValue (params ! 1) (CreateString (str @ params ! 2)) s of (value, s) \<Rightarrow> finish value s)
         | (Inl err, s) \<Rightarrow>
             if err = QError_notExist then
               (case SetValue (params ! 1) (CreateString (params ! 2)) s of (value, s) \<Rightarrow> finish value s)
             else fail err err r s)"

definition strlen_cmd :: handler where
  "strlen_cmd params r s =
     (case GetValueByType (params ! 1) QType_string s of
        (Inl err, s) \<Rightarrow> Some (err, Format0 r, s)
      | (Inr value, s) \<Rightarrow>
          (case GetDecodedString value of
             None \<Rightarrow> None
           | Some str \<Rightarrow> Some (QError_ok, FormatInt (int (length str)) r, s)))"

subsection \<open>Bits\<close>

definition byte :: "char \<Rightarrow> 8 word" where "byte c = of_nat (code c)"
definition char_of_byte :: "8 word \<Rightarrow> char" where "char_of_byte b = char_of (unat b)"

definition bitcount_cmd :: handler where
  "bitcount_cmd params r s =
     (case GetValueByType (params ! 1) QType_string s of
        (Inl err, s) \<Rightarrow>
          if err = QError_type then fail QError_type QError_ok r s else Some (QError_ok, Format0 r, s)
      | (Inr value, s) \<Rightarrow>
          let n = length params in
          if n \<noteq> 2 \<and> n \<noteq> 4 then fail QError_param QError_param r s
          else
            case (if n = 4 then (Strtol (params ! 2), Strtol (params ! 3)) else (Some 0, Some (-1))) of
              (Some start, Some end_) \<Rightarrow>
                (case GetDecodedString value of
                   None \<Rightarrow> None
                 | Some str \<Rightarrow>
                     (case AdjustIndex start end_ (length str) of
                        (start, end_) \<Rightarrow>
                          let cnt = (if start \<le> end_ then BitCount (drop (nat start) str) (nat (end_ - start + 1)) else 0)
                          in Some (QError_ok, FormatInt (int cnt) r, s)))
            | _ \<Rightarrow> fail QError_nan QError_nan r s)"

definition getbit_cmd :: handler where
  "getbit_cmd params r s =
     (case GetValueByType (params ! 1) QType_string s of
        (Inl _, s) \<Rightarrow> Some (QError_ok, Format0 r, s)
      | (Inr value, s) \<Rightarrow>
          (case Strtol (params ! 2) of
             None \<Rightarrow> fail QError_nan QError_nan r s
           | Some offset \<Rightarrow>
               (case GetDecodedString value of
                  None \<Rightarrow> None
                | Some str \<Rightarrow>
                    if offset < 0 \<or> int (8 * length str) \<le> offset then Some (QError_ok, Format0 r, s)
                    else
                      let b = byte (str ! nat (offset div 8)) in
                      Some (QError_ok,
                        if and b (push_bit (nat (offset mod 8)) 1) \<noteq> 0 then Format1 r else Format0 r, s))))"

definition kStringMaxBytes :: int where "kStringMaxBytes = 1 * 1024 * 1024 * 1024"

text \<open>The change of one bit in the (possibly extended) bytes; the old byte comes with it.\<close>

definition set_bit_at :: "nat \<Rightarrow> bool \<Rightarrow> string \<Rightarrow> 8 word \<times> string" where
  "set_bit_at offset on str =
     (let bytes = offset div 8; bits = offset mod 8;
          newVal = (if bytes + 1 > length str then resize (bytes + 1) NUL str else str);
          old = byte (newVal ! bytes);
          b = (if on then or old (push_bit bits 1) else and old (not (push_bit bits 1)))
      in (old, newVal[bytes := char_of_byte b]))"

definition setbit_cmd :: handler where
  "setbit_cmd params r s =
     (let go = (\<lambda>value s.
            case (Strtol (params ! 2), Strtol (params ! 3)) of
              (Some offset, Some on) \<Rightarrow>
                if offset < 0 \<or> kStringMaxBytes < offset then Some (QError_ok, Format0 r, s)
                else
                  (case GetDecodedString value of
                     None \<Rightarrow> None
                   | Some str \<Rightarrow>
                       (case set_bit_at (nat offset) (on \<noteq> 0) str of
                          (old, newVal) \<Rightarrow>
                            let value = value\<lparr>oval := VRaw newVal, encoding := QEncode_raw\<rparr>;
                                oldbit = and old (push_bit (nat (offset mod 8)) 1)
                            in Some (QError_ok, FormatInt (if oldbit \<noteq> 0 then 1 else 0) r,
                                 put_obj (params ! 1) value s)))
            | _ \<Rightarrow> fail QError_nan QError_nan r s)
      in case GetValueByType (params ! 1) QType_string s of
           (Inr value, s) \<Rightarrow> go value s
         | (Inl err, s) \<Rightarrow>
             if err = QError_notExist then
               (case SetValue (params ! 1) (CreateString []) s of (value, s) \<Rightarrow> go value s)
             else Some (err, Format0 r, s))"

datatype BitOp = BitOp_and | BitOp_or | BitOp_not | BitOp_xor

definition apply_bitop :: "BitOp \<Rightarrow> char \<Rightarrow> char \<Rightarrow> char" where
  "apply_bitop op a b =
     (case op of
        BitOp_and \<Rightarrow> char_of_byte (and (byte a) (byte b))
      | BitOp_or \<Rightarrow> char_of_byte (or (byte a) (byte b))
      | BitOp_xor \<Rightarrow> char_of_byte (xor (byte a) (byte b))
      | BitOp_not \<Rightarrow> a)"

text \<open>
  One round of the loop: an empty result is replaced, otherwise the result is extended and
  combined with the bytes of \<open>str\<close>.
\<close>

definition bitop_step :: "BitOp \<Rightarrow> string \<Rightarrow> string \<Rightarrow> string" where
  "bitop_step op res str =
     (if res = [] then str
      else
        let res = (if length str > length res then resize (length str) NUL res else res)
        in map (\<lambda>(a, b). apply_bitop op a b) (zip res str) @ drop (length str) res)"

fun bitop_loop :: "BitOp \<Rightarrow> QString list \<Rightarrow> string \<Rightarrow> server \<Rightarrow> (string \<times> server) option" where
  "bitop_loop op [] res s = Some (res, s)"
| "bitop_loop op (k # ks) res s =
     (case GetValueByType k QType_string s of
        (Inl _, s) \<Rightarrow> bitop_loop op ks res s
      | (Inr val, s) \<Rightarrow>
          (case GetDecodedString val of
             None \<Rightarrow> None
           | Some str \<Rightarrow> bitop_loop op ks (bitop_step op res str) s))"

definition StringBitOp :: "QString list \<Rightarrow> BitOp \<Rightarrow> server \<Rightarrow> (string \<times> server) option" where
  "StringBitOp keys op s =
     (if op = BitOp_not then
        (if length keys \<noteq> 1 then None
         else
           case GetValueByType (hd keys) QType_string s of
             (Inl _, s) \<Rightarrow> Some ([], s)
           | (Inr val, s) \<Rightarrow>
               map_option (\<lambda>str. (map (\<lambda>c. char_of_byte (not (byte c))) str, s)) (GetDecodedString val))
      else bitop_loop op keys [] s)"

definition bitop_cmd :: handler where
  "bitop_cmd params r s =
     (let keys = drop 3 params;
          name = params ! 1;
          op = (if length name = 2 then (if strncaseeq name ''or'' 2 then Some BitOp_or else None)
                else if length name = 3 then
                  (if strncaseeq name ''xor'' 3 then Some BitOp_xor
                   else if strncaseeq name ''and'' 3 then Some BitOp_and
                   else if strncaseeq name ''not'' 3 \<and> length params = 4 then Some BitOp_not
                   else None)
                else None)
      in case op of
           None \<Rightarrow> fail QError_param QError_ok r s
         | Some op \<Rightarrow>
             (case StringBitOp keys op s of
                None \<Rightarrow> None
              | Some (res, s) \<Rightarrow>
                  Some (QError_ok, FormatInt (int (length res)) r,
                    snd (SetValue (params ! 2) (CreateString res) s))))"

subsection \<open>Counters\<close>

definition ChangeIntValue :: "QString \<Rightarrow> int \<Rightarrow> reply \<Rightarrow> server \<Rightarrow> result" where
  "ChangeIntValue key delta r s =
     (let go = (\<lambda>value s.
            if encoding value \<noteq> QEncode_int then fail QError_nan QError_ok r s
            else
              (case oval value of
                 VInt oldVal \<Rightarrow>
                   let v = wrap64 (oldVal + delta)
                   in Some (QError_ok, FormatInt v r, put_obj key (Obj_Reset (VInt v) value) s)
               | _ \<Rightarrow> None))
      in case GetValueByType key QType_string s of
           (Inr value, s) \<Rightarrow> go value s
         | (Inl err, s) \<Rightarrow>
             if err = QError_notExist then
               (case SetValue key (CreateString_long 0) s of (value, s) \<Rightarrow> go value s)
             else fail err err r s)"

definition incr_cmd :: handler where
  "incr_cmd params r s = ChangeIntValue (params ! 1) 1 r s"

definition decr_cmd :: handler where
  "decr_cmd params r s = ChangeIntValue (params ! 1) (-1) r s"

definition incrby_cmd :: handler where
  "incrby_cmd params r s =
     (case Strtol (params ! 2) of
        None \<Rightarrow> fail QError_nan QError_nan r s
      | Some delta \<Rightarrow> ChangeIntValue (params ! 1) delta r s)"

definition decrby_cmd :: handler where
  "decrby_cmd params r s =
     (case Strtol (params ! 2) of
        None \<Rightarrow> fail QError_nan QError_nan r s
      | Some delta \<Rightarrow> ChangeIntValue (params ! 1) (wrap64 (- delta)) r s)"

text \<open>The float counter: \<open>strtof\<close> and the \<open>%.6g\<close> image of a sum are arguments.\<close>

definition ChangeFloatValue ::
  "(string \<Rightarrow> ('f \<times> nat) option) \<Rightarrow> ('f \<Rightarrow> 'f \<Rightarrow> string) \<Rightarrow> QString \<Rightarrow> 'f \<Rightarrow> reply \<Rightarrow> server \<Rightarrow> result" where
  "ChangeFloatValue strtof sum_g key delta r s =
     (let go = (\<lambda>value s.
            case GetDecodedString value of
              None \<Rightarrow> None
            | Some val \<Rightarrow>
                (case Strtod strtof val of
                   None \<Rightarrow> fail QError_nan QError_nan r s
                 | Some oldVal \<Rightarrow>
                     let newVal = sum_g oldVal delta;
                         value = (Obj_Reset (VRaw newVal) value)\<lparr>encoding := QEncode_raw\<rparr>
                     in Some (QError_ok, FormatBulk newVal r, put_obj key value s)))
      in case GetValueByType key QType_string s of
           (Inr value, s) \<Rightarrow> go value s
         | (Inl err, s) \<Rightarrow>
             if err = QError_notExist then
               (case SetValue key (CreateString ''0'') s of (value, s) \<Rightarrow> go value s)
             else fail err err r s)"

definition incrbyfloat_cmd ::
  "(string \<Rightarrow> ('f \<times> nat) option) \<Rightarrow> ('f \<Rightarrow> 'f \<Rightarrow> string) \<Rightarrow> handler" where
  "incrbyfloat_cmd strtof sum_g params r s =
     (case Strtod strtof (params ! 2) of
        None \<Rightarrow> fail QError_nan QError_nan r s
      | Some delta \<Rightarrow> ChangeFloatValue strtof sum_g (params ! 1) delta r s)"

subsection \<open>Strings as values\<close>

fun sval :: "qvalue \<Rightarrow> QString option" where
  "sval (VRaw x) = Some x"
| "sval (VInt n) = Some (show_int n)"
| "sval _ = None"

definition canon :: "QString \<Rightarrow> QString" where
  "canon v = (case Strtol v of Some n \<Rightarrow> show_int n | None \<Rightarrow> v)"

lemma Strtol_range: "Strtol v = Some n \<Longrightarrow> LONG_MIN \<le> n \<and> n \<le> LONG_MAX"
  by (auto simp: Strtol_def strtol0_def Let_def LONG_MIN_def LONG_MAX_def split: if_splits option.splits prod.splits)

lemma CreateString_ok [simp]:
  "obj_ok (CreateString v)" "sval (oval (CreateString v)) = Some (canon v)"
  "vtype (oval (CreateString v)) = QType_string" "GetDecodedString (CreateString v) = Some (canon v)"
  by (auto simp: CreateString_def QObject_new_def obj_ok_def canon_def GetDecodedString_def
      dest: Strtol_range split: option.split)

lemma sval_string: "value_ok v \<Longrightarrow> sval v \<noteq> None \<longleftrightarrow> vtype v = QType_string"
  by (cases v) auto

lemma decoded [simp]: "obj_ok ob \<Longrightarrow> GetDecodedString ob = sval (oval ob)"
  by (cases "oval ob") (auto simp: obj_ok_def GetDecodedString_def)

lemma canon_idem [simp]: "canon (canon v) = canon v"
  by (auto simp: canon_def dest: Strtol_range split: option.split)

definition svis :: "'a qstore_scheme \<Rightarrow> QString \<Rightarrow> QString option" where
  "svis s k = Option.bind (vis s k) sval"

lemma SetString_step:
  assumes "store_ok s"
  obtains s' where "SetString k v False s = (True, s')" "store_ok s'" "frame s s'"
    "vis s' = (vis s)(k \<mapsto> oval (CreateString v))"
proof -
  note c = clear_step [OF assms, of k]
  note d = set_step [OF c(1), of "CreateString v" k]
  have "SetString k v False s = (True, snd (SetValue k (CreateString v) (snd (ClearExpire k s))))"
    by (simp add: SetString_def Let_def)
  moreover have "vis (snd (SetValue k (CreateString v) (snd (ClearExpire k s)))) =
      (vis s)(k \<mapsto> oval (CreateString v))"
    using c d by (auto simp: fun_eq_iff)
  ultimately show thesis using that c d frame_trans by (metis CreateString_ok(1))
qed

lemma svis_upd: "vis s' = (vis s)(k \<mapsto> oval (CreateString v)) \<Longrightarrow> svis s' = (svis s)(k \<mapsto> canon v)"
  by (auto simp: svis_def fun_eq_iff)

interpretation string_obj: typed_object QType_string sval
  by unfold_locales (simp, rule sval_string)

lemma get_string:
  assumes "store_ok s"
  obtains (miss) e s' where "GetValueByType k QType_string s = (Inl e, s')" "svis s k = None" "quiet s s'"
      "e = QError_notExist \<and> vis s k = None \<or> e = QError_type \<and> vis s k \<noteq> None"
  | (hit) ob s' where "GetValueByType k QType_string s = (Inr ob, s')" "quiet s s'"
      "GetDecodedString ob = svis s k" "svis s k \<noteq> None" "vis s k = Some (oval ob)" "obj_ok ob"
      "map_of (cur_db s') k = Some ob" "\<not> is_expired s' k"
  using assms
proof (cases rule: string_obj.get_cases [of _ k])
  case (miss e s')
  then show thesis by (intro that(1)) (simp_all add: svis_def)
next
  case (hit ob s' x)
  then show thesis by (intro that(2)) (simp_all add: svis_def)
qed

lemma quiet_svis: "quiet s s' \<Longrightarrow> svis s' = svis s"
  by (simp add: quiet_def svis_def fun_eq_iff)

definition mget_one :: "QString \<Rightarrow> server \<Rightarrow> QString option \<times> server" where
  "mget_one k s =
     (case GetValueByType k QType_string s of (Inl _, s) \<Rightarrow> (None, s) | (Inr ob, s) \<Rightarrow> (GetDecodedString ob, s))"

definition mset_one :: "QString \<Rightarrow> QString \<Rightarrow> server \<Rightarrow> server" where
  "mset_one k v s = snd (SetString k v False (s\<lparr>dirtyKeys := dirtyKeys s @ [k]\<rparr>))"

lemma mget_one_spec: "store_ok s \<Longrightarrow> fst (mget_one k s) = svis s k \<and> quiet s (snd (mget_one k s))"
  by (erule get_string [of _ k]) (simp_all add: mget_one_def)

lemma mset_one_spec:
  assumes "store_ok s"
  shows "store_ok (mset_one k v s)" "svis (mset_one k v s) = (svis s)(k \<mapsto> canon v)"
    "dirtyKeys (mset_one k v s) = dirtyKeys s @ [k]"
proof -
  let ?s = "s\<lparr>dirtyKeys := dirtyKeys s @ [k]\<rparr>"
  have ss: "same_store s ?s" by simp
  have ok: "store_ok ?s" using assms same_store_view(5) [OF ss] by simp
  from SetString_step [OF ok] obtain s' where s': "SetString k v False ?s = (True, s')" "store_ok s'"
      "frame ?s s'" "vis s' = (vis ?s)(k \<mapsto> oval (CreateString v))" .
  then show "store_ok (mset_one k v s)" "dirtyKeys (mset_one k v s) = dirtyKeys s @ [k]"
    by (simp_all add: mset_one_def frame_dirtyKeys)
  show "svis (mset_one k v s) = (svis s)(k \<mapsto> canon v)"
    using s' svis_upd [OF s'(4)] same_store_view(4) [OF ss] by (simp add: mset_one_def svis_def fun_eq_iff)
qed

interpretation strings: keyspace "store_ok :: server \<Rightarrow> bool" svis "\<lambda>_. True" canon mget_one mset_one
  "\<lambda>k s. snd (DeleteKey k s)"
proof
  fix s :: server and k :: QString
  assume s: "store_ok s"
  from mget_one_spec [OF s] show "fst (mget_one k s) = svis s k" "store_ok (snd (mget_one k s))"
    "svis (snd (mget_one k s)) = svis s"
    by (simp_all add: quiet_def svis_def fun_eq_iff)
  from delete_step [OF s] show "store_ok (snd (DeleteKey k s))"
    "svis (snd (DeleteKey k s)) = (svis s)(k := None)"
    by (simp_all add: svis_def fun_eq_iff)
qed (simp_all add: mset_one_spec)

definition pairs_args :: "(QString \<times> QString) list \<Rightarrow> QString list" where
  "pairs_args kvs = concat (map (\<lambda>(k, v). [k, v]) kvs)"

lemma mset_loop_fold: "mset_loop (pairs_args kvs) s = fold (\<lambda>(k, v). mset_one k v) kvs s"
  by (induction kvs arbitrary: s) (auto simp: pairs_args_def mset_one_def)

lemma mget_loop_gets:
  "store_ok s \<Longrightarrow> mget_loop ks r s =
    Some (fold (\<lambda>v. case v of None \<Rightarrow> FormatNull | Some v \<Rightarrow> FormatBulk v) (fst (strings.gets ks s)) r,
      snd (strings.gets ks s))"
proof (induction ks arbitrary: r s)
  case (Cons k ks)
  from Cons.prems show ?case
  proof (cases rule: get_string [of _ k])
    case (miss e s')
    then have "store_ok s'" "mget_one k s = (None, s')" by (simp_all add: quiet_def mget_one_def)
    then show ?thesis using miss(1) Cons.IH by (simp add: split_beta)
  next
    case (hit ob s')
    then obtain v where v: "GetDecodedString ob = Some v" by auto
    have "store_ok s'" "mget_one k s = (Some v, s')" using hit v by (simp_all add: quiet_def mget_one_def)
    then show ?thesis using hit(1) v Cons.IH by (simp add: AddReply_def split_beta)
  qed
qed simp


subsection \<open>Invariant\<close>

lemma obj_ok_raw [inv_intros]:
  "obj_ok ob \<Longrightarrow> vtype (oval ob) = QType_string \<Longrightarrow> obj_ok (ob\<lparr>oval := VRaw x, encoding := QEncode_raw\<rparr>)"
  "obj_ok ob \<Longrightarrow> vtype (oval ob) = QType_string \<Longrightarrow> obj_ok (ob\<lparr>encoding := QEncode_raw, oval := VRaw x\<rparr>)"
  by (simp_all add: obj_ok_def)

lemma obj_ok_int [inv_intros]:
  "obj_ok ob \<Longrightarrow> vtype (oval ob) = QType_string \<Longrightarrow> encoding ob = QEncode_int \<Longrightarrow> LONG_MIN \<le> n \<Longrightarrow> n \<le> LONG_MAX \<Longrightarrow>
    obj_ok (Obj_Reset (VInt n) ob)"
  by (simp add: obj_ok_def Obj_Reset_def)

lemma CreateString_long_ok [simp]: "LONG_MIN \<le> n \<Longrightarrow> n \<le> LONG_MAX \<Longrightarrow> obj_ok (CreateString_long n)"
  by (simp add: obj_ok_def CreateString_long_def QObject_new_def)

lemma CreateString_long_oval [simp]: "oval (CreateString_long n) = VInt n"
  by (simp add: CreateString_long_def)

lemma CreateString_long_0 [simp]: "obj_ok (CreateString_long 0)"
  by (simp add: LONG_MIN_def LONG_MAX_def)

lemma store_ok_dirtyKeys [simp]: "store_ok (s\<lparr>dirtyKeys := x\<rparr>) = store_ok (s :: server)"
  using same_store_view(5) [of s "s\<lparr>dirtyKeys := x\<rparr>"] by simp

lemma store_ok_SetString: "store_ok s \<Longrightarrow> SetString k v b s = (x, s') \<Longrightarrow> store_ok s'"
  by (auto simp: SetString_def Let_def get_defs split: if_splits prod.splits sum.splits
      intro!: store_ok_SetValue store_ok_ClearExpire dest: GetValueByType_Inl(2) GetValueByType_Inr(2))

lemma store_ok_mset_loop: "store_ok s \<Longrightarrow> store_ok (mset_loop ps s)"
proof (induction ps s rule: mset_loop.induct)
  case (1 k v rest s)
  let ?s = "s\<lparr>dirtyKeys := dirtyKeys s @ [k]\<rparr>"
  have "store_ok (snd (SetString k v False ?s))"
    using "1.prems" store_ok_SetString [of ?s k v False "fst (SetString k v False ?s)" "snd (SetString k v False ?s)"]
    by simp
  then show ?case using "1.IH" by simp
qed simp_all

lemma store_ok_msetnx_check: "store_ok s \<Longrightarrow> msetnx_check ps s = (b, s') \<Longrightarrow> store_ok s'"
  by (induction ps s rule: msetnx_check.induct)
    (auto simp: get_defs split: prod.splits sum.splits dest: GetValueByType_Inl(2) GetValueByType_Inr(2))

lemma store_ok_mget_loop: "store_ok s \<Longrightarrow> mget_loop ks r s = Some (r', s') \<Longrightarrow> store_ok s'"
  by (induction ks r s rule: mget_loop.induct)
    (auto simp: get_defs split: prod.splits sum.splits option.splits dest: GetValueByType_Inl(2) GetValueByType_Inr(2))

lemma store_ok_bitop_loop: "store_ok s \<Longrightarrow> bitop_loop op ks x s = Some (x', s') \<Longrightarrow> store_ok s'"
  by (induction op ks x s rule: bitop_loop.induct)
    (auto simp: get_defs split: prod.splits sum.splits option.splits dest: GetValueByType_Inl(2) GetValueByType_Inr(2))

lemma store_ok_StringBitOp: "store_ok s \<Longrightarrow> StringBitOp ks op s = Some (x', s') \<Longrightarrow> store_ok s'"
  by (auto simp: StringBitOp_def get_defs dest: store_ok_bitop_loop GetValueByType_Inl(2) GetValueByType_Inr(2)
      split: if_splits prod.splits sum.splits)

lemma safe_set_bit_at [safe_intros]:
  "(\<And>x y. set_bit_at n b str = (x, y) \<Longrightarrow> safe_result (f x y)) \<Longrightarrow>
    safe_result (case set_bit_at n b str of (x, y) \<Rightarrow> f x y)"
  by (simp split: prod.split)

lemmas string_wp = safe_intros store_ok_put_obj store_ok_SetValue store_ok_SetExpire obj_ok_int obj_ok_raw

lemma safe_ChangeIntValue: "store_ok s \<Longrightarrow> safe_result (ChangeIntValue k d r s)"
  unfolding ChangeIntValue_def Let_def
  by (auto intro!: string_wp simp: wrap64_range)

lemma safe_ChangeFloatValue: "store_ok s \<Longrightarrow> safe_result (ChangeFloatValue strtof g k d r s)"
  unfolding ChangeFloatValue_def Let_def Obj_Reset_def
  by (auto intro!: string_wp)

lemma safe_set_cmd [safe_cmds]: "safe_cmd set_cmd"
  by (rule safe_cmdI, auto simp: set_cmd_def intro!: string_wp dest: store_ok_SetString split: prod.split)

lemma safe_setnx_cmd [safe_cmds]: "safe_cmd setnx_cmd"
  by (rule safe_cmdI, auto simp: setnx_cmd_def intro!: string_wp dest: store_ok_SetString split: prod.split)

lemma safe_mset_cmd [safe_cmds]: "safe_cmd mset_cmd"
  by (rule safe_cmdI, auto simp: mset_cmd_def store_ok_mset_loop intro!: string_wp)

lemma safe_msetnx_cmd [safe_cmds]: "safe_cmd msetnx_cmd"
  by (rule safe_cmdI, auto simp: msetnx_cmd_def store_ok_mset_loop intro!: string_wp dest: store_ok_msetnx_check split: prod.split bool.split)

lemma safe_setex_cmd [safe_cmds]: "safe_cmd setex_cmd"
  by (rule safe_cmdI, auto simp: setex_cmd_def Let_def intro!: string_wp)

lemma safe_psetex_cmd [safe_cmds]: "safe_cmd psetex_cmd"
  by (rule safe_cmdI, auto simp: psetex_cmd_def Let_def intro!: string_wp)

lemma safe_getset_cmd [safe_cmds]: "safe_cmd getset_cmd"
  by (rule safe_cmdI, auto simp: getset_cmd_def Let_def intro!: string_wp)

lemma safe_append_cmd [safe_cmds]: "safe_cmd append_cmd"
  by (rule safe_cmdI, auto simp: append_cmd_def Let_def intro!: string_wp)

lemma safe_setrange_cmd [safe_cmds]: "safe_cmd setrange_cmd"
  by (rule safe_cmdI, auto simp: setrange_cmd_def Let_def intro!: string_wp)

lemma safe_get_cmd [safe_cmds]: "safe_cmd get_cmd"
  by (rule safe_cmdI, auto simp: get_cmd_def AddReply_def intro!: string_wp split: option.split)

lemma safe_getrange_cmd [safe_cmds]: "safe_cmd getrange_cmd"
  by (rule safe_cmdI, auto simp: getrange_cmd_def AddReply_def intro!: string_wp split: option.split)

lemma safe_mget_cmd [safe_cmds]: "safe_cmd mget_cmd"
  by (rule safe_cmdI, auto simp: mget_cmd_def Let_def intro!: string_wp dest: store_ok_mget_loop)

lemma safe_strlen_cmd [safe_cmds]: "safe_cmd strlen_cmd"
  by (rule safe_cmdI, auto simp: strlen_cmd_def Let_def intro!: string_wp)

lemma safe_bitcount_cmd [safe_cmds]: "safe_cmd bitcount_cmd"
  by (rule safe_cmdI, auto simp: bitcount_cmd_def Let_def intro!: string_wp)

lemma safe_getbit_cmd [safe_cmds]: "safe_cmd getbit_cmd"
  by (rule safe_cmdI, auto simp: getbit_cmd_def Let_def intro!: string_wp)

lemma safe_setbit_cmd [safe_cmds]: "safe_cmd setbit_cmd"
  by (rule safe_cmdI, auto simp: setbit_cmd_def Let_def intro!: string_wp)

lemma safe_bitop_cmd [safe_cmds]: "safe_cmd bitop_cmd"
  by (rule safe_cmdI, auto simp: bitop_cmd_def Let_def intro!: string_wp dest: store_ok_StringBitOp split: option.split)

lemma safe_incr_cmd [safe_cmds]: "safe_cmd incr_cmd"
  by (rule safe_cmdI, auto simp: incr_cmd_def intro!: string_wp safe_ChangeIntValue)

lemma safe_decr_cmd [safe_cmds]: "safe_cmd decr_cmd"
  by (rule safe_cmdI, auto simp: decr_cmd_def intro!: string_wp safe_ChangeIntValue)

lemma safe_incrby_cmd [safe_cmds]: "safe_cmd incrby_cmd"
  by (rule safe_cmdI, auto simp: incrby_cmd_def intro!: string_wp safe_ChangeIntValue)

lemma safe_decrby_cmd [safe_cmds]: "safe_cmd decrby_cmd"
  by (rule safe_cmdI, auto simp: decrby_cmd_def intro!: string_wp safe_ChangeIntValue)

lemma safe_incrbyfloat_cmd [safe_cmds]: "safe_cmd (incrbyfloat_cmd strtof g)"
  by (rule safe_cmdI, auto simp: incrbyfloat_cmd_def intro!: string_wp safe_ChangeFloatValue)

subsection \<open>Properties\<close>

definition bulk_or_null :: "QString option \<Rightarrow> reply \<Rightarrow> reply" where
  "bulk_or_null v = (case v of None \<Rightarrow> FormatNull | Some x \<Rightarrow> FormatBulk x)"

text \<open>What MSET stores, MGET returns. Whatever the store held, after an MSET of a list of pairs
  every key reads back as the last value given for it, in the normal form integers are kept in,
  and every other key as before; the keys are recorded as dirty, in order.\<close>

theorem mset_mget:
  assumes "store_ok s"
  shows "\<exists>s1 s2. mset_cmd (c # pairs_args kvs) r s = Some (QError_ok, FormatOK r, s1) \<and>
    dirtyKeys s1 = dirtyKeys s @ map fst kvs \<and>
    mget_cmd (c' # ks) r' s1 = Some (QError_ok,
      fold bulk_or_null (map (svis s ++ map_of (rev (map (\<lambda>(k, v). (k, canon v)) kvs))) ks)
        (PreFormatMultiBulk (length ks) r'), s2) \<and>
    store_ok s2 \<and> svis s2 = svis s ++ map_of (rev (map (\<lambda>(k, v). (k, canon v)) kvs))"
proof -
  let ?s1 = "fold (\<lambda>(k, v). mset_one k v) kvs s"
  have s1: "store_ok ?s1" "svis ?s1 = svis s ++ map_of (rev (map (\<lambda>(k, v). (k, canon v)) kvs))"
    using strings.puts [OF assms, of kvs] by auto
  have d: "store_ok s \<Longrightarrow> dirtyKeys (fold (\<lambda>(k, v). mset_one k v) kvs s) = dirtyKeys s @ map fst kvs" for s
    by (induction kvs arbitrary: s) (auto simp: mset_one_spec)
  have "length (c # pairs_args kvs) mod 2 = 1"
    by (induction kvs) (auto simp: pairs_args_def)
  then have 1: "mset_cmd (c # pairs_args kvs) r s = Some (QError_ok, FormatOK r, ?s1)"
    by (simp add: mset_cmd_def mset_loop_fold)
  have "mget_cmd (c' # ks) r' ?s1 = Some (QError_ok,
      fold bulk_or_null (map (svis ?s1) ks) (PreFormatMultiBulk (length ks) r'), snd (strings.gets ks ?s1))"
    using strings.gets_view [OF s1(1), of ks] mget_loop_gets [OF s1(1)]
    by (simp add: mget_cmd_def bulk_or_null_def [abs_def])
  then show ?thesis using 1 d [OF assms] s1 strings.gets_view [OF s1(1), of ks] by auto
qed

text \<open>C6: SET then GET. SET always succeeds and replaces whatever the key held, of any type and
  with any deadline; GET returns the value in its normal form. No other key changes.\<close>

theorem set_get:
  assumes "store_ok s"
  shows "\<exists>s1 s2. set_cmd [c, k, v] r s = Some (QError_ok, FormatOK r, s1) \<and>
    get_cmd [c', k] r' s1 = Some (QError_ok, FormatBulk (canon v) r', s2) \<and>
    store_ok s2 \<and> frame s s2 \<and> vis s2 = (vis s)(k \<mapsto> oval (CreateString v))"
proof -
  from SetString_step [OF assms, of k v] obtain s1 where s1: "SetString k v False s = (True, s1)" "store_ok s1"
    "frame s s1" "vis s1 = (vis s)(k \<mapsto> oval (CreateString v))" .
  have k: "svis s1 k = Some (canon v)" using svis_upd [OF s1(4)] by simp
  have "\<exists>s2. get_cmd [c', k] r' s1 = Some (QError_ok, FormatBulk (canon v) r', s2) \<and> quiet s1 s2"
    using s1(2)
  proof (cases rule: get_string [of _ k])
    case (hit ob s')
    then show ?thesis using k by (simp add: get_cmd_def AddReply_def)
  qed (use k in simp)
  then show ?thesis using s1 frame_trans by (fastforce simp: set_cmd_def quiet_def)
qed

lemma int_encoding: "obj_ok ob \<Longrightarrow> oval ob = VInt n \<Longrightarrow> encoding ob = QEncode_int"
  by (simp add: obj_ok_def)

lemma put_int_step:
  assumes "store_ok s" "obj_ok ob" "oval ob = VInt n" "\<not> is_expired s k"
  shows "store_ok (put_obj k (Obj_Reset (VInt (wrap64 x)) ob) s)"
    "vis (put_obj k (Obj_Reset (VInt (wrap64 x)) ob) s) = (vis s)(k \<mapsto> VInt (wrap64 x))"
proof -
  have e: "encoding ob = QEncode_int" using assms(2,3) by (rule int_encoding)
  show "store_ok (put_obj k (Obj_Reset (VInt (wrap64 x)) ob) s)"
    using assms e wrap64_range by (auto intro!: store_ok_put_obj obj_ok_int)
  show "vis (put_obj k (Obj_Reset (VInt (wrap64 x)) ob) s) = (vis s)(k \<mapsto> VInt (wrap64 x))"
    using vis_put_obj [OF assms(1,4)] by (simp add: Obj_Reset_def)
qed

text \<open>A missing key is created as the integer 0, then added to.\<close>

lemma ChangeIntValue_missing:
  assumes "store_ok s" "vis s k = None"
  shows "\<exists>s'. ChangeIntValue k d r s = Some (QError_ok, FormatInt (wrap64 d) r, s') \<and>
    store_ok s' \<and> frame s s' \<and> vis s' = (vis s)(k \<mapsto> VInt (wrap64 d))"
  using assms(1)
proof (cases rule: get_string [of _ k])
  case (miss e s')
  note q = miss(3) [unfolded quiet_def]
  obtain ob s2 where s2: "SetValue k (CreateString_long 0) s' = (ob, s2)"
    by (cases "SetValue k (CreateString_long 0) s'")
  have live: "\<not> is_expired s' k"
    using miss(1) GetValueByType_Inl(3) [OF _ assms(1)] by (simp add: GetValueByType_def)
  note r = SetValue_result [OF s2 q [THEN conjunct1] CreateString_long_0]
  have ob: "oval ob = VInt 0" using r(3) by simp
  have "\<not> is_expired s2 k" using live r(7) by simp
  note p = put_int_step [OF r(1,4) ob this, of d]
  have "frame s (put_obj k (Obj_Reset (VInt (wrap64 d)) ob) s2)"
    using q r(2) frame_put_obj frame_trans by blast
  then show ?thesis
    using miss(1,4) assms(2) s2 ob p int_encoding [OF r(4) ob] r(6) [OF live] q by (auto simp: ChangeIntValue_def Let_def)
qed (use assms in simp)

text \<open>The counters add. INCRBY on an integer or a missing key stores and replies the sum,
  wrapped to 64 bits; on any other string it replies an error, yet reports success to its
  caller, and on a key of another type it reports the type error. Nothing else changes.\<close>

theorem ChangeIntValue_counts:
  assumes "store_ok s"
  shows "\<exists>s'. store_ok s' \<and> frame s s' \<and>
    (case vis s k of
       None \<Rightarrow> ChangeIntValue k d (Some b) s = Some (QError_ok, FormatInt (wrap64 d) (Some b), s') \<and>
         vis s' = (vis s)(k \<mapsto> VInt (wrap64 d))
     | Some (VInt n) \<Rightarrow>
         ChangeIntValue k d (Some b) s = Some (QError_ok, FormatInt (wrap64 (n + d)) (Some b), s') \<and>
         vis s' = (vis s)(k \<mapsto> VInt (wrap64 (n + d)))
     | Some (VRaw x) \<Rightarrow>
         ChangeIntValue k d (Some b) s =
           Some (QError_ok, Some (b @ ''-ERR value is not an integer or out of range'' @ CRLF), s') \<and> vis s' = vis s
     | _ \<Rightarrow> ChangeIntValue k d (Some b) s =
           Some (QError_type, Some (b @ ''-ERR Operation against a key holding the wrong kind of value'' @ CRLF), s') \<and>
         vis s' = vis s)"
  using assms
proof (cases rule: get_string [of _ k])
  case (miss e s')
  note q = miss(3) [unfolded quiet_def]
  show ?thesis
  proof (cases "vis s k")
    case None
    then show ?thesis using ChangeIntValue_missing [OF assms None, of d "Some b"] by auto
  next
    case (Some v)
    then have "e = QError_type" "sval v = None" using miss(2,4) by (simp_all add: svis_def)
    then show ?thesis
      using q miss(1) Some
      by (cases v) (auto simp: ChangeIntValue_def fail_def ReplyError_def intro!: exI [of _ s'])
  qed
next
  case (hit ob s')
  note q = hit(2) [unfolded quiet_def]
  show ?thesis
  proof (cases "oval ob")
    case (VInt n)
    note p = put_int_step [OF q [THEN conjunct1] hit(6) VInt hit(8), of "n + d"]
    have "frame s (put_obj k (Obj_Reset (VInt (wrap64 (n + d))) ob) s')"
      using q frame_put_obj frame_trans by blast
    then show ?thesis using hit(1,5) VInt int_encoding [OF hit(6) VInt] p q by (auto simp: ChangeIntValue_def Let_def)
  next
    case (VRaw x)
    then have "encoding ob = QEncode_raw" using hit(6) by (simp add: obj_ok_def)
    then show ?thesis
      using q hit(1,5) VRaw by (auto simp: ChangeIntValue_def fail_def ReplyError_def intro!: exI [of _ s'])
  qed (use hit in \<open>auto simp: svis_def\<close>)
qed

subsection \<open>Bits and ranges\<close>

definition bit_of :: "string \<Rightarrow> nat \<Rightarrow> bool" where
  "bit_of str n \<longleftrightarrow> n div 8 < length str \<and> bit (byte (str ! (n div 8))) (n mod 8)"

lemma byte_char_of_byte [simp]: "byte (char_of_byte b) = b"
  by (simp add: byte_def char_of_byte_def unsigned_less [of b, simplified])

lemma byte_NUL [simp]: "byte NUL = 0"
  by (simp add: byte_def code_def)

lemma set_bit_at_spec:
  assumes "set_bit_at n v str = (old, str')"
  shows "bit old (n mod 8) = bit_of str n" "bit_of str' m = (if m = n then v else bit_of str m)"
    "n div 8 < length str'"
proof -
  let ?s = "if n div 8 + 1 > length str then resize (n div 8 + 1) NUL str else str"
  have len: "n div 8 < length ?s" by (simp add: resize_def)
  have nth: "i < length ?s \<Longrightarrow> ?s ! i = (if i < length str then str ! i else NUL)" for i
    by (auto simp: resize_def nth_append)
  have e: "(byte (?s ! (n div 8)), ?s[n div 8 := char_of_byte (if v then or (byte (?s ! (n div 8))) (push_bit (n mod 8) 1)
      else and (byte (?s ! (n div 8))) (not (push_bit (n mod 8) 1)))]) = (old, str')"
    using assms by (simp only: set_bit_at_def Let_def)
  then have old: "old = byte (?s ! (n div 8))" by (simp only: prod.inject)
  have str': "str' = ?s[n div 8 := char_of_byte (if v then or old (push_bit (n mod 8) 1)
      else and old (not (push_bit (n mod 8) 1)))]"
    using e unfolding prod.inject old by (rule conjunct2 [THEN sym])
  show "bit old (n mod 8) = bit_of str n" using old nth [OF len] by (simp add: bit_of_def)
  show "n div 8 < length str'" using len str' by simp
  have "bit (byte (str' ! (m div 8))) (m mod 8) = (if m = n then v else bit (byte (?s ! (m div 8))) (m mod 8))"
    if "m div 8 < length ?s"
  proof (cases "m div 8 = n div 8")
    case True
    then have "m mod 8 = n mod 8 \<longleftrightarrow> m = n" by (metis mult_div_mod_eq)
    moreover have "bit (push_bit (n mod 8) 1 :: 8 word) (m mod 8) \<longleftrightarrow> m mod 8 = n mod 8"
      by (auto simp: bit_exp_iff)
    ultimately show ?thesis
      using True len old str' by (simp add: bit_or_iff bit_and_iff bit_not_iff bit_exp_iff)
  qed (auto simp: str')
  then show "bit_of str' m = (if m = n then v else bit_of str m)"
    using nth [of "m div 8"] len str' by (auto simp: bit_of_def split: if_splits)
qed

lemma getbit_reply:
  assumes "store_ok s" "Strtol x = Some (int m)"
  shows "\<exists>s'. getbit_cmd [c, k, x] r s =
      Some (QError_ok, (case svis s k of None \<Rightarrow> Format0 | Some str \<Rightarrow> if bit_of str m then Format1 else Format0) r, s') \<and>
    quiet s s'"
  using assms(1)
proof (cases rule: get_string [of _ k])
  case (miss e s')
  then show ?thesis by (simp add: getbit_cmd_def)
next
  case (hit ob s')
  then obtain str where str: "svis s k = Some str" "sval (oval ob) = Some str" by auto
  have "int (8 * length str) \<le> int m \<longleftrightarrow> length str \<le> m div 8" by linarith
  moreover have "nat (int m div 8) = m div 8" "nat (int m mod 8) = m mod 8"
    by (simp_all add: nat_div_distrib nat_mod_distrib)
  ultimately show ?thesis
    using hit(1,2,6) str assms(2) by (auto simp: getbit_cmd_def Let_def bit_of_def and_exp_eq_0_iff_not_bit not_le)
qed

lemma setbit_put:
  assumes "h = (case set_bit_at n v str of (old, newVal) \<Rightarrow>
        Some (QError_ok, FormatInt (if and old (push_bit (n mod 8) 1) \<noteq> 0 then 1 else 0) r,
          put_obj k (ob\<lparr>oval := VRaw newVal, encoding := QEncode_raw\<rparr>) s))"
    and "store_ok s" "obj_ok ob" "vtype (oval ob) = QType_string" "\<not> is_expired s k"
  shows "\<exists>s1. h = Some (QError_ok, FormatInt (if bit_of str n then 1 else 0) r, s1) \<and>
      store_ok s1 \<and> (\<exists>str'. svis s1 k = Some str' \<and> bit_of str' m = (if m = n then v else bit_of str m))"
proof -
  obtain old str' where b: "set_bit_at n v str = (old, str')" by (cases "set_bit_at n v str")
  let ?s = "put_obj k (ob\<lparr>oval := VRaw str', encoding := QEncode_raw\<rparr>) s"
  have "store_ok ?s" using assms by (auto intro!: store_ok_put_obj obj_ok_raw)
  moreover have "svis ?s k = Some str'" using vis_put_obj [OF assms(2,5)] by (simp add: svis_def)
  ultimately show ?thesis
    using assms(1) b set_bit_at_spec [OF b] by (simp add: and_exp_eq_0_iff_not_bit)
qed

text \<open>A missing key is created empty first.\<close>

lemma setbit_step:
  assumes "store_ok s" "vis s k = None \<or> svis s k \<noteq> None" "Strtol x = Some (int n)" "int n \<le> kStringMaxBytes"
    and "Strtol y = Some on"
  shows "\<exists>s1. setbit_cmd [c, k, x, y] r s = Some (QError_ok,
      FormatInt (if bit_of (case svis s k of None \<Rightarrow> [] | Some str \<Rightarrow> str) n then 1 else 0) r, s1) \<and> store_ok s1 \<and>
    (\<exists>str'. svis s1 k = Some str' \<and>
      bit_of str' m = (if m = n then on \<noteq> 0 else bit_of (case svis s k of None \<Rightarrow> [] | Some str \<Rightarrow> str) m))"
  using assms(1)
proof (cases rule: get_string [of _ k])
  case (miss e s')
  then have v: "vis s k = None" "e = QError_notExist" using assms(2) by auto
  obtain ob s2 where s2: "SetValue k (CreateString []) s' = (ob, s2)"
    by (cases "SetValue k (CreateString []) s'")
  have live: "\<not> is_expired s' k"
    using miss(1) GetValueByType_Inl(3) [OF _ assms(1)] by (simp add: GetValueByType_def)
  have "store_ok s'" using miss(3) by (simp add: quiet_def)
  note r = SetValue_result [OF s2 this CreateString_ok(1)]
  have "canon [] = []" by (simp add: canon_def Strtol_def)
  then have h: "setbit_cmd [c, k, x, y] r s = (case set_bit_at n (on \<noteq> 0) [] of (old, newVal) \<Rightarrow>
        Some (QError_ok, FormatInt (if and old (push_bit (n mod 8) 1) \<noteq> 0 then 1 else 0) r,
          put_obj k (ob\<lparr>oval := VRaw newVal, encoding := QEncode_raw\<rparr>) s2))"
    using miss(1) v s2 r(3,4) assms(3-5) by (simp add: setbit_cmd_def Let_def nat_mod_distrib)
  have "vtype (oval ob) = QType_string" "\<not> is_expired s2 k" using r(3,7) live by simp_all
  from setbit_put [OF h r(1,4) this, of m] show ?thesis unfolding miss(2) option.case .
next
  case (hit ob s')
  then obtain str where str: "svis s k = Some str" "sval (oval ob) = Some str" by auto
  have ok: "value_ok (oval ob)" "store_ok s'" using hit by (simp_all add: obj_ok_def quiet_def)
  then have ty: "vtype (oval ob) = QType_string" using sval_string [of "oval ob"] str by simp
  have "setbit_cmd [c, k, x, y] r s = (case set_bit_at n (on \<noteq> 0) str of (old, newVal) \<Rightarrow>
        Some (QError_ok, FormatInt (if and old (push_bit (n mod 8) 1) \<noteq> 0 then 1 else 0) r,
          put_obj k (ob\<lparr>oval := VRaw newVal, encoding := QEncode_raw\<rparr>) s'))"
    using hit(1,6) str assms(3-5) by (simp add: setbit_cmd_def Let_def nat_mod_distrib)
  from setbit_put [OF this ok(2) hit(6) ty hit(8), of m] show ?thesis unfolding str(1) option.case .
qed

text \<open>SETBIT changes one bit. With an offset in range it replies the old bit of that
  position (0 behind the end, or for a missing key), sets the bit to the sign of its argument, and
  GETBIT then shows every other bit as it was.\<close>

theorem setbit_getbit:
  assumes "store_ok s" "vis s k = None \<or> svis s k \<noteq> None" "Strtol x = Some (int n)" "int n \<le> kStringMaxBytes"
    and "Strtol y = Some on" "Strtol z = Some (int m)"
  shows "\<exists>s1 s2. setbit_cmd [c, k, x, y] r s = Some (QError_ok,
      FormatInt (if bit_of (case svis s k of None \<Rightarrow> [] | Some str \<Rightarrow> str) n then 1 else 0) r, s1) \<and>
    getbit_cmd [c', k, z] r' s1 = Some (QError_ok,
      (if (if m = n then on \<noteq> 0 else bit_of (case svis s k of None \<Rightarrow> [] | Some str \<Rightarrow> str) m)
       then Format1 r' else Format0 r'), s2)"
proof -
  from setbit_step [OF assms(1-5), of c r m] obtain s1 str' where
    s1: "setbit_cmd [c, k, x, y] r s = Some (QError_ok,
      FormatInt (if bit_of (case svis s k of None \<Rightarrow> [] | Some str \<Rightarrow> str) n then 1 else 0) r, s1)" "store_ok s1"
    and b: "svis s1 k = Some str'"
      "bit_of str' m = (if m = n then on \<noteq> 0 else bit_of (case svis s k of None \<Rightarrow> [] | Some str \<Rightarrow> str) m)"
    by blast
  from getbit_reply [OF s1(2) assms(6), of c' k r'] b
  obtain s2 where "getbit_cmd [c', k, z] r' s1 = Some (QError_ok,
      (if (if m = n then on \<noteq> 0 else bit_of (case svis s k of None \<Rightarrow> [] | Some str \<Rightarrow> str) m)
       then Format1 r' else Format0 r'), s2)"
    by auto
  with s1(1) show ?thesis by blast
qed

text \<open>GETRANGE returns the characters between two positions, both counted from the start, or
  from the end when negative, and both included.\<close>

theorem getrange_selects:
  assumes "store_ok s" "svis s k = Some str" "Strtol x = Some i" "Strtol y = Some j"
  shows "\<exists>s'. getrange_cmd [c, k, x, y] (Some b) s = Some (QError_ok, FormatBulk (slice i j str) (Some b), s') \<and>
    quiet s s'"
  using assms(1)
proof (cases rule: get_string [of _ k])
  case (hit ob s')
  obtain a e where ae: "AdjustIndex i j (length str) = (a, e)" by fastforce
  have "GetDecodedString ob = Some str" using hit assms(2) by simp
  then show ?thesis
    using hit(1,2) ae assms(3,4) slice_AdjustIndex [OF ae]
    by (simp add: getrange_cmd_def FormatEmptyBulk_def FormatBulk_def PushData_def show_nat_0)
qed (use assms in simp)

text \<open>A negative offset brings the server down: SETRANGE on a string or a missing key passes it
  to \<open>std::string::replace\<close>, whose exception nobody catches.\<close>

theorem setrange_negative_dies:
  assumes "store_ok s" "vis s k = None \<or> svis s k \<noteq> None" "Strtol x = Some i" "i < 0"
  shows "setrange_cmd [c, k, x, v] r s = None"
  using assms(1)
proof (cases rule: get_string [of _ k])
  case (miss e s')
  then have "e = QError_notExist" "store_ok s'" using assms(2) by (auto simp: quiet_def)
  then show ?thesis
    using miss(1) assms(3,4) set_step(5,6) [of s' "CreateString []" k]
    by (simp add: setrange_cmd_def Let_def split_beta canon_def Strtol_def)
next
  case (hit ob s')
  then show ?thesis using assms(3,4) by (auto simp: setrange_cmd_def Let_def)
qed

text \<open>BITOP AND depends on the order of its operands: a shorter later operand leaves the tail of
  the result as it is, a shorter first one is padded with zeros.\<close>

theorem bitop_and_order:
  "bitop_step BitOp_and (bitop_step BitOp_and [] ''ab'') ''a'' = ''ab'' \<and>
   bitop_step BitOp_and (bitop_step BitOp_and [] ''a'') ''ab'' = [CHR ''a'', NUL]"
  by code_simp

text \<open>APPEND stores the normal form of the concatenation, and that can be shorter than either
  part: text that reads as a number is kept as one, in base 8 after a leading 0.\<close>

theorem append_normalises:
  assumes "store_ok s" "svis s k = Some old"
  shows "\<exists>s'. append_cmd [c, k, x] r s =
      Some (QError_ok, FormatInt (int (length (canon (old @ x)))) r, s') \<and>
    store_ok s' \<and> svis s' = (svis s)(k \<mapsto> canon (old @ x))"
  using assms(1)
proof (cases rule: get_string [of _ k])
  case (hit ob s')
  obtain ob2 s2 where s2: "SetValue k (CreateString (old @ x)) s' = (ob2, s2)"
    by (cases "SetValue k (CreateString (old @ x)) s'")
  have "store_ok s'" using hit(2) by (simp add: quiet_def)
  note r = SetValue_result [OF s2 this CreateString_ok(1)]
  have "vis s' = vis s" using hit(2) by (simp add: quiet_def)
  then show ?thesis
    using hit(1,3,8) assms(2) s2 r svis_upd [OF r(6)] hit(6)
    by (auto simp: append_cmd_def Let_def svis_def fun_eq_iff)
qed (use assms in simp)

theorem mset_mget_witness:
  "\<exists>s1 s2. mset_cmd (''mset'' # pairs_args [(''a'', ''7''), (''b'', ''x''), (''a'', ''010'')]) (Some []) (Store_Init 1 server_new) =
      Some (QError_ok, Some (''+OK'' @ CRLF), s1) \<and>
    mget_cmd (''mget'' # [''a'', ''c'', ''b'']) (Some []) s1 = Some (QError_ok,
      fold bulk_or_null [Some ''8'', None, Some ''x''] (PreFormatMultiBulk 3 (Some [])), s2)"
proof -
  have "canon ''7'' = ''7''" "canon ''x'' = ''x''" "canon ''010'' = ''8''" by code_simp+
  then show ?thesis
    using mset_mget [of "Store_Init 1 server_new" "''mset''" "[(''a'', ''7''), (''b'', ''x''), (''a'', ''010'')]"
        "Some []" "''mget''" "[''a'', ''c'', ''b'']" "Some []"]
    by (auto simp: FormatOK_def PushData_def svis_def eval_nat_numeral)
qed

theorem set_get_witness:
  "\<exists>s1 s2. set_cmd [''set'', ''k'', ''0x1f''] (Some []) (Store_Init 1 server_new) = Some (QError_ok, FormatOK (Some []), s1) \<and>
    get_cmd [''get'', ''k''] (Some []) s1 = Some (QError_ok, FormatBulk ''31'' (Some []), s2)"
proof -
  have "canon ''0x1f'' = ''31''" by code_simp
  then show ?thesis using set_get [of "Store_Init 1 server_new" "''set''" "''k''" "''0x1f''" "Some []" "''get''" "Some []"]
    by auto
qed

theorem ChangeIntValue_counts_witness:
  "\<exists>s'. ChangeIntValue ''n'' 5 (Some []) (Store_Init 1 server_new) =
      Some (QError_ok, FormatInt (wrap64 5) (Some []), s') \<and> vis s' ''n'' = Some (VInt (wrap64 5))"
  using ChangeIntValue_counts [of "Store_Init 1 server_new" "''n''" 5 "[]"] by auto

lemma mset_one_new:
  "store_ok (mset_one k v (Store_Init 1 server_new))" "svis (mset_one k v (Store_Init 1 server_new)) k = Some (canon v)"
  by (simp_all add: mset_one_spec)

theorem setbit_getbit_witness:
  "\<exists>s1 s2. setbit_cmd [''setbit'', ''k'', ''5'', ''1''] (Some []) (mset_one ''k'' ''a'' (Store_Init 1 server_new)) =
      Some (QError_ok, FormatInt 1 (Some []), s1) \<and>
    getbit_cmd [''getbit'', ''k'', ''1''] (Some []) s1 = Some (QError_ok, Format0 (Some []), s2)"
proof -
  have n: "Strtol ''5'' = Some (int 5)" "Strtol ''1'' = Some 1" "Strtol ''1'' = Some (int 1)"
    by (simp_all, code_simp+)
  have c: "canon ''a'' = ''a''" "bit_of ''a'' 5" "\<not> bit_of ''a'' 1" by code_simp+
  have "int 5 \<le> kStringMaxBytes" by (simp add: kStringMaxBytes_def)
  from setbit_getbit [OF mset_one_new(1) [of "''k''" "''a''"] _ n(1) this n(2) n(3), where k = "''k''"
      and c = "''setbit''" and r = "Some []" and c' = "''getbit''" and r' = "Some []"]
  show ?thesis using c mset_one_new(2) [of "''k''" "''a''"] by auto
qed

theorem getrange_selects_witness:
  "\<exists>s'. getrange_cmd [''getrange'', ''k'', ''-3'', ''-1''] (Some []) (mset_one ''k'' ''hello'' (Store_Init 1 server_new)) =
      Some (QError_ok, FormatBulk ''llo'' (Some []), s')"
proof -
  have "Strtol ''-3'' = Some (-3)" "Strtol ''-1'' = Some (-1)" "canon ''hello'' = ''hello''"
    "slice (-3) (-1) ''hello'' = ''llo''" by code_simp+
  then show ?thesis
    using getrange_selects [OF mset_one_new [of "''k''" "''hello''"], where x = "''-3''" and i = "-3"
        and y = "''-1''" and j = "-1" and c = "''getrange''" and b = "[]"] by auto
qed

theorem setrange_negative_dies_witness:
  "setrange_cmd [''setrange'', ''k'', ''-1'', ''x''] (Some []) (Store_Init 1 server_new) = None"
proof -
  have "Strtol ''-1'' = Some (-1)" by code_simp
  then show ?thesis using setrange_negative_dies [of "Store_Init 1 server_new" "''k''" "''-1''" "-1"] by simp
qed

theorem append_normalises_witness:
  "\<exists>s'. append_cmd [''append'', ''k'', ''10''] (Some []) (mset_one ''k'' ''0'' (Store_Init 1 server_new)) =
      Some (QError_ok, FormatInt 1 (Some []), s') \<and> svis s' ''k'' = Some ''8''"
proof -
  have "canon ''0'' = ''0''" "canon (''0'' @ ''10'') = ''8''" by code_simp+
  then show ?thesis
    using append_normalises [OF mset_one_new [of "''k''" "''0''"], where c = "''append''" and x = "''10''"
        and r = "Some []"] by auto
qed

end
