(* ===== verification/Blocked.thy ===== *)
theory Blocked
  imports Server
begin

text \<open>
  The parts of QedisCore/QStore.cc that act on clients: \<open>BlockedClients\<close> (BLPOP, BRPOP,
  BRPOPLPUSH), the checks the timers run over deadlines and waiting clients, and their callbacks.

  \<open>blockedClients s ! db\<close> maps a key to the queue of clients waiting for it, each with the
  time its wait ends and the end of the list it wants.
\<close>

type_synonym waiting = "client_id \<times> u64 \<times> ListPosition"

definition cur_blk :: "'a qstore_scheme \<Rightarrow> (QString \<times> waiting list) list" where
  "cur_blk s = blockedClients s ! dbno s"

definition upd_blk :: "((QString \<times> waiting list) list \<Rightarrow> (QString \<times> waiting list) list) \<Rightarrow>
    'a qstore_scheme \<Rightarrow> 'a qstore_scheme" where
  "upd_blk f s = s\<lparr>blockedClients := (blockedClients s)[dbno s := f (cur_blk s)]\<rparr>"

text \<open>\<open>blockedClients_[key]\<close>.\<close>

definition waiting_on :: "QString \<Rightarrow> 'a qstore_scheme \<Rightarrow> waiting list" where
  "waiting_on key s = (case map_of (cur_blk s) key of None \<Rightarrow> [] | Some q \<Rightarrow> q)"

definition set_waiting :: "QString \<Rightarrow> waiting list \<Rightarrow> 'a qstore_scheme \<Rightarrow> 'a qstore_scheme" where
  "set_waiting key q = upd_blk (AList.update key q)"

definition BlockClient ::
  "QString \<Rightarrow> client_id \<Rightarrow> u64 \<Rightarrow> ListPosition \<Rightarrow> QString option \<Rightarrow> server \<Rightarrow> (bool \<times> server) option" where
  "BlockClient key i timeout pos tgt s =
     (case map_of (clients s) i of
        None \<Rightarrow> None
      | Some c \<Rightarrow>
          (case WaitFor key tgt c of
             (ok, c) \<Rightarrow>
               let s = put_client i c s in
               Some (if ok then (True, set_waiting key (waiting_on key s @ [(i, timeout, pos)]) s) else (False, s))))"

text \<open>\<open>clients.erase(it)\<close> for the first entry of the client.\<close>

fun erase_client :: "client_id \<Rightarrow> waiting list \<Rightarrow> nat \<times> waiting list" where
  "erase_client i [] = (0, [])"
| "erase_client i (w # ws) =
     (if fst w = i then (1, ws) else (case erase_client i ws of (n, ws) \<Rightarrow> (n, w # ws)))"

fun unblock_keys :: "client_id \<Rightarrow> QString list \<Rightarrow> nat \<Rightarrow> server \<Rightarrow> (nat \<times> server) option" where
  "unblock_keys i [] n s = Some (n, s)"
| "unblock_keys i (k # ks) n s =
     (if waiting_on k s = [] then None
      else case erase_client i (waiting_on k s) of
             (m, q) \<Rightarrow> unblock_keys i ks (n + m) (set_waiting k q s))"

definition UnblockClient :: "client_id \<Rightarrow> server \<Rightarrow> (nat \<times> server) option" where
  "UnblockClient i s =
     (case map_of (clients s) i of
        None \<Rightarrow> None
      | Some c \<Rightarrow>
          (case unblock_keys i (waitingKeys c) 0 s of
             None \<Rightarrow> None
           | Some (n, s) \<Rightarrow>
               (case map_of (clients s) i of
                  None \<Rightarrow> None
                | Some c \<Rightarrow> Some (n, put_client i (ClearWaitingKeys c) s))))"

text \<open>The list object of a key, and a write to it.\<close>

definition list_of :: "QString \<Rightarrow> 'a qstore_scheme \<Rightarrow> QString list option" where
  "list_of key s = Option.bind (map_of (cur_db s) key) (CastList \<circ> oval)"

definition put_list :: "QString \<Rightarrow> QString list \<Rightarrow> 'a qstore_scheme \<Rightarrow> 'a qstore_scheme" where
  "put_list key l s =
     (case map_of (cur_db s) key of None \<Rightarrow> s | Some ob \<Rightarrow> put_obj key (ob\<lparr>oval := VList l\<rparr>) s)"

text \<open>
  The target of a BRPOPLPUSH: nothing for a plain pop, an error that is sent to the client, or the
  target key, created when it is missing.
\<close>

definition serve_target :: "client_id \<Rightarrow> QString \<Rightarrow> server \<Rightarrow> (bool \<times> server) option" where
  "serve_target i tgt s =
     (if tgt = [] then Some (False, s)
      else
        case GetValueByType tgt QType_list s of
          (Inr _, s) \<Rightarrow> Some (False, s)
        | (Inl err, s) \<Rightarrow>
            if err \<noteq> QError_notExist then
              (case (ReplyError err (Some []), map_of (clients s) i) of
                 (Some (Some bytes), Some c) \<Rightarrow> Some (True, put_client i (SendPacket bytes c) s)
               | _ \<Rightarrow> None)
            else Some (False, snd (SetValue tgt CreateList s)))"

text \<open>The move to the target, before the pop.\<close>

definition serve_push :: "QString \<Rightarrow> QString \<Rightarrow> server \<Rightarrow> server option" where
  "serve_push key tgt s =
     (if tgt = [] then Some s
      else
        case (list_of key s, list_of tgt s) of
          (Some l, Some d) \<Rightarrow>
            if l = [] then None
            else Propogate [''lpush'', tgt, last l] (put_list tgt (last l # d) s)
        | _ \<Rightarrow> None)"

definition serve_pop :: "QString \<Rightarrow> client_id \<Rightarrow> QString \<Rightarrow> ListPosition \<Rightarrow> server \<Rightarrow> server option" where
  "serve_pop key i tgt pos s =
     (case list_of key s of
        None \<Rightarrow> None
      | Some l \<Rightarrow>
          if l = [] then None
          else
            let head = (if tgt = [] then FormatBulk key (PreFormatMultiBulk 2 (Some [])) else Some []);
                x = (if pos = Pos_head then hd l else last l);
                rest = (if pos = Pos_head then tl l else butlast l);
                cmd = (if pos = Pos_head then ''lpop'' else ''rpop'')
            in case Propogate [cmd, key] (put_list key rest s) of
                 None \<Rightarrow> None
               | Some s \<Rightarrow>
                   (case (FormatBulk x head, map_of (clients s) i) of
                      (Some bytes, Some c) \<Rightarrow> Some (put_client i (SendPacket bytes c) s)
                    | _ \<Rightarrow> None))"

definition serve_one :: "QString \<Rightarrow> client_id \<Rightarrow> qclient \<Rightarrow> ListPosition \<Rightarrow> server \<Rightarrow> server option" where
  "serve_one key i c pos s =
     do { (errorTarget, s) \<leftarrow> serve_target i (target c) s;
          s \<leftarrow> (if errorTarget then Some s
               else do { s \<leftarrow> serve_push key (target c) s; serve_pop key i (target c) pos s });
          (n, s) \<leftarrow> UnblockClient i s;
          Some s }"

text \<open>
  The loop while the list and the queue are not empty. Every round takes an entry from the queue,
  an element from the list, or the target from a client, so the fuel \<open>ServeClient\<close> gives it
  covers every run.
\<close>

fun ServeClient_loop :: "nat \<Rightarrow> QString \<Rightarrow> nat \<Rightarrow> server \<Rightarrow> (nat \<times> server) option" where
  "ServeClient_loop 0 key n s = None"
| "ServeClient_loop (Suc fuel) key n s =
     (case list_of key s of
        None \<Rightarrow> None
      | Some l \<Rightarrow>
          if l = [] then Some (n, s)
          else
            case waiting_on key s of
              [] \<Rightarrow> Some (n, s)
            | (i, _, pos) # q \<Rightarrow>
                (case map_of (clients s) i of
                   None \<Rightarrow> ServeClient_loop fuel key n (set_waiting key q s)
                 | Some c \<Rightarrow>
                     (case serve_one key i c pos s of
                        None \<Rightarrow> None
                      | Some s \<Rightarrow> ServeClient_loop fuel key (n + 1) s)))"

definition ServeClient :: "QString \<Rightarrow> server \<Rightarrow> (nat \<times> server) option" where
  "ServeClient key s =
     (case list_of key s of
        None \<Rightarrow> None
      | Some l \<Rightarrow>
          if l = [] then None
          else if waiting_on key s = [] then Some (0, s)
          else ServeClient_loop (Suc (length l + length (waiting_on key s) + length (clients s))) key 0 s)"

subsection \<open>What the timers do\<close>

text \<open>
  The entries whose wait is over. A reply is sent only to a client that still waits for the key.
\<close>

fun expire_waiting :: "u64 \<Rightarrow> QString \<Rightarrow> waiting list \<Rightarrow> server \<Rightarrow> nat \<times> waiting list \<times> server" where
  "expire_waiting t key [] s = (0, [], s)"
| "expire_waiting t key ((i, timeout, pos) # q) s =
     (if timeout < t then
        (let s' = (case map_of (clients s) i of
                     None \<Rightarrow> s
                   | Some c \<Rightarrow>
                       if key \<in> set (waitingKeys c)
                       then put_client i (ClearWaitingKeys (SendPacket (the (FormatNull (Some []))) c)) s
                       else s)
         in case expire_waiting t key q s' of (n, q, s) \<Rightarrow> (n + 1, q, s))
      else case expire_waiting t key q s of (n, q, s) \<Rightarrow> (n, (i, timeout, pos) # q, s))"

fun check_blocked ::
  "u64 \<Rightarrow> (QString \<times> waiting list) list \<Rightarrow> nat \<Rightarrow> server \<Rightarrow> nat \<times> (QString \<times> waiting list) list \<times> server" where
  "check_blocked t [] n s = (n, [], s)"
| "check_blocked t ((key, q) # rest) n s =
     (if n < 100 then
        (case expire_waiting t key q s of
           (m, q, s) \<Rightarrow>
             case check_blocked t rest (n + m) s of
               (n, rest, s) \<Rightarrow> (n, if q = [] then rest else (key, q) # rest, s))
      else (n, (key, q) # rest, s))"

definition LoopCheckBlocked :: "u64 \<Rightarrow> server \<Rightarrow> nat \<times> server" where
  "LoopCheckBlocked t s =
     (case check_blocked t (cur_blk s) 0 s of (n, q, s) \<Rightarrow> (n, upd_blk (\<lambda>_. q) s))"

text \<open>
  The check of deadlines walks the table in its order, at most 2000 entries and 100 deletions.
  After \<open>Propogate\<close> the iterator is used again, so its entry must still be there.
\<close>

definition kMaxDel :: nat where "kMaxDel = 100"
definition kMaxCheck :: nat where "kMaxCheck = 2000"

fun check_expire :: "u64 \<Rightarrow> (QString \<times> u64) list \<Rightarrow> nat \<Rightarrow> nat \<Rightarrow> server \<Rightarrow> (nat \<times> server) option" where
  "check_expire t [] nDel nLoop s = Some (nDel, s)"
| "check_expire t ((key, due) # rest) nDel nLoop s =
     (if nDel < kMaxDel \<and> nLoop < kMaxCheck then
        if due \<le> t then
          (case Propogate [''del'', key] s of
             None \<Rightarrow> None
           | Some s \<Rightarrow>
               if map_of (cur_exp s) key = None then None
               else check_expire t rest (nDel + 1) (nLoop + 1)
                      (upd_exp (AList.delete key) (snd (DeleteKey key s))))
        else check_expire t rest nDel (nLoop + 1) s
      else Some (nDel, s))"

definition LoopCheckExpire :: "u64 \<Rightarrow> server \<Rightarrow> (nat \<times> server) option" where
  "LoopCheckExpire t s = check_expire t (cur_exp s) 0 0 s"

text \<open>The timer callbacks for database \<open>i\<close>: select it, check, select the old one.\<close>

definition expire_timer :: "int \<Rightarrow> server \<Rightarrow> server option" where
  "expire_timer i s =
     (case SelectDB i s of
        (oldDb, s) \<Rightarrow>
          (case LoopCheckExpire (now s) s of
             None \<Rightarrow> None
           | Some (n, s) \<Rightarrow> Some (snd (SelectDB oldDb s))))"

definition blocked_timer :: "int \<Rightarrow> server \<Rightarrow> server" where
  "blocked_timer i s =
     (case SelectDB i s of
        (oldDb, s) \<Rightarrow>
          (case LoopCheckBlocked (now s) s of (n, s) \<Rightarrow> snd (SelectDB oldDb s)))"

end
