(* ===== verification/Lists.thy ===== *)
theory Lists
  imports Blocked
begin

text \<open>
  QedisCore/QList.cc: the list commands, blocking ones included. A list is a HOL list; an iterator
  is a position.
\<close>

subsection \<open>Pushing and popping\<close>

definition push_elems :: "ListPosition \<Rightarrow> QString list \<Rightarrow> QString list \<Rightarrow> QString list" where
  "push_elems pos xs l = fold (\<lambda>x l. if pos = Pos_head then x # l else l @ [x]) xs l"

definition push :: "ListPosition \<Rightarrow> bool \<Rightarrow> handler" where
  "push pos createIfNotExist params r s =
     (let key = params ! 1;
          go = (\<lambda>value s.
            case CastList (oval value) of
              None \<Rightarrow> None
            | Some l \<Rightarrow>
                let mayReady = (l = []);
                    l = push_elems pos (drop 2 params) l;
                    s = put_obj key (value\<lparr>oval := VList l\<rparr>) s;
                    r' = FormatInt (int (length l)) r
                in if mayReady \<and> l \<noteq> [] then
                     (if r \<noteq> None then
                        do { s \<leftarrow> Propogate params s;
                             (n, s) \<leftarrow> ServeClient key s;
                             Some (QError_nop, r', s) }
                      else Some (QError_nop, r', s))
                   else Some (QError_ok, r', s))
      in case GetValueByType key QType_list s of
           (Inr value, s) \<Rightarrow> go value s
         | (Inl err, s) \<Rightarrow>
             if err \<noteq> QError_notExist then fail err err r s
             else if createIfNotExist then
               (case SetValue key CreateList s of (value, s) \<Rightarrow> go value s)
             else fail err err r s)"

definition lpush_cmd :: handler where "lpush_cmd = push Pos_head True"
definition rpush_cmd :: handler where "rpush_cmd = push Pos_tail True"
definition lpushx_cmd :: handler where "lpushx_cmd = push Pos_head False"
definition rpushx_cmd :: handler where "rpushx_cmd = push Pos_tail False"

text \<open>\<open>GenericPop\<close> asserts that a list in the store is not empty.\<close>

definition GenericPop :: "QString \<Rightarrow> ListPosition \<Rightarrow> server \<Rightarrow> ((QError + QString) \<times> server) option" where
  "GenericPop key pos s =
     (case GetValueByType key QType_list s of
        (Inl err, s) \<Rightarrow> Some (Inl err, s)
      | (Inr value, s) \<Rightarrow>
          (case CastList (oval value) of
             None \<Rightarrow> None
           | Some l \<Rightarrow>
               if l = [] then None
               else
                 let x = (if pos = Pos_head then hd l else last l);
                     l = (if pos = Pos_head then tl l else butlast l);
                     s = put_obj key (value\<lparr>oval := VList l\<rparr>) s
                 in Some (Inr x, if l = [] then snd (DeleteKey key s) else s)))"

definition pop_reply :: "((QError + QString) \<times> server) option \<Rightarrow> reply \<Rightarrow> result" where
  "pop_reply res r =
     (case res of
        None \<Rightarrow> None
      | Some (Inr x, s) \<Rightarrow> Some (QError_ok, FormatBulk x r, s)
      | Some (Inl err, s) \<Rightarrow> fail err err r s)"

definition lpop_cmd :: handler where
  "lpop_cmd params r s = pop_reply (GenericPop (params ! 1) Pos_head s) r"

definition rpop_cmd :: handler where
  "rpop_cmd params r s = pop_reply (GenericPop (params ! 1) Pos_tail s) r"

subsection \<open>Blocking\<close>

text \<open>\<open>_BlockClient\<close>: the timeout becomes a point in time, 0 stands for ever. The comparison is
  unsigned, so a negative timeout counts as a huge one, to which the time is added with wrap-around.\<close>

definition wait_until :: "int \<Rightarrow> u64 \<Rightarrow> u64" where
  "wait_until timeout t =
     (let w = word_of_int timeout in if 0 < w then w + t else - 1)"

fun block_on_keys ::
  "client_id \<Rightarrow> QString list \<Rightarrow> u64 \<Rightarrow> ListPosition \<Rightarrow> QString option \<Rightarrow> server \<Rightarrow> server option" where
  "block_on_keys i [] w pos tgt s = Some s"
| "block_on_keys i (k # ks) w pos tgt s =
     (case BlockClient k i w pos tgt s of
        None \<Rightarrow> None
      | Some (_, s) \<Rightarrow> block_on_keys i ks w pos tgt s)"

fun blocked_pop_keys ::
  "QString list \<Rightarrow> ListPosition \<Rightarrow> bool \<Rightarrow> reply \<Rightarrow> server \<Rightarrow> (result + server) option" where
  "blocked_pop_keys [] pos withKey r s = Some (Inr s)"
| "blocked_pop_keys (k # ks) pos withKey r s =
     (case GenericPop k pos s of
        None \<Rightarrow> None
      | Some (Inr x, s) \<Rightarrow>
          let r = FormatBulk x (if withKey then FormatBulk k (PreFormatMultiBulk 2 r) else r);
              cmd = (if pos = Pos_head then ''lpop'' else ''rpop'')
          in Some (Inl (map_option (\<lambda>s. (QError_ok, r, s)) (upd_current (RewriteCmd [cmd, k]) s)))
      | Some (Inl err, s) \<Rightarrow>
          if err = QError_type then Some (Inl (fail err err r s))
          else if err = QError_notExist then blocked_pop_keys ks pos withKey r s
          else None)"

definition GenericBlockedPop ::
  "QString list \<Rightarrow> ListPosition \<Rightarrow> int \<Rightarrow> QString option \<Rightarrow> bool \<Rightarrow> reply \<Rightarrow> server \<Rightarrow> result" where
  "GenericBlockedPop keys pos timeout tgt withKey r s =
     (case blocked_pop_keys keys pos withKey r s of
        None \<Rightarrow> None
      | Some (Inl res) \<Rightarrow> res
      | Some (Inr s) \<Rightarrow>
          (case Current s of
             None \<Rightarrow> (if keys = [] then Some (QError_nop, r, s) else None)
           | Some (i, c) \<Rightarrow>
               if IsFlagOn ClientFlag_multi c then Some (QError_nop, FormatNull r, s)
               else map_option (\<lambda>s. (QError_nop, r, s))
                      (block_on_keys i keys (wait_until timeout (now s)) pos tgt s)))"

definition bpop :: "ListPosition \<Rightarrow> handler" where
  "bpop pos params r s =
     (case TryStr2Long (last params) of
        (False, _) \<Rightarrow> fail QError_nan QError_nan r s
      | (True, timeout) \<Rightarrow>
          GenericBlockedPop (butlast (tl params)) pos (wrap64 (timeout * 1000)) None True r s)"

definition blpop_cmd :: handler where "blpop_cmd = bpop Pos_head"
definition brpop_cmd :: handler where "brpop_cmd = bpop Pos_tail"

definition brpoplpush_cmd :: handler where
  "brpoplpush_cmd params r s =
     (case TryStr2Long (last params) of
        (False, _) \<Rightarrow> fail QError_nan QError_nan r s
      | (True, timeout) \<Rightarrow>
          let go = GenericBlockedPop (butlast (butlast (tl params))) Pos_tail (wrap64 (timeout * 1000))
                     (Some (last (butlast params))) False r
          in case GetValueByType (params ! 2) QType_list s of
               (Inl err, s) \<Rightarrow> if err \<noteq> QError_notExist then fail err err r s else go s
             | (Inr _, s) \<Rightarrow> go s)"

subsection \<open>Access by position\<close>

text \<open>Walk from the nearer end.\<close>

definition elem_at :: "nat \<Rightarrow> 'x list \<Rightarrow> 'x" where
  "elem_at idx l = (if 2 * idx < length l then l ! idx else rev l ! (length l - 1 - idx))"

definition set_elem_at :: "nat \<Rightarrow> 'x \<Rightarrow> 'x list \<Rightarrow> 'x list" where
  "set_elem_at idx x l =
     (if 2 * idx < length l then l[idx := x] else rev ((rev l)[length l - 1 - idx := x]))"

definition lindex_cmd :: handler where
  "lindex_cmd params r s =
     (case GetValueByType (params ! 1) QType_list s of
        (Inl err, s) \<Rightarrow> Some (err, FormatNull r, s)
      | (Inr value, s) \<Rightarrow>
          (case TryStr2Long (params ! 2) of
             (False, _) \<Rightarrow> fail QError_nan QError_nan r s
           | (True, idx) \<Rightarrow>
               (case CastList (oval value) of
                  None \<Rightarrow> None
                | Some l \<Rightarrow>
                    let idx = (if idx < 0 then idx + int (length l) else idx) in
                    if idx < 0 \<or> int (length l) \<le> idx then Some (QError_ok, FormatNull r, s)
                    else Some (QError_ok, FormatBulk (elem_at (nat idx) l) r, s))))"

definition lset_cmd :: handler where
  "lset_cmd params r s =
     (case GetValueByType (params ! 1) QType_list s of
        (Inl err, s) \<Rightarrow> fail QError_notExist err r s
      | (Inr value, s) \<Rightarrow>
          (case TryStr2Long (params ! 2) of
             (False, _) \<Rightarrow> fail QError_param QError_notExist r s
           | (True, idx) \<Rightarrow>
               (case CastList (oval value) of
                  None \<Rightarrow> None
                | Some l \<Rightarrow>
                    let idx = (if idx < 0 then idx + int (length l) else idx) in
                    if idx < 0 \<or> int (length l) \<le> idx then Some (QError_ok, FormatNull r, s)
                    else Some (QError_ok, FormatOK r,
                      put_obj (params ! 1) (value\<lparr>oval := VList (set_elem_at (nat idx) (params ! 3) l)\<rparr>) s))))"

definition llen_cmd :: handler where
  "llen_cmd params r s =
     (case GetValueByType (params ! 1) QType_list s of
        (Inl err, s) \<Rightarrow> if err = QError_type then fail err err r s else Some (err, Format0 r, s)
      | (Inr value, s) \<Rightarrow>
          (case CastList (oval value) of
             None \<Rightarrow> None
           | Some l \<Rightarrow> Some (QError_ok, FormatInt (int (length l)) r, s)))"

subsection \<open>Ranges\<close>

text \<open>
  \<open>Index2Iterator\<close> and \<open>GetRange\<close>: iterators are positions, \<open>list.end()\<close> is the length. Walking
  back from the end takes \<open>size - n\<close> steps.
\<close>

definition walk_to :: "nat \<Rightarrow> nat \<Rightarrow> nat" where
  "walk_to n sz = (if n * 2 < sz then n else sz - (sz - n))"

definition Index2Iterator :: "int \<Rightarrow> int \<Rightarrow> nat \<Rightarrow> (nat \<times> nat) option" where
  "Index2Iterator start fin sz =
     (if \<not> (0 \<le> start \<and> 0 \<le> fin \<and> start \<le> fin \<and> fin < int sz) then None
      else Some (walk_to (nat start) sz, walk_to (nat fin) sz))"

definition GetRange :: "int \<Rightarrow> int \<Rightarrow> nat \<Rightarrow> (nat \<times> nat \<times> nat) option" where
  "GetRange start fin sz =
     (if start > fin then Some (0, sz, sz)
      else if start \<noteq> 0 \<or> fin + 1 \<noteq> int sz then
        map_option (Pair (nat (fin - start + 1))) (Index2Iterator start fin sz)
      else Some (sz, 0, sz - 1))"

definition ltrim_cmd :: handler where
  "ltrim_cmd params r s =
     (case GetValueByType (params ! 1) QType_list s of
        (Inl err, s) \<Rightarrow> fail err err r s
      | (Inr value, s) \<Rightarrow>
          (case (Strtol (params ! 2), Strtol (params ! 3)) of
             (Some start, Some fin) \<Rightarrow>
               (case CastList (oval value) of
                  None \<Rightarrow> None
                | Some l \<Rightarrow>
                    (case AdjustIndex start fin (length l) of
                       (start, fin) \<Rightarrow>
                         (case GetRange start fin (length l) of
                            None \<Rightarrow> None
                          | Some (rangeLen, beginIt, endIt) \<Rightarrow>
                              if beginIt \<noteq> length l then
                                (if endIt = length l then None
                                 else
                                   let l = drop beginIt (take (endIt + 1) l)
                                   in Some (QError_ok, FormatOK r, put_obj (params ! 1) (value\<lparr>oval := VList l\<rparr>) s))
                              else Some (QError_ok, FormatOK r, s))))
           | _ \<Rightarrow> fail QError_param QError_ok r s))"

definition lrange_cmd :: handler where
  "lrange_cmd params r s =
     (case GetValueByType (params ! 1) QType_list s of
        (Inl err, s) \<Rightarrow> fail err err r s
      | (Inr value, s) \<Rightarrow>
          (case (Strtol (params ! 2), Strtol (params ! 3)) of
             (Some start, Some fin) \<Rightarrow>
               (case CastList (oval value) of
                  None \<Rightarrow> None
                | Some l \<Rightarrow>
                    (case AdjustIndex start fin (length l) of
                       (start, fin) \<Rightarrow>
                         (case GetRange start fin (length l) of
                            None \<Rightarrow> None
                          | Some (rangeLen, beginIt, endIt) \<Rightarrow>
                              let r = PreFormatMultiBulk rangeLen r;
                                  r = (if beginIt \<noteq> length l
                                       then fold FormatBulk (take rangeLen (drop beginIt l)) r else r)
                              in Some (QError_ok, r, s))))
           | _ \<Rightarrow> fail QError_param QError_ok r s))"

subsection \<open>Insertion and removal\<close>

fun insert_at_elem :: "bool \<Rightarrow> 'x \<Rightarrow> 'x \<Rightarrow> 'x list \<Rightarrow> 'x list option" where
  "insert_at_elem before pivot new [] = None"
| "insert_at_elem before pivot new (x # xs) =
     (if x = pivot then Some (if before then new # x # xs else x # new # xs)
      else map_option (Cons x) (insert_at_elem before pivot new xs))"

definition linsert_cmd :: handler where
  "linsert_cmd params r s =
     (case GetValueByType (params ! 1) QType_list s of
        (Inl err, s) \<Rightarrow> Some (err, Format0 r, s)
      | (Inr value, s) \<Rightarrow>
          if params ! 2 \<noteq> ''before'' \<and> params ! 2 \<noteq> ''after'' then fail QError_param QError_param r s
          else
            (case CastList (oval value) of
               None \<Rightarrow> None
             | Some l \<Rightarrow>
                 (case insert_at_elem (params ! 2 = ''before'') (params ! 3) (params ! 4) l of
                    None \<Rightarrow> Some (QError_notExist, FormatInt (-1) r, s)
                  | Some l \<Rightarrow>
                      Some (QError_ok, FormatInt (int (length l)) r,
                        put_obj (params ! 1) (value\<lparr>oval := VList l\<rparr>) s))))"

fun remove_head :: "'x \<Rightarrow> int \<Rightarrow> 'x list \<Rightarrow> 'x list \<times> nat" where
  "remove_head x count [] = ([], 0)"
| "remove_head x count (y # ys) =
     (if count \<le> 0 then (y # ys, 0)
      else if y = x then (case remove_head x (count - 1) ys of (l, n) \<Rightarrow> (l, n + 1))
      else case remove_head x count ys of (l, n) \<Rightarrow> (y # l, n))"

text \<open>
  Removal from the tail, on the reversed list. Erasing the element leaves the reverse iterator
  based on the erased node, so it must not be dereferenced again: only a count of 1 ends in time.
\<close>

fun remove_tail :: "'x \<Rightarrow> int \<Rightarrow> 'x list \<Rightarrow> ('x list \<times> nat) option" where
  "remove_tail x count [] = Some ([], 0)"
| "remove_tail x count (y # ys) =
     (if count \<le> 0 then Some (y # ys, 0)
      else if y = x then (if count = 1 then Some (ys, 1) else None)
      else map_option (\<lambda>(l, n). (y # l, n)) (remove_tail x count ys))"

definition lrem_cmd :: handler where
  "lrem_cmd params r s =
     (case GetValueByType (params ! 1) QType_list s of
        (Inl err, s) \<Rightarrow> Some (err, Format0 r, s)
      | (Inr value, s) \<Rightarrow>
          (case Strtol (params ! 2) of
             None \<Rightarrow> fail QError_param QError_ok r s
           | Some count \<Rightarrow>
               (case CastList (oval value) of
                  None \<Rightarrow> None
                | Some l \<Rightarrow>
                    (case (if count < 0 then
                             map_option (\<lambda>(l, n). (rev l, n)) (remove_tail (params ! 3) (wrap64 (- count)) (rev l))
                           else Some (remove_head (params ! 3) (if count = 0 then int (length l) else count) l)) of
                       None \<Rightarrow> None
                     | Some (l, n) \<Rightarrow>
                         Some (QError_ok, FormatInt (int n) r,
                           put_obj (params ! 1) (value\<lparr>oval := VList l\<rparr>) s)))))"

text \<open>
  RPOPLPUSH: the source list is not removed when it becomes empty. \<open>splice\<close> within one list
  rotates it.
\<close>

definition rpoplpush_cmd :: handler where
  "rpoplpush_cmd params r s =
     (case GetValueByType (params ! 1) QType_list s of
        (Inl err, s) \<Rightarrow> Some (err, FormatNull r, s)
      | (Inr src, s) \<Rightarrow>
          (case CastList (oval src) of
             None \<Rightarrow> None
           | Some srclist \<Rightarrow>
               if srclist = [] then None
               else
                 let go = (\<lambda>s.
                       case list_of (params ! 1) s of
                         None \<Rightarrow> None
                       | Some l \<Rightarrow>
                           if l = [] then None
                           else
                             let s = put_list (params ! 1) (butlast l) s in
                             (case list_of (params ! 2) s of
                                None \<Rightarrow> None
                              | Some d \<Rightarrow>
                                  Some (QError_ok, FormatBulk (last l) r, put_list (params ! 2) (last l # d) s)))
                 in case GetValueByType (params ! 2) QType_list s of
                      (Inl err, s) \<Rightarrow>
                        if err \<noteq> QError_notExist then fail err err r s
                        else go (snd (SetValue (params ! 2) CreateList s))
                    | (Inr _, s) \<Rightarrow> go s))"

subsection \<open>Lists as values\<close>

interpretation list_obj: typed_object QType_list CastList
proof
  fix v :: qvalue
  show "CastList v \<noteq> None \<longleftrightarrow> vtype v = QType_list" by (cases v) auto
qed simp

definition lvis :: "'a qstore_scheme \<Rightarrow> QString \<Rightarrow> QString list option" where
  "lvis s k = Option.bind (vis s k) CastList"

lemma CastList_eq [simp]: "CastList v = Some l \<longleftrightarrow> v = VList l"
  by (cases v) auto

lemma lvis_Some [simp]: "lvis s k = Some l \<longleftrightarrow> vis s k = Some (VList l)"
  by (cases "vis s k") (auto simp: lvis_def)

lemma CreateList_ok [simp]: "obj_ok CreateList" "oval CreateList = VList []"
  by (simp_all add: CreateList_def Obj_Reset_def QObject_new_def obj_ok_def)

lemma obj_ok_list [inv_intros]: "obj_ok ob \<Longrightarrow> vtype (oval ob) = QType_list \<Longrightarrow> obj_ok (ob\<lparr>oval := VList l\<rparr>)"
  by (cases "oval ob") (simp_all add: obj_ok_def)

text \<open>Fetching a list that is there, and storing another in its place.\<close>

lemma get_list:
  assumes "store_ok s" "vis s k = Some (VList l)"
  obtains ob s' where "GetValueByType k QType_list s = (Inr ob, s')" "oval ob = VList l" "obj_ok ob"
    "store_ok s'" "frame s s'" "vis s' = vis s" "map_of (cur_db s') k = Some ob" "\<not> is_expired s' k"
    "list_of k s' = Some l"
  using assms(1)
proof (cases rule: list_obj.get_cases [of _ k])
  case (miss e s')
  then show thesis using assms(2) by simp
next
  case (hit ob s' x)
  then show thesis using assms(2) by (intro that [of ob s']) (simp_all add: quiet_def list_of_def)
qed

lemma get_no_list:
  assumes "store_ok s" "vis s k = None"
  obtains s' where "GetValueByType k QType_list s = (Inl QError_notExist, s')" "store_ok s'" "frame s s'"
    "vis s' = vis s" "\<not> is_expired s' k"
  using assms(1)
proof (cases rule: list_obj.get_cases [of _ k])
  case (miss e s')
  then show thesis using assms(2) by (intro that [of s']) (auto simp: quiet_def)
qed (use assms in simp)

lemma put_list_step:
  assumes "store_ok s" "obj_ok ob" "vtype (oval ob) = QType_list" "\<not> is_expired s k"
  shows "store_ok (put_obj k (ob\<lparr>oval := VList l\<rparr>) s)"
    "vis (put_obj k (ob\<lparr>oval := VList l\<rparr>) s) = (vis s)(k \<mapsto> VList l)"
    "frame s (put_obj k (ob\<lparr>oval := VList l\<rparr>) s)"
    "list_of k (put_obj k (ob\<lparr>oval := VList l\<rparr>) s) = Some l"
  using assms vis_put_obj [OF assms(1,4)] store_ok_current [OF assms(1)]
  by (simp_all add: store_ok_put_obj obj_ok_list frame_put_obj list_of_def) (simp add: put_obj_def)

subsection \<open>Invariant\<close>

lemma put_list_ok [inv_intros]: "store_ok s \<Longrightarrow> list_of k s = Some l' \<Longrightarrow> store_ok (put_list k l s)"
  using db_ok_map_of [OF store_ok_current(3), of s k]
  by (auto simp: put_list_def list_of_def bind_eq_Some_conv intro!: store_ok_put_obj obj_ok_list split: option.split)

lemma Propogate_ok [inv_intros]:
  "Propogate ps s = Some s' \<Longrightarrow> store_ok (s :: server) \<Longrightarrow> store_ok s'"
proof -
  assume p: "Propogate ps s = Some s'" and s: "store_ok s"
  then have "ps \<noteq> []" by (auto simp: Propogate_def)
  from Propogate_memory [OF store_ok_current(6) [OF s] this] obtain s1 where
    "Propogate ps s = Some s1" "same_store s s1" .
  with p s show "store_ok s'" by (simp add: same_store_view(5))
qed

lemma store_ok_put_client [simp]: "store_ok (put_client i c s) = store_ok (s :: server)"
  using same_store_view(5) [of s "put_client i c s"] by simp

lemma store_ok_upd_blk [simp]: "store_ok (upd_blk f s) = store_ok s"
  by (simp add: store_ok_def upd_blk_def)

lemma store_ok_set_waiting [simp]: "store_ok (set_waiting k q s) = store_ok s"
  by (simp add: set_waiting_def)

lemma unblock_keys_ok: "unblock_keys i ks n s = Some (m, s') \<Longrightarrow> store_ok s \<Longrightarrow> store_ok s'"
  by (induction i ks n s rule: unblock_keys.induct) (auto split: if_splits prod.splits)

lemma UnblockClient_ok: "UnblockClient i s = Some (n, s') \<Longrightarrow> store_ok s \<Longrightarrow> store_ok s'"
  by (fastforce simp: UnblockClient_def split: option.splits intro: unblock_keys_ok)

lemma serve_target_ok: "serve_target i t s = Some (b, s') \<Longrightarrow> store_ok s \<Longrightarrow> store_ok s'"
  by (fastforce simp: serve_target_def get_defs split: if_splits prod.splits sum.splits option.splits
      intro: store_ok_SetValue dest: GetValueByType_Inl(2) GetValueByType_Inr(2))

lemma serve_push_ok: "serve_push k t s = Some s' \<Longrightarrow> store_ok s \<Longrightarrow> store_ok s'"
  by (fastforce simp: serve_push_def split: if_splits option.splits intro: Propogate_ok put_list_ok)

lemma serve_pop_ok: "serve_pop k i t pos s = Some s' \<Longrightarrow> store_ok s \<Longrightarrow> store_ok s'"
  by (auto simp: serve_pop_def Let_def split: if_splits option.splits) (blast intro: Propogate_ok put_list_ok)+

lemma serve_one_ok: "serve_one k i c pos s = Some s' \<Longrightarrow> store_ok s \<Longrightarrow> store_ok s'"
  by (auto simp: serve_one_def split: if_splits bind_splits)
    (blast intro: UnblockClient_ok serve_pop_ok serve_push_ok serve_target_ok)+

lemma ServeClient_loop_ok: "ServeClient_loop f k n s = Some (m, s') \<Longrightarrow> store_ok s \<Longrightarrow> store_ok s'"
proof (induction f arbitrary: n s)
  case (Suc f)
  obtain l where l: "list_of k s = Some l" using Suc.prems by (simp split: option.splits)
  show ?case
  proof (cases "l = [] \<or> waiting_on k s = []")
    case True
    then show ?thesis using Suc.prems l by (auto split: list.splits)
  next
    case False
    then obtain i t pos q where w: "waiting_on k s = (i, t, pos) # q" by (cases "waiting_on k s") auto
    show ?thesis
    proof (cases "map_of (clients s) i")
      case None
      then have "ServeClient_loop f k n (set_waiting k q s) = Some (m, s')"
        using Suc.prems(1) l False w by simp
      from Suc.IH [OF this] show ?thesis using Suc.prems(2) by simp
    next
      case (Some c)
      then obtain s1 where s1: "serve_one k i c pos s = Some s1" "ServeClient_loop f k (n + 1) s1 = Some (m, s')"
        using Suc.prems(1) l False w by (auto split: option.splits)
      from Suc.IH [OF s1(2)] serve_one_ok [OF s1(1) Suc.prems(2)] show ?thesis .
    qed
  qed
qed simp

lemma ServeClient_ok: "ServeClient k s = Some (m, s') \<Longrightarrow> store_ok s \<Longrightarrow> store_ok s'"
  by (fastforce simp: ServeClient_def split: option.splits if_splits simp del: ServeClient_loop.simps
      intro: ServeClient_loop_ok)

lemma GenericPop_ok: "GenericPop k pos s = Some (x, s') \<Longrightarrow> store_ok s \<Longrightarrow> store_ok s'"
proof -
  assume p: "GenericPop k pos s = Some (x, s')" and s: "store_ok s"
  from s show "store_ok s'"
  proof (cases rule: list_obj.get_cases [of _ k])
    case (miss e s1)
    then show ?thesis using p by (simp add: GenericPop_def quiet_def)
  next
    case (hit ob s1 l)
    then have "store_ok s1" "vtype (oval ob) = QType_list" by (simp_all add: quiet_def)
    note st = put_list_step(1) [OF this(1) hit(5) this(2) hit(7)]
    show ?thesis
      using p hit(1,3) st by (auto simp: GenericPop_def Let_def split: if_splits intro!: store_ok_DeleteKey)
  qed
qed

lemma safe_pop_reply: "store_ok s \<Longrightarrow> safe_result (pop_reply (GenericPop k pos s) r)"
  by (cases "GenericPop k pos s") (auto simp: pop_reply_def safe_fail split: sum.split dest: GenericPop_ok)

lemma BlockClient_ok: "BlockClient k i t pos tgt s = Some (b, s') \<Longrightarrow> store_ok s \<Longrightarrow> store_ok s'"
  by (auto simp: BlockClient_def Let_def split: option.splits prod.splits if_splits)

lemma block_on_keys_ok: "block_on_keys i ks t pos tgt s = Some s' \<Longrightarrow> store_ok s \<Longrightarrow> store_ok s'"
proof (induction ks arbitrary: s)
  case (Cons k ks)
  then obtain b s1 where s1: "BlockClient k i t pos tgt s = Some (b, s1)" "block_on_keys i ks t pos tgt s1 = Some s'"
    by (auto split: option.splits)
  from Cons.IH [OF s1(2)] BlockClient_ok [OF s1(1) Cons.prems(2)] show ?case .
qed simp

lemma upd_current_ok: "upd_current f s = Some s' \<Longrightarrow> store_ok (s :: server) \<Longrightarrow> store_ok s'"
  by (auto simp: upd_current_def split: option.splits)

lemma blocked_pop_keys_ok:
  "store_ok s \<Longrightarrow> blocked_pop_keys ks pos wk r s = Some res \<Longrightarrow>
    (case res of Inl x \<Rightarrow> safe_result x | Inr s' \<Rightarrow> store_ok s')"
proof (induction ks arbitrary: r s)
  case (Cons k ks)
  then obtain x s1 where p: "GenericPop k pos s = Some (x, s1)" by (auto split: option.splits)
  note s1 = GenericPop_ok [OF p Cons.prems(1)]
  show ?case
  proof (cases x)
    case (Inl e)
    then show ?thesis using Cons p s1 by (auto simp: safe_fail split: if_splits)
  next
    case (Inr y)
    have "safe_result (map_option (\<lambda>s. (e, r', s)) (upd_current f s1))" for e r' f
      using upd_current_ok [OF _ s1, of f] by (cases "upd_current f s1") auto
    then show ?thesis using Cons.prems p Inr by (auto simp: Let_def)
  qed
qed auto

lemma safe_GenericBlockedPop: "store_ok s \<Longrightarrow> safe_result (GenericBlockedPop ks pos t tgt wk r s)"
proof -
  assume s: "store_ok s"
  show ?thesis
  proof (cases "blocked_pop_keys ks pos wk r s")
    case (Some res)
    note r = blocked_pop_keys_ok [OF s Some]
    have "safe_result (map_option (\<lambda>s. (QError_nop, r, s)) (block_on_keys i ks w pos tgt s'))" if "store_ok s'" for i w s'
      using block_on_keys_ok [OF _ that] by (cases "block_on_keys i ks w pos tgt s'") auto
    then show ?thesis using Some r
      by (cases res) (auto simp: GenericBlockedPop_def split: option.split)
  qed (simp add: GenericBlockedPop_def)
qed

lemma safe_push: "safe_cmd (push pos b)"
proof (rule safe_cmdI)
  fix params r and s :: server
  assume s: "store_ok s"
  have go: "safe_result (case CastList (oval v) of None \<Rightarrow> None
     | Some l \<Rightarrow>
                let mayReady = (l = []);
                    l = push_elems pos (drop 2 params) l;
                    s = put_obj (params ! 1) (v\<lparr>oval := VList l\<rparr>) s;
                    r' = FormatInt (int (length l)) r
                in if mayReady \<and> l \<noteq> [] then
                     (if r \<noteq> None then
                        do { s \<leftarrow> Propogate params s;
                             (n, s) \<leftarrow> ServeClient (params ! 1) s;
                             Some (QError_nop, r', s) }
                      else Some (QError_nop, r', s))
                   else Some (QError_ok, r', s))"
    if v: "store_ok s" "obj_ok v" "vtype (oval v) = QType_list" for v s
  proof -
    have p: "store_ok (put_obj (params ! 1) (v\<lparr>oval := VList l\<rparr>) s)" for l
      using v by (auto intro!: store_ok_put_obj obj_ok_list)
    have "safe_result (do { s \<leftarrow> Propogate params s; (n, s) \<leftarrow> ServeClient (params ! 1) s; Some (QError_nop, r', s) })"
      if "store_ok s" for r' s
      using that by (auto split: bind_split) (blast intro: Propogate_ok ServeClient_ok)
    then show ?thesis using p by (auto simp: Let_def split: option.split)
  qed
  show "safe_result (push pos b params r s)"
    unfolding push_def Let_def
    by (intro safe_get safe_if safe_fail safe_set s go [unfolded Let_def] | simp)+
qed

lemma safe_lists [safe_cmds]:
  "safe_cmd lpush_cmd" "safe_cmd rpush_cmd" "safe_cmd lpushx_cmd" "safe_cmd rpushx_cmd"
  by (simp_all add: lpush_cmd_def rpush_cmd_def lpushx_cmd_def rpushx_cmd_def safe_push)

lemma safe_pops [safe_cmds]: "safe_cmd lpop_cmd" "safe_cmd rpop_cmd"
  by (auto intro!: safe_cmdI simp: lpop_cmd_def rpop_cmd_def safe_pop_reply)

lemma safe_bpop: "safe_cmd (bpop pos)"
  by (rule safe_cmdI) (simp add: bpop_def safe_fail safe_GenericBlockedPop split: prod.split bool.split)

lemma safe_bpops [safe_cmds]: "safe_cmd blpop_cmd" "safe_cmd brpop_cmd"
  by (simp_all add: blpop_cmd_def brpop_cmd_def safe_bpop)

lemma safe_brpoplpush [safe_cmds]: "safe_cmd brpoplpush_cmd"
proof (rule safe_cmdI)
  fix params r and s :: server
  assume "store_ok s"
  moreover have "safe_result (case GetValueByType k QType_list s of
      (Inl err, s) \<Rightarrow> if err \<noteq> QError_notExist then fail err err r s else GenericBlockedPop ks pos t tgt wk r s
    | (Inr _, s) \<Rightarrow> GenericBlockedPop ks pos t tgt wk r s)" if "store_ok s" for k ks pos t tgt wk s
    using that by (auto intro!: safe_get safe_fail safe_GenericBlockedPop)
  ultimately show "safe_result (brpoplpush_cmd params r s)"
    by (simp add: brpoplpush_cmd_def safe_fail Let_def split: prod.split bool.split)
qed

lemma obj_ok_VList [inv_intros]:
  "obj_ok ob \<Longrightarrow> oval ob = VList l' \<Longrightarrow> obj_ok (ob\<lparr>oval := VList l\<rparr>)"
  by (simp add: obj_ok_list)

lemmas list_wp = safe_intros store_ok_put_obj obj_ok_VList

lemma safe_lindex_cmd [safe_cmds]: "safe_cmd lindex_cmd"
  by (rule safe_cmdI, auto simp: lindex_cmd_def Let_def intro!: list_wp)

lemma safe_lset_cmd [safe_cmds]: "safe_cmd lset_cmd"
  by (rule safe_cmdI, auto simp: lset_cmd_def Let_def intro!: list_wp)

lemma safe_llen_cmd [safe_cmds]: "safe_cmd llen_cmd"
  by (rule safe_cmdI, auto simp: llen_cmd_def Let_def intro!: list_wp)

lemma safe_lrange_cmd [safe_cmds]: "safe_cmd lrange_cmd"
  by (rule safe_cmdI, auto simp: lrange_cmd_def Let_def intro!: list_wp)

lemma safe_ltrim_cmd [safe_cmds]: "safe_cmd ltrim_cmd"
  by (rule safe_cmdI, auto simp: ltrim_cmd_def Let_def intro!: list_wp)

lemma safe_linsert_cmd [safe_cmds]: "safe_cmd linsert_cmd"
  by (rule safe_cmdI, auto simp: linsert_cmd_def Let_def intro!: list_wp)

lemma safe_lrem_cmd [safe_cmds]: "safe_cmd lrem_cmd"
  by (rule safe_cmdI, auto simp: lrem_cmd_def Let_def intro!: list_wp)

lemma safe_rpoplpush [safe_cmds]: "safe_cmd rpoplpush_cmd"
proof (rule safe_cmdI)
  fix params r and s :: server
  assume s: "store_ok s"
  have go: "safe_result (case list_of k s of None \<Rightarrow> None
     | Some l \<Rightarrow>
         if l = [] then None
         else
           let s = put_list k (butlast l) s in
           (case list_of k' s of None \<Rightarrow> None
            | Some d \<Rightarrow> Some (QError_ok, FormatBulk (last l) r, put_list k' (last l # d) s)))"
    if "store_ok s" for k k' and s :: server
    using that by (auto simp: Let_def split: option.split intro: put_list_ok)
  show "safe_result (rpoplpush_cmd params r s)"
    unfolding rpoplpush_cmd_def Let_def
    by (auto intro!: safe_get safe_if safe_fail safe_option go [unfolded Let_def] store_ok_SetValue s)
qed

end
