(* ===== verification/Serving.thy ===== *)
theory Serving
  imports Lists
begin

text \<open>
  Blocked clients and the pushes that serve them: the invariant that ties the waiting keys of a
  client (QClient) to the queues of the store (BlockedClients), and what a push does to the queue.
\<close>

subsection \<open>Blocked clients\<close>

text \<open>A client waits here when it is in the queue, in the current database, of every key it waits for; a client that
  waits for keys of another database does not.\<close>

definition waits_here :: "client_id \<Rightarrow> server \<Rightarrow> bool" where
  "waits_here i s \<longleftrightarrow> (\<forall>ks t. wait_of i s = Some (ks, t) \<longrightarrow> distinct ks \<and> (\<forall>k \<in> set ks. i \<in> fst ` set (waiting_on k s)))"

text \<open>A queue of clients that want plain pops: whoever of them is still there waits for the key, here, without a target,
  and is not a slave. Entries of clients that are gone do not matter.\<close>

definition plain_queue :: "QString \<Rightarrow> waiting list \<Rightarrow> server \<Rightarrow> bool" where
  "plain_queue k q s \<longleftrightarrow> distinct (map fst q) \<and>
     (\<forall>i \<in> fst ` set q. \<forall>ks t. wait_of i s = Some (ks, t) \<longrightarrow> t = [] \<and> k \<in> set ks \<and> i \<notin> slave_ids s \<and> waits_here i s)"

text \<open>All queues of the current database are of this kind.\<close>

definition plain_waiting :: "server \<Rightarrow> bool" where
  "plain_waiting s \<longleftrightarrow> dbno s < length (blockedClients s) \<and> (\<forall>k. plain_queue k (waiting_on k s) s)"

text \<open>What serving keeps of the queues.\<close>

definition blk_frame :: "server \<Rightarrow> server \<Rightarrow> bool" where
  "blk_frame s s' \<longleftrightarrow> dbno s' = dbno s \<and> length (blockedClients s') = length (blockedClients s) \<and>
     (\<forall>d. d \<noteq> dbno s \<longrightarrow> blockedClients s' ! d = blockedClients s ! d) \<and>
     (\<forall>j. waits_here j s \<longrightarrow> waits_here j s') \<and> (plain_waiting s \<longrightarrow> plain_waiting s')"

lemma blk_frame_trans: "blk_frame s s' \<Longrightarrow> blk_frame s' s'' \<Longrightarrow> blk_frame s s''"
  by (simp add: blk_frame_def)

lemma waiting_on_set_waiting [simp]: "dbno s < length (blockedClients s) \<Longrightarrow>
    waiting_on k' (set_waiting k q s) = (if k' = k then q else waiting_on k' s)"
  by (simp add: waiting_on_def set_waiting_def upd_blk_def cur_blk_def)

lemma set_waiting_form: "set_waiting k q s = s\<lparr>blockedClients := (blockedClients s)[dbno s := AList.update k q (cur_blk s)]\<rparr>"
  by (simp add: set_waiting_def upd_blk_def)

lemma waiting_on_put_client [simp]: "waiting_on k (put_client i c s) = waiting_on k s"
  by (simp add: waiting_on_def cur_blk_def put_client_def)

lemma blk_fields [simp]:
  "wait_of i (s\<lparr>blockedClients := b\<rparr>) = wait_of i s" "out_of i (s\<lparr>blockedClients := b\<rparr>) = out_of i s"
  "slave_ids (s\<lparr>blockedClients := b\<rparr>) = slave_ids s" "list_of k (s\<lparr>blockedClients := b\<rparr>) = list_of k s"
  "vis (s\<lparr>blockedClients := b\<rparr>) = vis s" "is_expired (s\<lparr>blockedClients := b\<rparr>) = is_expired s"
  by (simp_all add: wait_of_def out_of_def slave_ids_def list_of_def vis_def is_expired_def cur_db_def cur_exp_def fun_eq_iff)

lemma waits_same:
  assumes "\<And>j. wait_of j s' = wait_of j s" "slave_ids s' = slave_ids s" "dbno s' = dbno s" "blockedClients s' = blockedClients s"
  shows "waiting_on k s' = waiting_on k s" "waits_here j s' = waits_here j s" "plain_queue k q s' = plain_queue k q s"
    "plain_waiting s' = plain_waiting s" "blk_frame s s'"
proof -
  show w: "waiting_on k s' = waiting_on k s" for k using assms(3,4) by (simp add: waiting_on_def cur_blk_def)
  then show h: "waits_here j s' = waits_here j s" for j using assms(1) by (simp add: waits_here_def)
  then show p: "plain_queue k q s' = plain_queue k q s" for k q using assms(1,2) by (simp add: plain_queue_def)
  show pw: "plain_waiting s' = plain_waiting s" using assms(3,4) w p by (simp add: plain_waiting_def)
  show "blk_frame s s'" using assms(3,4) h pw by (simp add: blk_frame_def)
qed

lemma frame_clients:
  assumes "frame s s'"
  shows "wait_of i s' = wait_of i s" "out_of i s' = out_of i s" "slave_ids s' = slave_ids s"
    "waiting_on k s' = waiting_on k s" "clients s' = clients s"
  using assms by (auto simp: frame_def wait_of_def out_of_def slave_ids_def waiting_on_def cur_blk_def)

lemma same_store_blk:
  assumes "same_store s s'"
  shows "waiting_on k s' = waiting_on k s" "blockedClients s' = blockedClients s" "list_of k s' = list_of k s"
proof -
  have b: "blockedClients s' = blockedClients s"
    using assms by (auto simp: same_store_def qstore.truncate_def)
  with same_store_view [OF assms]
  show "waiting_on k s' = waiting_on k s" "blockedClients s' = blockedClients s" "list_of k s' = list_of k s"
    by (simp_all add: waiting_on_def cur_blk_def list_of_def)
qed


lemma erase_client_others: "j \<noteq> i \<Longrightarrow> j \<in> fst ` set (snd (erase_client i q)) \<longleftrightarrow> j \<in> fst ` set q"
  by (induction q) (auto split: prod.split)

lemma erase_client_subset: "set (snd (erase_client i q)) \<subseteq> set q"
  by (induction q) (auto split: prod.split)

lemma erase_client_hd [simp]: "erase_client i ((i, t, p) # q) = (1, q)"
  by simp

lemma erase_client_distinct:
  "distinct (map fst q) \<Longrightarrow> distinct (map fst (snd (erase_client i q))) \<and> i \<notin> fst ` set (snd (erase_client i q))"
proof (induction q)
  case (Cons w q)
  have "fst ` set (snd (erase_client i q)) \<subseteq> fst ` set q" using erase_client_subset [of i q] by blast
  then show ?case using Cons by (cases "erase_client i q") auto
qed simp

lemma unblock_keys_total:
  assumes "distinct ks" "\<forall>k \<in> set ks. waiting_on k s \<noteq> []" "dbno s < length (blockedClients s)"
  shows "\<exists>m x. unblock_keys i ks n s = Some (m, s\<lparr>blockedClients := (blockedClients s)[dbno s := x]\<rparr>) \<and>
    (\<forall>k. waiting_on k (s\<lparr>blockedClients := (blockedClients s)[dbno s := x]\<rparr>) =
       (if k \<in> set ks then snd (erase_client i (waiting_on k s)) else waiting_on k s))"
  using assms
proof (induction ks arbitrary: n s)
  case Nil
  have "s\<lparr>blockedClients := (blockedClients s)[dbno s := blockedClients s ! dbno s]\<rparr> = s" by simp
  then show ?case by (intro exI [of _ n] exI [of _ "blockedClients s ! dbno s"]) simp
next
  case (Cons k ks)
  obtain m q where e: "erase_client i (waiting_on k s) = (m, q)" by (cases "erase_client i (waiting_on k s)")
  let ?s = "set_waiting k q s"
  have d: "dbno ?s < length (blockedClients ?s)" using Cons.prems(3) by (simp add: set_waiting_form)
  have "\<forall>k \<in> set ks. waiting_on k ?s \<noteq> []" using Cons.prems by auto
  from Cons.IH [OF _ this d, of "n + m"] Cons.prems(1) obtain m' x where
    r: "unblock_keys i ks (n + m) ?s = Some (m', ?s\<lparr>blockedClients := (blockedClients ?s)[dbno ?s := x]\<rparr>)"
      "\<forall>k'. waiting_on k' (?s\<lparr>blockedClients := (blockedClients ?s)[dbno ?s := x]\<rparr>) =
        (if k' \<in> set ks then snd (erase_client i (waiting_on k' ?s)) else waiting_on k' ?s)" by auto
  have s: "?s\<lparr>blockedClients := (blockedClients ?s)[dbno ?s := x]\<rparr> = s\<lparr>blockedClients := (blockedClients s)[dbno s := x]\<rparr>"
    by (simp add: set_waiting_form)
  have "unblock_keys i (k # ks) n s = Some (m', s\<lparr>blockedClients := (blockedClients s)[dbno s := x]\<rparr>)"
    using r(1) s Cons.prems(2) e by simp
  then show ?case using r(2) Cons.prems(1,3) e unfolding s by (intro exI [of _ m'] exI [of _ x]) auto
qed

lemma UnblockClient_total:
  assumes "waits_here i s" "dbno s < length (blockedClients s)" "map_of (clients s) i = Some c"
  obtains n s' where "UnblockClient i s = Some (n, s')" "blk_frame s s'" "slave_ids s' = slave_ids s"
    "\<exists>b. s' = put_client i (ClearWaitingKeys c) (s\<lparr>blockedClients := b\<rparr>)"
    "\<forall>k. waiting_on k s' = (if k \<in> set (waitingKeys c) then snd (erase_client i (waiting_on k s)) else waiting_on k s)"
proof -
  have w: "wait_of i s = Some (waitingKeys c, target c)" using assms(3) by (simp add: wait_of_def)
  with assms(1) have ks: "distinct (waitingKeys c)" "\<forall>k \<in> set (waitingKeys c). waiting_on k s \<noteq> []"
    unfolding waits_here_def by fastforce+
  from unblock_keys_total [OF this assms(2), of i 0] obtain m x where
    r: "unblock_keys i (waitingKeys c) 0 s = Some (m, s\<lparr>blockedClients := (blockedClients s)[dbno s := x]\<rparr>)"
      "\<forall>k. waiting_on k (s\<lparr>blockedClients := (blockedClients s)[dbno s := x]\<rparr>) =
       (if k \<in> set (waitingKeys c) then snd (erase_client i (waiting_on k s)) else waiting_on k s)" by blast
  let ?s' = "put_client i (ClearWaitingKeys c) (s\<lparr>blockedClients := (blockedClients s)[dbno s := x]\<rparr>)"
  have q: "waiting_on k ?s' = (if k \<in> set (waitingKeys c) then snd (erase_client i (waiting_on k s)) else waiting_on k s)" for k
    using r(2) by simp
  have wt: "wait_of j ?s' = (if j = i then Some ([], []) else wait_of j s)" for j by (simp add: ClearWaitingKeys_def)
  have here: "waits_here j ?s'" if "waits_here j s" for j
    using that erase_client_others [of j i] unfolding waits_here_def q wt by (cases "j = i") auto
  have sl: "slave_ids ?s' = slave_ids s" by (simp add: slave_ids_def)
  have "plain_queue k (waiting_on k ?s') ?s'" if p: "plain_queue k (waiting_on k s) s" for k
  proof -
    have d: "distinct (map fst (waiting_on k s))" using p by (simp add: plain_queue_def)
    have "i \<notin> fst ` set (waiting_on k ?s')"
    proof (cases "k \<in> set (waitingKeys c)")
      case True
      then show ?thesis using erase_client_distinct [OF d, of i] unfolding q by simp
    next
      case False
      then show ?thesis using p w unfolding plain_queue_def q by auto
    qed
    moreover have "fst ` set (waiting_on k ?s') \<subseteq> fst ` set (waiting_on k s)"
      using erase_client_subset [of i "waiting_on k s"] unfolding q by auto
    moreover have "distinct (map fst (waiting_on k ?s'))" using d erase_client_distinct [OF d, of i] unfolding q by simp
    ultimately show ?thesis unfolding plain_queue_def
    proof (intro conjI ballI allI impI)
      fix j ks t
      assume j: "j \<in> fst ` set (waiting_on k ?s')" "wait_of j ?s' = Some (ks, t)"
      then have "j \<noteq> i" using \<open>i \<notin> fst ` set (waiting_on k ?s')\<close> by metis
      then have "wait_of j s = Some (ks, t)" using j(2) unfolding wt by simp
      moreover have "j \<in> fst ` set (waiting_on k s)"
        using j(1) \<open>fst ` set (waiting_on k ?s') \<subseteq> fst ` set (waiting_on k s)\<close> by (rule rev_subsetD)
      ultimately show "t = []" "k \<in> set ks" "j \<notin> slave_ids ?s'" "waits_here j ?s'"
        using p here unfolding plain_queue_def sl by blast+
    qed
  qed
  then have "plain_waiting ?s'" if "plain_waiting s" using that by (simp add: plain_waiting_def) (simp add: put_client_def)
  with here have "blk_frame s ?s'" by (simp add: blk_frame_def) (simp add: put_client_def)
  with r(1) assms(3) q sl show thesis by (intro that [of m ?s']) (auto simp: UnblockClient_def)
qed

text \<open>A fresh server has no queues; a client that waits only here, without a target, may block on one more key.\<close>

lemma plain_waiting_new: "blockedClients s = replicate n [] \<Longrightarrow> dbno s < n \<Longrightarrow> plain_waiting s"
  by (simp add: plain_waiting_def plain_queue_def waiting_on_def cur_blk_def)

lemma plain_waiting_BlockClient:
  assumes "plain_waiting s" "waits_here i s" "wait_of i s = Some (ks, [])" "i \<notin> slave_ids s"
    and "BlockClient k i t pos None s = Some (ok, s')"
  shows "plain_waiting s' \<and> waits_here i s' \<and> wait_of i s' = Some (if ok then ks @ [k] else ks, []) \<and> slave_ids s' = slave_ids s"
proof -
  obtain c where c: "map_of (clients s) i = Some c" "waitingKeys c = ks" "target c = []"
    using assms(3) by (auto simp: wait_of_def)
  have d: "dbno s < length (blockedClients s)" using assms(1) by (simp add: plain_waiting_def)
  show ?thesis
  proof (cases "k \<in> set ks")
    case True
    then have "s' = put_client i c s" "\<not> ok" using assms(5) c by (auto simp: BlockClient_def WaitFor_def set_insert_def)
    moreover have wt: "wait_of j (put_client i c s) = wait_of j s" for j using assms(3) c by simp
    moreover have sl: "slave_ids (put_client i c s) = slave_ids s" by (simp add: slave_ids_def)
    moreover have "dbno (put_client i c s) = dbno s" "blockedClients (put_client i c s) = blockedClients s"
      by (simp_all add: put_client_def)
    note waits_same(2) [OF wt sl this, of i] waits_same(4) [OF wt sl this]
    ultimately show ?thesis using assms(1-3) wt [of i] by simp
  next
    case False
    let ?c = "c\<lparr>waitingKeys := ks @ [k]\<rparr>"
    let ?s' = "set_waiting k (waiting_on k s @ [(i, t, pos)]) (put_client i ?c s)"
    have s': "s' = ?s'" "ok" using assms(5) c False by (auto simp: BlockClient_def WaitFor_def set_insert_def)
    have d': "dbno (put_client i ?c s) < length (blockedClients (put_client i ?c s))" using d by (simp add: put_client_def)
    have q: "waiting_on k' ?s' = (if k' = k then waiting_on k s @ [(i, t, pos)] else waiting_on k' s)" for k'
      using d' by simp
    have wt: "wait_of j ?s' = (if j = i then Some (ks @ [k], []) else wait_of j s)" for j
      using c(3) by (simp add: set_waiting_form)
    have sl: "slave_ids ?s' = slave_ids s" by (simp add: set_waiting_form slave_ids_def)
    have here: "waits_here j ?s'" if "waits_here j s" for j
      using that assms(3) False unfolding waits_here_def wt q by (cases "j = i") auto
    have "i \<notin> fst ` set (waiting_on k s)"
      using assms(1,3) False unfolding plain_waiting_def plain_queue_def by metis
    then have "plain_queue k' (waiting_on k' ?s') ?s'" for k'
      using assms(1-4) here unfolding plain_waiting_def plain_queue_def sl q wt by (cases "k' = k") auto
    then show ?thesis using here [OF assms(2)] d' s' wt sl by (simp add: plain_waiting_def) (simp add: set_waiting_form)
  qed
qed

text \<open>The elements a queue of plain pops takes from a list, in order, and what it leaves.\<close>

definition elem_of :: "ListPosition \<Rightarrow> QString list \<Rightarrow> QString" where
  "elem_of pos l = (if pos = Pos_head then hd l else last l)"

definition rest_of :: "ListPosition \<Rightarrow> QString list \<Rightarrow> QString list" where
  "rest_of pos l = (if pos = Pos_head then tl l else butlast l)"

fun hand_out :: "waiting list \<Rightarrow> QString list \<Rightarrow> (client_id \<times> QString) list" where
  "hand_out ((i, t, pos) # q) (x # xs) = (i, elem_of pos (x # xs)) # hand_out q (rest_of pos (x # xs))"
| "hand_out _ _ = []"

fun left_over :: "waiting list \<Rightarrow> QString list \<Rightarrow> QString list" where
  "left_over ((i, t, pos) # q) (x # xs) = left_over q (rest_of pos (x # xs))"
| "left_over _ l = l"

definition pop_bytes :: "QString \<Rightarrow> QString \<Rightarrow> string" where
  "pop_bytes key x = the (FormatBulk x (FormatBulk key (PreFormatMultiBulk 2 (Some []))))"

lemma pop_bytes: "FormatBulk x (FormatBulk key (PreFormatMultiBulk 2 (Some []))) = Some (pop_bytes key x)"
  by (simp add: pop_bytes_def FormatBulk_def PreFormatMultiBulk_def PushData_def)

lemma list_of_vis: "list_of k s = Some l \<Longrightarrow> \<not> is_expired s k \<Longrightarrow> vis s k = Some (VList l)"
  by (auto simp: list_of_def vis_def bind_eq_Some_conv)

lemma put_list_spec:
  assumes "store_ok s" "list_of k s = Some l'" "\<not> is_expired s k"
  shows "store_ok (put_list k l s)" "frame s (put_list k l s)" "list_of k (put_list k l s) = Some l"
    "vis (put_list k l s) = (vis s)(k \<mapsto> VList l)" "is_expired (put_list k l s) = is_expired s"
proof -
  from assms(2) obtain ob where ob: "map_of (cur_db s) k = Some ob" "oval ob = VList l'"
    by (auto simp: list_of_def bind_eq_Some_conv)
  then have "obj_ok ob" using db_ok_map_of [OF store_ok_current(3) [OF assms(1)]] by blast
  with put_list_step [OF assms(1) this _ assms(3)] ob
  show "store_ok (put_list k l s)" "frame s (put_list k l s)" "list_of k (put_list k l s) = Some l"
    "vis (put_list k l s) = (vis s)(k \<mapsto> VList l)" "is_expired (put_list k l s) = is_expired s"
    by (simp_all add: put_list_def)
qed

lemma slave_ids_put: "slave_ids (put_client i c s) = slave_ids s"
  by (simp add: slave_ids_def)

lemma serve_one_plain:
  assumes "store_ok s" "dbno s < length (blockedClients s)" "waits_here i s" "map_of (clients s) i = Some c" "target c = []"
    and "i \<notin> slave_ids s" "list_of k s = Some (x # xs)" "\<not> is_expired s k"
  obtains s' where "serve_one k i c pos s = Some s'" "store_ok s'" "blk_frame s s'" "is_expired s' = is_expired s"
    "list_of k s' = Some (rest_of pos (x # xs))" "vis s' = (vis s)(k \<mapsto> VList (rest_of pos (x # xs)))"
    "wait_of i s' = Some ([], [])" "out_of i s' = Some (out c @ pop_bytes k (elem_of pos (x # xs)))"
    "\<forall>j. j \<noteq> i \<longrightarrow> wait_of j s' = wait_of j s"
    "\<forall>j. j \<noteq> i \<longrightarrow> j \<notin> slave_ids s \<longrightarrow> out_of j s' = out_of j s" "slave_ids s' = slave_ids s"
    "\<forall>k'. waiting_on k' s' =
       (if k' \<in> set (waitingKeys c) then snd (erase_client i (waiting_on k' s)) else waiting_on k' s)"
proof -
  let ?l = "rest_of pos (x # xs)" and ?p = "[if pos = Pos_head then ''lpop'' else ''rpop'', k]"
  note p = put_list_spec [OF assms(1,7,8), of ?l]
  have w0: "waitSyncKeys (put_list k ?l s) = []" using store_ok_current(6) [OF p(1)] .
  from Propogate_step [OF w0, of ?p] obtain s1 where
    s1: "Propogate ?p (put_list k ?l s) = Some s1" "same_store (put_list k ?l s) s1" "same_clients (put_list k ?l s) s1" by auto
  note v = same_store_view [OF s1(2)] same_store_blk [OF s1(2)]
  have wt: "wait_of j s1 = wait_of j s" and sl: "slave_ids s1 = slave_ids s" and wo: "waiting_on k' s1 = waiting_on k' s"
    and ou: "j \<notin> slave_ids s \<Longrightarrow> out_of j s1 = out_of j s" for j k'
    using s1(3) v(11) frame_clients [OF p(2)] by (auto simp: same_clients_def slave_ids_def)
  from wt [of i] ou [OF assms(6)] assms(4) obtain c1 where
    c1: "map_of (clients s1) i = Some c1" "waitingKeys c1 = waitingKeys c" "out c1 = out c" "target c1 = target c"
    by (auto simp: wait_of_def out_of_def)
  let ?c = "SendPacket (pop_bytes k (elem_of pos (x # xs))) c1"
  let ?s2 = "put_client i ?c s1"
  have pop: "serve_pop k i [] pos s = Some ?s2"
    using assms(7) s1(1) c1(1) pop_bytes
    by (simp add: serve_pop_def Let_def rest_of_def elem_of_def split: if_splits)
  have wt2: "wait_of j ?s2 = wait_of j s" for j
    using wt [of j] c1 assms(4) by (simp add: SendPacket_def) (simp add: wait_of_def)
  have sl2: "slave_ids ?s2 = slave_ids s" using sl by (simp add: slave_ids_put)
  have db2: "dbno ?s2 = dbno s" "blockedClients ?s2 = blockedClients s"
    using v(6,12) frame_fields(1,6) [OF p(2)] by (simp_all add: put_client_def)
  note w2 = waits_same [OF wt2 sl2 db2]
  have c2: "map_of (clients ?s2) i = Some ?c" by (simp add: put_client_def)
  have here: "waits_here i ?s2" "dbno ?s2 < length (blockedClients ?s2)" using assms(2,3) w2(2) db2 by simp_all
  obtain n s3 b where u: "UnblockClient i ?s2 = Some (n, s3)" "blk_frame ?s2 s3" "slave_ids s3 = slave_ids ?s2"
    and s3: "s3 = put_client i (ClearWaitingKeys ?c) (?s2\<lparr>blockedClients := b\<rparr>)"
    and u4: "\<forall>k. waiting_on k s3 = (if k \<in> set (waitingKeys ?c) then snd (erase_client i (waiting_on k ?s2)) else waiting_on k ?s2)"
    using UnblockClient_total [OF here c2] by metis
  have same: "same_store s1 ?s2" by simp
  note v2 = same_store_view [OF same] same_store_blk(3) [OF same]
  note v3 = same_store_view [of "?s2\<lparr>blockedClients := b\<rparr>" s3, unfolded s3, simplified]
    same_store_blk(3) [of "?s2\<lparr>blockedClients := b\<rparr>" s3, unfolded s3, simplified]
  have one: "serve_one k i c pos s = Some s3"
    using pop u(1) assms(5) by (simp add: serve_one_def serve_target_def serve_push_def)
  have ok: "store_ok s3" using serve_one_ok [OF one assms(1)] .
  have fr: "blk_frame s s3" using blk_frame_trans [OF w2(5) u(2)] .
  have q: "waiting_on k' s3 = (if k' \<in> set (waitingKeys c) then snd (erase_client i (waiting_on k' s)) else waiting_on k' s)" for k'
    using u4 w2(1) c1(2) by (simp add: SendPacket_def)
  have "slave_ids s3 = slave_ids s" using u(3) sl2 by simp
  moreover have "is_expired s3 = is_expired s" "list_of k s3 = Some ?l" "vis s3 = (vis s)(k \<mapsto> VList ?l)"
    "wait_of i s3 = Some ([], [])" "out_of i s3 = Some (out c @ pop_bytes k (elem_of pos (x # xs)))"
    "\<forall>j. j \<noteq> i \<longrightarrow> wait_of j s3 = wait_of j s" "\<forall>j. j \<noteq> i \<longrightarrow> j \<notin> slave_ids s \<longrightarrow> out_of j s3 = out_of j s"
    unfolding s3 using p(3,4,5) v v2 v3 c1 wt ou by (auto simp: ClearWaitingKeys_def SendPacket_def)
  ultimately show thesis using one ok fr q by (intro that [of s3]) simp_all
qed


text \<open>What serving the queue does: the list shrinks, the clients at the front that are still there get the elements.\<close>

definition present :: "server \<Rightarrow> waiting \<Rightarrow> bool" where
  "present s w \<longleftrightarrow> wait_of (fst w) s \<noteq> None"

definition served :: "QString \<Rightarrow> waiting list \<Rightarrow> QString list \<Rightarrow> server \<Rightarrow> server \<Rightarrow> bool" where
  "served k q l s s' \<longleftrightarrow> store_ok s' \<and> blk_frame s s' \<and>
     vis s' = (vis s)(k \<mapsto> VList (left_over (filter (present s) q) l)) \<and>
     filter (present s) (waiting_on k s') = drop (length l) (filter (present s) q) \<and>
     (\<forall>(i, x) \<in> set (hand_out (filter (present s) q) l). wait_of i s' = Some ([], []) \<and>
        out_of i s' = map_option (\<lambda>b. b @ pop_bytes k x) (out_of i s)) \<and>
     (\<forall>j. j \<notin> slave_ids s \<longrightarrow> j \<notin> fst ` set (hand_out (filter (present s) q) l) \<longrightarrow>
        wait_of j s' = wait_of j s \<and> out_of j s' = out_of j s)"

lemma hand_out_clients: "fst ` set (hand_out q l) \<subseteq> fst ` set q"
  by (induction q l rule: hand_out.induct) auto

lemma length_rest [simp]: "length (rest_of pos (x # xs)) = length xs"
  by (simp add: rest_of_def)

lemma served_step:
  assumes "served k q (rest_of pos (x # xs)) s1 s2" "vis s1 = (vis s)(k \<mapsto> VList (rest_of pos (x # xs)))" "blk_frame s s1"
    and "wait_of i s \<noteq> None" "wait_of i s1 = Some ([], [])"
    and "out_of i s1 = map_option (\<lambda>b. b @ pop_bytes k (elem_of pos (x # xs))) (out_of i s)"
    and "\<forall>j. j \<noteq> i \<longrightarrow> wait_of j s1 = wait_of j s" "slave_ids s1 = slave_ids s"
    and "\<forall>j. j \<noteq> i \<longrightarrow> j \<notin> slave_ids s \<longrightarrow> out_of j s1 = out_of j s"
    and "i \<notin> fst ` set q" "\<forall>w \<in> set q. present s w \<longrightarrow> fst w \<notin> slave_ids s" "i \<notin> slave_ids s"
  shows "served k ((i, t, pos) # q) (x # xs) s s2"
proof -
  have pr: "present s1 = present s"
  proof
    fix w :: waiting
    show "present s1 w = present s w" using assms(4,5,7) by (cases "fst w = i") (auto simp: present_def)
  qed
  let ?h = "hand_out (filter (present s) q) (rest_of pos (x # xs))"
  note q = assms(1) [unfolded served_def pr]
  have h: "fst ` set ?h \<subseteq> fst ` set (filter (present s) q)" by (rule hand_out_clients)
  then have i: "i \<notin> fst ` set ?h" using assms(10) by auto
  then have "wait_of i s2 = wait_of i s1" "out_of i s2 = out_of i s1" using q assms(8,12) by blast+
  moreover have "j \<noteq> i \<and> j \<notin> slave_ids s" if "(j, y) \<in> set ?h" for j y
    using that i assms(11) h by force
  moreover have "present s (i, t, pos)" using assms(4) by (simp add: present_def)
  moreover have "blk_frame s s2" using blk_frame_trans [OF assms(3)] q by blast
  ultimately show ?thesis
    unfolding served_def using q assms(2,5-9) by (auto simp: Ball_def)
qed

lemma ServeClient_loop_stops:
  assumes "0 < f" "list_of k s = Some l" "l = [] \<or> waiting_on k s = []"
  shows "ServeClient_loop f k n s = Some (n, s)"
  using assms by (cases f) auto

text \<open>An entry of a client that is gone is dropped.\<close>

lemma drop_gone:
  assumes "waiting_on k s = (i, t, pos) # q" "wait_of i s = None" "dbno s < length (blockedClients s)"
  shows "blk_frame s (set_waiting k q s)"
proof -
  let ?s = "set_waiting k q s"
  have w: "waiting_on k' ?s = (if k' = k then q else waiting_on k' s)" for k' using assms(3) by simp
  have wt: "wait_of j ?s = wait_of j s" and sl: "slave_ids ?s = slave_ids s" for j by (simp_all add: set_waiting_form)
  have here: "waits_here j ?s" if "waits_here j s" for j
    using that assms(1,2) unfolding waits_here_def w wt by (cases "j = i") fastforce+
  have "plain_queue k' (waiting_on k' ?s) ?s" if "plain_queue k' (waiting_on k' s) s" for k'
    using that assms(1) here unfolding plain_queue_def w wt sl by (cases "k' = k") auto
  then show ?thesis using here assms(3) unfolding blk_frame_def plain_waiting_def
    by (auto simp: set_waiting_form)
qed

lemma ServeClient_loop_serves:
  assumes "store_ok s" "dbno s < length (blockedClients s)" "list_of k s = Some l" "\<not> is_expired s k"
    and "waiting_on k s = q" "plain_queue k q s" "length q < f"
  shows "\<exists>s'. ServeClient_loop f k n s = Some (n + min (length l) (length (filter (present s) q)), s') \<and> served k q l s s'"
  using assms
proof (induction q arbitrary: l n s f)
  case Nil
  then show ?case by (auto simp: served_def list_of_vis ServeClient_loop_stops blk_frame_def intro!: exI)
next
  case (Cons w q)
  obtain i t pos where wi: "w = (i, t, pos)" by (cases w) auto
  obtain g where f: "f = Suc g" using Cons.prems(7) by (cases f) auto
  consider "l = []" | "l \<noteq> []" "wait_of i s = None" | x xs where "l = x # xs" "wait_of i s \<noteq> None"
    using list.exhaust by metis
  then show ?case
  proof cases
    case 1
    then show ?thesis using Cons.prems by (auto simp: served_def list_of_vis ServeClient_loop_stops blk_frame_def intro!: exI)
  next
    case 2
    let ?s = "set_waiting k q s"
    have q: "waiting_on k s = (i, t, pos) # q" using Cons.prems(5) wi by simp
    note fr = drop_gone [OF q 2(2) Cons.prems(2)]
    have wt: "wait_of j ?s = wait_of j s" and sl: "slave_ids ?s = slave_ids s" and ou: "out_of j ?s = out_of j s" for j
      by (simp_all add: set_waiting_form)
    have pr: "present ?s = present s" by (simp add: present_def fun_eq_iff wt)
    have "plain_queue k q ?s"
      using Cons.prems(6) fr wi unfolding plain_queue_def blk_frame_def wt sl by auto
    moreover have "store_ok ?s" "dbno ?s < length (blockedClients ?s)" "list_of k ?s = Some l" "\<not> is_expired ?s k"
      "vis ?s = vis s" using Cons.prems(1-4) by (simp_all add: set_waiting_form) (simp add: store_ok_def)
    moreover have "waiting_on k ?s = q" using Cons.prems(2) by simp
    ultimately obtain s' where s': "ServeClient_loop g k n ?s = Some (n + min (length l) (length (filter (present s) q)), s')"
      "served k q l ?s s'" using Cons.IH [of ?s l g n] Cons.prems(7) f pr by auto
    have none: "map_of (clients s) i = None" using 2(2) by (cases "map_of (clients s) i") (simp_all add: wait_of_def)
    have np: "\<not> present s w" using 2(2) wi by (simp add: present_def)
    have "ServeClient_loop f k n s = Some (n + min (length l) (length (filter (present s) (w # q))), s')"
      using f Cons.prems(3) q none 2(1) s'(1) np by simp
    moreover have "served k (w # q) l s s'"
      using s'(2) np blk_frame_trans [OF fr] \<open>vis ?s = vis s\<close> unfolding served_def pr wt sl ou by simp
    ultimately show ?thesis by blast
  next
    case 3
    obtain ks u where w3: "wait_of i s = Some (ks, u)" using 3(2) by auto
    then have ks: "u = []" "k \<in> set ks" "i \<notin> slave_ids s" "waits_here i s" and iq: "i \<notin> fst ` set q" "distinct (map fst q)"
      using Cons.prems(6) wi unfolding plain_queue_def by auto
    obtain c where c: "map_of (clients s) i = Some c" "waitingKeys c = ks" "target c = []"
      using w3 ks(1) by (auto simp: wait_of_def)
    have "list_of k s = Some (x # xs)" using Cons.prems(3) 3(1) by simp
    from serve_one_plain [OF Cons.prems(1,2) ks(4) c(1,3) ks(3) this Cons.prems(4)] obtain s1 where
      s1: "serve_one k i c pos s = Some s1" "store_ok s1" "blk_frame s s1" "is_expired s1 = is_expired s"
        "list_of k s1 = Some (rest_of pos (x # xs))" "vis s1 = (vis s)(k \<mapsto> VList (rest_of pos (x # xs)))"
        "wait_of i s1 = Some ([], [])" "out_of i s1 = Some (out c @ pop_bytes k (elem_of pos (x # xs)))"
        "\<forall>j. j \<noteq> i \<longrightarrow> wait_of j s1 = wait_of j s"
        "\<forall>j. j \<noteq> i \<longrightarrow> j \<notin> slave_ids s \<longrightarrow> out_of j s1 = out_of j s" "slave_ids s1 = slave_ids s"
        "\<forall>k'. waiting_on k' s1 = (if k' \<in> set ks then snd (erase_client i (waiting_on k' s)) else waiting_on k' s)"
      unfolding c(2) by blast
    have pr: "present s1 = present s"
    proof
      fix v :: waiting
      show "present s1 v = present s v" using s1(7,9) 3(2) by (cases "fst v = i") (auto simp: present_def)
    qed
    have q: "waiting_on k s1 = q" using s1(12) ks(2) Cons.prems(5) wi by simp
    have pq: "plain_queue k q s1"
      unfolding plain_queue_def
    proof (intro conjI ballI allI impI)
      fix j ks' t' assume j: "j \<in> fst ` set q" "wait_of j s1 = Some (ks', t')"
      then have "j \<noteq> i" using iq(1) by metis
      then have "wait_of j s = Some (ks', t')" "j \<in> fst ` set (w # q)" using s1(9) j by auto
      then show "t' = []" "k \<in> set ks'" "j \<notin> slave_ids s1" "waits_here j s1"
        using Cons.prems(6) s1(3,11) unfolding plain_queue_def blk_frame_def by blast+
    qed (rule iq)
    have db: "dbno s1 < length (blockedClients s1)" using s1(3) Cons.prems(2) by (simp add: blk_frame_def)
    from Cons.IH [OF s1(2) db s1(5) _ q pq, of g "n + 1"] s1(4) Cons.prems(4,7) f pr obtain s2 where
      s2: "ServeClient_loop g k (n + 1) s1 = Some (n + 1 + min (length xs) (length (filter (present s) q)), s2)"
        "served k q (rest_of pos (x # xs)) s1 s2" by auto
    have p: "present s w" using 3(2) wi by (simp add: present_def)
    have "ServeClient_loop f k n s = Some (n + min (length l) (length (filter (present s) (w # q))), s2)"
      using f Cons.prems(3,5) c(1) s1(1) s2(1) 3(1) wi p by simp
    moreover have "\<forall>v \<in> set q. present s v \<longrightarrow> fst v \<notin> slave_ids s"
      using Cons.prems(6) unfolding plain_queue_def present_def by fastforce
    then have "served k (w # q) l s s2" unfolding wi 3(1)
      by (intro served_step [OF s2(2) s1(6,3) 3(2) s1(7) _ s1(9,11,10) iq(1) _ ks(3)]) (use s1(8) c(1) in \<open>simp_all add: out_of_def\<close>)
    ultimately show ?thesis by blast
  qed
qed

lemma push_elems_Nil_iff [simp]: "push_elems pos xs l = [] \<longleftrightarrow> xs = [] \<and> l = []"
  unfolding push_elems_def by (induction xs arbitrary: l) auto

lemma push_elems_eq: "push_elems pos xs l = (if pos = Pos_head then rev xs @ l else l @ xs)"
  unfolding push_elems_def by (induction xs arbitrary: l) auto

lemma frame_waits:
  assumes "frame s s'"
  shows "blk_frame s s'" "plain_queue k q s' = plain_queue k q s"
  using waits_same(3,5) [of s' s] frame_clients [OF assms] frame_fields(1,6) [OF assms] by metis+


text \<open>Three clients of a fresh server block on a key, the second of them goes away, and a fourth pushes.\<close>

definition with_clients :: "client_id list \<Rightarrow> server" where
  "with_clients is = (Store_Init 1 server_new)\<lparr>clients := map (\<lambda>i. (i, client_new)) is\<rparr>"

definition blocked_server :: server where
  "blocked_server =
     (let block = (\<lambda>cmd i s. snd (snd (the (cmd [''blpop'', ''q'', ''0''] (Some []) (s\<lparr>current := Some i\<rparr>)))));
          s = block blpop_cmd 3 (block blpop_cmd 2 (block brpop_cmd 1 (with_clients [1, 2, 3, 4])))
      in s\<lparr>clients := AList.delete 2 (clients s), current := Some 4\<rparr>)"

lemma blocked_server:
  "waiting_on ''q'' blocked_server = [(1, -1, Pos_tail), (2, -1, Pos_head), (3, -1, Pos_head)]"
  "wait_of 1 blocked_server = Some ([''q''], [])" "wait_of 2 blocked_server = None"
  "wait_of 3 blocked_server = Some ([''q''], [])" "out_of 1 blocked_server = Some []" "out_of 3 blocked_server = Some []"
  "slaves blocked_server = []" "vis blocked_server ''q'' = None"
  by code_simp+

lemma blocked_server_ok: "store_ok blocked_server"
  by code_simp


subsection \<open>Ranges and removal\<close>

lemma walk_to_id [simp]: "n < sz \<Longrightarrow> walk_to n sz = n"
  by (simp add: walk_to_def)

lemma GetRange_slice:
  assumes "AdjustIndex i j (length l) = (a, b)"
  shows "GetRange a b (length l) =
    (if a \<le> b then Some (nat (b - a + 1), nat a, nat b) else Some (0, length l, length l))"
proof (cases "a \<le> b")
  case True
  then have "0 \<le> a" "b < int (length l)" "nat a < length l" "nat b < length l"
    using AdjustIndex_bounds [OF assms] by auto
  then show ?thesis using True by (auto simp: GetRange_def Index2Iterator_def nat_diff_distrib)
qed (simp add: GetRange_def)

text \<open>LRANGE replies with the slice its two indices select, negative ones counted from the end and
  both clipped to the list, and changes nothing.\<close>

theorem lrange_selects:
  assumes "store_ok s" "vis s k = Some (VList l)" "Strtol x = Some i" "Strtol y = Some j"
  shows "\<exists>s'. lrange_cmd [c, k, x, y] r s =
      Some (QError_ok, fold FormatBulk (slice i j l) (PreFormatMultiBulk (length (slice i j l)) r), s') \<and>
    quiet s s'"
proof -
  from get_list [OF assms(1,2)] obtain ob s' where g: "GetValueByType k QType_list s = (Inr ob, s')"
    "oval ob = VList l" "quiet s s'" by (metis quiet_def)
  obtain a b where ab: "AdjustIndex i j (length l) = (a, b)" by (cases "AdjustIndex i j (length l)")
  note sl = slice_AdjustIndex [OF ab] GetRange_slice [OF ab]
  have r: "a \<le> b \<Longrightarrow> 0 \<le> a \<and> b < int (length l)" using AdjustIndex_bounds [OF ab] by auto
  then have "a \<le> b \<Longrightarrow> length (slice i j l) = nat (b - a + 1)" using sl(1) by auto
  then show ?thesis using g assms(3,4) ab sl r by (cases "a \<le> b") (auto simp: lrange_cmd_def Let_def)
qed

text \<open>LTRIM keeps the slice its indices select, unless it is empty: then the list stays as it was.\<close>

theorem ltrim_keeps_slice:
  assumes "store_ok s" "vis s k = Some (VList l)" "Strtol x = Some i" "Strtol y = Some j"
  shows "\<exists>s'. ltrim_cmd [c, k, x, y] r s = Some (QError_ok, FormatOK r, s') \<and> store_ok s' \<and> frame s s' \<and>
    vis s' = (vis s)(k \<mapsto> VList (if slice i j l = [] then l else slice i j l))"
proof -
  from get_list [OF assms(1,2)] obtain ob s' where g: "GetValueByType k QType_list s = (Inr ob, s')"
    "oval ob = VList l" "obj_ok ob" "store_ok s'" "frame s s'" "vis s' = vis s" "\<not> is_expired s' k" by metis
  obtain a b where ab: "AdjustIndex i j (length l) = (a, b)" by (cases "AdjustIndex i j (length l)")
  note sl = slice_AdjustIndex [OF ab] GetRange_slice [OF ab]
  note p = put_list_step [OF g(4,3) _ g(7)]
  show ?thesis
  proof (cases "a \<le> b")
    case True
    then have r: "0 \<le> a" "b < int (length l)" using AdjustIndex_bounds [OF ab] by auto
    then have "slice i j l = drop (nat a) (take (nat b + 1) l)" "slice i j l \<noteq> []"
      using sl(1) True by (auto simp: take_drop nat_add_distrib nat_diff_distrib)
    then show ?thesis using g(1,2) p(1,2) p(3) frame_trans [OF g(5) p(3)] g(6) assms(3,4) ab sl(2) True r
      by (auto simp: ltrim_cmd_def Let_def)
  next
    case False
    have "(vis s)(k \<mapsto> VList l) = vis s" using assms(2) by auto
    then show ?thesis using g assms(3,4) ab sl False by (auto simp: ltrim_cmd_def Let_def)
  qed
qed

text \<open>Removing from the head: the first so many occurrences go, the rest of the list stays.\<close>

lemma remove_head_splits:
  "remove_head x n l = (l', m) \<Longrightarrow> \<exists>p q. l = p @ q \<and> l' = filter (\<lambda>y. y \<noteq> x) p @ q \<and> m = count_list p x \<and>
     int m = min (max n 0) (int (count_list l x))"
proof (induction x n l arbitrary: l' m rule: remove_head.induct)
  case (2 x n y ys)
  show ?case
  proof (cases "n \<le> 0")
    case True
    then show ?thesis using "2.prems" by (intro exI [of _ "[]"] exI [of _ "y # ys"]) auto
  next
    case False
    obtain l1 m1 where r: "remove_head x (if y = x then n - 1 else n) ys = (l1, m1)"
      by (cases "remove_head x (if y = x then n - 1 else n) ys")
    have "\<exists>p q. ys = p @ q \<and> l1 = filter (\<lambda>y. y \<noteq> x) p @ q \<and> m1 = count_list p x \<and>
        int m1 = min (max (if y = x then n - 1 else n) 0) (int (count_list ys x))"
      using "2.IH" False r by (cases "y = x") auto
    then obtain p q where "ys = p @ q" "l1 = filter (\<lambda>y. y \<noteq> x) p @ q" "m1 = count_list p x"
      "int m1 = min (max (if y = x then n - 1 else n) 0) (int (count_list ys x))" by blast
    then show ?thesis using "2.prems" False r
      by (intro exI [of _ "y # p"] exI [of _ q]) (auto split: if_splits)
  qed
qed simp

lemma remove_tail_dies: "x \<in> set l \<Longrightarrow> 1 < n \<Longrightarrow> remove_tail x n l = None"
  by (induction x n l rule: remove_tail.induct) auto

text \<open>LREM from the head (a count that is not negative, 0 meaning all) removes the first so many
  occurrences and replies how many it removed; everything else keeps its place.\<close>

theorem lrem_from_head:
  assumes "store_ok s" "vis s k = Some (VList l)" "Strtol n = Some i" "0 \<le> i"
  shows "\<exists>p q s'. l = p @ q \<and>
    lrem_cmd [c, k, n, x] r s = Some (QError_ok, FormatInt (int (count_list p x)) r, s') \<and>
    int (count_list p x) = (if i = 0 then int (count_list l x) else min i (int (count_list l x))) \<and>
    store_ok s' \<and> frame s s' \<and> vis s' = (vis s)(k \<mapsto> VList (filter (\<lambda>y. y \<noteq> x) p @ q))"
proof -
  from get_list [OF assms(1,2)] obtain ob s' where g: "GetValueByType k QType_list s = (Inr ob, s')"
    "oval ob = VList l" "obj_ok ob" "store_ok s'" "frame s s'" "vis s' = vis s" "\<not> is_expired s' k" by metis
  let ?n = "if i = 0 then int (length l) else i"
  obtain l' m where m: "remove_head x ?n l = (l', m)" by (cases "remove_head x ?n l")
  from remove_head_splits [OF this] obtain p q where pq: "l = p @ q" "l' = filter (\<lambda>y. y \<noteq> x) p @ q"
    "m = count_list p x" "int m = min (max ?n 0) (int (count_list l x))" by blast
  have "int (count_list l x) \<le> int (length l)" by (simp add: count_le_length)
  then have im: "int m = (if i = 0 then int (count_list l x) else min i (int (count_list l x)))"
    using pq(4) assms(4) by (auto simp: min_def max_def)
  have t: "vtype (oval ob) = QType_list" using g(2) by simp
  note p = put_list_step [OF g(4,3) t g(7), of l']
  let ?s = "put_obj k (ob\<lparr>oval := VList l'\<rparr>) s'"
  have "lrem_cmd [c, k, n, x] r s = Some (QError_ok, FormatInt (int m) r, ?s)"
    using g(1,2) m assms(3,4) by (simp add: lrem_cmd_def)
  then show ?thesis using im pq(1) p(1,2) frame_trans [OF g(5) p(3)] g(6) unfolding pq(2) pq(3) by metis
qed

text \<open>LREM from the tail with a count below -1 brings the server down as soon as the list holds the
  element: after the first erasure the reverse iterator rests on a freed node.\<close>

theorem lrem_from_tail_dies:
  assumes "store_ok s" "vis s k = Some (VList l)" "x \<in> set l" "Strtol n = Some i" "i < -1" "LONG_MIN < i"
  shows "lrem_cmd [c, k, n, x] r s = None"
proof -
  from get_list [OF assms(1,2)] obtain ob s' where g: "GetValueByType k QType_list s = (Inr ob, s')"
    "oval ob = VList l" by metis
  have "wrap64 (- i) = - i" using assms(5,6) by (intro wrap64_id) (simp_all add: LONG_MIN_def LONG_MAX_def)
  then have "remove_tail x (wrap64 (- i)) (rev l) = None" using assms(3,5) by (intro remove_tail_dies) auto
  then show ?thesis using g assms(4,5) by (simp add: lrem_cmd_def)
qed


subsection \<open>Popping and moving\<close>

lemma GenericPop_list:
  assumes "store_ok s" "vis s k = Some (VList l)" "l \<noteq> []"
  obtains s' where "GenericPop k pos s = Some (Inr (elem_of pos l), s')" "store_ok s'" "frame s s'"
    "vis s' = (vis s)(k := if rest_of pos l = [] then None else Some (VList (rest_of pos l)))"
proof -
  from get_list [OF assms(1,2)] obtain ob s1 where g: "GetValueByType k QType_list s = (Inr ob, s1)"
    "oval ob = VList l" "obj_ok ob" "store_ok s1" "frame s s1" "vis s1 = vis s" "\<not> is_expired s1 k" by metis
  have t: "vtype (oval ob) = QType_list" using g(2) by simp
  note p = put_list_step [OF g(4,3) t g(7), of "rest_of pos l"]
  note d = delete_step(1-3) [OF p(1), of k]
  let ?s = "put_obj k (ob\<lparr>oval := VList (rest_of pos l)\<rparr>) s1"
  have "GenericPop k pos s = Some (Inr (elem_of pos l), if rest_of pos l = [] then snd (DeleteKey k ?s) else ?s)"
    using g(1,2) assms(3) by (simp add: GenericPop_def Let_def elem_of_def rest_of_def)
  then show thesis
    by (rule that) (use p d g(6) frame_trans [OF g(5) p(3)] frame_trans [OF frame_trans [OF g(5) p(3)] d(2)] in auto)
qed

lemma GenericPop_empty:
  assumes "store_ok s" "vis s k = Some (VList [])"
  shows "GenericPop k pos s = None"
proof -
  from get_list [OF assms] obtain ob s' where "GetValueByType k QType_list s = (Inr ob, s')" "oval ob = VList []" by metis
  then show ?thesis by (simp add: GenericPop_def)
qed

lemma tail_end: "elem_of Pos_tail l = last l" "rest_of Pos_tail l = butlast l"
  by (simp_all add: elem_of_def rest_of_def)

text \<open>BRPOPLPUSH on a source that has elements takes the last one away and replies with it, but never
  gives it to the destination.\<close>

theorem brpoplpush_loses:
  assumes "store_ok s" "vis s a = Some (VList l)" "l \<noteq> []" "TryStr2Long t = (True, n)"
    and "vis s b = None \<or> lvis s b \<noteq> None" "Current s \<noteq> None"
  shows "\<exists>s'. brpoplpush_cmd [c, a, b, t] r s = Some (QError_ok, FormatBulk (last l) r, s') \<and> store_ok s' \<and>
    vis s' = (vis s)(a := if butlast l = [] then None else Some (VList (butlast l)))"
proof -
  obtain res s1 where g: "GetValueByType b QType_list s = (res, s1)" "res = Inl QError_notExist \<or> (\<exists>v. res = Inr v)"
    "store_ok s1" "frame s s1" "vis s1 = vis s"
  proof (cases "vis s b")
    case None
    from get_no_list [OF assms(1) None] that show thesis by metis
  next
    case (Some v)
    then obtain d where "vis s b = Some (VList d)" using assms(5) by (cases "lvis s b") auto
    from get_list [OF assms(1) this] that show thesis by metis
  qed
  then have "vis s1 a = Some (VList l)" using assms(2) by simp
  obtain s2 where
    s2: "GenericPop a Pos_tail s1 = Some (Inr (last l), s2)" "store_ok s2" "frame s1 s2"
      "vis s2 = (vis s)(a := if butlast l = [] then None else Some (VList (butlast l)))"
    by (rule GenericPop_list [OF g(3) \<open>vis s1 a = Some (VList l)\<close> assms(3), of Pos_tail, unfolded tail_end g(5)])
  have "frame s s2" using frame_trans [OF g(4) s2(3)] .
  then have "Current s2 = Current s" by (auto simp: Current_def frame_def split: option.split)
  then obtain i q where "Current s2 = Some (i, q)" using assms(6) by auto
  then obtain s3 where s3: "upd_current (RewriteCmd [''rpop'', a]) s2 = Some s3" "same_store s2 s3"
    by (auto simp: upd_current_def)
  have "blocked_pop_keys [a] Pos_tail False r s1 = Some (Inl (Some (QError_ok, FormatBulk (last l) r, s3)))"
    using s2(1) s3(1) by simp
  then have "GenericBlockedPop [a] Pos_tail m (Some b) False r s1 = Some (QError_ok, FormatBulk (last l) r, s3)" for m
    by (simp add: GenericBlockedPop_def)
  then have "brpoplpush_cmd [c, a, b, t] r s = Some (QError_ok, FormatBulk (last l) r, s3)"
    using assms(4) g(1,2) by (auto simp: brpoplpush_cmd_def)
  then show ?thesis using s2(2,4) same_store_view(4,5) [OF s3(2)] by auto
qed

text \<open>RPOPLPUSH that takes the last element leaves an empty list at its source, on which the next LPOP
  or RPOP fails its assertion.\<close>

theorem rpoplpush_leaves_empty:
  assumes "store_ok s" "vis s a = Some (VList [x])" "vis s b = None"
  shows "\<exists>s'. rpoplpush_cmd [c, a, b] r s = Some (QError_ok, FormatBulk x r, s') \<and> store_ok s' \<and>
    vis s' = (vis s)(a \<mapsto> VList [], b \<mapsto> VList [x]) \<and> lpop_cmd [c', a] r' s' = None \<and> rpop_cmd [c', a] r' s' = None"
proof -
  have ab: "a \<noteq> b" using assms(2,3) by auto
  from get_list [OF assms(1,2)] obtain v s1 where g: "GetValueByType a QType_list s = (Inr v, s1)"
    "oval v = VList [x]" "store_ok s1" "frame s s1" "vis s1 = vis s" "\<not> is_expired s1 a" by metis
  have "vis s1 b = None" using g(5) assms(3) by simp
  from get_no_list [OF g(3) this] obtain s2 where h: "GetValueByType b QType_list s1 = (Inl QError_notExist, s2)"
    "store_ok s2" "vis s2 = vis s" "\<not> is_expired s2 b" using g(5) by metis
  obtain ob s3 where s3: "SetValue b CreateList s2 = (ob, s3)" by (cases "SetValue b CreateList s2")
  note r3 = SetValue_result [OF s3 h(2) CreateList_ok(1)]
  have v3: "vis s3 = (vis s)(b \<mapsto> VList [])" "\<not> is_expired s3 b" using r3(6,7) h(3,4) by simp_all
  have lo: "\<exists>l. list_of k t = Some l \<and> \<not> is_expired t k \<and> l = l'" if "vis t k = Some (VList l')" for k t l'
    using that by (auto simp: vis_def list_of_def split: if_splits)
  have "vis s3 a = Some (VList [x])" using v3(1) ab assms(2) by simp
  from lo [OF this] have a3: "list_of a s3 = Some [x]" "\<not> is_expired s3 a" by auto
  note p = put_list_spec [OF r3(1) a3, of "[]"]
  have "vis (put_list a [] s3) b = Some (VList [])" using p(4) v3(1) ab by simp
  from lo [OF this] have b4: "list_of b (put_list a [] s3) = Some []" "\<not> is_expired (put_list a [] s3) b" by auto
  note q = put_list_spec [OF p(1) b4, of "[x]"]
  let ?s = "put_list b [x] (put_list a [] s3)"
  have v: "vis ?s = (vis s)(a \<mapsto> VList [], b \<mapsto> VList [x])" using p(4) q(4) v3(1) ab by auto
  then have "vis ?s a = Some (VList [])" using ab by simp
  from GenericPop_empty [OF q(1) this] have "lpop_cmd [c', a] r' ?s = None" "rpop_cmd [c', a] r' ?s = None"
    by (simp_all add: lpop_cmd_def rpop_cmd_def pop_reply_def)
  moreover have "rpoplpush_cmd [c, a, b] r s = Some (QError_ok, FormatBulk x r, ?s)"
    using g(1,2) h(1) s3 a3(1) b4(1) by (simp add: rpoplpush_cmd_def Let_def)
  ultimately show ?thesis using v q(1) by blast
qed


subsection \<open>Witnesses\<close>

lemma one_list: "store_ok (server_with [(k, VList l)])" "vis (server_with [(k, VList l)]) = [k \<mapsto> VList l]"
  using server_with [of "[(k, VList l)]"] by simp_all

theorem lrange_selects_witness:
  "\<exists>s'. lrange_cmd [''lrange'', ''k'', ''-2'', ''9''] (Some []) (server_with [(''k'', VList [''a'', ''b'', ''c''])]) =
      Some (QError_ok, fold FormatBulk [''b'', ''c''] (PreFormatMultiBulk 2 (Some [])), s')"
proof -
  have n: "Strtol ''-2'' = Some (-2)" "Strtol ''9'' = Some 9" "slice (-2) 9 [''a'', ''b'', ''c''] = [''b'', ''c'']"
    by code_simp+
  let ?l = "[''a'', ''b'', ''c'']"
  from lrange_selects [of "server_with [(''k'', VList ?l)]" "''k''" ?l "''-2''" "-2" "''9''" 9 "''lrange''" "Some []"]
  show ?thesis by (auto simp: one_list n numeral_2_eq_2)
qed

theorem ltrim_keeps_slice_witness:
  "\<exists>s'. ltrim_cmd [''ltrim'', ''k'', ''5'', ''9''] (Some []) (server_with [(''k'', VList [''a'', ''b'', ''c''])]) =
      Some (QError_ok, FormatOK (Some []), s') \<and> vis s' ''k'' = Some (VList [''a'', ''b'', ''c''])"
proof -
  have n: "Strtol ''5'' = Some 5" "Strtol ''9'' = Some 9" "slice 5 9 [''a'', ''b'', ''c''] = []"
    by code_simp+
  let ?l = "[''a'', ''b'', ''c'']"
  from ltrim_keeps_slice [of "server_with [(''k'', VList ?l)]" "''k''" ?l "''5''" 5 "''9''" 9 "''ltrim''" "Some []"]
  show ?thesis by (auto simp: one_list n)
qed

theorem lrem_from_head_witness:
  "\<exists>s' m. lrem_cmd [''lrem'', ''k'', ''0'', ''a''] (Some []) (server_with [(''k'', VList [''a'', ''b'', ''a''])]) =
      Some (QError_ok, FormatInt m (Some []), s') \<and> m = 2"
proof -
  have n: "Strtol ''0'' = Some 0" by code_simp
  let ?l = "[''a'', ''b'', ''a'']"
  from lrem_from_head [of "server_with [(''k'', VList ?l)]" "''k''" ?l "''0''" 0 "''lrem''" "''a''" "Some []"]
  show ?thesis by (auto simp: one_list n)
qed

theorem lrem_from_tail_dies_witness:
  "lrem_cmd [''lrem'', ''k'', ''-2'', ''a''] (Some []) (server_with [(''k'', VList [''a'', ''b''])]) = None"
proof -
  have n: "Strtol ''-2'' = Some (-2)" by code_simp
  let ?l = "[''a'', ''b'']"
  from lrem_from_tail_dies [of "server_with [(''k'', VList ?l)]" "''k''" ?l "''a''" "''-2''" "-2" "''lrem''" "Some []"]
  show ?thesis by (simp add: one_list n LONG_MIN_def)
qed

theorem rpoplpush_leaves_empty_witness:
  "\<exists>s'. rpoplpush_cmd [''rpoplpush'', ''a'', ''b''] (Some []) (server_with [(''a'', VList [''x''])]) =
      Some (QError_ok, FormatBulk ''x'' (Some []), s') \<and> lpop_cmd [''lpop'', ''a''] (Some []) s' = None"
  using rpoplpush_leaves_empty [of "server_with [(''a'', VList [''x''])]" "''a''" "''x''" "''b''" "''rpoplpush''" "Some []" "''lpop''" "Some []"]
  by (auto simp: one_list)

definition server_with_client :: "(QString \<times> qvalue) list \<Rightarrow> server" where
  "server_with_client kvs = (server_with kvs)\<lparr>clients := [(1, client_new)], current := Some 1\<rparr>"

lemma server_with_client:
  "store_ok (server_with_client kvs) = store_ok (server_with kvs)" "vis (server_with_client kvs) = vis (server_with kvs)"
  "Current (server_with_client kvs) = Some (1, client_new)"
  using same_store_view(4,5) [of "server_with kvs" "server_with_client kvs"]
  by (simp_all add: server_with_client_def Current_def)

theorem brpoplpush_loses_witness:
  "\<exists>s'. brpoplpush_cmd [''brpoplpush'', ''a'', ''b'', ''1''] (Some []) (server_with_client [(''a'', VList [''x''])]) =
      Some (QError_ok, FormatBulk ''x'' (Some []), s') \<and> vis s' = Map.empty"
proof -
  have n: "TryStr2Long ''1'' = (True, 1)" by code_simp
  have s: "store_ok (server_with_client [(''a'', VList [''x''])])" using one_list(1) by (simp add: server_with_client)
  from brpoplpush_loses [of "server_with_client [(''a'', VList [''x''])]" "''a''" "[''x'']" "''1''" 1 "''b''" "''brpoplpush''" "Some []"]
  show ?thesis using s n by (auto simp: one_list server_with_client)
qed

end
