(* ===== verification/Sets.thy ===== *)
theory Sets
  imports Server Helper
begin

text \<open>
  QedisCore/QSet.cc: the set commands. An \<open>unordered_set\<close> is a list without duplicates, in its
  order of iteration; nothing that is proved depends on that order. The random choice of
  \<open>RandomHashMember\<close> is an argument.
\<close>

abbreviation GET_SET :: "reply \<Rightarrow> (qobject \<Rightarrow> QString list \<Rightarrow> server \<Rightarrow> result) \<Rightarrow> QString \<Rightarrow> server \<Rightarrow> result" where
  "GET_SET r \<equiv> with_obj CastSet QType_set (null_or_error r)"

abbreviation GET_OR_SET_SET :: "reply \<Rightarrow> (qobject \<Rightarrow> QString list \<Rightarrow> server \<Rightarrow> result) \<Rightarrow> QString \<Rightarrow> server \<Rightarrow> result" where
  "GET_OR_SET_SET r \<equiv> with_new CastSet QType_set CreateSet (report r)"

definition put_set :: "QString \<Rightarrow> qobject \<Rightarrow> QString list \<Rightarrow> server \<Rightarrow> server" where
  "put_set key value l = put_obj key (value\<lparr>oval := VSet l\<rparr>)"

subsection \<open>Members\<close>

text \<open>\<open>insert(...).second\<close> and \<open>erase(...)\<close>, counted over a range of parameters.\<close>

fun insert_all :: "QString list \<Rightarrow> QString list \<Rightarrow> nat \<times> QString list" where
  "insert_all [] l = (0, l)"
| "insert_all (x # xs) l =
     (case set_insert x l of
        (fresh, l) \<Rightarrow> (case insert_all xs l of (n, l) \<Rightarrow> (if fresh then n + 1 else n, l)))"

fun erase_all :: "QString list \<Rightarrow> QString list \<Rightarrow> nat \<times> QString list" where
  "erase_all [] l = (0, l)"
| "erase_all (x # xs) l =
     (case erase_all xs (removeAll x l) of (n, l') \<Rightarrow> (if x \<in> set l then n + 1 else n, l'))"

definition sadd_cmd :: handler where
  "sadd_cmd params r =
     GET_OR_SET_SET r
       (\<lambda>value l s. case insert_all (drop 2 params) l of
          (res, l) \<Rightarrow> Some (QError_ok, FormatInt (int res) r, put_set (params ! 1) value l s)) (params ! 1)"

definition scard_cmd :: handler where
  "scard_cmd params r =
     GET_SET r (\<lambda>value l s. Some (QError_ok, FormatInt (int (length l)) r, s)) (params ! 1)"

definition srem_cmd :: handler where
  "srem_cmd params r =
     GET_SET r
       (\<lambda>value l s. case erase_all (drop 2 params) l of
          (res, l) \<Rightarrow>
            let s = put_set (params ! 1) value l s;
                s = (if l = [] then snd (DeleteKey (params ! 1) s) else s)
            in Some (QError_ok, FormatInt (int res) r, s)) (params ! 1)"

definition sismember_cmd :: handler where
  "sismember_cmd params r =
     GET_SET r (\<lambda>value l s. Some (QError_ok, FormatInt (if params ! 2 \<in> set l then 1 else 0) r, s)) (params ! 1)"

definition smembers_cmd :: handler where
  "smembers_cmd params r =
     GET_SET r (\<lambda>value l s. Some (QError_ok, fold FormatBulk l (PreFormatMultiBulk (length l) r), s)) (params ! 1)"

text \<open>SPOP is rewritten as SREM for the log and the slaves.\<close>

definition spop_cmd :: "(QString list \<Rightarrow> QString option) \<Rightarrow> handler" where
  "spop_cmd pick params r =
     GET_SET r
       (\<lambda>value l s. case pick l of
          None \<Rightarrow> Some (QError_notExist, FormatNull r, s)
        | Some x \<Rightarrow>
            let l = removeAll x l;
                s = put_set (params ! 1) value l s;
                s = (if l = [] then snd (DeleteKey (params ! 1) s) else s)
            in map_option (\<lambda>s. (QError_ok, FormatBulk x r, s))
                 (upd_current (RewriteCmd [''srem'', params ! 1, x]) s)) (params ! 1)"

definition srandmember_cmd :: "(QString list \<Rightarrow> QString option) \<Rightarrow> handler" where
  "srandmember_cmd pick params r =
     GET_SET r
       (\<lambda>value l s. Some (QError_ok, (case pick l of None \<Rightarrow> FormatNull r | Some x \<Rightarrow> FormatBulk x r), s)) (params ! 1)"

text \<open>
  SMOVE takes the member out before it looks at the destination: when that has another type, the
  member is gone, the reply says 1 and the error is only returned.
\<close>

definition set_of :: "QString \<Rightarrow> 'a qstore_scheme \<Rightarrow> QString list option" where
  "set_of key s = Option.bind (map_of (cur_db s) key) (CastSet \<circ> oval)"

definition smove_cmd :: handler where
  "smove_cmd params r =
     GET_SET r
       (\<lambda>value l s.
          if params ! 3 \<in> set l then
            (let s = put_set (params ! 1) value (removeAll (params ! 3) l) s;
                 r' = FormatInt 1 r;
                 add = (\<lambda>dst s. case CastSet (oval dst) of
                          None \<Rightarrow> None
                        | Some d \<Rightarrow> Some (QError_ok, r', put_set (params ! 2) dst (snd (set_insert (params ! 3) d)) s))
             in case GetValueByType (params ! 2) QType_set s of
                  (Inr dst, s) \<Rightarrow> add dst s
                | (Inl err, s) \<Rightarrow>
                    if err = QError_notExist then
                      (case SetValue (params ! 2) CreateSet s of (dst, s) \<Rightarrow> add dst s)
                    else Some (err, r', s))
          else Some (QError_ok, FormatInt 0 r, s)) (params ! 1)"

subsection \<open>Set algebra\<close>

definition QSet_diff :: "QString list \<Rightarrow> QString list \<Rightarrow> QString list" where
  "QSet_diff l r = filter (\<lambda>x. x \<notin> set r) l"

definition QSet_inter :: "QString list \<Rightarrow> QString list \<Rightarrow> QString list" where
  "QSet_inter l r = filter (\<lambda>x. x \<in> set r) l"

definition QSet_union :: "QString list \<Rightarrow> QString list \<Rightarrow> QString list" where
  "QSet_union l r = r @ filter (\<lambda>x. x \<notin> set r) l"

datatype SetOperation = SetOperation_diff | SetOperation_inter | SetOperation_union

fun apply_set_op :: "SetOperation \<Rightarrow> QString list \<Rightarrow> QString list \<Rightarrow> QString list" where
  "apply_set_op SetOperation_diff = QSet_diff"
| "apply_set_op SetOperation_inter = QSet_inter"
| "apply_set_op SetOperation_union = QSet_union"

text \<open>
  The result of \<open>_set_operation\<close> is a local set or the set of the destination key, which a source
  key may denote too; \<open>res_get\<close> and \<open>res_put\<close> read and write it. They fail when the destination
  has expired in between: the reference is then to freed memory.
\<close>

definition res_get :: "QString option \<Rightarrow> QString list \<Rightarrow> server \<Rightarrow> QString list option" where
  "res_get dest local s = (case dest of None \<Rightarrow> Some local | Some k \<Rightarrow> set_of k s)"

definition res_put :: "QString option \<Rightarrow> QString list \<Rightarrow> server \<Rightarrow> server option" where
  "res_put dest l s =
     (case dest of
        None \<Rightarrow> Some s
      | Some k \<Rightarrow>
          (case map_of (cur_db s) k of
             None \<Rightarrow> None
           | Some ob \<Rightarrow> (case CastSet (oval ob) of None \<Rightarrow> None | Some _ \<Rightarrow> Some (put_set k ob l s))))"

fun set_op_loop ::
  "SetOperation \<Rightarrow> QString option \<Rightarrow> QString list \<Rightarrow> QString list \<Rightarrow> server \<Rightarrow> (QString list \<times> server) option" where
  "set_op_loop oper dest [] res s = Some (res, s)"
| "set_op_loop oper dest (k # ks) res s =
     (case GetValueByType k QType_set s of
        (Inl err, s) \<Rightarrow>
          if oper = SetOperation_inter then map_option (Pair []) (res_put dest [] s)
          else set_op_loop oper dest ks res s
      | (Inr val, s) \<Rightarrow>
          (case (CastSet (oval val), res_get dest res s) of
             (Some r, Some l) \<Rightarrow>
               (let tmp = apply_set_op oper l r
                in case res_put dest tmp s of
                     None \<Rightarrow> None
                   | Some s \<Rightarrow>
                       if oper \<noteq> SetOperation_union \<and> tmp = [] then Some (tmp, s)
                       else set_op_loop oper dest ks tmp s)
           | _ \<Rightarrow> None))"

text \<open>A missing first key of a union leaves the pointer to its value uninitialised.\<close>

definition set_operation ::
  "SetOperation \<Rightarrow> QString option \<Rightarrow> QString list \<Rightarrow> server \<Rightarrow> (QString list \<times> server) option" where
  "set_operation oper dest ks s =
     (case GetValueByType (hd ks) QType_set s of
        (Inl err, s) \<Rightarrow> if oper \<noteq> SetOperation_union then Some ([], s) else None
      | (Inr value, s) \<Rightarrow>
          (case CastSet (oval value) of
             None \<Rightarrow> None
           | Some l \<Rightarrow>
               (case res_put dest l s of None \<Rightarrow> None | Some s \<Rightarrow> set_op_loop oper dest (tl ks) l s)))"

definition set_query :: "SetOperation \<Rightarrow> handler" where
  "set_query oper params r s =
     (case set_operation oper None (tl params) s of
        None \<Rightarrow> None
      | Some (res, s) \<Rightarrow> Some (QError_ok, fold FormatBulk res (PreFormatMultiBulk (length res) r), s))"

text \<open>The destination gets a new empty set first, and keeps a deadline it had.\<close>

definition set_store :: "SetOperation \<Rightarrow> handler" where
  "set_store oper params r s =
     (case set_operation oper (Some (params ! 1)) (drop 2 params) (snd (SetValue (params ! 1) CreateSet s)) of
        None \<Rightarrow> None
      | Some (_, s) \<Rightarrow>
          (case set_of (params ! 1) s of
             None \<Rightarrow> None
           | Some res \<Rightarrow> Some (QError_ok, FormatInt (int (length res)) r, s)))"

definition sdiff_cmd :: handler where "sdiff_cmd = set_query SetOperation_diff"
definition sinter_cmd :: handler where "sinter_cmd = set_query SetOperation_inter"
definition sunion_cmd :: handler where "sunion_cmd = set_query SetOperation_union"
definition sdiffstore_cmd :: handler where "sdiffstore_cmd = set_store SetOperation_diff"
definition sinterstore_cmd :: handler where "sinterstore_cmd = set_store SetOperation_inter"
definition sunionstore_cmd :: handler where "sunionstore_cmd = set_store SetOperation_union"

text \<open>One page of SSCAN; the buckets of the table are an argument.\<close>

definition SScanKey :: "(QString list \<Rightarrow> QString list list) \<Rightarrow> QString list \<Rightarrow> nat \<Rightarrow> nat \<Rightarrow> nat \<times> QString list" where
  "SScanKey buckets l cursor count = (if l = [] then (0, []) else ScanHashMember (buckets l) cursor count)"

subsection \<open>Sets as values\<close>

lemma CastSet_eq: "CastSet v = Some l \<longleftrightarrow> v = VSet l"
  by (cases v) auto

interpretation set_obj: typed_value QType_set CastSet VSet distinct CreateSet "[]"
proof
  fix v :: qvalue
  show "CastSet v \<noteq> None \<longleftrightarrow> vtype v = QType_set" by (cases v) auto
qed (simp_all add: CastSet_eq CreateSet_def Obj_Reset_def QObject_new_def obj_ok_def)

definition set_view :: "'a qstore_scheme \<Rightarrow> QString \<Rightarrow> QString set" where
  "set_view s k = (case vis s k of Some (VSet l) \<Rightarrow> set l | _ \<Rightarrow> {})"

lemma set_insert_spec:
  "set_insert x l = (b, l') \<Longrightarrow> set l' = insert x (set l) \<and> (distinct l \<longrightarrow> distinct l') \<and> (b \<longleftrightarrow> x \<notin> set l)"
  by (auto simp: set_insert_def split: if_splits)

lemma insert_all_spec:
  "insert_all xs l = (n, l') \<Longrightarrow> distinct l \<Longrightarrow> distinct l' \<and> set l' = set xs \<union> set l \<and> n = card (set xs - set l)"
proof (induction xs l arbitrary: n l' rule: insert_all.induct)
  case (2 x xs l)
  obtain b l1 where b: "set_insert x l = (b, l1)" by (cases "set_insert x l")
  obtain m l2 where m: "insert_all xs l1 = (m, l2)" by (cases "insert_all xs l1")
  note i = set_insert_spec [OF b]
  have l': "l' = l2" "n = (if b then m + 1 else m)" using "2.prems"(1) b m by simp_all
  from "2.IH" [OF b [symmetric] m] i "2.prems"(2)
  have ih: "distinct l2" "set l2 = set xs \<union> set l1" "m = card (set xs - set l1)" by blast+
  have "n = card (set (x # xs) - set l)"
  proof (cases "x \<in> set l")
    case True
    then show ?thesis using l' ih(3) i by (auto simp: insert_absorb)
  next
    case False
    have "set (x # xs) - set l = insert x (set xs - insert x (set l))" using False by auto
    then show ?thesis using l' ih(3) i False by simp
  qed
  then show ?case using l' ih i by auto
qed auto

lemma erase_all_spec:
  "erase_all xs l = (n, l') \<Longrightarrow> l' = filter (\<lambda>x. x \<notin> set xs) l \<and> n = card (set xs \<inter> set l)"
proof (induction xs l arbitrary: n l' rule: erase_all.induct)
  case (2 x xs l)
  obtain m l1 where m: "erase_all xs (removeAll x l) = (m, l1)" by (cases "erase_all xs (removeAll x l)")
  from "2.IH" [OF m] have ih: "l1 = filter (\<lambda>x. x \<notin> set xs) (removeAll x l)" "m = card (set xs \<inter> set (removeAll x l))" by auto
  have e: "set xs \<inter> set (removeAll x l) = (set xs \<inter> set l) - {x}" by auto
  have "n = card (set (x # xs) \<inter> set l)"
  proof (cases "x \<in> set l")
    case True
    then have "set (x # xs) \<inter> set l = insert x ((set xs \<inter> set l) - {x})" by auto
    then have "card (set (x # xs) \<inter> set l) = Suc (card ((set xs \<inter> set l) - {x}))" by (simp add: card.insert_remove)
    then show ?thesis using "2.prems" m ih(2) e True by simp
  next
    case False
    then have "(set xs \<inter> set l) - {x} = set (x # xs) \<inter> set l" by auto
    then show ?thesis using "2.prems" m ih(2) e False by simp
  qed
  moreover have "l' = filter (\<lambda>y. y \<notin> set (x # xs)) l"
    using "2.prems" m ih(1) by (auto simp: removeAll_filter_not_eq intro: filter_cong)
  ultimately show ?case by simp
qed simp

subsection \<open>Invariant\<close>

lemma distinct_insert_all: "insert_all xs l = (n, l') \<Longrightarrow> distinct l \<Longrightarrow> distinct l'"
  using insert_all_spec by blast

lemma distinct_erase_all: "erase_all xs l = (n, l') \<Longrightarrow> distinct l \<Longrightarrow> distinct l'"
  using erase_all_spec [of xs l n l'] by simp

lemma put_set_ok: "store_ok s \<Longrightarrow> obj_ok ob \<Longrightarrow> CastSet (oval ob) = Some x \<Longrightarrow> distinct l \<Longrightarrow> store_ok (put_set k ob l s)"
  unfolding put_set_def by (rule set_obj.put_ok)

lemma CastSet_distinct: "obj_ok ob \<Longrightarrow> CastSet (oval ob) = Some x \<Longrightarrow> distinct x"
  by (rule set_obj.good_prj)

lemma put_set_DeleteKey_ok:
  "store_ok s \<Longrightarrow> obj_ok ob \<Longrightarrow> CastSet (oval ob) = Some x \<Longrightarrow> distinct l \<Longrightarrow>
    store_ok (if b then snd (DeleteKey k' (put_set k ob l s)) else put_set k ob l s)"
  by (simp add: put_set_ok store_ok_DeleteKey)

lemma safe_sadd_cmd [safe_cmds]: "safe_cmd sadd_cmd"
proof (rule safe_cmdI)
  fix params r and s :: server
  assume s: "store_ok s"
  have hit: "safe_result (case insert_all ys l of (res, l) \<Rightarrow> Some (QError_ok, f res, put_set k ob l s'))"
    if v: "store_ok s'" "obj_ok ob" "CastSet (oval ob) = Some l" for ys l k ob s' and f :: "nat \<Rightarrow> reply"
    using distinct_insert_all [of ys l] CastSet_distinct [OF v(2,3)] put_set_ok [OF v]
    by (cases "insert_all ys l") simp
  show "safe_result (sadd_cmd params r s)"
    unfolding sadd_cmd_def by (rule safe_with_new) (simp_all add: s hit set_obj.new_ok safe_report)
qed

lemma safe_reads [safe_cmds]: "safe_cmd scard_cmd" "safe_cmd sismember_cmd" "safe_cmd smembers_cmd" "safe_cmd (srandmember_cmd pick)"
  by (auto simp: safe_cmd_def scard_cmd_def sismember_cmd_def smembers_cmd_def srandmember_cmd_def intro!: safe_intros)

lemma safe_srem_cmd [safe_cmds]: "safe_cmd srem_cmd"
proof (rule safe_cmdI)
  fix params r and s :: server
  assume s: "store_ok s"
  have hit: "safe_result (case erase_all ys l of (res, l) \<Rightarrow>
      Some (QError_ok, f res, if l = [] then snd (DeleteKey k (put_set k ob l s')) else put_set k ob l s'))"
    if v: "store_ok s'" "obj_ok ob" "CastSet (oval ob) = Some l" for ys l k ob s' and f :: "nat \<Rightarrow> reply"
    using distinct_erase_all [of ys l] CastSet_distinct [OF v(2,3)] put_set_ok [OF v] put_set_DeleteKey_ok [OF v]
    by (cases "erase_all ys l") (simp add: store_ok_DeleteKey)
  show "safe_result (srem_cmd params r s)"
    unfolding srem_cmd_def Let_def by (rule safe_with_obj) (simp_all add: s hit safe_null_or_error)
qed

lemma upd_current_store_ok: "upd_current f s = Some s' \<Longrightarrow> store_ok s' = store_ok (s :: server)"
  using same_store_view(5) [of s s'] by (auto simp: upd_current_def split: option.splits)

lemma safe_upd_current: "store_ok s \<Longrightarrow> safe_result (map_option (\<lambda>s. (e, r, s)) (upd_current f s))"
  by (cases "upd_current f s") (auto simp: upd_current_store_ok)

lemma safe_spop_cmd [safe_cmds]: "safe_cmd (spop_cmd pick)"
proof (rule safe_cmdI)
  fix params r and s :: server
  assume s: "store_ok s"
  have hit: "store_ok (put_set k ob (removeAll x l) s') \<and> store_ok (snd (DeleteKey k (put_set k ob [] s')))"
    if v: "store_ok s'" "obj_ok ob" "CastSet (oval ob) = Some l" for x l k ob s'
    using put_set_ok [OF v] by (simp add: distinct_removeAll CastSet_distinct [OF v(2,3)] store_ok_DeleteKey)
  show "safe_result (spop_cmd pick params r s)"
    unfolding spop_cmd_def Let_def
    by (rule safe_with_obj) (auto simp: s safe_null_or_error hit intro!: safe_upd_current split: option.split)
qed

lemma safe_smove_cmd [safe_cmds]: "safe_cmd smove_cmd"
proof (rule safe_cmdI)
  fix params r and s :: server
  assume s: "store_ok s"
  have add: "safe_result (case CastSet (oval dst) of None \<Rightarrow> None
      | Some d \<Rightarrow> Some (e, r', put_set k dst (snd (set_insert x d)) s))" if "store_ok s" "obj_ok dst" for e r' k dst x s
  proof (cases "CastSet (oval dst)")
    case (Some d)
    obtain b d' where "set_insert x d = (b, d')" by (cases "set_insert x d")
    with Some set_insert_spec [OF this] show ?thesis using put_set_ok [OF that Some] CastSet_distinct [OF that(2) Some] by simp
  qed simp
  have rem: "store_ok (put_set k ob (removeAll x l) s')"
    if v: "store_ok s'" "obj_ok ob" "CastSet (oval ob) = Some l" for x l k ob s'
    by (rule put_set_ok [OF v]) (simp add: distinct_removeAll CastSet_distinct [OF v(2,3)])
  show "safe_result (smove_cmd params r s)"
    unfolding smove_cmd_def Let_def
    by (rule safe_with_obj) (auto simp: s intro!: safe_null_or_error safe_get safe_set rem add set_obj.new_ok)
qed

lemma cur_obj_ok: "store_ok s \<Longrightarrow> map_of (cur_db s) k = Some ob \<Longrightarrow> obj_ok ob"
  by (rule db_ok_map_of [OF store_ok_current(3)])

lemma res_put_ok: "res_put dest l s = Some s' \<Longrightarrow> store_ok s \<Longrightarrow> distinct l \<Longrightarrow> store_ok s'"
  unfolding res_put_def by (auto split: option.splits dest: cur_obj_ok put_set_ok)

lemma set_of_distinct: "store_ok s \<Longrightarrow> set_of k s = Some l \<Longrightarrow> distinct l"
  by (auto simp: set_of_def bind_eq_Some_conv dest: cur_obj_ok CastSet_distinct)

lemma apply_set_op_spec:
  "distinct l \<Longrightarrow> distinct r \<Longrightarrow> distinct (apply_set_op oper l r) \<and>
    set (apply_set_op oper l r) =
      (case oper of SetOperation_diff \<Rightarrow> set l - set r | SetOperation_inter \<Rightarrow> set l \<inter> set r
       | SetOperation_union \<Rightarrow> set l \<union> set r)"
  by (cases oper) (auto simp: QSet_diff_def QSet_inter_def QSet_union_def)

lemma set_op_loop_ok:
  "set_op_loop oper dest ks res s = Some (res', s') \<Longrightarrow> store_ok s \<Longrightarrow> distinct res \<Longrightarrow> store_ok s' \<and> distinct res'"
proof (induction ks arbitrary: res s)
  case (Cons k ks)
  obtain x s1 where g: "GetValueByType k QType_set s = (x, s1)" by (cases "GetValueByType k QType_set s")
  note gd = g [unfolded GetValueByType_def]
  show ?case
  proof (cases x)
    case (Inl e)
    then have s1: "store_ok s1" using GetValueByType_Inl(2) gd Cons.prems(2) by blast
    show ?thesis
    proof (cases "oper = SetOperation_inter")
      case True
      then show ?thesis using Cons.prems(1) g Inl res_put_ok [OF _ s1, of dest "[]"] by auto
    next
      case False
      then show ?thesis using Cons.prems(1,3) g Inl Cons.IH [OF _ s1, of res] by simp
    qed
  next
    case (Inr v)
    note r = GetValueByType_Inr [OF gd [unfolded Inr] Cons.prems(2)]
    obtain rv l s2 where c: "CastSet (oval v) = Some rv" "res_get dest res s1 = Some l"
      "res_put dest (apply_set_op oper l rv) s1 = Some s2"
      using Cons.prems(1) g Inr by (auto simp: Let_def split: option.splits)
    have d: "distinct rv" "distinct l"
      using CastSet_distinct [OF r(6) c(1)] c(2) Cons.prems(3) set_of_distinct [OF r(2)]
      by (auto simp: res_get_def split: option.splits)
    note a = apply_set_op_spec [OF d(2,1), of oper]
    have s2: "store_ok s2" using res_put_ok [OF c(3) r(2)] a by blast
    then show ?thesis using Cons.prems(1) g Inr c a Cons.IH [OF _ s2] by (auto simp: Let_def split: if_splits)
  qed
qed simp

lemma set_operation_ok: "set_operation oper dest ks s = Some (res, s') \<Longrightarrow> store_ok s \<Longrightarrow> store_ok s' \<and> distinct res"
proof -
  assume o: "set_operation oper dest ks s = Some (res, s')" and s: "store_ok s"
  obtain x s1 where g: "GetValueByType (hd ks) QType_set s = (x, s1)" by (cases "GetValueByType (hd ks) QType_set s")
  note gd = g [unfolded GetValueByType_def]
  show ?thesis
  proof (cases x)
    case (Inl e)
    then show ?thesis using o g GetValueByType_Inl(2) gd s by (auto simp: set_operation_def split: if_splits)
  next
    case (Inr v)
    note r = GetValueByType_Inr [OF gd [unfolded Inr] s]
    obtain l s2 where c: "CastSet (oval v) = Some l" "res_put dest l s1 = Some s2"
      "set_op_loop oper dest (tl ks) l s2 = Some (res, s')"
      using o g Inr by (auto simp: set_operation_def split: option.splits)
    have "distinct l" using CastSet_distinct [OF r(6) c(1)] .
    with set_op_loop_ok [OF c(3) res_put_ok [OF c(2) r(2)]] show ?thesis by blast
  qed
qed

lemma safe_set_query: "safe_cmd (set_query oper)"
  by (auto simp: safe_cmd_def set_query_def split: option.split dest: set_operation_ok)

lemma safe_set_store: "safe_cmd (set_store oper)"
  by (auto simp: safe_cmd_def set_store_def split: option.split dest!: set_operation_ok
      intro!: store_ok_SetValue set_obj.new_ok)

lemma safe_set_algebra [safe_cmds]: "safe_cmd sdiff_cmd" "safe_cmd sinter_cmd" "safe_cmd sunion_cmd"
  "safe_cmd sdiffstore_cmd" "safe_cmd sinterstore_cmd" "safe_cmd sunionstore_cmd"
  by (simp_all add: sdiff_cmd_def sinter_cmd_def sunion_cmd_def sdiffstore_cmd_def sinterstore_cmd_def
      sunionstore_cmd_def safe_set_query safe_set_store)

subsection \<open>Set algebra as an interface\<close>

text \<open>
  A representation of sets with three binary operations, and what folding one of them over a list of
  operands yields. The early exit of the loop on an empty intermediate result is sound for the two
  operations that never add elements.
\<close>

locale set_algebra =
  fixes ok :: "'s \<Rightarrow> bool" and abs :: "'s \<Rightarrow> 'e set"
    and diff inter union :: "'s \<Rightarrow> 's \<Rightarrow> 's"
  assumes diff: "ok l \<Longrightarrow> ok r \<Longrightarrow> ok (diff l r) \<and> abs (diff l r) = abs l - abs r"
    and inter: "ok l \<Longrightarrow> ok r \<Longrightarrow> ok (inter l r) \<and> abs (inter l r) = abs l \<inter> abs r"
    and union: "ok l \<Longrightarrow> ok r \<Longrightarrow> ok (union l r) \<and> abs (union l r) = abs l \<union> abs r"
begin

lemma fold_diff: "ok l \<Longrightarrow> \<forall>r \<in> set rs. ok r \<Longrightarrow> ok (foldl diff l rs) \<and> abs (foldl diff l rs) = abs l - \<Union> (abs ` set rs)"
  by (induction rs arbitrary: l) (auto simp: diff)

lemma fold_inter: "ok l \<Longrightarrow> \<forall>r \<in> set rs. ok r \<Longrightarrow> ok (foldl inter l rs) \<and> abs (foldl inter l rs) = abs l \<inter> \<Inter> (abs ` set rs)"
  by (induction rs arbitrary: l) (auto simp: inter)

lemma fold_union: "ok l \<Longrightarrow> \<forall>r \<in> set rs. ok r \<Longrightarrow> ok (foldl union l rs) \<and> abs (foldl union l rs) = abs l \<union> \<Union> (abs ` set rs)"
  by (induction rs arbitrary: l) (auto simp: union)

lemma fold_empty:
  "ok l \<Longrightarrow> \<forall>r \<in> set rs. ok r \<Longrightarrow> abs l = {} \<Longrightarrow> abs (foldl diff l rs) = {} \<and> abs (foldl inter l rs) = {}"
  by (simp add: fold_diff fold_inter)

end

interpretation qset: set_algebra distinct set QSet_diff QSet_inter QSet_union
  by unfold_locales (auto simp: QSet_diff_def QSet_inter_def QSet_union_def)

subsection \<open>Queries\<close>

definition set_list :: "'a qstore_scheme \<Rightarrow> QString \<Rightarrow> QString list" where
  "set_list s k = (case Option.bind (vis s k) CastSet of None \<Rightarrow> [] | Some l \<Rightarrow> l)"

lemma set_view_list: "set_view s k = set (set_list s k)"
  by (simp add: set_view_def set_list_def split: option.split qvalue.split)

lemma fetch_set:
  assumes "store_ok s"
  obtains (none) e s' where "GetValueByType k QType_set s = (Inl e, s')" "quiet s s'" "set_list s k = []"
      "\<not> is_expired s' k" "Option.bind (vis s k) CastSet = None"
  | (some) ob s' l where "GetValueByType k QType_set s = (Inr ob, s')" "quiet s s'" "CastSet (oval ob) = Some l"
      "vis s k = Some (VSet l)" "set_list s k = l" "distinct l" "obj_ok ob" "\<not> is_expired s' k"
proof (cases rule: set_obj.get_cases [OF assms, of k])
  case (1 e s')
  then show thesis by (intro none) (simp_all add: set_list_def)
next
  case (2 ob s' l)
  then have "oval ob = VSet l" by (simp add: CastSet_eq)
  then show thesis using 2 CastSet_distinct by (intro some [of ob s' l]) (simp_all add: set_list_def)
qed

lemma fetch_known:
  assumes "store_ok s" "vis s k = Some (VSet l)"
  obtains ob s' where "GetValueByType k QType_set s = (Inr ob, s')" "quiet s s'" "CastSet (oval ob) = Some l" "obj_ok ob"
  using assms(1)
proof (cases rule: fetch_set [of _ k])
  case (none e s')
  then show thesis using assms(2) by simp
next
  case (some ob s' l')
  then show thesis using assms(2) by (intro that) simp_all
qed

lemma foldl_set_cong:
  assumes "distinct l" "distinct l'" "set l = set l'" "\<forall>r \<in> set rs. distinct r"
  shows "set (foldl (apply_set_op oper) l rs) = set (foldl (apply_set_op oper) l' rs)"
  by (cases oper) (use assms in \<open>simp_all add: qset.fold_diff qset.fold_inter qset.fold_union\<close>)

lemma foldl_set_empty:
  "\<forall>r \<in> set rs. distinct r \<Longrightarrow> oper \<noteq> SetOperation_union \<Longrightarrow> set (foldl (apply_set_op oper) [] rs) = {}"
  using qset.fold_empty [of "[]" rs] by (cases oper) simp_all

lemma set_list_distinct: "store_ok s \<Longrightarrow> distinct (set_list s k)"
  by (erule fetch_set [where k = k]) simp_all

lemma quiet_set_list: "quiet s s' \<Longrightarrow> set_list s' = set_list s"
  by (simp add: quiet_def set_list_def fun_eq_iff)

lemma set_op_loop_fold:
  assumes "store_ok s" "distinct l"
  shows "\<exists>res s'. set_op_loop oper None ks l s = Some (res, s') \<and> quiet s s' \<and> distinct res \<and>
    set res = set (foldl (apply_set_op oper) l (map (set_list s) ks))"
  using assms
proof (induction ks arbitrary: l s)
  case (Cons k ks)
  note d = set_list_distinct [OF Cons.prems(1)]
  have ds: "\<forall>r \<in> set (map (set_list s) ks). distinct r" using d by simp
  from Cons.prems(1) show ?case
  proof (cases rule: fetch_set [of _ k])
    case (none e s1)
    show ?thesis
    proof (cases "oper = SetOperation_inter")
      case True
      then have "apply_set_op oper l [] = []" by (simp add: QSet_inter_def)
      then show ?thesis using True none foldl_set_empty [OF ds, of oper]
        by (intro exI [of _ "[]"] exI [of _ s1]) (simp add: res_put_def)
    next
      case False
      have "apply_set_op oper l [] = l \<or> set (apply_set_op oper l []) = set l \<and> distinct (apply_set_op oper l [])"
        using False Cons.prems(2) by (cases oper) (simp_all add: QSet_diff_def QSet_union_def)
      then have e: "set (foldl (apply_set_op oper) (apply_set_op oper l []) (map (set_list s) ks)) =
          set (foldl (apply_set_op oper) l (map (set_list s) ks))"
        using foldl_set_cong [OF _ Cons.prems(2) _ ds] by metis
      from Cons.IH [of s1 l] Cons.prems(2) none(2) obtain res s2 where
        "set_op_loop oper None ks l s1 = Some (res, s2)" "quiet s1 s2" "distinct res"
        "set res = set (foldl (apply_set_op oper) l (map (set_list s) ks))"
        by (auto simp: quiet_def quiet_set_list [OF none(2)])
      then show ?thesis using False none e quiet_trans by (intro exI [of _ res] exI [of _ s2]) auto
    qed
  next
    case (some ob s1 r)
    let ?t = "apply_set_op oper l r"
    have t: "distinct ?t" using apply_set_op_spec [OF Cons.prems(2) some(6)] by blast
    show ?thesis
    proof (cases "oper \<noteq> SetOperation_union \<and> ?t = []")
      case True
      then show ?thesis using some foldl_set_empty [OF ds, of oper]
        by (intro exI [of _ "[]"] exI [of _ s1]) (simp add: res_put_def res_get_def)
    next
      case False
      from Cons.IH [of s1 ?t] t some(2) obtain res s2 where
        "set_op_loop oper None ks ?t s1 = Some (res, s2)" "quiet s1 s2" "distinct res"
        "set res = set (foldl (apply_set_op oper) ?t (map (set_list s) ks))"
        by (auto simp: quiet_def quiet_set_list [OF some(2)])
      then show ?thesis using False some quiet_trans
        by (intro exI [of _ res] exI [of _ s2]) (auto simp: res_put_def res_get_def Let_def)
    qed
  qed
qed auto



subsection \<open>Single sets\<close>

lemma put_set_step:
  assumes "store_ok s" "obj_ok ob" "oval ob = VSet l'" "distinct l" "\<not> is_expired s k"
  shows "store_ok (put_set k ob l s)" "vis (put_set k ob l s) = (vis s)(k \<mapsto> VSet l)" "frame s (put_set k ob l s)"
    "\<not> is_expired (put_set k ob l s) k"
  using set_obj.put_value [OF assms] by (simp_all add: put_set_def)

text \<open>SADD adds its members and replies how many of them are new; SISMEMBER then says 1 for exactly the
  members the set had and the ones added.\<close>

theorem sadd_sismember:
  assumes "store_ok s" "vis s k = None \<or> Option.bind (vis s k) CastSet \<noteq> None"
  shows "\<exists>s1 s2 l. sadd_cmd (c # k # xs) r s =
      Some (QError_ok, FormatInt (int (card (set xs - set_view s k))) r, s1) \<and>
    store_ok s1 \<and> frame s s1 \<and> vis s1 = (vis s)(k \<mapsto> VSet l) \<and> set l = set_view s k \<union> set xs \<and>
    sismember_cmd [c', k, x] r' s1 =
      Some (QError_ok, FormatInt (if x \<in> set_view s k \<or> x \<in> set xs then 1 else 0) r', s2) \<and> quiet s1 s2"
proof -
  have "vis s k = None \<and> set_list s k = [] \<or> vis s k = Some (VSet (set_list s k))"
    using assms(2) by (auto simp: set_list_def CastSet_eq bind_eq_Some_conv)
  from set_obj.with_new_get [OF assms(1) this] obtain ob s1 where
    g: "\<And>miss hit. with_new CastSet QType_set CreateSet miss hit k s = hit ob (set_list s k) s1" "store_ok s1"
      "frame s s1" "vis s1 = (vis s)(k \<mapsto> VSet (set_list s k))" "oval ob = VSet (set_list s k)" "obj_ok ob"
      "distinct (set_list s k)" "\<not> is_expired s1 k" by metis
  obtain n l where l: "insert_all xs (set_list s k) = (n, l)" by (cases "insert_all xs (set_list s k)")
  have i: "distinct l" "set l = set xs \<union> set_view s k" "n = card (set xs - set_view s k)"
    using insert_all_spec [OF l g(7)] by (simp_all add: set_view_list)
  let ?s = "put_set k ob l s1"
  note p = put_set_step [OF g(2,6,5) i(1) g(8)]
  have add: "sadd_cmd (c # k # xs) r s = Some (QError_ok, FormatInt (int n) r, ?s)" by (simp add: sadd_cmd_def g(1) l)
  have v: "vis ?s k = Some (VSet l)" using p(2) by simp
  from set_obj.with_obj_hit [OF p(1) v] obtain ob2 s2 where
    h: "\<And>miss hit. with_obj CastSet QType_set miss hit k ?s = hit ob2 l s2" "quiet ?s s2" by metis
  have "sismember_cmd [c', k, x] r' ?s = Some (QError_ok, FormatInt (if x \<in> set l then 1 else 0) r', s2)"
    by (simp add: sismember_cmd_def h(1))
  then show ?thesis using add i p(1,2) g(4) frame_trans [OF g(3) p(3)] h(2)
    by (intro exI [of _ ?s] exI [of _ s2] exI [of _ l]) (auto simp: disj_commute)
qed

text \<open>SREM replies how many of its arguments were members, and deletes the key when nothing is left.\<close>

theorem srem_removes:
  assumes "store_ok s" "vis s k = Some (VSet l)"
  shows "\<exists>s' l'. srem_cmd (c # k # xs) r s = Some (QError_ok, FormatInt (int (card (set xs \<inter> set l))) r, s') \<and>
    store_ok s' \<and> frame s s' \<and> l' = filter (\<lambda>x. x \<notin> set xs) l \<and>
    vis s' = (vis s)(k := if l' = [] then None else Some (VSet l'))"
proof -
  from set_obj.with_obj_hit [OF assms] obtain ob s1 where
    g: "\<And>miss hit. with_obj CastSet QType_set miss hit k s = hit ob l s1" "store_ok s1" "frame s s1" "vis s1 = vis s"
      "oval ob = VSet l" "obj_ok ob" "distinct l" "\<not> is_expired s1 k" by metis
  obtain n l' where l: "erase_all xs l = (n, l')" by (cases "erase_all xs l")
  note e = erase_all_spec [OF l]
  have "distinct l'" using e g(7) by simp
  note p = put_set_step [OF g(2,6,5) this g(8)]
  let ?s = "if l' = [] then snd (DeleteKey k (put_set k ob l' s1)) else put_set k ob l' s1"
  have "srem_cmd (c # k # xs) r s = Some (QError_ok, FormatInt (int n) r, ?s)" by (simp add: srem_cmd_def g(1) l Let_def)
  moreover have "store_ok ?s" "frame s ?s" "vis ?s = (vis s)(k := if l' = [] then None else Some (VSet l'))"
    using p g(4) delete_step(1-3) [OF p(1), of k] frame_trans [OF g(3) p(3)]
      frame_trans [OF frame_trans [OF g(3) p(3)]] by auto
  ultimately show ?thesis using e by blast
qed

text \<open>SMOVE to a key of another type replies 1, and the member is in no set afterwards.\<close>

theorem smove_wrong_type_loses:
  assumes "store_ok s" "vis s a = Some (VSet l)" "x \<in> set l" "vis s b = Some v" "vtype v \<noteq> QType_set"
  shows "\<exists>s'. smove_cmd [c, a, b, x] r s = Some (QError_type, FormatInt 1 r, s') \<and> store_ok s' \<and>
    vis s' = (vis s)(a \<mapsto> VSet (removeAll x l))"
proof -
  from set_obj.with_obj_hit [OF assms(1,2)] obtain ob s1 where
    g: "\<And>miss hit. with_obj CastSet QType_set miss hit a s = hit ob l s1" "store_ok s1" "vis s1 = vis s"
      "oval ob = VSet l" "obj_ok ob" "distinct l" "\<not> is_expired s1 a" by metis
  have "distinct (removeAll x l)" using g(6) by (simp add: distinct_removeAll)
  note p = put_set_step [OF g(2,5,4) this g(7)]
  let ?s = "put_set a ob (removeAll x l) s1"
  have "a \<noteq> b" using assms(2,4,5) by auto
  then have v: "vis ?s b = Some v" using p(2) g(3) assms(4) by simp
  from p(1) obtain s2 where s2: "GetValueByType b QType_set ?s = (Inl QError_type, s2)" "store_ok s2" "vis s2 = vis ?s"
  proof (cases rule: set_obj.get_cases [of _ b])
    case (miss e s')
    then show thesis using v by (intro that [of s']) (simp_all add: quiet_def)
  next
    case (hit ob2 s' y)
    then show thesis using v assms(5) by (auto simp: CastSet_eq)
  qed
  then have "smove_cmd [c, a, b, x] r s = Some (QError_type, FormatInt 1 r, s2)"
    using assms(3) by (simp add: smove_cmd_def g(1))
  then show ?thesis using s2 p(2) g(3) by auto
qed

text \<open>SUNION whose first key is missing, or no set, reads an uninitialised pointer.\<close>

theorem sunion_missing_first_dies:
  assumes "store_ok s" "Option.bind (vis s k) CastSet = None"
  shows "sunion_cmd (c # k # ks) r s = None"
  using assms(1)
proof (cases rule: fetch_set [of _ k])
  case (none e s')
  then show ?thesis by (simp add: sunion_cmd_def set_query_def set_operation_def)
next
  case (some ob s' l)
  then show ?thesis using assms(2) by simp
qed


subsection \<open>Stores\<close>

lemma vis_set_of: "vis s k = Some (VSet l) \<Longrightarrow> set_of k s = Some l"
  by (auto simp: vis_def set_of_def split: if_splits)

lemma res_put_dest:
  assumes "store_ok s" "vis s d = Some (VSet l)" "distinct l'"
  obtains s' where "res_put (Some d) l' s = Some s'" "store_ok s'" "frame s s'" "vis s' = (vis s)(d \<mapsto> VSet l')"
proof -
  from assms(2) obtain ob where ob: "map_of (cur_db s) d = Some ob" "oval ob = VSet l" "\<not> is_expired s d"
    by (auto simp: vis_def split: if_splits)
  note p = put_set_step [OF assms(1) cur_obj_ok [OF assms(1) ob(1)] ob(2) assms(3) ob(3)]
  show thesis by (rule that [of "put_set d ob l' s"]) (use p ob in \<open>simp_all add: res_put_def\<close>)
qed

lemma set_op_loop_dest:
  assumes "store_ok s" "vis s d = Some (VSet l)" "distinct l" "d \<notin> set ks"
  shows "\<exists>res s'. set_op_loop oper (Some d) ks l s = Some (res, s') \<and> store_ok s' \<and> frame s s' \<and>
    vis s' = (vis s)(d \<mapsto> VSet res) \<and> distinct res \<and>
    set res = set (foldl (apply_set_op oper) l (map (set_list s) ks))"
  using assms
proof (induction ks arbitrary: l s)
  case Nil
  then show ?case by (intro exI [of _ l] exI [of _ s]) auto
next
  case (Cons k ks)
  have ds: "\<forall>r \<in> set (map (set_list s) ks). distinct r" using set_list_distinct [OF Cons.prems(1)] by simp
  from Cons.prems(1) show ?case
  proof (cases rule: fetch_set [of _ k])
    case (none e s1)
    then have s1: "store_ok s1" "vis s1 = vis s" "frame s s1" by (simp_all add: quiet_def)
    show ?thesis
    proof (cases "oper = SetOperation_inter")
      case True
      then have e: "apply_set_op oper l [] = []" by (simp add: QSet_inter_def)
      from s1 Cons.prems(2) have "vis s1 d = Some (VSet l)" by simp
      from res_put_dest [OF s1(1) this, of "[]"] obtain s2 where
        "res_put (Some d) [] s1 = Some s2" "store_ok s2" "frame s1 s2" "vis s2 = (vis s1)(d \<mapsto> VSet [])" by auto
      then show ?thesis using True none(1,3) e foldl_set_empty [OF ds, of oper] s1 frame_trans
        by (intro exI [of _ "[]"] exI [of _ s2]) auto
    next
      case False
      have "apply_set_op oper l [] = l \<or> set (apply_set_op oper l []) = set l \<and> distinct (apply_set_op oper l [])"
        using False Cons.prems(3) by (cases oper) (simp_all add: QSet_diff_def QSet_union_def)
      then have e: "set (foldl (apply_set_op oper) (apply_set_op oper l []) (map (set_list s) ks)) =
          set (foldl (apply_set_op oper) l (map (set_list s) ks))"
        using foldl_set_cong [OF _ Cons.prems(3) _ ds] by metis
      from Cons.IH [of s1 l] Cons.prems s1 obtain res s2 where
        r: "set_op_loop oper (Some d) ks l s1 = Some (res, s2)" "store_ok s2" "frame s1 s2"
        "vis s2 = (vis s)(d \<mapsto> VSet res)" "distinct res"
        "set res = set (foldl (apply_set_op oper) l (map (set_list s) ks))"
        by (auto simp: quiet_set_list [OF none(2)] fun_upd_def)
      then show ?thesis using False none(1,3) e frame_trans [OF s1(3) r(3)]
        by (intro exI [of _ res] exI [of _ s2]) auto
    qed
  next
    case (some ob s1 r)
    then have s1: "store_ok s1" "vis s1 = vis s" "frame s s1" by (simp_all add: quiet_def)
    let ?t = "apply_set_op oper l r"
    have t: "distinct ?t" using apply_set_op_spec [OF Cons.prems(3) some(6)] by blast
    have v: "vis s1 d = Some (VSet l)" using s1 Cons.prems(2) by simp
    from res_put_dest [OF s1(1) v t] obtain s2 where
      s2: "res_put (Some d) ?t s1 = Some s2" "store_ok s2" "frame s1 s2" "vis s2 = (vis s)(d \<mapsto> VSet ?t)"
      using s1(2) by metis
    have f: "frame s s2" using frame_trans [OF s1(3) s2(3)] .
    have g: "res_get (Some d) l s1 = Some l" using vis_set_of [OF v] by (simp add: res_get_def)
    show ?thesis
    proof (cases "oper \<noteq> SetOperation_union \<and> ?t = []")
      case True
      then show ?thesis using some(1,3,5) g s2 f foldl_set_empty [OF ds, of oper]
        by (intro exI [of _ "[]"] exI [of _ s2]) (auto simp: Let_def)
    next
      case False
      have sl: "map (set_list s2) ks = map (set_list s) ks"
        using Cons.prems(4) s2(4) by (auto simp: set_list_def)
      from Cons.IH [of s2 ?t] t s2(2,4) Cons.prems(4) obtain res s3 where
        r: "set_op_loop oper (Some d) ks ?t s2 = Some (res, s3)" "store_ok s3" "frame s2 s3"
        "vis s3 = (vis s)(d \<mapsto> VSet res)" "distinct res"
        "set res = set (foldl (apply_set_op oper) ?t (map (set_list s) ks))"
        unfolding sl by (auto simp: fun_upd_def cong: if_cong)
      then show ?thesis using False some(1,3,5) g s2(1) frame_trans [OF f r(3)]
        by (intro exI [of _ res] exI [of _ s3]) (auto simp: Let_def)
    qed
  qed
qed


text \<open>SDIFFSTORE, SINTERSTORE and SUNIONSTORE leave at a destination that is no source, and has no
  deadline that has passed, the set the query would reply, even when it is empty, and reply its size.\<close>

theorem set_store_correct:
  assumes "store_ok s" "\<not> is_expired s d" "d \<notin> set (k # ks)" "vis s k = Some (VSet l)"
  shows "\<exists>res s'. set_store oper (c # d # k # ks) r s = Some (QError_ok, FormatInt (int (length res)) r, s') \<and>
    store_ok s' \<and> frame s s' \<and> vis s' = (vis s)(d \<mapsto> VSet res) \<and> distinct res \<and>
    set res = (case oper of
        SetOperation_diff \<Rightarrow> set_view s k - (\<Union>k \<in> set ks. set_view s k)
      | SetOperation_inter \<Rightarrow> set_view s k \<inter> (\<Inter>k \<in> set ks. set_view s k)
      | SetOperation_union \<Rightarrow> set_view s k \<union> (\<Union>k \<in> set ks. set_view s k))"
proof -
  obtain ob s1 where s1: "SetValue d CreateSet s = (ob, s1)" by (cases "SetValue d CreateSet s")
  note r1 = SetValue_result [OF s1 assms(1) set_obj.new_ok(1)]
  have v1: "vis s1 = (vis s)(d \<mapsto> VSet [])" using r1(6) assms(2) set_obj.new_ok(2) by simp
  have "vis s1 k = Some (VSet l)" using v1 assms(3,4) by auto
  from fetch_known [OF r1(1) this] obtain v s2 where
    g: "GetValueByType k QType_set s1 = (Inr v, s2)" "quiet s1 s2" "CastSet (oval v) = Some l" "obj_ok v" .
  have v2: "vis s2 = (vis s)(d \<mapsto> VSet [])" "store_ok s2" "frame s s2"
    using g(2) v1 frame_trans [OF r1(2)] by (auto simp: quiet_def)
  have dl: "distinct l" using CastSet_distinct [OF g(4,3)] .
  have "vis s2 d = Some (VSet [])" using v2(1) by simp
  from res_put_dest [OF v2(2) this dl] obtain s3 where
    s3: "res_put (Some d) l s2 = Some s3" "store_ok s3" "frame s2 s3" "vis s3 = (vis s)(d \<mapsto> VSet l)"
    using v2(1) by (metis fun_upd_upd)
  have sl: "map (set_list s3) ks = map (set_list s) ks" using assms(3) s3(4) by (auto simp: set_list_def)
  have "vis s3 d = Some (VSet l)" using s3(4) by simp
  from set_op_loop_dest [OF s3(2) this dl, of ks oper] assms(3) obtain res s4 where
    r: "set_op_loop oper (Some d) ks l s3 = Some (res, s4)" "store_ok s4" "frame s3 s4"
      "vis s4 = (vis s3)(d \<mapsto> VSet res)" "distinct res"
      "set res = set (foldl (apply_set_op oper) l (map (set_list s) ks))"
    unfolding sl by auto
  have v4: "vis s4 = (vis s)(d \<mapsto> VSet res)" using r(4) s3(4) by simp
  then have "set_of d s4 = Some res" by (intro vis_set_of) simp
  then have "set_store oper (c # d # k # ks) r s = Some (QError_ok, FormatInt (int (length res)) r, s4)"
    using s1 g(1,3) s3(1) r(1) by (simp add: set_store_def set_operation_def)
  moreover have "frame s s4" using frame_trans [OF frame_trans [OF v2(3) s3(3)] r(3)] .
  moreover have "set_list s k = l" using assms(4) by (simp add: set_list_def)
  then have "set res = (case oper of
        SetOperation_diff \<Rightarrow> set_view s k - (\<Union>k \<in> set ks. set_view s k)
      | SetOperation_inter \<Rightarrow> set_view s k \<inter> (\<Inter>k \<in> set ks. set_view s k)
      | SetOperation_union \<Rightarrow> set_view s k \<union> (\<Union>k \<in> set ks. set_view s k))"
    using r(6) dl set_list_distinct [OF assms(1)]
    by (cases oper) (simp_all add: set_view_list qset.fold_diff qset.fold_inter qset.fold_union)
  ultimately show ?thesis using r(2,5) v4 by blast
qed

lemma diff_empty_loop:
  "store_ok s \<Longrightarrow> vis s d = Some (VSet []) \<Longrightarrow>
    \<exists>s'. set_op_loop SetOperation_diff (Some d) ks [] s = Some ([], s') \<and> store_ok s' \<and> vis s' = vis s"
proof (induction ks arbitrary: s)
  case (Cons k ks)
  from Cons.prems(1) show ?case
  proof (cases rule: fetch_set [of _ k])
    case (none e s1)
    then show ?thesis using Cons.IH [of s1] Cons.prems(2) by (auto simp: quiet_def)
  next
    case (some ob s1 r)
    then have s1: "store_ok s1" "vis s1 = vis s" "vis s1 d = Some (VSet [])" using Cons.prems(2) by (simp_all add: quiet_def)
    have e: "apply_set_op SetOperation_diff [] r = []" by (simp add: QSet_diff_def)
    from res_put_dest [OF s1(1,3), of "[]"] obtain s2 where
      "res_put (Some d) [] s1 = Some s2" "store_ok s2" "vis s2 = (vis s1)(d \<mapsto> VSet [])" by auto
    moreover have "(vis s1)(d \<mapsto> VSet []) = vis s" using s1(2,3) by auto
    moreover have "res_get (Some d) [] s1 = Some []" using vis_set_of [OF s1(3)] by (simp add: res_get_def)
    ultimately show ?thesis using some(1,3) e by (intro exI [of _ s2]) (simp add: Let_def)
  qed
qed auto

text \<open>SDIFFSTORE whose destination is also its first source always ends with the empty set, whatever
  the sources held: the destination is emptied before it is read.\<close>

theorem sdiffstore_onto_source_empties:
  assumes "store_ok s" "\<not> is_expired s d"
  shows "\<exists>s'. sdiffstore_cmd (c # d # d # ks) r s = Some (QError_ok, FormatInt 0 r, s') \<and> store_ok s' \<and>
    vis s' = (vis s)(d \<mapsto> VSet [])"
proof -
  obtain ob s1 where s1: "SetValue d CreateSet s = (ob, s1)" by (cases "SetValue d CreateSet s")
  note r1 = SetValue_result [OF s1 assms(1) set_obj.new_ok(1)]
  have v1: "vis s1 = (vis s)(d \<mapsto> VSet [])" "vis s1 d = Some (VSet [])" using r1(6) assms(2) set_obj.new_ok(2) by simp_all
  from fetch_known [OF r1(1) v1(2)] obtain v s2 where
    g: "GetValueByType d QType_set s1 = (Inr v, s2)" "quiet s1 s2" "CastSet (oval v) = Some []" .
  then have v2: "store_ok s2" "vis s2 = (vis s)(d \<mapsto> VSet [])" "vis s2 d = Some (VSet [])" using v1 by (simp_all add: quiet_def)
  from res_put_dest [OF v2(1,3), of "[]"] obtain s3 where
    s3: "res_put (Some d) [] s2 = Some s3" "store_ok s3" "vis s3 = (vis s2)(d \<mapsto> VSet [])" by auto
  then have v3: "vis s3 = (vis s)(d \<mapsto> VSet [])" "vis s3 d = Some (VSet [])" using v2 by simp_all
  from diff_empty_loop [OF s3(2) v3(2), of ks] obtain s4 where
    s4: "set_op_loop SetOperation_diff (Some d) ks [] s3 = Some ([], s4)" "store_ok s4" "vis s4 = vis s3" by blast
  then have "set_of d s4 = Some []" using v3(2) by (intro vis_set_of) simp
  then show ?thesis using s1 g(1,3) s3(1) s4 v3(1) by (simp add: sdiffstore_cmd_def set_store_def set_operation_def)
qed


subsection \<open>Witnesses\<close>

definition two_sets :: server where
  "two_sets = server_with [(''a'', VSet [''x'', ''y'', ''z'']), (''b'', VSet [''y''])]"

lemma two_sets: "store_ok two_sets" "vis two_sets = [''b'' \<mapsto> VSet [''y''], ''a'' \<mapsto> VSet [''x'', ''y'', ''z'']]"
  "\<not> is_expired two_sets k"
proof -
  have f: "frame (Store_Init 1 server_new) two_sets"
    using server_with(3) [of "[(''a'', VSet [''x'', ''y'', ''z'']), (''b'', VSet [''y''])]"] by (simp add: two_sets_def)
  show "store_ok two_sets" "vis two_sets = [''b'' \<mapsto> VSet [''y''], ''a'' \<mapsto> VSet [''x'', ''y'', ''z'']]"
    using server_with [of "[(''a'', VSet [''x'', ''y'', ''z'']), (''b'', VSet [''y''])]"] by (auto simp: two_sets_def)
  show "\<not> is_expired two_sets k"
    by (simp add: two_sets_def server_with_def)
qed

lemma two_views: "set_view two_sets ''a'' = {''x'', ''y'', ''z''}" "set_view two_sets ''b'' = {''y''}" "set_view two_sets ''c'' = {}"
  by (simp_all add: set_view_def two_sets(2))


theorem sadd_sismember_witness:
  "\<exists>s1 s2. sadd_cmd [''sadd'', ''b'', ''y'', ''q''] (Some []) two_sets = Some (QError_ok, FormatInt 1 (Some []), s1) \<and>
    sismember_cmd [''sismember'', ''b'', ''q''] (Some []) s1 = Some (QError_ok, FormatInt 1 (Some []), s2)"
proof -
  have "card ({''y'', ''q''} - {''y''}) = 1" by (subst insert_Diff_if) simp
  then show ?thesis
    using sadd_sismember [OF two_sets(1), of "''b''" "''sadd''" "[''y'', ''q'']" "Some []" "''sismember''" "''q''" "Some []"]
    by (auto simp: two_views two_sets(2))
qed

theorem srem_removes_witness:
  "\<exists>s'. srem_cmd [''srem'', ''b'', ''y'', ''q''] (Some []) two_sets = Some (QError_ok, FormatInt 1 (Some []), s') \<and>
    vis s' ''b'' = None"
  using srem_removes [OF two_sets(1), of "''b''" "[''y'']" "''srem''" "[''y'', ''q'']" "Some []"]
  by (auto simp: two_sets(2))

theorem smove_wrong_type_loses_witness:
  "\<exists>s'. smove_cmd [''smove'', ''a'', ''b'', ''x''] (Some []) (server_with [(''a'', VSet [''x'']), (''b'', VRaw ''v'')]) =
      Some (QError_type, FormatInt 1 (Some []), s') \<and> vis s' ''a'' = Some (VSet [])"
proof -
  let ?s = "server_with [(''a'', VSet [''x'']), (''b'', VRaw ''v'')]"
  have s: "store_ok ?s" "vis ?s = [''b'' \<mapsto> VRaw ''v'', ''a'' \<mapsto> VSet [''x'']]"
    using server_with [of "[(''a'', VSet [''x'']), (''b'', VRaw ''v'')]"] by auto
  show ?thesis
    using smove_wrong_type_loses [OF s(1), of "''a''" "[''x'']" "''x''" "''b''" "VRaw ''v''" "''smove''" "Some []"]
    by (auto simp: s(2))
qed

theorem sunion_missing_first_dies_witness: "sunion_cmd [''sunion'', ''c'', ''a''] (Some []) two_sets = None"
  using sunion_missing_first_dies [OF two_sets(1), of "''c''" "''sunion''" "[''a'']" "Some []"] by (simp add: two_sets(2))

theorem set_store_correct_witness:
  "\<exists>res s'. set_store SetOperation_diff [''sdiffstore'', ''c'', ''a'', ''b''] (Some []) two_sets =
      Some (QError_ok, FormatInt (int (length res)) (Some []), s') \<and> vis s' ''c'' = Some (VSet res) \<and> set res = {''x'', ''z''}"
  using set_store_correct [OF two_sets(1,3), of "''c''" "''a''" "[''b'']" "[''x'', ''y'', ''z'']" SetOperation_diff "''sdiffstore''" "Some []"]
  by (auto simp: two_views two_sets(2))

theorem sdiffstore_onto_source_empties_witness:
  "\<exists>s'. sdiffstore_cmd [''sdiffstore'', ''a'', ''a'', ''b''] (Some []) two_sets = Some (QError_ok, FormatInt 0 (Some []), s') \<and>
    vis s' ''a'' = Some (VSet [])"
  using sdiffstore_onto_source_empties [OF two_sets(1,3), of "''sdiffstore''" "''a''" "[''b'']" "Some []"] by auto

end
