(* ===== verification/Hashes.thy ===== *)
theory Hashes
  imports Server Helper
begin

text \<open>
  QedisCore/QHash.cc: the hash commands. A hash is an association list with distinct fields, in the
  order of iteration of the \<open>unordered_map\<close>.
\<close>

type_synonym QHash = "(QString \<times> QString) list"

abbreviation GET_HASH :: "reply \<Rightarrow> (qobject \<Rightarrow> QHash \<Rightarrow> server \<Rightarrow> result) \<Rightarrow> QString \<Rightarrow> server \<Rightarrow> result" where
  "GET_HASH r \<equiv> with_obj CastHash QType_hash (report r)"

abbreviation GET_OR_SET_HASH :: "reply \<Rightarrow> (qobject \<Rightarrow> QHash \<Rightarrow> server \<Rightarrow> result) \<Rightarrow> QString \<Rightarrow> server \<Rightarrow> result" where
  "GET_OR_SET_HASH r \<equiv> with_new CastHash QType_hash CreateHash (report r)"

definition put_hash :: "QString \<Rightarrow> qobject \<Rightarrow> QHash \<Rightarrow> server \<Rightarrow> server" where
  "put_hash key value h = put_obj key (value\<lparr>oval := VHash h\<rparr>)"

definition set_hash_force :: "QHash \<Rightarrow> QString \<Rightarrow> QString \<Rightarrow> QHash" where
  "set_hash_force h key val = AList.update key val h"

definition set_hash_if_notexist :: "QHash \<Rightarrow> QString \<Rightarrow> QString \<Rightarrow> bool \<times> QHash" where
  "set_hash_if_notexist h key val = (if map_of h key \<noteq> None then (False, h) else (True, h @ [(key, val)]))"

definition FormatField :: "QString option \<Rightarrow> reply \<Rightarrow> reply" where
  "FormatField v r = (case v of Some val \<Rightarrow> FormatBulk val r | None \<Rightarrow> FormatNull r)"

definition hset_cmd :: handler where
  "hset_cmd params r =
     GET_OR_SET_HASH r
       (\<lambda>value h s. Some (QError_ok, FormatInt 1 r,
          put_hash (params ! 1) value (set_hash_force h (params ! 2) (params ! 3)) s)) (params ! 1)"

fun hmset_loop :: "QString list \<Rightarrow> QHash \<Rightarrow> QHash" where
  "hmset_loop (f # v # rest) h = hmset_loop rest (set_hash_force h f v)"
| "hmset_loop _ h = h"

definition hmset_cmd :: handler where
  "hmset_cmd params r s =
     (if length params mod 2 \<noteq> 0 then fail QError_param QError_param r s
      else
        GET_OR_SET_HASH r
          (\<lambda>value h s. Some (QError_ok, FormatOK r, put_hash (params ! 1) value (hmset_loop (drop 2 params) h) s))
          (params ! 1) s)"

definition hget_cmd :: handler where
  "hget_cmd params r =
     GET_HASH r (\<lambda>value h s. Some (QError_ok, FormatField (map_of h (params ! 2)) r, s)) (params ! 1)"

definition hmget_cmd :: handler where
  "hmget_cmd params r =
     GET_HASH r
       (\<lambda>value h s. Some (QError_ok,
          fold (\<lambda>f. FormatField (map_of h f)) (drop 2 params) (PreFormatMultiBulk (length params - 2) r), s)) (params ! 1)"

definition hgetall_cmd :: handler where
  "hgetall_cmd params r =
     GET_HASH r
       (\<lambda>value h s. Some (QError_ok,
          fold (\<lambda>(f, v) r. FormatBulk v (FormatBulk f r)) h (PreFormatMultiBulk (2 * length h) r), s)) (params ! 1)"

definition hkeys_cmd :: handler where
  "hkeys_cmd params r =
     GET_HASH r
       (\<lambda>value h s. Some (QError_ok, fold (\<lambda>(f, v). FormatBulk f) h (PreFormatMultiBulk (length h) r), s)) (params ! 1)"

definition hvals_cmd :: handler where
  "hvals_cmd params r =
     GET_HASH r
       (\<lambda>value h s. Some (QError_ok, fold (\<lambda>(f, v). FormatBulk v) h (PreFormatMultiBulk (length h) r), s)) (params ! 1)"

text \<open>HDEL leaves the key with an empty hash when the last field goes.\<close>

fun hdel_loop :: "QString list \<Rightarrow> QHash \<Rightarrow> nat \<times> QHash" where
  "hdel_loop [] h = (0, h)"
| "hdel_loop (f # fs) h =
     (if map_of h f \<noteq> None then (case hdel_loop fs (AList.delete f h) of (n, h) \<Rightarrow> (n + 1, h)) else hdel_loop fs h)"

definition hdel_cmd :: handler where
  "hdel_cmd params r =
     GET_HASH r
       (\<lambda>value h s. case hdel_loop (drop 2 params) h of
          (del, h) \<Rightarrow> Some (QError_ok, FormatInt (int del) r, put_hash (params ! 1) value h s)) (params ! 1)"

definition hexists_cmd :: handler where
  "hexists_cmd params r =
     GET_HASH r
       (\<lambda>value h s. Some (QError_ok, FormatInt (if map_of h (params ! 2) \<noteq> None then 1 else 0) r, s)) (params ! 1)"

definition hlen_cmd :: handler where
  "hlen_cmd params r =
     GET_HASH r (\<lambda>value h s. Some (QError_ok, FormatInt (int (length h)) r, s)) (params ! 1)"

text \<open>\<open>atoi\<close> as the C library has it: \<open>strtol\<close> in base 10, cut to an \<open>int\<close>.\<close>

definition atoi :: "string \<Rightarrow> int" where
  "atoi s =
     (let (neg, s) = strtol_sign (dropWhile isspace s);
          v = base_value 10 (takeWhile (in_base 10) s);
          v = (if neg then - v else v)
      in wrap32 (if v < LONG_MIN then LONG_MIN else if LONG_MAX < v then LONG_MAX else v))"

definition hincrby_cmd :: handler where
  "hincrby_cmd params r =
     GET_OR_SET_HASH r
       (\<lambda>value h s.
          let write = (\<lambda>val. Some (QError_ok, FormatInt val r,
                put_hash (params ! 1) value (set_hash_force h (params ! 2) (show_int val)) s))
          in case map_of h (params ! 2) of
               Some str \<Rightarrow>
                 (case Strtol str of
                    Some val \<Rightarrow> write (wrap64 (val + atoi (params ! 3)))
                  | None \<Rightarrow> fail QError_nan QError_nan r s)
             | None \<Rightarrow> write (atoi (params ! 3))) (params ! 1)"

text \<open>The float counter: \<open>strtof\<close>, \<open>atof\<close>, the addition and the \<open>%f\<close> image are arguments.\<close>

definition hincrbyfloat_cmd ::
  "(string \<Rightarrow> ('f \<times> nat) option) \<Rightarrow> (string \<Rightarrow> 'f) \<Rightarrow> ('f \<Rightarrow> 'f \<Rightarrow> 'f) \<Rightarrow> ('f \<Rightarrow> string) \<Rightarrow> handler" where
  "hincrbyfloat_cmd strtof atof add show_f params r =
     GET_OR_SET_HASH r
       (\<lambda>value h s.
          let write = (\<lambda>val. Some (QError_ok, FormatBulk (take 30 (show_f val)) r,
                put_hash (params ! 1) value (set_hash_force h (params ! 2) (take 30 (show_f val))) s))
          in case map_of h (params ! 2) of
               Some str \<Rightarrow>
                 (case Strtod strtof str of
                    Some val \<Rightarrow> write (add val (atof (params ! 3)))
                  | None \<Rightarrow> fail QError_param QError_param r s)
             | None \<Rightarrow> write (atof (params ! 3))) (params ! 1)"

definition hsetnx_cmd :: handler where
  "hsetnx_cmd params r =
     GET_OR_SET_HASH r
       (\<lambda>value h s. case set_hash_if_notexist h (params ! 2) (params ! 3) of
          (fresh, h) \<Rightarrow> Some (QError_ok, FormatInt (if fresh then 1 else 0) r, put_hash (params ! 1) value h s)) (params ! 1)"

definition hstrlen_cmd :: handler where
  "hstrlen_cmd params r =
     with_obj CastHash QType_hash (\<lambda>err s. Some (err, Format0 r, s))
       (\<lambda>value h s. Some (QError_ok,
          (case map_of h (params ! 2) of None \<Rightarrow> Format0 r | Some v \<Rightarrow> FormatInt (int (length v)) r), s)) (params ! 1)"

text \<open>One page of HSCAN: fields and values in turn.\<close>

definition HScanKey :: "(QHash \<Rightarrow> QHash list) \<Rightarrow> QHash \<Rightarrow> nat \<Rightarrow> nat \<Rightarrow> nat \<times> QString list" where
  "HScanKey buckets h cursor count =
     (if h = [] then (0, [])
      else case ScanHashMember (buckets h) cursor count of
             (next, page) \<Rightarrow> (next, concat (map (\<lambda>(f, v). [f, v]) page)))"

subsection \<open>Hashes as values\<close>

lemma CastHash_eq: "CastHash v = Some h \<longleftrightarrow> v = VHash h"
  by (cases v) auto

interpretation hash_obj: typed_value QType_hash CastHash VHash keys_distinct CreateHash "[]"
proof
  fix v :: qvalue
  show "CastHash v \<noteq> None \<longleftrightarrow> vtype v = QType_hash" by (cases v) auto
qed (simp_all add: CastHash_eq CreateHash_def Obj_Reset_def QObject_new_def obj_ok_def)

subsection \<open>Invariant\<close>

lemma put_hash_ok: "store_ok s \<Longrightarrow> obj_ok ob \<Longrightarrow> CastHash (oval ob) = Some h \<Longrightarrow> keys_distinct h' \<Longrightarrow> store_ok (put_hash k ob h' s)"
  unfolding put_hash_def by (rule hash_obj.put_ok)

lemma CastHash_distinct: "obj_ok ob \<Longrightarrow> CastHash (oval ob) = Some h \<Longrightarrow> keys_distinct h"
  by (rule hash_obj.good_prj)

lemma set_hash_force_distinct [simp]: "keys_distinct h \<Longrightarrow> keys_distinct (set_hash_force h f v)"
  by (simp add: set_hash_force_def keys_distinct_update)

lemma set_hash_if_notexist_distinct: "keys_distinct h \<Longrightarrow> keys_distinct (snd (set_hash_if_notexist h f v))"
  by (auto simp: set_hash_if_notexist_def keys_distinct_def map_of_eq_None_iff)

lemma hmset_loop_distinct: "keys_distinct h \<Longrightarrow> keys_distinct (hmset_loop xs h)"
  by (induction xs h rule: hmset_loop.induct) auto

lemma hdel_loop_distinct: "keys_distinct h \<Longrightarrow> keys_distinct (snd (hdel_loop fs h))"
  by (induction fs h rule: hdel_loop.induct) (auto simp: keys_distinct_delete split: prod.split)

lemma safe_put_hash:
  "store_ok s \<Longrightarrow> obj_ok ob \<Longrightarrow> CastHash (oval ob) = Some h \<Longrightarrow> (keys_distinct h \<Longrightarrow> keys_distinct h') \<Longrightarrow>
    safe_result (Some (e, r, put_hash k ob h' s))"
  using put_hash_ok CastHash_distinct by simp

lemma safe_hash_reads [safe_cmds]: "safe_cmd hget_cmd" "safe_cmd hmget_cmd" "safe_cmd hgetall_cmd" "safe_cmd hkeys_cmd"
  "safe_cmd hvals_cmd" "safe_cmd hexists_cmd" "safe_cmd hlen_cmd" "safe_cmd hstrlen_cmd"
  by (auto simp: safe_cmd_def hget_cmd_def hmget_cmd_def hgetall_cmd_def hkeys_cmd_def hvals_cmd_def hexists_cmd_def
      hlen_cmd_def hstrlen_cmd_def intro!: safe_intros)

lemma safe_new_hash:
  assumes "\<And>ob h s. store_ok s \<Longrightarrow> obj_ok ob \<Longrightarrow> CastHash (oval ob) = Some h \<Longrightarrow> safe_result (hit ob h s)" "store_ok s"
  shows "safe_result (with_new CastHash QType_hash CreateHash (report r) hit k s)"
  by (rule safe_with_new) (use assms hash_obj.new_ok in \<open>simp_all add: safe_report\<close>)

lemma safe_hset_cmd [safe_cmds]: "safe_cmd hset_cmd"
  by (rule safe_cmdI) (auto simp: hset_cmd_def put_hash_ok CastHash_distinct intro!: safe_new_hash)

lemma safe_hmset_cmd [safe_cmds]: "safe_cmd hmset_cmd"
  by (rule safe_cmdI)
    (auto simp: hmset_cmd_def put_hash_ok CastHash_distinct hmset_loop_distinct safe_fail intro!: safe_new_hash)

lemma safe_hsetnx_cmd [safe_cmds]: "safe_cmd hsetnx_cmd"
proof (rule safe_cmdI)
  fix params r and s :: server
  assume s: "store_ok s"
  have hit: "safe_result (case set_hash_if_notexist h f v of (fresh, h) \<Rightarrow> Some (QError_ok, g fresh, put_hash k ob h s'))"
    if w: "store_ok s'" "obj_ok ob" "CastHash (oval ob) = Some h" for h f v k ob s' and g :: "bool \<Rightarrow> reply"
    using set_hash_if_notexist_distinct [OF CastHash_distinct [OF w(2,3)], of f v] put_hash_ok [OF w]
    by (cases "set_hash_if_notexist h f v") simp
  show "safe_result (hsetnx_cmd params r s)" unfolding hsetnx_cmd_def by (intro safe_new_hash hit s)
qed

lemma safe_hdel_cmd [safe_cmds]: "safe_cmd hdel_cmd"
proof (rule safe_cmdI)
  fix params r and s :: server
  assume s: "store_ok s"
  have hit: "safe_result (case hdel_loop fs h of (n, h) \<Rightarrow> Some (QError_ok, g n, put_hash k ob h s'))"
    if w: "store_ok s'" "obj_ok ob" "CastHash (oval ob) = Some h" for h fs k ob s' and g :: "nat \<Rightarrow> reply"
    using hdel_loop_distinct [OF CastHash_distinct [OF w(2,3)], of fs] put_hash_ok [OF w]
    by (cases "hdel_loop fs h") simp
  show "safe_result (hdel_cmd params r s)"
    unfolding hdel_cmd_def by (rule safe_with_obj) (simp_all add: s hit safe_report)
qed

lemma safe_hincrby_cmd [safe_cmds]: "safe_cmd hincrby_cmd"
  by (rule safe_cmdI) (auto simp: hincrby_cmd_def put_hash_ok CastHash_distinct safe_fail Let_def
      intro!: safe_new_hash split: option.split)

lemma safe_hincrbyfloat_cmd [safe_cmds]: "safe_cmd (hincrbyfloat_cmd strtof atof add show_f)"
  by (rule safe_cmdI) (auto simp: hincrbyfloat_cmd_def put_hash_ok CastHash_distinct safe_fail Let_def
      intro!: safe_new_hash split: option.split)

subsection \<open>The fields of a hash\<close>

text \<open>A hash is a key space of its own: the fields are read and written like keys.\<close>

interpretation fields: keyspace "keys_distinct :: QHash \<Rightarrow> bool" map_of "\<lambda>_. True" "\<lambda>v. v"
  "\<lambda>f h. (map_of h f, h)" "\<lambda>f v h. set_hash_force h f v" AList.delete
  by unfold_locales (auto simp: set_hash_force_def keys_distinct_update keys_distinct_delete)

lemma hmset_loop_puts: "hmset_loop (concat (map (\<lambda>(f, v). [f, v]) fvs)) h = fold (\<lambda>(f, v) h. set_hash_force h f v) fvs h"
  by (induction fvs arbitrary: h) auto

lemma hmset_loop_map:
  "keys_distinct h \<Longrightarrow> map_of (hmset_loop (concat (map (\<lambda>(f, v). [f, v]) fvs)) h) = map_of h ++ map_of (rev fvs)"
proof -
  assume h: "keys_distinct h"
  have "map (\<lambda>(k, v). (k, v)) fvs = fvs" by (induction fvs) auto
  then show ?thesis using fields.puts [OF h, of fvs] by (simp add: hmset_loop_puts)
qed

lemma hdel_loop_map: "map_of (snd (hdel_loop fs h)) = (\<lambda>f. if f \<in> set fs then None else map_of h f)"
  by (induction fs h rule: hdel_loop.induct) (auto simp: fun_eq_iff split: prod.split)

lemma hdel_loop_count: "int (fst (hdel_loop fs h)) = int (card (set fs \<inter> dom (map_of h)))"
proof (induction fs h rule: hdel_loop.induct)
  case (2 f fs h)
  show ?case
  proof (cases "f \<in> dom (map_of h)")
    case True
    define A where "A = set fs \<inter> dom (map_of (AList.delete f h))"
    have "set (f # fs) \<inter> dom (map_of h) = insert f A" "f \<notin> A" "finite A" using True by (auto simp: A_def)
    then have "card (set (f # fs) \<inter> dom (map_of h)) = Suc (card A)" by simp
    moreover have "int (fst (hdel_loop fs (AList.delete f h))) = int (card A)"
      using "2.IH"(1) True unfolding A_def by (metis domIff)
    moreover have "fst (hdel_loop (f # fs) h) = Suc (fst (hdel_loop fs (AList.delete f h)))"
      using True by (auto split: prod.split)
    ultimately show ?thesis by simp
  next
    case False
    then have "set (f # fs) \<inter> dom (map_of h) = set fs \<inter> dom (map_of h)" by auto
    then show ?thesis using False "2.IH"(2) by (auto simp: domIff)
  qed
qed simp

definition hash_view :: "'a qstore_scheme \<Rightarrow> QString \<Rightarrow> QString \<Rightarrow> QString option" where
  "hash_view s k = (case vis s k of Some (VHash h) \<Rightarrow> map_of h | _ \<Rightarrow> Map.empty)"

lemma put_hash_step:
  assumes "store_ok s" "obj_ok ob" "oval ob = VHash h'" "keys_distinct h" "\<not> is_expired s k"
  shows "store_ok (put_hash k ob h s)" "vis (put_hash k ob h s) = (vis s)(k \<mapsto> VHash h)" "frame s (put_hash k ob h s)"
    "\<not> is_expired (put_hash k ob h s) k"
  using hash_obj.put_value [OF assms] by (simp_all add: put_hash_def)

text \<open>HMSET followed by HMGET: every field replies the last value HMSET gave it, or else what the hash
  had, or null.\<close>

theorem hmset_hmget:
  assumes "store_ok s" "vis s k = None \<or> Option.bind (vis s k) CastHash \<noteq> None"
  shows "\<exists>s1 s2. hmset_cmd (c # k # concat (map (\<lambda>(f, v). [f, v]) fvs)) r s = Some (QError_ok, FormatOK r, s1) \<and>
    store_ok s1 \<and> frame s s1 \<and> (\<forall>k'. k' \<noteq> k \<longrightarrow> vis s1 k' = vis s k') \<and>
    hmget_cmd (c' # k # fs) r' s1 = Some (QError_ok,
      fold (\<lambda>f. FormatField ((hash_view s k ++ map_of (rev fvs)) f)) fs (PreFormatMultiBulk (length fs) r'), s2) \<and>
    quiet s1 s2"
proof -
  define h where "h = (case Option.bind (vis s k) CastHash of None \<Rightarrow> [] | Some h \<Rightarrow> h)"
  have "vis s k = None \<and> h = [] \<or> vis s k = Some (VHash h)"
    using assms(2) by (auto simp: h_def CastHash_eq bind_eq_Some_conv)
  note hv = this
  from hash_obj.with_new_get [OF assms(1) hv] obtain ob s1 where
    g: "\<And>miss hit. with_new CastHash QType_hash CreateHash miss hit k s = hit ob h s1" "store_ok s1"
      "frame s s1" "vis s1 = (vis s)(k \<mapsto> VHash h)" "oval ob = VHash h" "obj_ok ob" "keys_distinct h" "\<not> is_expired s1 k" by metis
  let ?ps = "concat (map (\<lambda>(f, v). [f, v]) fvs)"
  let ?h = "hmset_loop ?ps h" and ?s = "put_hash k ob (hmset_loop ?ps h) s1"
  note p = put_hash_step [OF g(2,6,5) hmset_loop_distinct [OF g(7)] g(8), of ?ps]
  have "length ?ps mod 2 = 0" by (induction fvs) auto
  then have set: "hmset_cmd (c # k # ?ps) r s = Some (QError_ok, FormatOK r, ?s)"
    by (simp add: hmset_cmd_def g(1))
  have m: "map_of ?h = hash_view s k ++ map_of (rev fvs)"
    using hmset_loop_map [OF g(7)] hv by (auto simp: hash_view_def)
  have "vis ?s k = Some (VHash ?h)" using p(2) by simp
  from hash_obj.with_obj_hit [OF p(1) this] obtain ob2 s2 where
    h: "\<And>miss hit. with_obj CastHash QType_hash miss hit k ?s = hit ob2 ?h s2" "quiet ?s s2" by metis
  have "hmget_cmd (c' # k # fs) r' ?s = Some (QError_ok,
      fold (\<lambda>f. FormatField ((hash_view s k ++ map_of (rev fvs)) f)) fs (PreFormatMultiBulk (length fs) r'), s2)"
    by (simp add: hmget_cmd_def h(1) m)
  then show ?thesis using set p(1,2) g(4) frame_trans [OF g(3) p(3)] h(2)
    by (intro exI [of _ ?s] exI [of _ s2]) simp
qed

text \<open>HDEL replies how many of the fields were there, removes exactly these, and keeps the key even when
  no field is left.\<close>

theorem hdel_removes:
  assumes "store_ok s" "vis s k = Some (VHash h)"
  shows "\<exists>s' h'. hdel_cmd (c # k # fs) r s =
      Some (QError_ok, FormatInt (int (card (set fs \<inter> dom (map_of h)))) r, s') \<and>
    store_ok s' \<and> frame s s' \<and> vis s' = (vis s)(k \<mapsto> VHash h') \<and> keys_distinct h' \<and>
    map_of h' = (\<lambda>f. if f \<in> set fs then None else map_of h f)"
proof -
  from hash_obj.with_obj_hit [OF assms] obtain ob s1 where
    g: "\<And>miss hit. with_obj CastHash QType_hash miss hit k s = hit ob h s1" "store_ok s1" "frame s s1" "vis s1 = vis s"
      "oval ob = VHash h" "obj_ok ob" "keys_distinct h" "\<not> is_expired s1 k" by metis
  obtain n h' where l: "hdel_loop fs h = (n, h')" by (cases "hdel_loop fs h")
  have d: "keys_distinct h'" "map_of h' = (\<lambda>f. if f \<in> set fs then None else map_of h f)"
    "int n = int (card (set fs \<inter> dom (map_of h)))"
    using hdel_loop_distinct [OF g(7), of fs] hdel_loop_map [of fs h] hdel_loop_count [of fs h] l by simp_all
  note p = put_hash_step [OF g(2,6,5) d(1) g(8)]
  have "hdel_cmd (c # k # fs) r s = Some (QError_ok, FormatInt (int n) r, put_hash k ob h' s1)"
    by (simp add: hdel_cmd_def g(1) l)
  then show ?thesis using p(1,2) d g(4) frame_trans [OF g(3) p(3)] by auto
qed

text \<open>HINCRBY adds to a field that reads as a number, with the wrap-around of a long, and starts a missing
  one at the argument; a field of another form is left alone and reported.\<close>

theorem hincrby_counts:
  assumes "store_ok s" "vis s k = Some (VHash h)"
  shows "\<exists>s'. store_ok s' \<and> frame s s' \<and>
    (case (case map_of h f of None \<Rightarrow> Some (atoi n) | Some str \<Rightarrow> map_option (\<lambda>v. wrap64 (v + atoi n)) (Strtol str)) of
       Some v \<Rightarrow> hincrby_cmd [c, k, f, n] r s = Some (QError_ok, FormatInt v r, s') \<and>
         vis s' = (vis s)(k \<mapsto> VHash (AList.update f (show_int v) h))
     | None \<Rightarrow> hincrby_cmd [c, k, f, n] r s = fail QError_nan QError_nan r s' \<and> vis s' = vis s)"
proof -
  from hash_obj.with_new_get [OF assms(1), of k h] assms(2) obtain ob s1 where
    g: "\<And>miss hit. with_new CastHash QType_hash CreateHash miss hit k s = hit ob h s1" "store_ok s1"
      "frame s s1" "vis s1 = (vis s)(k \<mapsto> VHash h)" "oval ob = VHash h" "obj_ok ob" "keys_distinct h" "\<not> is_expired s1 k" by metis
  have v: "vis s1 = vis s" using g(4) assms(2) by auto
  have "store_ok (put_hash k ob (set_hash_force h f x) s1) \<and> frame s (put_hash k ob (set_hash_force h f x) s1) \<and>
    vis (put_hash k ob (set_hash_force h f x) s1) = (vis s)(k \<mapsto> VHash (AList.update f x h))" for x
    using put_hash_step [OF g(2,6,5) set_hash_force_distinct [OF g(7)] g(8), of f x] v frame_trans [OF g(3)]
    by (simp add: set_hash_force_def)
  moreover have "store_ok s1 \<and> frame s s1 \<and> vis s1 = vis s" using g(2,3) v by simp
  ultimately show ?thesis
    by (cases "map_of h f"; cases "Strtol (the (map_of h f))") (simp_all add: hincrby_cmd_def g(1) Let_def, blast+)
qed

subsection \<open>Witnesses\<close>

lemma one_hash: "store_ok (server_with [(''h'', VHash [(''f'', ''1''), (''g'', ''x'')])])"
  "vis (server_with [(''h'', VHash [(''f'', ''1''), (''g'', ''x'')])]) = [''h'' \<mapsto> VHash [(''f'', ''1''), (''g'', ''x'')]]"
  using server_with [of "[(''h'', VHash [(''f'', ''1''), (''g'', ''x'')])]"] by (simp_all add: keys_distinct_def)

theorem hmset_hmget_witness:
  "\<exists>s1 s2. hmset_cmd [''hmset'', ''h'', ''f'', ''2''] (Some []) (server_with [(''h'', VHash [(''f'', ''1''), (''g'', ''x'')])]) =
      Some (QError_ok, FormatOK (Some []), s1) \<and>
    hmget_cmd [''hmget'', ''h'', ''f'', ''g''] (Some []) s1 =
      Some (QError_ok, FormatBulk ''x'' (FormatBulk ''2'' (PreFormatMultiBulk 2 (Some []))), s2)"
  using hmset_hmget [OF one_hash(1), of "''h''" "''hmset''" "[(''f'', ''2'')]" "Some []" "''hmget''" "[''f'', ''g'']" "Some []"]
  by (auto simp: one_hash(2) hash_view_def FormatField_def numeral_2_eq_2)

theorem hdel_removes_witness:
  "\<exists>s'. hdel_cmd [''hdel'', ''h'', ''f'', ''q''] (Some []) (server_with [(''h'', VHash [(''f'', ''1''), (''g'', ''x'')])]) =
      Some (QError_ok, FormatInt 1 (Some []), s') \<and> store_ok s'"
proof -
  have "{''f'', ''q''} \<inter> dom (map_of [(''f'', ''1''), (''g'', ''x'')]) = {''f''}" by auto
  then show ?thesis
    using hdel_removes [OF one_hash(1), of "''h''" _ "''hdel''" "[''f'', ''q'']" "Some []"] by (auto simp: one_hash(2))
qed

theorem hincrby_counts_witness:
  "\<exists>s'. hincrby_cmd [''hincrby'', ''h'', ''f'', ''41''] (Some []) (server_with [(''h'', VHash [(''f'', ''1''), (''g'', ''x'')])]) =
      Some (QError_ok, FormatInt 42 (Some []), s')"
proof -
  have "Strtol ''1'' = Some 1" "atoi ''41'' = 41" "wrap64 42 = 42" by code_simp+
  then show ?thesis
    using hincrby_counts [OF one_hash(1), where k = "''h''" and f = "''f''" and n = "''41''" and c = "''hincrby''" and r = "Some []"]
    by (auto simp: one_hash(2))
qed

end
