(* ===== verification/SortedSets.thy ===== *)
theory SortedSets
  imports Server
begin

text \<open>
  QedisCore/QSortedSet.h and QSortedSet.cc: the sorted set, a map from scores to sorted buckets of
  members beside a table from members to scores, and its commands.

  The functions of the C library on doubles (\<open>strtod\<close>, the images of a double but that of \<open>%.6g\<close>) and the addition of
  doubles are arguments; comparison and the conversions from and to \<open>long\<close> are defined on the bit
  patterns. A NaN as a key breaks the order \<open>std::map\<close> requires, which is undefined: \<^const>\<open>None\<close>.
\<close>

subsection \<open>Doubles and longs\<close>

definition dbl_sign :: "double \<Rightarrow> bool" where "dbl_sign d \<longleftrightarrow> bit d 63"
definition dbl_exp :: "double \<Rightarrow> nat" where "dbl_exp d = unat (take_bit 11 (drop_bit 52 d))"
definition dbl_frac :: "double \<Rightarrow> int" where "dbl_frac d = uint (take_bit 52 d)"

text \<open>
  \<open>static_cast<long>\<close>: cut towards zero. What does not fit is undefined; the x86 instruction
  gives the least long.
\<close>

definition dbl_to_long :: "double \<Rightarrow> int" where
  "dbl_to_long d =
     (let e = dbl_exp d;
          m = (if e = 0 then dbl_frac d else dbl_frac d + 2 ^ 52);
          v = (if 1075 \<le> e then m * 2 ^ (e - 1075) else m div 2 ^ (1075 - max e 1));
          v = (if dbl_sign d then - v else v)
      in if e = 2047 \<or> v < LONG_MIN \<or> LONG_MAX < v then LONG_MIN else v)"

fun top_bit :: "nat \<Rightarrow> nat" where
  "top_bit n = (if n < 2 then 0 else top_bit (n div 2) + 1)"

declare top_bit.simps [simp del]

text \<open>The conversion of a \<open>long\<close>, to the nearest double, to the even one of two.\<close>

definition long_to_dbl :: "int \<Rightarrow> double" where
  "long_to_dbl x =
     (if x = 0 then 0
      else
        let a = nat \<bar>x\<bar>;
            e = top_bit a;
            (m, e) =
              (if e \<le> 52 then (a * 2 ^ (52 - e), e)
               else
                 let q = a div 2 ^ (e - 52); r = a mod 2 ^ (e - 52); half = 2 ^ (e - 53);
                     q = (if half < r \<or> r = half \<and> odd q then q + 1 else q)
                 in if q = 2 ^ 53 then (2 ^ 52, e + 1) else (q, e))
        in word_of_int ((if x < 0 then 2 ^ 63 else 0) + int (e + 1023) * 2 ^ 52 + int m - 2 ^ 52))"

subsection \<open>Printing a score\<close>

text \<open>
  \<open>Double2Str\<close> calls \<open>snprintf\<close> with \<open>%.6g\<close> and one byte less than the buffer has, so that at most \<open>nBytes - 2\<close>
  characters are written before the nul. The conversion is that of the C library: six digits of the exact value, rounded
  to the nearest number and to the even one of two, without trailing zeros, with an exponent of at least two digits when it is
  below -4 or above 5. \<open>n / d\<close> is the value without its sign.
\<close>

definition round_div :: "nat \<Rightarrow> nat \<Rightarrow> nat" where
  "round_div n d =
     (let q = n div d; r = n mod d in if 2 * r < d \<or> 2 * r = d \<and> even q then q else q + 1)"

definition decimal_exp :: "nat \<Rightarrow> nat \<Rightarrow> int" where
  "decimal_exp n d =
     (if d \<le> n then int (length (show_nat (n div d))) - 1
      else let t = length (show_nat (d div n)) in if d \<le> 10 ^ (t - 1) * n then 1 - int t else - int t)"

definition six_digits :: "nat \<Rightarrow> nat \<Rightarrow> nat \<times> int" where
  "six_digits n d =
     (let x = decimal_exp n d; q = round_div (n * 10 ^ nat (5 - x)) (d * 10 ^ nat (x - 5))
      in if q = 10 ^ 6 then (10 ^ 5, x + 1) else (q, x))"

definition strip_zeros :: "string \<Rightarrow> string" where
  "strip_zeros cs = rev (dropWhile (\<lambda>c. c = CHR ''0'') (rev cs))"

definition with_point :: "string \<Rightarrow> string \<Rightarrow> string" where
  "with_point whole frac = (if strip_zeros frac = [] then whole else whole @ ''.'' @ strip_zeros frac)"

definition show_exp :: "int \<Rightarrow> string" where
  "show_exp x =
     (let ds = show_nat (nat \<bar>x\<bar>) in (if x < 0 then ''e-'' else ''e+'') @ (if length ds < 2 then CHR ''0'' # ds else ds))"

definition show_g6 :: "nat \<Rightarrow> nat \<Rightarrow> string" where
  "show_g6 n d =
     (case six_digits n d of
        (q, x) \<Rightarrow>
          let ds = show_nat q
          in if x < -4 \<or> 6 \<le> x then with_point (take 1 ds) (drop 1 ds) @ show_exp x
             else if 0 \<le> x then with_point (take (nat x + 1) ds) (drop (nat x + 1) ds)
             else with_point ''0'' (replicate (nat (- x - 1)) CHR ''0'' @ ds))"

definition printf_g6 :: "double \<Rightarrow> string" where
  "printf_g6 v =
     (let e = dbl_exp v; m = nat (if e = 0 then dbl_frac v else dbl_frac v + 2 ^ 52)
      in (if dbl_sign v then ''-'' else []) @
         (if e = 2047 then (if dbl_frac v = 0 then ''inf'' else ''nan'')
          else if m = 0 then ''0''
          else show_g6 (m * 2 ^ (e - 1075)) (2 ^ (1075 - max e 1))))"

definition Double2Str :: "nat \<Rightarrow> double \<Rightarrow> string" where
  "Double2Str nBytes v = take (nBytes - 2) (printf_g6 v)"

lemma show_nat_bound: "n < 10 ^ length (show_nat n)"
proof (induction n rule: show_nat.induct)
  case (1 n)
  show ?case
  proof (cases "n < 10")
    case False
    then have "n div 10 < 10 ^ length (show_nat (n div 10))" using 1 by simp
    then have "n < 10 ^ length (show_nat (n div 10)) * 10" by (simp add: div_less_iff_less_mult)
    then show ?thesis using False by (subst show_nat.simps) (simp add: mult.commute)
  qed (simp add: show_nat_small)
qed

lemma show_nat_bound_below: "0 < n \<Longrightarrow> 10 ^ (length (show_nat n) - 1) \<le> n"
proof (induction n rule: show_nat.induct)
  case (1 n)
  show ?case
  proof (cases "n < 10")
    case False
    then have "10 ^ (length (show_nat (n div 10)) - 1) \<le> n div 10" using 1 by simp
    then have "10 ^ (length (show_nat (n div 10)) - 1) * 10 \<le> n" using False by (simp add: less_eq_div_iff_mult_less_eq)
    moreover have "length (show_nat n) = Suc (length (show_nat (n div 10)))" using False by (subst show_nat.simps) simp
    ultimately show ?thesis by (cases "length (show_nat (n div 10))") simp_all
  qed (use 1 in \<open>simp add: show_nat_small\<close>)
qed

lemma decimal_exp_upper:
  assumes "0 < n" "0 < d"
  shows "n * 10 ^ nat (5 - decimal_exp n d) < d * 10 ^ nat (decimal_exp n d - 5) * 10 ^ 6"
proof (cases "d \<le> n")
  case True
  define l where "l = length (show_nat (n div d))"
  have l: "n < d * 10 ^ l" "1 \<le> l"
    using show_nat_bound [of "n div d"] assms(2) show_nat_nonempty [of "n div d"]
    by (auto simp: l_def div_less_iff_less_mult mult.commute Suc_le_eq)
  have x: "decimal_exp n d = int l - 1" using True by (simp add: decimal_exp_def l_def)
  have e: "l + nat (5 - (int l - 1)) = nat (int l - 1 - 5) + 6" using l(2) by auto
  have "n * 10 ^ nat (5 - (int l - 1)) < d * 10 ^ l * 10 ^ nat (5 - (int l - 1))" using l(1) by simp
  then show ?thesis unfolding x by (simp only: mult.assoc power_add [symmetric] e)
next
  case False
  define t where "t = length (show_nat (d div n))"
  have t: "1 \<le> t" "10 ^ (t - 1) * n \<le> d" using show_nat_bound_below [of "d div n"] False assms(1) show_nat_nonempty [of "d div n"]
    by (auto simp: t_def Suc_le_eq div_greater_zero_iff less_eq_div_iff_mult_less_eq simp del: show_nat_nonempty)
  show ?thesis
  proof (cases "d \<le> 10 ^ (t - 1) * n")
    case True
    have "t \<noteq> 1" using True False by auto
    then obtain u where u: "t = Suc (Suc u)" using t(1) by (metis One_nat_def Suc_le_D not0_implies_Suc)
    have x: "decimal_exp n d = - int u - 1" using True False by (simp add: decimal_exp_def Let_def t_def [symmetric] u)
    have "n * 10 ^ u < d" using t(2) assms(2) u True by (simp add: mult.commute)
    then have "n * 10 ^ u * 10 ^ 6 < d * 10 ^ 6" by simp
    moreover have "nat (5 - (- int u - 1)) = u + 6" "nat (- int u - 1 - 5) = 0" by auto
    ultimately show ?thesis unfolding x by (simp only: mult.assoc power_add power_0 mult_1_right)
  next
    case False
    then have x: "decimal_exp n d = - int t" using \<open>\<not> d \<le> n\<close> by (simp add: decimal_exp_def Let_def t_def [symmetric])
    obtain u where u: "t = Suc u" using t(1) by (cases t) auto
    have "n * 10 ^ u * 10 ^ 6 < d * 10 ^ 6" using False u by (simp add: mult.commute)
    moreover have "nat (5 - - int (Suc u)) = u + 6" "nat (- int (Suc u) - 5) = 0" by auto
    ultimately show ?thesis unfolding x u by (simp only: mult.assoc power_add power_0 mult_1_right)
  qed
qed

lemma six_digits_bound:
  assumes "0 < n" "0 < d" "six_digits n d = (q, x)"
  shows "q < 10 ^ 6" "\<bar>x - decimal_exp n d\<bar> \<le> 1"
proof -
  have "a div b < 10 ^ 6" if "a < b * 10 ^ 6" for a b :: nat using that by (simp add: div_less_iff_less_mult mult.commute less_mult_imp_div_less)
  then have "round_div a b \<le> 10 ^ 6" if "a < b * 10 ^ 6" for a b :: nat
    using that [THEN \<open>\<And>b a. a < b * 10 ^ 6 \<Longrightarrow> a div b < 10 ^ 6\<close>] by (auto simp: round_div_def Let_def)
  then show "q < 10 ^ 6" using assms decimal_exp_upper [OF assms(1,2)] by (force simp: six_digits_def Let_def split: if_splits)
  show "\<bar>x - decimal_exp n d\<bar> \<le> 1" using assms(3) by (auto simp: six_digits_def Let_def split: if_splits)
qed

lemma strip_zeros_length: "length (strip_zeros cs) \<le> length cs"
  using length_dropWhile_le [of "\<lambda>c. c = CHR ''0''" "rev cs"] by (simp add: strip_zeros_def)

lemma with_point_length: "length (with_point a b) \<le> length a + length b + 1"
  using strip_zeros_length [of b] by (simp add: with_point_def)

lemma decimal_exp_range:
  assumes "n < 10 ^ 400" "d < 10 ^ 400" "0 < n" "0 < d"
  shows "\<bar>decimal_exp n d\<bar> \<le> 400"
proof -
  have "n div d < 10 ^ 400" "d div n < 10 ^ 400" using assms(1,2) le_less_trans [OF div_le_dividend] by blast+
  then have "length (show_nat (n div d)) \<le> 400" "length (show_nat (d div n)) \<le> 400" using show_nat_length by simp_all
  moreover have "1 \<le> length (show_nat (n div d))" "1 \<le> length (show_nat (d div n))" by (simp_all add: Suc_le_eq)
  ultimately show ?thesis by (auto simp: decimal_exp_def Let_def)
qed

lemma show_g6_length:
  assumes "n < 10 ^ 400" "d < 10 ^ 400" "0 < n" "0 < d"
  shows "length (show_g6 n d) \<le> 12"
proof -
  obtain q x where qx: "six_digits n d = (q, x)" by (cases "six_digits n d")
  note b = six_digits_bound [OF assms(3,4) qx]
  have q: "length (show_nat q) \<le> 6" using show_nat_length b(1) by simp
  have "\<bar>x\<bar> \<le> 401" using b(2) decimal_exp_range [OF assms] by linarith
  then have "nat \<bar>x\<bar> < 10 ^ 3" by simp
  then have e: "length (show_exp x) \<le> 5" using show_nat_length [of "nat \<bar>x\<bar>" 3] by (auto simp: show_exp_def Let_def abs_if split: if_splits)
  have p: "length (with_point (take i (show_nat q)) (drop i (show_nat q))) \<le> 7" for i
    using with_point_length [of "take i (show_nat q)" "drop i (show_nat q)"] q by simp
  have z: "length (with_point ''0'' (replicate (nat (- x - 1)) CHR ''0'' @ show_nat q)) \<le> 11" if "\<not> x < -4" "x < 0"
    using with_point_length [of "''0''" "replicate (nat (- x - 1)) CHR ''0'' @ show_nat q"] q that by simp
  show ?thesis using p [of 1] p [of "nat x + 1"] e z by (auto simp: show_g6_def qx Let_def)
qed

text \<open>The text fits into the buffers, which have 32 and 64 bytes: nothing is cut.\<close>

lemma printf_g6_length: "length (printf_g6 v) \<le> 13"
proof -
  let ?m = "nat (if dbl_exp v = 0 then dbl_frac v else dbl_frac v + 2 ^ 52)"
  let ?n = "?m * 2 ^ (dbl_exp v - 1075)" and ?d = "2 ^ (1075 - max (dbl_exp v) 1) :: nat"
  have "dbl_exp v < 2 ^ 11" unfolding dbl_exp_def unsigned_take_bit_eq by (rule take_bit_nat_less_exp)
  moreover have "dbl_frac v < 2 ^ 52" unfolding dbl_frac_def unsigned_take_bit_eq by (rule take_bit_int_less_exp)
  ultimately have m: "?m < 2 ^ 53" "dbl_exp v - 1075 \<le> 973" "1075 - max (dbl_exp v) 1 \<le> 1074" by auto
  have "?n < 2 ^ 53 * 2 ^ (dbl_exp v - 1075)" using m(1) by simp
  also have "\<dots> \<le> 2 ^ 53 * 2 ^ 973" using power_increasing [OF m(2), of "2 :: nat"] by simp
  also have "\<dots> < 10 ^ 400" by simp
  finally have n: "?n < 10 ^ 400" .
  have "?d \<le> 2 ^ 1074" using power_increasing [OF m(3), of "2 :: nat"] by simp
  also have "\<dots> < (10 :: nat) ^ 400" by simp
  finally have "?m \<noteq> 0 \<Longrightarrow> length (show_g6 ?n ?d) \<le> 12" using show_g6_length [OF n] by simp
  then show ?thesis by (auto simp: printf_g6_def Let_def simp del: neq0_conv)
qed

lemma Double2Str_fits: "15 \<le> nBytes \<Longrightarrow> Double2Str nBytes v = printf_g6 v"
  using printf_g6_length [of v] by (simp add: Double2Str_def)

subsection \<open>The sorted set\<close>

text \<open>\<open>std::set<QString>::insert\<close> and the buckets of \<open>scores_\<close>.\<close>

fun bucket_insert :: "QString \<Rightarrow> QString list \<Rightarrow> bool \<times> QString list" where
  "bucket_insert m [] = (True, [m])"
| "bucket_insert m (x # xs) =
     (if x < m then (case bucket_insert m xs of (b, xs) \<Rightarrow> (b, x # xs))
      else if m < x then (True, m # x # xs) else (False, x # xs))"

type_synonym Score2Members = "(double \<times> QString list) list"

text \<open>\<open>scores_[score].insert(member)\<close>.\<close>

fun scores_insert :: "double \<Rightarrow> QString \<Rightarrow> Score2Members \<Rightarrow> bool \<times> Score2Members" where
  "scores_insert d m [] = (True, [(d, [m])])"
| "scores_insert d m ((d', ms) # zs) =
     (if dbl_less d' d then (case scores_insert d m zs of (b, zs) \<Rightarrow> (b, (d', ms) # zs))
      else if dbl_less d d' then (True, (d, [m]) # (d', ms) # zs)
      else (case bucket_insert m ms of (b, ms) \<Rightarrow> (b, (d', ms) # zs)))"

text \<open>\<open>scores_.find(score)->second.erase(member)\<close>: both must succeed. The bucket stays when it is empty.\<close>

fun scores_erase :: "double \<Rightarrow> QString \<Rightarrow> Score2Members \<Rightarrow> Score2Members option" where
  "scores_erase d m [] = None"
| "scores_erase d m ((d', ms) # zs) =
     (if dbl_less d' d then map_option (Cons (d', ms)) (scores_erase d m zs)
      else if dbl_less d d' then None
      else if m \<in> set ms then Some ((d', removeAll m ms) # zs) else None)"

definition AddMember :: "QString \<Rightarrow> double \<Rightarrow> QSortedSet \<Rightarrow> QSortedSet option" where
  "AddMember member score z =
     (if map_of (zmembers z) member \<noteq> None \<or> dbl_nan score then None
      else Some (z\<lparr>zmembers := zmembers z @ [(member, score)],
                   zscores := snd (scores_insert score member (zscores z))\<rparr>))"

definition UpdateMember ::
  "(double \<Rightarrow> double \<Rightarrow> double) \<Rightarrow> QString \<Rightarrow> double \<Rightarrow> double \<Rightarrow> QSortedSet \<Rightarrow> (double \<times> QSortedSet) option" where
  "UpdateMember add member oldScore delta z =
     (let newScore = add oldScore delta;
          z = z\<lparr>zmembers := AList.update member newScore (zmembers z)\<rparr>
      in case scores_erase oldScore member (zscores z) of
           None \<Rightarrow> None
         | Some zs \<Rightarrow>
             if dbl_nan newScore then None
             else (case scores_insert newScore member zs of
                     (succ, zs) \<Rightarrow> if succ then Some (newScore, z\<lparr>zscores := zs\<rparr>) else None))"

text \<open>The position of a member in its bucket.\<close>

fun bucket_pos :: "QString \<Rightarrow> nat \<Rightarrow> QString list \<Rightarrow> nat option" where
  "bucket_pos m rank [] = None"
| "bucket_pos m rank (x # xs) = (if x = m then Some rank else bucket_pos m (rank + 1) xs)"

fun rank_loop :: "double \<Rightarrow> QString \<Rightarrow> nat \<Rightarrow> Score2Members \<Rightarrow> nat option" where
  "rank_loop score m rank [] = None"
| "rank_loop score m rank ((d, ms) # zs) =
     (if dbl_eq d score then bucket_pos m rank ms else rank_loop score m (rank + length ms) zs)"

definition Rank :: "QString \<Rightarrow> QSortedSet \<Rightarrow> int option" where
  "Rank member z =
     (case map_of (zmembers z) member of
        None \<Rightarrow> Some (-1)
      | Some score \<Rightarrow> map_option int (rank_loop score member 0 (zscores z)))"

definition RevRank :: "QString \<Rightarrow> QSortedSet \<Rightarrow> int option" where
  "RevRank member z =
     (case Rank member z of
        None \<Rightarrow> None
      | Some rank \<Rightarrow> if rank = -1 then Some rank else Some (int (length (zmembers z)) - (rank + 1)))"

definition DelMember :: "QString \<Rightarrow> QSortedSet \<Rightarrow> (bool \<times> QSortedSet) option" where
  "DelMember member z =
     (case map_of (zmembers z) member of
        None \<Rightarrow> Some (False, z)
      | Some score \<Rightarrow>
          (case scores_erase score member (zscores z) of
             None \<Rightarrow> None
           | Some zs \<Rightarrow> Some (True, z\<lparr>zmembers := AList.delete member (zmembers z), zscores := zs\<rparr>)))"

fun member_at :: "nat \<Rightarrow> nat \<Rightarrow> Score2Members \<Rightarrow> QString \<times> double" where
  "member_at rank iterRank [] = ([], 0)"
| "member_at rank iterRank ((d, ms) # zs) =
     (if rank < iterRank + length ms then (ms ! (rank - iterRank), d)
      else member_at rank (iterRank + length ms) zs)"

definition GetMemberByRank :: "nat \<Rightarrow> QSortedSet \<Rightarrow> QString \<times> double" where
  "GetMemberByRank rank z =
     member_at (if length (zmembers z) \<le> rank then length (zmembers z) - 1 else rank) 0 (zscores z)"

definition zSize :: "QSortedSet \<Rightarrow> nat" where
  "zSize z = length (zmembers z)"

definition RangeByRank :: "int \<Rightarrow> int \<Rightarrow> QSortedSet \<Rightarrow> (QString \<times> double) list" where
  "RangeByRank start fin z =
     (case AdjustIndex start fin (zSize z) of
        (start, fin) \<Rightarrow>
          if start > fin then [] else map (\<lambda>rank. GetMemberByRank (nat rank) z) [start..fin])"

definition RangeByScore :: "double \<Rightarrow> double \<Rightarrow> QSortedSet \<Rightarrow> (QString \<times> double) list" where
  "RangeByScore minScore maxScore z =
     (if dbl_less maxScore minScore then []
      else
        concat (map (\<lambda>(d, ms). map (\<lambda>e. (e, d)) ms)
          (takeWhile (\<lambda>(d, _). \<not> dbl_less maxScore d) (dropWhile (\<lambda>(d, _). dbl_less d minScore) (zscores z)))))"


subsection \<open>Commands\<close>

abbreviation GET_SORTEDSET :: "reply \<Rightarrow> (qobject \<Rightarrow> QSortedSet \<Rightarrow> server \<Rightarrow> result) \<Rightarrow> QString \<Rightarrow> server \<Rightarrow> result" where
  "GET_SORTEDSET r \<equiv> with_obj CastSortedSet QType_sortedSet (report r)"

abbreviation GET_OR_SET_SORTEDSET :: "reply \<Rightarrow> (qobject \<Rightarrow> QSortedSet \<Rightarrow> server \<Rightarrow> result) \<Rightarrow> QString \<Rightarrow> server \<Rightarrow> result" where
  "GET_OR_SET_SORTEDSET r \<equiv> with_new CastSortedSet QType_sortedSet CreateSSet (report r)"

definition put_zset :: "QString \<Rightarrow> qobject \<Rightarrow> QSortedSet \<Rightarrow> server \<Rightarrow> server" where
  "put_zset key value z = put_obj key (value\<lparr>oval := VSSet z\<rparr>)"

type_synonym strtod = "string \<Rightarrow> (double \<times> nat) option"

text \<open>
  ZADD leaves members that are there as they are, and what it has added before a score that is no
  number stays.
\<close>

fun zadd_loop :: "strtod \<Rightarrow> QString list \<Rightarrow> nat \<Rightarrow> QSortedSet \<Rightarrow> (bool \<times> nat \<times> QSortedSet) option" where
  "zadd_loop strtod (sc # m # rest) n z =
     (case Strtod strtod sc of
        None \<Rightarrow> Some (False, n, z)
      | Some score \<Rightarrow>
          if map_of (zmembers z) m = None then
            (case AddMember m score z of None \<Rightarrow> None | Some z \<Rightarrow> zadd_loop strtod rest (n + 1) z)
          else zadd_loop strtod rest n z)"
| "zadd_loop strtod _ n z = Some (True, n, z)"

definition zadd_cmd :: "strtod \<Rightarrow> handler" where
  "zadd_cmd strtod params r s =
     (if length params mod 2 \<noteq> 0 then fail QError_syntax QError_syntax r s
      else
        GET_OR_SET_SORTEDSET r
          (\<lambda>value z s. case zadd_loop strtod (drop 2 params) 0 z of
             None \<Rightarrow> None
           | Some (ok, newMembers, z) \<Rightarrow>
               let s = put_zset (params ! 1) value z s
               in if ok then Some (QError_ok, FormatInt (int newMembers) r, s)
                  else fail QError_nan QError_nan r s) (params ! 1) s)"

definition zcard_cmd :: handler where
  "zcard_cmd params r =
     GET_SORTEDSET r (\<lambda>value z s. Some (QError_ok, FormatInt (int (zSize z)) r, s)) (params ! 1)"

definition rank_reply :: "int option \<Rightarrow> reply \<Rightarrow> server \<Rightarrow> result" where
  "rank_reply rank r s =
     (case rank of
        None \<Rightarrow> None
      | Some n \<Rightarrow> Some (QError_ok, if n \<noteq> -1 then FormatInt n r else FormatNull r, s))"

definition zrank_cmd :: handler where
  "zrank_cmd params r = GET_SORTEDSET r (\<lambda>value z s. rank_reply (Rank (params ! 2) z) r s) (params ! 1)"

definition zrevrank_cmd :: handler where
  "zrevrank_cmd params r = GET_SORTEDSET r (\<lambda>value z s. rank_reply (RevRank (params ! 2) z) r s) (params ! 1)"

fun del_members :: "QString list \<Rightarrow> nat \<Rightarrow> QSortedSet \<Rightarrow> (nat \<times> QSortedSet) option" where
  "del_members [] n z = Some (n, z)"
| "del_members (m # ms) n z =
     (case DelMember m z of
        None \<Rightarrow> None
      | Some (b, z) \<Rightarrow> del_members ms (if b then n + 1 else n) z)"

definition zrem_cmd :: handler where
  "zrem_cmd params r =
     GET_SORTEDSET r
       (\<lambda>value z s. case del_members (drop 2 params) 0 z of
          None \<Rightarrow> None
        | Some (cnt, z) \<Rightarrow> Some (QError_ok, FormatInt (int cnt) r, put_zset (params ! 1) value z s)) (params ! 1)"

definition zincrby_cmd :: "strtod \<Rightarrow> (double \<Rightarrow> double \<Rightarrow> double) \<Rightarrow> handler" where
  "zincrby_cmd strtod add params r =
     GET_OR_SET_SORTEDSET r
       (\<lambda>value z s. case Strtod strtod (params ! 2) of
          None \<Rightarrow> fail QError_nan QError_nan r s
        | Some delta \<Rightarrow>
            (case (case map_of (zmembers z) (params ! 3) of
                     None \<Rightarrow> map_option (Pair delta) (AddMember (params ! 3) delta z)
                   | Some oldScore \<Rightarrow> UpdateMember add (params ! 3) oldScore delta z) of
               None \<Rightarrow> None
             | Some (newScore, z) \<Rightarrow>
                 Some (QError_ok, FormatInt (dbl_to_long newScore) r, put_zset (params ! 1) value z s))) (params ! 1)"

definition zscore_cmd :: handler where
  "zscore_cmd params r =
     GET_SORTEDSET r
       (\<lambda>value z s. Some (QError_ok,
          (case map_of (zmembers z) (params ! 2) of
             None \<Rightarrow> FormatNull r
           | Some score \<Rightarrow> FormatInt (dbl_to_long score) r), s)) (params ! 1)"

text \<open>The option \<open>withscores\<close> of the range commands: \<^const>\<open>None\<close> is a syntax error.\<close>

definition with_scores :: "QString list \<Rightarrow> bool option" where
  "with_scores params =
     (if length params = 5 \<and> strncaseeq (params ! 4) ''withscores'' 10 then Some True
      else if 5 \<le> length params then None else Some False)"

definition format_members :: "bool \<Rightarrow> (QString \<times> double) list \<Rightarrow> reply \<Rightarrow> reply" where
  "format_members withScore res r =
     fold (\<lambda>(m, d) r. let r = FormatBulk m r in if withScore then FormatBulk (Double2Str 64 d) r else r) res
       (PreFormatMultiBulk (if withScore then length res * 2 else length res) r)"

definition GenericRange :: "bool \<Rightarrow> handler" where
  "GenericRange rever params r =
     GET_SORTEDSET r
       (\<lambda>value z s. case with_scores params of
          None \<Rightarrow> fail QError_syntax QError_syntax r s
        | Some withScore \<Rightarrow>
            (case (Strtol (params ! 2), Strtol (params ! 3)) of
               (Some start, Some fin) \<Rightarrow>
                 (let res = RangeByRank start fin z
                  in if res = [] then Some (QError_ok, FormatNullArray r, s)
                     else Some (QError_ok, format_members withScore (if rever then rev res else res) r, s))
             | _ \<Rightarrow> fail QError_param QError_param r s)) (params ! 1)"

definition zrange_cmd :: handler where
  "zrange_cmd = GenericRange False"

definition zrevrange_cmd :: handler where
  "zrevrange_cmd = GenericRange True"

definition GenericScoreRange :: "bool \<Rightarrow> handler" where
  "GenericScoreRange rever params r =
     GET_SORTEDSET r
       (\<lambda>value z s. case with_scores params of
          None \<Rightarrow> fail QError_syntax QError_syntax r s
        | Some withScore \<Rightarrow>
            (case (Strtol (params ! 2), Strtol (params ! 3)) of
               (Some minScore, Some maxScore) \<Rightarrow>
                 (let res = RangeByScore (long_to_dbl minScore) (long_to_dbl maxScore) z
                  in if res = [] then Some (QError_ok, FormatNull r, s)
                     else Some (QError_ok, format_members withScore (if rever then rev res else res) r, s))
             | _ \<Rightarrow> fail QError_nan QError_nan r s)) (params ! 1)"

definition zrangebyscore_cmd :: handler where
  "zrangebyscore_cmd = GenericScoreRange False"

definition zrevrangebyscore_cmd :: handler where
  "zrevrangebyscore_cmd = GenericScoreRange True"

text \<open>The removal of what a range query found; every deletion must succeed.\<close>

fun del_found :: "(QString \<times> double) list \<Rightarrow> QSortedSet \<Rightarrow> QSortedSet option" where
  "del_found [] z = Some z"
| "del_found ((m, _) # res) z =
     (case DelMember m z of Some (True, z) \<Rightarrow> del_found res z | _ \<Rightarrow> None)"

definition GenericRemRange :: "strtod \<Rightarrow> bool \<Rightarrow> handler" where
  "GenericRemRange strtod useRank params r =
     GET_SORTEDSET r
       (\<lambda>value z s. case (Strtod strtod (params ! 2), Strtod strtod (params ! 3)) of
          (Some start, Some fin) \<Rightarrow>
            (let res =
                  (if useRank then
                     (case AdjustIndex (dbl_to_long start) (dbl_to_long fin) (zSize z) of
                        (lstart, lend) \<Rightarrow> RangeByRank lstart lend z)
                   else RangeByScore start fin z)
             in if res = [] then Some (QError_ok, Format0 r, s)
                else
                  (case del_found res z of
                     None \<Rightarrow> None
                   | Some z \<Rightarrow>
                       let s = put_zset (params ! 1) value z s;
                           s = (if zSize z = 0 then snd (DeleteKey (params ! 1) s) else s)
                       in Some (QError_ok, FormatInt (int (length res)) r, s)))
        | _ \<Rightarrow> fail QError_nan QError_nan r s) (params ! 1)"

definition zremrangebyrank_cmd :: "strtod \<Rightarrow> handler" where
  "zremrangebyrank_cmd strtod = GenericRemRange strtod True"

definition zremrangebyscore_cmd :: "strtod \<Rightarrow> handler" where
  "zremrangebyscore_cmd strtod = GenericRemRange strtod False"

subsection \<open>The invariant, bucket by bucket\<close>

definition buckets_ok :: "Score2Members \<Rightarrow> bool" where
  "buckets_ok zs \<longleftrightarrow> sorted_wrt (<) (map (dbl_key \<circ> fst) zs) \<and> (\<forall>(d, ms) \<in> set zs. \<not> dbl_nan d \<and> sorted_wrt (<) ms)"

definition in_bucket :: "Score2Members \<Rightarrow> int \<Rightarrow> QString \<Rightarrow> bool" where
  "in_bucket zs k m \<longleftrightarrow> (\<exists>(d, ms) \<in> set zs. dbl_key d = k \<and> m \<in> set ms)"

lemma buckets_ok_simps [simp]:
  "buckets_ok []"
  "buckets_ok ((d, ms) # zs) \<longleftrightarrow>
     (\<forall>(d', ms') \<in> set zs. dbl_key d < dbl_key d') \<and> \<not> dbl_nan d \<and> sorted_wrt (<) ms \<and> buckets_ok zs"
  by (auto simp: buckets_ok_def)

lemma in_bucket_simps [simp]:
  "\<not> in_bucket [] k m" "in_bucket ((d, ms) # zs) k m \<longleftrightarrow> dbl_key d = k \<and> m \<in> set ms \<or> in_bucket zs k m"
  by (auto simp: in_bucket_def)

lemma in_bucket_bound: "\<forall>(d', ms') \<in> set zs. k0 < dbl_key d' \<Longrightarrow> in_bucket zs k m \<Longrightarrow> k0 < k"
  by (auto simp: in_bucket_def)

lemma zset_ok_iff:
  "zset_ok z \<longleftrightarrow> keys_distinct (zmembers z) \<and> buckets_ok (zscores z) \<and>
     (\<forall>m d. map_of (zmembers z) m = Some d \<longrightarrow> \<not> dbl_nan d) \<and>
     (\<forall>k m. in_bucket (zscores z) k m \<longleftrightarrow> (\<exists>d. map_of (zmembers z) m = Some d \<and> dbl_key d = k))"
proof -
  have mem: "(\<forall>(m, d) \<in> set (zmembers z). P m d) \<longleftrightarrow> (\<forall>m d. map_of (zmembers z) m = Some d \<longrightarrow> P m d)"
    if "keys_distinct (zmembers z)" for P
    using that by (fastforce simp: keys_distinct_def)
  have bk: "(\<forall>(d, ms) \<in> set (zscores z). \<not> dbl_nan d \<and> sorted_wrt (<) ms \<and> (\<forall>m \<in> set ms. Q d m)) \<longleftrightarrow>
      (\<forall>(d, ms) \<in> set (zscores z). \<not> dbl_nan d \<and> sorted_wrt (<) ms) \<and>
      (\<forall>(d, ms) \<in> set (zscores z). \<forall>m \<in> set ms. Q d m)" for Q
    by blast
  have ib: "(\<forall>(d, ms) \<in> set (zscores z). \<forall>m \<in> set ms. \<exists>d'. map_of (zmembers z) m = Some d' \<and> dbl_key d' = dbl_key d) \<longleftrightarrow>
      (\<forall>k m. in_bucket (zscores z) k m \<longrightarrow> (\<exists>d. map_of (zmembers z) m = Some d \<and> dbl_key d = k))"
    by (fastforce simp: in_bucket_def)
  show ?thesis
  proof (cases "keys_distinct (zmembers z)")
    case True
    show ?thesis
      unfolding zset_ok_def bk ib mem [OF True] buckets_ok_def in_bucket_def [symmetric] using True by blast
  qed (simp add: zset_ok_def)
qed

lemma bucket_insert_spec:
  "bucket_insert m xs = (b, ys) \<Longrightarrow> sorted_wrt (<) xs \<Longrightarrow>
    sorted_wrt (<) ys \<and> set ys = insert m (set xs) \<and> (b \<longleftrightarrow> m \<notin> set xs)"
proof (induction m xs arbitrary: b ys rule: bucket_insert.induct)
  case (2 m x xs)
  show ?case
  proof (cases "x < m")
    case True
    obtain b' ys' where r: "bucket_insert m xs = (b', ys')" by (cases "bucket_insert m xs")
    have "sorted_wrt (<) ys' \<and> set ys' = insert m (set xs) \<and> (b' \<longleftrightarrow> m \<notin> set xs)"
      using "2.IH" [OF True r] "2.prems"(2) by simp
    then show ?thesis using "2.prems" True r by auto
  next
    case False
    then show ?thesis using "2.prems" order.strict_trans [of m x] by (cases "m < x") auto
  qed
qed auto

lemma dbl_less_key: "\<not> dbl_nan a \<Longrightarrow> \<not> dbl_nan b \<Longrightarrow> dbl_less a b \<longleftrightarrow> dbl_key a < dbl_key b"
  by (simp add: dbl_less_def)

lemma scores_insert_keys: "e \<in> fst ` set (snd (scores_insert d m zs)) \<Longrightarrow> e = d \<or> e \<in> fst ` set zs"
proof (induction d m zs rule: scores_insert.induct)
  case (2 d m d' ms zs)
  show ?case
  proof (cases "dbl_less d' d")
    case True
    obtain b ys where "scores_insert d m zs = (b, ys)" by (cases "scores_insert d m zs")
    then show ?thesis using 2 True by auto
  qed (use "2.prems" in \<open>auto split: if_splits prod.splits\<close>)
qed simp

lemma scores_insert_spec:
  "buckets_ok zs \<Longrightarrow> \<not> dbl_nan d \<Longrightarrow>
    buckets_ok (snd (scores_insert d m zs)) \<and>
    (\<forall>k x. in_bucket (snd (scores_insert d m zs)) k x \<longleftrightarrow> in_bucket zs k x \<or> k = dbl_key d \<and> x = m) \<and>
    (fst (scores_insert d m zs) \<longleftrightarrow> \<not> in_bucket zs (dbl_key d) m)"
proof (induction d m zs rule: scores_insert.induct)
  case (2 d m d' ms zs)
  have n: "\<not> dbl_nan d'" "sorted_wrt (<) ms" "buckets_ok zs" "\<forall>(e, ms') \<in> set zs. dbl_key d' < dbl_key e"
    using "2.prems"(1) by simp_all
  note less = dbl_less_key [OF n(1) "2.prems"(2)] dbl_less_key [OF "2.prems"(2) n(1)]
  consider "dbl_key d' < dbl_key d" | "dbl_key d < dbl_key d'" | "dbl_key d' = dbl_key d" by linarith
  then show ?case
  proof cases
    case 1
    obtain b ys where r: "scores_insert d m zs = (b, ys)" by (cases "scores_insert d m zs")
    have ih: "buckets_ok ys" "\<forall>k x. in_bucket ys k x \<longleftrightarrow> in_bucket zs k x \<or> k = dbl_key d \<and> x = m"
      "b \<longleftrightarrow> \<not> in_bucket zs (dbl_key d) m"
      using "2.IH"(1) 1 less(1) n(3) "2.prems"(2) r by simp_all
    have "\<And>e. e \<in> fst ` set ys \<Longrightarrow> e = d \<or> e \<in> fst ` set zs" using scores_insert_keys [of _ d m zs] r by simp
    then have "\<forall>(e, ms') \<in> set ys. dbl_key d' < dbl_key e" using n(4) 1 by force
    then show ?thesis using 1 less n ih r by auto
  next
    case 2
    have "\<forall>(e, ms') \<in> set zs. dbl_key d < dbl_key e" using n(4) 2 by fastforce
    moreover from this have "\<not> in_bucket zs (dbl_key d) m" using in_bucket_bound by fastforce
    ultimately show ?thesis using 2 less n "2.prems" by auto
  next
    case 3
    obtain b ys where b: "bucket_insert m ms = (b, ys)" by (cases "bucket_insert m ms")
    note i = bucket_insert_spec [OF b n(2)]
    have "\<not> in_bucket zs (dbl_key d) m" using in_bucket_bound [OF n(4), of "dbl_key d" m] 3 by auto
    then show ?thesis using 3 less n b i by auto
  qed
qed auto

lemma scores_erase_spec:
  "buckets_ok zs \<Longrightarrow> \<not> dbl_nan d \<Longrightarrow> in_bucket zs (dbl_key d) m \<Longrightarrow>
    \<exists>zs'. scores_erase d m zs = Some zs' \<and> buckets_ok zs' \<and>
    (\<forall>k x. in_bucket zs' k x \<longleftrightarrow> in_bucket zs k x \<and> \<not> (k = dbl_key d \<and> x = m)) \<and>
    map fst zs' = map fst zs"
proof (induction d m zs rule: scores_erase.induct)
  case (2 d m d' ms zs)
  have n: "\<not> dbl_nan d'" "sorted_wrt (<) ms" "buckets_ok zs" "\<forall>(e, ms') \<in> set zs. dbl_key d' < dbl_key e"
    using "2.prems"(1) by simp_all
  note less = dbl_less_key [OF n(1) "2.prems"(2)] dbl_less_key [OF "2.prems"(2) n(1)]
  consider "dbl_key d' < dbl_key d" | "dbl_key d' = dbl_key d"
    using "2.prems"(3) in_bucket_bound [OF n(4), of "dbl_key d" m] by fastforce
  then show ?case
  proof cases
    case 1
    then have "in_bucket zs (dbl_key d) m" using "2.prems"(3) by auto
    with "2.IH" 1 less n(3) "2.prems"(2) obtain zs' where z: "scores_erase d m zs = Some zs'" "buckets_ok zs'"
      "\<forall>k x. in_bucket zs' k x \<longleftrightarrow> in_bucket zs k x \<and> \<not> (k = dbl_key d \<and> x = m)" "map fst zs' = map fst zs" by blast
    have "fst ` set zs' = fst ` set zs" using z(4) by (metis list.set_map)
    then have "\<forall>(e, ms') \<in> set zs'. dbl_key d' < dbl_key e" using n(4) by force
    then show ?thesis using 1 less n z by auto
  next
    case 2
    have z: "\<not> in_bucket zs (dbl_key d) x" for x using in_bucket_bound [OF n(4), of "dbl_key d" x] 2 by auto
    then have "m \<in> set ms" using "2.prems"(3) 2 by auto
    moreover have "sorted_wrt (<) (removeAll m ms)"
      using n(2) by (simp add: removeAll_filter_not_eq sorted_wrt_filter)
    ultimately show ?thesis using 2 less n z by auto
  qed
qed simp


subsection \<open>The operations keep it\<close>

lemma zset_okD:
  assumes "zset_ok z"
  shows "keys_distinct (zmembers z)" "buckets_ok (zscores z)" "map_of (zmembers z) m = Some d \<Longrightarrow> \<not> dbl_nan d"
    "in_bucket (zscores z) k m \<longleftrightarrow> (\<exists>d. map_of (zmembers z) m = Some d \<and> dbl_key d = k)"
  using assms unfolding zset_ok_iff by blast+

lemma zset_ok_empty [simp]: "zset_ok \<lparr>zscores = [], zmembers = []\<rparr>"
  by (simp add: zset_ok_iff)

lemma AddMember_step:
  assumes "zset_ok z" "map_of (zmembers z) m = None" "\<not> dbl_nan d"
  obtains z' where "AddMember m d z = Some z'" "zset_ok z'" "map_of (zmembers z') = (map_of (zmembers z))(m \<mapsto> d)"
proof -
  note z = zset_okD [OF assms(1)]
  define z' where "z' = z\<lparr>zmembers := zmembers z @ [(m, d)], zscores := snd (scores_insert d m (zscores z))\<rparr>"
  have a: "AddMember m d z = Some z'" using assms(2,3) by (simp add: AddMember_def z'_def)
  have mm: "map_of (zmembers z') = (map_of (zmembers z))(m \<mapsto> d)"
    using assms(2) by (auto simp: z'_def map_add_def fun_eq_iff split: option.split)
  note i = scores_insert_spec [OF z(2) assms(3), of m]
  have "keys_distinct (zmembers z')" using z(1) assms(2) by (auto simp: z'_def keys_distinct_def map_of_eq_None_iff)
  moreover have "buckets_ok (zscores z')" using i by (simp add: z'_def)
  moreover have "\<forall>x e. map_of (zmembers z') x = Some e \<longrightarrow> \<not> dbl_nan e" using mm z(3) assms(3) by auto
  moreover have "in_bucket (zscores z') k x \<longleftrightarrow> (\<exists>e. map_of (zmembers z') x = Some e \<and> dbl_key e = k)" for k x
    using i z(4) [of k x] mm assms(2) by (auto simp: z'_def)
  ultimately have "zset_ok z'" by (simp add: zset_ok_iff)
  from that [OF a this mm] show thesis .
qed

lemma DelMember_step:
  assumes "zset_ok z" "map_of (zmembers z) m = Some d"
  obtains z' where "DelMember m z = Some (True, z')" "zset_ok z'" "map_of (zmembers z') = (map_of (zmembers z))(m := None)"
proof -
  note z = zset_okD [OF assms(1)]
  have "in_bucket (zscores z) (dbl_key d) m" using z(4) assms(2) by blast
  from scores_erase_spec [OF z(2) z(3) [OF assms(2)] this] obtain zs where
    e: "scores_erase d m (zscores z) = Some zs" "buckets_ok zs"
      "\<And>k x. in_bucket zs k x \<longleftrightarrow> in_bucket (zscores z) k x \<and> \<not> (k = dbl_key d \<and> x = m)" by blast
  define z' where "z' = z\<lparr>zmembers := AList.delete m (zmembers z), zscores := zs\<rparr>"
  have "in_bucket (zscores z') k x \<longleftrightarrow> (\<exists>e. map_of (zmembers z') x = Some e \<and> dbl_key e = k)" for k x
    using e(3) z(4) assms(2) by (auto simp: z'_def)
  then have "zset_ok z'"
    using z(1,3) e(2) by (auto simp: zset_ok_iff z'_def keys_distinct_delete split: if_splits)
  then show thesis by (intro that [of z']) (simp_all add: DelMember_def assms(2) e(1) z'_def)
qed

lemma UpdateMember_step:
  assumes "zset_ok z" "map_of (zmembers z) m = Some d" "\<not> dbl_nan (add d e)"
  obtains z' where "UpdateMember add m d e z = Some (add d e, z')" "zset_ok z'"
    "map_of (zmembers z') = (map_of (zmembers z))(m \<mapsto> add d e)"
proof -
  note z = zset_okD [OF assms(1)]
  have "in_bucket (zscores z) (dbl_key d) m" using z(4) assms(2) by blast
  from scores_erase_spec [OF z(2) z(3) [OF assms(2)] this] obtain zs where
    e: "scores_erase d m (zscores z) = Some zs" "buckets_ok zs"
      "\<And>k x. in_bucket zs k x \<longleftrightarrow> in_bucket (zscores z) k x \<and> \<not> (k = dbl_key d \<and> x = m)" by blast
  have gone: "\<not> in_bucket zs k m" for k using e(3) z(4) assms(2) by auto
  obtain b zs' where r: "scores_insert (add d e) m zs = (b, zs')" by (cases "scores_insert (add d e) m zs")
  have i: "buckets_ok zs'" "b" "\<And>k x. in_bucket zs' k x \<longleftrightarrow> in_bucket zs k x \<or> k = dbl_key (add d e) \<and> x = m"
    using scores_insert_spec [OF e(2) assms(3), of m] gone r by simp_all
  define z' where "z' = z\<lparr>zmembers := AList.update m (add d e) (zmembers z), zscores := zs'\<rparr>"
  have "in_bucket (zscores z') k x \<longleftrightarrow> (\<exists>e. map_of (zmembers z') x = Some e \<and> dbl_key e = k)" for k x
    using i(3) e(3) z(4) assms(2) by (auto simp: z'_def)
  then have "zset_ok z'"
    using z(1,3) i(1) assms(3) by (auto simp: zset_ok_iff z'_def keys_distinct_update split: if_splits)
  then show thesis using e(1) r i(2) assms(3)
    by (intro that [of z']) (simp_all add: UpdateMember_def z'_def Let_def)
qed

subsection \<open>Ranks\<close>

text \<open>The members with their scores in the order of the buckets.\<close>

definition zpairs :: "Score2Members \<Rightarrow> (QString \<times> double) list" where
  "zpairs zs = concat (map (\<lambda>(d, ms). map (\<lambda>e. (e, d)) ms) zs)"

definition zorder :: "QSortedSet \<Rightarrow> QString list" where
  "zorder z = map fst (zpairs (zscores z))"

lemma zpairs_simps [simp]: "zpairs [] = []" "zpairs ((d, ms) # zs) = map (\<lambda>e. (e, d)) ms @ zpairs zs"
  by (simp_all add: zpairs_def)

lemma in_zpairs: "(m, d) \<in> set (zpairs zs) \<longleftrightarrow> (\<exists>ms. (d, ms) \<in> set zs \<and> m \<in> set ms)"
  by (induction zs) auto

text \<open>By score, then by name.\<close>

definition pair_before :: "QString \<times> double \<Rightarrow> QString \<times> double \<Rightarrow> bool" where
  "pair_before a b \<longleftrightarrow> dbl_key (snd a) < dbl_key (snd b) \<or> dbl_key (snd a) = dbl_key (snd b) \<and> fst a < fst b"

lemma zpairs_sorted: "buckets_ok zs \<Longrightarrow> sorted_wrt pair_before (zpairs zs)"
proof (induction zs)
  case (Cons b zs)
  obtain d ms where b: "b = (d, ms)" by (cases b)
  have "sorted_wrt pair_before (map (\<lambda>e. (e, d)) ms)"
    using Cons.prems b by (simp add: sorted_wrt_map pair_before_def)
  moreover have "\<forall>x \<in> set (map (\<lambda>e. (e, d)) ms). \<forall>y \<in> set (zpairs zs). pair_before x y"
    using Cons.prems b by (fastforce simp: in_zpairs pair_before_def)
  ultimately show ?case using Cons b by (simp add: sorted_wrt_append)
qed simp

lemma zpairs_members:
  assumes "zset_ok z"
  shows "(\<exists>d'. (m, d') \<in> set (zpairs (zscores z)) \<and> dbl_key d' = k) \<longleftrightarrow>
    (\<exists>d. map_of (zmembers z) m = Some d \<and> dbl_key d = k)"
  using zset_okD(4) [OF assms, of k m] by (auto simp: in_bucket_def in_zpairs)

lemma zorder_set: "zset_ok z \<Longrightarrow> set (zorder z) = dom (map_of (zmembers z))"
proof -
  assume z: "zset_ok z"
  have "m \<in> set (zorder z) \<longleftrightarrow> (\<exists>d'. (m, d') \<in> set (zpairs (zscores z)))" for m by (force simp: zorder_def)
  then show ?thesis using zpairs_members [OF z] by blast
qed

lemma zorder_distinct: "zset_ok z \<Longrightarrow> distinct (zorder z)"
proof -
  assume z: "zset_ok z"
  have "sorted_wrt (\<lambda>a b. fst a \<noteq> fst b) (zpairs (zscores z))"
  proof (rule sorted_wrt_mono_rel [OF _ zpairs_sorted [OF zset_okD(2) [OF z]]])
    fix a b
    assume ab: "a \<in> set (zpairs (zscores z))" "b \<in> set (zpairs (zscores z))" "pair_before a b"
    then have "fst a = fst b \<Longrightarrow> dbl_key (snd a) = dbl_key (snd b)"
      using zpairs_members [OF z, of "fst a"] by (metis option.inject prod.collapse)
    then show "fst a \<noteq> fst b" using ab(3) by (auto simp: pair_before_def)
  qed
  then show ?thesis by (simp add: zorder_def distinct_conv_nth sorted_wrt_iff_nth_less) (metis linorder_neqE_nat)
qed

lemma zorder_length: "zset_ok z \<Longrightarrow> length (zorder z) = zSize z"
proof -
  assume z: "zset_ok z"
  have "length (zorder z) = card (dom (map_of (zmembers z)))"
    using zorder_distinct [OF z] zorder_set [OF z] distinct_card by fastforce
  also have "\<dots> = length (map fst (zmembers z))"
    using zset_okD(1) [OF z] by (simp only: keys_distinct_def dom_map_of_conv_image_fst distinct_card list.set_map [symmetric])
  finally show ?thesis by (simp add: zSize_def)
qed

lemma bucket_pos_spec: "m \<in> set ms \<Longrightarrow> \<exists>i < length ms. bucket_pos m r ms = Some (r + i) \<and> ms ! i = m"
proof (induction m r ms rule: bucket_pos.induct)
  case (2 m r x xs)
  show ?case
  proof (cases "x = m")
    case False
    then obtain i where "i < length xs" "bucket_pos m (r + 1) xs = Some (r + 1 + i)" "xs ! i = m" using 2 by auto
    then show ?thesis using False by (intro exI [of _ "Suc i"]) simp
  qed auto
qed simp

lemma rank_loop_spec:
  "buckets_ok zs \<Longrightarrow> \<not> dbl_nan d \<Longrightarrow> in_bucket zs (dbl_key d) m \<Longrightarrow>
    \<exists>i < length (zpairs zs). rank_loop d m r zs = Some (r + i) \<and> fst (zpairs zs ! i) = m"
proof (induction d m r zs rule: rank_loop.induct)
  case (2 d m r d' ms zs)
  have n: "\<not> dbl_nan d'" "buckets_ok zs" "\<forall>(e, ms') \<in> set zs. dbl_key d' < dbl_key e" using "2.prems"(1) by simp_all
  show ?case
  proof (cases "dbl_key d' = dbl_key d")
    case True
    then have "m \<in> set ms" using "2.prems"(3) in_bucket_bound [OF n(3), of "dbl_key d" m] by auto
    from bucket_pos_spec [OF this, of r] obtain i where i: "i < length ms" "bucket_pos m r ms = Some (r + i)" "ms ! i = m" by blast
    then show ?thesis using True n(1) "2.prems"(2) by (intro exI [of _ i]) (simp add: dbl_eq_def nth_append)
  next
    case False
    then obtain i where i: "i < length (zpairs zs)" "rank_loop d m (r + length ms) zs = Some (r + length ms + i)"
      "fst (zpairs zs ! i) = m" using 2 n(2) by (auto simp: dbl_eq_def)
    then show ?thesis using False by (intro exI [of _ "length ms + i"]) (simp add: dbl_eq_def nth_append)
  qed
qed simp


lemma index_counts_before:
  assumes "sorted_wrt P xs" "distinct xs" "i < length xs" "\<And>a b. P a b \<Longrightarrow> \<not> P b a"
  shows "card {x \<in> set xs. P x (xs ! i)} = i"
proof -
  have irr: "\<not> P a a" for a using assms(4) by blast
  have "{x \<in> set xs. P x (xs ! i)} = set (take i xs)"
  proof (intro set_eqI iffI)
    fix x
    assume "x \<in> {x \<in> set xs. P x (xs ! i)}"
    then obtain j where j: "j < length xs" "x = xs ! j" "P (xs ! j) (xs ! i)" by (auto simp: in_set_conv_nth)
    moreover have "\<not> i \<le> j"
    proof
      assume "i \<le> j"
      then have "i = j \<or> P (xs ! i) (xs ! j)" using assms(1) j(1) by (auto simp: sorted_wrt_iff_nth_less le_less)
      then show False using j(3) assms(4) irr by auto
    qed
    ultimately show "x \<in> set (take i xs)" by (auto simp: in_set_conv_nth)
  next
    fix x
    assume "x \<in> set (take i xs)"
    then obtain j where "j < i" "x = xs ! j" using assms(3) by (auto simp: in_set_conv_nth)
    then show "x \<in> {x \<in> set xs. P x (xs ! i)}" using assms(1,3) by (auto simp: sorted_wrt_iff_nth_less)
  qed
  then show ?thesis using distinct_card [of "take i xs"] assms(2,3) by simp
qed

text \<open>The members before a member, by score and then by name, as the table of members has it.\<close>

definition before :: "QSortedSet \<Rightarrow> QString \<Rightarrow> QString set" where
  "before z m = {x. \<exists>d e. map_of (zmembers z) x = Some d \<and> map_of (zmembers z) m = Some e \<and> pair_before (x, d) (m, e)}"

lemma pair_before_asym: "pair_before a b \<Longrightarrow> \<not> pair_before b a"
  by (auto simp: pair_before_def)

lemma card_before_pairs:
  assumes z: "zset_ok z" and m: "(m, e') \<in> set (zpairs (zscores z))"
  shows "card {p \<in> set (zpairs (zscores z)). pair_before p (m, e')} = card (before z m)"
proof -
  let ?ps = "zpairs (zscores z)"
  have key: "(x, d') \<in> set ?ps \<Longrightarrow> \<exists>d. map_of (zmembers z) x = Some d \<and> dbl_key d = dbl_key d'" for x d'
    using zpairs_members [OF z, of x "dbl_key d'"] by blast
  from key [OF m] obtain e where e: "map_of (zmembers z) m = Some e" "dbl_key e = dbl_key e'" by blast
  have "inj_on fst (set ?ps)" using zorder_distinct [OF z] by (simp add: zorder_def distinct_map)
  then have inj: "inj_on fst {p \<in> set ?ps. pair_before p (m, e')}" by (rule inj_on_subset) auto
  have "fst ` {p \<in> set ?ps. pair_before p (m, e')} = before z m"
  proof (intro set_eqI iffI)
    fix x
    assume "x \<in> fst ` {p \<in> set ?ps. pair_before p (m, e')}"
    then obtain d' where d': "(x, d') \<in> set ?ps" "pair_before (x, d') (m, e')" by auto
    with key [OF d'(1)] e show "x \<in> before z m" by (fastforce simp: before_def pair_before_def)
  next
    fix x
    assume "x \<in> before z m"
    then obtain d where d: "map_of (zmembers z) x = Some d" "pair_before (x, d) (m, e)" using e by (auto simp: before_def)
    from zpairs_members [OF z, of x "dbl_key d"] d(1) obtain d' where "(x, d') \<in> set ?ps" "dbl_key d' = dbl_key d" by blast
    then show "x \<in> fst ` {p \<in> set ?ps. pair_before p (m, e')}"
      using d(2) e(2) by (intro image_eqI [of _ _ "(x, d')"]) (auto simp: pair_before_def)
  qed
  then show ?thesis using card_image [OF inj] by simp
qed

lemma Rank_member:
  assumes "zset_ok z" "map_of (zmembers z) m = Some d"
  obtains i where "Rank m z = Some (int i)" "i < zSize z" "zorder z ! i = m" "i = card (before z m)"
proof -
  note z = zset_okD [OF assms(1)]
  let ?ps = "zpairs (zscores z)"
  have "in_bucket (zscores z) (dbl_key d) m" using z(4) assms(2) by blast
  from rank_loop_spec [OF z(2) z(3) [OF assms(2)] this, of 0] obtain i where
    i: "i < length ?ps" "rank_loop d m 0 (zscores z) = Some i" "fst (?ps ! i) = m" by auto
  obtain e' where e': "?ps ! i = (m, e')" using i(3) by (metis prod.collapse)
  have dp: "distinct ?ps" using zorder_distinct [OF assms(1)] by (simp add: zorder_def distinct_map)
  have "card {p \<in> set ?ps. pair_before p (?ps ! i)} = i"
    by (rule index_counts_before [OF zpairs_sorted [OF z(2)] dp i(1) pair_before_asym])
  moreover have "(m, e') \<in> set ?ps" using e' i(1) nth_mem by metis
  ultimately have "i = card (before z m)" using card_before_pairs [OF assms(1)] e' by simp
  moreover have "i < zSize z" "zorder z ! i = m" using i zorder_length [OF assms(1)] by (simp_all add: zorder_def)
  ultimately show thesis using i(2) assms(2) by (intro that [of i]) (simp_all add: Rank_def)
qed

text \<open>C9: The rank of a member of a well-formed sorted set is the number of members that come before it, by
  score and then by name; the reverse rank counts the ones behind it; what is no member has rank -1.\<close>

theorem Rank_counts:
  assumes "zset_ok z"
  shows "Rank m z = Some (if map_of (zmembers z) m = None then -1 else int (card (before z m))) \<and>
    RevRank m z = Some (if map_of (zmembers z) m = None then -1 else int (zSize z) - int (card (before z m)) - 1)"
proof (cases "map_of (zmembers z) m")
  case None
  then show ?thesis by (simp add: Rank_def RevRank_def)
next
  case (Some d)
  obtain i where i: "Rank m z = Some (int i)" "i = card (before z m)" using Rank_member [OF assms Some] .
  have "int i \<noteq> -1" by simp
  then have "RevRank m z = Some (int (zSize z) - int i - 1)" using i(1) by (simp add: RevRank_def zSize_def)
  then show ?thesis using i Some by simp
qed

subsection \<open>Ranges\<close>

lemma member_at_spec: "r < length (zpairs zs) \<Longrightarrow> member_at (i + r) i zs = zpairs zs ! r"
proof (induction zs arbitrary: i r)
  case (Cons b zs)
  obtain d ms where b: "b = (d, ms)" by (cases b)
  show ?case
  proof (cases "r < length ms")
    case True
    then show ?thesis using b by (simp add: nth_append)
  next
    case False
    then have "member_at (i + length ms + (r - length ms)) (i + length ms) zs = zpairs zs ! (r - length ms)"
      using Cons b by (intro Cons.IH) auto
    then show ?thesis using b False by (simp add: nth_append)
  qed
qed simp

lemma GetMemberByRank_spec: "zset_ok z \<Longrightarrow> r < zSize z \<Longrightarrow> GetMemberByRank r z = zpairs (zscores z) ! r"
  using member_at_spec [of r "zscores z" 0] zorder_length [of z]
  by (simp add: GetMemberByRank_def zSize_def zorder_def)

lemma upto_nth: "0 \<le> a \<Longrightarrow> b < int (length xs) \<Longrightarrow> map (\<lambda>r. xs ! nat r) [a..b] = take (nat (b - a + 1)) (drop (nat a) xs)"
  by (rule nth_equalityI) (auto simp: nat_add_distrib)

lemma RangeByRank_slice:
  assumes "zset_ok z"
  shows "RangeByRank i j z = slice i j (zpairs (zscores z))"
proof -
  have len: "length (zpairs (zscores z)) = zSize z" using zorder_length [OF assms] by (simp add: zorder_def)
  obtain a b where ab: "AdjustIndex i j (zSize z) = (a, b)" by (cases "AdjustIndex i j (zSize z)")
  note s = slice_AdjustIndex [of i j "zpairs (zscores z)" a b, unfolded len, OF ab]
  show ?thesis
  proof (cases "a \<le> b")
    case True
    then have r: "0 \<le> a" "b < int (zSize z)" using AdjustIndex_bounds [OF ab] by auto
    have "map (\<lambda>r. GetMemberByRank (nat r) z) [a..b] = map (\<lambda>r. zpairs (zscores z) ! nat r) [a..b]"
      using r by (intro map_cong) (auto intro!: GetMemberByRank_spec [OF assms])
    then show ?thesis using ab True s upto_nth [of a b "zpairs (zscores z)"] r len by (simp add: RangeByRank_def)
  qed (use ab s in \<open>simp add: RangeByRank_def\<close>)
qed

lemma zpairs_from:
  "buckets_ok zs \<Longrightarrow> \<not> dbl_nan lo \<Longrightarrow>
    zpairs (dropWhile (\<lambda>(d, _). dbl_less d lo) zs) = filter (\<lambda>(m, d). dbl_key lo \<le> dbl_key d) (zpairs zs) \<and>
    buckets_ok (dropWhile (\<lambda>(d, _). dbl_less d lo) zs)"
proof (induction zs)
  case (Cons b zs)
  obtain d ms where b: "b = (d, ms)" by (cases b)
  show ?case
  proof (cases "dbl_less d lo")
    case True
    then show ?thesis using Cons b by (auto simp: dbl_less_def)
  next
    case False
    then have "dbl_key lo \<le> dbl_key d" using Cons.prems b by (auto simp: dbl_less_def)
    moreover from this have "\<forall>(m, e) \<in> set (zpairs zs). dbl_key lo \<le> dbl_key e" using Cons.prems b by (force simp: in_zpairs)
    ultimately show ?thesis using False Cons.prems b by (auto simp: filter_id_conv)
  qed
qed simp

lemma zpairs_upto:
  "buckets_ok zs \<Longrightarrow> \<not> dbl_nan hi \<Longrightarrow>
    zpairs (takeWhile (\<lambda>(d, _). \<not> dbl_less hi d) zs) = filter (\<lambda>(m, d). dbl_key d \<le> dbl_key hi) (zpairs zs)"
proof (induction zs)
  case (Cons b zs)
  obtain d ms where b: "b = (d, ms)" by (cases b)
  show ?case
  proof (cases "dbl_less hi d")
    case False
    then show ?thesis using Cons b by (auto simp: dbl_less_def filter_id_conv)
  next
    case True
    then have k: "dbl_key hi < dbl_key d" by (auto simp: dbl_less_def)
    then have "\<forall>(m, e) \<in> set (zpairs zs). \<not> dbl_key e \<le> dbl_key hi" using Cons.prems b by (force simp: in_zpairs)
    then have "filter (\<lambda>(m, d). dbl_key d \<le> dbl_key hi) (zpairs zs) = []" by (auto simp: filter_empty_conv)
    then show ?thesis using True k b by (simp add: filter_empty_conv)
  qed
qed simp

text \<open>The members a range of scores selects are exactly those whose score is between the bounds, in the
  order of the set, whenever neither bound is a NaN.\<close>

theorem RangeByScore_selects:
  assumes "zset_ok z" "\<not> dbl_nan lo" "\<not> dbl_nan hi"
  shows "RangeByScore lo hi z = filter (\<lambda>(m, d). dbl_key lo \<le> dbl_key d \<and> dbl_key d \<le> dbl_key hi) (zpairs (zscores z))"
proof -
  let ?f = "filter (\<lambda>(m, d). dbl_key lo \<le> dbl_key d \<and> dbl_key d \<le> dbl_key hi) (zpairs (zscores z))"
  note d = zpairs_from [OF zset_okD(2) [OF assms(1)] assms(2)]
  have "zpairs (takeWhile (\<lambda>(d, _). \<not> dbl_less hi d) (dropWhile (\<lambda>(d, _). dbl_less d lo) (zscores z))) = ?f"
    using zpairs_upto [OF conjunct2 [OF d] assms(3)] conjunct1 [OF d]
    by (simp add: conj_commute case_prod_unfold)
  moreover have "dbl_less hi lo \<Longrightarrow> ?f = []" by (auto simp: dbl_less_def filter_empty_conv)
  ultimately show ?thesis by (auto simp: RangeByScore_def zpairs_def)
qed

subsection \<open>Sorted sets as values\<close>

lemma CastSortedSet_eq: "CastSortedSet v = Some z \<longleftrightarrow> v = VSSet z"
  by (cases v) auto

interpretation zset_obj: typed_value QType_sortedSet CastSortedSet VSSet zset_ok CreateSSet "\<lparr>zscores = [], zmembers = []\<rparr>"
proof
  fix v :: qvalue
  show "CastSortedSet v \<noteq> None \<longleftrightarrow> vtype v = QType_sortedSet" by (cases v) auto
qed (simp_all add: CastSortedSet_eq CreateSSet_def Obj_Reset_def QObject_new_def obj_ok_def)

lemma put_zset_ok: "store_ok s \<Longrightarrow> obj_ok ob \<Longrightarrow> CastSortedSet (oval ob) = Some z \<Longrightarrow> zset_ok z' \<Longrightarrow> store_ok (put_zset k ob z' s)"
  unfolding put_zset_def by (rule zset_obj.put_ok)

lemma CastSortedSet_ok: "obj_ok ob \<Longrightarrow> CastSortedSet (oval ob) = Some z \<Longrightarrow> zset_ok z"
  by (rule zset_obj.good_prj)

lemma AddMember_ok: "AddMember m d z = Some z' \<Longrightarrow> zset_ok z \<Longrightarrow> zset_ok z'"
proof -
  assume a: "AddMember m d z = Some z'" and z: "zset_ok z"
  then have "map_of (zmembers z) m = None" "\<not> dbl_nan d" by (auto simp: AddMember_def split: if_splits)
  from AddMember_step [OF z this] a show "zset_ok z'" by auto
qed

lemma DelMember_ok: "DelMember m z = Some (b, z') \<Longrightarrow> zset_ok z \<Longrightarrow> zset_ok z'"
proof -
  assume a: "DelMember m z = Some (b, z')" and z: "zset_ok z"
  show "zset_ok z'"
  proof (cases "map_of (zmembers z) m")
    case None
    then show ?thesis using a z by (simp add: DelMember_def)
  next
    case (Some d)
    from DelMember_step [OF z Some] a show ?thesis by auto
  qed
qed

lemma UpdateMember_ok:
  "UpdateMember add m d e z = Some (x, z') \<Longrightarrow> zset_ok z \<Longrightarrow> map_of (zmembers z) m = Some d \<Longrightarrow> zset_ok z'"
proof -
  assume a: "UpdateMember add m d e z = Some (x, z')" and z: "zset_ok z" "map_of (zmembers z) m = Some d"
  have "\<not> dbl_nan (add d e)" using a by (auto simp: UpdateMember_def Let_def split: option.splits if_splits)
  from UpdateMember_step [where add = add and d = d and e = e, OF z this] a show "zset_ok z'" by auto
qed

lemma zadd_loop_ok: "zadd_loop st xs n z = Some (b, n', z') \<Longrightarrow> zset_ok z \<Longrightarrow> zset_ok z'"
  by (induction st xs n z rule: zadd_loop.induct) (auto split: option.splits if_splits dest: AddMember_ok)

lemma del_members_ok: "del_members ms n z = Some (n', z') \<Longrightarrow> zset_ok z \<Longrightarrow> zset_ok z'"
  by (induction ms n z rule: del_members.induct) (auto split: option.splits prod.splits dest: DelMember_ok)

lemma del_found_ok: "del_found res z = Some z' \<Longrightarrow> zset_ok z \<Longrightarrow> zset_ok z'"
  by (induction res z rule: del_found.induct) (auto split: option.splits bool.splits dest: DelMember_ok)

lemma safe_new_zset:
  assumes "\<And>ob z s. store_ok s \<Longrightarrow> obj_ok ob \<Longrightarrow> CastSortedSet (oval ob) = Some z \<Longrightarrow> safe_result (hit ob z s)" "store_ok s"
  shows "safe_result (with_new CastSortedSet QType_sortedSet CreateSSet (report r) hit k s)"
  by (rule safe_with_new) (use assms zset_obj.new_ok in \<open>simp_all add: safe_report\<close>)

lemma safe_old_zset:
  assumes "\<And>ob z s. store_ok s \<Longrightarrow> obj_ok ob \<Longrightarrow> CastSortedSet (oval ob) = Some z \<Longrightarrow> safe_result (hit ob z s)" "store_ok s"
  shows "safe_result (with_obj CastSortedSet QType_sortedSet (report r) hit k s)"
  by (rule safe_with_obj) (use assms in \<open>simp_all add: safe_report\<close>)

lemma safe_zset_reads [safe_cmds]:
  "safe_cmd zcard_cmd" "safe_cmd zrank_cmd" "safe_cmd zrevrank_cmd" "safe_cmd zscore_cmd"
  "safe_cmd zrange_cmd" "safe_cmd zrevrange_cmd" "safe_cmd zrangebyscore_cmd" "safe_cmd zrevrangebyscore_cmd"
  by (auto simp: safe_cmd_def zcard_cmd_def zrank_cmd_def zrevrank_cmd_def zscore_cmd_def zrange_cmd_def zrevrange_cmd_def
      zrangebyscore_cmd_def zrevrangebyscore_cmd_def GenericRange_def GenericScoreRange_def rank_reply_def Let_def
      safe_fail intro!: safe_old_zset split: option.split)

lemma safe_zadd_cmd [safe_cmds]: "safe_cmd (zadd_cmd st)"
proof (rule safe_cmdI)
  fix params r and s :: server
  assume s: "store_ok s"
  have hit: "store_ok (put_zset k ob z' s')"
    if "store_ok s'" "obj_ok ob" "CastSortedSet (oval ob) = Some z" "zadd_loop st xs n z = Some (b, m, z')" for xs n b m z z' k ob s'
    using put_zset_ok [OF that(1-3)] zadd_loop_ok [OF that(4) CastSortedSet_ok [OF that(2,3)]] by simp
  show "safe_result (zadd_cmd st params r s)"
    unfolding zadd_cmd_def Let_def using s
    by (auto intro!: safe_new_zset safe_fail split: option.split) (erule (3) hit)+
qed

lemma safe_zrem_cmd [safe_cmds]: "safe_cmd zrem_cmd"
proof (rule safe_cmdI)
  fix params r and s :: server
  assume s: "store_ok s"
  have hit: "store_ok (put_zset k ob z' s')"
    if "store_ok s'" "obj_ok ob" "CastSortedSet (oval ob) = Some z" "del_members xs n z = Some (m, z')" for xs n m z z' k ob s'
    using put_zset_ok [OF that(1-3)] del_members_ok [OF that(4) CastSortedSet_ok [OF that(2,3)]] by simp
  show "safe_result (zrem_cmd params r s)"
    unfolding zrem_cmd_def using s by (auto intro!: safe_old_zset intro: hit split: option.split)
qed

lemma safe_zincrby_cmd [safe_cmds]: "safe_cmd (zincrby_cmd st add)"
proof (rule safe_cmdI)
  fix params r and s :: server
  assume s: "store_ok s"
  have hit: "safe_result (case (case map_of (zmembers z) m of
        None \<Rightarrow> map_option (Pair delta) (AddMember m delta z)
      | Some old \<Rightarrow> UpdateMember add m old delta z) of
        None \<Rightarrow> None | Some (x, z) \<Rightarrow> Some (QError_ok, f x, put_zset k ob z s'))"
    if w: "store_ok s'" "obj_ok ob" "CastSortedSet (oval ob) = Some z" for z m delta k ob s' and f :: "double \<Rightarrow> reply"
    using put_zset_ok [OF w] CastSortedSet_ok [OF w(2,3)] AddMember_ok UpdateMember_ok
    by (auto split: option.split)
  show "safe_result (zincrby_cmd st add params r s)"
    unfolding zincrby_cmd_def by (rule safe_new_zset [OF _ s]) (auto simp: safe_fail hit split: option.split)
qed

lemma safe_GenericRemRange: "safe_cmd (GenericRemRange st b)"
proof (rule safe_cmdI)
  fix params r and s :: server
  assume s: "store_ok s"
  have hit: "store_ok (put_zset k ob z' s')" "store_ok (snd (DeleteKey k (put_zset k ob z' s')))"
    if "store_ok s'" "obj_ok ob" "CastSortedSet (oval ob) = Some z" "del_found res z = Some z'" for res z z' k ob s'
    using put_zset_ok [OF that(1-3)] del_found_ok [OF that(4) CastSortedSet_ok [OF that(2,3)]]
    by (simp_all add: store_ok_DeleteKey)
  show "safe_result (GenericRemRange st b params r s)"
    unfolding GenericRemRange_def using s
    by (auto simp: Let_def intro!: safe_old_zset intro: hit safe_fail split: option.split)
qed

lemma safe_zremranges [safe_cmds]: "safe_cmd (zremrangebyrank_cmd st)" "safe_cmd (zremrangebyscore_cmd st)"
  by (simp_all add: zremrangebyrank_cmd_def zremrangebyscore_cmd_def safe_GenericRemRange)


subsection \<open>What the commands do\<close>

lemma zadd_loop_old:
  "map_of (zmembers z) m \<noteq> None \<Longrightarrow> Strtod st sc = Some d \<Longrightarrow> zadd_loop st [sc, m] n z = Some (True, n, z)"
  by auto

text \<open>ZADD of one member under a score that is no NaN adds it with that score when it is new, and when it
  is there it replies 0 and leaves its score as it was.\<close>

theorem zadd_keeps_old_score:
  assumes "store_ok s" "vis s k = None \<and> z = \<lparr>zscores = [], zmembers = []\<rparr> \<or> vis s k = Some (VSSet z)"
    "Strtod st sc = Some d" "\<not> dbl_nan d"
  shows "\<exists>s' z'. zadd_cmd st [c, k, sc, m] r s =
      Some (QError_ok, FormatInt (if map_of (zmembers z) m = None then 1 else 0) r, s') \<and>
    store_ok s' \<and> frame s s' \<and> vis s' = (vis s)(k \<mapsto> VSSet z') \<and> zset_ok z' \<and>
    map_of (zmembers z') = (map_of (zmembers z))(m \<mapsto> case map_of (zmembers z) m of None \<Rightarrow> d | Some old \<Rightarrow> old)"
proof -
  from zset_obj.with_new_get [OF assms(1,2)] obtain ob s1 where
    g: "\<And>miss hit. with_new CastSortedSet QType_sortedSet CreateSSet miss hit k s = hit ob z s1" "store_ok s1" "frame s s1"
      "vis s1 = (vis s)(k \<mapsto> VSSet z)" "oval ob = VSSet z" "obj_ok ob" "zset_ok z" "\<not> is_expired s1 k" by metis
  obtain z' where z': "zadd_loop st [sc, m] 0 z = Some (True, if map_of (zmembers z) m = None then 1 else 0, z')" "zset_ok z'"
    "map_of (zmembers z') = (map_of (zmembers z))(m \<mapsto> case map_of (zmembers z) m of None \<Rightarrow> d | Some old \<Rightarrow> old)"
  proof (cases "map_of (zmembers z) m")
    case None
    from AddMember_step [OF g(7) None assms(4)] obtain z' where "AddMember m d z = Some z'" "zset_ok z'"
      "map_of (zmembers z') = (map_of (zmembers z))(m \<mapsto> d)" .
    then show ?thesis using None assms(3) by (intro that [of z']) simp_all
  qed (use g(7) assms(3) in \<open>intro that [of z], auto\<close>)
  note p = zset_obj.put_value [OF g(2,6,5) z'(2) g(8)]
  show ?thesis
    using g(1,4) z' p(1,2) frame_trans [OF g(3) p(3)]
    by (intro exI [of _ "put_zset k ob z' s1"] exI [of _ z']) (simp add: zadd_cmd_def put_zset_def)
qed

text \<open>ZRANGE and ZREVRANGE show the same slice of the order by score and name: ZREVRANGE counts its
  indices from the lowest score too, and only turns round what it has selected.\<close>

theorem zrange_zrevrange:
  assumes "store_ok s" "vis s k = Some (VSSet z)" "Strtol a = Some i" "Strtol b = Some j"
    "slice i j (zpairs (zscores z)) \<noteq> []"
  shows "\<exists>s' s''. zrange_cmd [c, k, a, b] r s =
      Some (QError_ok, format_members False (slice i j (zpairs (zscores z))) r, s') \<and> quiet s s' \<and>
    zrevrange_cmd [c, k, a, b] r s =
      Some (QError_ok, format_members False (rev (slice i j (zpairs (zscores z)))) r, s'') \<and> quiet s s''"
proof -
  from zset_obj.with_obj_hit [OF assms(1,2)] obtain ob s1 where
    g: "\<And>miss hit. with_obj CastSortedSet QType_sortedSet miss hit k s = hit ob z s1" "quiet s s1" "zset_ok z" by metis
  show ?thesis
    using g(1,2) assms(3-5) RangeByRank_slice [OF g(3)]
    by (simp add: zrange_cmd_def zrevrange_cmd_def GenericRange_def with_scores_def Let_def)
qed

lemma del_found_step:
  "zset_ok z \<Longrightarrow> distinct (map fst res) \<Longrightarrow> fst ` set res \<subseteq> dom (map_of (zmembers z)) \<Longrightarrow>
    \<exists>z'. del_found res z = Some z' \<and> zset_ok z' \<and> map_of (zmembers z') = map_of (zmembers z) |` (- fst ` set res)"
proof (induction res arbitrary: z)
  case (Cons p res)
  obtain m d where p: "p = (m, d)" by (cases p)
  from Cons.prems(3) p obtain e where "map_of (zmembers z) m = Some e" by auto
  from DelMember_step [OF Cons.prems(1) this] obtain z1 where
    z1: "DelMember m z = Some (True, z1)" "zset_ok z1" "map_of (zmembers z1) = (map_of (zmembers z))(m := None)" .
  have "fst ` set res \<subseteq> dom (map_of (zmembers z1))" using Cons.prems(2,3) p z1(3) by auto
  with Cons.IH [OF z1(2)] Cons.prems(2) p obtain z' where
    z': "del_found res z1 = Some z'" "zset_ok z'" "map_of (zmembers z') = map_of (zmembers z1) |` (- fst ` set res)" by auto
  then show ?case using p z1(1,3) by (auto simp: restrict_map_def fun_eq_iff)
qed (simp add: restrict_map_def)

lemma slice_subset: "set (slice i j xs) \<subseteq> set xs" "distinct xs \<Longrightarrow> distinct (slice i j xs)"
proof -
  obtain a b where ab: "AdjustIndex i j (length xs) = (a, b)" by (cases "AdjustIndex i j (length xs)")
  show "set (slice i j xs) \<subseteq> set xs"
    using set_take_subset set_drop_subset unfolding slice_AdjustIndex [OF ab] by (auto split: if_splits dest: in_set_takeD in_set_dropD)
  show "distinct xs \<Longrightarrow> distinct (slice i j xs)" by (simp add: slice_AdjustIndex [OF ab])
qed

lemma slice_map: "map f (slice i j xs) = slice i j (map f xs)"
  by (auto simp: slice_def)

text \<open>ZREMRANGEBYRANK removes the members its indices select and counts them, but the indices
  are adjusted twice: an end that is still negative after the length was added counts from the end once more.\<close>

theorem zremrangebyrank_removes:
  assumes "store_ok s" "vis s k = Some (VSSet z)" "Strtod st a = Some x" "Strtod st b = Some y"
    "AdjustIndex (dbl_to_long x) (dbl_to_long y) (zSize z) = (i, j)"
    "gone = slice i j (zpairs (zscores z))" "0 < length gone" "length gone < zSize z"
  shows "\<exists>s' z'. zremrangebyrank_cmd st [c, k, a, b] r s = Some (QError_ok, FormatInt (int (length gone)) r, s') \<and>
    store_ok s' \<and> frame s s' \<and> vis s' = (vis s)(k \<mapsto> VSSet z') \<and> zset_ok z' \<and>
    map_of (zmembers z') = map_of (zmembers z) |` (- fst ` set gone)"
proof -
  from zset_obj.with_obj_hit [OF assms(1,2)] obtain ob s1 where
    g: "\<And>miss hit. with_obj CastSortedSet QType_sortedSet miss hit k s = hit ob z s1" "store_ok s1" "frame s s1" "vis s1 = vis s"
      "oval ob = VSSet z" "obj_ok ob" "zset_ok z" "\<not> is_expired s1 k" by metis
  have names: "map fst gone = slice i j (zorder z)" by (simp add: assms(6) zorder_def slice_map)
  have dist: "distinct (map fst gone)" "fst ` set gone \<subseteq> dom (map_of (zmembers z))"
    using slice_subset [where i = i and j = j and xs = "zorder z"] zorder_distinct [OF g(7)] zorder_set [OF g(7)]
    unfolding list.set_map [symmetric] names by blast+
  from del_found_step [OF g(7) this] obtain z' where
    z': "del_found gone z = Some z'" "zset_ok z'" "map_of (zmembers z') = map_of (zmembers z) |` (- fst ` set gone)" by blast
  have "fst ` set gone \<noteq> dom (map_of (zmembers z))"
  proof
    assume "fst ` set gone = dom (map_of (zmembers z))"
    then have "card (set (map fst gone)) = card (set (zorder z))" using zorder_set [OF g(7)] by simp
    then show False using distinct_card [OF dist(1)] distinct_card [OF zorder_distinct [OF g(7)]] zorder_length [OF g(7)] assms(8) by simp
  qed
  then have "map_of (zmembers z') \<noteq> Map.empty" using z'(3) dist(2) by (auto simp: restrict_map_def fun_eq_iff split: if_splits)
  then have n: "zSize z' \<noteq> 0" by (auto simp: zSize_def)
  note p = zset_obj.put_value [OF g(2,6,5) z'(2) g(8)]
  show ?thesis
    using g(1,4) z' p(1,2) frame_trans [OF g(3) p(3)] n assms(3-7) RangeByRank_slice [OF g(7)]
    by (intro exI [of _ "put_zset k ob z' s1"] exI [of _ z'])
      (auto simp: zremrangebyrank_cmd_def GenericRemRange_def put_zset_def Let_def)
qed

text \<open>A sorted set of two members for the examples.\<close>

definition two_scores :: QSortedSet where
  "two_scores = \<lparr>zscores = [(long_to_dbl 1, [''b'']), (long_to_dbl 2, [''a''])],
     zmembers = [(''a'', long_to_dbl 2), (''b'', long_to_dbl 1)]\<rparr>"

lemma long_to_dbl_1: "long_to_dbl 1 = 0x3FF0000000000000" "long_to_dbl 2 = 0x4000000000000000"
  by (simp_all add: long_to_dbl_def Let_def top_bit.simps)

lemma long_keys [simp]: "dbl_key (long_to_dbl 1) < dbl_key (long_to_dbl 2)" "\<not> dbl_nan (long_to_dbl 1)" "\<not> dbl_nan (long_to_dbl 2)"
  by (simp_all add: long_to_dbl_1 dbl_key_def dbl_nan_def)

lemma long_keys_not [simp]: "dbl_key (long_to_dbl 2) \<noteq> dbl_key (long_to_dbl 1)" "\<not> dbl_key (long_to_dbl 2) < dbl_key (long_to_dbl 1)"
  "dbl_key (long_to_dbl 1) \<noteq> dbl_key (long_to_dbl 2)" "\<not> dbl_key (long_to_dbl 2) \<le> dbl_key (long_to_dbl 1)"
  "dbl_key (long_to_dbl 1) \<le> dbl_key (long_to_dbl 2)"
  using long_keys(1) by linarith+

lemma two_scores [simp]:
  "zset_ok two_scores" "map_of (zmembers two_scores) = [''a'' \<mapsto> long_to_dbl 2, ''b'' \<mapsto> long_to_dbl 1]"
  "zpairs (zscores two_scores) = [(''b'', long_to_dbl 1), (''a'', long_to_dbl 2)]" "zSize two_scores = 2"
  by (auto simp: two_scores_def zset_ok_iff keys_distinct_def zSize_def split: if_splits)

theorem Rank_counts_witness: "Rank ''b'' two_scores = Some 0 \<and> RevRank ''b'' two_scores = Some 1 \<and> Rank ''c'' two_scores = Some (-1)"
proof -
  have "before two_scores ''b'' = {}" using long_keys(1) by (auto simp: before_def pair_before_def split: if_splits)
  then show ?thesis
    using Rank_counts [OF two_scores(1), of "''b''"] Rank_counts [OF two_scores(1), of "''c''"] by simp
qed

lemma two_server: "store_ok (server_with [(''z'', VSSet two_scores)])"
  "vis (server_with [(''z'', VSSet two_scores)]) = [''z'' \<mapsto> VSSet two_scores]"
  using server_with [of "[(''z'', VSSet two_scores)]"] by simp_all

text \<open>A stand-in for the C library's parser that knows a few numbers.\<close>

definition some_numbers :: strtod where
  "some_numbers = map_of [(''1'', (long_to_dbl 1, 1)), (''2'', (long_to_dbl 2, 1)), (''0'', (0, 1)), (''-4'', (0xC010000000000000, 2))]"

lemma some_numbers [simp]:
  "Strtod some_numbers ''1'' = Some (long_to_dbl 1)" "Strtod some_numbers ''0'' = Some 0"
  "Strtod some_numbers ''-4'' = Some 0xC010000000000000"
  by (simp_all add: some_numbers_def Strtod_def)

theorem zadd_keeps_old_score_witness:
  "\<exists>s' z'. zadd_cmd some_numbers [''zadd'', ''z'', ''1'', ''a''] (Some []) (server_with [(''z'', VSSet two_scores)]) =
      Some (QError_ok, FormatInt 0 (Some []), s') \<and> vis s' ''z'' = Some (VSSet z') \<and>
    map_of (zmembers z') ''a'' = Some (long_to_dbl 2)"
  using zadd_keeps_old_score [OF two_server(1), of "''z''" two_scores some_numbers "''1''" "long_to_dbl 1" "''zadd''" "''a''" "Some []"]
  by (auto simp: two_server(2))

theorem zrange_zrevrange_witness:
  "\<exists>s'. zrevrange_cmd [''zrevrange'', ''z'', ''0'', ''0''] (Some []) (server_with [(''z'', VSSet two_scores)]) =
      Some (QError_ok, FormatBulk ''b'' (PreFormatMultiBulk 1 (Some [])), s')"
proof -
  have "Strtol ''0'' = Some 0" by code_simp
  moreover have "slice 0 0 [(''b'', long_to_dbl 1), (''a'', long_to_dbl 2)] = [(''b'', long_to_dbl 1)]"
    by (simp add: slice_def norm_index_def)
  ultimately show ?thesis
    using zrange_zrevrange [OF two_server(1), of "''z''" two_scores "''0''" 0 "''0''" 0 "''zrevrange''" "Some []"]
    by (auto simp: two_server(2) format_members_def Let_def)
qed

theorem zremrangebyrank_removes_witness:
  "\<exists>s' z'. zremrangebyrank_cmd some_numbers [''zremrangebyrank'', ''z'', ''0'', ''-4''] (Some []) (server_with [(''z'', VSSet two_scores)]) =
      Some (QError_ok, FormatInt 1 (Some []), s') \<and> vis s' ''z'' = Some (VSSet z') \<and>
    map_of (zmembers z') = [''a'' \<mapsto> long_to_dbl 2]"
proof -
  have a: "AdjustIndex (dbl_to_long 0) (dbl_to_long 0xC010000000000000) 2 = (0, -2)"
    by (simp add: AdjustIndex_def dbl_to_long_def Let_def dbl_exp_def dbl_frac_def dbl_sign_def LONG_MIN_def LONG_MAX_def)
  have g: "slice 0 (-2) [(''b'', long_to_dbl 1), (''a'', long_to_dbl 2)] = [(''b'', long_to_dbl 1)]" by (simp add: slice_def norm_index_def)
  show ?thesis
    using zremrangebyrank_removes [OF two_server(1), of "''z''" two_scores some_numbers "''0''" 0 "''-4''" "0xC010000000000000" 0 "-2" "[(''b'', long_to_dbl 1)]"
        "''zremrangebyrank''" "Some []"] a g
    by (auto simp: two_server(2) restrict_map_def fun_eq_iff)
qed

theorem RangeByScore_selects_witness:
  "RangeByScore (long_to_dbl 2) (long_to_dbl 2) two_scores = [(''a'', long_to_dbl 2)]"
  using RangeByScore_selects [OF two_scores(1) long_keys(3,3)] long_keys(1) by simp

end
