(* ===== verification/Keys.thy ===== *)
theory Keys
  imports Sets Hashes Glob
begin

text \<open>
  QedisCore/QKeyCommand.cc: the commands on keys whatever their type, the three cursors and SORT.

  What \<open>std::sort\<close> makes of elements its order does not tell apart, the buckets of the tables and
  the choice of RANDOMKEY are arguments. A pattern that reads behind a string is fatal, as in Glob.
\<close>

subsection \<open>Types and deletion\<close>

definition type_cmd :: handler where
  "type_cmd params r s =
     (case KeyType (params ! 1) s of
        (ty, s) \<Rightarrow>
          let info = (case ty of
                QType_hash \<Rightarrow> ''hash'' | QType_set \<Rightarrow> ''set'' | QType_string \<Rightarrow> ''string''
              | QType_list \<Rightarrow> ''list'' | QType_sortedSet \<Rightarrow> ''sortedSet'' | _ \<Rightarrow> ''none'')
          in Some (QError_ok, FormatSingle info r, s))"

definition exists_cmd :: handler where
  "exists_cmd params r s =
     (case ExistsKey (params ! 1) s of (ex, s) \<Rightarrow> Some (QError_ok, if ex then Format1 r else Format0 r, s))"

fun del_loop :: "QString list \<Rightarrow> nat \<Rightarrow> server \<Rightarrow> nat \<times> server" where
  "del_loop [] n s = (n, s)"
| "del_loop (k # ks) n s =
     (case DeleteKey k s of
        (b, s) \<Rightarrow> if b then del_loop ks (n + 1) (snd (ClearExpire k s)) else del_loop ks n s)"

definition del_cmd :: handler where
  "del_cmd params r s =
     (case del_loop (tl params) 0 s of (nDel, s) \<Rightarrow> Some (QError_ok, FormatInt (int nDel) r, s))"

subsection \<open>Deadlines\<close>

definition SetExpireByMs :: "QString \<Rightarrow> u64 \<Rightarrow> server \<Rightarrow> int \<times> server" where
  "SetExpireByMs key absTimeout s =
     (case ExistsKey key s of
        (ex, s) \<Rightarrow> if ex then (1, SetExpire key absTimeout s) else (0, s))"

text \<open>\<open>const uint64_t timeout = atoi(...)\<close>: a negative number becomes a huge one.\<close>

definition timeout_of :: "QString \<Rightarrow> u64" where
  "timeout_of v = word_of_int (atoi v)"

definition set_deadline :: "(QString list \<Rightarrow> server \<Rightarrow> u64) \<Rightarrow> handler" where
  "set_deadline at params r s =
     (case SetExpireByMs (params ! 1) (at params s) s of
        (ret, s) \<Rightarrow> Some (QError_ok, FormatInt ret r, s))"

definition expire_cmd :: handler where
  "expire_cmd = set_deadline (\<lambda>params s. now s + timeout_of (params ! 2) * 1000)"

definition pexpire_cmd :: handler where
  "pexpire_cmd = set_deadline (\<lambda>params s. now s + timeout_of (params ! 2))"

definition expireat_cmd :: handler where
  "expireat_cmd = set_deadline (\<lambda>params s. timeout_of (params ! 2) * 1000)"

definition pexpireat_cmd :: handler where
  "pexpireat_cmd = set_deadline (\<lambda>params s. timeout_of (params ! 2))"

definition key_ttl :: "QString \<Rightarrow> server \<Rightarrow> int \<times> server" where
  "key_ttl key s =
     (case ExistsKey key s of
        (ex, s) \<Rightarrow>
          if ex then
            (case TTL key (now s) s of (ttl, s) \<Rightarrow> (if ttl < 0 then persist else ttl, s))
          else (notExist, s))"

definition ttl_cmd :: handler where
  "ttl_cmd params r s =
     (case key_ttl (params ! 1) s of
        (ret, s) \<Rightarrow> Some (QError_ok, FormatInt (if 0 < ret then ret div 1000 else ret) r, s))"

definition pttl_cmd :: handler where
  "pttl_cmd params r s =
     (case key_ttl (params ! 1) s of (ret, s) \<Rightarrow> Some (QError_ok, FormatInt ret r, s))"

definition persist_cmd :: handler where
  "persist_cmd params r s =
     (case ClearExpire (params ! 1) s of (b, s) \<Rightarrow> Some (QError_ok, FormatInt (if b then 1 else 0) r, s))"

subsection \<open>MOVE and RENAME\<close>

text \<open>
  \<open>SetValue(to, std::move(*val))\<close>: the value leaves an invalid object behind. The two places
  may be one.
\<close>

definition moved_from :: qobject where
  "moved_from = Obj_Clear (QObject_new QType_invalid)"

definition move_cmd :: handler where
  "move_cmd params r s =
     (let key = params ! 1; toDb = atoi (params ! 2)
      in case GetValue key True s of
           (Inl err, s) \<Rightarrow> Some (QError_ok, FormatInt 0 r, s)
         | (Inr val, s) \<Rightarrow>
             (case SelectDB toDb s of
                (fromDb, s) \<Rightarrow>
                  if fromDb < 0 \<or> fromDb = toDb then Some (QError_ok, FormatInt 0 r, s)
                  else
                    case ExistsKey key s of
                      (True, s) \<Rightarrow> Some (QError_ok, FormatInt 0 r, s)
                    | (False, s) \<Rightarrow>
                        let s = snd (SelectDB toDb s);
                            s = snd (SetValue key val s);
                            s = snd (SelectDB fromDb s);
                            s = put_obj key moved_from s;
                            s = snd (ClearExpire key s);
                            s = snd (DeleteKey key s)
                        in Some (QError_ok, FormatInt 1 r, s)))"

definition move_value :: "QString \<Rightarrow> qobject \<Rightarrow> QString \<Rightarrow> server \<Rightarrow> server" where
  "move_value oldKey val newKey s =
     (let s = snd (SetValue newKey val s)
      in put_obj oldKey (if oldKey = newKey then moved_from\<lparr>lru := ucast (lruclock s)\<rparr> else moved_from) s)"

definition RenameKey :: "QString \<Rightarrow> QString \<Rightarrow> bool \<Rightarrow> server \<Rightarrow> QError \<times> server" where
  "RenameKey oldKey newKey force s =
     (case GetValue oldKey True s of
        (Inl err, s) \<Rightarrow> (err, s)
      | (Inr val, s) \<Rightarrow>
          (case (if force then (False, s) else ExistsKey newKey s) of
             (True, s) \<Rightarrow> (QError_exist, s)
           | (False, s) \<Rightarrow>
               (case TTL oldKey (now s) s of
                  (ttl, s) \<Rightarrow>
                    if ttl = expired then (QError_notExist, s)
                    else
                      let s = move_value oldKey val newKey s;
                          s = (if 0 < ttl then SetExpire newKey (word_of_int ttl + now s) s
                               else if ttl = persist then snd (ClearExpire newKey s) else s);
                          s = snd (ClearExpire oldKey s);
                          s = snd (DeleteKey oldKey s)
                      in (QError_ok, s))))"

definition rename_cmd :: handler where
  "rename_cmd params r s =
     (case RenameKey (params ! 1) (params ! 2) True s of (err, s) \<Rightarrow> fail err err r s)"

definition renamenx_cmd :: handler where
  "renamenx_cmd params r s =
     (case RenameKey (params ! 1) (params ! 2) False s of
        (err, s) \<Rightarrow> if err = QError_ok then Some (err, Format1 r, s) else fail err err r s)"

subsection \<open>Patterns and cursors\<close>

text \<open>
  What a pattern keeps of a list, in its order. The entries of a hash are two elements: the first
  is matched, \<open>n\<close> more follow it.
\<close>

fun glob_filter :: "nat \<Rightarrow> (string \<Rightarrow> bool option) \<Rightarrow> string list \<Rightarrow> string list option" where
  "glob_filter n m [] = Some []"
| "glob_filter n m (x # xs) =
     (case m x of
        None \<Rightarrow> None
      | Some b \<Rightarrow>
          map_option (\<lambda>rest. if b then x # take n xs @ rest else rest) (glob_filter n m (drop n xs)))"

definition cstr :: "string \<Rightarrow> string" where
  "cstr s = takeWhile (\<lambda>c. c \<noteq> CHR 0x00) s"

definition keys_cmd :: handler where
  "keys_cmd params r s =
     map_option (\<lambda>results. (QError_ok, fold FormatBulk results (PreFormatMultiBulk (length results) r), s))
       (glob_filter 0 (glob_match (params ! 1)) (map fst (cur_db s)))"

definition randomkey_cmd :: "(QString list \<Rightarrow> QString option) \<Rightarrow> handler" where
  "randomkey_cmd pick params r s =
     (let res = (case pick (map fst (cur_db s)) of None \<Rightarrow> [] | Some k \<Rightarrow> k)
      in Some (QError_ok, if res = [] then FormatNull r else FormatBulk res r, s))"

text \<open>The options of a cursor: \<open>COUNT n\<close> and \<open>MATCH pattern\<close>.\<close>

fun ParseScanOption :: "QString list \<Rightarrow> int \<Rightarrow> string option \<Rightarrow> (int \<times> string option) option" where
  "ParseScanOption (opt # arg # rest) count pattern =
     (if length opt = 5 \<and> strncaseeq opt ''match'' 5 then
        (if pattern = None then ParseScanOption rest count (Some (cstr arg)) else None)
      else if length opt = 5 \<and> strncaseeq opt ''count'' 5 then
        (if count = -1 then
           (case Strtol arg of None \<Rightarrow> None | Some n \<Rightarrow> ParseScanOption rest n pattern)
         else None)
      else None)"
| "ParseScanOption _ count pattern = Some (count, pattern)"

text \<open>A \<open>long\<close> read as a \<open>size_t\<close>.\<close>

definition to_size :: "int \<Rightarrow> nat" where
  "to_size x = nat (x mod 2 ^ 64)"

definition ScanKey :: "(QString list \<Rightarrow> QString list list) \<Rightarrow> nat \<Rightarrow> nat \<Rightarrow> server \<Rightarrow> nat \<times> QString list" where
  "ScanKey buckets cursor count s =
     (if cur_db s = [] then (0, []) else ScanHashMember (buckets (map fst (cur_db s))) cursor count)"

text \<open>Filtering a page and the reply, the same in the three commands but for the size of an entry.\<close>

definition filter_page :: "nat \<Rightarrow> string option \<Rightarrow> QString list \<Rightarrow> QString list option" where
  "filter_page n pattern res =
     (case pattern of None \<Rightarrow> Some res | Some p \<Rightarrow> glob_filter n (\<lambda>x. glob_match p (cstr x)) res)"

definition scan_reply :: "nat \<Rightarrow> string option \<Rightarrow> nat \<times> QString list \<Rightarrow> reply \<Rightarrow> server \<Rightarrow> result" where
  "scan_reply n pattern page r s =
     (case page of
        (newCursor, res) \<Rightarrow>
          (case filter_page n pattern res of
             None \<Rightarrow> None
           | Some res \<Rightarrow>
               let r = PreFormatMultiBulk 2 r;
                   r = FormatBulk (show_nat newCursor) r;
                   r = PreFormatMultiBulk (length res) r
               in Some (QError_ok, fold FormatBulk res r, s)))"

definition scan_cmd :: "(QString list \<Rightarrow> QString list list) \<Rightarrow> handler" where
  "scan_cmd buckets params r s =
     (if length params mod 2 \<noteq> 0 then fail QError_param QError_param r s
      else
        case Strtol (params ! 1) of
          None \<Rightarrow> fail QError_param QError_param r s
        | Some cursor \<Rightarrow>
            (case ParseScanOption (drop 2 params) (-1) None of
               None \<Rightarrow> fail QError_param QError_param r s
             | Some (count, pattern) \<Rightarrow>
                 let count = (if count < 0 then 5 else count)
                 in scan_reply 0 pattern (ScanKey buckets (to_size cursor) (nat count) s) r s))"

text \<open>HSCAN and SSCAN: the container, a page of it, the length of an entry behind its first element.\<close>

definition scan_object ::
  "(qvalue \<Rightarrow> 'v option) \<Rightarrow> QType \<Rightarrow> ('v \<Rightarrow> nat \<Rightarrow> nat \<Rightarrow> nat \<times> QString list) \<Rightarrow> nat \<Rightarrow> handler" where
  "scan_object prj ty page n params r s =
     (if length params mod 2 = 0 then fail QError_param QError_param r s
      else
        case Strtol (params ! 2) of
          None \<Rightarrow> fail QError_param QError_param r s
        | Some cursor \<Rightarrow>
            with_obj prj ty (report r)
              (\<lambda>value x s. case ParseScanOption (drop 3 params) (-1) None of
                 None \<Rightarrow> fail QError_param QError_param r s
               | Some (count, pattern) \<Rightarrow>
                   let count = (if count < 0 then 5 else count)
                   in scan_reply n pattern (page x (to_size cursor) (nat count)) r s) (params ! 1) s)"

definition hscan_cmd :: "(QHash \<Rightarrow> QHash list) \<Rightarrow> handler" where
  "hscan_cmd buckets = scan_object CastHash QType_hash (HScanKey buckets) 1"

definition sscan_cmd :: "(QString list \<Rightarrow> QString list list) \<Rightarrow> handler" where
  "sscan_cmd buckets = scan_object CastSet QType_set (SScanKey buckets) 0"

subsection \<open>SORT\<close>

text \<open>
  The options are looked for in all parameters, the name of the command and the key among them,
  and only their first letters are compared.
\<close>

fun sort_options :: "QString list \<Rightarrow> bool \<times> bool \<Rightarrow> bool \<times> bool" where
  "sort_options [] opts = opts"
| "sort_options (arg # args) (asc, alpha) =
     sort_options args
       (if strncaseeq arg ''desc'' 4 then (False, alpha)
        else if strncaseeq arg ''alpha'' 5 then (asc, True) else (asc, alpha))"

text \<open>\<open>std::lexicographical_compare\<close> on signed characters.\<close>

definition schar :: "char \<Rightarrow> int" where
  "schar c = (if code c < 128 then int (code c) else int (code c) - 256)"

fun lex_less :: "string \<Rightarrow> string \<Rightarrow> bool" where
  "lex_less [] [] = False"
| "lex_less [] (c # cs) = True"
| "lex_less (c # cs) [] = False"
| "lex_less (c # cs) (d # ds) = (schar c < schar d \<or> schar c = schar d \<and> lex_less cs ds)"

definition sort_less :: "bool \<Rightarrow> bool \<Rightarrow> QString \<Rightarrow> QString \<Rightarrow> bool" where
  "sort_less asc alpha a b =
     (if \<not> alpha then
        (if asc then snd (TryStr2Long a) < snd (TryStr2Long b) else snd (TryStr2Long b) < snd (TryStr2Long a))
      else if asc then lex_less a b else lex_less b a)"

type_synonym std_sort = "(QString \<Rightarrow> QString \<Rightarrow> bool) \<Rightarrow> QString list \<Rightarrow> QString list"

definition sort_cmd :: "std_sort \<Rightarrow> handler" where
  "sort_cmd std_sort params r s =
     (case GetValue (params ! 1) True s of
        (Inl err, s) \<Rightarrow> fail err err r s
      | (Inr value, s) \<Rightarrow>
          if otype value \<noteq> QType_list \<and> otype value \<noteq> QType_set \<and> otype value \<noteq> QType_sortedSet
          then fail QError_type QError_type r s
          else if otype value = QType_sortedSet then Some (QError_ok, FormatOK r, s)
          else
            case (if otype value = QType_list then CastList (oval value) else CastSet (oval value)) of
              None \<Rightarrow> None
            | Some values \<Rightarrow>
                (case sort_options params (True, False) of
                   (asc, alpha) \<Rightarrow>
                     let values = std_sort (sort_less asc alpha) values
                     in Some (QError_ok, fold FormatBulk values (PreFormatMultiBulk (length values) r), s)))"

subsection \<open>The invariant\<close>

lemma ExistsKey_memory:
  assumes "store_ok s"
  shows "ExistsKey k s = (map_of (cur_db s) k \<noteq> None, s)"
  using store_ok_current [OF assms] by (auto simp: ExistsKey_def GetObject_memory split: option.split)

text \<open>Whatever a key holds, clearing its deadline and deleting it leaves nothing of it.\<close>

lemma drop_key:
  assumes "store_ok s"
  shows "snd (DeleteKey k (snd (ClearExpire k (put_obj k x s)))) = upd_exp (AList.delete k) (upd_db (AList.delete k) s)"
proof -
  note c = store_ok_current [OF assms]
  have w: "\<not> w > (- 1 :: u64)" for w :: u64 by simp
  have e: "map_of (cur_exp s) k = None \<Longrightarrow> AList.delete k (expiresDb s ! dbno s) = expiresDb s ! dbno s"
    by (auto simp: cur_exp_def map_of_eq_None_iff delete_idem)
  show ?thesis
  proof (cases "map_of (cur_exp s) k")
    case None
    then show ?thesis using c e
      by (simp add: ClearExpire_def ExpireIfNeed_def DeleteKey_memory put_obj_def upd_db_def cur_db_def cur_exp_def upd_exp_def delete_update_same AList.delete_idem)
  next
    case (Some t)
    then show ?thesis using c w
      by (intro qstore.equality) (simp_all add: ClearExpire_def ExpireIfNeed_def DeleteKey_memory put_obj_def upd_db_def cur_db_def cur_exp_def upd_exp_def delete_update_same AList.delete_idem)
  qed
qed

lemma drop_key_step:
  assumes "store_ok s"
  shows "store_ok (snd (DeleteKey k (snd (ClearExpire k (put_obj k x s)))))"
    "frame s (snd (DeleteKey k (snd (ClearExpire k (put_obj k x s)))))"
    "vis (snd (DeleteKey k (snd (ClearExpire k (put_obj k x s))))) = (vis s)(k := None)"
  using expire_step [OF assms] by (simp_all add: drop_key [OF assms])

lemma SelectDB_cases:
  obtains "SelectDB d s = (GetDB s, s)" "d = GetDB s"
  | "SelectDB d s = (GetDB s, s\<lparr>dbno := nat d\<rparr>)" "0 \<le> d" "nat d < length (store s)" "d \<noteq> GetDB s"
  | "SelectDB d s = (-1, s)" "d \<noteq> GetDB s"
  by (cases "d = GetDB s"; cases "0 \<le> d \<and> d < int (length (store s))") (auto simp: SelectDB_def GetDB_def)

lemma store_ok_dbno [simp]: "store_ok s \<Longrightarrow> d < length (store s) \<Longrightarrow> store_ok (s\<lparr>dbno := d\<rparr>)"
  by (simp add: store_ok_def)

lemma store_ok_SelectDB [inv_intros]: "store_ok s \<Longrightarrow> store_ok (snd (SelectDB d s))"
  by (cases rule: SelectDB_cases [of d s]) simp_all

lemma move_value_drop:
  "put_obj k x (put_obj k y s) = put_obj k x s \<or> \<not> dbno s < length (store s)"
  by (auto simp: put_obj_def upd_db_def cur_db_def AList.update_Some_unfold)

lemma restrict_insert: "(m(k := None)) |` (- A) = m |` (- insert k A)"
  by (auto simp: restrict_map_def fun_eq_iff)

lemma del_one:
  assumes "store_ok s" "DeleteKey k s = (b, s1)" "s2 = (if b then snd (ClearExpire k s1) else s1)"
  shows "store_ok s2" "frame s s2" "vis s2 = (vis s)(k := None)" "b \<longleftrightarrow> map_of (cur_db s) k \<noteq> None"
    "map_of (cur_db s2) = (map_of (cur_db s))(k := None)"
proof -
  note c = store_ok_current [OF assms(1)]
  note d = delete_step [OF assms(1), of k, unfolded assms(2) snd_conv fst_conv]
  note e = clear_step [OF d(1), of k]
  show "store_ok s2" using assms(3) d(1) e(1) by simp
  show "frame s s2" using assms(3) d(2) frame_trans [OF d(2) e(2)] by simp
  show "vis s2 = (vis s)(k := None)" using assms(3) d(3) e(5) by auto
  show b: "b \<longleftrightarrow> map_of (cur_db s) k \<noteq> None" using assms(2) c by (auto simp: DeleteKey_memory)
  have 1: "map_of (cur_db s1) = (map_of (cur_db s))(k := None)" using assms(2) c by (auto simp: DeleteKey_memory delete_conv')
  have "map_of (cur_db (snd (ClearExpire k s1))) = (map_of (cur_db s))(k := None)"
    using ClearExpire_cases [OF d(1), of k] store_ok_current [OF d(1)] 1
    by (cases "map_of (cur_exp s1) k = None") (auto simp: delete_conv')
  then show "map_of (cur_db s2) = (map_of (cur_db s))(k := None)" using assms(3) 1 by simp
qed

lemma del_loop_spec:
  "store_ok s \<Longrightarrow> del_loop ks n s = (m, s') \<Longrightarrow>
    store_ok s' \<and> frame s s' \<and> vis s' = vis s |` (- set ks) \<and> m = n + card (set ks \<inter> dom (map_of (cur_db s)))"
proof (induction ks n s arbitrary: m s' rule: del_loop.induct)
  case (2 k ks n s)
  obtain b s1 where d: "DeleteKey k s = (b, s1)" by (cases "DeleteKey k s")
  define s2 where "s2 = (if b then snd (ClearExpire k s1) else s1)"
  note o = del_one [OF "2.prems"(1) d s2_def]
  have r: "del_loop ks (if b then n + 1 else n) s2 = (m, s')" using "2.prems"(2) d by (auto simp: s2_def split: if_splits)
  have ih: "store_ok s' \<and> frame s2 s' \<and> vis s' = vis s2 |` (- set ks) \<and>
      m = (if b then n + 1 else n) + card (set ks \<inter> dom (map_of (cur_db s2)))"
    using "2.IH" [OF d [symmetric]] o(1) r by (auto simp: s2_def split: if_splits)
  have "set (k # ks) \<inter> dom (map_of (cur_db s)) = (if b then {k} else {}) \<union> (set ks \<inter> dom (map_of (cur_db s2)))"
    using o(4,5) by (auto split: if_splits)
  then have "card (set (k # ks) \<inter> dom (map_of (cur_db s))) = (if b then 1 else 0) + card (set ks \<inter> dom (map_of (cur_db s2)))"
    using o(5) by (auto simp: card_insert_if)
  moreover have "vis s2 |` (- set ks) = vis s |` (- set (k # ks))" by (simp only: o(3) restrict_insert list.simps)
  ultimately show ?case using ih frame_trans [OF o(2)] by auto
qed (simp add: restrict_map_def)

text \<open>DEL hides every key it names and counts those that were stored, expired or not.\<close>

theorem del_removes:
  assumes "store_ok s"
  shows "\<exists>s'. del_cmd (c # ks) r s = Some (QError_ok, FormatInt (int (card (set ks \<inter> dom (map_of (cur_db s))))) r, s') \<and>
    store_ok s' \<and> frame s s' \<and> vis s' = vis s |` (- set ks)"
proof -
  obtain n s' where "del_loop ks 0 s = (n, s')" by (cases "del_loop ks 0 s")
  with del_loop_spec [OF assms this] show ?thesis by (simp add: del_cmd_def)
qed

text \<open>What a deadline does: with none a key lives on, with one it is gone once the deadline has come.\<close>

definition deadline :: "'a qstore_scheme \<Rightarrow> QString \<Rightarrow> u64 option" where
  "deadline s = map_of (cur_exp s)"

lemma deadline_after_get:
  assumes "GetValueByType_touch k ty b s = (Inr ob, s')" "store_ok s"
  shows "deadline s' = deadline s" "lruclock s' = lruclock s" "now s' = now s"
proof -
  have "vis s k = Some (oval ob)" by (rule GetValueByType_Inr(4) [OF assms])
  then have "\<not> is_expired s k" by (auto simp: vis_def)
  then show "deadline s' = deadline s" "lruclock s' = lruclock s" "now s' = now s"
    using assms store_ok_current [OF assms(2)]
    by (auto simp: GetValueByType_touch_def ExpireIfNeed_live GetObject_memory put_obj_def deadline_def Let_def
        split: option.splits if_splits)
qed

lemma upd_db_twice: "upd_db f (upd_db g s) = upd_db (f \<circ> g) s"
  by (cases "dbno s < length (store s)") (simp_all add: upd_db_def cur_db_def list_update_beyond)

lemma upd_exp_db: "upd_exp f (upd_db g s) = upd_db g (upd_exp f s)"
  by (simp add: upd_db_def cur_db_def upd_exp_def cur_exp_def)

lemma delete_update_comp: "a \<noteq> b \<Longrightarrow> AList.delete b \<circ> AList.update a x = AList.update a x \<circ> AList.delete b"
  by (simp add: fun_eq_iff delete_update)

lemma put_obj_apart:
  "a \<noteq> b \<Longrightarrow> upd_db (AList.delete b) (put_obj a x s) = put_obj a x (upd_db (AList.delete b) s)"
  "upd_exp f (put_obj a x s) = put_obj a x (upd_exp f s)"
  by (simp_all add: put_obj_def upd_db_twice delete_update_comp upd_exp_db)

lemma ClearExpire_apart:
  assumes "waitSyncKeys s = []" "a \<noteq> b"
  shows "snd (ClearExpire b (put_obj a x s)) = put_obj a x (snd (ClearExpire b s))"
proof -
  have "waitSyncKeys (put_obj a x s) = []" "cur_exp (put_obj a x s) = cur_exp s" using assms(1) by (simp_all add: put_obj_def)
  then show ?thesis using assms
    by (auto simp: ClearExpire_def ExpireIfNeed_def DeleteKey_memory put_obj_apart split: option.split)
qed

lemma vis_SetExpire:
  "store_ok s \<Longrightarrow> vis (SetExpire k w s) = (vis s)(k := if w \<le> now s then None else map_option oval (map_of (cur_db s) k))"
  using store_ok_current [of s] by (auto simp: SetExpire_def vis_def is_expired_def fun_eq_iff)

lemma vis_SetValue:
  assumes "store_ok s"
  shows "vis (snd (SetValue k v s)) = (vis s)(k := if is_expired s k then None else Some (oval v))"
  using store_ok_current [OF assms] assms
  by (auto simp: SetValue_memory put_obj_def vis_def is_expired_def fun_eq_iff)

lemma deadline_updates [simp]:
  "store_ok s \<Longrightarrow> deadline (snd (SetValue k v s)) = deadline s" "deadline (put_obj k x s) = deadline s"
  "store_ok s \<Longrightarrow> deadline (SetExpire k w s) = (deadline s)(k \<mapsto> w)"
  using store_ok_current [of s]
  by (simp_all add: deadline_def SetValue_memory put_obj_def SetExpire_def update_conv')

lemma TTL_live:
  assumes "store_ok s" "map_of (cur_db s) k \<noteq> None" "\<not> is_expired s k"
  shows "TTL k (now s) s = ((case deadline s k of None \<Rightarrow> persist | Some w \<Rightarrow> sint (w - now s)), s)"
  using assms by (auto simp: TTL_def ExistsKey_memory ExpireIfNeed_live deadline_def split: option.split)

lemma sint_ahead:
  fixes w n :: u64
  assumes "n < w" "w - n < 2 ^ 63"
  shows "0 < sint (w - n)" "word_of_int (sint (w - n)) + n = w"
proof -
  have u: "uint (w - n) < 2 ^ 63" using assms(2) by (simp add: word_less_def)
  then have "sint (w - n) = uint (w - n)" using signed_take_bit_int_eq_self [of 63 "uint (w - n)"] uint_ge_0 [of "w - n"] by (simp add: sint_uint)
  moreover have "uint (w - n) \<noteq> 0" using assms(1) by (simp add: uint_0_iff)
  ultimately show "0 < sint (w - n)" using uint_ge_0 [of "w - n"] by linarith
  show "word_of_int (sint (w - n)) + n = w" by simp
qed

lemma live_get:
  assumes "store_ok s" "vis s k = Some v"
  obtains ob s' where "GetValue k True s = (Inr ob, s')" "store_ok s'" "frame s s'" "vis s' = vis s" "oval ob = v" "obj_ok ob"
    "map_of (cur_db s') k = Some ob" "\<not> is_expired s' k" "deadline s' = deadline s" "now s' = now s"
proof -
  obtain x s' where g: "GetValueByType_touch k QType_invalid True s = (x, s')" by (cases "GetValueByType_touch k QType_invalid True s")
  show thesis
  proof (cases x)
    case (Inl e)
    then show ?thesis using GetValueByType_Inl(5) [OF g [unfolded Inl] assms(1)] assms(2) by auto
  next
    case (Inr ob)
    note r = GetValueByType_Inr [OF g [unfolded Inr] assms(1)]
    show ?thesis using r g assms(2) Inr deadline_after_get [OF g [unfolded Inr] assms(1)]
      by (intro that [of ob s']) (simp_all add: get_defs quiet_def)
  qed
qed

lemma deadline_clear:
  assumes "store_ok s"
  shows "deadline (snd (ClearExpire k s)) = (deadline s)(k := None)"
    "deadline (snd (DeleteKey k (snd (ClearExpire k (put_obj k x s))))) = (deadline s)(k := None)"
proof -
  note c = store_ok_current [OF assms]
  show "deadline (snd (ClearExpire k s)) = (deadline s)(k := None)"
    using ClearExpire_cases [OF assms, of k] c
    by (cases "map_of (cur_exp s) k") (auto simp: deadline_def delete_conv' fun_eq_iff)
  show "deadline (snd (DeleteKey k (snd (ClearExpire k (put_obj k x s))))) = (deadline s)(k := None)"
    using c by (simp add: drop_key [OF assms] deadline_def delete_conv')
qed


text \<open>PERSIST deletes a key that has a deadline instead of making it permanent, and replies 1.\<close>

theorem persist_deletes:
  assumes "store_ok s"
  shows "\<exists>s'. persist_cmd [c, k] r s = Some (QError_ok, FormatInt (if deadline s k = None then 0 else 1) r, s') \<and>
    store_ok s' \<and> frame s s' \<and> vis s' = (if deadline s k = None then vis s else (vis s)(k := None))"
  using ClearExpire_cases [OF assms, of k] clear_step(1,2,5) [OF assms, of k] assms
  by (cases "map_of (cur_exp s) k") (simp_all add: persist_cmd_def deadline_def)

lemma live_stored: "store_ok s \<Longrightarrow> vis s k = Some v \<Longrightarrow> map_of (cur_db s) k \<noteq> None \<and> \<not> is_expired s k"
  by (auto simp: vis_def split: if_splits)

text \<open>EXPIRE with a number of seconds that is not positive hides the key at once; with a positive one it
  changes nothing clients see, and TTL replies with that number.\<close>

theorem expire_ttl:
  assumes "store_ok s" "vis s k = Some v" "i = atoi n" "0 \<le> uint (now s) + 1000 * i" "uint (now s) + 1000 * i < 2 ^ 63"
  shows "\<exists>s1. expire_cmd [c, k, n] r s = Some (QError_ok, FormatInt 1 r, s1) \<and> store_ok s1 \<and> frame s s1 \<and>
    (if i \<le> 0 then vis s1 = (vis s)(k := None)
     else vis s1 = vis s \<and> ttl_cmd [c', k] r' s1 = Some (QError_ok, FormatInt i r', s1))"
proof -
  let ?w = "now s + timeout_of n * 1000" and ?s1 = "SetExpire k (now s + timeout_of n * 1000) s"
  note l = live_stored [OF assms(1,2)]
  have w: "?w = word_of_int (uint (now s) + 1000 * i)" by (simp add: timeout_of_def assms(3) wi_hom_mult [symmetric] wi_hom_add [symmetric])
  have "uint ?w = take_bit 64 (uint (now s) + 1000 * i)" by (simp only: w uint_word_of_int_eq) simp
  then have uw: "uint ?w = uint (now s) + 1000 * i" using assms(4,5) by (simp add: take_bit_int_eq_self)
  have e: "expire_cmd [c, k, n] r s = Some (QError_ok, FormatInt 1 r, ?s1)"
    using l by (simp add: expire_cmd_def set_deadline_def SetExpireByMs_def ExistsKey_memory [OF assms(1)])
  note st = SetExpire_step [OF assms(1), of k ?w]
  have le: "?w \<le> now s \<longleftrightarrow> i \<le> 0" using uw by (simp add: word_le_def)
  have t: "ttl_cmd [c', k] r' ?s1 = Some (QError_ok, FormatInt i r', ?s1)" if "0 < i"
  proof -
    have n: "map_of (cur_db ?s1) k \<noteq> None" "\<not> is_expired ?s1 k"
      using l le that store_ok_current [OF assms(1)] by (simp_all add: SetExpire_def is_expired_def)
    have "?w - now s = word_of_int (1000 * i)" by (simp add: timeout_of_def assms(3))
    moreover have "signed_take_bit 63 (1000 * i) = 1000 * i"
      using that assms(5) uint_ge_0 [of "now s"] by (intro signed_take_bit_int_eq_self) linarith+
    ultimately have "sint (?w - now s) = 1000 * i" by (simp only: sint_sbintrunc') simp
    then have "TTL k (now ?s1) ?s1 = (1000 * i, ?s1)"
      using TTL_live [OF st(1) n] assms(1) frame_fields(2) [OF st(2)] by simp
    then show ?thesis using n st(1) that by (simp add: ttl_cmd_def key_ttl_def ExistsKey_memory)
  qed
  show ?thesis using e st le t l by auto
qed

text \<open>A database seen from outside.\<close>

definition vis_at :: "nat \<Rightarrow> 'a qstore_scheme \<Rightarrow> QString \<Rightarrow> qvalue option" where
  "vis_at d s = vis (s\<lparr>dbno := d\<rparr>)"

lemma vis_at_simps: "vis_at d s k = (if expired_at (now s) (map_of (expiresDb s ! d) k) then None
    else map_option oval (map_of (store s ! d) k))"
  by (simp add: vis_at_def vis_def is_expired_def cur_db_def cur_exp_def)

lemma vis_at_dbno: "vis_at (dbno s) s = vis s"
  by (simp add: vis_at_def)

lemma vis_at_change [simp]: "vis_at d (s\<lparr>dbno := x\<rparr>) = vis_at d s" "vis (s\<lparr>dbno := x\<rparr>) = vis_at x s"
  by (simp_all add: vis_at_def)

lemma frame_vis_at: "frame s s' \<Longrightarrow> d \<noteq> dbno s \<Longrightarrow> vis_at d s' = vis_at d s"
  by (auto simp: frame_def vis_at_simps fun_eq_iff)

text \<open>MOVE to another database takes the value there when no such key is stored in it, though without its
  deadline; when one is stored nothing moves, but the client is left in the other database.\<close>

theorem move_takes_value:
  assumes "store_ok s" "vis s k = Some v" "atoi n = int d" "d \<noteq> dbno s" "d < length (store s)"
  shows "if map_of (store s ! d) k = None
    then \<exists>s'. move_cmd [c, k, n] r s = Some (QError_ok, FormatInt 1 r, s') \<and> store_ok s' \<and> dbno s' = dbno s \<and>
      vis s' = (vis s)(k := None) \<and>
      vis_at d s' = (vis_at d s)(k := if expired_at (now s) (map_of (expiresDb s ! d) k) then None else Some v)
    else \<exists>s'. move_cmd [c, k, n] r s = Some (QError_ok, FormatInt 0 r, s') \<and> store_ok s' \<and> dbno s' = d \<and>
      vis_at (dbno s) s' = vis s \<and> vis_at d s' = vis_at d s"
proof -
  obtain ob s1 where g: "GetValue k True s = (Inr ob, s1)" "store_ok s1" "frame s s1" "vis s1 = vis s" "oval ob = v" "obj_ok ob"
    by (rule live_get [OF assms(1,2)])
  note f = frame_fields [OF g(3)]
  let ?s2 = "s1\<lparr>dbno := d\<rparr>"
  have d: "d < length (store s1)" "d \<noteq> dbno s1" using assms(4,5) f by auto
  have same: "store s1 ! d = store s ! d" "expiresDb s1 ! d = expiresDb s ! d" using g(3) assms(4) by (auto simp: frame_def)
  have sel: "SelectDB (int d) s1 = (int (dbno s), ?s2)" using d f by (auto simp: SelectDB_def)
  have e: "ExistsKey k ?s2 = (map_of (store s ! d) k \<noteq> None, ?s2)"
    using ExistsKey_memory [of ?s2 k] g(2) d same by (simp add: cur_db_def)
  show ?thesis
  proof (cases "map_of (store s ! d) k = None")
    case False
    then have "move_cmd [c, k, n] r s = Some (QError_ok, FormatInt 0 r, ?s2)"
      using g(1) sel e assms(3,4) by (auto simp: move_cmd_def Let_def)
    then show ?thesis using False g(2,4) d frame_vis_at [OF g(3) assms(4)] f vis_at_dbno [of s1] by simp
  next
    case True
    define s3 where "s3 = snd (SetValue k ob ?s2)"
    have ok2: "store_ok ?s2" using g(2) d by simp
    note s3 = set_step [OF ok2 g(6), of k, folded s3_def] vis_SetValue [OF ok2, of k ob, folded s3_def]
    note f3 = frame_fields [OF s3(2)]
    define s4 where "s4 = s3\<lparr>dbno := dbno s\<rparr>"
    have n: "dbno s < length (store s3)" using f3(10) f store_ok_current(1) [OF assms(1)] by simp
    then have ok4: "store_ok s4" using s3(1) by (simp add: s4_def)
    let ?s' = "snd (DeleteKey k (snd (ClearExpire k (put_obj k moved_from s4))))"
    note dr = drop_key_step [OF ok4, of k moved_from]
    have sel': "SelectDB (int d) ?s2 = (int d, ?s2)" "SelectDB (int (dbno s)) s3 = (int d, s4)"
      using n f3(1) assms(4) by (simp_all add: SelectDB_def s4_def)
    have m: "move_cmd [c, k, n] r s = Some (QError_ok, FormatInt 1 r, ?s')"
      using g(1) sel sel' e True assms(3,4) by (simp add: move_cmd_def Let_def s3_def [symmetric])
    have "vis s4 = vis s" using frame_vis_at [OF s3(2), of "dbno s"] assms(4) g(4) vis_at_dbno [of s1] f by (simp add: s4_def)
    moreover have "vis_at d s4 = vis s3" using f3(1) vis_at_dbno [of s3] by (simp add: s4_def)
    moreover have "vis_at d ?s' = vis_at d s4" using frame_vis_at [OF dr(2), of d] assms(4) by (simp add: s4_def)
    moreover have "dbno ?s' = dbno s" using frame_fields(1) [OF dr(2)] by (simp add: s4_def)
    moreover have "is_expired ?s2 k = expired_at (now s) (map_of (expiresDb s ! d) k)"
      using same f by (simp add: is_expired_def cur_exp_def)
    ultimately show ?thesis using m dr(1,3) s3(7) g(5) True frame_vis_at [OF g(3) assms(4)] by simp
  qed
qed

subsection \<open>The commands keep the invariant\<close>

text \<open>A moved-from object breaks the invariant at its key until the key is deleted.\<close>

definition ok_but :: "QString \<Rightarrow> server \<Rightarrow> bool" where
  "ok_but k s \<longleftrightarrow> store_ok (upd_db (AList.delete k) s)"

lemma ok_but_put: "store_ok s \<Longrightarrow> ok_but k (put_obj k x s)"
proof -
  assume s: "store_ok s"
  have "AList.delete k \<circ> AList.update k x = AList.delete k" by (simp add: fun_eq_iff delete_update_same)
  then show ?thesis using s store_ok_current(3) [OF s]
    by (simp add: ok_but_def put_obj_def upd_db_twice store_ok_upd_db db_ok_delete)
qed

lemma ok_but_waitSync: "ok_but k s \<Longrightarrow> waitSyncKeys s = []"
  using store_ok_current(6) [of "upd_db (AList.delete k) s"] by (simp add: ok_but_def)

lemma ok_but_SetExpire: "ok_but k s \<Longrightarrow> ok_but k (SetExpire b w s)"
  using store_ok_SetExpire [of "upd_db (AList.delete k) s" b w]
  by (simp add: ok_but_def SetExpire_def upd_exp_db)

lemma ok_but_ClearExpire: "ok_but k s \<Longrightarrow> ok_but k (snd (ClearExpire b s))"
proof -
  assume s: "ok_but k s"
  have c: "AList.delete k \<circ> AList.delete b = AList.delete b \<circ> AList.delete k"
    by (simp add: fun_eq_iff delete_twist)
  have "ok_but k (upd_exp (AList.delete b) (upd_db (AList.delete b) s))"
    using s expire_step(1) [of "upd_db (AList.delete k) s" b] by (simp add: ok_but_def upd_exp_db upd_db_twice c)
  then show ?thesis using s ok_but_waitSync [OF s]
    by (auto simp: ClearExpire_def ExpireIfNeed_def DeleteKey_memory split: option.split)
qed

lemma ok_but_DeleteKey: "ok_but k s \<Longrightarrow> store_ok (snd (DeleteKey k s))"
  by (simp add: DeleteKey_memory ok_but_waitSync) (simp add: ok_but_def)

lemma store_ok_GetValue: "store_ok s \<Longrightarrow> GetValue k b s = (x, s') \<Longrightarrow> store_ok s' \<and> (\<forall>ob. x = Inr ob \<longrightarrow> obj_ok ob)"
  using GetValueByType_Inr(2,6) GetValueByType_Inl(2) by (cases x; cases b) (auto simp: get_defs)

lemma store_ok_TTL: "store_ok s \<Longrightarrow> store_ok (snd (TTL k t s))"
  using expire_step(1) [of s k] store_ok_current [of s]
  by (auto simp: TTL_def ExistsKey_memory ExpireIfNeed_def DeleteKey_memory split: option.split prod.split)

lemma store_ok_move_value: "store_ok s \<Longrightarrow> obj_ok ob \<Longrightarrow> ok_but a (move_value a ob b s)"
  by (simp add: move_value_def Let_def ok_but_put store_ok_SetValue)

lemma store_ok_RenameKey:
  assumes "store_ok s"
  shows "store_ok (snd (RenameKey a b force s))"
proof -
  obtain x s1 where g: "GetValue a True s = (x, s1)" by (cases "GetValue a True s")
  note g' = store_ok_GetValue [OF assms g]
  show ?thesis
  proof (cases x)
    case (Inr ob)
    obtain ttl s2 where t: "TTL a (now s1) s1 = (ttl, s2)" by (cases "TTL a (now s1) s1")
    have s2: "store_ok s2" using store_ok_TTL [of s1 a "now s1"] g' t by simp
    note m = store_ok_move_value [OF s2, of ob a b]
    show ?thesis using g' g Inr t m s2 ok_but_SetExpire [OF m] ok_but_ClearExpire [OF m]
      by (auto simp: RenameKey_def Let_def ExistsKey_memory intro!: ok_but_DeleteKey ok_but_ClearExpire split: bool.split)
  qed (use g g' in \<open>simp add: RenameKey_def\<close>)
qed

lemma safe_rename [safe_cmds]: "safe_cmd rename_cmd" "safe_cmd renamenx_cmd"
  by (simp_all add: safe_cmd_def rename_cmd_def renamenx_cmd_def case_prod_beta safe_fail store_ok_RenameKey)

lemma safe_deadlines [safe_cmds]: "safe_cmd expire_cmd" "safe_cmd pexpire_cmd" "safe_cmd expireat_cmd" "safe_cmd pexpireat_cmd"
  "safe_cmd ttl_cmd" "safe_cmd pttl_cmd" "safe_cmd persist_cmd"
proof -
  have "safe_cmd (set_deadline at)" for at
    by (auto simp: safe_cmd_def set_deadline_def SetExpireByMs_def ExistsKey_memory store_ok_SetExpire)
  then show "safe_cmd expire_cmd" "safe_cmd pexpire_cmd" "safe_cmd expireat_cmd" "safe_cmd pexpireat_cmd"
    by (simp_all add: expire_cmd_def pexpire_cmd_def expireat_cmd_def pexpireat_cmd_def)
  have k: "store_ok s \<Longrightarrow> key_ttl k s = (n, s') \<Longrightarrow> store_ok s'" for s k n s'
    using store_ok_TTL [of s k "now s"] by (auto simp: key_ttl_def ExistsKey_memory split: if_splits prod.splits)
  show "safe_cmd ttl_cmd" "safe_cmd pttl_cmd" by (auto simp: safe_cmd_def ttl_cmd_def pttl_cmd_def split: prod.split dest: k)
  show "safe_cmd persist_cmd"
    by (simp add: safe_cmd_def persist_cmd_def case_prod_beta store_ok_ClearExpire)
qed

lemma safe_move [safe_cmds]: "safe_cmd move_cmd"
proof (rule safe_cmdI)
  fix params r and s :: server
  assume s: "store_ok s"
  obtain x s1 where g: "GetValue (params ! 1) True s = (x, s1)" by (cases "GetValue (params ! 1) True s")
  note g' = store_ok_GetValue [OF s g]
  obtain n s2 where d: "SelectDB (atoi (params ! 2)) s1 = (n, s2)" by (cases "SelectDB (atoi (params ! 2)) s1")
  have s2: "store_ok s2" using store_ok_SelectDB [of s1 "atoi (params ! 2)"] g' d by simp
  show "safe_result (move_cmd params r s)"
  proof (cases x)
    case (Inr ob)
    then show ?thesis using g g' d s2
      by (simp add: move_cmd_def Let_def ExistsKey_memory ok_but_DeleteKey ok_but_ClearExpire ok_but_put
        store_ok_SelectDB store_ok_SetValue split: bool.split)
  qed (use g g' in \<open>simp add: move_cmd_def\<close>)
qed

lemma safe_queries [safe_cmds]: "safe_cmd type_cmd" "safe_cmd exists_cmd" "safe_cmd keys_cmd" "safe_cmd (randomkey_cmd pick)"
proof -
  have "store_ok s \<Longrightarrow> KeyType k s = (ty, s') \<Longrightarrow> s' = s" for k ty and s s' :: server
    using store_ok_current [of s] by (auto simp: KeyType_def GetObject_memory split: option.splits)
  then show "safe_cmd type_cmd" by (auto simp: safe_cmd_def type_cmd_def Let_def split: prod.split)
  show "safe_cmd exists_cmd" by (simp add: safe_cmd_def exists_cmd_def ExistsKey_memory)
  show "safe_cmd keys_cmd" by (auto simp: safe_cmd_def keys_cmd_def map_option_case split: option.split)
  show "safe_cmd (randomkey_cmd pick)" by (simp add: safe_cmd_def randomkey_cmd_def Let_def)
qed

lemma safe_del [safe_cmds]: "safe_cmd del_cmd"
  using del_loop_spec by (auto simp: safe_cmd_def del_cmd_def split: prod.split)

lemma safe_scans [safe_cmds]: "safe_cmd (scan_cmd b)" "safe_cmd (hscan_cmd bh)" "safe_cmd (sscan_cmd bs)"
proof -
  have r: "store_ok s \<Longrightarrow> safe_result (scan_reply n p page r s)" for n p page r s
    by (auto simp: scan_reply_def Let_def split: prod.split option.split)
  show "safe_cmd (scan_cmd b)"
    by (auto simp: safe_cmd_def scan_cmd_def Let_def safe_fail intro!: r split: option.split)
  have "safe_cmd (scan_object prj ty page n)" for prj :: "qvalue \<Rightarrow> 'v option" and ty page n
    by (auto simp: safe_cmd_def scan_object_def Let_def safe_fail safe_report intro!: safe_with_obj r split: option.split)
  then show "safe_cmd (hscan_cmd bh)" "safe_cmd (sscan_cmd bs)" by (simp_all add: hscan_cmd_def sscan_cmd_def)
qed

lemma safe_sort [safe_cmds]: "safe_cmd (sort_cmd srt)"
proof (rule safe_cmdI)
  fix params r and s :: server
  assume s: "store_ok s"
  obtain x s1 where g: "GetValue (params ! 1) True s = (x, s1)" by (cases "GetValue (params ! 1) True s")
  show "safe_result (sort_cmd srt params r s)" using store_ok_GetValue [OF s g] g
    by (cases x) (auto simp: sort_cmd_def Let_def safe_fail split: option.split prod.split)
qed

lemma glob_filter_all: "(\<And>x. m x = Some (P x)) \<Longrightarrow> glob_filter 0 m xs = Some (filter P xs)"
  by (induction xs) simp_all

text \<open>KEYS replies with exactly the stored keys its pattern means, those that have expired and were not
  looked at since among them, when no class of the pattern accepts the terminator.\<close>

theorem keys_lists_matches:
  assumes "nul_safe (compile p)"
  shows "keys_cmd [c, p] r s =
    (let ks = filter (gmatch (compile p)) (map fst (cur_db s))
     in Some (QError_ok, fold FormatBulk ks (PreFormatMultiBulk (length ks) r), s))"
  using glob_filter_all [of "glob_match p" "gmatch (compile p)"] glob_correct [OF assms]
  by (simp add: keys_cmd_def Let_def)

text \<open>Witnesses\<close>

definition two_keys :: server where
  "two_keys = SetExpire ''b'' 100 (server_with [(''a'', VInt 1), (''b'', VInt 2)])"

lemma two_keys: "store_ok two_keys" "vis two_keys = [''a'' \<mapsto> VInt 1, ''b'' \<mapsto> VInt 2]" "deadline two_keys = [''b'' \<mapsto> 100]"
  "now two_keys = 0"
proof -
  let ?s = "server_with [(''a'', VInt 1), (''b'', VInt 2)]"
  have w: "store_ok ?s" "vis ?s = map_of [(''b'', VInt 2), (''a'', VInt 1)]" "frame (Store_Init 1 server_new) ?s"
    using server_with [of "[(''a'', VInt 1), (''b'', VInt 2)]"] by (simp_all add: LONG_MIN_def LONG_MAX_def)
  have f: "now ?s = 0" "deadline ?s = Map.empty"
    using frame_fields(2) [OF w(3)]
    by (simp_all add: server_with_def)
      (simp_all add: deadline_def cur_exp_def Store_Init_def server_new_def resize_def kMaxDbNum_def Let_def)
  then have "\<not> is_expired ?s ''b''" by (simp add: is_expired_def deadline_def [symmetric])
  then show "store_ok two_keys" "vis two_keys = [''a'' \<mapsto> VInt 1, ''b'' \<mapsto> VInt 2]" "deadline two_keys = [''b'' \<mapsto> 100]" "now two_keys = 0"
    using SetExpire_step [OF w(1), of "''b''" 100] w(2) f frame_fields(2) [OF SetExpire_step(2) [OF w(1), of "''b''" 100]] w(1)
    by (auto simp: two_keys_def fun_eq_iff)
qed


theorem del_removes_witness:
  "\<exists>s'. del_cmd [''del'', ''b'', ''q''] (Some []) two_keys = Some (QError_ok, FormatInt 1 (Some []), s') \<and> vis s' = [''a'' \<mapsto> VInt 1]"
proof -
  have "set [''b'', ''q''] \<inter> dom (map_of (cur_db two_keys)) = {''b''}"
  proof -
    have "map_of (cur_db two_keys) ''b'' \<noteq> None \<and> map_of (cur_db two_keys) ''q'' = None"
      by (simp add: two_keys_def server_with_def SetExpire_def put_obj_def cur_db_def upd_exp_def upd_db_def
        Store_Init_def server_new_def resize_def kMaxDbNum_def Let_def)
    then show ?thesis by auto
  qed
  then have n: "card (set [''b'', ''q''] \<inter> dom (map_of (cur_db two_keys))) = 1" by simp
  have "vis two_keys |` (- set [''b'', ''q'']) = [''a'' \<mapsto> VInt 1]" by (auto simp: two_keys(2) restrict_map_def fun_eq_iff)
  then show ?thesis
    using del_removes [OF two_keys(1), of "''del''" "[''b'', ''q'']" "Some []"] unfolding n by auto
qed

theorem persist_deletes_witness:
  "\<exists>s'. persist_cmd [''persist'', ''b''] (Some []) two_keys = Some (QError_ok, FormatInt 1 (Some []), s') \<and> vis s' = [''a'' \<mapsto> VInt 1]"
  using persist_deletes [OF two_keys(1), of "''persist''" "''b''" "Some []"] two_keys by (auto simp: fun_eq_iff)

theorem expire_ttl_witness:
  "\<exists>s1. expire_cmd [''expire'', ''a'', ''10''] (Some []) two_keys = Some (QError_ok, FormatInt 1 (Some []), s1) \<and>
    ttl_cmd [''ttl'', ''a''] (Some []) s1 = Some (QError_ok, FormatInt 10 (Some []), s1)"
proof -
  have "atoi ''10'' = 10" by code_simp
  then show ?thesis
    using expire_ttl [OF two_keys(1), of "''a''" "VInt 1" 10 "''10''" "''expire''" "Some []" "''ttl''" "Some []"] two_keys by auto
qed

theorem keys_lists_matches_witness:
  "keys_cmd [''keys'', ''[a-z]*''] (Some []) two_keys =
    (let ks = filter (gmatch (compile ''[a-z]*'')) (map fst (cur_db two_keys))
     in Some (QError_ok, fold FormatBulk ks (PreFormatMultiBulk (length ks) (Some [])), two_keys))"
proof -
  have "nul_safe (compile ''[a-z]*'')" by code_simp
  then show ?thesis by (rule keys_lists_matches)
qed

text \<open>Two databases, and a key in the first.\<close>

definition two_dbs :: server where
  "two_dbs = put_obj ''k'' (obj_of (VInt 7)) (Store_Init 2 server_new)"

theorem move_takes_value_witness:
  "\<exists>s'. move_cmd [''move'', ''k'', ''1''] (Some []) two_dbs = Some (QError_ok, FormatInt 1 (Some []), s') \<and>
    vis s' ''k'' = None \<and> vis_at 1 s' ''k'' = Some (VInt 7)"
proof -
  have i: "store_ok (Store_Init 2 server_new)" by (rule store_ok_Init) (simp_all add: server_new_def)
  have e: "\<not> is_expired (Store_Init 2 server_new) ''k''"
    by (simp add: is_expired_def cur_exp_def Store_Init_def server_new_def resize_def kMaxDbNum_def Let_def numeral_2_eq_2)
  have s: "store_ok two_dbs" "vis two_dbs ''k'' = Some (VInt 7)"
    using i vis_put_obj [OF i e] by (simp_all add: two_dbs_def store_ok_put_obj LONG_MIN_def LONG_MAX_def)
  have a: "atoi ''1'' = int 1" by code_simp
  have n: "dbno two_dbs = 0" "length (store two_dbs) = 2" "map_of (store two_dbs ! 1) ''k'' = None"
    "map_of (expiresDb two_dbs ! 1) ''k'' = None"
    by (simp_all add: two_dbs_def put_obj_def cur_db_def upd_db_def Store_Init_def server_new_def resize_def
      kMaxDbNum_def Let_def numeral_2_eq_2)
  show ?thesis using move_takes_value [OF s a, of "''move''" "Some []"] n by auto
qed

end
