(* ===== verification/Pubsub.thy ===== *)
theory Pubsub
  imports Keys
begin

text \<open>
  QedisCore/QPubsub.h and QPubsub.cc: channels, patterns and the clients that listen to them.

  A table is a \<open>std::map\<close> from names to sets of weak pointers: a list sorted by name whose entries
  list client numbers. A client that is gone is a number no client has.
\<close>

subsection \<open>The tables\<close>

type_synonym channel_table = "(QString \<times> client_id list) list"

definition table_of :: "QString \<Rightarrow> channel_table \<Rightarrow> client_id list" where
  "table_of ch t = (case map_of t ch of None \<Rightarrow> [] | Some cls \<Rightarrow> cls)"

text \<open>The insertion and the removal of a client; \<^const>\<open>None\<close> is a failed assertion.\<close>

definition table_add :: "QString \<Rightarrow> client_id \<Rightarrow> channel_table \<Rightarrow> channel_table option" where
  "table_add ch i t =
     (case map_of t ch of
        None \<Rightarrow> Some (insort_key fst (ch, [i]) t)
      | Some cls \<Rightarrow> if i \<in> set cls then None else Some (AList.update ch (cls @ [i]) t))"

definition table_del :: "QString \<Rightarrow> client_id \<Rightarrow> channel_table \<Rightarrow> channel_table option" where
  "table_del ch i t =
     (case map_of t ch of
        None \<Rightarrow> None
      | Some cls \<Rightarrow>
          if i \<notin> set cls then None
          else if removeAll i cls = [] then Some (AList.delete ch t)
          else Some (AList.update ch (removeAll i cls) t))"

subsection \<open>Subscriptions\<close>

definition Subscribe :: "client_id \<Rightarrow> QString \<Rightarrow> server \<Rightarrow> (nat \<times> server) option" where
  "Subscribe i channel s =
     (case map_of (clients s) i of
        None \<Rightarrow> Some (0, s)
      | Some c \<Rightarrow>
          (case set_insert channel (channels c) of
             (fresh, chs) \<Rightarrow>
               let s = put_client i (c\<lparr>channels := chs\<rparr>) s
               in if fresh
                  then map_option (\<lambda>t. (1, s\<lparr>chanClients := t\<rparr>)) (table_add channel i (chanClients s))
                  else Some (0, s)))"

text \<open>The result of \<open>UnSubscribe\<close> is the number of channels that are left.\<close>

definition UnSubscribe :: "client_id \<Rightarrow> QString \<Rightarrow> server \<Rightarrow> (nat \<times> server) option" where
  "UnSubscribe i channel s =
     (case map_of (clients s) i of
        None \<Rightarrow> Some (0, s)
      | Some c \<Rightarrow>
          if channel \<in> set (channels c) then
            let chs = removeAll channel (channels c);
                s = put_client i (c\<lparr>channels := chs\<rparr>) s
            in map_option (\<lambda>t. (length chs, s\<lparr>chanClients := t\<rparr>)) (table_del channel i (chanClients s))
          else Some (0, s))"

text \<open>
  \<open>UnSubscribeAll\<close> walks over the set of channels while \<open>UnSubscribe\<close> erases from it the element
  the loop stands on: fatal unless the set is empty.
\<close>

definition UnSubscribeAll :: "client_id \<Rightarrow> server \<Rightarrow> (nat \<times> server) option" where
  "UnSubscribeAll i s =
     (case map_of (clients s) i of
        None \<Rightarrow> Some (0, s)
      | Some c \<Rightarrow> if channels c = [] then Some (0, s) else None)"

definition PSubscribe :: "client_id \<Rightarrow> QString \<Rightarrow> server \<Rightarrow> (nat \<times> server) option" where
  "PSubscribe i channel s =
     (case map_of (clients s) i of
        None \<Rightarrow> Some (0, s)
      | Some c \<Rightarrow>
          (case set_insert channel (patternChannels c) of
             (fresh, chs) \<Rightarrow>
               let s = put_client i (c\<lparr>patternChannels := chs\<rparr>) s
               in if fresh
                  then map_option (\<lambda>t. (1, s\<lparr>patClients := t\<rparr>)) (table_add channel i (patClients s))
                  else Some (0, s)))"

definition PUnSubscribe :: "client_id \<Rightarrow> QString \<Rightarrow> server \<Rightarrow> (nat \<times> server) option" where
  "PUnSubscribe i channel s =
     (case map_of (clients s) i of
        None \<Rightarrow> Some (0, s)
      | Some c \<Rightarrow>
          if channel \<in> set (patternChannels c) then
            let chs = removeAll channel (patternChannels c);
                s = put_client i (c\<lparr>patternChannels := chs\<rparr>) s
            in map_option (\<lambda>t. (length chs, s\<lparr>patClients := t\<rparr>)) (table_del channel i (patClients s))
          else Some (0, s))"

definition PUnSubscribeAll :: "client_id \<Rightarrow> server \<Rightarrow> (nat \<times> server) option" where
  "PUnSubscribeAll i s =
     (case map_of (clients s) i of
        None \<Rightarrow> Some (0, s)
      | Some c \<Rightarrow> if patternChannels c = [] then Some (0, s) else None)"

subsection \<open>Publishing\<close>

definition message :: "QString list \<Rightarrow> string" where
  "message args = the (fold FormatBulk args (PreFormatMultiBulk (length args) (Some [])))"

text \<open>\<open>_Publish\<close>: the clients that are still there get the message, the others leave the set.\<close>

fun Publish_loop :: "string \<Rightarrow> client_id list \<Rightarrow> server \<Rightarrow> client_id list \<times> nat \<times> server" where
  "Publish_loop msg [] s = ([], 0, s)"
| "Publish_loop msg (i # cls) s =
     (case map_of (clients s) i of
        None \<Rightarrow> Publish_loop msg cls s
      | Some c \<Rightarrow>
          (case Publish_loop msg cls (put_client i (SendPacket msg c) s) of
             (kept, n, s) \<Rightarrow> (i # kept, n + 1, s)))"

fun Publish_patterns :: "QString \<Rightarrow> QString \<Rightarrow> channel_table \<Rightarrow> server \<Rightarrow> (channel_table \<times> nat \<times> server) option" where
  "Publish_patterns channel msg [] s = Some ([], 0, s)"
| "Publish_patterns channel msg ((p, cls) # t) s =
     (case glob_match p channel of
        None \<Rightarrow> None
      | Some b \<Rightarrow>
          (case (if b then Publish_loop (message [''pmessage'', p, channel, msg]) cls s else (cls, 0, s)) of
             (kept, n, s) \<Rightarrow>
               map_option (\<lambda>(t, m, s). ((p, kept) # t, n + m, s)) (Publish_patterns channel msg t s)))"

definition PublishMsg :: "QString \<Rightarrow> QString \<Rightarrow> server \<Rightarrow> (nat \<times> server) option" where
  "PublishMsg channel msg s =
     (case (case map_of (chanClients s) channel of
              None \<Rightarrow> (0, s)
            | Some cls \<Rightarrow>
                (case Publish_loop (message [''message'', channel, msg]) cls s of
                   (kept, n, s) \<Rightarrow> (n, s\<lparr>chanClients := AList.update channel kept (chanClients s)\<rparr>))) of
        (n, s) \<Rightarrow>
          map_option (\<lambda>(t, m, s). (n + m, s\<lparr>patClients := t\<rparr>)) (Publish_patterns channel msg (patClients s) s))"

subsection \<open>Recycling\<close>

definition kEraseMax :: nat where "kEraseMax = 10"

text \<open>From \<open>start\<close> on, until ten dead clients are gone; the result names where to go on.\<close>

fun recycle_loop :: "(client_id \<Rightarrow> bool) \<Rightarrow> nat \<Rightarrow> channel_table \<Rightarrow> channel_table \<times> QString" where
  "recycle_loop alive n [] = ([], [])"
| "recycle_loop alive n ((ch, cls) # t) =
     (if kEraseMax \<le> n then ((ch, cls) # t, ch)
      else
        let kept = filter alive cls
        in case recycle_loop alive (n + (length cls - length kept)) t of
             (t, start) \<Rightarrow> (if kept = [] then t else (ch, kept) # t, start))"

definition RecycleClients_table :: "(client_id \<Rightarrow> bool) \<Rightarrow> channel_table \<Rightarrow> QString \<Rightarrow> channel_table \<times> QString" where
  "RecycleClients_table alive t start =
     (let before = (if start \<noteq> [] \<and> start \<in> fst ` set t then takeWhile (\<lambda>(ch, _). ch \<noteq> start) t else [])
      in case recycle_loop alive 0 (drop (length before) t) of (t, start) \<Rightarrow> (before @ t, start))"

definition RecycleClients :: "QString \<Rightarrow> QString \<Rightarrow> server \<Rightarrow> (QString \<times> QString) \<times> server" where
  "RecycleClients startChannel startPattern s =
     (let alive = (\<lambda>i. map_of (clients s) i \<noteq> None)
      in case RecycleClients_table alive (chanClients s) startChannel of
           (t1, c1) \<Rightarrow>
             (case RecycleClients_table alive (patClients s) startPattern of
                (t2, c2) \<Rightarrow> ((c1, c2), s\<lparr>chanClients := t1, patClients := t2\<rparr>)))"

subsection \<open>Introspection\<close>

fun PubsubChannels :: "string option \<Rightarrow> channel_table \<Rightarrow> QString list option" where
  "PubsubChannels pattern [] = Some []"
| "PubsubChannels pattern ((ch, _) # t) =
     (case (case pattern of None \<Rightarrow> Some True | Some p \<Rightarrow> glob_match p ch) of
        None \<Rightarrow> None
      | Some b \<Rightarrow> map_option (\<lambda>res. if b then ch # res else res) (PubsubChannels pattern t))"

definition PubsubNumsub :: "QString \<Rightarrow> server \<Rightarrow> nat" where
  "PubsubNumsub channel s = length (table_of channel (chanClients s))"

definition PubsubNumpat :: "server \<Rightarrow> nat" where
  "PubsubNumpat s = sum_list (map (length \<circ> snd) (patClients s))"

subsection \<open>Commands\<close>

text \<open>\<open>subscribe\<close> and \<open>psubscribe\<close>: a reply for each name that is new.\<close>

fun subscribe_loop ::
  "string \<Rightarrow> (client_id \<Rightarrow> QString \<Rightarrow> server \<Rightarrow> (nat \<times> server) option) \<Rightarrow> (qclient \<Rightarrow> QString list) \<Rightarrow> client_id \<Rightarrow>
    QString list \<Rightarrow> reply \<Rightarrow> server \<Rightarrow> result" where
  "subscribe_loop word sub chs i [] r s = Some (QError_ok, r, s)"
| "subscribe_loop word sub chs i (pa # ps) r s =
     (case sub i pa s of
        None \<Rightarrow> None
      | Some (n, s) \<Rightarrow>
          let count = (case map_of (clients s) i of None \<Rightarrow> 0 | Some c \<Rightarrow> length (chs c));
              r = (if n = 1
                   then FormatInt (int count) (FormatBulk pa (FormatBulk word (PreFormatMultiBulk 3 r)))
                   else r)
          in subscribe_loop word sub chs i ps r s)"

definition subscribe_cmd :: handler where
  "subscribe_cmd params r s =
     (case Current s of
        None \<Rightarrow> Some (QError_ok, r, s)
      | Some (i, _) \<Rightarrow> subscribe_loop ''subscribe'' Subscribe channels i (tl params) r s)"

definition psubscribe_cmd :: handler where
  "psubscribe_cmd params r s =
     (case Current s of
        None \<Rightarrow> Some (QError_ok, r, s)
      | Some (i, _) \<Rightarrow> subscribe_loop ''psubscribe'' PSubscribe patternChannels i (tl params) r s)"

text \<open>The names after whose removal exactly one was left, as a \<open>std::set\<close>.\<close>

fun unsubscribe_loop ::
  "(client_id \<Rightarrow> QString \<Rightarrow> server \<Rightarrow> (nat \<times> server) option) \<Rightarrow> client_id \<Rightarrow> QString list \<Rightarrow> QString list \<Rightarrow> server \<Rightarrow>
    (QString list \<times> server) option" where
  "unsubscribe_loop unsub i [] res s = Some (res, s)"
| "unsubscribe_loop unsub i (pa # ps) res s =
     (case unsub i pa s of
        None \<Rightarrow> None
      | Some (n, s) \<Rightarrow> unsubscribe_loop unsub i ps (if n = 1 \<and> pa \<notin> set res then insort pa res else res) s)"

definition unsubscribe_all ::
  "(qclient \<Rightarrow> QString list) \<Rightarrow> (client_id \<Rightarrow> server \<Rightarrow> (nat \<times> server) option) \<Rightarrow>
    (client_id \<Rightarrow> QString \<Rightarrow> server \<Rightarrow> (nat \<times> server) option) \<Rightarrow> handler" where
  "unsubscribe_all chs unsub_all unsub params r s =
     (if length params = 1 then
        (case Current s of
           None \<Rightarrow> None
         | Some (i, c) \<Rightarrow>
             map_option (\<lambda>(_, s). (QError_ok, fold FormatBulk (chs c) r, s)) (unsub_all i s))
      else
        case (case Current s of None \<Rightarrow> Some ([], s) | Some (i, _) \<Rightarrow> unsubscribe_loop unsub i (tl params) [] s) of
          None \<Rightarrow> None
        | Some (res, s) \<Rightarrow> Some (QError_ok, fold FormatBulk res (PreFormatMultiBulk (length res) r), s))"

definition unsubscribe_cmd :: handler where
  "unsubscribe_cmd = unsubscribe_all channels UnSubscribeAll UnSubscribe"

definition punsubscribe_cmd :: handler where
  "punsubscribe_cmd = unsubscribe_all patternChannels PUnSubscribeAll PUnSubscribe"

definition publish_cmd :: handler where
  "publish_cmd params r s =
     map_option (\<lambda>(n, s). (QError_ok, FormatInt (int n) r, s)) (PublishMsg (params ! 1) (params ! 2) s)"

definition pubsub_cmd :: handler where
  "pubsub_cmd params r s =
     (if params ! 1 = ''channels'' then
        (if 3 < length params then fail QError_param QError_param r s
         else
           map_option (\<lambda>res. (QError_ok, fold FormatBulk res (PreFormatMultiBulk (length res) r), s))
             (PubsubChannels (if length params = 3 then Some (cstr (params ! 2)) else None) (chanClients s)))
      else if params ! 1 = ''numsub'' then
        Some (QError_ok,
          fold (\<lambda>ch r. FormatInt (int (PubsubNumsub ch s)) (FormatBulk ch r)) (drop 2 params)
            (PreFormatMultiBulk (2 * (length params - 2)) r), s)
      else if params ! 1 = ''numpat'' then
        (if length params \<noteq> 2 then fail QError_param QError_param r s
         else Some (QError_ok, FormatInt (int (PubsubNumpat s)) r, s))
      else Some (QError_ok, r, s))"

subsection \<open>The tables agree with the clients\<close>

text \<open>
  A table has no name twice, no client twice under a name, and under a name exactly those of the
  present clients that listen to it.
\<close>

definition table_ok :: "(qclient \<Rightarrow> QString list) \<Rightarrow> channel_table \<Rightarrow> (client_id \<times> qclient) list \<Rightarrow> bool" where
  "table_ok chs t cls \<longleftrightarrow> keys_distinct t \<and> (\<forall>ch. distinct (table_of ch t)) \<and>
     (\<forall>i c. map_of cls i = Some c \<longrightarrow> distinct (chs c) \<and> (\<forall>ch. i \<in> set (table_of ch t) \<longleftrightarrow> ch \<in> set (chs c)))"

definition pubsub_ok :: "server \<Rightarrow> bool" where
  "pubsub_ok s \<longleftrightarrow> keys_distinct (clients s) \<and> table_ok channels (chanClients s) (clients s) \<and>
     table_ok patternChannels (patClients s) (clients s)"

lemma insort_key_map:
  assumes "k \<notin> fst ` set t"
  shows "map_of (insort_key fst (k, v) t) = (map_of t)(k \<mapsto> v)" "keys_distinct (insort_key fst (k, v) t) = keys_distinct t"
proof -
  show "map_of (insort_key fst (k, v) t) = (map_of t)(k \<mapsto> v)"
    using assms by (induction t) (auto simp: fun_eq_iff)
  show "keys_distinct (insort_key fst (k, v) t) = keys_distinct t"
    using assms by (induction t) (auto simp: keys_distinct_def set_insort_key)
qed

lemma table_add_step:
  assumes "keys_distinct t" "\<forall>ch. distinct (table_of ch t)" "i \<notin> set (table_of ch t)"
  obtains t' where "table_add ch i t = Some t'" "keys_distinct t'" "\<forall>ch. distinct (table_of ch t')"
    "\<And>x. set (table_of x t') = (if x = ch then insert i (set (table_of x t)) else set (table_of x t))"
proof (cases "map_of t ch")
  case None
  then have n: "ch \<notin> fst ` set t" by (simp add: map_of_eq_None_iff)
  have "\<forall>x. distinct (table_of x (insort_key fst (ch, [i]) t))" using assms(2) n by (simp add: table_of_def insort_key_map)
  then show thesis using n None assms(1)
    by (intro that [of "insort_key fst (ch, [i]) t"]) (auto simp: table_add_def table_of_def insort_key_map)
next
  case (Some cls)
  then have i: "table_of ch t = cls" by (simp add: table_of_def)
  have u: "table_of x (AList.update ch l t) = (if x = ch then l else table_of x t)" for x l by (simp add: table_of_def update_conv')
  have "\<forall>x. distinct (table_of x (AList.update ch (cls @ [i]) t))" using assms(2,3) i by (auto simp: u)
  then show thesis using Some i assms(1,3)
    by (intro that [of "AList.update ch (cls @ [i]) t"]) (auto simp: table_add_def u keys_distinct_update)
qed

lemma table_del_step:
  assumes "keys_distinct t" "\<forall>ch. distinct (table_of ch t)" "i \<in> set (table_of ch t)"
  obtains t' where "table_del ch i t = Some t'" "keys_distinct t'" "\<forall>ch. distinct (table_of ch t')"
    "\<And>x. set (table_of x t') = (if x = ch then set (table_of x t) - {i} else set (table_of x t))"
proof -
  define cls where "cls = table_of ch t"
  have c: "map_of t ch = Some cls" "i \<in> set cls"
    using assms(3) by (cases "map_of t ch"; simp add: table_of_def cls_def)+
  have u: "table_of x (AList.update ch l t) = (if x = ch then l else table_of x t)"
    "table_of x (AList.delete ch t) = (if x = ch then [] else table_of x t)" for x l
    by (simp_all add: table_of_def update_conv' delete_conv')
  show thesis
  proof (cases "removeAll i cls = []")
    case True
    then have "set cls - {i} = {}" by (metis empty_set set_removeAll)
    then show thesis using c assms(1,2) True
      by (intro that [of "AList.delete ch t"]) (auto simp: table_del_def u cls_def keys_distinct_delete)
  next
    case False
    have "\<forall>x. distinct (table_of x (AList.update ch (removeAll i cls) t))"
      using assms(2) by (auto simp: u cls_def distinct_removeAll)
    then show thesis using c False assms(1)
      by (intro that [of "AList.update ch (removeAll i cls) t"]) (auto simp: table_del_def u cls_def keys_distinct_update)
  qed
qed

lemma table_ok_step:
  assumes "table_ok chs t cls" "map_of cls i = Some c" "keys_distinct t'" "\<forall>ch. distinct (table_of ch t')" "distinct (chs c')"
    "\<And>x j. j \<noteq> i \<Longrightarrow> j \<in> set (table_of x t') \<longleftrightarrow> j \<in> set (table_of x t)" "\<And>x. i \<in> set (table_of x t') \<longleftrightarrow> x \<in> set (chs c')"
  shows "table_ok chs t' (AList.update i c' cls)"
  using assms by (simp add: table_ok_def update_conv')

lemma table_ok_same:
  assumes "table_ok chs t cls" "map_of cls i = Some c" "chs c' = chs c"
  shows "table_ok chs t (AList.update i c' cls)"
  using assms by (simp add: table_ok_def update_conv')

text \<open>
  Channels and patterns are two instances of one thing: a set of names in the client and a table in
  the server that are kept in step.
\<close>

locale subscriptions =
  fixes chs :: "qclient \<Rightarrow> QString list" and set_chs :: "QString list \<Rightarrow> qclient \<Rightarrow> qclient"
    and tbl :: "server \<Rightarrow> channel_table" and set_tbl :: "channel_table \<Rightarrow> server \<Rightarrow> server"
    and sub unsub :: "client_id \<Rightarrow> QString \<Rightarrow> server \<Rightarrow> (nat \<times> server) option"
  assumes chs_set [simp]: "chs (set_chs xs c) = xs"
    and set_same: "set_chs (chs c) c = c"
    and tbl_set [simp]: "tbl (set_tbl t s) = t" "clients (set_tbl t s) = clients s"
    and tbl_put [simp]: "tbl (put_client i c s) = tbl s"
    and sub_eq: "map_of (clients s) i = Some c \<Longrightarrow> sub i ch s =
      (if ch \<in> set (chs c) then Some (0, put_client i c s)
       else map_option (\<lambda>t. (1, set_tbl t (put_client i (set_chs (chs c @ [ch]) c) s))) (table_add ch i (tbl s)))"
    and unsub_eq: "map_of (clients s) i = Some c \<Longrightarrow> unsub i ch s =
      (if ch \<notin> set (chs c) then Some (0, s)
       else map_option (\<lambda>t. (length (removeAll ch (chs c)), set_tbl t (put_client i (set_chs (removeAll ch (chs c)) c) s)))
         (table_del ch i (tbl s)))"
begin

definition inv :: "server \<Rightarrow> bool" where
  "inv s \<longleftrightarrow> table_ok chs (tbl s) (clients s)"

lemma sub_step:
  assumes "inv s" "map_of (clients s) i = Some c"
  obtains t where "sub i ch s = Some (if ch \<in> set (chs c) then 0 else 1, t)" "inv t"
    "t = put_client i c s \<and> ch \<in> set (chs c) \<or> (\<exists>x. t = set_tbl x (put_client i (set_chs (chs c @ [ch]) c) s)) \<and> ch \<notin> set (chs c)"
proof -
  have k: "table_ok chs (tbl s) (clients s)" using assms(1) by (simp add: inv_def)
  show thesis
  proof (cases "ch \<in> set (chs c)")
    case True
    then show ?thesis using assms(2) table_ok_same [OF k assms(2)]
      by (intro that [of "put_client i c s"]) (simp_all add: sub_eq inv_def, simp add: put_client_def)
  next
    case False
    then have "i \<notin> set (table_of ch (tbl s))" using k assms(2) by (simp add: table_ok_def)
    from table_add_step [OF _ _ this] k obtain t' where
      a: "table_add ch i (tbl s) = Some t'" "keys_distinct t'" "\<forall>ch. distinct (table_of ch t')"
        "\<And>x. set (table_of x t') = (if x = ch then insert i (set (table_of x (tbl s))) else set (table_of x (tbl s)))"
      unfolding table_ok_def by metis
    have "table_ok chs t' (AList.update i (set_chs (chs c @ [ch]) c) (clients s))"
      using k assms(2) False by (intro table_ok_step [OF k assms(2) a(2,3)]) (auto simp: a(4) table_ok_def)
    then show ?thesis using False assms(2) a(1)
      by (intro that [of "set_tbl t' (put_client i (set_chs (chs c @ [ch]) c) s)"])
        (simp_all add: sub_eq inv_def, simp add: put_client_def, blast)
  qed
qed

lemma unsub_step:
  assumes "inv s" "map_of (clients s) i = Some c"
  obtains t where "unsub i ch s = Some (if ch \<in> set (chs c) then length (removeAll ch (chs c)) else 0, t)" "inv t"
    "t = s \<and> ch \<notin> set (chs c) \<or> (\<exists>x. t = set_tbl x (put_client i (set_chs (removeAll ch (chs c)) c) s)) \<and> ch \<in> set (chs c)"
proof -
  have k: "table_ok chs (tbl s) (clients s)" using assms(1) by (simp add: inv_def)
  show thesis
  proof (cases "ch \<in> set (chs c)")
    case False
    then show ?thesis using assms by (intro that [of s]) (simp_all add: unsub_eq)
  next
    case True
    then have "i \<in> set (table_of ch (tbl s))" using k assms(2) by (simp add: table_ok_def)
    from table_del_step [OF _ _ this] k obtain t' where
      a: "table_del ch i (tbl s) = Some t'" "keys_distinct t'" "\<forall>ch. distinct (table_of ch t')"
        "\<And>x. set (table_of x t') = (if x = ch then set (table_of x (tbl s)) - {i} else set (table_of x (tbl s)))"
      unfolding table_ok_def by metis
    have "table_ok chs t' (AList.update i (set_chs (removeAll ch (chs c)) c) (clients s))"
      using k assms(2) True
      by (intro table_ok_step [OF k assms(2) a(2,3)]) (auto simp: a(4) table_ok_def distinct_removeAll)
    then show ?thesis using True assms(2) a(1)
      by (intro that [of "set_tbl t' (put_client i (set_chs (removeAll ch (chs c)) c) s)"])
        (simp_all add: unsub_eq inv_def, simp add: put_client_def, blast)
  qed
qed

end

interpretation chan: subscriptions channels "\<lambda>x c. c\<lparr>channels := x\<rparr>" chanClients "\<lambda>t s. s\<lparr>chanClients := t\<rparr>" Subscribe UnSubscribe
  by unfold_locales (auto simp: Subscribe_def UnSubscribe_def set_insert_def put_client_def Let_def)

interpretation pat: subscriptions patternChannels "\<lambda>x c. c\<lparr>patternChannels := x\<rparr>" patClients "\<lambda>t s. s\<lparr>patClients := t\<rparr>" PSubscribe PUnSubscribe
  by unfold_locales (auto simp: PSubscribe_def PUnSubscribe_def set_insert_def put_client_def Let_def)

lemma pubsub_ok_iff: "pubsub_ok s \<longleftrightarrow> keys_distinct (clients s) \<and> chan.inv s \<and> pat.inv s"
  by (simp add: pubsub_ok_def chan.inv_def pat.inv_def)

text \<open>A step at one client that leaves the other kind of subscription alone.\<close>

definition sub_frame :: "client_id \<Rightarrow> server \<Rightarrow> server \<Rightarrow> bool" where
  "sub_frame i s s' \<longleftrightarrow> current s' = current s \<and> same_store s s' \<and> keys_distinct (clients s') \<and> map_of (clients s') i \<noteq> None"

lemma sub_frames:
  assumes "keys_distinct (clients s)" "map_of (clients s) i = Some c"
  shows "sub_frame i s s" "sub_frame i s (put_client i c' s)"
    "sub_frame i s ((put_client i c' s)\<lparr>chanClients := x\<rparr>)" "sub_frame i s ((put_client i c' s)\<lparr>patClients := x\<rparr>)"
    "pat.inv s \<Longrightarrow> patternChannels c' = patternChannels c \<Longrightarrow> pat.inv (put_client i c' s) \<and> pat.inv ((put_client i c' s)\<lparr>chanClients := x\<rparr>)"
    "chan.inv s \<Longrightarrow> channels c' = channels c \<Longrightarrow> chan.inv (put_client i c' s) \<and> chan.inv ((put_client i c' s)\<lparr>patClients := x\<rparr>)"
  using assms
  by (simp_all add: sub_frame_def keys_distinct_update put_client_def update_conv' same_store_def qstore.truncate_def
      pat.inv_def chan.inv_def table_ok_same)

lemma pubsub_step:
  assumes "pubsub_ok s" "map_of (clients s) i \<noteq> None" "op \<in> {Subscribe, UnSubscribe, PSubscribe, PUnSubscribe}"
  shows "\<exists>n s'. op i ch s = Some (n, s') \<and> pubsub_ok s' \<and> sub_frame i s s'"
proof -
  obtain c where c: "map_of (clients s) i = Some c" using assms(2) by blast
  have ok: "keys_distinct (clients s)" "chan.inv s" "pat.inv s" using assms(1) by (simp_all add: pubsub_ok_iff)
  note f = sub_frames [OF ok(1) c]
  have fin: "pubsub_ok t \<longleftrightarrow> chan.inv t \<and> pat.inv t" if "sub_frame i s t" for t
    using that by (auto simp: sub_frame_def pubsub_ok_iff)
  from assms(3) consider "op = Subscribe" | "op = UnSubscribe" | "op = PSubscribe" | "op = PUnSubscribe" by blast
  then show ?thesis
  proof cases
    case 1
    show ?thesis by (rule chan.sub_step [OF ok(2) c, of ch]) (use 1 f fin ok in \<open>elim disjE conjE exE; simp\<close>)
  next
    case 2
    show ?thesis by (rule chan.unsub_step [OF ok(2) c, of ch]) (use 2 f fin ok in \<open>elim disjE conjE exE; simp\<close>)
  next
    case 3
    show ?thesis by (rule pat.sub_step [OF ok(3) c, of ch]) (use 3 f fin ok in \<open>elim disjE conjE exE; simp\<close>)
  next
    case 4
    show ?thesis by (rule pat.unsub_step [OF ok(3) c, of ch]) (use 4 f fin ok in \<open>elim disjE conjE exE; simp\<close>)
  qed
qed

lemma sub_frame_trans: "sub_frame i s s' \<Longrightarrow> sub_frame i s' s'' \<Longrightarrow> sub_frame i s s''"
  by (auto simp: sub_frame_def intro: same_store_trans)

lemma subscribe_loop_step:
  assumes "op \<in> {Subscribe, UnSubscribe, PSubscribe, PUnSubscribe}"
  shows "pubsub_ok s \<Longrightarrow> map_of (clients s) i \<noteq> None \<Longrightarrow>
    \<exists>r' s'. subscribe_loop w op chs i ps r s = Some (QError_ok, r', s') \<and> pubsub_ok s' \<and> same_store s s'"
proof (induction ps arbitrary: r s)
  case (Cons p ps)
  from pubsub_step [OF Cons.prems assms, of p] obtain n s1 where
    1: "op i p s = Some (n, s1)" "pubsub_ok s1" "sub_frame i s s1" by blast
  then have l: "map_of (clients s1) i \<noteq> None" "same_store s s1" by (simp_all add: sub_frame_def)
  have "\<exists>r' s'. subscribe_loop w op chs i ps r s1 = Some (QError_ok, r', s') \<and> pubsub_ok s' \<and> same_store s s'" for r
    using Cons.IH [OF 1(2) l(1), of r] same_store_trans [OF l(2)] by blast
  then show ?case using 1(1) by (simp add: Let_def)
qed simp

lemma unsubscribe_loop_step:
  assumes "op \<in> {Subscribe, UnSubscribe, PSubscribe, PUnSubscribe}"
  shows "pubsub_ok s \<Longrightarrow> map_of (clients s) i \<noteq> None \<Longrightarrow>
    \<exists>res' s'. unsubscribe_loop op i ps res s = Some (res', s') \<and> pubsub_ok s' \<and> same_store s s'"
proof (induction ps arbitrary: res s)
  case (Cons p ps)
  from pubsub_step [OF Cons.prems assms, of p] obtain n s1 where
    1: "op i p s = Some (n, s1)" "pubsub_ok s1" "sub_frame i s s1" by blast
  then have l: "map_of (clients s1) i \<noteq> None" "same_store s s1" by (simp_all add: sub_frame_def)
  have "\<exists>res' s'. unsubscribe_loop op i ps res s1 = Some (res', s') \<and> pubsub_ok s' \<and> same_store s s'" for res
    using Cons.IH [OF 1(2) l(1), of res] same_store_trans [OF l(2)] by blast
  then show ?case using 1(1) by simp
qed simp

text \<open>UNSUBSCRIBE without names walks over a set it erases from: fatal for a client that listens to anything.\<close>

lemma unsubscribe_all_dies:
  "Current s = Some (i, c) \<Longrightarrow> channels c \<noteq> [] \<Longrightarrow> unsubscribe_cmd [w] r s = None"
  by (auto simp: unsubscribe_cmd_def unsubscribe_all_def UnSubscribeAll_def Current_def split: option.splits)

subsection \<open>Delivery\<close>

definition deliver :: "(client_id \<Rightarrow> string) \<Rightarrow> server \<Rightarrow> server" where
  "deliver f s = s\<lparr>clients := map (\<lambda>(i, c). (i, SendPacket (f i) c)) (clients s)\<rparr>"

lemma map_of_deliver [simp]: "map_of (clients (deliver f s)) i = map_option (SendPacket (f i)) (map_of (clients s) i)"
proof -
  have "map_of (map (\<lambda>(i, c). (i, SendPacket (f i) c)) cls) i = map_option (SendPacket (f i)) (map_of cls i)" for cls
    by (induction cls) auto
  then show ?thesis by (simp add: deliver_def)
qed

lemma deliver_deliver: "deliver f (deliver g s) = deliver (\<lambda>i. g i @ f i) s"
  by (simp add: deliver_def SendPacket_def comp_def case_prod_beta)

lemma deliver_nothing [simp]: "deliver (\<lambda>_. []) s = s"
  by (simp add: deliver_def SendPacket_def)

lemma put_client_deliver:
  assumes "keys_distinct (clients s)" "map_of (clients s) i = Some c"
  shows "put_client i (SendPacket m c) s = deliver (\<lambda>j. if j = i then m else []) s"
proof -
  have "AList.update i (SendPacket m c) cls = map (\<lambda>(j, d). (j, SendPacket (if j = i then m else []) d)) cls"
    if "keys_distinct cls" "map_of cls i = Some c" for cls
    using that
  proof (induction cls)
    case (Cons p cls)
    obtain j d where p: "p = (j, d)" by (cases p)
    show ?case
    proof (cases "j = i")
      case True
      then have "\<forall>(k, e) \<in> set cls. k \<noteq> i" using Cons.prems(1) p by (force simp: keys_distinct_def)
      then have "map (\<lambda>(j, d). (j, SendPacket (if j = i then m else []) d)) cls = cls"
        by (intro map_idI) (auto simp: SendPacket_def)
      then show ?thesis using True p Cons.prems by simp
    qed (use Cons p in \<open>simp add: keys_distinct_def SendPacket_def\<close>)
  qed simp
  then show ?thesis using assms by (simp add: put_client_def deliver_def)
qed

lemma deliver_keys [simp]: "keys_distinct (clients (deliver f s)) = keys_distinct (clients s)"
  by (simp add: deliver_def keys_distinct_def comp_def case_prod_beta)

lemma Publish_loop_delivers:
  "keys_distinct (clients s) \<Longrightarrow> distinct cls \<Longrightarrow>
    Publish_loop m cls s = (filter (\<lambda>i. map_of (clients s) i \<noteq> None) cls,
      length (filter (\<lambda>i. map_of (clients s) i \<noteq> None) cls), deliver (\<lambda>i. if i \<in> set cls then m else []) s)"
proof (induction cls arbitrary: s)
  case (Cons i cls)
  show ?case
  proof (cases "map_of (clients s) i")
    case None
    have "deliver (\<lambda>j. if j = i \<or> j \<in> set cls then m else []) s = deliver (\<lambda>j. if j \<in> set cls then m else []) s"
    proof -
      have "(j, d) \<in> set (clients s) \<Longrightarrow> j \<noteq> i" for j d using None by (force simp: map_of_eq_None_iff)
      then show ?thesis unfolding deliver_def by (intro arg_cong [of _ _ "\<lambda>x. s\<lparr>clients := x\<rparr>"] map_cong) auto
    qed
    then show ?thesis using None Cons by simp
  next
    case (Some c)
    note d = put_client_deliver [OF Cons.prems(1) Some, of m]
    have "deliver (\<lambda>j. if j \<in> set cls then m else []) (deliver (\<lambda>j. if j = i then m else []) s) =
        deliver (\<lambda>j. if j = i \<or> j \<in> set cls then m else []) s"
      using Cons.prems(2) by (simp add: deliver_deliver) (rule arg_cong [of _ _ "\<lambda>f. deliver f s"], auto)
    then show ?thesis using Some Cons.IH [of "deliver (\<lambda>j. if j = i then m else []) s"] Cons.prems d by simp
  qed
qed simp

lemma Publish_patterns_delivers:
  assumes "\<And>p. p \<in> fst ` set t \<Longrightarrow> glob_match p ch = Some (P p)" "\<And>p cls. (p, cls) \<in> set t \<Longrightarrow> distinct cls"
  shows "keys_distinct (clients s) \<Longrightarrow> Publish_patterns ch m t s =
    Some (map (\<lambda>(p, cls). (p, if P p then filter (\<lambda>i. map_of (clients s) i \<noteq> None) cls else cls)) t,
      sum_list (map (\<lambda>(p, cls). if P p then length (filter (\<lambda>i. map_of (clients s) i \<noteq> None) cls) else 0) t),
      deliver (\<lambda>i. concat (map (\<lambda>(p, cls). if P p \<and> i \<in> set cls then message [''pmessage'', p, ch, m] else []) t)) s)"
  using assms
proof (induction t arbitrary: s)
  case (Cons e t)
  obtain p cls where e: "e = (p, cls)" by (cases e)
  have g: "glob_match p ch = Some (P p)" "distinct cls" using Cons.prems(2,3) e by force+
  let ?m = "message [''pmessage'', p, ch, m]"
  define s1 where "s1 = (if P p then deliver (\<lambda>i. if i \<in> set cls then ?m else []) s else s)"
  have s1: "s1 = deliver (\<lambda>i. if P p \<and> i \<in> set cls then ?m else []) s" by (simp add: s1_def)
  have alive: "(map_of (clients s1) i \<noteq> None) = (map_of (clients s) i \<noteq> None)" "keys_distinct (clients s1)" for i
    using Cons.prems(1) by (simp_all add: s1_def)
  have ih: "Publish_patterns ch m t s1 =
    Some (map (\<lambda>(p, cls). (p, if P p then filter (\<lambda>i. map_of (clients s) i \<noteq> None) cls else cls)) t,
      sum_list (map (\<lambda>(p, cls). if P p then length (filter (\<lambda>i. map_of (clients s) i \<noteq> None) cls) else 0) t),
      deliver (\<lambda>i. concat (map (\<lambda>(p, cls). if P p \<and> i \<in> set cls then message [''pmessage'', p, ch, m] else []) t)) s1)"
    using Cons.IH [OF alive(2)] Cons.prems(2,3) unfolding alive(1) by auto
  have d: "deliver (\<lambda>i. concat (map (\<lambda>(p, cls). if P p \<and> i \<in> set cls then message [''pmessage'', p, ch, m] else []) t)) s1 =
      deliver (\<lambda>i. concat (map (\<lambda>(p, cls). if P p \<and> i \<in> set cls then message [''pmessage'', p, ch, m] else []) (e # t))) s"
    by (simp add: s1 deliver_deliver e)
  show ?case
    using g ih Publish_loop_delivers [OF Cons.prems(1) g(2), of ?m] unfolding d by (cases "P p") (simp_all add: e s1_def)
qed simp

lemma concat_selected:
  "(\<And>p cls. (p, cls) \<in> set t \<Longrightarrow> Q cls \<longleftrightarrow> R p) \<Longrightarrow>
    concat (map (\<lambda>(p, cls). if P p \<and> Q cls then f p else []) t) = concat (map f (filter (\<lambda>p. R p \<and> P p) (map fst t)))"
proof (induction t)
  case (Cons e t)
  obtain p cls where e: "e = (p, cls)" by (cases e)
  then have "Q cls \<longleftrightarrow> R p" using Cons.prems by simp
  moreover have "concat (map (\<lambda>(p, cls). if P p \<and> Q cls then f p else []) t) = concat (map f (filter (\<lambda>p. R p \<and> P p) (map fst t)))"
    using Cons by simp
  ultimately show ?case using e by simp
qed simp

text \<open>What PUBLISH is for one client.\<close>

definition received :: "QString \<Rightarrow> QString \<Rightarrow> QString list \<Rightarrow> qclient \<Rightarrow> string" where
  "received ch m patterns c =
     (if ch \<in> set (channels c) then message [''message'', ch, m] else []) @
     concat (map (\<lambda>p. message [''pmessage'', p, ch, m])
       (filter (\<lambda>p. p \<in> set (patternChannels c) \<and> gmatch (compile p) ch) patterns))"

text \<open>The clients that listen to a name.\<close>

definition listening :: "(qclient \<Rightarrow> QString list) \<Rightarrow> QString \<Rightarrow> server \<Rightarrow> nat" where
  "listening chs x s = length (filter (\<lambda>(i, c). x \<in> set (chs c)) (clients s))"

lemma alive_listening:
  assumes "table_ok chs t (clients s)" "keys_distinct (clients s)"
  shows "length (filter (\<lambda>i. map_of (clients s) i \<noteq> None) (table_of x t)) = listening chs x s"
proof -
  let ?l = "filter (\<lambda>(i, c). x \<in> set (chs c)) (clients s)"
  have d: "distinct (map fst (clients s))" using assms(2) by (simp add: keys_distinct_def)
  have m: "(i, c) \<in> set (clients s) \<longleftrightarrow> map_of (clients s) i = Some c" for i c using d by simp
  have "set (filter (\<lambda>i. map_of (clients s) i \<noteq> None) (table_of x t)) = fst ` set ?l"
    using assms(1) m by (force simp: table_ok_def image_iff)
  moreover have "distinct (map fst ?l)" using d by (simp add: distinct_map_filter)
  moreover have "distinct (filter (\<lambda>i. map_of (clients s) i \<noteq> None) (table_of x t))" using assms(1) by (simp add: table_ok_def)
  ultimately have "length (filter (\<lambda>i. map_of (clients s) i \<noteq> None) (table_of x t)) = length (map fst ?l)"
    by (metis distinct_card set_map)
  then show ?thesis by (simp add: listening_def)
qed

text \<open>A table without some of its dead clients is as good as before.\<close>

definition thinned :: "(client_id \<Rightarrow> bool) \<Rightarrow> channel_table \<Rightarrow> channel_table \<Rightarrow> bool" where
  "thinned alive t t' \<longleftrightarrow> (keys_distinct t \<longrightarrow> keys_distinct t') \<and>
     (\<forall>x. (distinct (table_of x t) \<longrightarrow> distinct (table_of x t')) \<and>
       (\<forall>i. alive i \<longrightarrow> (i \<in> set (table_of x t') \<longleftrightarrow> i \<in> set (table_of x t))))"

lemma thinned_ok:
  assumes "table_ok chs t cls" "thinned (\<lambda>i. map_of cls i \<noteq> None) t t'"
    "\<And>i. map_option chs (map_of cls' i) = map_option chs (map_of cls i)"
  shows "table_ok chs t' cls'"
proof -
  have "\<exists>c. map_of cls i = Some c \<and> chs c = chs c'" if "map_of cls' i = Some c'" for i c'
    using assms(3) [of i] that by (cases "map_of cls i") simp_all
  then show ?thesis using assms(1,2) unfolding table_ok_def thinned_def by (metis option.distinct(1))
qed

lemma thinned_update:
  "map_of t ch = Some cls \<Longrightarrow> thinned alive t (AList.update ch (filter alive cls) t)"
  by (auto simp: thinned_def table_of_def update_conv' keys_distinct_update)

lemma thinned_map:
  "thinned alive t (map (\<lambda>(p, cls). (p, if P p then filter alive cls else cls)) t)"
proof -
  let ?t = "map (\<lambda>(p, cls). (p, if P p then filter alive cls else cls)) t"
  have m: "table_of x ?t = (if P x then filter alive (table_of x t) else table_of x t)" for x
    unfolding table_of_def by (induction t) auto
  have "map fst ?t = map fst t" by (induction t) auto
  then have "keys_distinct ?t = keys_distinct t" by (simp only: keys_distinct_def)
  then show ?thesis unfolding thinned_def m by auto
qed

text \<open>PUBLISH, spelled out: what every client gets, how many messages that are, and the tables afterwards.\<close>

lemma PublishMsg_eq:
  assumes "pubsub_ok s" "\<forall>p \<in> fst ` set (patClients s). nul_safe (compile p)"
  obtains t1 t2 where "PublishMsg ch m s = Some (listening channels ch s +
      sum_list (map (\<lambda>p. listening patternChannels p s) (filter (\<lambda>p. gmatch (compile p) ch) (map fst (patClients s)))),
      (deliver (\<lambda>i. case map_of (clients s) i of None \<Rightarrow> [] | Some c \<Rightarrow> received ch m (map fst (patClients s)) c) s)
        \<lparr>chanClients := t1, patClients := t2\<rparr>)"
    "thinned (\<lambda>i. map_of (clients s) i \<noteq> None) (chanClients s) t1"
    "thinned (\<lambda>i. map_of (clients s) i \<noteq> None) (patClients s) t2"
proof -
  let ?alive = "\<lambda>i. map_of (clients s) i \<noteq> None"
  have ok: "keys_distinct (clients s)" "table_ok channels (chanClients s) (clients s)"
    "table_ok patternChannels (patClients s) (clients s)" using assms(1) by (simp_all add: pubsub_ok_def)
  have dist: "distinct (table_of x (chanClients s))" "distinct (table_of x (patClients s))" for x
    using ok by (simp_all add: table_ok_def)
  let ?m1 = "message [''message'', ch, m]"
  define s1 where "s1 = deliver (\<lambda>i. if i \<in> set (table_of ch (chanClients s)) then ?m1 else []) s"
  obtain t1 where first: "(case map_of (chanClients s) ch of None \<Rightarrow> (0, s)
      | Some cls \<Rightarrow> (case Publish_loop ?m1 cls s of (kept, n, s) \<Rightarrow> (n, s\<lparr>chanClients := AList.update ch kept (chanClients s)\<rparr>))) =
      (listening channels ch s, s1\<lparr>chanClients := t1\<rparr>)" and t1: "thinned ?alive (chanClients s) t1"
  proof (cases "map_of (chanClients s) ch")
    case None
    then have "listening channels ch s = 0" using alive_listening [OF ok(2,1), of ch] by (simp add: table_of_def)
    then show ?thesis using None by (intro that [of "chanClients s"]) (simp_all add: s1_def table_of_def thinned_def)
  next
    case (Some cls)
    then have c: "table_of ch (chanClients s) = cls" by (simp add: table_of_def)
    then have "distinct cls" using dist(1) [of ch] by simp
    from Publish_loop_delivers [OF ok(1) this, of ?m1] Some alive_listening [OF ok(2,1), of ch] thinned_update [OF Some, of ?alive]
    show ?thesis by (intro that) (simp_all add: s1_def c deliver_def)
  qed
  have pats: "(p, cls) \<in> set (patClients s) \<Longrightarrow> cls = table_of p (patClients s)" for p cls
    using ok(3) by (simp add: table_ok_def table_of_def keys_distinct_def)
  let ?P = "\<lambda>p. gmatch (compile p) ch"
  let ?f = "\<lambda>i. concat (map (\<lambda>(p, cls). if ?P p \<and> i \<in> set cls then message [''pmessage'', p, ch, m] else []) (patClients s))"
  let ?t2 = "map (\<lambda>(p, cls). (p, if ?P p then filter ?alive cls else cls)) (patClients s)"
  let ?s1 = "s1\<lparr>chanClients := t1\<rparr>"
  have d: "(p, cls) \<in> set (patClients s) \<Longrightarrow> distinct cls" for p cls using pats dist(2) by metis
  have g: "p \<in> fst ` set (patClients s) \<Longrightarrow> glob_match p ch = Some (?P p)" for p using assms(2) glob_correct by blast
  have k: "keys_distinct (clients ?s1)" using ok(1) by (simp add: s1_def)
  have alive: "(map_of (clients ?s1) i \<noteq> None) = ?alive i" for i by (simp add: s1_def)
  have "sum_list (map (\<lambda>(p, cls). if ?P p then length (filter ?alive cls) else 0) t) =
      sum_list (map (\<lambda>p. listening patternChannels p s) (filter ?P (map fst t)))" if "set t \<subseteq> set (patClients s)" for t
    using that
  proof (induction t)
    case (Cons e t)
    obtain p cls where e: "e = (p, cls)" by (cases e)
    then have "length (filter ?alive cls) = listening patternChannels p s"
      using alive_listening [OF ok(3,1), of p] pats [of p cls] Cons.prems by simp
    then show ?case using Cons e by simp
  qed simp
  note count = this [OF subset_refl]
  have second: "Publish_patterns ch m (patClients s) ?s1 = Some (?t2,
      sum_list (map (\<lambda>(p, cls). if ?P p then length (filter ?alive cls) else 0) (patClients s)), deliver ?f ?s1)"
    using Publish_patterns_delivers [of "patClients s" ch ?P ?s1 m, OF g d k] unfolding alive by simp
  have all: "(if i \<in> set (table_of ch (chanClients s)) then ?m1 else []) @ ?f i = received ch m (map fst (patClients s)) c"
    if c: "map_of (clients s) i = Some c" for i c
  proof -
    have 1: "i \<in> set (table_of ch (chanClients s)) \<longleftrightarrow> ch \<in> set (channels c)" using ok(2) c by (simp add: table_ok_def)
    have 2: "i \<in> set cls \<longleftrightarrow> p \<in> set (patternChannels c)" if "(p, cls) \<in> set (patClients s)" for p cls
      using ok(3) c pats [OF that] by (simp add: table_ok_def)
    have "?f i = concat (map (\<lambda>p. message [''pmessage'', p, ch, m])
        (filter (\<lambda>p. p \<in> set (patternChannels c) \<and> ?P p) (map fst (patClients s))))"
      by (rule concat_selected) (rule 2)
    then show ?thesis using 1 by (simp add: received_def)
  qed
  let ?F = "\<lambda>i. case map_of (clients s) i of None \<Rightarrow> [] | Some c \<Rightarrow> received ch m (map fst (patClients s)) c"
  have "deliver (\<lambda>i. (if i \<in> set (table_of ch (chanClients s)) then ?m1 else []) @ ?f i) s = deliver ?F s"
    unfolding deliver_def using all ok(1)
    by (intro arg_cong [of _ _ "\<lambda>x. s\<lparr>clients := x\<rparr>"] map_cong) (auto simp: keys_distinct_def split: option.splits)
  then have "deliver ?f s1 = deliver ?F s" unfolding s1_def deliver_deliver .
  moreover have "(deliver ?f ?s1)\<lparr>patClients := ?t2\<rparr> = (deliver ?f s1)\<lparr>chanClients := t1, patClients := ?t2\<rparr>"
    by (simp add: deliver_def)
  ultimately have "(deliver ?f ?s1)\<lparr>patClients := ?t2\<rparr> = (deliver ?F s)\<lparr>chanClients := t1, patClients := ?t2\<rparr>" by simp
  moreover have "PublishMsg ch m s = Some (listening channels ch s +
      sum_list (map (\<lambda>p. listening patternChannels p s) (filter ?P (map fst (patClients s)))), (deliver ?f ?s1)\<lparr>patClients := ?t2\<rparr>)"
    using second by (simp add: PublishMsg_def first count s1_def deliver_def)
  ultimately show thesis using that [OF _ t1 thinned_map] by simp
qed

text \<open>C12: PUBLISH sends the message once to every present client that listens to the channel, and once more for
  each of its patterns that matches, and nothing to anybody else, and replies with the number of these messages, as long
  as no class of a pattern accepts the terminator.\<close>

theorem publish_delivers:
  assumes "pubsub_ok s" "\<forall>p \<in> fst ` set (patClients s). nul_safe (compile p)"
  shows "\<exists>s'. publish_cmd [w, ch, m] r s = Some (QError_ok,
      FormatInt (int (listening channels ch s +
        sum_list (map (\<lambda>p. listening patternChannels p s) (filter (\<lambda>p. gmatch (compile p) ch) (map fst (patClients s)))))) r, s') \<and>
    same_store s s' \<and>
    (\<forall>i c. map_of (clients s) i = Some c \<longrightarrow>
      map_of (clients s') i = Some (SendPacket (received ch m (map fst (patClients s)) c) c)) \<and>
    dom (map_of (clients s')) = dom (map_of (clients s))"
proof (rule PublishMsg_eq [OF assms, of ch m])
  fix t1 t2
  let ?F = "\<lambda>i. case map_of (clients s) i of None \<Rightarrow> [] | Some c \<Rightarrow> received ch m (map fst (patClients s)) c"
  let ?s' = "(deliver ?F s)\<lparr>chanClients := t1, patClients := t2\<rparr>"
  assume "PublishMsg ch m s = Some (listening channels ch s +
      sum_list (map (\<lambda>p. listening patternChannels p s) (filter (\<lambda>p. gmatch (compile p) ch) (map fst (patClients s)))), ?s')"
  moreover have "same_store s ?s'" by (simp add: same_store_def qstore.truncate_def deliver_def)
  moreover have "map_of (clients ?s') i = Some (SendPacket (received ch m (map fst (patClients s)) c) c)"
    if "map_of (clients s) i = Some c" for i c using that by simp
  moreover have "dom (map_of (clients ?s')) = dom (map_of (clients s))" by auto
  ultimately show ?thesis unfolding publish_cmd_def by (intro exI [of _ ?s']) simp
qed

text \<open>Two listeners, one of them by pattern, and a client that does not listen.\<close>

definition listener :: "QString list \<Rightarrow> QString list \<Rightarrow> qclient" where
  "listener chs ps = client_new\<lparr>channels := chs, patternChannels := ps, auth := True\<rparr>"

definition listeners :: server where
  "listeners = (Store_Init 1 server_new)\<lparr>
     clients := [(1, listener [''news''] []), (2, listener [] [''n*'']), (3, listener [] [])],
     chanClients := [(''news'', [1])], patClients := [(''n*'', [2])], current := Some 3\<rparr>"

lemma listeners_ok: "pubsub_ok listeners"
  by (auto simp: pubsub_ok_def table_ok_def keys_distinct_def table_of_def listeners_def listener_def split: if_splits)

theorem publish_delivers_witness:
  "\<exists>s'. publish_cmd [''publish'', ''news'', ''x''] (Some []) listeners = Some (QError_ok, Some ('':2'' @ CRLF), s') \<and>
    map_of (clients s') 2 = Some (SendPacket (message [''pmessage'', ''n*'', ''news'', ''x'']) (listener [] [''n*''])) \<and>
    map_of (clients s') 3 = Some (listener [] [])"
proof -
  have g: "nul_safe (compile ''n*'')" "gmatch (compile ''n*'') ''news''" by code_simp+
  then have "\<forall>p \<in> fst ` set (patClients listeners). nul_safe (compile p)" by (simp add: listeners_def)
  note p = publish_delivers [OF listeners_ok this, of "''publish''" "''news''" "''x''" "Some []"]
  have l: "map_of (clients listeners) 2 = Some (listener [] [''n*''])" "map_of (clients listeners) 3 = Some (listener [] [])"
    "map fst (patClients listeners) = [''n*'']" "listening channels ''news'' listeners = 1"
    "listening patternChannels ''n*'' listeners = 1"
    by (simp_all add: listeners_def listening_def listener_def)
  have m: "received ''news'' ''x'' [''n*''] (listener [] [''n*'']) = message [''pmessage'', ''n*'', ''news'', ''x'']"
    "received ''news'' ''x'' [''n*''] (listener [] []) = []"
    using g by (simp_all add: received_def listener_def)
  have i: "FormatInt (int (1 + 1)) (Some []) = Some ('':2'' @ CRLF)" by code_simp
  show ?thesis using p g l m i by (auto simp: SendPacket_def)
qed

subsection \<open>Consistency\<close>

lemma recycle_loop_thinned:
  "recycle_loop alive n t = (t', start) \<Longrightarrow>
    fst ` set t' \<subseteq> fst ` set t \<and> (keys_distinct t \<longrightarrow> thinned alive t t')"
proof (induction alive n t arbitrary: t' start rule: recycle_loop.induct)
  case (2 alive n ch cls t)
  show ?case
  proof (cases "kEraseMax \<le> n")
    case True
    then show ?thesis using "2.prems" by (auto simp: thinned_def)
  next
    case False
    let ?kept = "filter alive cls"
    obtain t1 st where t1: "recycle_loop alive (n + (length cls - length ?kept)) t = (t1, st)" by force
    note ih = "2.IH" [OF False refl t1]
    have t': "t' = (if ?kept = [] then t1 else (ch, ?kept) # t1)" using "2.prems" t1 False by (auto simp: Let_def split: if_splits)
    have "thinned alive ((ch, cls) # t) t'" if k: "keys_distinct ((ch, cls) # t)"
    proof -
      have n: "ch \<notin> fst ` set t" "keys_distinct t" using k by (auto simp: keys_distinct_def)
      then have "ch \<notin> fst ` set t1" using ih by blast
      then have none: "table_of ch t1 = []" by (simp add: table_of_def map_of_eq_None_iff [THEN iffD2])
      have c: "table_of x ((ch, k) # u) = (if x = ch then k else table_of x u)" for x k u by (simp add: table_of_def)
      have th: "thinned alive t t1" using ih n(2) by blast
      show ?thesis
      proof (cases "?kept = []")
        case True
        then have "\<not> alive i" if "i \<in> set cls" for i using that by (auto simp: filter_empty_conv)
        moreover have "table_of ch t = []" using n(1) by (simp add: table_of_def map_of_eq_None_iff [THEN iffD2])
        ultimately show ?thesis using th none True n unfolding thinned_def c t' by (auto simp: keys_distinct_def)
      next
        case False
        then show ?thesis using th \<open>ch \<notin> fst ` set t1\<close> n
          unfolding thinned_def t' if_not_P [OF False] c by (auto simp: keys_distinct_def)
      qed
    qed
    then show ?thesis using ih t' by auto
  qed
qed (auto simp: thinned_def)

lemma thinned_behind:
  assumes "keys_distinct (before @ t)" "thinned alive t t'" "fst ` set t' \<subseteq> fst ` set t"
  shows "thinned alive (before @ t) (before @ t')"
proof -
  have "table_of x (before @ u) = (case map_of before x of None \<Rightarrow> table_of x u | Some cls \<Rightarrow> cls)" for x u
    by (simp add: table_of_def map_add_def split: option.splits)
  moreover have "keys_distinct (before @ t')"
  proof -
    have "keys_distinct t'" using assms(1,2) by (simp add: thinned_def keys_distinct_def)
    moreover have "fst ` set before \<inter> fst ` set t' = {}" using assms(1,3) by (auto simp: keys_distinct_def)
    ultimately show ?thesis using assms(1) by (simp add: keys_distinct_def)
  qed
  ultimately show ?thesis using assms(1,2) by (auto simp: thinned_def split: option.splits)
qed

lemma RecycleClients_table_thinned:
  assumes "keys_distinct t"
  shows "thinned alive t (fst (RecycleClients_table alive t start))"
proof -
  define before where "before = (if start \<noteq> [] \<and> start \<in> fst ` set t then takeWhile (\<lambda>(ch, _). ch \<noteq> start) t else [])"
  have t: "before @ drop (length before) t = t"
    by (auto simp: before_def) (metis takeWhile_dropWhile_id dropWhile_eq_drop)
  obtain t1 st where r: "recycle_loop alive 0 (drop (length before) t) = (t1, st)" by force
  note l = recycle_loop_thinned [OF r]
  have "keys_distinct (drop (length before) t)" using assms unfolding keys_distinct_def by (metis drop_map distinct_drop)
  then have "thinned alive (before @ drop (length before) t) (before @ t1)"
    using l assms t by (intro thinned_behind) simp_all
  then show ?thesis by (simp add: t RecycleClients_table_def before_def [symmetric] r)
qed

text \<open>C11: The tables of channels and patterns stay in step with the clients under every command and under the timer
  that recycles: SUBSCRIBE and PSUBSCRIBE of any names, UNSUBSCRIBE and PUNSUBSCRIBE of given names, PUBLISH when no class
  of a pattern accepts the terminator, and the recycling from any two places return and keep them in step. UNSUBSCRIBE
  and PUNSUBSCRIBE without names keep them in step too when the client listens to nothing of the kind, and are fatal
  otherwise.\<close>

theorem subscriptions_stay_consistent:
  assumes "pubsub_ok s" "Current s = Some (i, c)"
  shows "(\<forall>h \<in> {subscribe_cmd, psubscribe_cmd}.
      \<exists>r' s'. h ps r s = Some (QError_ok, r', s') \<and> pubsub_ok s' \<and> same_store s s') \<and>
    (\<forall>(h, chs) \<in> set [(unsubscribe_cmd, channels), (punsubscribe_cmd, patternChannels)].
      if length ps = 1 \<and> chs c \<noteq> [] then h ps r s = None
      else \<exists>r' s'. h ps r s = Some (QError_ok, r', s') \<and> pubsub_ok s' \<and> same_store s s') \<and>
    ((\<forall>p \<in> fst ` set (patClients s). nul_safe (compile p)) \<longrightarrow>
      (\<exists>n s'. PublishMsg ch m s = Some (n, s') \<and> pubsub_ok s' \<and> same_store s s')) \<and>
    (case RecycleClients startChannel startPattern s of (_, s') \<Rightarrow> pubsub_ok s' \<and> same_store s s')"
proof (intro conjI impI)
  have ok: "keys_distinct (clients s)" "table_ok channels (chanClients s) (clients s)"
    "table_ok patternChannels (patClients s) (clients s)" using assms(1) by (simp_all add: pubsub_ok_def)
  have i: "map_of (clients s) i \<noteq> None" "map_of (clients s) i = Some c"
    using assms(2) by (auto simp: Current_def split: option.splits)
  show "\<forall>h \<in> {subscribe_cmd, psubscribe_cmd}. \<exists>r' s'. h ps r s = Some (QError_ok, r', s') \<and> pubsub_ok s' \<and> same_store s s'"
    using subscribe_loop_step [OF _ assms(1) i(1)] assms(2) by (simp add: subscribe_cmd_def psubscribe_cmd_def)
  have u: "\<exists>r' s'. unsubscribe_all chs ua op ps r s = Some (QError_ok, r', s') \<and> pubsub_ok s' \<and> same_store s s'"
    if "op \<in> {Subscribe, UnSubscribe, PSubscribe, PUnSubscribe}" "length ps \<noteq> 1" for chs ua op
    using unsubscribe_loop_step [OF that(1) assms(1) i(1), of "tl ps" "[]"] assms(2) that(2) by (auto simp: unsubscribe_all_def)
  show "\<forall>(h, chs) \<in> set [(unsubscribe_cmd, channels), (punsubscribe_cmd, patternChannels)].
      if length ps = 1 \<and> chs c \<noteq> [] then h ps r s = None
      else \<exists>r' s'. h ps r s = Some (QError_ok, r', s') \<and> pubsub_ok s' \<and> same_store s s'"
    using u [of UnSubscribe] u [of PUnSubscribe] assms i(2)
    by (cases "length ps = 1")
      (auto simp: unsubscribe_cmd_def punsubscribe_cmd_def unsubscribe_all_def UnSubscribeAll_def PUnSubscribeAll_def)
  show "\<exists>n s'. PublishMsg ch m s = Some (n, s') \<and> pubsub_ok s' \<and> same_store s s'"
    if n: "\<forall>p \<in> fst ` set (patClients s). nul_safe (compile p)"
  proof (rule PublishMsg_eq [OF assms(1) n, of ch m])
    fix t1 t2
    let ?F = "\<lambda>i. case map_of (clients s) i of None \<Rightarrow> [] | Some c \<Rightarrow> received ch m (map fst (patClients s)) c"
    let ?s' = "(deliver ?F s)\<lparr>chanClients := t1, patClients := t2\<rparr>"
    assume t: "thinned (\<lambda>i. map_of (clients s) i \<noteq> None) (chanClients s) t1"
      "thinned (\<lambda>i. map_of (clients s) i \<noteq> None) (patClients s) t2"
    have "map_option channels (map_of (clients (deliver ?F s)) i) = map_option channels (map_of (clients s) i)"
      "map_option patternChannels (map_of (clients (deliver ?F s)) i) = map_option patternChannels (map_of (clients s) i)" for i
      by (simp_all add: option.map_comp comp_def SendPacket_def)
    note k = thinned_ok [OF ok(2) t(1) this(1)] thinned_ok [OF ok(3) t(2) this(2)]
    have "pubsub_ok ?s'" using ok(1) k by (simp add: pubsub_ok_def)
    moreover have "same_store s ?s'" by (simp add: same_store_def qstore.truncate_def deliver_def)
    moreover assume "PublishMsg ch m s = Some (listening channels ch s +
        sum_list (map (\<lambda>p. listening patternChannels p s) (filter (\<lambda>p. gmatch (compile p) ch) (map fst (patClients s)))), ?s')"
    ultimately show ?thesis by blast
  qed
  have k: "keys_distinct (chanClients s)" "keys_distinct (patClients s)" using ok(2,3) by (simp_all add: table_ok_def)
  let ?alive = "\<lambda>i. map_of (clients s) i \<noteq> None"
  obtain t1 c1 t2 c2 where r: "RecycleClients_table ?alive (chanClients s) startChannel = (t1, c1)"
    "RecycleClients_table ?alive (patClients s) startPattern = (t2, c2)" by (metis surj_pair)
  have "table_ok channels t1 (clients s)" "table_ok patternChannels t2 (clients s)"
    using thinned_ok [OF ok(2) RecycleClients_table_thinned [OF k(1), of ?alive startChannel] refl]
      thinned_ok [OF ok(3) RecycleClients_table_thinned [OF k(2), of ?alive startPattern] refl] unfolding r by simp_all
  then show "case RecycleClients startChannel startPattern s of (_, s') \<Rightarrow> pubsub_ok s' \<and> same_store s s'"
    using ok(1) unfolding RecycleClients_def Let_def r by (simp add: pubsub_ok_def same_store_def qstore.truncate_def)
qed

theorem subscriptions_stay_consistent_witness:
  "(\<exists>r' s'. unsubscribe_cmd [''unsubscribe'', ''a'', ''b''] (Some []) listeners = Some (QError_ok, r', s') \<and> pubsub_ok s') \<and>
   (\<exists>n s'. PublishMsg ''news'' ''x'' listeners = Some (n, s') \<and> pubsub_ok s')"
proof -
  have "Current listeners = Some (3, listener [] [])" by (simp add: Current_def listeners_def)
  note c = subscriptions_stay_consistent [OF listeners_ok this]
  have "nul_safe (compile ''n*'')" by code_simp
  then have "\<forall>p \<in> fst ` set (patClients listeners). nul_safe (compile p)" by (simp add: listeners_def)
  note c = c [where ps = "[''unsubscribe'', ''a'', ''b'']" and r = "Some []" and ch = "''news''" and m = "''x''"]
  have "\<exists>r' s'. unsubscribe_cmd [''unsubscribe'', ''a'', ''b''] (Some []) listeners = Some (QError_ok, r', s') \<and> pubsub_ok s'"
    using c [THEN conjunct2, THEN conjunct1] by auto
  moreover have "\<exists>n s'. PublishMsg ''news'' ''x'' listeners = Some (n, s') \<and> pubsub_ok s'"
    using c [THEN conjunct2, THEN conjunct2, THEN conjunct1] \<open>\<forall>p \<in> fst ` set (patClients listeners). nul_safe (compile p)\<close> by blast
  ultimately show ?thesis by blast
qed

end
