(* ===== verification/Admin.thy ===== *)
theory Admin
  imports Keys
begin

text \<open>
  The commands of QedisCore/QServerCommand.cc that act on the server as a whole, and the slow log
  (QSlowLog.cc). The clock of the slow log in microseconds is an argument; its log file is not
  modelled. BGSAVE, SAVE, INFO and SHUTDOWN, which fork, write files or read the system, are
  with the replication; here, as CONFIG, they are left to the parameters of the command table.
\<close>

subsection \<open>Databases\<close>

definition Client_SelectDB :: "client_id \<Rightarrow> int \<Rightarrow> server \<Rightarrow> bool \<times> server" where
  "Client_SelectDB i db s =
     (case SelectDB db s of
        (old, s) \<Rightarrow>
          if 0 \<le> old then
            (True, case map_of (clients s) i of None \<Rightarrow> s | Some c \<Rightarrow> put_client i (c\<lparr>cl_db := db\<rparr>) s)
          else (False, s))"

definition select_cmd :: handler where
  "select_cmd params r s =
     (let newDb = atoi (params ! 1)
      in case Current s of
           None \<Rightarrow> Some (QError_ok, r, snd (SelectDB newDb s))
         | Some (i, _) \<Rightarrow>
             (case Client_SelectDB i newDb s of
                (True, s) \<Rightarrow> Some (QError_ok, FormatOK r, s)
              | (False, s) \<Rightarrow> fail QError_invalidDB QError_ok r s))"

definition dbsize_cmd :: handler where
  "dbsize_cmd params r s = Some (QError_ok, FormatInt (int (DBSize s)) r, s)"

text \<open>FLUSHDB empties the table of values, not that of deadlines, and propagates itself.\<close>

definition flushdb_cmd :: handler where
  "flushdb_cmd params r s =
     (let s = s\<lparr>dirty := wrap32 (dirty s + int (DBSize s))\<rparr>;
          s = ClearCurrentDB s
      in map_option (\<lambda>s. (QError_ok, FormatOK r, s)) (Propogate_db (GetDB s) params s))"

text \<open>\<open>for (int dbno = 0; true; ++ dbno)\<close> up to the first number \<open>SelectDB\<close> refuses.\<close>

definition flush_count :: "server \<Rightarrow> server" where
  "flush_count s =
     fold (\<lambda>i s. let s = snd (SelectDB (int i) s) in s\<lparr>dirty := wrap32 (dirty s + int (DBSize s))\<rparr>)
       [0..<length (store s)] s"

definition flushall_cmd :: handler where
  "flushall_cmd params r s =
     (let currentDb = GetDB s;
          s = flush_count s;
          s = snd (SelectDB currentDb s)
      in map_option (\<lambda>s. (QError_ok, FormatOK r, ResetDb s)) (Propogate_db (-1) params s))"

subsection \<open>The client and the server\<close>

definition is_word :: "QString \<Rightarrow> string \<Rightarrow> bool" where
  "is_word p w \<longleftrightarrow> length p = length w \<and> strncaseeq p w (length w)"

definition client_cmd :: handler where
  "client_cmd params r s =
     (let sub = params ! 1
      in if is_word sub ''getname'' then
           (if length params \<noteq> 2 then fail QError_param QError_param r s
            else map_option (\<lambda>(_, c). (QError_ok, FormatBulk (cl_name c) r, s)) (Current s))
         else if is_word sub ''setname'' then
           (if length params \<noteq> 3 then fail QError_param QError_param r s
            else map_option (\<lambda>s. (QError_ok, FormatOK r, s)) (upd_current (SetName (params ! 2)) s))
         else if is_word sub ''kill'' \<or> is_word sub ''list'' then Some (QError_ok, FormatOK r, s)
         else fail QError_param QError_param r s)"

definition debug_cmd :: handler where
  "debug_cmd params r s =
     (if strncaseeq (params ! 1) ''segfault'' 8 \<and> length params = 2 then None
      else if strncaseeq (params ! 1) ''object'' 6 \<and> length params = 3 then
        (case GetValue (params ! 2) False s of
           (Inl err, s) \<Rightarrow> fail err err r s
         | (Inr obj, s) \<Rightarrow>
             Some (QError_ok,
               FormatBulk (''ref count:1, encoding:'' @ EncodingStringInfo (encoding obj) @ '', idletime:'' @
                 show_nat (unat (EstimateIdleTime (lruclock s) (ucast (lru obj))))) r, s))
      else fail QError_param QError_param r s)"

definition ping_cmd :: handler where
  "ping_cmd params r s = Some (QError_ok, FormatSingle ''PONG'' r, s)"

definition echo_cmd :: handler where
  "echo_cmd params r s = Some (QError_ok, FormatBulk (params ! 1) r, s)"

definition monitor_cmd :: handler where
  "monitor_cmd params r s =
     (case Current s of
        None \<Rightarrow> None
      | Some (i, _) \<Rightarrow> Some (QError_ok, FormatOK r, s\<lparr>monitors := snd (set_insert i (monitors s))\<rparr>))"

definition CheckPassword :: "QString \<Rightarrow> server \<Rightarrow> bool" where
  "CheckPassword pwd s \<longleftrightarrow> password s = [] \<or> password s = pwd"

definition auth_cmd :: handler where
  "auth_cmd params r s =
     (if CheckPassword (params ! 1) s then map_option (\<lambda>s. (QError_ok, FormatOK r, s)) (upd_current SetAuth s)
      else fail QError_errAuth QError_ok r s)"

subsection \<open>The slow log\<close>

definition SlowLog_Begin :: "int \<Rightarrow> QSlowLog \<Rightarrow> QSlowLog" where
  "SlowLog_Begin us l = (if threshold l = 0 then l else l\<lparr>beginUs := us\<rparr>)"

text \<open>\<open>static_cast<unsigned>(used)\<close> keeps the low 32 bits.\<close>

definition SlowLog_EndAndStat :: "int \<Rightarrow> QString list \<Rightarrow> QSlowLog \<Rightarrow> QSlowLog option" where
  "SlowLog_EndAndStat us cmds l =
     (if threshold l = 0 \<or> beginUs l = 0 then Some l
      else
        let used = us - beginUs l
        in if used < threshold l then Some l
           else
             case cmds of
               [] \<Rightarrow> None
             | c # _ \<Rightarrow>
                 if c = ''slowlog'' then Some l
                 else
                   let logs = (nat (used mod 2 ^ 32), cmds) # slow_logs l
                   in Some (l\<lparr>slow_logs := (if logMaxCount l < length logs then butlast logs else logs)\<rparr>))"

definition format_slow :: "nat \<times> QString list \<Rightarrow> reply \<Rightarrow> reply" where
  "format_slow item r =
     (case item of
        (used, cmds) \<Rightarrow>
          fold FormatBulk cmds (PreFormatMultiBulk (length cmds) (FormatInt (int used) (PreFormatMultiBulk 2 r))))"

text \<open>A negative count is announced as a huge one, and the whole log follows.\<close>

definition slowlog_cmd :: handler where
  "slowlog_cmd params r s =
     (let logs = slow_logs (slowlog s)
      in if params ! 1 = ''len'' then Some (QError_ok, FormatInt (int (length logs)) r, s)
         else if params ! 1 = ''reset'' then
           Some (QError_ok, FormatOK r, s\<lparr>slowlog := (slowlog s)\<lparr>slow_logs := []\<rparr>\<rparr>)
         else if params ! 1 = ''get'' then
           (case (if length params = 3 then Strtol (params ! 2) else Some (int (length logs))) of
              None \<Rightarrow> fail QError_syntax QError_syntax r s
            | Some n \<Rightarrow>
                let realCnt = min n (int (length logs))
                in Some (QError_ok,
                     fold format_slow (if realCnt < 0 then logs else take (nat realCnt) logs)
                       (PreFormatMultiBulk (to_size realCnt) r), s))
         else fail QError_syntax QError_syntax r s)"

end
