(* ===== verification/Commands.thy ===== *)
theory Commands
  imports Strings Lists SortedSets Pubsub Admin
begin

text \<open>
  The transaction commands of QedisCore/QMulti.cc and the command table of QCommand.h and QCommand.cc.

  What the commands need from the C library, from the layout of the hash tables and from chance is
  one record of functions, \<open>libs\<close>. Commands that are not modelled are looked up there by name.
\<close>

subsection \<open>WATCH, UNWATCH and MULTI\<close>

fun watch_loop :: "client_id \<Rightarrow> QString list \<Rightarrow> server \<Rightarrow> server option" where
  "watch_loop i [] s = Some s"
| "watch_loop i (k # ks) s =
     (case Multi_Watch i (GetDB s) k s of None \<Rightarrow> None | Some s \<Rightarrow> watch_loop i ks s)"

definition watch_cmd :: handler where
  "watch_cmd params r s =
     (case Current s of
        None \<Rightarrow> None
      | Some (i, c) \<Rightarrow>
          if IsFlagOn ClientFlag_multi c then fail QError_watch QError_watch r s
          else map_option (\<lambda>s. (QError_ok, FormatOK r, s)) (watch_loop i (tl params) s))"

definition unwatch_cmd :: handler where
  "unwatch_cmd params r s = map_option (\<lambda>s. (QError_ok, FormatOK r, s)) (upd_current ClearWatch s)"

definition Multi :: "qclient \<Rightarrow> bool \<times> qclient" where
  "Multi c =
     (if IsFlagOn ClientFlag_multi c then (False, c) else (True, SetFlag ClientFlag_multi (ClearMulti c)))"

text \<open>The text of a nested MULTI is pushed through the pointer without a test for null.\<close>

definition multi_cmd :: handler where
  "multi_cmd params r s =
     (case Current s of
        None \<Rightarrow> None
      | Some (i, c) \<Rightarrow>
          (case Multi c of
             (True, c) \<Rightarrow> Some (QError_ok, FormatOK r, put_client i c s)
           | (False, c) \<Rightarrow>
               if r = None then None
               else Some (QError_ok, PushData (''-ERR MULTI calls can not be nested'' @ CRLF) r, s)))"

definition Discard_client :: "qclient \<Rightarrow> qclient" where
  "Discard_client c = ClearWatch (ClearMulti c)"

definition discard_cmd :: handler where
  "discard_cmd params r s =
     (case Current s of
        None \<Rightarrow> None
      | Some (i, c) \<Rightarrow>
          if \<not> IsFlagOn ClientFlag_multi c then
            (if r = None then None else Some (QError_ok, PushData (''-ERR DISCARD without MULTI'' @ CRLF) r, s))
          else Some (QError_ok, FormatOK r, put_client i (Discard_client c) s))"

subsection \<open>The table\<close>

record libs =
  lib_strtod :: strtod
  lib_strtof :: strtod
  lib_sum_g :: "double \<Rightarrow> double \<Rightarrow> string"
  lib_atof :: "string \<Rightarrow> double"
  lib_add :: "double \<Rightarrow> double \<Rightarrow> double"
  lib_show :: "double \<Rightarrow> string"
  lib_pick :: "QString list \<Rightarrow> QString option"
  lib_set_buckets :: "QString list \<Rightarrow> QString list list"
  lib_hash_buckets :: "QHash \<Rightarrow> QHash list"
  lib_sort :: std_sort
  lib_other :: "string \<Rightarrow> handler"
  lib_peer :: "client_id \<Rightarrow> string"

definition QAttr_read :: nat where "QAttr_read = 1"
definition QAttr_write :: nat where "QAttr_write = 2"

text \<open>
  EXEC and DISCARD act on the queue of a transaction, which is what EXEC iterates over. Only they
  and CMDLIST, which reads the table, are told apart from the other handlers.
\<close>

datatype cmd_handler = Plain handler | Cmdlist | Exec | Discard

record QCommandInfo =
  ci_attr :: nat
  ci_params :: int
  ci_handler :: cmd_handler

type_synonym command_table = "(string \<times> QCommandInfo) list"

definition CheckParamsCount :: "QCommandInfo \<Rightarrow> int \<Rightarrow> bool" where
  "CheckParamsCount info nParams \<longleftrightarrow>
     (if 0 < ci_params info then ci_params info = nParams else 0 \<le> nParams + ci_params info)"

definition s_info :: "libs \<Rightarrow> (string \<times> nat \<times> int \<times> cmd_handler) list" where
  "s_info L =
     [(''type'', QAttr_read, 2, Plain type_cmd),
      (''exists'', QAttr_read, 2, Plain exists_cmd),
      (''del'', QAttr_write, (-2), Plain del_cmd),
      (''expire'', QAttr_read, 3, Plain expire_cmd),
      (''ttl'', QAttr_read, 2, Plain ttl_cmd),
      (''pexpire'', QAttr_read, 3, Plain pexpire_cmd),
      (''pttl'', QAttr_read, 2, Plain pttl_cmd),
      (''expireat'', QAttr_read, 3, Plain expireat_cmd),
      (''pexpireat'', QAttr_read, 3, Plain pexpireat_cmd),
      (''persist'', QAttr_read, 2, Plain persist_cmd),
      (''move'', QAttr_write, 3, Plain move_cmd),
      (''keys'', QAttr_read, 2, Plain keys_cmd),
      (''randomkey'', QAttr_read, 1, Plain (randomkey_cmd (lib_pick L))),
      (''rename'', QAttr_write, 3, Plain rename_cmd),
      (''renamenx'', QAttr_write, 3, Plain renamenx_cmd),
      (''scan'', QAttr_read, (-2), Plain (scan_cmd (lib_set_buckets L))),
      (''sort'', QAttr_read, (-2), Plain (sort_cmd (lib_sort L))),
      (''dump'', QAttr_read, 2, Plain (lib_other L ''dump'')),
      (''restore'', QAttr_write, (-4), Plain (lib_other L ''restore'')),
      (''migrate'', QAttr_read, (-6), Plain (lib_other L ''migrate'')),
      (''select'', QAttr_read, 2, Plain select_cmd),
      (''dbsize'', QAttr_read, 1, Plain dbsize_cmd),
      (''bgsave'', QAttr_read, 1, Plain (lib_other L ''bgsave'')),
      (''save'', QAttr_read, 1, Plain (lib_other L ''save'')),
      (''lastsave'', QAttr_read, 1, Plain (lib_other L ''lastsave'')),
      (''flushdb'', QAttr_write, 1, Plain flushdb_cmd),
      (''flushall'', QAttr_write, 1, Plain flushall_cmd),
      (''client'', QAttr_read, (-2), Plain client_cmd),
      (''debug'', QAttr_read, (-2), Plain debug_cmd),
      (''shutdown'', QAttr_read, (-1), Plain (lib_other L ''shutdown'')),
      (''bgrewriteaof'', QAttr_read, 1, Plain (lib_other L ''bgrewriteaof'')),
      (''ping'', QAttr_read, 1, Plain ping_cmd),
      (''echo'', QAttr_read, 2, Plain echo_cmd),
      (''info'', QAttr_read, (-1), Plain (lib_other L ''info'')),
      (''monitor'', QAttr_read, 1, Plain monitor_cmd),
      (''auth'', QAttr_read, 2, Plain auth_cmd),
      (''slowlog'', QAttr_read, (-2), Plain slowlog_cmd),
      (''config'', QAttr_read, (-3), Plain (lib_other L ''config'')),
      (''strlen'', QAttr_read, 2, Plain strlen_cmd),
      (''set'', QAttr_write, 3, Plain set_cmd),
      (''mset'', QAttr_write, (-3), Plain mset_cmd),
      (''msetnx'', QAttr_write, (-3), Plain msetnx_cmd),
      (''setnx'', QAttr_write, 3, Plain setnx_cmd),
      (''setex'', QAttr_write, 4, Plain setex_cmd),
      (''psetex'', QAttr_write, 4, Plain psetex_cmd),
      (''get'', QAttr_read, 2, Plain get_cmd),
      (''getset'', QAttr_write, 3, Plain getset_cmd),
      (''mget'', QAttr_read, (-2), Plain mget_cmd),
      (''append'', QAttr_write, 3, Plain append_cmd),
      (''bitcount'', QAttr_read, (-2), Plain bitcount_cmd),
      (''bitop'', QAttr_write, (-4), Plain bitop_cmd),
      (''getbit'', QAttr_read, 3, Plain getbit_cmd),
      (''setbit'', QAttr_write, 4, Plain setbit_cmd),
      (''incr'', QAttr_write, 2, Plain incr_cmd),
      (''decr'', QAttr_write, 2, Plain decr_cmd),
      (''incrby'', QAttr_write, 3, Plain incrby_cmd),
      (''incrbyfloat'', QAttr_write, 3, Plain (incrbyfloat_cmd (lib_strtof L) (lib_sum_g L))),
      (''decrby'', QAttr_write, 3, Plain decrby_cmd),
      (''getrange'', QAttr_read, 4, Plain getrange_cmd),
      (''setrange'', QAttr_write, 4, Plain setrange_cmd),
      (''lpush'', QAttr_write, (-3), Plain lpush_cmd),
      (''rpush'', QAttr_write, (-3), Plain rpush_cmd),
      (''lpushx'', QAttr_write, (-3), Plain lpushx_cmd),
      (''rpushx'', QAttr_write, (-3), Plain rpushx_cmd),
      (''lpop'', QAttr_write, 2, Plain lpop_cmd),
      (''rpop'', QAttr_write, 2, Plain rpop_cmd),
      (''lindex'', QAttr_read, 3, Plain lindex_cmd),
      (''llen'', QAttr_read, 2, Plain llen_cmd),
      (''lset'', QAttr_write, 4, Plain lset_cmd),
      (''ltrim'', QAttr_write, 4, Plain ltrim_cmd),
      (''lrange'', QAttr_read, 4, Plain lrange_cmd),
      (''linsert'', QAttr_write, 5, Plain linsert_cmd),
      (''lrem'', QAttr_write, 4, Plain lrem_cmd),
      (''rpoplpush'', QAttr_write, 3, Plain rpoplpush_cmd),
      (''blpop'', QAttr_write, (-3), Plain blpop_cmd),
      (''brpop'', QAttr_write, (-3), Plain brpop_cmd),
      (''brpoplpush'', QAttr_write, 4, Plain brpoplpush_cmd),
      (''hget'', QAttr_read, 3, Plain hget_cmd),
      (''hgetall'', QAttr_read, 2, Plain hgetall_cmd),
      (''hmget'', QAttr_read, (-3), Plain hmget_cmd),
      (''hset'', QAttr_write, 4, Plain hset_cmd),
      (''hsetnx'', QAttr_write, 4, Plain hsetnx_cmd),
      (''hmset'', QAttr_write, (-4), Plain hmset_cmd),
      (''hlen'', QAttr_read, 2, Plain hlen_cmd),
      (''hexists'', QAttr_read, 3, Plain hexists_cmd),
      (''hkeys'', QAttr_read, 2, Plain hkeys_cmd),
      (''hvals'', QAttr_read, 2, Plain hvals_cmd),
      (''hdel'', QAttr_write, (-3), Plain hdel_cmd),
      (''hincrby'', QAttr_write, 4, Plain hincrby_cmd),
      (''hincrbyfloat'', QAttr_write, 4, Plain (hincrbyfloat_cmd (lib_strtof L) (lib_atof L) (lib_add L) (lib_show L))),
      (''hscan'', QAttr_read, (-3), Plain (hscan_cmd (lib_hash_buckets L))),
      (''hstrlen'', QAttr_read, 3, Plain hstrlen_cmd),
      (''sadd'', QAttr_write, (-3), Plain sadd_cmd),
      (''scard'', QAttr_read, 2, Plain scard_cmd),
      (''sismember'', QAttr_read, 3, Plain sismember_cmd),
      (''srem'', QAttr_write, (-3), Plain srem_cmd),
      (''smembers'', QAttr_read, 2, Plain smembers_cmd),
      (''sdiff'', QAttr_read, (-2), Plain sdiff_cmd),
      (''sdiffstore'', QAttr_write, (-3), Plain sdiffstore_cmd),
      (''sinter'', QAttr_read, (-2), Plain sinter_cmd),
      (''sinterstore'', QAttr_write, (-3), Plain sinterstore_cmd),
      (''sunion'', QAttr_read, (-2), Plain sunion_cmd),
      (''sunionstore'', QAttr_write, (-3), Plain sunionstore_cmd),
      (''smove'', QAttr_write, 4, Plain smove_cmd),
      (''spop'', QAttr_write, 2, Plain (spop_cmd (lib_pick L))),
      (''srandmember'', QAttr_read, 2, Plain (srandmember_cmd (lib_pick L))),
      (''sscan'', QAttr_read, (-3), Plain (sscan_cmd (lib_set_buckets L))),
      (''zadd'', QAttr_write, (-4), Plain (zadd_cmd (lib_strtod L))),
      (''zcard'', QAttr_read, 2, Plain zcard_cmd),
      (''zrank'', QAttr_read, 3, Plain zrank_cmd),
      (''zrevrank'', QAttr_read, 3, Plain zrevrank_cmd),
      (''zrem'', QAttr_write, (-3), Plain zrem_cmd),
      (''zincrby'', QAttr_write, 4, Plain (zincrby_cmd (lib_strtod L) (lib_add L))),
      (''zscore'', QAttr_read, 3, Plain zscore_cmd),
      (''zrange'', QAttr_read, (-4), Plain zrange_cmd),
      (''zrevrange'', QAttr_read, (-4), Plain zrevrange_cmd),
      (''zrangebyscore'', QAttr_read, (-4), Plain zrangebyscore_cmd),
      (''zrevrangebyscore'', QAttr_read, (-4), Plain zrevrangebyscore_cmd),
      (''zremrangebyrank'', QAttr_write, 4, Plain (zremrangebyrank_cmd (lib_strtod L))),
      (''zremrangebyscore'', QAttr_write, 4, Plain (zremrangebyscore_cmd (lib_strtod L))),
      (''subscribe'', QAttr_read, (-2), Plain subscribe_cmd),
      (''unsubscribe'', QAttr_read, (-1), Plain unsubscribe_cmd),
      (''publish'', QAttr_read, 3, Plain publish_cmd),
      (''psubscribe'', QAttr_read, (-2), Plain psubscribe_cmd),
      (''punsubscribe'', QAttr_read, (-1), Plain punsubscribe_cmd),
      (''pubsub'', QAttr_read, (-2), Plain pubsub_cmd),
      (''watch'', QAttr_read, (-2), Plain watch_cmd),
      (''unwatch'', QAttr_read, 1, Plain unwatch_cmd),
      (''multi'', QAttr_read, 1, Plain multi_cmd),
      (''exec'', QAttr_read, 1, Exec),
      (''discard'', QAttr_read, 1, Discard),
      (''sync'', QAttr_read, 1, Plain (lib_other L ''sync'')),
      (''psync'', QAttr_read, 1, Plain (lib_other L ''sync'')),
      (''slaveof'', QAttr_read, 3, Plain (lib_other L ''slaveof'')),
      (''replconf'', QAttr_read, (-3), Plain (lib_other L ''replconf'')),
      (''module'', QAttr_read, (-2), Plain (lib_other L ''module'')),
      (''cmdlist'', QAttr_read, 1, Cmdlist)]"

text \<open>\<open>std::map<QString, ..., NocaseComp>\<close>: the names are compared by \<open>strcasecmp\<close>.\<close>

definition nocase :: "string \<Rightarrow> string" where
  "nocase s = map tolower (cstr s)"

definition table_find :: "string \<Rightarrow> command_table \<Rightarrow> QCommandInfo option" where
  "table_find cmd t = map_option snd (find (\<lambda>(n, _). nocase n = nocase cmd) t)"

text \<open>\<open>insert\<close> keeps what is there; \<open>Init\<close> overwrites it.\<close>

definition table_set :: "string \<Rightarrow> QCommandInfo \<Rightarrow> command_table \<Rightarrow> command_table" where
  "table_set cmd info t =
     (if table_find cmd t = None then t @ [(cmd, info)]
      else map (\<lambda>(n, i). (n, if nocase n = nocase cmd then info else i)) t)"

definition Table_Init :: "libs \<Rightarrow> command_table" where
  "Table_Init L =
     fold (\<lambda>(n, a, k, h). table_set n \<lparr>ci_attr = a, ci_params = k, ci_handler = h\<rparr>) (s_info L) []"

definition GetCommandInfo :: "string \<Rightarrow> command_table \<Rightarrow> QCommandInfo option" where
  "GetCommandInfo = table_find"

definition DelCommand :: "string \<Rightarrow> command_table \<Rightarrow> QCommandInfo option \<times> command_table" where
  "DelCommand cmd t = (table_find cmd t, filter (\<lambda>(n, _). nocase n \<noteq> nocase cmd) t)"

definition AddCommand :: "string \<Rightarrow> QCommandInfo \<Rightarrow> command_table \<Rightarrow> bool \<times> command_table" where
  "AddCommand cmd info t =
     (if cmd = [] \<or> cmd = [CHR 0x22, CHR 0x22] then (True, t)
      else if table_find cmd t \<noteq> None then (False, t) else (True, t @ [(cmd, info)]))"

definition AliasCommand :: "string \<Rightarrow> string \<Rightarrow> command_table \<Rightarrow> bool \<times> command_table" where
  "AliasCommand oldKey newKey t =
     (case DelCommand oldKey t of
        (None, t) \<Rightarrow> (False, t)
      | (Some info, t) \<Rightarrow> AddCommand newKey info t)"

fun AliasCommands :: "(string \<times> string) list \<Rightarrow> command_table \<Rightarrow> bool \<times> command_table" where
  "AliasCommands [] t = (True, t)"
| "AliasCommands ((old, new) # as) t =
     (case AliasCommand old new t of (b, t) \<Rightarrow> if b then AliasCommands as t else (False, t))"

definition cmdlist_cmd :: "command_table \<Rightarrow> handler" where
  "cmdlist_cmd t params r s =
     Some (QError_ok, fold FormatBulk (sort_key nocase (map fst t)) (PreFormatMultiBulk (length t) r), s)"

subsection \<open>Executing a command\<close>

definition ExecuteCmd ::
  "(cmd_handler \<Rightarrow> handler) \<Rightarrow> QString list \<Rightarrow> QCommandInfo option \<Rightarrow> reply \<Rightarrow> server \<Rightarrow> result" where
  "ExecuteCmd run params info r s =
     (if params = [] then fail QError_param QError_param r s
      else
        case info of
          None \<Rightarrow> fail QError_unknowCmd QError_unknowCmd r s
        | Some info \<Rightarrow>
            if \<not> CheckParamsCount info (int (length params)) then fail QError_param QError_param r s
            else run (ci_handler info) params r s)"

definition is_write :: "QCommandInfo option \<Rightarrow> bool" where
  "is_write info \<longleftrightarrow> (case info of None \<Rightarrow> False | Some i \<Rightarrow> and (ci_attr i) QAttr_write \<noteq> 0)"

text \<open>
  The handlers while EXEC runs: a nested EXEC starts the queue again and again, a DISCARD clears the
  vector the loop walks over. No client can queue them, unless an alias gives them another name.
\<close>

fun run_queued :: "command_table \<Rightarrow> cmd_handler \<Rightarrow> handler" where
  "run_queued t (Plain h) params r s = h params r s"
| "run_queued t Cmdlist params r s = cmdlist_cmd t params r s"
| "run_queued t Exec params r s = None"
| "run_queued t Discard params r s = None"

fun exec_loop :: "command_table \<Rightarrow> QString list list \<Rightarrow> reply \<Rightarrow> server \<Rightarrow> (reply \<times> server) option" where
  "exec_loop t [] r s = Some (r, s)"
| "exec_loop t (cmd # cmds) r s =
     (if cmd = [] then None
      else
        let info = GetCommandInfo (hd cmd) t
        in case ExecuteCmd (run_queued t) cmd info r s of
             None \<Rightarrow> None
           | Some (err, r, s) \<Rightarrow>
               (case (if err = QError_ok \<and> is_write info then Propogate cmd s else Some s) of
                  None \<Rightarrow> None
                | Some s \<Rightarrow> exec_loop t cmds r s))"

definition end_multi :: "client_id \<Rightarrow> server \<Rightarrow> server" where
  "end_multi i s =
     (case map_of (clients s) i of None \<Rightarrow> s | Some c \<Rightarrow> put_client i (ClearWatch (ClearMulti c)) s)"

text \<open>\<open>QClient::Exec\<close> writes to the client's own reply, also for the connection to the master.\<close>

definition Client_Exec :: "command_table \<Rightarrow> client_id \<Rightarrow> qclient \<Rightarrow> reply \<Rightarrow> server \<Rightarrow> (bool \<times> reply \<times> server) option" where
  "Client_Exec t i c r s =
     (let r' = (case r of None \<Rightarrow> Some [] | Some b \<Rightarrow> Some b)
      in if IsFlagOn ClientFlag_wrongExec c then Some (False, r, end_multi i s)
         else if IsFlagOn ClientFlag_dirty c then Some (True, FormatNullArray r', end_multi i s)
         else
           case exec_loop t (queueCmds c) (PreFormatMultiBulk (length (queueCmds c)) r') s of
             None \<Rightarrow> None
           | Some (r, s) \<Rightarrow> Some (True, r, end_multi i s))"

definition exec_cmd :: "command_table \<Rightarrow> handler" where
  "exec_cmd t params r s =
     (case Current s of
        None \<Rightarrow> None
      | Some (i, c) \<Rightarrow>
          if \<not> IsFlagOn ClientFlag_multi c then fail QError_noMulti QError_noMulti r s
          else
            case Client_Exec t i c r s of
              None \<Rightarrow> None
            | Some (True, r, s) \<Rightarrow> Some (QError_ok, r, s)
            | Some (False, r, s) \<Rightarrow> fail QError_dirtyExec QError_dirtyExec r s)"

fun run_command :: "command_table \<Rightarrow> cmd_handler \<Rightarrow> handler" where
  "run_command t Exec params r s = exec_cmd t params r s"
| "run_command t Discard params r s = discard_cmd params r s"
| "run_command t h params r s = run_queued t h params r s"

subsection \<open>Looking commands up\<close>

definition info_of :: "string \<times> nat \<times> int \<times> cmd_handler \<Rightarrow> QCommandInfo" where
  "info_of e = (case e of (n, a, k, h) \<Rightarrow> \<lparr>ci_attr = a, ci_params = k, ci_handler = h\<rparr>)"

lemma table_find_None: "table_find n t = None \<longleftrightarrow> nocase n \<notin> nocase ` fst ` set t"
  by (auto simp: table_find_def find_None_iff image_iff)

lemma table_find_Some:
  assumes "distinct (map (nocase \<circ> fst) t)" "(n, info) \<in> set t" "nocase cmd = nocase n"
  shows "table_find cmd t = Some info"
  using assms
proof (induction t)
  case (Cons e t)
  then show ?case by (cases e) (auto simp: table_find_def image_iff)
qed simp

lemma fold_table_set:
  "distinct (map (nocase \<circ> fst) (t @ map (\<lambda>e. (fst e, info_of e)) es)) \<Longrightarrow>
    fold (\<lambda>(n, a, k, h). table_set n \<lparr>ci_attr = a, ci_params = k, ci_handler = h\<rparr>) es t = t @ map (\<lambda>e. (fst e, info_of e)) es"
proof (induction es arbitrary: t)
  case (Cons e es)
  obtain n a k h where e: "e = (n, a, k, h)" by (cases e)
  have "table_find n t = None" using Cons.prems e by (auto simp: table_find_None comp_def image_iff)
  then have "table_set n (info_of e) t = t @ [(n, info_of e)]" by (simp add: table_set_def)
  then show ?case using Cons.IH [of "t @ [(n, info_of e)]"] Cons.prems e by (simp add: info_of_def)
qed simp

definition command_names :: "string list" where
  "command_names =
    [''type'', ''exists'', ''del'', ''expire'', ''ttl'', ''pexpire'', ''pttl'', ''expireat'', ''pexpireat'',
    ''persist'', ''move'', ''keys'', ''randomkey'', ''rename'', ''renamenx'', ''scan'', ''sort'', ''dump'',
    ''restore'', ''migrate'', ''select'', ''dbsize'', ''bgsave'', ''save'', ''lastsave'', ''flushdb'',
    ''flushall'', ''client'', ''debug'', ''shutdown'', ''bgrewriteaof'', ''ping'', ''echo'', ''info'',
    ''monitor'', ''auth'', ''slowlog'', ''config'', ''strlen'', ''set'', ''mset'', ''msetnx'', ''setnx'',
    ''setex'', ''psetex'', ''get'', ''getset'', ''mget'', ''append'', ''bitcount'', ''bitop'', ''getbit'',
    ''setbit'', ''incr'', ''decr'', ''incrby'', ''incrbyfloat'', ''decrby'', ''getrange'', ''setrange'',
    ''lpush'', ''rpush'', ''lpushx'', ''rpushx'', ''lpop'', ''rpop'', ''lindex'', ''llen'', ''lset'',
    ''ltrim'', ''lrange'', ''linsert'', ''lrem'', ''rpoplpush'', ''blpop'', ''brpop'', ''brpoplpush'',
    ''hget'', ''hgetall'', ''hmget'', ''hset'', ''hsetnx'', ''hmset'', ''hlen'', ''hexists'', ''hkeys'',
    ''hvals'', ''hdel'', ''hincrby'', ''hincrbyfloat'', ''hscan'', ''hstrlen'', ''sadd'', ''scard'',
    ''sismember'', ''srem'', ''smembers'', ''sdiff'', ''sdiffstore'', ''sinter'', ''sinterstore'',
    ''sunion'', ''sunionstore'', ''smove'', ''spop'', ''srandmember'', ''sscan'', ''zadd'', ''zcard'',
    ''zrank'', ''zrevrank'', ''zrem'', ''zincrby'', ''zscore'', ''zrange'', ''zrevrange'', ''zrangebyscore'',
    ''zrevrangebyscore'', ''zremrangebyrank'', ''zremrangebyscore'', ''subscribe'', ''unsubscribe'',
    ''publish'', ''psubscribe'', ''punsubscribe'', ''pubsub'', ''watch'', ''unwatch'', ''multi'', ''exec'',
    ''discard'', ''sync'', ''psync'', ''slaveof'', ''replconf'', ''module'', ''cmdlist'']"

lemma command_names: "map fst (s_info L) = command_names"
  by (simp add: s_info_def command_names_def)

lemma command_names_distinct: "distinct (map nocase command_names)"
  by code_simp


lemma s_info_distinct: "distinct (map (nocase \<circ> fst) (s_info L))"
  using command_names_distinct by (simp add: command_names [of L, symmetric])

lemma Table_Init_entries: "Table_Init L = map (\<lambda>e. (fst e, info_of e)) (s_info L)"
proof -
  have "distinct (map (nocase \<circ> fst) ([] @ map (\<lambda>e. (fst e, info_of e)) (s_info L)))"
    using s_info_distinct [of L] by (simp add: comp_def)
  from fold_table_set [OF this] show ?thesis by (simp add: Table_Init_def)
qed

lemma Table_Init_distinct: "distinct (map (nocase \<circ> fst) (Table_Init L))"
  using s_info_distinct [of L] by (simp add: Table_Init_entries comp_def)

lemma table_find_snoc:
  "table_find x t = None \<Longrightarrow> table_find x (t @ [(n, i)]) = (if nocase n = nocase x then Some i else None)"
  by (induction t) (auto simp: table_find_def split: if_splits)

text \<open>Every command of the table is found under its name in any case. An alias moves a command to a new
  name: from then on the old name is unknown.\<close>

theorem commands_resolve:
  assumes "(n, a, k, h) \<in> set (s_info L)" "nocase cmd = nocase n"
    "new \<notin> {[], [CHR 0x22, CHR 0x22]}" "nocase new \<notin> nocase ` set command_names"
  shows "GetCommandInfo cmd (Table_Init L) = Some (info_of (n, a, k, h)) \<and>
    (\<exists>t. AliasCommand cmd new (Table_Init L) = (True, t) \<and>
      GetCommandInfo new t = Some (info_of (n, a, k, h)) \<and> GetCommandInfo cmd t = None)"
proof -
  let ?i = "info_of (n, a, k, h)" and ?t = "Table_Init L"
  let ?t1 = "filter (\<lambda>(m, _). nocase m \<noteq> nocase cmd) ?t"
  have m: "(n, ?i) \<in> set ?t" using assms(1) by (force simp: Table_Init_entries)
  then have f: "table_find cmd ?t = Some ?i" using table_find_Some [OF Table_Init_distinct _ assms(2)] by blast
  have names: "fst ` set ?t = set command_names"
    using command_names [of L] by (simp add: Table_Init_entries image_image) (metis list.set_map)
  then have "fst ` set ?t1 \<subseteq> set command_names" by auto
  then have none: "table_find new ?t1 = None" using assms(4) unfolding table_find_None by blast
  have gone: "table_find cmd ?t1 = None" by (auto simp: table_find_None)
  have "n \<in> set command_names" using m names by force
  then have "nocase new \<noteq> nocase cmd" using assms(2,4) by auto
  then have "AliasCommand cmd new ?t = (True, ?t1 @ [(new, ?i)])" "GetCommandInfo new (?t1 @ [(new, ?i)]) = Some ?i"
    "GetCommandInfo cmd (?t1 @ [(new, ?i)]) = None"
    using f assms(3) none table_find_snoc [OF none] table_find_snoc [OF gone]
    by (simp_all add: AliasCommand_def DelCommand_def AddCommand_def GetCommandInfo_def)
  then show ?thesis using f by (auto simp: GetCommandInfo_def)
qed

text \<open>Functions that stand in for the C library and for the layout of the tables.\<close>

definition sample_libs :: libs where
  "sample_libs = \<lparr>lib_strtod = some_numbers, lib_strtof = some_numbers, lib_sum_g = (\<lambda>_ _. ''0''), lib_atof = (\<lambda>_. 0),
     lib_add = (\<lambda>a b. if b = 0 then a else b), lib_show = (\<lambda>_. ''0''),
     lib_pick = (\<lambda>xs. case xs of [] \<Rightarrow> None | x # _ \<Rightarrow> Some x), lib_set_buckets = (\<lambda>xs. map (\<lambda>x. [x]) xs),
     lib_hash_buckets = (\<lambda>h. map (\<lambda>e. [e]) h), lib_sort = (\<lambda>_ xs. xs), lib_other = (\<lambda>_. ping_cmd), lib_peer = (\<lambda>_. ''::1:0'')\<rparr>"

theorem commands_resolve_witness:
  "GetCommandInfo ''GET'' (Table_Init sample_libs) = Some (info_of (''get'', QAttr_read, 2, Plain get_cmd)) \<and>
    (\<exists>t. AliasCommand ''GET'' ''fetch'' (Table_Init sample_libs) = (True, t) \<and>
      GetCommandInfo ''fetch'' t = Some (info_of (''get'', QAttr_read, 2, Plain get_cmd)) \<and> GetCommandInfo ''GET'' t = None)"
proof (rule commands_resolve)
  show "(''get'', QAttr_read, 2, Plain get_cmd) \<in> set (s_info sample_libs)" by (simp add: s_info_def)
  show "nocase ''GET'' = nocase ''get''" by code_simp
  show "''fetch'' \<notin> {[], [CHR 0x22, CHR 0x22]}" by simp
  show "nocase ''fetch'' \<notin> nocase ` set command_names" by code_simp
qed

end
