(* ===== verification/Sessions.thy ===== *)
theory Sessions
  imports Commands
begin

text \<open>
  QedisCore/QClient.cc: what happens to the bytes a client has sent. A request is parsed or read as
  an inline command, then refused, queued or executed, and its writes are propagated.

  The model is of the connections of clients and slaves; the connection to the master (\<open>ProcessMaster\<close>)
  is part of the replication. A connection that is closed on an error is removed from the clients at once.
\<close>

subsection \<open>Inline commands\<close>

definition isblank :: "char \<Rightarrow> bool" where
  "isblank c \<longleftrightarrow> c = CHR '' '' \<or> c = CHR 0x09"

text \<open>
  \<open>_ProcessInlineCmd\<close>: the bytes up to the first CRLF, cut at blanks; \<open>i\<close> counts what is consumed. The caller
  hands over the place \<open>ptr\<close> where the parser gave up, behind a \<open>*\<close> if there was one, but the size of the whole packet:
  unless it finds the end of a line, the loop goes on to look at the byte behind the packet when the last byte is a
  CR. That is \<^const>\<open>None\<close>; the inner \<^const>\<open>None\<close> is the result 0, no line.
\<close>

fun inline_loop :: "nat \<Rightarrow> string \<Rightarrow> QString list \<Rightarrow> string \<Rightarrow> (nat \<times> QString list) option" where
  "inline_loop i res params (a # b # buf) =
     (if a = CHR 0x0D \<and> b = CHR 0x0A then Some (i + 2, if res = [] then params else params @ [res])
      else if isblank a then inline_loop (i + 1) [] (if res = [] then params else params @ [res]) (b # buf)
      else inline_loop (i + 1) (res @ [a]) params (b # buf))"
| "inline_loop i res params _ = None"

definition ProcessInlineCmd :: "nat \<Rightarrow> string \<Rightarrow> (nat \<times> QString list) option option" where
  "ProcessInlineCmd ptr buf =
     (case inline_loop ptr [] [] (drop ptr buf) of
        Some line \<Rightarrow> Some (Some line)
      | None \<Rightarrow> if 0 < ptr \<and> drop ptr buf \<noteq> [] \<and> last buf = CR then None else Some None)"

subsection \<open>Monitors\<close>

text \<open>
  The line is written into a buffer of 512 bytes by calls of \<open>snprintf\<close>, but sent with the length it
  would have had: reading behind the buffer is fatal.
\<close>

fun monitor_args :: "string \<Rightarrow> QString list \<Rightarrow> string" where
  "monitor_args line [] = line"
| "monitor_args line (e # es) = (if length line < 512 then monitor_args (line @ cstr e @ '' '') es else line)"

definition monitor_line :: "string \<Rightarrow> QString list \<Rightarrow> string option" where
  "monitor_line start params =
     (let line = monitor_args start params; n = length line - 1
      in if 512 < n then None
         else if length line < 512 then Some (take n line) else Some (take n (take 511 line @ [CHR 0x00])))"

fun feed_loop :: "string \<Rightarrow> client_id list \<Rightarrow> server \<Rightarrow> client_id list \<times> server" where
  "feed_loop bytes [] s = ([], s)"
| "feed_loop bytes (i # is) s =
     (case map_of (clients s) i of
        None \<Rightarrow> feed_loop bytes is s
      | Some c \<Rightarrow> (case feed_loop bytes is (put_client i (SendPacket bytes c) s) of (kept, s) \<Rightarrow> (i # kept, s)))"

definition FeedMonitors :: "libs \<Rightarrow> client_id \<Rightarrow> QString list \<Rightarrow> server \<Rightarrow> server option" where
  "FeedMonitors L i params s =
     (if params = [] then None
      else if monitors s = [] then Some s
      else
        case monitor_line (''+[db'' @ show_int (GetDB s) @ '' '' @ lib_peer L i @ '']: '' @ [CHR 0x22]) params of
          None \<Rightarrow> None
        | Some line \<Rightarrow>
            (case feed_loop (line @ [CHR 0x22] @ CRLF) (monitors s) s of
               (kept, s) \<Rightarrow> Some (s\<lparr>monitors := kept\<rparr>)))"

subsection \<open>A packet\<close>

text \<open>The clocks a packet reads: seconds, and microseconds at the start and the end of the command.\<close>

record clocks =
  t_sec :: int
  t_begin :: int
  t_end :: int

definition send :: "client_id \<Rightarrow> string \<Rightarrow> server \<Rightarrow> server" where
  "send i bytes s = (case map_of (clients s) i of None \<Rightarrow> s | Some c \<Rightarrow> put_client i (SendPacket bytes c) s)"

text \<open>\<open>OnError\<close>.\<close>

definition drop_client :: "client_id \<Rightarrow> server \<Rightarrow> server" where
  "drop_client i s = s\<lparr>clients := AList.delete i (clients s)\<rparr>"

definition Client_Reset :: "client_id \<Rightarrow> server \<Rightarrow> server" where
  "Client_Reset i s =
     (case map_of (clients s) i of
        None \<Rightarrow> s\<lparr>current := None\<rparr>
      | Some c \<Rightarrow> (put_client i (c\<lparr>parser := Parser_Reset (parser c)\<rparr>) s)\<lparr>current := None\<rparr>)"

definition send_error :: "client_id \<Rightarrow> QError \<Rightarrow> server \<Rightarrow> server option" where
  "send_error i err s =
     (case ReplyError err (Some []) of None \<Rightarrow> None | Some r \<Rightarrow> Some (case r of None \<Rightarrow> s | Some b \<Rightarrow> send i b s))"

text \<open>A request inside a transaction: \<open>Some\<close> when it was queued or refused here.\<close>

definition transaction_cmds :: "string list" where
  "transaction_cmds = [''multi'', ''exec'', ''watch'', ''unwatch'', ''discard'']"

definition queue_cmd :: "client_id \<Rightarrow> qclient \<Rightarrow> QString list \<Rightarrow> QCommandInfo \<Rightarrow> server \<Rightarrow> server option" where
  "queue_cmd i c params info s =
     (if \<not> CheckParamsCount info (int (length params)) then
        (case send_error i QError_param s of
           None \<Rightarrow> None
         | Some s \<Rightarrow> (case map_of (clients s) i of None \<Rightarrow> None | Some c \<Rightarrow> Some (put_client i (FlagExecWrong c) s)))
      else
        Some (send i (''+QUEUED'' @ CRLF)
          (if IsFlagOn ClientFlag_wrongExec c then s
           else put_client i (c\<lparr>queueCmds := queueCmds c @ [params]\<rparr>) s)))"

text \<open>A handler may have rewritten the parameters (\<open>RewriteCmd\<close>): the log and the slaves see those.\<close>

definition params_of :: "client_id \<Rightarrow> server \<Rightarrow> QString list" where
  "params_of i s = (case map_of (clients s) i of None \<Rightarrow> [] | Some c \<Rightarrow> pa_params (parser c))"

definition execute :: "command_table \<Rightarrow> clocks \<Rightarrow> client_id \<Rightarrow> qclient \<Rightarrow> QString list \<Rightarrow> QCommandInfo \<Rightarrow> server \<Rightarrow> server option" where
  "execute t tm i c params info s =
     (if masterState s \<noteq> QReplState_none \<and> \<not> IsFlagOn ClientFlag_master c \<and> is_write (Some info) then send_error i QError_readonlySlave s
      else
        let s = s\<lparr>slowlog := SlowLog_Begin (t_begin tm) (slowlog s)\<rparr>
        in case ExecuteCmd (run_command t) params (Some info) (if IsFlagOn ClientFlag_master c then None else Some []) s of
             None \<Rightarrow> None
           | Some (err, r, s) \<Rightarrow>
               (case SlowLog_EndAndStat (t_end tm) (params_of i s) (slowlog s) of
                  None \<Rightarrow> None
                | Some l \<Rightarrow>
                    let s = send i (case r of None \<Rightarrow> [] | Some b \<Rightarrow> b) (s\<lparr>slowlog := l\<rparr>)
                    in if err = QError_ok \<and> is_write (Some info) then Propogate (params_of i s) s else Some s))"

text \<open>
  An authenticated request. An unknown command is answered before the transaction is looked at, so
  it does not spoil it.
\<close>

definition dispatch :: "libs \<Rightarrow> command_table \<Rightarrow> clocks \<Rightarrow> client_id \<Rightarrow> qclient \<Rightarrow> QString list \<Rightarrow> server \<Rightarrow> server option" where
  "dispatch L t tm i c params s =
     (let cmd = map tolower (hd params)
      in case FeedMonitors L i params (snd (SelectDB (cl_db c) s)) of
           None \<Rightarrow> None
         | Some s \<Rightarrow>
             (case GetCommandInfo cmd t of
                None \<Rightarrow> send_error i QError_unknowCmd s
              | Some info \<Rightarrow>
                  if IsFlagOn ClientFlag_multi c \<and> cmd \<notin> set transaction_cmds
                  then (case map_of (clients s) i of None \<Rightarrow> None | Some c \<Rightarrow> queue_cmd i c params info s)
                  else execute t tm i c params info s))"

text \<open>What follows a parsed request: the flag says that the connection is closed.\<close>

definition handle_request :: "libs \<Rightarrow> command_table \<Rightarrow> clocks \<Rightarrow> client_id \<Rightarrow> server \<Rightarrow> (bool \<times> server) option" where
  "handle_request L t tm i s =
     (case map_of (clients s) i of
        None \<Rightarrow> None
      | Some c \<Rightarrow>
          let params = pa_params (parser c)
          in if params = [] then Some (False, s)
             else if auth c then map_option (Pair False) (dispatch L t tm i c params s)
             else if map tolower (hd params) \<noteq> ''auth'' then map_option (Pair False) (send_error i QError_needAuth s)
             else if t_sec tm \<le> lastauth c + 1 then Some (True, drop_client i s)
             else
               let c = c\<lparr>lastauth := t_sec tm\<rparr>
               in map_option (Pair False) (dispatch L t tm i c params (put_client i c s)))"

text \<open>\<open>_HandlePacket\<close>: the number of bytes consumed, 0 on an error or when there is no full line.\<close>

definition finish_request :: "libs \<Rightarrow> command_table \<Rightarrow> clocks \<Rightarrow> client_id \<Rightarrow> nat \<Rightarrow> server \<Rightarrow> (nat \<times> server) option" where
  "finish_request L t tm i n s =
     map_option (\<lambda>(closed, s). (if closed then 0 else n, Client_Reset i s)) (handle_request L t tm i s)"

definition HandlePacket :: "libs \<Rightarrow> command_table \<Rightarrow> clocks \<Rightarrow> client_id \<Rightarrow> string \<Rightarrow> server \<Rightarrow> (nat \<times> server) option" where
  "HandlePacket L t tm i buf s =
     (let s = s\<lparr>current := Some i\<rparr>
      in case map_of (clients s) i of
           None \<Rightarrow> None
         | Some c \<Rightarrow>
             (case ParseRequest buf 0 (parser c) of
                None \<Rightarrow> None
              | Some (parseRet, ptr, p) \<Rightarrow>
                  let s = put_client i (c\<lparr>parser := p\<rparr>) s
                  in if parseRet = QParseResult_error then
                       (if \<not> IsInitialState p then Some (0, drop_client i s)
                        else
                          case ProcessInlineCmd ptr buf of
                            None \<Rightarrow> None
                          | Some None \<Rightarrow> Some (0, s)
                          | Some (Some (len, params)) \<Rightarrow>
                              finish_request L t tm i len (put_client i (c\<lparr>parser := SetParams params p\<rparr>) s))
                     else if parseRet \<noteq> QParseResult_ok then Some (ptr, s)
                     else finish_request L t tm i ptr s))"

text \<open>\<open>OnConnect\<close> of a connection that is not the one to the master.\<close>

definition OnConnect :: "client_id \<Rightarrow> server \<Rightarrow> server" where
  "OnConnect i s =
     (let s = snd (SelectDB 0 s)
      in put_client i (if password s = [] then SetAuth client_new else client_new) s)"

end
