(* ===== verification/Safety.thy ===== *)
theory Safety
  imports Sessions
begin

text \<open>
  Every command of the table, and every packet, keeps the invariant of the store. The commands that
  are not modelled are assumed to do so.
\<close>

subsection \<open>Administration, subscriptions and transactions\<close>

lemma same_store_other [simp]:
  "same_store s (s'\<lparr>monitors := a\<rparr>) = same_store s s'" "same_store s (s'\<lparr>chanClients := b\<rparr>) = same_store s s'"
  "same_store s (s'\<lparr>patClients := c\<rparr>) = same_store s s'" "same_store s (s'\<lparr>slowlog := d\<rparr>) = same_store s s'"
  by (simp_all add: same_store_def qstore.truncate_def)

lemma store_ok_other [simp]:
  "store_ok (s\<lparr>dirty := a\<rparr>) = store_ok (s :: server)" "store_ok (s\<lparr>monitors := b\<rparr>) = store_ok s"
  "store_ok (s\<lparr>chanClients := c\<rparr>) = store_ok s" "store_ok (s\<lparr>patClients := d\<rparr>) = store_ok s"
  "store_ok (s\<lparr>slowlog := e\<rparr>) = store_ok s" "store_ok (s\<lparr>current := f\<rparr>) = store_ok s"
  "store_ok (s\<lparr>clients := g\<rparr>) = store_ok s" "store_ok (s\<lparr>watched := h\<rparr>) = store_ok s"
  by (simp_all add: store_ok_def)

lemma safe_resultD: "safe_result (Some (e, r, s)) \<Longrightarrow> store_ok s"
  by simp

lemma safe_cmdD: "safe_cmd h \<Longrightarrow> store_ok s \<Longrightarrow> h params r s = Some (e, r', s') \<Longrightarrow> store_ok s'"
  unfolding safe_cmd_def by (metis safe_resultD)

lemma store_ok_ClearCurrentDB: "store_ok (s :: server) \<Longrightarrow> store_ok (ClearCurrentDB s)"
  by (simp add: ClearCurrentDB_def store_ok_upd_db db_ok_Nil)

lemma store_ok_ResetDb: "store_ok (s :: server) \<Longrightarrow> store_ok (ResetDb s)"
  by (auto simp: ResetDb_def store_ok_def)

lemma same_store_flag_dirty: "same_store (s :: server) (flag_dirty i s)"
  by (simp add: flag_dirty_def split: option.split)

lemma same_store_NotifyDirtyAll: "same_store s (NotifyDirtyAll db s)"
  unfolding NotifyDirtyAll_def
  by (auto simp: case_prod_beta intro!: same_store_fold same_store_flag_dirty)

lemma store_ok_Propogate: "store_ok (s :: server) \<Longrightarrow> Propogate params s = Some s' \<Longrightarrow> store_ok s'"
proof -
  assume s: "store_ok (s :: server)" and p: "Propogate params s = Some s'"
  then have "waitSyncKeys s = []" "params \<noteq> []" by (auto simp: store_ok_def Propogate_def split: if_splits)
  then obtain t where "Propogate params s = Some t" "same_store s t" by (rule Propogate_memory)
  with s p show ?thesis by (simp add: same_store_view)
qed

lemma Propogate_store_ok: "Propogate params s = Some s' \<Longrightarrow> store_ok (s :: server) \<Longrightarrow> store_ok s'"
  using store_ok_Propogate .

lemma store_ok_Propogate_db: "store_ok (s :: server) \<Longrightarrow> Propogate_db db params s = Some s' \<Longrightarrow> store_ok s'"
  unfolding Propogate_db_def by (rule store_ok_Propogate) (simp_all add: same_store_view [OF same_store_NotifyDirtyAll])

lemma store_ok_flush_count: "store_ok s \<Longrightarrow> store_ok (flush_count s)"
proof -
  have "store_ok s \<Longrightarrow> store_ok (fold (\<lambda>i s. let s = snd (SelectDB (int i) s) in s\<lparr>dirty := wrap32 (dirty s + int (DBSize s))\<rparr>) is s)"
    for "is" and s :: server
    by (induction "is" arbitrary: s) (simp_all add: Let_def store_ok_SelectDB)
  then show "store_ok s \<Longrightarrow> store_ok (flush_count s)" by (simp add: flush_count_def)
qed

lemma safe_upd: "store_ok s \<Longrightarrow> (\<And>c. store_ok (f c)) \<Longrightarrow> safe_result (map_option (\<lambda>c. (e, r c, f c)) x)"
  by (cases x) auto

lemma safe_admin [safe_cmds]: "safe_cmd select_cmd" "safe_cmd dbsize_cmd" "safe_cmd flushdb_cmd" "safe_cmd flushall_cmd"
proof -
  show "safe_cmd dbsize_cmd" by (simp add: safe_cmd_def dbsize_cmd_def)
  have sel: "Client_SelectDB i db s = (b, s') \<Longrightarrow> store_ok s \<Longrightarrow> store_ok s'" for i db b s s'
    using store_ok_SelectDB [of s db] by (auto simp: Client_SelectDB_def split: prod.splits if_splits option.splits)
  show "safe_cmd select_cmd"
    by (auto simp: safe_cmd_def select_cmd_def Let_def store_ok_SelectDB safe_fail split: option.split prod.split bool.split dest: sel)
  show "safe_cmd flushdb_cmd"
    by (auto simp: safe_cmd_def flushdb_cmd_def Let_def map_option_case split: option.split
        dest!: store_ok_Propogate_db [rotated] intro: store_ok_ClearCurrentDB)
  show "safe_cmd flushall_cmd"
    by (auto simp: safe_cmd_def flushall_cmd_def Let_def map_option_case split: option.split
        dest!: store_ok_Propogate_db [rotated] intro: store_ok_ResetDb store_ok_SelectDB store_ok_flush_count)
qed

lemma safe_client_server [safe_cmds]: "safe_cmd client_cmd" "safe_cmd debug_cmd" "safe_cmd ping_cmd" "safe_cmd echo_cmd"
  "safe_cmd monitor_cmd" "safe_cmd auth_cmd" "safe_cmd slowlog_cmd"
proof -
  show "safe_cmd client_cmd"
    by (auto simp: safe_cmd_def client_cmd_def Let_def safe_fail map_option_case dest: upd_current_ok split: option.split)
  show "safe_cmd debug_cmd"
    by (auto simp: safe_cmd_def debug_cmd_def safe_fail split: prod.split sum.split dest: store_ok_GetValue [rotated])
  show "safe_cmd ping_cmd" "safe_cmd echo_cmd" by (simp_all add: safe_cmd_def ping_cmd_def echo_cmd_def)
  show "safe_cmd monitor_cmd" by (auto simp: safe_cmd_def monitor_cmd_def split: option.split)
  show "safe_cmd auth_cmd" by (auto simp: safe_cmd_def auth_cmd_def safe_fail safe_upd_current)
  show "safe_cmd slowlog_cmd" by (auto simp: safe_cmd_def slowlog_cmd_def Let_def safe_fail split: option.split)
qed


lemma Publish_loop_same: "Publish_loop m cls s = (kept, n, s') \<Longrightarrow> same_store s s'"
  by (induction cls arbitrary: s kept n s')
    (fastforce split: option.splits prod.splits intro: same_store_trans [of s "put_client i c s" for s i c])+

lemma Publish_patterns_same: "Publish_patterns ch m t s = Some (t', n, s') \<Longrightarrow> same_store s s'"
proof (induction t arbitrary: s t' n s')
  case (Cons e t)
  obtain p cls where e: "e = (p, cls)" by (cases e)
  obtain b where b: "glob_match p ch = Some b" using Cons.prems e by (auto split: option.splits)
  obtain kept n1 s1 where
    1: "(if b then Publish_loop (message [''pmessage'', p, ch, m]) cls s else (cls, 0, s)) = (kept, n1, s1)"
    using prod_cases3 by blast
  then have "same_store s s1" by (auto split: if_splits dest: Publish_loop_same)
  moreover obtain t1 n2 where "Publish_patterns ch m t s1 = Some (t1, n2, s')" using Cons.prems e b 1 by auto
  ultimately show ?case using Cons.IH same_store_trans by blast
qed simp

lemma store_ok_PublishMsg: "store_ok s \<Longrightarrow> PublishMsg ch m s = Some (n, s') \<Longrightarrow> store_ok s'"
proof -
  assume s: "store_ok s" and p: "PublishMsg ch m s = Some (n, s')"
  obtain n1 s1 where 1: "(case map_of (chanClients s) ch of None \<Rightarrow> (0, s)
      | Some cls \<Rightarrow> (case Publish_loop (message [''message'', ch, m]) cls s of
          (kept, n, s) \<Rightarrow> (n, s\<lparr>chanClients := AList.update ch kept (chanClients s)\<rparr>))) = (n1, s1)"
    by fastforce
  then have "same_store s s1" by (auto split: option.splits prod.splits dest: Publish_loop_same)
  with s p 1 show ?thesis
    by (auto simp: PublishMsg_def same_store_view dest!: Publish_patterns_same)
qed

lemma sub_ops_same:
  assumes "op i ch s = Some (n, s')" "op \<in> {Subscribe, UnSubscribe, PSubscribe, PUnSubscribe}"
  shows "same_store s s'"
  using assms(2,1)
  by (elim insertE emptyE)
    (auto simp: Subscribe_def UnSubscribe_def PSubscribe_def PUnSubscribe_def Let_def set_insert_def split: option.splits if_splits)

lemma safe_subscribe_loop:
  assumes "op \<in> {Subscribe, UnSubscribe, PSubscribe, PUnSubscribe}"
  shows "store_ok s \<Longrightarrow> safe_result (subscribe_loop w op chs i ps r s)"
proof (induction ps arbitrary: r s)
  case (Cons p ps)
  then show ?case
    using sub_ops_same [OF _ assms, of i p s] by (auto simp: Let_def same_store_view split: option.split)
qed simp

lemma store_ok_unsubscribe_loop:
  assumes "op \<in> {Subscribe, UnSubscribe, PSubscribe, PUnSubscribe}"
  shows "store_ok s \<Longrightarrow> unsubscribe_loop op i ps res s = Some (res', s') \<Longrightarrow> store_ok s'"
proof (induction ps arbitrary: res s)
  case (Cons p ps)
  then obtain n s1 where "op i p s = Some (n, s1)" by (auto split: option.splits)
  moreover from same_store_view(5) [OF sub_ops_same [OF this assms]] have "store_ok s1" using Cons.prems(1) by simp
  ultimately show ?case using Cons.IH Cons.prems(2) by auto
qed simp

lemma safe_subscriptions [safe_cmds]: "safe_cmd subscribe_cmd" "safe_cmd psubscribe_cmd" "safe_cmd unsubscribe_cmd"
  "safe_cmd punsubscribe_cmd" "safe_cmd publish_cmd" "safe_cmd pubsub_cmd"
proof -
  show "safe_cmd subscribe_cmd" "safe_cmd psubscribe_cmd"
    by (auto simp: safe_cmd_def subscribe_cmd_def psubscribe_cmd_def safe_subscribe_loop split: option.split)
  show "safe_cmd unsubscribe_cmd" "safe_cmd punsubscribe_cmd"
    by (auto simp: safe_cmd_def unsubscribe_cmd_def punsubscribe_cmd_def unsubscribe_all_def UnSubscribeAll_def
        PUnSubscribeAll_def map_option_case split: option.splits if_splits dest: store_ok_unsubscribe_loop [rotated])
  show "safe_cmd publish_cmd"
    by (auto simp: safe_cmd_def publish_cmd_def map_option_case split: option.split dest: store_ok_PublishMsg)
  show "safe_cmd pubsub_cmd"
    by (auto simp: safe_cmd_def pubsub_cmd_def safe_fail map_option_case split: option.split)
qed


lemma store_ok_watch_loop: "watch_loop i ks s = Some s' \<Longrightarrow> store_ok s \<Longrightarrow> store_ok s'"
  by (induction ks arbitrary: s) (auto simp: Multi_Watch_def Let_def split: option.splits prod.splits if_splits)

lemma safe_transactions [safe_cmds]: "safe_cmd watch_cmd" "safe_cmd unwatch_cmd" "safe_cmd multi_cmd" "safe_cmd discard_cmd"
proof -
  show "safe_cmd watch_cmd"
    by (auto simp: safe_cmd_def watch_cmd_def safe_fail map_option_case split: option.split dest: store_ok_watch_loop)
  show "safe_cmd unwatch_cmd" by (simp add: safe_cmd_def unwatch_cmd_def safe_upd_current)
  show "safe_cmd multi_cmd" "safe_cmd discard_cmd"
    by (auto simp: safe_cmd_def multi_cmd_def discard_cmd_def split: option.split prod.split bool.split)
qed

subsection \<open>The table\<close>

definition safe_libs :: "libs \<Rightarrow> bool" where
  "safe_libs L \<longleftrightarrow> (\<forall>n. safe_cmd (lib_other L n))"

fun safe_handler :: "cmd_handler \<Rightarrow> bool" where
  "safe_handler (Plain h) = safe_cmd h"
| "safe_handler h = True"

definition safe_table :: "command_table \<Rightarrow> bool" where
  "safe_table t \<longleftrightarrow> (\<forall>(n, info) \<in> set t. safe_handler (ci_handler info))"

lemma safe_table_set: "safe_table t \<Longrightarrow> safe_handler (ci_handler info) \<Longrightarrow> safe_table (table_set n info t)"
  by (auto simp: safe_table_def table_set_def)

lemma safe_Table_Init:
  assumes "safe_libs L"
  shows "safe_table (Table_Init L)"
proof -
  have "\<forall>(n, a, k, h) \<in> set is. safe_handler h \<Longrightarrow> safe_table t \<Longrightarrow>
      safe_table (fold (\<lambda>(n, a, k, h). table_set n \<lparr>ci_attr = a, ci_params = k, ci_handler = h\<rparr>) is t)" for "is" t
    by (induction "is" arbitrary: t) (auto simp: safe_table_set)
  moreover have "\<forall>(n, a, k, h) \<in> set (s_info L). safe_handler h"
    using assms by (simp add: s_info_def safe_libs_def safe_cmds)
  moreover have "safe_table []" by (simp add: safe_table_def)
  ultimately show ?thesis unfolding Table_Init_def by blast
qed


lemma safe_table_find: "safe_table t \<Longrightarrow> table_find cmd t = Some info \<Longrightarrow> safe_handler (ci_handler info)"
  by (auto simp: safe_table_def table_find_def find_Some_iff dest!: bspec [OF _ nth_mem])

text \<open>Aliases only rename what is there.\<close>

lemma safe_aliases: "safe_table t \<Longrightarrow> safe_table (snd (AliasCommands as t))"
proof -
  have one: "safe_table t \<Longrightarrow> safe_table (snd (AliasCommand old new t))" for old new t
  proof (cases "table_find old t")
    case (Some info)
    assume t: "safe_table t"
    then have "safe_table (snd (DelCommand old t))" by (auto simp: safe_table_def DelCommand_def)
    moreover have "safe_handler (ci_handler info)" using safe_table_find [OF t Some] .
    ultimately show ?thesis
      using Some by (auto simp: AliasCommand_def AddCommand_def DelCommand_def safe_table_def)
  qed (auto simp: AliasCommand_def DelCommand_def safe_table_def)
  show "safe_table t \<Longrightarrow> safe_table (snd (AliasCommands as t))"
  proof (induction "as" t rule: AliasCommands.induct)
    case (2 old new "as" t)
    then show ?case using one [of t old new] by (cases "AliasCommand old new t") auto
  qed simp
qed

subsection \<open>Executing\<close>

lemma safe_run_queued: "safe_handler h \<Longrightarrow> safe_cmd (run_queued t h)"
  by (cases h) (auto simp: safe_cmd_def cmdlist_cmd_def)

lemma safe_ExecuteCmd:
  "store_ok s \<Longrightarrow> (\<And>i. info = Some i \<Longrightarrow> safe_cmd (run (ci_handler i))) \<Longrightarrow> safe_result (ExecuteCmd run params info r s)"
  by (auto simp: ExecuteCmd_def safe_fail safe_cmd_def split: option.split)

lemma store_ok_exec_loop: "safe_table t \<Longrightarrow> store_ok s \<Longrightarrow> exec_loop t cmds r s = Some (r', s') \<Longrightarrow> store_ok s'"
proof (induction cmds arbitrary: r s)
  case (Cons cmd cmds)
  let ?info = "GetCommandInfo (hd cmd) t"
  have "safe_result (ExecuteCmd (run_queued t) cmd ?info r s)"
    by (rule safe_ExecuteCmd [OF Cons.prems(2)])
      (auto simp: GetCommandInfo_def intro: safe_run_queued safe_table_find [OF Cons.prems(1)])
  moreover obtain e r1 s1 where 1: "ExecuteCmd (run_queued t) cmd ?info r s = Some (e, r1, s1)"
    using Cons.prems(3) by (auto simp: Let_def split: if_splits option.splits)
  ultimately have s1: "store_ok s1" by simp
  obtain s2 where 2: "(if e = QError_ok \<and> is_write ?info then Propogate cmd s1 else Some s1) = Some s2"
    and l: "exec_loop t cmds r1 s2 = Some (r', s')"
    using Cons.prems(3) 1 by (auto simp: Let_def split: if_splits option.splits)
  have "store_ok s2" using 2 s1 store_ok_Propogate by (auto split: if_splits)
  then show ?case using Cons.IH [OF Cons.prems(1) _ l] by simp
qed simp

lemma store_ok_end_multi [simp]: "store_ok (end_multi i s) = store_ok s"
  by (simp add: end_multi_def split: option.split)

lemma safe_exec: "safe_table t \<Longrightarrow> safe_cmd (exec_cmd t)"
  by (auto simp: safe_cmd_def exec_cmd_def Client_Exec_def Let_def safe_fail split: option.splits bool.splits prod.splits
      dest: store_ok_exec_loop)

lemma safe_run_command: "safe_table t \<Longrightarrow> safe_handler h \<Longrightarrow> safe_cmd (run_command t h)"
  using safe_run_queued [of h t] safe_exec [of t] safe_transactions(4) by (cases h) (auto simp: safe_cmd_def)

subsection \<open>A packet\<close>

lemma store_ok_send [simp]: "store_ok (send i b s) = store_ok s"
  by (simp add: send_def split: option.split)

lemma store_ok_send_error: "send_error i e s = Some s' \<Longrightarrow> store_ok s' = store_ok s"
  by (auto simp: send_error_def split: option.splits)

lemma store_ok_Client_Reset [simp]: "store_ok (Client_Reset i s) = store_ok s"
  by (simp add: Client_Reset_def split: option.split)

lemma store_ok_drop_client [simp]: "store_ok (drop_client i s) = store_ok s"
  by (simp add: drop_client_def)

lemma store_ok_feed_loop: "feed_loop b is s = (kept, s') \<Longrightarrow> store_ok s' = store_ok s"
  by (induction b "is" s arbitrary: kept s' rule: feed_loop.induct) (auto split: option.splits prod.splits)

lemma store_ok_FeedMonitors: "FeedMonitors L i params s = Some s' \<Longrightarrow> store_ok s' = store_ok s"
  by (auto simp: FeedMonitors_def split: if_splits option.splits prod.splits dest: store_ok_feed_loop)

lemma store_ok_queue_cmd: "queue_cmd i c params info s = Some s' \<Longrightarrow> store_ok s' = store_ok s"
  by (auto simp: queue_cmd_def split: if_splits option.splits dest: store_ok_send_error)

lemma store_ok_execute:
  assumes "safe_table t" "store_ok s" "safe_handler (ci_handler info)" "execute t tm i c params info s = Some s'"
  shows "store_ok s'"
proof (cases "masterState s \<noteq> QReplState_none \<and> \<not> IsFlagOn ClientFlag_master c \<and> is_write (Some info)")
  case True
  then show ?thesis using assms(2,4) by (simp add: execute_def store_ok_send_error)
next
  case False
  let ?s = "s\<lparr>slowlog := SlowLog_Begin (t_begin tm) (slowlog s)\<rparr>"
  let ?r = "if IsFlagOn ClientFlag_master c then None else Some []"
  have "safe_result (ExecuteCmd (run_command t) params (Some info) ?r ?s)"
    by (rule safe_ExecuteCmd) (use assms(1-3) in \<open>auto intro: safe_run_command\<close>)
  then show ?thesis
    using assms(4) unfolding execute_def if_not_P [OF False] Let_def
    by (auto split: option.splits if_splits elim!: Propogate_store_ok)
qed

lemma store_ok_dispatch:
  assumes "safe_table t" "store_ok s" "dispatch L t tm i c params s = Some s'"
  shows "store_ok s'"
proof -
  obtain s1 where 1: "FeedMonitors L i params (snd (SelectDB (cl_db c) s)) = Some s1"
    using assms(3) by (auto simp: dispatch_def Let_def split: option.splits)
  have s1: "store_ok s1" using store_ok_FeedMonitors [OF 1] store_ok_SelectDB [OF assms(2)] by simp
  show ?thesis
  proof (cases "GetCommandInfo (map tolower (hd params)) t")
    case None
    then show ?thesis using assms(3) 1 s1 by (simp add: dispatch_def Let_def store_ok_send_error)
  next
    case (Some info)
    then have "safe_handler (ci_handler info)" using safe_table_find [OF assms(1)] by (simp add: GetCommandInfo_def)
    then show ?thesis
      using assms(1,3) 1 s1 Some store_ok_queue_cmd store_ok_execute
      by (fastforce simp: dispatch_def Let_def split: if_splits option.splits)
  qed
qed

lemma HandlePacket_store_ok:
  assumes "safe_table t" "store_ok s" "HandlePacket L t tm i buf s = Some (n, s')"
  shows "store_ok s'"
proof -
  have h: "store_ok s2" if "handle_request L t tm i s1 = Some (b, s2)" "store_ok s1" for s1 b s2
  proof -
    have d: "store_ok s2" if "dispatch L t tm i c params s1 = Some s2" "store_ok s1" for c params s1 s2
      using store_ok_dispatch [OF assms(1) that(2,1)] .
    show ?thesis
      using that by (auto simp: handle_request_def Let_def store_ok_send_error split: option.splits if_splits elim: d)
  qed
  have f: "store_ok s2" if "finish_request L t tm i m s1 = Some (k, s2)" "store_ok s1" for s1 m k s2
    using that by (auto simp: finish_request_def elim: h)
  let ?s = "s\<lparr>current := Some i\<rparr>"
  obtain c where c: "map_of (clients s) i = Some c" using assms(3) by (auto simp: HandlePacket_def split: option.splits)
  obtain ret ptr p where p: "ParseRequest buf 0 (parser c) = Some (ret, ptr, p)"
    using assms(3) c by (auto simp: HandlePacket_def split: option.splits)
  have s: "store_ok (put_client i c' (put_client i c'' ?s))" "store_ok (put_client i c' ?s)" for c' c''
    using assms(2) by simp_all
  show ?thesis
    using assms(3) c p s f [OF _ s(1)] f [OF _ s(2)]
    by (auto simp: HandlePacket_def Let_def split: option.splits if_splits)
qed

end
