(* ===== verification/System.thy ===== *)
theory System
  imports Serving Safety
begin

text \<open>
  The server as a transition system: its clients connect, send packets and go away, time passes, and
  the timers of QStore.cc and QPubsub.cc run, in any order.
\<close>

subsection \<open>The timers\<close>

lemma store_ok_expire_waiting: "expire_waiting t k q s = (n, q', s') \<Longrightarrow> store_ok s' = store_ok s"
  by (induction t k q s arbitrary: n q' s' rule: expire_waiting.induct) (auto split: if_splits prod.splits option.splits)

lemma store_ok_check_blocked: "check_blocked t b n s = (m, b', s') \<Longrightarrow> store_ok s' = store_ok s"
  by (induction t b n s arbitrary: m b' s' rule: check_blocked.induct)
    (auto split: if_splits prod.splits dest: store_ok_expire_waiting)

lemma store_ok_blocked_timer: "store_ok s \<Longrightarrow> store_ok (blocked_timer d s)"
proof -
  assume s: "store_ok s"
  obtain old s1 where 1: "SelectDB d s = (old, s1)" by (cases "SelectDB d s")
  obtain m b s2 where 2: "check_blocked (now s1) (cur_blk s1) 0 s1 = (m, b, s2)" using prod_cases3 by blast
  have "store_ok s1" using store_ok_SelectDB [OF s, of d] 1 by simp
  then have "store_ok s2" using store_ok_check_blocked [OF 2] by simp
  then show ?thesis using 1 2 by (simp add: blocked_timer_def LoopCheckBlocked_def store_ok_SelectDB)
qed

text \<open>
  The deadlines that are due are those of keys no command sees any more: the timer removes values
  and deadlines, but nothing of what is visible. It always returns.
\<close>

lemma vis_at_same: "same_store s s' \<Longrightarrow> vis_at d s' = vis_at d s"
  by (simp add: vis_at_simps fun_eq_iff same_store_view)

lemma frame_vis_all: "frame s s' \<Longrightarrow> vis s' = vis s \<Longrightarrow> vis_at d s' = vis_at d s"
  using frame_vis_at [of s s' d] frame_fields(1) [of s s'] vis_at_dbno [of s] vis_at_dbno [of s'] by metis

text \<open>What a check of deadlines does: it drops the key and its deadline, which no command could see.\<close>

definition unseen :: "server \<Rightarrow> server \<Rightarrow> bool" where
  "unseen s s' \<longleftrightarrow> store_ok s' \<and> (\<forall>d. vis_at d s' = vis_at d s) \<and> dbno s' = dbno s \<and> now s' = now s \<and> length (store s') = length (store s)"

lemma unseen_trans: "unseen s s1 \<Longrightarrow> unseen s1 s2 \<Longrightarrow> unseen s s2"
  by (simp add: unseen_def)

lemma check_expire_one:
  assumes "store_ok (s :: server)" "map_of (cur_exp s) k = Some due" "due \<le> now s"
  obtains s1 s2 where "Propogate [''del'', k] s = Some s1" "map_of (cur_exp s1) k = Some due"
    "s2 = upd_exp (AList.delete k) (snd (DeleteKey k s1))" "unseen s s2" "cur_exp s2 = AList.delete k (cur_exp s)"
proof -
  have w: "waitSyncKeys s = []" using store_ok_current [OF assms(1)] by simp
  obtain s1 where 1: "Propogate [''del'', k] s = Some s1" "same_store s s1"
    by (rule Propogate_memory [OF w, of "[''del'', k]"]) auto
  note v = same_store_view [OF 1(2)]
  have s1: "store_ok s1" using v assms(1) by simp
  note c = store_ok_current [OF s1]
  let ?s2 = "upd_exp (AList.delete k) (snd (DeleteKey k s1))"
  have d: "snd (DeleteKey k s1) = upd_db (AList.delete k) s1" using c by (simp add: DeleteKey_memory)
  note e = expire_step [OF s1, of k, folded d]
  have "(vis s)(k := None) = vis s" using assms(2,3) by (auto simp: vis_def is_expired_def)
  then have "vis ?s2 = vis s1" using e(3) v by simp
  then have "unseen s ?s2"
    using e(1) frame_vis_all [OF e(2)] vis_at_same [OF 1(2)] frame_fields [OF e(2)] v by (simp add: unseen_def)
  moreover have "cur_exp ?s2 = AList.delete k (cur_exp s)" using c v d by (simp add: upd_db_def upd_exp_def cur_exp_def)
  ultimately show ?thesis using that 1(1) v assms(2) by simp
qed

lemma check_expire_spec:
  assumes "store_ok (s :: server)" "distinct (map fst es)" "set es \<subseteq> set (cur_exp s)"
  shows "\<exists>n s'. check_expire (now s) es d l s = Some (n, s') \<and> unseen s s' \<and> n \<le> max kMaxDel d"
  using assms
proof (induction es arbitrary: d l s)
  case Nil
  then show ?case by (simp add: unseen_def)
next
  case (Cons e es)
  obtain k due where e: "e = (k, due)" by (cases e)
  have kd: "keys_distinct (cur_exp s)" using store_ok_current [OF Cons.prems(1)] by simp
  have m: "map_of (cur_exp s) k = Some due" using Cons.prems(3) e kd by (auto simp: keys_distinct_def)
  consider "\<not> (d < kMaxDel \<and> l < kMaxCheck)" | "d < kMaxDel \<and> l < kMaxCheck" "\<not> due \<le> now s"
    | "d < kMaxDel \<and> l < kMaxCheck" "due \<le> now s" by blast
  then show ?case
  proof cases
    case 1
    then have "check_expire (now s) (e # es) d l s = Some (d, s)" by (auto simp: e)
    then show ?thesis using Cons.prems(1) by (simp add: unseen_def)
  next
    case 2
    then have "check_expire (now s) (e # es) d l s = check_expire (now s) es d (l + 1) s" by (simp add: e)
    then show ?thesis using Cons.IH [of s d "l + 1"] Cons.prems by simp
  next
    case 3
    obtain s1 s2 where s: "Propogate [''del'', k] s = Some s1" "map_of (cur_exp s1) k = Some due"
      "s2 = upd_exp (AList.delete k) (snd (DeleteKey k s1))" "unseen s s2" "cur_exp s2 = AList.delete k (cur_exp s)"
      using check_expire_one [OF Cons.prems(1) m 3(2)] by metis
    have "check_expire (now s) (e # es) d l s = check_expire (now s) es (d + 1) (l + 1) s2"
      using 3 s by (simp add: e)
    moreover have "set es \<subseteq> set (cur_exp s2)" using s(5) Cons.prems(2,3) e by (auto simp: AList.delete_eq image_iff)
    moreover have "store_ok s2" "now s2 = now s" using s(4) by (simp_all add: unseen_def)
    moreover obtain n s' where "check_expire (now s2) es (d + 1) (l + 1) s2 = Some (n, s')" "unseen s2 s'" "n \<le> max kMaxDel (d + 1)"
      using Cons.IH [of s2 "d + 1" "l + 1"] calculation(2,3) Cons.prems(2) by auto
    ultimately show ?thesis using 3 unseen_trans [OF s(4)] by auto
  qed
qed

lemma expire_timer_returns:
  assumes "store_ok s" "0 \<le> d" "d < int (length (store s))"
  shows "\<exists>s'. expire_timer d s = Some s' \<and> store_ok s' \<and> dbno s' = dbno s \<and> (\<forall>e. vis_at e s' = vis_at e s)"
proof -
  let ?s1 = "s\<lparr>dbno := nat d\<rparr>"
  have 1: "SelectDB d s = (int (dbno s), ?s1)" using assms(2,3) by (auto simp: SelectDB_def GetDB_def)
  have s1: "store_ok ?s1" using assms by simp
  then have "distinct (map fst (cur_exp ?s1))" using store_ok_current(4) [OF s1] by (simp add: keys_distinct_def)
  from check_expire_spec [OF s1 this, of 0 0] obtain n s2 where
    2: "check_expire (now s) (cur_exp ?s1) 0 0 ?s1 = Some (n, s2)" "unseen ?s1 s2" by auto
  then have "expire_timer d s = Some (snd (SelectDB (int (dbno s)) s2))"
    using 1 by (simp add: expire_timer_def LoopCheckExpire_def)
  moreover have "snd (SelectDB (int (dbno s)) s2) = s2\<lparr>dbno := dbno s\<rparr>"
    using 2(2) store_ok_current(1) [OF assms(1)] by (auto simp: SelectDB_def GetDB_def unseen_def)
  ultimately show ?thesis using 2(2) store_ok_current(1) [OF assms(1)] by (auto simp: unseen_def)
qed



subsection \<open>Reachable states\<close>

text \<open>A number no client had before: a new object differs from all that weak pointers refer to.\<close>

definition fresh_id :: "client_id \<Rightarrow> server \<Rightarrow> bool" where
  "fresh_id i s \<longleftrightarrow> i \<notin> fst ` set (clients s) \<and> i \<notin> set (monitors s) \<and> i \<notin> slave_ids s \<and>
     (\<forall>(d, ks) \<in> set (watched s). \<forall>(k, cls) \<in> set ks. i \<notin> set cls) \<and>
     (\<forall>(ch, cls) \<in> set (chanClients s) \<union> set (patClients s). i \<notin> set cls) \<and>
     (\<forall>b \<in> set (blockedClients s). \<forall>(k, q) \<in> set b. i \<notin> fst ` set q)"

text \<open>The configuration says how many databases there are, the password, and how slow slow is.\<close>

inductive server_step :: "libs \<Rightarrow> command_table \<Rightarrow> server \<Rightarrow> server \<Rightarrow> bool" for L t where
  connect: "fresh_id i s \<Longrightarrow> server_step L t s (OnConnect i s)"
| packet: "HandlePacket L t tm i buf s = Some (n, s') \<Longrightarrow> server_step L t s s'"
| close: "server_step L t s (drop_client i s)"
| clock: "now s \<le> ms \<Longrightarrow> server_step L t s (s\<lparr>now := ms, lruclock := clock_lru\<rparr>)"
| expires: "0 \<le> d \<Longrightarrow> d < int (length (store s)) \<Longrightarrow> expire_timer d s = Some s' \<Longrightarrow> server_step L t s s'"
| blocks: "0 \<le> d \<Longrightarrow> d < int (length (store s)) \<Longrightarrow> server_step L t s (blocked_timer d s)"
| recycle: "RecycleClients ch pat s = (starts, s') \<Longrightarrow> server_step L t s s'"

inductive reachable :: "libs \<Rightarrow> command_table \<Rightarrow> server \<Rightarrow> bool" for L t where
  start: "reachable L t (Store_Init n (server_new\<lparr>password := pw, appendonly := ao, slowlog := sl, masterState := ms\<rparr>))"
| step: "reachable L t s \<Longrightarrow> server_step L t s s' \<Longrightarrow> reachable L t s'"

lemma store_ok_server_step:
  assumes "safe_table t" "store_ok s" "server_step L t s s'"
  shows "store_ok s'"
  using assms(3)
proof (cases rule: server_step.cases)
  case connect
  then show ?thesis using store_ok_SelectDB [OF assms(2)] by (simp add: OnConnect_def Let_def)
next
  case packet
  then show ?thesis using HandlePacket_store_ok [OF assms(1,2)] by blast
next
  case expires
  then show ?thesis using expire_timer_returns [OF assms(2)] by fastforce
next
  case blocks
  then show ?thesis using store_ok_blocked_timer [OF assms(2)] by simp
qed (use assms(2) in \<open>auto simp: store_ok_def RecycleClients_def Let_def drop_client_def split: prod.splits\<close>)


text \<open>Functions that stand in for the C library and for the layout of the tables.\<close>

definition sample_libs :: libs where
  "sample_libs = \<lparr>lib_strtod = some_numbers, lib_strtof = some_numbers, lib_sum_g = (\<lambda>_ _. ''0''), lib_atof = (\<lambda>_. 0),
     lib_add = (\<lambda>a b. if b = 0 then a else b), lib_show = (\<lambda>_. ''0''),
     lib_pick = (\<lambda>xs. case xs of [] \<Rightarrow> None | x # _ \<Rightarrow> Some x), lib_set_buckets = (\<lambda>xs. map (\<lambda>x. [x]) xs),
     lib_hash_buckets = (\<lambda>h. map (\<lambda>e. [e]) h), lib_sort = (\<lambda>_ xs. xs), lib_other = (\<lambda>_. ping_cmd), lib_peer = (\<lambda>_. ''::1:0'')\<rparr>"




end
