(* ===== verification/Transactions.thy ===== *)
theory Transactions
  imports Safety
begin

text \<open>
  What WATCH promises: a client whose watched key another client writes executes nothing when it
  sends EXEC.
\<close>

subsection \<open>Watching and being dirty\<close>

definition is_dirty :: "client_id \<Rightarrow> server \<Rightarrow> bool" where
  "is_dirty i s \<longleftrightarrow> (\<exists>c. map_of (clients s) i = Some c \<and> IsFlagOn ClientFlag_dirty c)"

text \<open>A client that watches a key, and of which the table of watched keys knows it, or that is dirty already.\<close>

definition watches :: "client_id \<Rightarrow> int \<Rightarrow> QString \<Rightarrow> server \<Rightarrow> bool" where
  "watches i d k s \<longleftrightarrow>
     (\<exists>c. map_of (clients s) i = Some c \<and>
        (IsFlagOn ClientFlag_dirty c \<or> k \<in> set (watch_set d c) \<and> i \<in> set (watchers d k s)))"

definition keeps_watch :: "server \<Rightarrow> server \<Rightarrow> bool" where
  "keeps_watch s s' \<longleftrightarrow> current s' = current s \<and>
     (\<forall>i c. map_of (clients s) i = Some c \<longrightarrow>
        (\<exists>c'. map_of (clients s') i = Some c' \<and> (\<forall>d. watch_set d c' = watch_set d c) \<and>
          (IsFlagOn ClientFlag_dirty c \<longrightarrow> IsFlagOn ClientFlag_dirty c')))"

lemma keeps_watch_refl [simp, intro]: "keeps_watch s s"
  by (simp add: keeps_watch_def)

lemma keeps_watch_trans [trans]: "keeps_watch s s1 \<Longrightarrow> keeps_watch s1 s2 \<Longrightarrow> keeps_watch s s2"
  unfolding keeps_watch_def by metis

lemma keeps_watch_dirty: "keeps_watch s s' \<Longrightarrow> is_dirty i s \<Longrightarrow> is_dirty i s'"
  unfolding keeps_watch_def is_dirty_def by blast

lemma keeps_watch_updates [simp]:
  "keeps_watch s (s'\<lparr>dirty := a\<rparr>) = keeps_watch s s'" "keeps_watch s (s'\<lparr>dirtyKeys := b\<rparr>) = keeps_watch s s'"
  "keeps_watch s (s'\<lparr>watched := w\<rparr>) = keeps_watch s s'" "keeps_watch s (s'\<lparr>aofLastDb := f\<rparr>) = keeps_watch s s'"
  "keeps_watch s (s'\<lparr>aofBuf := g\<rparr>) = keeps_watch s s'" "keeps_watch s (s'\<lparr>replBuf := h\<rparr>) = keeps_watch s s'"
  by (simp_all add: keeps_watch_def)

lemma keeps_watch_put:
  assumes "map_of (clients s) i = Some c" "\<And>d. watch_set d c' = watch_set d c"
    "IsFlagOn ClientFlag_dirty c \<Longrightarrow> IsFlagOn ClientFlag_dirty c'"
  shows "keeps_watch s (put_client i c' s)"
  using assms by (auto simp: keeps_watch_def put_client_def update_conv')

lemma keeps_watch_fold:
  "(\<And>x s. x \<in> set xs \<Longrightarrow> keeps_watch s (f x s)) \<Longrightarrow> keeps_watch s (fold f xs s)"
proof (induction xs arbitrary: s)
  case (Cons x xs)
  then have "keeps_watch s (f x s)" "keeps_watch (f x s) (fold f xs (f x s))" by simp_all
  then show ?case by (auto intro: keeps_watch_trans)
qed simp

lemma keeps_watch_send_to: "keeps_watch s (send_to b x s)"
  by (auto simp: send_to_def SendPacket_def watch_set_def IsFlagOn_def intro!: keeps_watch_put split: prod.split option.split)

lemma IsFlagOn_SetFlag [simp]: "f \<noteq> 0 \<Longrightarrow> IsFlagOn f (SetFlag f c)"
  by (simp add: IsFlagOn_def SetFlag_def and.commute [of _ f] bit.conj_disj_distrib)

subsection \<open>Notification\<close>

lemma Client_NotifyDirty_watch:
  assumes "Client_NotifyDirty d k c = (b, c')"
  shows "watch_set d' c' = watch_set d' c" "IsFlagOn ClientFlag_dirty c \<Longrightarrow> IsFlagOn ClientFlag_dirty c'"
    "b \<longleftrightarrow> IsFlagOn ClientFlag_dirty c'" "k \<in> set (watch_set d c) \<Longrightarrow> IsFlagOn ClientFlag_dirty c'"
proof -
  have z: "ClientFlag_dirty \<noteq> 0" by (simp add: ClientFlag_dirty_def)
  have w: "watch_set d' (c\<lparr>watchKeys := AList.update d (watch_set d c) (watchKeys c)\<rparr>) = watch_set d' c"
    by (auto simp: watch_set_def update_conv' split: option.split)
  have f: "watch_set d' (SetFlag f c) = watch_set d' c" for f c by (simp add: watch_set_def SetFlag_def)
  have i: "IsFlagOn f (c\<lparr>watchKeys := x\<rparr>) = IsFlagOn f c" for f x by (simp add: IsFlagOn_def)
  show "watch_set d' c' = watch_set d' c" "IsFlagOn ClientFlag_dirty c \<Longrightarrow> IsFlagOn ClientFlag_dirty c'"
    "b \<longleftrightarrow> IsFlagOn ClientFlag_dirty c'" "k \<in> set (watch_set d c) \<Longrightarrow> IsFlagOn ClientFlag_dirty c'"
    using assms w z by (auto simp: Client_NotifyDirty_def Let_def f i split: if_splits)
qed

text \<open>After a round of notification the clients that were told and watch the key are dirty; only dirty clients
  and those that are gone leave the list.\<close>

lemma NotifyDirty_loop_marks:
  assumes "NotifyDirty_loop d k cls s = (kept, s')"
  shows "keeps_watch s s'" "watched s' = watched s"
    "i \<in> set cls \<Longrightarrow> map_of (clients s) i = Some c \<Longrightarrow> i \<in> set kept \<or> is_dirty i s'"
    "i \<in> set cls \<Longrightarrow> map_of (clients s) i = Some c \<Longrightarrow> k \<in> set (watch_set d c) \<Longrightarrow> current s \<noteq> Some i \<Longrightarrow> is_dirty i s'"
proof -
  have "keeps_watch s s' \<and> watched s' = watched s \<and>
    (\<forall>i c. i \<in> set cls \<longrightarrow> map_of (clients s) i = Some c \<longrightarrow> (i \<in> set kept \<or> is_dirty i s') \<and>
      (k \<in> set (watch_set d c) \<longrightarrow> current s \<noteq> Some i \<longrightarrow> is_dirty i s'))"
    using assms
  proof (induction cls arbitrary: s kept)
    case (Cons j cls)
    consider "map_of (clients s) j = None" | c where "map_of (clients s) j = Some c" "current s = Some j"
      | c where "map_of (clients s) j = Some c" "current s \<noteq> Some j" by blast
    then show ?case
    proof cases
      case 1
      then show ?thesis using Cons by auto
    next
      case 2
      then show ?thesis using Cons by (auto split: prod.splits) blast+
    next
      case (3 c)
      obtain b c' where n: "Client_NotifyDirty d k c = (b, c')" by (cases "Client_NotifyDirty d k c")
      obtain kept' where l: "NotifyDirty_loop d k cls (put_client j c' s) = (kept', s')" "kept = (if b then kept' else j # kept')"
        using Cons.prems 3 n by (auto split: prod.splits)
      note w = Client_NotifyDirty_watch [OF n]
      have kw: "keeps_watch s (put_client j c' s)" by (rule keeps_watch_put [OF 3(1)]) (use w in auto)
      note ih = Cons.IH [OF l(1)]
      have j: "is_dirty j s'" if "IsFlagOn ClientFlag_dirty c'"
        using ih keeps_watch_dirty [of "put_client j c' s" s' j] that by (auto simp: is_dirty_def put_client_def update_conv')
      have other: "(i \<in> set kept' \<or> is_dirty i s') \<and> (k \<in> set (watch_set d ci) \<longrightarrow> current s \<noteq> Some i \<longrightarrow> is_dirty i s')"
        if "i \<in> set cls" "i \<noteq> j" "map_of (clients s) i = Some ci" for i ci
        using ih that by (auto simp: put_client_def update_conv')
      have one: "(i \<in> set kept \<or> is_dirty i s') \<and> (k \<in> set (watch_set d ci) \<longrightarrow> current s \<noteq> Some i \<longrightarrow> is_dirty i s')"
        if "i \<in> set (j # cls)" "map_of (clients s) i = Some ci" for i ci
        using that j w(3,4) l(2) 3(1) other [of i ci] by (cases "i = j") auto
      moreover have "keeps_watch s s'" "watched s' = watched s"
        using ih keeps_watch_trans [OF kw] by (auto simp: put_client_def)
      ultimately show ?thesis by blast
    qed
  qed simp
  then show "keeps_watch s s'" "watched s' = watched s"
    "i \<in> set cls \<Longrightarrow> map_of (clients s) i = Some c \<Longrightarrow> i \<in> set kept \<or> is_dirty i s'"
    "i \<in> set cls \<Longrightarrow> map_of (clients s) i = Some c \<Longrightarrow> k \<in> set (watch_set d c) \<Longrightarrow> current s \<noteq> Some i \<Longrightarrow> is_dirty i s'"
    by blast+
qed


lemma keeps_watch_NotifyDirty: "keeps_watch s (NotifyDirty d k s)"
  by (auto simp: NotifyDirty_def split: option.split prod.split dest: NotifyDirty_loop_marks(1))

lemma watches_NotifyDirty:
  assumes "watches i d k s"
  shows "watches i d k (NotifyDirty d' k' s)" "d' = d \<Longrightarrow> k' = k \<Longrightarrow> current s \<noteq> Some i \<Longrightarrow> is_dirty i (NotifyDirty d' k' s)"
proof -
  let ?s' = "NotifyDirty d' k' s"
  obtain c where c: "map_of (clients s) i = Some c"
    and w: "IsFlagOn ClientFlag_dirty c \<or> k \<in> set (watch_set d c) \<and> i \<in> set (watchers d k s)"
    using assms by (auto simp: watches_def)
  note kw = keeps_watch_NotifyDirty [of s d' k']
  then obtain c' where c': "map_of (clients ?s') i = Some c'" "watch_set d c' = watch_set d c"
    using c by (fastforce simp: keeps_watch_def)
  have dirty: "watches i d k ?s'" if "is_dirty i ?s'" using that by (auto simp: is_dirty_def watches_def)
  have "watches i d k ?s' \<and> (d' = d \<longrightarrow> k' = k \<longrightarrow> current s \<noteq> Some i \<longrightarrow> is_dirty i ?s')"
  proof (cases "is_dirty i s")
    case True
    then show ?thesis using keeps_watch_dirty [OF kw] dirty by blast
  next
    case False
    then have kk: "k \<in> set (watch_set d c)" and ki: "i \<in> set (watchers d k s)" using w c by (auto simp: is_dirty_def)
    show ?thesis
    proof (cases "d' = d \<and> k' = k")
      case True
      obtain ks cls where ks: "map_of (watched s) d = Some ks" "map_of ks k = Some cls" "i \<in> set cls"
        using ki by (cases "map_of (watched s) d"; cases "map_of (the (map_of (watched s) d)) k") (auto simp: watchers_def)
      obtain kept s1 where l: "NotifyDirty_loop d k cls s = (kept, s1)" by (cases "NotifyDirty_loop d k cls s")
      note m = NotifyDirty_loop_marks [OF l]
      have s': "?s' = s1\<lparr>watched := AList.update d (if kept = [] then AList.delete k ks else AList.update k kept ks) (watched s1)\<rparr>"
        using True ks l by (simp add: NotifyDirty_def)
      have "is_dirty i ?s' = is_dirty i s1" by (simp add: s' is_dirty_def)
      moreover have "i \<in> set kept \<Longrightarrow> i \<in> set (watchers d k ?s')" by (auto simp: s' watchers_def update_conv')
      ultimately show ?thesis using m(3) [OF ks(3) c] m(4) [OF ks(3) c kk] c' kk dirty by (auto simp: watches_def)
    next
      case False
      have "watchers d k ?s' = watchers d k s"
        using False by (auto simp: NotifyDirty_def watchers_def update_conv' delete_conv' split: option.split prod.split dest: NotifyDirty_loop_marks(2))
      then show ?thesis using False c' kk ki by (auto simp: watches_def)
    qed
  qed
  then show "watches i d k ?s'" "d' = d \<Longrightarrow> k' = k \<Longrightarrow> current s \<noteq> Some i \<Longrightarrow> is_dirty i ?s'" by blast+
qed

lemma watches_field [simp]: "watches i d k (s\<lparr>dirty := x\<rparr>) = watches i d k s" "watches i d k (s\<lparr>dirtyKeys := y\<rparr>) = watches i d k s"
  "is_dirty i (s\<lparr>dirty := x\<rparr>) = is_dirty i s" "is_dirty i (s\<lparr>dirtyKeys := y\<rparr>) = is_dirty i s"
  by (simp_all add: watches_def watchers_def is_dirty_def)

lemma signal_dirty_memory: "waitSyncKeys s = [] \<Longrightarrow>
    signal_dirty k s = NotifyDirty (GetDB s) k (s\<lparr>dirty := wrap32 (dirty s + 1)\<rparr>)" for s :: server
proof -
  assume w: "waitSyncKeys s = []"
  let ?s = "s\<lparr>dirty := wrap32 (dirty s + 1)\<rparr>"
  have "waitSyncKeys (NotifyDirty (GetDB s) k ?s) = []"
    using w same_store_view(10) [OF same_store_NotifyDirty [of ?s "GetDB s" k]] by simp
  then show ?thesis by (simp add: signal_dirty_def Let_def AddDirtyKey_memory GetDB_def)
qed

lemma signal_dirty_step:
  assumes "waitSyncKeys (s :: server) = []"
  shows "keeps_watch s (signal_dirty k s)" "waitSyncKeys (signal_dirty k s) = []" "GetDB (signal_dirty k s) = GetDB s"
    "watches i d k' s \<Longrightarrow> watches i d k' (signal_dirty k s)"
    "watches i (GetDB s) k s \<Longrightarrow> current s \<noteq> Some i \<Longrightarrow> is_dirty i (signal_dirty k s)"
  using assms same_store_view [OF same_store_signal [OF assms, of k]]
    keeps_watch_NotifyDirty [of "s\<lparr>dirty := wrap32 (dirty s + 1)\<rparr>" "GetDB s" k]
    watches_NotifyDirty [of i d k' "s\<lparr>dirty := wrap32 (dirty s + 1)\<rparr>" "GetDB s" k]
    watches_NotifyDirty(2) [of i "GetDB s" k "s\<lparr>dirty := wrap32 (dirty s + 1)\<rparr>" "GetDB s" k]
  by (auto simp: signal_dirty_memory GetDB_def keeps_watch_def)

lemma fold_signal_marks:
  assumes "waitSyncKeys (s :: server) = []" "watches i (GetDB s) k s" "current s \<noteq> Some i"
  shows "keeps_watch s (fold signal_dirty ks s)" "k \<in> set ks \<Longrightarrow> is_dirty i (fold signal_dirty ks s)"
proof -
  have "keeps_watch s (fold signal_dirty ks s) \<and> (k \<in> set ks \<or> is_dirty i s \<longrightarrow> is_dirty i (fold signal_dirty ks s))"
    using assms
  proof (induction ks arbitrary: s)
    case (Cons x ks)
    note st = signal_dirty_step [OF Cons.prems(1), where k = x]
    have "current (signal_dirty x s) = current s" using st(1) by (simp add: keeps_watch_def)
    note ih = Cons.IH [of "signal_dirty x s"]
    show ?case
      using ih st Cons.prems keeps_watch_trans [OF st(1)] keeps_watch_dirty [OF st(1)] \<open>current (signal_dirty x s) = current s\<close>
      by auto
  qed simp
  then show "keeps_watch s (fold signal_dirty ks s)" "k \<in> set ks \<Longrightarrow> is_dirty i (fold signal_dirty ks s)" by blast+
qed

text \<open>The keys a propagated command counts as written.\<close>

definition written :: "QString list \<Rightarrow> server \<Rightarrow> QString set" where
  "written params s =
     (if dirtyKeys s \<noteq> [] then set (dirtyKeys s) else if 1 < length params then {params ! 1} else {})"

lemma keeps_watch_after: "keeps_watch s (SendToSlaves params (log_write params s))"
proof -
  have "keeps_watch s (log_write params s)"
    by (simp add: log_write_def AOF_SaveCommand_def WriteSelectDB_def Let_def)
  also have "keeps_watch (log_write params s) (SendToSlaves params (log_write params s))"
    by (auto simp: SendToSlaves_def keeps_watch_send_to intro: keeps_watch_fold)
  finally show ?thesis .
qed

lemma Propogate_marks:
  assumes "waitSyncKeys s = []" "watches i (GetDB s) k s" "current s \<noteq> Some i" "k \<in> written params s" "params \<noteq> []"
  shows "\<exists>s'. Propogate params s = Some s' \<and> is_dirty i s'"
proof -
  have "is_dirty i (notify_writes params s)"
    using assms fold_signal_marks(2) [OF assms(1-3)] signal_dirty_step(5) [OF assms(1)]
    by (auto simp: notify_writes_def written_def split: if_splits)
  then show ?thesis using keeps_watch_dirty [OF keeps_watch_after] assms(5) by (auto simp: Propogate_def)
qed


subsection \<open>WATCH, writes of others, EXEC\<close>

text \<open>The table of watched keys knows what the client watches.\<close>

definition watch_known :: "client_id \<Rightarrow> server \<Rightarrow> bool" where
  "watch_known i s \<longleftrightarrow>
     (\<forall>c d k. map_of (clients s) i = Some c \<longrightarrow> k \<in> set (watch_set d c) \<longrightarrow> i \<in> set (watchers d k s))"

lemma Multi_Watch_step:
  assumes "map_of (clients s) i = Some c" "watch_known i s"
  obtains s' c' where "Multi_Watch i d k s = Some s'" "map_of (clients s') i = Some c'" "watch_known i s'"
    "k \<in> set (watch_set d c')" "set (watch_set d' c) \<subseteq> set (watch_set d' c')"
    "same_store s s'" "current s' = current s" "dirtyKeys s' = dirtyKeys s" "flag c' = flag c"
proof -
  obtain f ks where f: "set_insert k (watch_set d c) = (f, ks)" by (cases "set_insert k (watch_set d c)")
  let ?c = "c\<lparr>watchKeys := AList.update d ks (watchKeys c)\<rparr>"
  let ?s = "put_client i ?c s"
  define s' where "s' = (if f then ?s\<lparr>watched := AList.update d (AList.update k (watchers d k ?s @ [i]) (watched_in d ?s)) (watched ?s)\<rparr> else ?s)"
  have w: "watch_set e ?c = (if e = d then ks else watch_set e c)" for e by (simp add: watch_set_def update_conv')
  have ks: "set ks = insert k (set (watch_set d c))" "f \<longleftrightarrow> k \<notin> set (watch_set d c)"
    using f by (auto simp: set_insert_def split: if_splits)
  have v: "watchers e k' s' = (if f \<and> e = d \<and> k' = k then watchers d k s @ [i] else watchers e k' s)" for e k'
    by (auto simp: s'_def watchers_def watched_in_def put_client_def update_conv' split: option.split)
  have m: "map_of (clients s') i = Some ?c" by (simp add: s'_def put_client_def update_conv')
  have "watch_known i s'"
    using assms ks m w v by (auto simp: watch_known_def split: if_splits)
  moreover have "same_store s s'" "current s' = current s" "dirtyKeys s' = dirtyKeys s"
    by (simp_all add: s'_def put_client_def)
  moreover have "Multi_Watch i d k s = Some s'"
    using assms(1) f by (simp add: Multi_Watch_def Client_Watch_def Let_def s'_def)
  ultimately show ?thesis by (intro that [of s' ?c]) (use m w ks in auto)
qed

lemma watch_loop_step:
  assumes "map_of (clients s) i = Some c" "watch_known i s" "current s = Some i"
  shows "\<exists>s' c'. watch_loop i ks s = Some s' \<and> map_of (clients s') i = Some c' \<and> watch_known i s' \<and>
    set ks \<union> set (watch_set (GetDB s) c) \<subseteq> set (watch_set (GetDB s) c') \<and> same_store s s' \<and>
    current s' = current s \<and> dirtyKeys s' = dirtyKeys s \<and> flag c' = flag c"
  using assms
proof (induction ks arbitrary: s c)
  case (Cons k ks)
  obtain s1 c1 where 1: "Multi_Watch i (GetDB s) k s = Some s1" "map_of (clients s1) i = Some c1" "watch_known i s1"
    "k \<in> set (watch_set (GetDB s) c1)" "set (watch_set (GetDB s) c) \<subseteq> set (watch_set (GetDB s) c1)"
    "same_store s s1" "current s1 = current s" "dirtyKeys s1 = dirtyKeys s" "flag c1 = flag c"
    by (rule Multi_Watch_step [OF Cons.prems(1,2), of "GetDB s" k "GetDB s"])
  have "GetDB s1 = GetDB s" using same_store_view(6) [OF 1(6)] by (simp add: GetDB_def)
  with Cons.IH [OF 1(2,3)] 1 Cons.prems(3) same_store_trans [OF 1(6)] show ?case by fastforce
qed auto

text \<open>C15: After WATCH, any write of one of the watched keys that is propagated for another client makes the
  watching client dirty.\<close>

theorem watch_guards:
  assumes "store_ok s" "Current s = Some (i, c)" "\<not> IsFlagOn ClientFlag_multi c" "watch_known i s"
    and "k \<in> set ks" "j \<noteq> i" "ps \<noteq> []" "k \<in> written ps s"
  shows "\<exists>s1 s2. watch_cmd (w # ks) r s = Some (QError_ok, FormatOK r, s1) \<and> vis s1 = vis s \<and>
    Propogate ps (s1\<lparr>current := Some j\<rparr>) = Some s2 \<and> is_dirty i s2"
proof -
  have cur: "current s = Some i" "map_of (clients s) i = Some c"
    using assms(2) by (auto simp: Current_def split: option.splits)
  obtain s1 c1 where 1: "watch_loop i ks s = Some s1" "map_of (clients s1) i = Some c1" "watch_known i s1"
    "k \<in> set (watch_set (GetDB s) c1)" "same_store s s1" "dirtyKeys s1 = dirtyKeys s"
    using watch_loop_step [OF cur(2) assms(4) cur(1), of ks] assms(5) by blast
  let ?s = "s1\<lparr>current := Some j\<rparr>"
  have db: "GetDB s1 = GetDB s" using same_store_view(6) [OF 1(5)] by (simp add: GetDB_def)
  have "watches i (GetDB ?s) k ?s"
    using 1(2,3,4) db by (auto simp: watches_def watch_known_def watchers_def GetDB_def)
  moreover have "waitSyncKeys ?s = []" using same_store_view(10) [OF 1(5)] store_ok_current(6) [OF assms(1)] by simp
  moreover have "k \<in> written ps ?s" using assms(8) 1(6) by (auto simp: written_def split: if_splits)
  ultimately obtain s2 where "Propogate ps ?s = Some s2" "is_dirty i s2"
    using Propogate_marks [of ?s i k ps] assms(6,7) by auto
  moreover have "watch_cmd (w # ks) r s = Some (QError_ok, FormatOK r, s1)"
    using assms(2,3) 1(1) by (simp add: watch_cmd_def)
  ultimately show ?thesis using same_store_view(4) [OF 1(5)] by blast
qed

lemma ended_client:
  "IsFlagOn ClientFlag_multi (ClearWatch (ClearMulti c)) = False" "IsFlagOn ClientFlag_dirty (ClearWatch (ClearMulti c)) = False"
  "queueCmds (ClearWatch (ClearMulti c)) = []" "watchKeys (ClearWatch (ClearMulti c)) = []"
proof -
  have "and (and x (not f)) f = 0" "and (and (and (and x (not f)) (not g)) (not h)) f = 0" for x f g h :: "32 word"
    by (rule bit_word_eqI; auto simp: bit_simps)+
  then show "IsFlagOn ClientFlag_multi (ClearWatch (ClearMulti c)) = False" "IsFlagOn ClientFlag_dirty (ClearWatch (ClearMulti c)) = False"
    "queueCmds (ClearWatch (ClearMulti c)) = []" "watchKeys (ClearWatch (ClearMulti c)) = []"
    by (simp_all add: ClearWatch_def ClearMulti_def ClearFlag_def IsFlagOn_def)
qed

text \<open>C16: EXEC of a dirty client executes none of the queued commands: it replies with a null array, and
  ends the transaction and the watches.\<close>

theorem exec_of_dirty_aborts:
  assumes "Current s = Some (i, c)" "IsFlagOn ClientFlag_multi c" "\<not> IsFlagOn ClientFlag_wrongExec c" "is_dirty i s"
  shows "\<exists>s' c'. exec_cmd t ps (Some b) s = Some (QError_ok, FormatNullArray (Some b), s') \<and> same_store s s' \<and>
    map_of (clients s') i = Some c' \<and> queueCmds c' = [] \<and> watchKeys c' = [] \<and> out c' = out c \<and>
    \<not> IsFlagOn ClientFlag_multi c' \<and> \<not> IsFlagOn ClientFlag_dirty c' \<and>
    (\<forall>j. j \<noteq> i \<longrightarrow> map_of (clients s') j = map_of (clients s) j)"
proof -
  have c: "map_of (clients s) i = Some c" using assms(1) by (auto simp: Current_def split: option.splits)
  then have "IsFlagOn ClientFlag_dirty c" using assms(4) by (auto simp: is_dirty_def)
  then have "exec_cmd t ps (Some b) s = Some (QError_ok, FormatNullArray (Some b), end_multi i s)"
    using assms(1-3) by (simp add: exec_cmd_def Client_Exec_def Let_def)
  moreover have "end_multi i s = put_client i (ClearWatch (ClearMulti c)) s" using c by (simp add: end_multi_def)
  moreover have "out (ClearWatch (ClearMulti c)) = out c" by (simp add: ClearWatch_def ClearMulti_def ClearFlag_def)
  ultimately show ?thesis using ended_client [of c] by (auto simp: put_client_def update_conv')
qed


lemma vis_at_clients [simp]: "vis_at d (s\<lparr>clients := x\<rparr>) = vis_at d (s :: server)" "vis_at d (s\<lparr>current := y\<rparr>) = vis_at d (s :: server)"
  "vis_at d (put_client i c s) = vis_at d (s :: server)" "vis_at d (send i b s) = vis_at d s"
  by (auto simp: vis_at_simps fun_eq_iff put_client_def send_def split: option.split)

text \<open>The bytes of an error.\<close>

definition error_bytes :: "QError \<Rightarrow> string" where
  "error_bytes e = (case ReplyError e (Some []) of Some (Some b) \<Rightarrow> b | _ \<Rightarrow> [])"

lemma send_error_bytes: "e \<in> {QError_param, QError_unknowCmd} \<Longrightarrow> send_error i e s = Some (send i (error_bytes e) s)"
  by (auto simp: send_error_def error_bytes_def ReplyError_def)

text \<open>Monitors get a line; nothing else happens to the store or to another client.\<close>

lemma feed_loop_others:
  "feed_loop b is s = (kept, s') \<Longrightarrow> (\<forall>d. vis_at d s' = vis_at d s) \<and> (\<forall>j. j \<notin> set is \<longrightarrow> map_of (clients s') j = map_of (clients s) j)"
proof (induction b "is" s arbitrary: kept s' rule: feed_loop.induct)
  case (2 b i ist s)
  show ?case
  proof (cases "map_of (clients s) i")
    case None
    then show ?thesis using "2.IH"(1) [OF None] "2.prems" by simp
  next
    case (Some c)
    let ?s = "put_client i (SendPacket b c) s"
    obtain l where l: "feed_loop b ist ?s = (l, s')" using "2.prems" Some by (auto split: prod.splits)
    have "vis_at d ?s = vis_at d s" "j \<noteq> i \<Longrightarrow> map_of (clients ?s) j = map_of (clients s) j" for d j
      by simp_all (simp add: put_client_def update_conv')
    then show ?thesis using "2.IH"(2) [OF Some l] by simp
  qed
qed simp

lemma FeedMonitors_others:
  assumes "FeedMonitors L i params s = Some s'"
  shows "vis_at d s' = vis_at d s" "j \<notin> set (monitors s) \<Longrightarrow> map_of (clients s') j = map_of (clients s) j"
proof -
  have m: "vis_at d (x\<lparr>monitors := y\<rparr>) = vis_at d (x :: server)" for x y by (simp add: vis_at_simps fun_eq_iff)
  obtain kept x b where "s' = s \<or> feed_loop b (monitors s) s = (kept, x) \<and> s' = x\<lparr>monitors := kept\<rparr>"
    using assms by (auto simp: FeedMonitors_def split: if_splits option.splits prod.splits)
  then show "vis_at d s' = vis_at d s" "j \<notin> set (monitors s) \<Longrightarrow> map_of (clients s') j = map_of (clients s) j"
    using feed_loop_others [of b "monitors s" s kept x] m by auto
qed

lemma FeedMonitors_defined:
  "monitors s' = monitors s \<Longrightarrow> GetDB s' = GetDB s \<Longrightarrow> (FeedMonitors L i params s' = None) = (FeedMonitors L i params s = None)"
  by (auto simp: FeedMonitors_def split: option.splits prod.splits)

text \<open>What becomes of a client in a transaction that sends a request which is not about the transaction itself.\<close>

definition deferred :: "QCommandInfo option \<Rightarrow> QString list \<Rightarrow> qclient \<Rightarrow> qclient \<Rightarrow> bool" where
  "deferred info params c c' \<longleftrightarrow>
     (case info of
        None \<Rightarrow> queueCmds c' = queueCmds c \<and> flag c' = flag c \<and> out c' = out c @ error_bytes QError_unknowCmd
      | Some info \<Rightarrow>
          if \<not> CheckParamsCount info (int (length params))
          then queueCmds c' = queueCmds c \<and> flag c' = flag (SetFlag ClientFlag_wrongExec c) \<and> out c' = out c @ error_bytes QError_param
          else queueCmds c' = (if IsFlagOn ClientFlag_wrongExec c then queueCmds c else queueCmds c @ [params]) \<and>
            flag c' = flag c \<and> out c' = out c @ ''+QUEUED'' @ CRLF)"

text \<open>C17: Inside a transaction nothing of a request that is not about the transaction itself is executed. A known command with
  a right number of parameters is answered with QUEUED and joins the queue, except after a request was refused: then the
  answer is the same, but the command is dropped. With a wrong number of parameters it is refused, which marks the
  transaction; an unknown command is refused and does not mark it. No database and no client but the monitors is touched;
  the client is not a monitor itself, and the line for the monitors, if there are any, fits its buffer.\<close>

theorem multi_defers:
  assumes "map_of (clients s) i = Some c" "parser c = QProtoParser_new" "auth c" "IsFlagOn ClientFlag_multi c"
    "i \<notin> set (monitors s)" "FeedMonitors L i params (snd (SelectDB (cl_db c) s)) \<noteq> None"
    "params \<noteq> []" "map tolower (hd params) \<notin> set transaction_cmds" "length (SaveCommand params) < 2 ^ 31"
  shows "\<exists>s' c'. HandlePacket L t tm i (SaveCommand params) s = Some (length (SaveCommand params), s') \<and>
    (\<forall>d. vis_at d s' = vis_at d s) \<and> map_of (clients s') i = Some c' \<and>
    deferred (GetCommandInfo (map tolower (hd params)) t) params c c' \<and>
    (\<forall>j. j \<noteq> i \<and> j \<notin> set (monitors s) \<longrightarrow> map_of (clients s') j = map_of (clients s) j)"
proof -
  let ?p = "\<lparr>pa_multi = int (length params), pa_paramLen = -1, pa_numOfParam = length params, pa_params = params\<rparr>"
  have parse: "ParseRequest (SaveCommand params) 0 (parser c) = Some (QParseResult_ok, length (SaveCommand params), ?p)"
    using SaveCommand_ParseRequest [of "[]" params "[]" "parser c"] assms(2,9) by (simp add: QProtoParser_new_def)
  let ?c1 = "c\<lparr>parser := ?p\<rparr>" and ?cmd = "map tolower (hd params)"
  define s1 where "s1 = put_client i ?c1 (s\<lparr>current := Some i\<rparr>)"
  define s2 where "s2 = snd (SelectDB (cl_db c) s1)"
  have s1: "map_of (clients s1) i = Some ?c1" "monitors s1 = monitors s" "dbno s1 = dbno s" "store s1 = store s"
    by (simp_all add: s1_def put_client_def update_conv')
  have s2: "clients s2 = clients s1" "vis_at d s2 = vis_at d s1" "monitors s2 = monitors s"
    "GetDB s2 = GetDB (snd (SelectDB (cl_db c) s))" "monitors (snd (SelectDB (cl_db c) s)) = monitors s" for d
    using s1 by (auto simp: s2_def SelectDB_def GetDB_def)
  obtain s3 where s3: "FeedMonitors L i params s2 = Some s3"
    using FeedMonitors_defined [of s2 "snd (SelectDB (cl_db c) s)" L i params] s2(3,4,5) assms(6) by auto
  have v3: "vis_at d s3 = vis_at d s" "map_of (clients s3) i = Some ?c1"
    "j \<noteq> i \<Longrightarrow> j \<notin> set (monitors s) \<Longrightarrow> map_of (clients s3) j = map_of (clients s) j" for d j
    using FeedMonitors_others [OF s3] s2(1,2,3) assms(5) s1(1)
    by (simp_all add: s1_def) (simp_all add: put_client_def update_conv')
  have fl: "IsFlagOn f ?c1 = IsFlagOn f c" for f by (simp add: IsFlagOn_def)
  have "\<exists>s4 c4. dispatch L t tm i ?c1 params s1 = Some s4 \<and> (\<forall>d. vis_at d s4 = vis_at d s) \<and> map_of (clients s4) i = Some c4 \<and>
      deferred (GetCommandInfo ?cmd t) params c c4 \<and>
      (\<forall>j. j \<noteq> i \<and> j \<notin> set (monitors s) \<longrightarrow> map_of (clients s4) j = map_of (clients s) j)"
  proof (cases "GetCommandInfo ?cmd t")
    case None
    then show ?thesis
      using s3 v3 send_error_bytes [of QError_unknowCmd i s3]
      by (simp add: dispatch_def Let_def s2_def [symmetric] deferred_def)
        (simp add: send_def put_client_def update_conv' SendPacket_def)
  next
    case (Some info)
    have d: "dispatch L t tm i ?c1 params s1 = queue_cmd i ?c1 params info s3"
      using Some s3 v3(2) assms(4,8) fl by (simp add: dispatch_def Let_def s2_def [symmetric])
    have m: "IsFlagOn ClientFlag_multi (SendPacket b ?c1)" for b using assms(4) by (simp add: IsFlagOn_def SendPacket_def)
    show ?thesis
    proof (cases "CheckParamsCount info (int (length params))")
      case True
      then show ?thesis using Some v3 fl unfolding d queue_cmd_def deferred_def
        by (simp add: send_def put_client_def update_conv') (auto simp: SendPacket_def vis_at_simps fun_eq_iff)
    next
      case False
      then show ?thesis using Some v3 fl m send_error_bytes [of QError_param i s3] unfolding d queue_cmd_def deferred_def
        by (simp add: send_def put_client_def update_conv' FlagExecWrong_def)
          (auto simp: SendPacket_def SetFlag_def vis_at_simps fun_eq_iff)
    qed
  qed
  then obtain s4 c4 where s4: "dispatch L t tm i ?c1 params s1 = Some s4" "\<forall>d. vis_at d s4 = vis_at d s"
    "map_of (clients s4) i = Some c4" "deferred (GetCommandInfo ?cmd t) params c c4"
    "\<forall>j. j \<noteq> i \<and> j \<notin> set (monitors s) \<longrightarrow> map_of (clients s4) j = map_of (clients s) j" by blast
  have "handle_request L t tm i s1 = Some (False, s4)"
    using s1(1) assms(3,7) s4(1) by (simp add: handle_request_def)
  then have h: "HandlePacket L t tm i (SaveCommand params) s = Some (length (SaveCommand params), Client_Reset i s4)"
    using parse assms(1) by (simp add: HandlePacket_def Let_def finish_request_def s1_def)
  let ?c5 = "c4\<lparr>parser := Parser_Reset (parser c4)\<rparr>"
  have "deferred (GetCommandInfo ?cmd t) params c ?c5" using s4(4) by (auto simp: deferred_def split: option.splits)
  then show ?thesis
    using h s4 by (intro exI [of _ "Client_Reset i s4"] exI [of _ ?c5]) (simp add: Client_Reset_def put_client_def update_conv')
qed

text \<open>Two clients, the first of which is being served.\<close>

definition two_clients :: "qclient \<Rightarrow> server" where
  "two_clients c = (Store_Init 1 server_new)\<lparr>clients := [(7, c), (8, client_new)], current := Some 7\<rparr>"

lemma two_clients [simp]:
  "store_ok (two_clients c)" "Current (two_clients c) = Some (7, c)" "dirtyKeys (two_clients c) = []"
  "map_of (clients (two_clients c)) 7 = Some c" "monitors (two_clients c) = []"
  by (simp_all add: two_clients_def Current_def) (simp_all add: Store_Init_def Let_def server_new_def)

theorem watch_guards_witness:
  "\<exists>s1 s2. watch_cmd [''watch'', ''a'', ''k''] (Some []) (two_clients client_new) = Some (QError_ok, FormatOK (Some []), s1) \<and>
    vis s1 = vis (two_clients client_new) \<and>
    Propogate [''set'', ''k'', ''v''] (s1\<lparr>current := Some 8\<rparr>) = Some s2 \<and> is_dirty 7 s2"
  by (rule watch_guards [of "two_clients client_new" 7 client_new])
    (simp_all add: client_new_def IsFlagOn_def watch_known_def watch_set_def written_def)

theorem exec_of_dirty_aborts_witness:
  "\<exists>s' c'. exec_cmd [] [''exec''] (Some []) (two_clients (client_new\<lparr>flag := 3, queueCmds := [[''flushall'']]\<rparr>)) =
      Some (QError_ok, FormatNullArray (Some []), s') \<and>
    same_store (two_clients (client_new\<lparr>flag := 3, queueCmds := [[''flushall'']]\<rparr>)) s' \<and>
    map_of (clients s') 7 = Some c' \<and> queueCmds c' = []"
proof -
  let ?c = "client_new\<lparr>flag := 3, queueCmds := [[''flushall'']]\<rparr>"
  have "IsFlagOn ClientFlag_multi ?c" "\<not> IsFlagOn ClientFlag_wrongExec ?c" "is_dirty 7 (two_clients ?c)"
    by (simp_all add: IsFlagOn_def is_dirty_def ClientFlag_multi_def ClientFlag_wrongExec_def ClientFlag_dirty_def)
  then show ?thesis using exec_of_dirty_aborts [of "two_clients ?c" 7 ?c "[]" "[''exec'']" "[]"] by auto
qed

theorem multi_defers_witness:
  "(\<exists>s' c'. HandlePacket sample_libs (Table_Init sample_libs) \<lparr>t_sec = 0, t_begin = 0, t_end = 0\<rparr> 7
      (SaveCommand [''GET'', ''k'']) ((two_clients (client_new\<lparr>flag := 1, auth := True\<rparr>))\<lparr>monitors := [8]\<rparr>) =
        Some (length (SaveCommand [''GET'', ''k'']), s') \<and>
    map_of (clients s') 7 = Some c' \<and> queueCmds c' = [[''GET'', ''k'']])"
proof -
  let ?c = "client_new\<lparr>flag := 1, auth := True\<rparr>" and ?L = sample_libs
  let ?s = "(two_clients ?c)\<lparr>monitors := [8]\<rparr>"
  have "(''get'', QAttr_read, 2, Plain get_cmd) \<in> set (s_info ?L)" by (simp add: s_info_def)
  then have "(''get'', info_of (''get'', QAttr_read, 2, Plain get_cmd)) \<in> set (Table_Init ?L)"
    by (force simp: Table_Init_entries)
  then have "table_find ''get'' (Table_Init ?L) = Some (info_of (''get'', QAttr_read, 2, Plain get_cmd))"
    using table_find_Some [OF Table_Init_distinct] by blast
  moreover have "map tolower ''GET'' = ''get''" by code_simp
  moreover have "length (SaveCommand [''GET'', ''k'']) = 20" by code_simp
  moreover have "FeedMonitors ?L 7 [''GET'', ''k''] (snd (SelectDB (cl_db ?c) ?s)) \<noteq> None"
  proof -
    have "show_int 0 = ''0''" by code_simp
    moreover have "snd (SelectDB (cl_db ?c) ?s) = ?s" "GetDB ?s = 0" "monitors ?s = [8]"
      by (simp_all add: SelectDB_def GetDB_def two_clients_def client_new_def Store_Init_def Let_def server_new_def)
    ultimately show ?thesis
      by (simp add: FeedMonitors_def monitor_line_def Let_def sample_libs_def cstr_def split: prod.split)
  qed
  ultimately show ?thesis
    using multi_defers [of ?s 7 ?c ?L "[''GET'', ''k'']" "Table_Init ?L" "\<lparr>t_sec = 0, t_begin = 0, t_end = 0\<rparr>"]
    by (auto simp: client_new_def IsFlagOn_def ClientFlag_multi_def ClientFlag_wrongExec_def transaction_cmds_def
        GetCommandInfo_def info_of_def CheckParamsCount_def deferred_def)
qed

end
