(* ===== verification/Buffers.thy ===== *)
theory Buffers
  imports Proto
begin

text \<open>
  The byte buffers of QBase: UnboundedBuffer.h/.cc and the ring buffer of Buffer.h. Both implement the queue of
  the locale \<open>byte_queue\<close>.

  A position is a number; the arithmetic of \<open>size_t\<close> is written out where it wraps around. \<^const>\<open>None\<close>
  is a failed assertion or an access outside of the memory.
\<close>

subsection \<open>Memory\<close>

text \<open>\<open>memcpy\<close> to and from a block.\<close>

definition mem_put :: "nat \<Rightarrow> string \<Rightarrow> string \<Rightarrow> string option" where
  "mem_put p xs buf = (if p + length xs \<le> length buf then Some (take p buf @ xs @ drop (p + length xs) buf) else None)"

definition mem_get :: "nat \<Rightarrow> nat \<Rightarrow> string \<Rightarrow> string option" where
  "mem_get p n buf = (if p + n \<le> length buf then Some (take n (drop p buf)) else None)"

definition resize_mem :: "nat \<Rightarrow> string \<Rightarrow> string" where
  "resize_mem n buf = take n buf @ replicate (n - length buf) (CHR 0x00)"

subsection \<open>The unbounded buffer\<close>

record UnboundedBuffer =
  ub_readPos :: nat
  ub_writePos :: nat
  ub_buffer :: string

definition UnboundedBuffer_new :: UnboundedBuffer where
  "UnboundedBuffer_new = \<lparr>ub_readPos = 0, ub_writePos = 0, ub_buffer = []\<rparr>"

definition MAX_BUFFER_SIZE :: nat where "MAX_BUFFER_SIZE = (2 ^ 64 - 1) div 2"

definition ub_ReadableSize :: "UnboundedBuffer \<Rightarrow> nat" where
  "ub_ReadableSize b = ub_writePos b - ub_readPos b"

definition ub_WritableSize :: "UnboundedBuffer \<Rightarrow> nat" where
  "ub_WritableSize b = length (ub_buffer b) - ub_writePos b"

definition ub_IsEmpty :: "UnboundedBuffer \<Rightarrow> bool" where
  "ub_IsEmpty b \<longleftrightarrow> ub_ReadableSize b = 0"

definition ub_AdjustWritePtr :: "nat \<Rightarrow> UnboundedBuffer \<Rightarrow> UnboundedBuffer" where
  "ub_AdjustWritePtr n b = b\<lparr>ub_writePos := ub_writePos b + n\<rparr>"

definition ub_AdjustReadPtr :: "nat \<Rightarrow> UnboundedBuffer \<Rightarrow> UnboundedBuffer" where
  "ub_AdjustReadPtr n b = b\<lparr>ub_readPos := ub_readPos b + n\<rparr>"

text \<open>The loop of \<open>_AssureSpace\<close> grows the block by a half until the bytes fit behind the unread ones.\<close>

function AssureSpace_loop :: "nat \<Rightarrow> nat \<Rightarrow> UnboundedBuffer \<Rightarrow> UnboundedBuffer" where
  "AssureSpace_loop nSize maxSize b =
     (if nSize \<le> ub_WritableSize b + ub_readPos b then b
      else if maxSize < 64 then AssureSpace_loop nSize 64 (b\<lparr>ub_buffer := resize_mem 64 (ub_buffer b)\<rparr>)
      else if maxSize \<le> MAX_BUFFER_SIZE then
        AssureSpace_loop nSize (maxSize + maxSize div 2)
          (b\<lparr>ub_buffer := resize_mem (maxSize + maxSize div 2) (ub_buffer b)\<rparr>)
      else b)"
  by pat_completeness auto
termination
  by (relation "measure (\<lambda>(n, m, b). 2 * MAX_BUFFER_SIZE + 1 - m)") (auto simp: MAX_BUFFER_SIZE_def)

declare AssureSpace_loop.simps [simp del]

definition ub_AssureSpace :: "nat \<Rightarrow> UnboundedBuffer \<Rightarrow> UnboundedBuffer" where
  "ub_AssureSpace nSize b =
     (if nSize \<le> ub_WritableSize b then b
      else
        let b = AssureSpace_loop nSize (length (ub_buffer b)) b
        in if 0 < ub_readPos b then
             (let dataSize = ub_ReadableSize b
              in b\<lparr>ub_buffer := take dataSize (drop (ub_readPos b) (ub_buffer b)) @ drop dataSize (ub_buffer b),
                   ub_readPos := 0, ub_writePos := dataSize\<rparr>)
           else b)"

definition ub_PushDataAt :: "string \<Rightarrow> nat \<Rightarrow> UnboundedBuffer \<Rightarrow> (nat \<times> UnboundedBuffer) option" where
  "ub_PushDataAt xs offset b =
     (if xs = [] then Some (0, b)
      else if ub_ReadableSize b = MAX_BUFFER_SIZE then Some (0, b)
      else
        let b = ub_AssureSpace (length xs + offset) b
        in if ub_WritableSize b < length xs + offset then None
           else map_option (\<lambda>buf. (length xs, b\<lparr>ub_buffer := buf\<rparr>)) (mem_put (ub_writePos b + offset) xs (ub_buffer b)))"

definition ub_PushData :: "string \<Rightarrow> UnboundedBuffer \<Rightarrow> (nat \<times> UnboundedBuffer) option" where
  "ub_PushData xs b = map_option (\<lambda>(n, b). (n, ub_AdjustWritePtr n b)) (ub_PushDataAt xs 0 b)"

definition ub_PeekDataAt :: "nat \<Rightarrow> nat \<Rightarrow> UnboundedBuffer \<Rightarrow> string option" where
  "ub_PeekDataAt nSize offset b =
     (let dataSize = ub_ReadableSize b
      in if nSize = 0 \<or> dataSize \<le> offset then Some []
         else mem_get (ub_readPos b + offset) (if dataSize < nSize + offset then dataSize - offset else nSize) (ub_buffer b))"

definition ub_PeekData :: "nat \<Rightarrow> UnboundedBuffer \<Rightarrow> (string \<times> UnboundedBuffer) option" where
  "ub_PeekData nSize b = map_option (\<lambda>xs. (xs, ub_AdjustReadPtr (length xs) b)) (ub_PeekDataAt nSize 0 b)"

text \<open>The assertion of \<open>Shrink\<close> is about the capacity of the vector, which the library chooses.\<close>

definition ub_Shrink :: "nat \<Rightarrow> bool \<Rightarrow> UnboundedBuffer \<Rightarrow> UnboundedBuffer option" where
  "ub_Shrink capacity tight b =
     (if capacity \<noteq> length (ub_buffer b) then None
      else if ub_buffer b = [] then (if ub_readPos b = 0 \<and> ub_writePos b = 0 then Some b else None)
      else
        let dataSize = ub_ReadableSize b
        in if \<not> tight \<and> length (ub_buffer b) div 2 < dataSize then Some b
           else map_option (\<lambda>tmp. \<lparr>ub_readPos = 0, ub_writePos = dataSize, ub_buffer = tmp\<rparr>)
                  (mem_get (ub_readPos b) dataSize (ub_buffer b)))"

definition ub_Clear :: "UnboundedBuffer \<Rightarrow> UnboundedBuffer" where
  "ub_Clear b = b\<lparr>ub_readPos := 0, ub_writePos := 0\<rparr>"


subsection \<open>What the unbounded buffer promises\<close>

text \<open>A queue of bytes with limited room, of which both buffers are implementations.\<close>

locale byte_queue =
  fixes ok :: "'b \<Rightarrow> bool" and contents :: "'b \<Rightarrow> string" and room :: "'b \<Rightarrow> nat"
    and push :: "string \<Rightarrow> 'b \<Rightarrow> 'b option" and skip :: "nat \<Rightarrow> 'b \<Rightarrow> 'b" and peek :: "nat \<Rightarrow> 'b \<Rightarrow> string option"
  assumes push_step: "ok b \<Longrightarrow> length xs \<le> room b \<Longrightarrow> \<exists>b'. push xs b = Some b' \<and> ok b' \<and> contents b' = contents b @ xs"
    and skip_step: "ok b \<Longrightarrow> n \<le> length (contents b) \<Longrightarrow> ok (skip n b) \<and> contents (skip n b) = drop n (contents b)"
    and peek_step: "ok b \<Longrightarrow> n \<le> length (contents b) \<Longrightarrow> peek n b = Some (take n (contents b))"
begin

text \<open>What is pushed comes out behind what was there.\<close>

lemma push_then_peek:
  assumes "ok b" "length xs \<le> room b"
  obtains b' where "push xs b = Some b'" "ok b'" "contents b' = contents b @ xs"
    "peek (length (contents b) + length xs) b' = Some (contents b @ xs)"
    "contents (skip (length (contents b)) b') = xs"
proof -
  obtain b' where b': "push xs b = Some b'" "ok b'" "contents b' = contents b @ xs" using push_step [OF assms] by blast
  then show ?thesis
    using that [of b'] peek_step [OF b'(2), of "length (contents b) + length xs"]
      skip_step [OF b'(2), of "length (contents b)"] by simp
qed

end

definition ub_ok :: "UnboundedBuffer \<Rightarrow> bool" where
  "ub_ok b \<longleftrightarrow> ub_readPos b \<le> ub_writePos b \<and> ub_writePos b \<le> length (ub_buffer b)"

definition ub_contents :: "UnboundedBuffer \<Rightarrow> string" where
  "ub_contents b = take (ub_ReadableSize b) (drop (ub_readPos b) (ub_buffer b))"

lemma ub_contents_length [simp]: "ub_ok b \<Longrightarrow> length (ub_contents b) = ub_ReadableSize b"
  by (auto simp: ub_contents_def ub_ok_def ub_ReadableSize_def min_def)

lemma AssureSpace_loop_keeps:
  assumes "ub_ok b" "maxSize \<noteq> 0 \<longrightarrow> length (ub_buffer b) = maxSize" "maxSize = 0 \<longrightarrow> ub_buffer b = []"
  shows "\<exists>buf. AssureSpace_loop n maxSize b = b\<lparr>ub_buffer := ub_buffer b @ buf\<rparr> \<and>
    (n \<le> ub_WritableSize (AssureSpace_loop n maxSize b) + ub_readPos b \<or> MAX_BUFFER_SIZE < length (ub_buffer b @ buf))"
  using assms
proof (induction n maxSize b rule: AssureSpace_loop.induct)
  case (1 n m b)
  have len: "length (ub_buffer b) = m" using "1.prems" by (cases "m = 0") auto
  have grow: "ub_ok (b\<lparr>ub_buffer := resize_mem k (ub_buffer b)\<rparr>)" "length (resize_mem k (ub_buffer b)) = k"
    "resize_mem k (ub_buffer b) = ub_buffer b @ replicate (k - m) (CHR 0x00)" if "m \<le> k" for k
    using that "1.prems"(1) len by (simp_all add: ub_ok_def resize_mem_def)
  consider "n \<le> ub_WritableSize b + ub_readPos b" | "\<not> n \<le> ub_WritableSize b + ub_readPos b" "m < 64"
    | "\<not> n \<le> ub_WritableSize b + ub_readPos b" "\<not> m < 64" "m \<le> MAX_BUFFER_SIZE"
    | "\<not> n \<le> ub_WritableSize b + ub_readPos b" "\<not> m < 64" "MAX_BUFFER_SIZE < m" by linarith
  then show ?case
  proof cases
    case 1
    then show ?thesis by (intro exI [of _ "[]"]) (simp add: AssureSpace_loop.simps)
  next
    case 2
    let ?b = "b\<lparr>ub_buffer := resize_mem 64 (ub_buffer b)\<rparr>"
    from "1.IH"(1) [OF 2] obtain buf where "AssureSpace_loop n 64 ?b = ?b\<lparr>ub_buffer := ub_buffer ?b @ buf\<rparr>"
      "n \<le> ub_WritableSize (AssureSpace_loop n 64 ?b) + ub_readPos b \<or> MAX_BUFFER_SIZE < length (ub_buffer ?b @ buf)"
      using grow [of 64] 2 by auto
    moreover have "AssureSpace_loop n m b = AssureSpace_loop n 64 ?b" using 2 by (simp add: AssureSpace_loop.simps [of n m])
    ultimately show ?thesis using grow(3) [of 64] 2 by (intro exI [of _ "replicate (64 - m) (CHR 0x00) @ buf"]) simp
  next
    case 3
    let ?k = "m + m div 2"
    let ?b = "b\<lparr>ub_buffer := resize_mem ?k (ub_buffer b)\<rparr>"
    from "1.IH"(2) [OF 3] obtain buf where "AssureSpace_loop n ?k ?b = ?b\<lparr>ub_buffer := ub_buffer ?b @ buf\<rparr>"
      "n \<le> ub_WritableSize (AssureSpace_loop n ?k ?b) + ub_readPos b \<or> MAX_BUFFER_SIZE < length (ub_buffer ?b @ buf)"
      using grow [of ?k] 3 by auto
    moreover have "AssureSpace_loop n m b = AssureSpace_loop n ?k ?b" using 3 by (simp add: AssureSpace_loop.simps [of n m])
    ultimately show ?thesis using grow(3) [of ?k] by (intro exI [of _ "replicate (m div 2) (CHR 0x00) @ buf"]) simp
  next
    case 4
    then show ?thesis using len by (intro exI [of _ "[]"]) (simp add: AssureSpace_loop.simps)
  qed
qed

lemma ub_AssureSpace_step:
  assumes "ub_ok b" "ub_ReadableSize b + n \<le> MAX_BUFFER_SIZE"
  shows "ub_ok (ub_AssureSpace n b)" "ub_contents (ub_AssureSpace n b) = ub_contents b" "n \<le> ub_WritableSize (ub_AssureSpace n b)"
proof -
  have "ub_ok (ub_AssureSpace n b) \<and> ub_contents (ub_AssureSpace n b) = ub_contents b \<and> n \<le> ub_WritableSize (ub_AssureSpace n b)"
  proof (cases "n \<le> ub_WritableSize b")
    case True
    then show ?thesis using assms(1) by (simp add: ub_AssureSpace_def)
  next
    case False
    obtain buf where g: "AssureSpace_loop n (length (ub_buffer b)) b = b\<lparr>ub_buffer := ub_buffer b @ buf\<rparr>"
      "n \<le> ub_WritableSize (b\<lparr>ub_buffer := ub_buffer b @ buf\<rparr>) + ub_readPos b \<or> MAX_BUFFER_SIZE < length (ub_buffer b @ buf)"
      using AssureSpace_loop_keeps [OF assms(1), of "length (ub_buffer b)" n] by auto
    have room: "n + ub_ReadableSize b \<le> length (ub_buffer b @ buf)"
      using g(2) assms by (auto simp: ub_WritableSize_def ub_ReadableSize_def ub_ok_def)
    have "ub_contents b = take (ub_ReadableSize b) (drop (ub_readPos b) (ub_buffer b @ buf))"
      using assms(1) by (simp add: ub_contents_def ub_ok_def ub_ReadableSize_def)
    then show ?thesis
      using False g(1) room assms(1)
      by (auto simp: ub_AssureSpace_def Let_def ub_ok_def ub_contents_def ub_ReadableSize_def ub_WritableSize_def)
  qed
  then show "ub_ok (ub_AssureSpace n b)" "ub_contents (ub_AssureSpace n b) = ub_contents b"
    "n \<le> ub_WritableSize (ub_AssureSpace n b)" by simp_all
qed

lemma take_drop_put:
  assumes "r \<le> w" "w \<le> length buf"
  shows "take (w + length xs - r) (drop r (take w buf @ xs @ ys)) = take (w - r) (drop r buf) @ xs"
proof -
  have "drop r (take w buf @ xs @ ys) = take (w - r) (drop r buf) @ xs @ ys"
    using assms by (cases "r = w") (simp_all add: drop_take)
  moreover have "length (take (w - r) (drop r buf)) = w - r" using assms by simp
  ultimately show ?thesis using assms by simp
qed

lemma ub_PushData_step:
  assumes "ub_ok b" "length xs \<le> MAX_BUFFER_SIZE - ub_ReadableSize b"
  shows "\<exists>b'. ub_PushData xs b = Some (length xs, b') \<and> ub_ok b' \<and> ub_contents b' = ub_contents b @ xs"
proof (cases "xs = []")
  case True
  then show ?thesis using assms(1) by (simp add: ub_PushData_def ub_PushDataAt_def ub_AdjustWritePtr_def)
next
  case False
  then have lt: "ub_ReadableSize b + length xs \<le> MAX_BUFFER_SIZE" "ub_ReadableSize b \<noteq> MAX_BUFFER_SIZE"
    using assms(2) by (cases xs; simp)+
  let ?b = "ub_AssureSpace (length xs) b"
  note s = ub_AssureSpace_step [OF assms(1) lt(1)]
  let ?buf = "take (ub_writePos ?b) (ub_buffer ?b) @ xs @ drop (ub_writePos ?b + length xs) (ub_buffer ?b)"
  let ?b' = "?b\<lparr>ub_buffer := ?buf, ub_writePos := ub_writePos ?b + length xs\<rparr>"
  have "mem_put (ub_writePos ?b) xs (ub_buffer ?b) = Some ?buf"
    using s(1,3) by (auto simp: mem_put_def ub_ok_def ub_WritableSize_def)
  then have "ub_PushData xs b = Some (length xs, ?b')"
    using False lt(2) s(3) by (simp add: ub_PushData_def ub_PushDataAt_def Let_def ub_AdjustWritePtr_def)
  moreover have "ub_ok ?b'" using s(1,3) by (auto simp: ub_ok_def ub_WritableSize_def)
  moreover have "ub_contents ?b' = ub_contents ?b @ xs"
  proof -
    have "ub_contents ?b' = take (ub_writePos ?b + length xs - ub_readPos ?b) (drop (ub_readPos ?b) ?buf)"
      by (simp add: ub_contents_def ub_ReadableSize_def)
    also have "\<dots> = take (ub_writePos ?b - ub_readPos ?b) (drop (ub_readPos ?b) (ub_buffer ?b)) @ xs"
      using s(1) by (intro take_drop_put) (simp_all add: ub_ok_def)
    finally show ?thesis by (simp add: ub_contents_def ub_ReadableSize_def)
  qed
  ultimately show ?thesis using s(2) by simp
qed


lemma ub_skip_step:
  "ub_ok b \<Longrightarrow> n \<le> ub_ReadableSize b \<Longrightarrow>
    ub_ok (ub_AdjustReadPtr n b) \<and> ub_contents (ub_AdjustReadPtr n b) = drop n (ub_contents b)"
  by (auto simp: ub_ok_def ub_AdjustReadPtr_def ub_contents_def ub_ReadableSize_def drop_take add.commute)

lemma ub_peek_step: "ub_ok b \<Longrightarrow> n \<le> ub_ReadableSize b \<Longrightarrow> ub_PeekDataAt n 0 b = Some (take n (ub_contents b))"
  by (auto simp: ub_ok_def ub_PeekDataAt_def Let_def mem_get_def ub_contents_def ub_ReadableSize_def min_def)

interpretation ub: byte_queue ub_ok ub_contents "\<lambda>b. MAX_BUFFER_SIZE - ub_ReadableSize b"
  "\<lambda>xs b. map_option snd (ub_PushData xs b)" ub_AdjustReadPtr "\<lambda>n. ub_PeekDataAt n 0"
proof unfold_locales
  fix b :: UnboundedBuffer and xs :: string and n :: nat
  assume b: "ub_ok b"
  show "\<exists>b'. map_option snd (ub_PushData xs b) = Some b' \<and> ub_ok b' \<and> ub_contents b' = ub_contents b @ xs"
    if "length xs \<le> MAX_BUFFER_SIZE - ub_ReadableSize b" using ub_PushData_step [OF b that] by auto
  show "ub_ok (ub_AdjustReadPtr n b) \<and> ub_contents (ub_AdjustReadPtr n b) = drop n (ub_contents b)"
    if "n \<le> length (ub_contents b)" using ub_skip_step [OF b] that b by simp
  show "ub_PeekDataAt n 0 b = Some (take n (ub_contents b))" if "n \<le> length (ub_contents b)"
    using ub_peek_step [OF b] that b by simp
qed

subsection \<open>The ring buffer\<close>

text \<open>\<open>Buffer\<close> is the instance on a vector. Its size is a power of two; one byte always stays free.\<close>

record CircularBuffer =
  cb_maxSize :: nat
  cb_readPos :: nat
  cb_writePos :: nat
  cb_buffer :: string

text \<open>
  \<open>roundSize <<= 1\<close> on \<open>size_t\<close>: for a size above \<open>2 ^ 63\<close> it becomes zero and the loop does not end,
  which is the value \<^const>\<open>None\<close>.
\<close>

partial_function (option) RoundUp_loop :: "64 word \<Rightarrow> 64 word \<Rightarrow> 64 word option" where
  [code]: "RoundUp_loop size1 roundSize =
     (if roundSize < size1 then RoundUp_loop size1 (push_bit 1 roundSize) else Some roundSize)"

definition RoundUp2Power :: "64 word \<Rightarrow> 64 word option" where
  "RoundUp2Power size1 = (if size1 = 0 then Some 0 else RoundUp_loop size1 1)"

definition Buffer_new :: "64 word \<Rightarrow> CircularBuffer option" where
  "Buffer_new maxSize =
     map_option (\<lambda>m. \<lparr>cb_maxSize = unat m, cb_readPos = 0, cb_writePos = 0, cb_buffer = replicate (unat m) (CHR 0x00)\<rparr>)
       (RoundUp2Power maxSize)"

definition cb_InitCapacity :: "64 word \<Rightarrow> CircularBuffer \<Rightarrow> CircularBuffer option" where
  "cb_InitCapacity n b =
     (if 0 < n \<and> n \<le> 1024 * 1024 * 1024
      then map_option (\<lambda>m. b\<lparr>cb_maxSize := unat m, cb_buffer := resize_mem (unat m) (cb_buffer b)\<rparr>) (RoundUp2Power n)
      else None)"

text \<open>\<open>x & (maxSize_ - 1)\<close>, also for a difference that wraps around zero.\<close>

definition cb_mask :: "CircularBuffer \<Rightarrow> int \<Rightarrow> nat" where
  "cb_mask b x = nat (and x (int (cb_maxSize b) - 1))"

definition cb_IsEmpty :: "CircularBuffer \<Rightarrow> bool" where
  "cb_IsEmpty b \<longleftrightarrow> cb_writePos b = cb_readPos b"

definition cb_IsFull :: "CircularBuffer \<Rightarrow> bool" where
  "cb_IsFull b \<longleftrightarrow> cb_mask b (int (cb_writePos b) + 1) = cb_readPos b"

definition cb_ReadableSize :: "CircularBuffer \<Rightarrow> nat" where
  "cb_ReadableSize b = cb_mask b (int (cb_writePos b) - int (cb_readPos b))"

definition cb_WritableSize :: "CircularBuffer \<Rightarrow> nat" where
  "cb_WritableSize b = cb_maxSize b - cb_ReadableSize b - 1"

definition cb_AdjustWritePtr :: "nat \<Rightarrow> CircularBuffer \<Rightarrow> CircularBuffer" where
  "cb_AdjustWritePtr n b = b\<lparr>cb_writePos := cb_mask b (int (cb_writePos b) + int n)\<rparr>"

definition cb_AdjustReadPtr :: "nat \<Rightarrow> CircularBuffer \<Rightarrow> CircularBuffer" where
  "cb_AdjustReadPtr n b = b\<lparr>cb_readPos := cb_mask b (int (cb_readPos b) + int n)\<rparr>"

text \<open>A \<open>BufferSequence\<close> is a list of segments: an offset into the block and a length.\<close>

type_synonym segments = "(nat \<times> nat) list"

definition cb_GetDatum :: "nat \<Rightarrow> nat \<Rightarrow> CircularBuffer \<Rightarrow> segments option" where
  "cb_GetDatum maxSize offset b =
     (if maxSize = 0 \<or> cb_ReadableSize b \<le> offset then Some []
      else if cb_maxSize b \<le> cb_readPos b \<or> cb_maxSize b \<le> cb_writePos b then None
      else
        let readPos = cb_mask b (int (cb_readPos b) + int offset); writePos = cb_writePos b
        in if readPos = writePos then None
           else if readPos < writePos then Some [(readPos, min maxSize (writePos - readPos))]
           else
             let n1 = min maxSize (cb_maxSize b - readPos); nLeft = maxSize - n1
             in Some ((readPos, n1) # (if 0 < nLeft \<and> 0 < writePos then [(0, min nLeft writePos)] else [])))"

definition cb_GetSpace :: "nat \<Rightarrow> CircularBuffer \<Rightarrow> segments option" where
  "cb_GetSpace offset b =
     (if cb_maxSize b \<le> cb_readPos b \<or> cb_maxSize b \<le> cb_writePos b then None
      else if cb_WritableSize b \<le> offset + 1 then Some []
      else
        let readPos = cb_readPos b; writePos = cb_mask b (int (cb_writePos b) + int offset)
        in if writePos < readPos then
             (if readPos - writePos - 1 = 0 then None else Some [(writePos, readPos - writePos - 1)])
           else if readPos = 0 then Some [(writePos, cb_maxSize b - writePos - 1)]
           else Some ((writePos, cb_maxSize b - writePos) # (if 1 < readPos then [(0, readPos - 1)] else [])))"

text \<open>The bytes left for the start of the block are counted in an \<open>int\<close> of 32 bits.\<close>

definition cb_PushDataAt :: "string \<Rightarrow> nat \<Rightarrow> CircularBuffer \<Rightarrow> (bool \<times> CircularBuffer) option" where
  "cb_PushDataAt xs offset b =
     (if xs = [] then Some (True, b)
      else if cb_WritableSize b < offset + length xs then Some (False, b)
      else
        let readPos = cb_readPos b; writePos = cb_mask b (int (cb_writePos b) + int offset); nSize = length xs
        in if writePos < readPos then
             (if readPos - writePos \<le> nSize then None
              else map_option (\<lambda>buf. (True, b\<lparr>cb_buffer := buf\<rparr>)) (mem_put writePos xs (cb_buffer b)))
           else
             let availBytes1 = cb_maxSize b - writePos; availBytes2 = readPos
             in if availBytes1 + availBytes2 < 1 + nSize then None
                else if nSize + 1 \<le> availBytes1 then
                  map_option (\<lambda>buf. (True, b\<lparr>cb_buffer := buf\<rparr>)) (mem_put writePos xs (cb_buffer b))
                else
                  map_option (\<lambda>buf. (True, b\<lparr>cb_buffer := buf\<rparr>))
                    (Option.bind (mem_put writePos (take availBytes1 xs) (cb_buffer b))
                       (\<lambda>buf. let bytesLeft = signed_take_bit 31 (int (nSize - availBytes1))
                              in if 0 < bytesLeft then mem_put 0 (take (nat bytesLeft) (drop availBytes1 xs)) buf
                                 else Some buf)))"

definition cb_PushData :: "string \<Rightarrow> CircularBuffer \<Rightarrow> (bool \<times> CircularBuffer) option" where
  "cb_PushData xs b =
     (case cb_PushDataAt xs 0 b of
        None \<Rightarrow> None
      | Some (False, b) \<Rightarrow> Some (False, b)
      | Some (True, b) \<Rightarrow> Some (True, cb_AdjustWritePtr (length xs) b))"

text \<open>\<open>PeekDataAt\<close>: the inner \<^const>\<open>None\<close> is the result \<open>false\<close>.\<close>

definition cb_PeekDataAt :: "nat \<Rightarrow> nat \<Rightarrow> CircularBuffer \<Rightarrow> string option option" where
  "cb_PeekDataAt nSize offset b =
     (if nSize = 0 then Some (Some [])
      else if cb_ReadableSize b < nSize + offset then Some None
      else
        let writePos = cb_writePos b; readPos = cb_mask b (int (cb_readPos b) + int offset)
        in if readPos < writePos then
             (if writePos - readPos < nSize then None else map_option Some (mem_get readPos nSize (cb_buffer b)))
           else if readPos = writePos then None
           else
             let availBytes1 = cb_maxSize b - readPos; availBytes2 = writePos
             in if availBytes1 + availBytes2 < nSize then None
                else if nSize \<le> availBytes1 then map_option Some (mem_get readPos nSize (cb_buffer b))
                else
                  Option.bind (mem_get readPos availBytes1 (cb_buffer b)) (\<lambda>xs.
                    map_option (\<lambda>ys. Some (xs @ ys)) (mem_get 0 (nSize - availBytes1) (cb_buffer b))))"

definition cb_PeekData :: "nat \<Rightarrow> CircularBuffer \<Rightarrow> (string option \<times> CircularBuffer) option" where
  "cb_PeekData nSize b =
     (case cb_PeekDataAt nSize 0 b of
        None \<Rightarrow> None
      | Some None \<Rightarrow> Some (None, b)
      | Some (Some xs) \<Rightarrow> Some (Some xs, cb_AdjustReadPtr nSize b))"


subsection \<open>What the ring buffer promises\<close>

lemma unat_two_power: "k < 64 \<Longrightarrow> unat (2 ^ k :: 64 word) = 2 ^ k"
  using unat_of_nat [of "2 ^ k", where 'a = 64] power_strict_increasing [of k 64 "2 :: nat"] by simp

lemma RoundUp_loop_power:
  assumes "roundSize = 2 ^ k" "unat size1 \<le> 2 ^ (k + j)" "k + j < 64"
  shows "\<exists>i\<le>k + j. RoundUp_loop size1 roundSize = Some (2 ^ i) \<and> unat size1 \<le> 2 ^ i \<and> (k < i \<longrightarrow> 2 ^ (i - 1) < unat size1)"
  using assms
proof (induction j arbitrary: k roundSize)
  case 0
  then have "unat roundSize = 2 ^ k" by (simp add: unat_two_power)
  then have "\<not> roundSize < size1" using "0.prems" by (simp add: word_less_nat_alt)
  then show ?case using "0.prems" by (intro exI [of _ k]) (simp add: RoundUp_loop.simps)
next
  case (Suc j)
  have u: "unat roundSize = 2 ^ k" using Suc.prems by (simp add: unat_two_power)
  show ?case
  proof (cases "roundSize < size1")
    case True
    have "push_bit 1 roundSize = 2 ^ Suc k" using Suc.prems(1) by (simp add: push_bit_eq_mult)
    from Suc.IH [OF this] Suc.prems obtain i where "i \<le> Suc (k + j)" "RoundUp_loop size1 (push_bit 1 roundSize) = Some (2 ^ i)"
      "unat size1 \<le> 2 ^ i" "Suc k < i \<longrightarrow> 2 ^ (i - 1) < unat size1" by auto
    moreover have "2 ^ k < unat size1" using True u by (simp add: word_less_nat_alt)
    moreover from this calculation(3) have "k < i" by (metis not_less le_trans not_le power_increasing one_le_numeral)
    ultimately show ?thesis using True by (intro exI [of _ i]) (cases "i = Suc k"; simp add: RoundUp_loop.simps [of size1 roundSize])
  next
    case False
    then show ?thesis using u Suc.prems by (intro exI [of _ k]) (simp add: RoundUp_loop.simps word_less_nat_alt)
  qed
qed

lemma RoundUp_loop_diverges:
  assumes "RoundUp_loop size1 roundSize = Some y" "roundSize = 0 \<or> (\<exists>k<64. roundSize = 2 ^ k)"
  shows "size1 \<le> 2 ^ 63"
proof -
  have "(roundSize = 0 \<or> (\<exists>k<64. roundSize = 2 ^ k)) \<longrightarrow> size1 \<le> 2 ^ 63"
  proof (rule RoundUp_loop.raw_induct [where P = "\<lambda>s r y. (r = 0 \<or> (\<exists>k<64. r = 2 ^ k)) \<longrightarrow> s \<le> 2 ^ 63", OF _ assms(1)])
    fix loop :: "64 word \<Rightarrow> 64 word \<Rightarrow> 64 word option" and s r y :: "64 word"
    assume 1: "\<And>s r y. loop s r = Some y \<Longrightarrow> (r = 0 \<or> (\<exists>k<64. r = 2 ^ k)) \<longrightarrow> s \<le> 2 ^ 63"
      "(if r < s then loop s (push_bit 1 r) else Some r) = Some y"
    show "(r = 0 \<or> (\<exists>k<64. r = 2 ^ k)) \<longrightarrow> s \<le> 2 ^ 63"
    proof (cases "r < s")
      case True
      then have "loop s (push_bit 1 r) = Some y" using 1(2) by simp
      then have "(push_bit 1 r = 0 \<or> (\<exists>k<64. push_bit 1 r = 2 ^ k)) \<longrightarrow> s \<le> 2 ^ 63" by (rule 1(1))
      moreover have "push_bit 1 r = 0 \<or> (\<exists>k<64. push_bit 1 r = 2 ^ k)" if r: "r = 0 \<or> (\<exists>k<64. r = 2 ^ k)"
      proof (cases "r = 0")
        case False
        then obtain k where k: "k < 64" "r = 2 ^ k" using r by blast
        then have p: "push_bit 1 r = 2 ^ Suc k" by (simp add: push_bit_eq_mult)
        show ?thesis
        proof (cases "Suc k < 64")
          case False
          then have "k = 63" using k(1) by simp
          then show ?thesis using k(2) by simp
        qed (use p in blast)
      qed simp
      ultimately show ?thesis by blast
    next
      case False
      have "(2 :: 64 word) ^ k \<le> 2 ^ 63" if "k < 64" for k
        using that power_increasing [of k 63 "2 :: nat"] by (simp add: word_le_nat_alt unat_two_power)
      moreover have "s \<le> r" using False by simp
      ultimately show ?thesis by (metis order_trans word_zero_le)
    qed
  qed
  then show ?thesis using assms by blast
qed


definition cb_ok :: "CircularBuffer \<Rightarrow> bool" where
  "cb_ok b \<longleftrightarrow> (\<exists>k\<le>length (cb_buffer b). cb_maxSize b = 2 ^ k) \<and> length (cb_buffer b) = cb_maxSize b \<and>
     cb_readPos b < cb_maxSize b \<and> cb_writePos b < cb_maxSize b"

definition cb_contents :: "CircularBuffer \<Rightarrow> string" where
  "cb_contents b =
     (if cb_readPos b \<le> cb_writePos b then take (cb_writePos b - cb_readPos b) (drop (cb_readPos b) (cb_buffer b))
      else drop (cb_readPos b) (cb_buffer b) @ take (cb_writePos b) (cb_buffer b))"

lemma cb_mask_mod: "cb_ok b \<Longrightarrow> int (cb_mask b x) = x mod int (cb_maxSize b)"
  by (auto simp: cb_ok_def cb_mask_def mask_eq_exp_minus_1 [symmetric] take_bit_eq_mask [symmetric] take_bit_eq_mod)

lemma cb_mask_add:
  assumes "cb_ok b" "p < cb_maxSize b" "n < cb_maxSize b"
  shows "cb_mask b (int p + int n) = (if p + n < cb_maxSize b then p + n else p + n - cb_maxSize b)"
proof -
  have "int (cb_mask b (int p + int n)) = (int p + int n) mod int (cb_maxSize b)" using assms(1) by (rule cb_mask_mod)
  also have "\<dots> = int ((p + n) mod cb_maxSize b)" by (simp add: zmod_int)
  finally show ?thesis using assms(2,3) by (simp add: mod_if)
qed

lemma cb_ReadableSize_eq:
  assumes "cb_ok b"
  shows "cb_ReadableSize b = (if cb_readPos b \<le> cb_writePos b then cb_writePos b - cb_readPos b
    else cb_maxSize b + cb_writePos b - cb_readPos b)"
proof -
  let ?x = "int (cb_writePos b) - int (cb_readPos b)" and ?m = "int (cb_maxSize b)"
  have m: "int (cb_ReadableSize b) = ?x mod ?m" using cb_mask_mod [OF assms] by (simp add: cb_ReadableSize_def)
  have p: "cb_readPos b < cb_maxSize b" "cb_writePos b < cb_maxSize b" using assms by (auto simp: cb_ok_def)
  show ?thesis
  proof (cases "cb_readPos b \<le> cb_writePos b")
    case True
    then show ?thesis using m p by simp
  next
    case False
    have "?x mod ?m = (?x + ?m) mod ?m" by simp
    also have "\<dots> = ?x + ?m" using False p by (intro mod_pos_pos_trivial) auto
    finally show ?thesis using m p False by simp
  qed
qed

lemma cb_contents_length [simp]: "cb_ok b \<Longrightarrow> length (cb_contents b) = cb_ReadableSize b"
  by (auto simp: cb_contents_def cb_ReadableSize_eq cb_ok_def min_def)

lemma cb_skip_step:
  assumes "cb_ok b" "n \<le> cb_ReadableSize b"
  shows "cb_ok (cb_AdjustReadPtr n b) \<and> cb_contents (cb_AdjustReadPtr n b) = drop n (cb_contents b)"
proof -
  let ?r = "cb_readPos b" and ?w = "cb_writePos b" and ?m = "cb_maxSize b"
  have p: "?r < ?m" "?w < ?m" "length (cb_buffer b) = ?m" using assms(1) by (auto simp: cb_ok_def)
  have n: "n \<le> (if ?r \<le> ?w then ?w - ?r else ?m + ?w - ?r)" using assms cb_ReadableSize_eq by simp
  then have "n < ?m" using p by (auto split: if_splits)
  then have a: "cb_AdjustReadPtr n b = b\<lparr>cb_readPos := if ?r + n < ?m then ?r + n else ?r + n - ?m\<rparr>"
    using cb_mask_add [OF assms(1) p(1)] by (simp add: cb_AdjustReadPtr_def)
  moreover have "cb_ok (b\<lparr>cb_readPos := if ?r + n < ?m then ?r + n else ?r + n - ?m\<rparr>)"
    using assms(1) p \<open>n < ?m\<close> by (auto simp: cb_ok_def)
  moreover have "cb_contents (b\<lparr>cb_readPos := if ?r + n < ?m then ?r + n else ?r + n - ?m\<rparr>) = drop n (cb_contents b)"
    using n p by (auto simp: cb_contents_def drop_take add.commute split: if_splits)
  ultimately show ?thesis by simp
qed

lemma cb_Adjust_maxSize [simp]:
  "cb_maxSize (cb_AdjustReadPtr n b) = cb_maxSize b" "cb_maxSize (cb_AdjustWritePtr n b) = cb_maxSize b"
  by (simp_all add: cb_AdjustReadPtr_def cb_AdjustWritePtr_def)

text \<open>A read at an offset gives the bytes behind it when there are enough of them, and fails otherwise.\<close>

lemma cb_peek_at:
  assumes "cb_ok b"
  shows "cb_PeekDataAt n offset b = Some (if n = 0 \<or> n + offset \<le> cb_ReadableSize b
    then Some (take n (drop offset (cb_contents b))) else None)"
proof -
  let ?r = "cb_readPos b" and ?w = "cb_writePos b" and ?m = "cb_maxSize b"
  have p: "?r < ?m" "?w < ?m" "length (cb_buffer b) = ?m" using assms(1) by (auto simp: cb_ok_def)
  have R: "cb_ReadableSize b = (if ?r \<le> ?w then ?w - ?r else ?m + ?w - ?r)" using cb_ReadableSize_eq [OF assms] .
  show ?thesis
  proof (cases "n = 0 \<or> cb_ReadableSize b < n + offset")
    case True
    then show ?thesis by (auto simp: cb_PeekDataAt_def)
  next
    case False
    then have "offset < ?m" using R p by (auto split: if_splits)
    then have mask: "cb_mask b (int ?r + int offset) = (if ?r + offset < ?m then ?r + offset else ?r + offset - ?m)"
      using cb_mask_add [OF assms p(1)] by simp
    have n: "n \<noteq> 0" "n + offset \<le> cb_ReadableSize b" using False by auto
    consider "?r \<le> ?w" | "?w < ?r" "?r + offset < ?m" | "?w < ?r" "?m \<le> ?r + offset" by linarith
    then show ?thesis
    proof cases
      case 1
      then have a: "?r + offset < ?w" "n \<le> ?w - (?r + offset)" using n R by auto
      have "take n (drop offset (cb_contents b)) = take n (drop (?r + offset) (cb_buffer b))"
        using 1 a by (simp add: cb_contents_def drop_take add.commute)
      then show ?thesis using a n p mask by (auto simp: cb_PeekDataAt_def Let_def mem_get_def)
    next
      case 2
      have c: "drop offset (cb_contents b) = drop (?r + offset) (cb_buffer b) @ take ?w (cb_buffer b)"
        using 2 p by (simp add: cb_contents_def add.commute)
      have "n \<le> (?m - (?r + offset)) + ?w" using 2 n R by auto
      then show ?thesis using 2 c n p mask by (auto simp: cb_PeekDataAt_def Let_def mem_get_def)
    next
      case 3
      have c: "drop offset (cb_contents b) = drop (?r + offset - ?m) (take ?w (cb_buffer b))"
        using 3 p by (simp add: cb_contents_def add.commute)
      have a: "?r + offset - ?m < ?w" "n \<le> ?w - (?r + offset - ?m)" using 3 n R p by auto
      have "take n (drop offset (cb_contents b)) = take n (drop (?r + offset - ?m) (cb_buffer b))"
        using a by (simp add: c drop_take)
      then show ?thesis using 3 a n p mask by (auto simp: cb_PeekDataAt_def Let_def mem_get_def)
    qed
  qed
qed

lemma cb_peek_step:
  assumes "cb_ok b" "n \<le> cb_ReadableSize b"
  shows "cb_PeekDataAt n 0 b = Some (Some (take n (cb_contents b)))"
proof -
  let ?r = "cb_readPos b" and ?w = "cb_writePos b" and ?m = "cb_maxSize b"
  have p: "?r < ?m" "?w < ?m" "length (cb_buffer b) = ?m" using assms(1) by (auto simp: cb_ok_def)
  have n: "n \<le> (if ?r \<le> ?w then ?w - ?r else ?m + ?w - ?r)" using assms cb_ReadableSize_eq by simp
  have "cb_mask b (int ?r + int 0) = ?r" using cb_mask_add [OF assms(1) p(1), of 0] p by simp
  then show ?thesis
    using n p assms by (auto simp: cb_PeekDataAt_def Let_def mem_get_def cb_contents_def min_def split: if_splits)
qed


text \<open>The bytes go behind the write position, and around the end of the block when they do not fit there.\<close>

definition ring_put :: "nat \<Rightarrow> string \<Rightarrow> string \<Rightarrow> string" where
  "ring_put w xs buf =
     (let a = length buf - w
      in if length xs \<le> a then take w buf @ xs @ drop (w + length xs) buf
         else drop a xs @ drop (length xs - a) (take w buf) @ take a xs)"

text \<open>For a ring of at most two gigabytes the 32 bits are enough.\<close>

lemma bytesLeft_exact: "n < 2 ^ 31 \<Longrightarrow> signed_take_bit 31 (int n) = int n"
  by (intro signed_take_bit_int_eq_self) simp_all

lemma cb_PushDataAt_ring:
  assumes "cb_ok b" "length xs \<le> cb_WritableSize b" "xs \<noteq> []" "cb_maxSize b \<le> 2 ^ 31"
  shows "cb_PushDataAt xs 0 b = Some (True, b\<lparr>cb_buffer := ring_put (cb_writePos b) xs (cb_buffer b)\<rparr>)"
proof -
  let ?r = "cb_readPos b" and ?w = "cb_writePos b" and ?m = "cb_maxSize b"
  have p: "?r < ?m" "?w < ?m" "length (cb_buffer b) = ?m" using assms(1) by (auto simp: cb_ok_def)
  have n: "length xs \<le> (if ?r \<le> ?w then ?m + ?r - ?w - 1 else ?r - ?w - 1)"
    using assms(1,2) p cb_ReadableSize_eq [OF assms(1)] by (auto simp: cb_WritableSize_def)
  have w: "cb_mask b (int ?w + int 0) = ?w" using cb_mask_add [OF assms(1) p(2), of 0] p by simp
  have "length xs < ?m" using n p by (auto split: if_splits)
  then have left: "signed_take_bit 31 (int (length xs - (?m - ?w))) = int (length xs - (?m - ?w))"
    using assms(4) by (intro bytesLeft_exact) linarith
  show ?thesis
  proof (cases "length xs \<le> ?m - ?w")
    case True
    then have "mem_put ?w xs (cb_buffer b) = Some (ring_put ?w xs (cb_buffer b))"
      using p by (auto simp: mem_put_def ring_put_def)
    then show ?thesis
      using True n p assms(2,3) w
      by (auto simp: cb_PushDataAt_def Let_def not_less left simp del: of_nat_diff diff_diff_right split: if_splits)
  next
    case False
    have "Option.bind (mem_put ?w (take (?m - ?w) xs) (cb_buffer b)) (mem_put 0 (drop (?m - ?w) xs)) =
        Some (ring_put ?w xs (cb_buffer b))"
      using False p n by (auto simp: mem_put_def ring_put_def Let_def min_def split: if_splits)
    then show ?thesis
      using False n p assms(2,3) w
      by (auto simp: cb_PushDataAt_def Let_def left simp del: of_nat_diff diff_diff_right split: if_splits)
  qed
qed

lemma ring_put_length [simp]: "w \<le> length buf \<Longrightarrow> length xs \<le> length buf \<Longrightarrow> length (ring_put w xs buf) = length buf"
  by (auto simp: ring_put_def Let_def)

lemma ring_put_step:
  assumes "cb_ok b" "length xs \<le> cb_WritableSize b"
  defines "b' \<equiv> cb_AdjustWritePtr (length xs) (b\<lparr>cb_buffer := ring_put (cb_writePos b) xs (cb_buffer b)\<rparr>)"
  shows "cb_ok b'" "cb_contents b' = cb_contents b @ xs"
proof -
  let ?r = "cb_readPos b" and ?w = "cb_writePos b" and ?m = "cb_maxSize b" and ?n = "length xs"
  let ?buf = "ring_put ?w xs (cb_buffer b)"
  let ?w' = "if ?w + ?n < ?m then ?w + ?n else ?w + ?n - ?m"
  have p: "?r < ?m" "?w < ?m" "length (cb_buffer b) = ?m" using assms(1) by (auto simp: cb_ok_def)
  have n: "?n \<le> (if ?r \<le> ?w then ?m + ?r - ?w - 1 else ?r - ?w - 1)"
    using assms(1,2) p cb_ReadableSize_eq [OF assms(1)] by (auto simp: cb_WritableSize_def)
  then have nm: "?n < ?m" using p by (auto split: if_splits)
  have mask: "cb_mask (b\<lparr>cb_buffer := ?buf\<rparr>) x = cb_mask b x" for x by (simp add: cb_mask_def)
  have b': "b' = b\<lparr>cb_buffer := ?buf, cb_writePos := ?w'\<rparr>"
    using cb_mask_add [OF assms(1) p(2) nm] by (simp add: b'_def cb_AdjustWritePtr_def mask)
  show "cb_ok b'" using assms(1) p nm by (auto simp: b' cb_ok_def)
  show "cb_contents b' = cb_contents b @ xs"
  proof (cases "?r \<le> ?w")
    case False
    then show ?thesis using n p by (auto simp: b' cb_contents_def ring_put_def Let_def)
  next
    case le: True
    show ?thesis
    proof (cases "?w + ?n < ?m")
      case True
      then have "?buf = take ?w (cb_buffer b) @ xs @ drop (?w + ?n) (cb_buffer b)" using p by (auto simp: ring_put_def Let_def)
      then have "take (?w + ?n - ?r) (drop ?r ?buf) = take (?w - ?r) (drop ?r (cb_buffer b)) @ xs"
        using take_drop_put [of ?r ?w "cb_buffer b" xs] le p by simp
      then show ?thesis using le True by (simp add: b' cb_contents_def)
    next
      case False
      then show ?thesis using le n p
        by (auto simp: b' cb_contents_def ring_put_def Let_def drop_take)
    qed
  qed
qed


lemma cb_PushData_step:
  assumes "cb_ok b" "length xs \<le> cb_WritableSize b" "cb_maxSize b \<le> 2 ^ 31"
  shows "\<exists>b'. cb_PushData xs b = Some (True, b') \<and> cb_ok b' \<and> cb_contents b' = cb_contents b @ xs"
proof (cases "xs = []")
  case True
  have "cb_AdjustWritePtr 0 b = b"
    using cb_mask_add [OF assms(1), of "cb_writePos b" 0] assms(1) by (simp add: cb_AdjustWritePtr_def cb_ok_def)
  then show ?thesis using True assms(1) by (simp add: cb_PushData_def cb_PushDataAt_def)
next
  case False
  then show ?thesis
    using cb_PushDataAt_ring [OF assms(1,2) False assms(3)] ring_put_step [OF assms(1,2)] by (simp add: cb_PushData_def)
qed

lemma cb_PushData_maxSize: "cb_PushData xs b = Some (ok, b') \<Longrightarrow> cb_maxSize b' = cb_maxSize b"
  by (auto simp: cb_PushData_def cb_PushDataAt_def cb_AdjustWritePtr_def Let_def split: option.splits bool.splits if_splits)

text \<open>Without room nothing is written.\<close>

lemma cb_PushData_full: "cb_WritableSize b < length xs \<Longrightarrow> cb_PushData xs b = Some (False, b)"
  by (auto simp: cb_PushData_def cb_PushDataAt_def)

interpretation cb: byte_queue "\<lambda>b. cb_ok b \<and> cb_maxSize b \<le> 2 ^ 31" cb_contents cb_WritableSize
  "\<lambda>xs b. map_option snd (cb_PushData xs b)" cb_AdjustReadPtr "\<lambda>n b. Option.bind (cb_PeekDataAt n 0 b) id"
proof unfold_locales
  fix b :: CircularBuffer and xs :: string and n :: nat
  assume "cb_ok b \<and> cb_maxSize b \<le> 2 ^ 31"
  then have b: "cb_ok b" "cb_maxSize b \<le> 2 ^ 31" by simp_all
  show "\<exists>b'. map_option snd (cb_PushData xs b) = Some b' \<and> (cb_ok b' \<and> cb_maxSize b' \<le> 2 ^ 31) \<and>
      cb_contents b' = cb_contents b @ xs"
    if "length xs \<le> cb_WritableSize b" using cb_PushData_step [OF b(1) that b(2)] cb_PushData_maxSize [of xs b] b(2) by auto
  show "(cb_ok (cb_AdjustReadPtr n b) \<and> cb_maxSize (cb_AdjustReadPtr n b) \<le> 2 ^ 31) \<and>
      cb_contents (cb_AdjustReadPtr n b) = drop n (cb_contents b)"
    if "n \<le> length (cb_contents b)" using cb_skip_step [OF b(1)] that b by (simp add: cb_AdjustReadPtr_def)
  show "Option.bind (cb_PeekDataAt n 0 b) id = Some (take n (cb_contents b))" if "n \<le> length (cb_contents b)"
    using cb_peek_step [OF b(1)] that b by simp
qed

text \<open>The bytes that \<open>writev\<close> takes out of the segments, and \<open>readv\<close> filling them in order.\<close>

fun gather :: "segments \<Rightarrow> string \<Rightarrow> string" where
  "gather [] buf = []"
| "gather ((p, n) # segs) buf = take n (drop p buf) @ gather segs buf"

fun scatter :: "segments \<Rightarrow> string \<Rightarrow> string \<Rightarrow> string option" where
  "scatter [] xs buf = (if xs = [] then Some buf else None)"
| "scatter ((p, n) # segs) xs buf = Option.bind (mem_put p (take n xs) buf) (scatter segs (drop n xs))"

definition TotalBytes :: "segments \<Rightarrow> nat" where
  "TotalBytes segs = sum_list (map snd segs)"

lemma cb_GetDatum_step:
  assumes "cb_ok b" "n \<le> cb_ReadableSize b"
  shows "\<exists>segs. cb_GetDatum n 0 b = Some segs \<and> gather segs (cb_buffer b) = take n (cb_contents b) \<and>
    TotalBytes segs = n \<and> (\<forall>(p, k) \<in> set segs. 0 < k \<and> p + k \<le> length (cb_buffer b))"
proof -
  let ?r = "cb_readPos b" and ?w = "cb_writePos b" and ?m = "cb_maxSize b"
  have p: "?r < ?m" "?w < ?m" "length (cb_buffer b) = ?m" using assms(1) by (auto simp: cb_ok_def)
  have R: "cb_ReadableSize b = (if ?r \<le> ?w then ?w - ?r else ?m + ?w - ?r)" using cb_ReadableSize_eq [OF assms(1)] .
  have "cb_mask b (int ?r + int 0) = ?r" using cb_mask_add [OF assms(1) p(1), of 0] p by simp
  then show ?thesis
    using R p assms(2)
    by (auto simp: cb_GetDatum_def Let_def cb_contents_def TotalBytes_def min_def split: if_splits)
qed

lemma cb_GetSpace_step:
  assumes "cb_ok b"
  shows "\<exists>segs. cb_GetSpace 0 b = Some segs \<and> TotalBytes segs = (if cb_WritableSize b \<le> 1 then 0 else cb_WritableSize b) \<and>
    (\<forall>(p, k) \<in> set segs. 0 < k \<and> p + k \<le> length (cb_buffer b)) \<and>
    (\<forall>xs. length xs \<le> TotalBytes segs \<longrightarrow> scatter segs xs (cb_buffer b) = Some (ring_put (cb_writePos b) xs (cb_buffer b)))"
proof -
  let ?r = "cb_readPos b" and ?w = "cb_writePos b" and ?m = "cb_maxSize b"
  have p: "?r < ?m" "?w < ?m" "length (cb_buffer b) = ?m" using assms(1) by (auto simp: cb_ok_def)
  have W: "cb_WritableSize b = (if ?r \<le> ?w then ?m + ?r - ?w - 1 else ?r - ?w - 1)"
    using p cb_ReadableSize_eq [OF assms(1)] by (auto simp: cb_WritableSize_def)
  have w: "cb_mask b (int ?w + int 0) = ?w" using cb_mask_add [OF assms(1) p(2), of 0] p by simp
  have one: "scatter [(?w, n)] xs (cb_buffer b) = Some (ring_put ?w xs (cb_buffer b))"
    if "length xs \<le> n" "?w + n \<le> ?m" for n xs
    using that p by (auto simp: mem_put_def ring_put_def Let_def)
  have two: "scatter [(?w, ?m - ?w), (0, n)] xs (cb_buffer b) = Some (ring_put ?w xs (cb_buffer b))"
    if "length xs \<le> ?m - ?w + n" "n \<le> ?w" for n xs
    using that p by (auto simp: mem_put_def ring_put_def Let_def min_def)
  consider "cb_WritableSize b \<le> 1" | "1 < cb_WritableSize b" "?w < ?r" | "1 < cb_WritableSize b" "?r \<le> ?w" "?r \<le> 1"
    | "1 < cb_WritableSize b" "?r \<le> ?w" "1 < ?r" by linarith
  then show ?thesis
  proof cases
    case 1
    then show ?thesis using p w by (auto simp: cb_GetSpace_def TotalBytes_def ring_put_def Let_def)
  next
    case 2
    then show ?thesis using p w W one [of _ "?r - ?w - 1"] by (auto simp: cb_GetSpace_def TotalBytes_def Let_def)
  next
    case 3
    then show ?thesis using p w W one [of _ "?m - ?w - 1"] one [of _ "?m - ?w"]
      by (cases "?r = 0") (auto simp: cb_GetSpace_def TotalBytes_def Let_def)
  next
    case 4
    then show ?thesis using p w W two [of _ "?r - 1"] by (auto simp: cb_GetSpace_def TotalBytes_def Let_def)
  qed
qed



lemma Buffer_new_ok:
  assumes "0 < n" "n \<le> 2 ^ 63"
  obtains b i where "Buffer_new n = Some b" "cb_ok b" "cb_contents b = []" "cb_maxSize b = 2 ^ i" "i \<le> 63" "unat n \<le> 2 ^ i"
    "i = 0 \<or> 2 ^ (i - 1) < unat n"
proof -
  have "unat n \<le> 2 ^ 63" using assms(2) by (simp add: word_le_nat_alt)
  then obtain i where i: "i \<le> 63" "RoundUp_loop n 1 = Some (2 ^ i)" "unat n \<le> 2 ^ i" "0 < i \<longrightarrow> 2 ^ (i - 1) < unat n"
    using RoundUp_loop_power [of 1 0 n 63] by auto
  let ?b = "\<lparr>cb_maxSize = 2 ^ i, cb_readPos = 0, cb_writePos = 0, cb_buffer = replicate (2 ^ i) (CHR 0x00)\<rparr>"
  have "Buffer_new n = Some ?b" using i(1,2) assms(1) by (simp add: Buffer_new_def RoundUp2Power_def unat_two_power)
  moreover have "cb_ok ?b" using less_exp [of i] by (auto simp: cb_ok_def intro!: exI [of _ i] less_imp_le)
  ultimately show ?thesis using that [of ?b i] i by (auto simp: cb_contents_def)
qed

text \<open>\<open>RoundUp2Power\<close> gives the least power of two that is not below a size up to \<open>2 ^ 63\<close>; for a larger size its
  loop does not end.\<close>

theorem RoundUp2Power_ends:
  "(0 < n \<and> n \<le> 2 ^ 63 \<longrightarrow> (\<exists>i\<le>63. RoundUp2Power n = Some (2 ^ i) \<and> unat n \<le> 2 ^ i \<and> (i = 0 \<or> 2 ^ (i - 1) < unat n))) \<and>
   (2 ^ 63 < n \<longrightarrow> RoundUp2Power n = None)"
proof
  show "0 < n \<and> n \<le> 2 ^ 63 \<longrightarrow> (\<exists>i\<le>63. RoundUp2Power n = Some (2 ^ i) \<and> unat n \<le> 2 ^ i \<and> (i = 0 \<or> 2 ^ (i - 1) < unat n))"
  proof
    assume n: "0 < n \<and> n \<le> 2 ^ 63"
    then have "unat n \<le> 2 ^ 63" by (simp add: word_le_nat_alt)
    then show "\<exists>i\<le>63. RoundUp2Power n = Some (2 ^ i) \<and> unat n \<le> 2 ^ i \<and> (i = 0 \<or> 2 ^ (i - 1) < unat n)"
      using RoundUp_loop_power [of 1 0 n 63] n by (auto simp: RoundUp2Power_def)
  qed
  have "\<exists>k<64. (1 :: 64 word) = 2 ^ k" by (intro exI [of _ 0]) simp
  then show "2 ^ 63 < n \<longrightarrow> RoundUp2Power n = None"
    using RoundUp_loop_diverges [of n 1] by (cases "RoundUp_loop n 1") (auto simp: RoundUp2Power_def simp flip: not_le)
qed

theorem RoundUp2Power_ends_witness: "RoundUp2Power (2 ^ 64 - 1) = None \<and> (\<exists>i\<le>63. RoundUp2Power 100 = Some (2 ^ i))"
  using RoundUp2Power_ends [of "2 ^ 64 - 1"] RoundUp2Power_ends [of 100] by (auto simp: word_less_nat_alt word_le_nat_alt)

text \<open>C21: A ring buffer of at most two gigabytes is a queue of bytes with limited room, whatever the positions in the
  block are: a push succeeds and puts the bytes behind the others exactly when there is room for them, and changes nothing
  when there is not; the room and the bytes make up the block but for one byte; a read of any length at any offset gives
  the bytes there, or fails when they are too few; and what is skipped or taken out is gone from the front.\<close>

theorem ring_refines_queue:
  assumes "cb_ok b" "cb_maxSize b \<le> 2 ^ 31"
  shows "length (cb_contents b) + cb_WritableSize b + 1 = cb_maxSize b \<and>
    (\<forall>xs. if length xs \<le> cb_WritableSize b
       then \<exists>b'. cb_PushData xs b = Some (True, b') \<and> cb_ok b' \<and> cb_maxSize b' = cb_maxSize b \<and>
         cb_contents b' = cb_contents b @ xs
       else cb_PushData xs b = Some (False, b)) \<and>
    (\<forall>n offset. cb_PeekDataAt n offset b = Some (if n = 0 \<or> n + offset \<le> length (cb_contents b)
       then Some (take n (drop offset (cb_contents b))) else None)) \<and>
    (\<forall>n\<le>length (cb_contents b). cb_ok (cb_AdjustReadPtr n b) \<and>
       cb_contents (cb_AdjustReadPtr n b) = drop n (cb_contents b) \<and>
       cb_PeekData n b = Some (Some (take n (cb_contents b)), cb_AdjustReadPtr n b))"
proof (intro conjI allI impI)
  have p: "cb_readPos b < cb_maxSize b" "cb_writePos b < cb_maxSize b" using assms(1) by (auto simp: cb_ok_def)
  then show "length (cb_contents b) + cb_WritableSize b + 1 = cb_maxSize b"
    using cb_ReadableSize_eq [OF assms(1)] assms(1) by (auto simp: cb_WritableSize_def)
  fix xs
  show "if length xs \<le> cb_WritableSize b
       then \<exists>b'. cb_PushData xs b = Some (True, b') \<and> cb_ok b' \<and> cb_maxSize b' = cb_maxSize b \<and>
         cb_contents b' = cb_contents b @ xs
       else cb_PushData xs b = Some (False, b)"
    using cb_PushData_step [OF assms(1) _ assms(2), of xs] cb_PushData_maxSize [of xs b] cb_PushData_full [of b xs] by auto
next
  fix n offset
  show "cb_PeekDataAt n offset b = Some (if n = 0 \<or> n + offset \<le> length (cb_contents b)
       then Some (take n (drop offset (cb_contents b))) else None)"
    using cb_peek_at [OF assms(1), of n offset] assms(1) by simp
next
  fix n assume n: "n \<le> length (cb_contents b)"
  then show "cb_ok (cb_AdjustReadPtr n b)" "cb_contents (cb_AdjustReadPtr n b) = drop n (cb_contents b)"
    "cb_PeekData n b = Some (Some (take n (cb_contents b)), cb_AdjustReadPtr n b)"
    using cb_skip_step [OF assms(1), of n] cb_peek_step [OF assms(1), of n] assms(1) by (simp_all add: cb_PeekData_def)
qed

text \<open>C22: The segments that \<open>GetSpace\<close> hands to \<open>readv\<close> lie in the block, and so do those \<open>GetDatum\<close> hands to
  \<open>writev\<close>; filling the first ones with bytes and advancing the write position appends the bytes, and the second ones
  show the unread bytes.\<close>

theorem ring_segments:
  assumes "cb_ok b"
  shows "\<exists>space datum. cb_GetSpace 0 b = Some space \<and> cb_GetDatum (cb_ReadableSize b) 0 b = Some datum \<and>
    (\<forall>(p, k) \<in> set (space @ datum). 0 < k \<and> p + k \<le> length (cb_buffer b)) \<and>
    gather datum (cb_buffer b) = cb_contents b \<and>
    (\<forall>xs. length xs \<le> TotalBytes space \<longrightarrow> (\<exists>buf. scatter space xs (cb_buffer b) = Some buf \<and>
       cb_contents (cb_AdjustWritePtr (length xs) (b\<lparr>cb_buffer := buf\<rparr>)) = cb_contents b @ xs))"
proof -
  obtain space where s: "cb_GetSpace 0 b = Some space"
    "TotalBytes space = (if cb_WritableSize b \<le> 1 then 0 else cb_WritableSize b)"
    "\<forall>(p, k) \<in> set space. 0 < k \<and> p + k \<le> length (cb_buffer b)"
    "\<forall>xs. length xs \<le> TotalBytes space \<longrightarrow> scatter space xs (cb_buffer b) = Some (ring_put (cb_writePos b) xs (cb_buffer b))"
    using cb_GetSpace_step [OF assms] by blast
  obtain datum where d: "cb_GetDatum (cb_ReadableSize b) 0 b = Some datum" "gather datum (cb_buffer b) = cb_contents b"
    "\<forall>(p, k) \<in> set datum. 0 < k \<and> p + k \<le> length (cb_buffer b)"
    using cb_GetDatum_step [OF assms, of "cb_ReadableSize b"] assms by auto
  have "\<exists>buf. scatter space xs (cb_buffer b) = Some buf \<and>
      cb_contents (cb_AdjustWritePtr (length xs) (b\<lparr>cb_buffer := buf\<rparr>)) = cb_contents b @ xs"
    if "length xs \<le> TotalBytes space" for xs
    using that s(2,4) ring_put_step(2) [OF assms, of xs] by (auto split: if_splits)
  then show ?thesis using s(1,3) d by auto
qed

definition small_ring :: CircularBuffer where
  "small_ring = \<lparr>cb_maxSize = 8, cb_readPos = 5, cb_writePos = 7, cb_buffer = ''.....ab.''\<rparr>"

lemma small_ring_ok: "cb_ok small_ring"
  by (auto simp: cb_ok_def small_ring_def intro: exI [of _ 3])

theorem ring_refines_queue_witness:
  "(\<exists>b'. cb_PushData ''cde'' small_ring = Some (True, b') \<and> cb_contents b' = ''abcde'') \<and>
   cb_PushData ''cdefgh'' small_ring = Some (False, small_ring) \<and> cb_PeekDataAt 1 1 small_ring = Some (Some ''b'')"
proof -
  have c: "cb_WritableSize small_ring = 5" "cb_contents small_ring = ''ab''" by code_simp+
  have "cb_maxSize small_ring \<le> 2 ^ 31" by (simp add: small_ring_def)
  note q = ring_refines_queue [OF small_ring_ok this, unfolded c]
  have "\<exists>b'. cb_PushData ''cde'' small_ring = Some (True, b') \<and> cb_contents b' = ''abcde''"
    using q [THEN conjunct2, THEN conjunct1, THEN spec, of "''cde''"] by auto
  moreover have "cb_PushData ''cdefgh'' small_ring = Some (False, small_ring)"
    using q [THEN conjunct2, THEN conjunct1, THEN spec, of "''cdefgh''"] by simp
  ultimately show ?thesis using q by (simp add: numeral_2_eq_2)
qed

theorem ring_segments_witness: "\<exists>space. cb_GetSpace 0 small_ring = Some space \<and> (\<forall>(p, k) \<in> set space. p + k \<le> 8)"
  using ring_segments [OF small_ring_ok] by (fastforce simp: small_ring_def eval_nat_numeral)

end
