(* ===== verification/Connection.thy ===== *)
theory Connection
  imports Buffers "HOL-Library.Sublist"
begin

text \<open>
  QBase/AsyncBuffer.cc and QBase/StreamSocket.cc: the buffer that the server thread fills and the network thread
  empties, with the interleavings of the two threads, and a connection, which receives into a ring buffer, hands it to the
  parser and sends from an \<open>AsyncBuffer\<close>.
\<close>

subsection \<open>The buffer between the threads\<close>

text \<open>
  \<open>AsyncBuffer\<close>: the server thread writes into the ring, and into \<open>backBuf_\<close> once the ring is too small; the
  network thread sends \<open>tmpBuf_\<close>, then the ring, then what it swaps out of \<open>backBuf_\<close>.
\<close>

record AsyncBuffer =
  ab_buffer :: CircularBuffer
  ab_tmpBuf :: UnboundedBuffer
  ab_backBytes :: nat
  ab_backBuf :: UnboundedBuffer

definition AsyncBuffer_new :: "64 word \<Rightarrow> AsyncBuffer option" where
  "AsyncBuffer_new n =
     map_option (\<lambda>b. \<lparr>ab_buffer = b, ab_tmpBuf = UnboundedBuffer_new, ab_backBytes = 0, ab_backBuf = UnboundedBuffer_new\<rparr>)
       (Buffer_new n)"

text \<open>The loops over the segments of the caller; the results of \<open>PushData\<close> are not looked at.\<close>

fun cb_push_all :: "string list \<Rightarrow> CircularBuffer \<Rightarrow> CircularBuffer option" where
  "cb_push_all [] b = Some b"
| "cb_push_all (xs # xss) b = Option.bind (cb_PushData xs b) (\<lambda>(_, b). cb_push_all xss b)"

fun ub_push_all :: "string list \<Rightarrow> UnboundedBuffer \<Rightarrow> UnboundedBuffer option" where
  "ub_push_all [] b = Some b"
| "ub_push_all (xs # xss) b = Option.bind (ub_PushData xs b) (\<lambda>(_, b). ub_push_all xss b)"

definition ab_Write :: "string list \<Rightarrow> AsyncBuffer \<Rightarrow> AsyncBuffer option" where
  "ab_Write chunks b =
     (let len = sum_list (map length chunks)
      in if 0 < ab_backBytes b \<or> cb_WritableSize (ab_buffer b) < len then
           Option.bind (ub_push_all chunks (ab_backBuf b)) (\<lambda>bk.
             let n = ab_backBytes b + len
             in if n = ub_ReadableSize bk then Some (b\<lparr>ab_backBuf := bk, ab_backBytes := n\<rparr>) else None)
         else map_option (\<lambda>buf. b\<lparr>ab_buffer := buf\<rparr>) (cb_push_all chunks (ab_buffer b)))"

definition ab_Write1 :: "string \<Rightarrow> AsyncBuffer \<Rightarrow> AsyncBuffer option" where
  "ab_Write1 xs b = ab_Write [xs] b"

definition ub_datum :: "UnboundedBuffer \<Rightarrow> string option" where
  "ub_datum b = mem_get (ub_readPos b) (ub_ReadableSize b) (ub_buffer b)"

definition cb_datum :: "CircularBuffer \<Rightarrow> string option" where
  "cb_datum b =
     (let nLen = cb_ReadableSize b
      in Option.bind (cb_GetDatum nLen 0 b) (\<lambda>data.
           if nLen = TotalBytes data then Some (gather data (cb_buffer b)) else None))"

text \<open>
  \<open>ProcessBuffer\<close> gives the bytes its segments show. Its last branch is a definition of its own, because the writer
  can run between the tests before it and the swap. \<open>lock\<close> is the answer of \<open>try_lock\<close>.
\<close>

definition ab_swap_back :: "bool \<Rightarrow> AsyncBuffer \<Rightarrow> (string \<times> AsyncBuffer) option" where
  "ab_swap_back lock b =
     (if 0 < ab_backBytes b \<and> lock then
        let b = b\<lparr>ab_backBytes := 0, ab_tmpBuf := ab_backBuf b, ab_backBuf := ab_tmpBuf b\<rparr>
        in map_option (\<lambda>xs. (xs, b)) (ub_datum (ab_tmpBuf b))
      else Some ([], b))"

definition ab_ProcessBuffer :: "bool \<Rightarrow> AsyncBuffer \<Rightarrow> (string \<times> AsyncBuffer) option" where
  "ab_ProcessBuffer lock b =
     (if \<not> ub_IsEmpty (ab_tmpBuf b) then map_option (\<lambda>xs. (xs, b)) (ub_datum (ab_tmpBuf b))
      else if \<not> cb_IsEmpty (ab_buffer b) then map_option (\<lambda>xs. (xs, b)) (cb_datum (ab_buffer b))
      else ab_swap_back lock b)"

definition ab_Skip :: "nat \<Rightarrow> AsyncBuffer \<Rightarrow> AsyncBuffer option" where
  "ab_Skip n b =
     (if \<not> ub_IsEmpty (ab_tmpBuf b) then
        (if n \<le> ub_ReadableSize (ab_tmpBuf b) then Some (b\<lparr>ab_tmpBuf := ub_AdjustReadPtr n (ab_tmpBuf b)\<rparr>) else None)
      else if n \<le> cb_ReadableSize (ab_buffer b) then Some (b\<lparr>ab_buffer := cb_AdjustReadPtr n (ab_buffer b)\<rparr>)
      else None)"

subsection \<open>One queue of bytes\<close>

definition ab_ok :: "AsyncBuffer \<Rightarrow> bool" where
  "ab_ok b \<longleftrightarrow> cb_ok (ab_buffer b) \<and> cb_maxSize (ab_buffer b) \<le> 2 ^ 31 \<and> ub_ok (ab_tmpBuf b) \<and> ub_ok (ab_backBuf b) \<and>
     ab_backBytes b = ub_ReadableSize (ab_backBuf b)"

definition ab_contents :: "AsyncBuffer \<Rightarrow> string" where
  "ab_contents b = ub_contents (ab_tmpBuf b) @ cb_contents (ab_buffer b) @ ub_contents (ab_backBuf b)"


lemma cb_push_all_step:
  "cb_ok b \<Longrightarrow> sum_list (map length xss) \<le> cb_WritableSize b \<Longrightarrow> cb_maxSize b \<le> 2 ^ 31 \<Longrightarrow>
    \<exists>b'. cb_push_all xss b = Some b' \<and> cb_ok b' \<and> cb_contents b' = cb_contents b @ concat xss \<and> cb_maxSize b' = cb_maxSize b"
proof (induction xss arbitrary: b)
  case (Cons xs xss)
  obtain b' where b': "cb_PushData xs b = Some (True, b')" "cb_ok b'" "cb_contents b' = cb_contents b @ xs"
    using cb_PushData_step [OF Cons.prems(1), of xs] Cons.prems(2,3) by auto
  have "cb_ReadableSize b' = cb_ReadableSize b + length xs"
    using cb_contents_length [OF b'(2)] Cons.prems(1) by (simp add: b'(3))
  then have "sum_list (map length xss) \<le> cb_WritableSize b'"
    using Cons.prems(2) cb_PushData_maxSize [OF b'(1)] by (simp add: cb_WritableSize_def)
  then show ?case using Cons.IH [OF b'(2)] b' cb_PushData_maxSize [OF b'(1)] Cons.prems(3) by auto
qed simp

lemma ub_push_all_step:
  "ub_ok b \<Longrightarrow> ub_ReadableSize b + sum_list (map length xss) \<le> MAX_BUFFER_SIZE \<Longrightarrow>
    \<exists>b'. ub_push_all xss b = Some b' \<and> ub_ok b' \<and> ub_contents b' = ub_contents b @ concat xss"
proof (induction xss arbitrary: b)
  case (Cons xs xss)
  obtain b' where b': "ub_PushData xs b = Some (length xs, b')" "ub_ok b'" "ub_contents b' = ub_contents b @ xs"
    using ub_PushData_step [OF Cons.prems(1), of xs] Cons.prems(2) by fastforce
  have "ub_ReadableSize b' = ub_ReadableSize b + length xs"
    using arg_cong [OF b'(3), of length] b'(2) Cons.prems(1) by simp
  then show ?case using Cons.IH [OF b'(2)] b' Cons.prems(2) by auto
qed simp

lemma ab_Write_ring:
  assumes "ab_ok b" "ab_backBytes b = 0" "sum_list (map length chunks) \<le> cb_WritableSize (ab_buffer b)"
  shows "\<exists>ring. ab_Write chunks b = Some (b\<lparr>ab_buffer := ring\<rparr>) \<and> cb_ok ring \<and>
    cb_contents ring = cb_contents (ab_buffer b) @ concat chunks \<and> cb_maxSize ring = cb_maxSize (ab_buffer b)"
  using cb_push_all_step [of "ab_buffer b" chunks] assms by (auto simp: ab_Write_def ab_ok_def)

lemma ab_Write_back:
  assumes "ab_ok b" "0 < ab_backBytes b \<or> cb_WritableSize (ab_buffer b) < sum_list (map length chunks)"
    and "ab_backBytes b + sum_list (map length chunks) \<le> MAX_BUFFER_SIZE"
  shows "\<exists>bk. ab_Write chunks b = Some (b\<lparr>ab_backBuf := bk, ab_backBytes := ub_ReadableSize bk\<rparr>) \<and> ub_ok bk \<and>
    ub_contents bk = ub_contents (ab_backBuf b) @ concat chunks"
proof -
  obtain bk where bk: "ub_push_all chunks (ab_backBuf b) = Some bk" "ub_ok bk"
    "ub_contents bk = ub_contents (ab_backBuf b) @ concat chunks"
    using ub_push_all_step [of "ab_backBuf b" chunks] assms by (auto simp: ab_ok_def)
  then have "ub_ReadableSize bk = ab_backBytes b + sum_list (map length chunks)"
    using ub_contents_length [OF bk(2)] assms(1) by (simp add: bk(3) ab_ok_def length_concat)
  then show ?thesis using bk assms(2) by (intro exI [of _ bk]) (auto simp: ab_Write_def)
qed

lemma ab_Write_step:
  assumes "ab_ok b" "ab_backBytes b + sum_list (map length chunks) \<le> MAX_BUFFER_SIZE"
  shows "\<exists>b'. ab_Write chunks b = Some b' \<and> ab_ok b' \<and> ab_contents b' = ab_contents b @ concat chunks \<and>
    ab_tmpBuf b' = ab_tmpBuf b \<and> prefix (cb_contents (ab_buffer b)) (cb_contents (ab_buffer b'))"
proof (cases "0 < ab_backBytes b \<or> cb_WritableSize (ab_buffer b) < sum_list (map length chunks)")
  case True
  then show ?thesis using ab_Write_back [OF assms(1) True assms(2)] assms(1) by (auto simp: ab_ok_def ab_contents_def)
next
  case False
  then have "ub_contents (ab_backBuf b) = []"
    using assms(1) by (simp add: ab_ok_def ub_contents_def)
  then show ?thesis using ab_Write_ring [of b chunks] False assms(1) by (auto simp: ab_ok_def ab_contents_def)
qed

lemma ub_datum_eq: "ub_ok b \<Longrightarrow> ub_datum b = Some (ub_contents b)"
  by (auto simp: ub_datum_def mem_get_def ub_contents_def ub_ok_def ub_ReadableSize_def)

lemma cb_datum_eq: "cb_ok b \<Longrightarrow> cb_datum b = Some (cb_contents b)"
  using cb_GetDatum_step [of b "cb_ReadableSize b"] by (auto simp: cb_datum_def)

lemma empty_contents:
  "ub_ok u \<Longrightarrow> ub_IsEmpty u \<longleftrightarrow> ub_contents u = []"
  "cb_ok c \<Longrightarrow> cb_IsEmpty c \<longleftrightarrow> cb_contents c = []"
proof -
  show "ub_IsEmpty u \<longleftrightarrow> ub_contents u = []" if "ub_ok u"
    using ub_contents_length [OF that] by (metis length_0_conv ub_IsEmpty_def)
  show "cb_IsEmpty c \<longleftrightarrow> cb_contents c = []" if "cb_ok c"
    using cb_contents_length [OF that] cb_ReadableSize_eq [OF that] that
    by (auto simp: cb_IsEmpty_def cb_ok_def cb_contents_def)
qed

text \<open>Bytes that are shown stay in front of the buffer they were shown from.\<close>

definition shows_front :: "string \<Rightarrow> AsyncBuffer \<Rightarrow> bool" where
  "shows_front xs b \<longleftrightarrow> xs = [] \<or> prefix xs (if ub_IsEmpty (ab_tmpBuf b) then cb_contents (ab_buffer b) else ub_contents (ab_tmpBuf b))"

lemma ab_swap_back_step:
  assumes "ab_ok b" "ub_contents (ab_tmpBuf b) = []" "cb_contents (ab_buffer b) = []"
  shows "\<exists>xs b'. ab_swap_back lock b = Some (xs, b') \<and> ab_ok b' \<and> ab_contents b' = ab_contents b \<and> shows_front xs b' \<and>
    (lock \<longrightarrow> xs = ab_contents b)"
proof -
  have ok: "cb_ok (ab_buffer b)" "ub_ok (ab_tmpBuf b)" "ub_ok (ab_backBuf b)" "cb_maxSize (ab_buffer b) \<le> 2 ^ 31" "ab_backBytes b = ub_ReadableSize (ab_backBuf b)"
    using assms by (auto simp: ab_ok_def)
  show ?thesis
    using ok assms(2,3) empty_contents(1) [OF ok(2)] empty_contents(1) [OF ok(3)] ub_datum_eq [OF ok(3)]
    by (auto simp: ab_swap_back_def ab_ok_def ab_contents_def Let_def ub_IsEmpty_def shows_front_def)
qed

lemma ab_ProcessBuffer_step:
  assumes "ab_ok b"
  shows "\<exists>xs b'. ab_ProcessBuffer lock b = Some (xs, b') \<and> ab_ok b' \<and> ab_contents b' = ab_contents b \<and> shows_front xs b' \<and>
    (lock \<and> ab_contents b \<noteq> [] \<longrightarrow> xs \<noteq> [])"
proof -
  have ok: "cb_ok (ab_buffer b)" "ub_ok (ab_tmpBuf b)" using assms by (auto simp: ab_ok_def)
  note emp = empty_contents(1) [OF ok(2)] empty_contents(2) [OF ok(1)]
  consider "ub_contents (ab_tmpBuf b) \<noteq> []" | "ub_contents (ab_tmpBuf b) = []" "cb_contents (ab_buffer b) \<noteq> []"
    | "ub_contents (ab_tmpBuf b) = []" "cb_contents (ab_buffer b) = []" by blast
  then show ?thesis
  proof cases
    case 3
    then show ?thesis using ab_swap_back_step [OF assms 3, of lock] emp by (auto simp: ab_ProcessBuffer_def)
  qed (use assms emp ub_datum_eq [OF ok(2)] cb_datum_eq [OF ok(1)] in \<open>auto simp: ab_ProcessBuffer_def shows_front_def\<close>)
qed

subsection \<open>The two threads\<close>

text \<open>
  What the threads do to one buffer. The server thread writes. The network thread runs \<open>ProcessBuffer\<close>, gives the
  bytes shown to \<open>writev\<close>, which takes some of them, and skips those; writes can come in between.
  \<open>Wire_look\<close> and \<open>Wire_swap\<close> are a \<open>ProcessBuffer\<close> with writes between its tests and its last branch.
\<close>

datatype wire_pc = Wire_idle | Wire_looked | Wire_shown string

record wire =
  w_buf :: AsyncBuffer
  w_pc :: wire_pc
  w_written :: string
  w_sent :: string

datatype wire_event = Wire_write "string list" | Wire_process bool | Wire_look | Wire_swap bool | Wire_sent nat

definition wire_new :: "AsyncBuffer \<Rightarrow> wire" where
  "wire_new b = \<lparr>w_buf = b, w_pc = Wire_idle, w_written = [], w_sent = []\<rparr>"

definition wire_show :: "(string \<times> AsyncBuffer) option \<Rightarrow> wire \<Rightarrow> wire option" where
  "wire_show r w = map_option (\<lambda>(xs, b). w\<lparr>w_buf := b, w_pc := Wire_shown xs\<rparr>) r"

fun wire_step :: "wire_event \<Rightarrow> wire \<Rightarrow> wire option" where
  "wire_step (Wire_write chunks) w =
     map_option (\<lambda>b. w\<lparr>w_buf := b, w_written := w_written w @ concat chunks\<rparr>) (ab_Write chunks (w_buf w))"
| "wire_step (Wire_process lock) w =
     (if w_pc w = Wire_idle then wire_show (ab_ProcessBuffer lock (w_buf w)) w else Some w)"
| "wire_step Wire_look w =
     (if w_pc w = Wire_idle \<and> ub_IsEmpty (ab_tmpBuf (w_buf w)) \<and> cb_IsEmpty (ab_buffer (w_buf w))
      then Some (w\<lparr>w_pc := Wire_looked\<rparr>) else Some w)"
| "wire_step (Wire_swap lock) w =
     (if w_pc w = Wire_looked then wire_show (ab_swap_back lock (w_buf w)) w else Some w)"
| "wire_step (Wire_sent n) w =
     (case w_pc w of
        Wire_shown xs \<Rightarrow>
          if 0 < n \<and> n \<le> length xs then
            map_option (\<lambda>b. w\<lparr>w_buf := b, w_pc := Wire_idle, w_sent := w_sent w @ take n xs\<rparr>) (ab_Skip n (w_buf w))
          else Some (w\<lparr>w_pc := Wire_idle\<rparr>)
      | _ \<Rightarrow> Some w)"

fun wire_run :: "wire_event list \<Rightarrow> wire \<Rightarrow> wire option" where
  "wire_run [] w = Some w"
| "wire_run (e # es) w = Option.bind (wire_step e w) (wire_run es)"

fun event_bytes :: "wire_event \<Rightarrow> nat" where
  "event_bytes (Wire_write chunks) = sum_list (map length chunks)"
| "event_bytes _ = 0"

definition wire_inv :: "nat \<Rightarrow> wire \<Rightarrow> bool" where
  "wire_inv n w \<longleftrightarrow> ab_ok (w_buf w) \<and> w_written w = w_sent w @ ab_contents (w_buf w) \<and> length (w_written w) + n \<le> MAX_BUFFER_SIZE \<and>
     (case w_pc w of Wire_idle \<Rightarrow> True | Wire_looked \<Rightarrow> False | Wire_shown xs \<Rightarrow> shows_front xs (w_buf w))"

lemma ab_Skip_step:
  assumes "ab_ok b" "shows_front xs b" "n \<le> length xs"
  shows "\<exists>b'. ab_Skip n b = Some b' \<and> ab_ok b' \<and> ab_contents b = take n xs @ ab_contents b'"
proof -
  have ok: "cb_ok (ab_buffer b)" "ub_ok (ab_tmpBuf b)" using assms(1) by (auto simp: ab_ok_def)
  note emp = empty_contents(1) [OF ok(2)]
  show ?thesis
  proof (cases "ub_IsEmpty (ab_tmpBuf b)")
    case True
    then have "prefix xs (cb_contents (ab_buffer b))" using assms(2) by (auto simp: shows_front_def)
    then have "take n xs = take n (cb_contents (ab_buffer b))" "n \<le> cb_ReadableSize (ab_buffer b)"
      using assms(3) ok(1) by (auto simp: prefix_def simp flip: cb_contents_length)
    then show ?thesis using True emp cb_skip_step [OF ok(1), of n] assms(1)
      by (auto simp: ab_Skip_def ab_ok_def ab_contents_def)
  next
    case False
    then have "prefix xs (ub_contents (ab_tmpBuf b))" using assms(2) by (auto simp: shows_front_def)
    then have "take n xs = take n (ub_contents (ab_tmpBuf b))" "n \<le> ub_ReadableSize (ab_tmpBuf b)"
      using assms(3) ok(2) by (auto simp: prefix_def simp flip: ub_contents_length)
    then show ?thesis using False ub_skip_step [OF ok(2), of n] assms(1)
      by (auto simp: ab_Skip_def ab_ok_def ab_contents_def simp flip: append_assoc)
  qed
qed


lemma shows_front_Write:
  assumes "ab_ok b" "shows_front xs b" "ab_tmpBuf b' = ab_tmpBuf b" "prefix (cb_contents (ab_buffer b)) (cb_contents (ab_buffer b'))"
  shows "shows_front xs b'"
  using assms by (auto simp: shows_front_def intro: prefix_order.trans)

lemma wire_step_inv:
  assumes "wire_inv (event_bytes e + n) w" "e \<noteq> Wire_look"
  shows "\<exists>w'. wire_step e w = Some w' \<and> wire_inv n w'"
proof -
  have ok: "ab_ok (w_buf w)" using assms(1) by (simp add: wire_inv_def)
  show ?thesis
  proof (cases e)
    case (Wire_write chunks)
    have "ab_backBytes (w_buf w) + sum_list (map length chunks) \<le> MAX_BUFFER_SIZE"
      using assms(1) Wire_write by (auto simp: wire_inv_def ab_contents_def ab_ok_def)
    from ab_Write_step [OF ok this] obtain b' where b': "ab_Write chunks (w_buf w) = Some b'" "ab_ok b'"
      "ab_contents b' = ab_contents (w_buf w) @ concat chunks" "ab_tmpBuf b' = ab_tmpBuf (w_buf w)"
      "prefix (cb_contents (ab_buffer (w_buf w))) (cb_contents (ab_buffer b'))" by blast
    then show ?thesis using assms(1) Wire_write shows_front_Write [OF ok _ b'(4,5)]
      by (auto simp: wire_inv_def length_concat split: wire_pc.splits)
  next
    case (Wire_process lock)
    then show ?thesis using assms(1) ab_ProcessBuffer_step [OF ok, of lock]
      by (auto simp: wire_inv_def wire_show_def split: wire_pc.splits)
  next
    case (Wire_sent k)
    show ?thesis
    proof (cases "w_pc w")
      case (Wire_shown xs)
      then have "shows_front xs (w_buf w)" using assms(1) by (simp add: wire_inv_def)
      then show ?thesis using assms(1) ab_Skip_step [OF ok, of xs k] Wire_shown Wire_sent
        by (auto simp: wire_inv_def)
    qed (use assms Wire_sent in \<open>auto simp: wire_inv_def\<close>)
  qed (use assms in \<open>auto simp: wire_inv_def\<close>)
qed

lemma wire_run_inv:
  "wire_inv (sum_list (map event_bytes es)) w \<Longrightarrow> Wire_look \<notin> set es \<Longrightarrow> \<exists>w'. wire_run es w = Some w' \<and> wire_inv 0 w'"
proof (induction es arbitrary: w)
  case (Cons e es)
  then obtain w' where "wire_step e w = Some w'" "wire_inv (sum_list (map event_bytes es)) w'"
    using wire_step_inv [of e "sum_list (map event_bytes es)" w] by auto
  then show ?case using Cons by auto
qed simp

text \<open>C19: As long as no write comes between the tests of \<open>ProcessBuffer\<close> and its last branch, the buffer between the
  threads refines a queue of bytes: no assertion fails, and what was written is what was sent followed by what is
  buffered, whatever the sizes of the writes and of the parts that \<open>writev\<close> takes are.\<close>

theorem async_buffer_in_order:
  assumes "ab_ok b" "ab_contents b = []" "Wire_look \<notin> set es" "sum_list (map event_bytes es) \<le> MAX_BUFFER_SIZE"
  shows "\<exists>w. wire_run es (wire_new b) = Some w \<and> w_written w = w_sent w @ ab_contents (w_buf w)"
  using wire_run_inv [of es "wire_new b"] assms by (auto simp: wire_inv_def wire_new_def)

lemma AsyncBuffer_new_ok:
  assumes "0 < n" "n \<le> 2 ^ 31"
  obtains b where "AsyncBuffer_new n = Some b" "ab_ok b" "ab_contents b = []" "Suc (cb_WritableSize (ab_buffer b)) \<ge> unat n"
    "cb_WritableSize (ab_buffer b) < 2 * unat n"
proof -
  have n63: "(2 :: 64 word) ^ 31 \<le> 2 ^ 63" by simp
  obtain r i where r: "Buffer_new n = Some r" "cb_ok r" "cb_contents r = []" "cb_maxSize r = 2 ^ i" "unat n \<le> 2 ^ i"
    "i = 0 \<or> 2 ^ (i - 1) < unat n"
    using Buffer_new_ok [OF assms(1) order_trans [OF assms(2)]] by (metis n63)
  let ?b = "\<lparr>ab_buffer = r, ab_tmpBuf = UnboundedBuffer_new, ab_backBytes = 0, ab_backBuf = UnboundedBuffer_new\<rparr>"
  have "(2 :: nat) ^ i \<le> 2 * unat n" using r(6) assms(1) by (cases i) (auto simp: unat_gt_0 Suc_le_eq)
  moreover have "i \<le> 31"
  proof (rule ccontr)
    assume i: "\<not> i \<le> 31"
    have "unat n \<le> 2 ^ 31" using assms(2) by (simp add: word_le_nat_alt)
    also have "\<dots> \<le> 2 ^ (i - 1)" using i by (intro power_increasing) simp_all
    finally show False using r(6) i by simp
  qed
  then have "cb_maxSize r \<le> 2 ^ 31" using r(4) power_increasing [of i 31 "2 :: nat"] by simp
  moreover have "cb_ReadableSize r = 0" using r(2,3) by (metis cb_contents_length list.size(3))
  ultimately show ?thesis using that [of ?b] r
    by (auto simp: AsyncBuffer_new_def ab_ok_def ab_contents_def ub_ok_def UnboundedBuffer_new_def ub_ReadableSize_def
        ub_contents_def cb_WritableSize_def)
qed

theorem async_buffer_in_order_witness:
  "\<exists>b w. AsyncBuffer_new 7 = Some b \<and>
    wire_run [Wire_write [''abc'', ''def''], Wire_process True, Wire_write [''ghi''], Wire_sent 2] (wire_new b) = Some w \<and>
    w_written w = w_sent w @ ab_contents (w_buf w)"
proof -
  have "0 < (7 :: 64 word)" "(7 :: 64 word) \<le> 2 ^ 31" by simp_all
  then obtain b where "AsyncBuffer_new 7 = Some b" "ab_ok b" "ab_contents b = []" by (rule AsyncBuffer_new_ok)
  then show ?thesis
    using async_buffer_in_order [of b "[Wire_write [''abc'', ''def''], Wire_process True, Wire_write [''ghi''], Wire_sent 2]"]
    by (auto simp: MAX_BUFFER_SIZE_def)
qed

text \<open>When the ring is filled and overflows after the network thread has found it empty, the overflow is sent before
  the bytes of the ring: the client gets the replies in the wrong order.\<close>

theorem async_buffer_race:
  assumes "ab_ok b" "ab_contents b = []" "length xs \<le> cb_WritableSize (ab_buffer b)"
    and "cb_WritableSize (ab_buffer b) < length xs + length ys" "ys \<noteq> []" "length ys \<le> MAX_BUFFER_SIZE"
  shows "\<exists>w. wire_run [Wire_look, Wire_write [xs], Wire_write [ys], Wire_swap True, Wire_sent (length ys)] (wire_new b) = Some w \<and>
    w_written w = xs @ ys \<and> w_sent w = ys"
proof -
  have e: "ub_contents (ab_tmpBuf b) = []" "cb_contents (ab_buffer b) = []" "ub_contents (ab_backBuf b) = []" "ab_backBytes b = 0"
    and ok: "cb_ok (ab_buffer b)" "ub_ok (ab_tmpBuf b)" "ub_ok (ab_backBuf b)"
    using assms(1,2) ub_contents_length [of "ab_backBuf b"] by (auto simp: ab_contents_def ab_ok_def)
  obtain ring where ring: "ab_Write [xs] b = Some (b\<lparr>ab_buffer := ring\<rparr>)" "cb_ok ring" "cb_contents ring = xs"
    "cb_maxSize ring = cb_maxSize (ab_buffer b)"
    using ab_Write_ring [OF assms(1) e(4), of "[xs]"] assms(3) e(2) by auto
  let ?b = "b\<lparr>ab_buffer := ring\<rparr>"
  have "cb_ReadableSize ring = length xs" "cb_ReadableSize (ab_buffer b) = 0"
    using cb_contents_length [OF ring(2)] cb_contents_length [OF ok(1)] e(2) by (simp_all add: ring(3))
  then have "cb_WritableSize ring < length ys" using assms(4,5) ring(4) by (cases ys) (auto simp: cb_WritableSize_def)
  then obtain bk where bk: "ab_Write [ys] ?b = Some (?b\<lparr>ab_backBuf := bk, ab_backBytes := ub_ReadableSize bk\<rparr>)"
      "ub_ok bk" "ub_contents bk = ys"
    using ab_Write_back [of ?b "[ys]"] assms(1,6) e ring(2,4) by (auto simp: ab_ok_def)
  have "ub_ReadableSize bk = length ys" using ub_contents_length [OF bk(2)] by (simp add: bk(3))
  then show ?thesis
    using assms(5) e bk ring(1) ub_datum_eq [OF bk(2)] empty_contents(1) [OF ok(2)] empty_contents(2) [OF ok(1)] empty_contents(1) [OF bk(2)]
    by (auto simp: wire_new_def wire_show_def ab_swap_back_def ab_Skip_def)
qed


theorem async_buffer_race_witness:
  "\<exists>b w. AsyncBuffer_new 7 = Some b \<and>
    wire_run [Wire_look, Wire_write [replicate 5 (CHR ''a'')], Wire_write [replicate 20 (CHR ''b'')], Wire_swap True, Wire_sent 20]
      (wire_new b) = Some w \<and>
    w_written w = replicate 5 (CHR ''a'') @ replicate 20 (CHR ''b'') \<and> w_sent w = replicate 20 (CHR ''b'')"
proof -
  have "0 < (7 :: 64 word)" "(7 :: 64 word) \<le> 2 ^ 31" by simp_all
  then obtain b where b: "AsyncBuffer_new 7 = Some b" "ab_ok b" "ab_contents b = []" "7 \<le> Suc (cb_WritableSize (ab_buffer b))"
    "cb_WritableSize (ab_buffer b) < 14" by (rule AsyncBuffer_new_ok) auto
  have "(20 :: nat) \<le> MAX_BUFFER_SIZE" by (simp add: MAX_BUFFER_SIZE_def)
  then show ?thesis
    using async_buffer_race [OF b(2,3), of "replicate 5 (CHR ''a'')" "replicate 20 (CHR ''b'')"] b(1,4,5) by auto
qed


subsection \<open>A connection\<close>

record StreamSocket =
  ss_recvBuf :: CircularBuffer
  ss_sendBuf :: AsyncBuffer
  ss_epollOut :: bool
  ss_polled :: bool

text \<open>
  What \<open>readv\<close> finds: waiting bytes, of which it takes as many as it is given room for, \<open>EAGAIN\<close> or another error. No
  bytes at all is the end of the stream. \<open>writev\<close> tells how many bytes it took.
\<close>

datatype read_result = Read_bytes string | Read_again | Read_failed

datatype write_result = Written nat | Write_again | Write_failed

definition Buffer_default :: CircularBuffer where
  "Buffer_default = \<lparr>cb_maxSize = 0, cb_readPos = 0, cb_writePos = 0, cb_buffer = []\<rparr>"

definition Recv :: "read_result \<Rightarrow> CircularBuffer \<Rightarrow> (int \<times> CircularBuffer) option" where
  "Recv r b =
     Option.bind (if cb_maxSize b = 0 then cb_InitCapacity (64 * 1024) b else Some b) (\<lambda>b.
     Option.bind (cb_GetSpace 0 b) (\<lambda>buffers.
       if buffers = [] then Some (0, b)
       else
         case r of
           Read_again \<Rightarrow> Some (0, b)
         | Read_failed \<Rightarrow> Some (-1, b)
         | Read_bytes xs \<Rightarrow>
             let xs = take (TotalBytes buffers) xs
             in map_option (\<lambda>buf. if xs = [] then (-2, b)
                    else (int (length xs), cb_AdjustWritePtr (length xs) (b\<lparr>cb_buffer := buf\<rparr>)))
                  (scatter buffers xs (cb_buffer b))))"

text \<open>The flag says that reading goes on; otherwise the descriptor is taken out of the poller.\<close>

definition OnReadable :: "read_result \<Rightarrow> StreamSocket \<Rightarrow> (bool \<times> StreamSocket) option" where
  "OnReadable r s = map_option (\<lambda>(nBytes, b). (0 \<le> nBytes, s\<lparr>ss_recvBuf := b\<rparr>)) (Recv r (ss_recvBuf s))"

definition SendPacket_bytes :: "string \<Rightarrow> StreamSocket \<Rightarrow> StreamSocket option" where
  "SendPacket_bytes xs s =
     (if xs \<noteq> [] then map_option (\<lambda>b. s\<lparr>ss_sendBuf := b\<rparr>) (ab_Write1 xs (ss_sendBuf s)) else Some s)"

text \<open>\<open>_Send\<close>: the result and \<open>epollOut_\<close>; a short write asks for the write event.\<close>

definition Send_raw :: "write_result \<Rightarrow> nat \<Rightarrow> bool \<Rightarrow> int \<times> bool" where
  "Send_raw r totalBytes epollOut =
     (if totalBytes = 0 then (0, epollOut)
      else
        case r of
          Write_again \<Rightarrow> (0, True)
        | Write_failed \<Rightarrow> (-1, epollOut)
        | Written n \<Rightarrow> (int n, if 0 < n \<and> n < totalBytes then True else if n = totalBytes then False else epollOut))"

definition Send_skip :: "int \<Rightarrow> AsyncBuffer \<Rightarrow> AsyncBuffer option" where
  "Send_skip nSent b = (if 0 < nSent then ab_Skip (nat nSent) b else Some b)"

text \<open>\<open>Send\<close> and \<open>OnWritable\<close> give their result, the bytes that went out and the connection.\<close>

definition Send :: "write_result \<Rightarrow> bool \<Rightarrow> StreamSocket \<Rightarrow> (bool \<times> string \<times> StreamSocket) option" where
  "Send r lock s =
     (if ss_epollOut s then Some (True, [], s)
      else
        Option.bind (ab_ProcessBuffer lock (ss_sendBuf s)) (\<lambda>(bf, b).
          let totalBytes = length bf; s = s\<lparr>ss_sendBuf := b\<rparr>
          in if totalBytes = 0 then Some (True, [], s)
             else
               case Send_raw r totalBytes (ss_epollOut s) of
                 (nSent, out) \<Rightarrow>
                   map_option (\<lambda>b. (0 \<le> nSent, take (nat nSent) bf,
                       s\<lparr>ss_sendBuf := b, ss_epollOut := out, ss_polled := ss_polled s \<or> out\<rparr>))
                     (Send_skip nSent b)))"

definition OnWritable :: "write_result \<Rightarrow> bool \<Rightarrow> StreamSocket \<Rightarrow> (bool \<times> string \<times> StreamSocket) option" where
  "OnWritable r lock s =
     Option.bind (ab_ProcessBuffer lock (ss_sendBuf s)) (\<lambda>(bf, b).
       let totalBytes = length bf
       in case (if 0 < totalBytes then Send_raw r totalBytes (ss_epollOut s) else (0, False)) of
            (nSent, out) \<Rightarrow>
              map_option (\<lambda>b. (0 \<le> nSent, take (nat nSent) bf,
                  s\<lparr>ss_sendBuf := b, ss_epollOut := out, ss_polled := ss_polled s \<and> out\<rparr>))
                (Send_skip nSent b))"

text \<open>
  The loop of \<open>DoMsgParse\<close>, with \<open>_HandlePacket\<close> as a parameter: it sees all unread bytes, and what it says it has
  consumed is skipped. A handler that consumes more than there is can keep it going for ever.
\<close>

partial_function (option) DoMsgParse_loop ::
  "(string \<Rightarrow> 's \<Rightarrow> (nat \<times> 's) option) \<Rightarrow> bool \<Rightarrow> CircularBuffer \<Rightarrow> 's \<Rightarrow> (bool \<times> CircularBuffer \<times> 's) option" where
  [code]: "DoMsgParse_loop handle busy b s =
     (if cb_IsEmpty b then Some (busy, b, s)
      else
        Option.bind (cb_GetDatum (cb_ReadableSize b) 0 b) (\<lambda>datum.
        Option.bind (handle (gather datum (cb_buffer b)) s) (\<lambda>(bodyLen, s).
          if 0 < bodyLen then DoMsgParse_loop handle True (cb_AdjustReadPtr bodyLen b) s else Some (busy, b, s))))"

definition DoMsgParse :: "(string \<Rightarrow> 's \<Rightarrow> (nat \<times> 's) option) \<Rightarrow> CircularBuffer \<Rightarrow> 's \<Rightarrow> (bool \<times> CircularBuffer \<times> 's) option" where
  "DoMsgParse handle b s = DoMsgParse_loop handle False b s"

subsection \<open>Receiving\<close>

lemma Recv_full: "cb_ok b \<Longrightarrow> cb_WritableSize b \<le> 1 \<Longrightarrow> Recv r b = Some (0, b)"
  using cb_GetSpace_step [of b] by (auto simp: Recv_def TotalBytes_def cb_ok_def neq_Nil_conv)

lemma Recv_bytes:
  assumes "cb_ok b" "1 < cb_WritableSize b" "xs \<noteq> []"
  defines "ys \<equiv> take (cb_WritableSize b) xs"
  shows "\<exists>b'. Recv (Read_bytes xs) b = Some (int (length ys), b') \<and> cb_ok b' \<and> cb_contents b' = cb_contents b @ ys \<and>
    cb_maxSize b' = cb_maxSize b"
proof -
  obtain space where s: "cb_GetSpace 0 b = Some space" "TotalBytes space = cb_WritableSize b"
    "scatter space ys (cb_buffer b) = Some (ring_put (cb_writePos b) ys (cb_buffer b))"
    using cb_GetSpace_step [OF assms(1)] assms(2) by (auto simp: ys_def)
  moreover have "space \<noteq> []" using s(2) assms(2) by (auto simp: TotalBytes_def)
  moreover have "ys \<noteq> []" "length ys \<le> cb_WritableSize b" "cb_maxSize b \<noteq> 0"
    using assms by (auto simp: ys_def cb_ok_def)
  ultimately show ?thesis
    using ring_put_step [OF assms(1), of ys] by (auto simp: Recv_def Let_def ys_def [symmetric] cb_AdjustWritePtr_def)
qed

lemma Recv_step:
  assumes "cb_ok b"
  shows "\<exists>n b'. Recv r b = Some (n, b') \<and> cb_ok b' \<and> cb_maxSize b' = cb_maxSize b \<and> prefix (cb_contents b) (cb_contents b')"
proof (cases "1 < cb_WritableSize b")
  case True
  obtain space where s: "cb_GetSpace 0 b = Some space" "TotalBytes space = cb_WritableSize b"
    "scatter space [] (cb_buffer b) = Some (ring_put (cb_writePos b) [] (cb_buffer b))"
    using cb_GetSpace_step [OF assms(1)] True by auto
  have "Recv r b \<noteq> None \<and> (\<forall>n b'. Recv r b = Some (n, b') \<longrightarrow> b' = b)" if "r = Read_bytes [] \<or> r = Read_again \<or> r = Read_failed"
    using that s assms True by (auto simp: Recv_def cb_ok_def Let_def)
  moreover have ?thesis if "r = Read_bytes xs" "xs \<noteq> []" for xs
    using Recv_bytes [OF assms True that(2)] that(1) by (auto simp: prefix_def)
  ultimately show ?thesis using assms by (cases r) force+
next
  case False
  then show ?thesis using Recv_full [OF assms] assms by simp
qed

subsection \<open>Sending\<close>

text \<open>C20: Whether the send thread or the write event drives it, and whatever part of the shown bytes \<open>writev\<close> takes, no
  byte is lost, repeated or moved: what goes out and what stays buffered is what was buffered. A connection that waits for
  the write event is registered for it.\<close>

theorem sending_keeps_bytes:
  assumes "ab_ok (ss_sendBuf s)" "ss_epollOut s \<longrightarrow> ss_polled s" "send = Send \<or> send = OnWritable \<and> ss_polled s"
    and "\<forall>n xs b. r = Written n \<and> ab_ProcessBuffer lock (ss_sendBuf s) = Some (xs, b) \<longrightarrow> n \<le> length xs"
  shows "\<exists>ok out s'. send r lock s = Some (ok, out, s') \<and> ab_contents (ss_sendBuf s) = out @ ab_contents (ss_sendBuf s') \<and>
    ab_ok (ss_sendBuf s') \<and> (ss_epollOut s' \<longrightarrow> ss_polled s')"
proof -
  obtain xs b where p: "ab_ProcessBuffer lock (ss_sendBuf s) = Some (xs, b)" "ab_ok b"
    "ab_contents b = ab_contents (ss_sendBuf s)" "shows_front xs b" using ab_ProcessBuffer_step [OF assms(1)] by blast
  have skip: "\<exists>b'. Send_skip n b = Some b' \<and> ab_ok b' \<and> ab_contents (ss_sendBuf s) = take (nat n) xs @ ab_contents b'"
    if "n \<le> int (length xs)" for n
    using ab_Skip_step [OF p(2,4), of "nat n"] that p(2,3) by (auto simp: Send_skip_def)
  obtain n out where raw: "Send_raw r (length xs) (ss_epollOut s) = (n, out)" by force
  have "n \<le> int (length xs)"
    using raw assms(4) p(1) by (auto simp: Send_raw_def split: if_splits write_result.splits)
  from assms(3) show ?thesis
  proof
    assume "send = Send"
    then show ?thesis
      using skip [OF \<open>n \<le> int (length xs)\<close>] skip [of 0] p raw assms(1,2) by (auto simp: Send_def Let_def)
  next
    assume "send = OnWritable \<and> ss_polled s"
    then show ?thesis
      using skip [OF \<open>n \<le> int (length xs)\<close>] skip [of 0] p raw by (auto simp: OnWritable_def Let_def)
  qed
qed


definition some_socket :: "AsyncBuffer \<Rightarrow> StreamSocket" where
  "some_socket b = \<lparr>ss_recvBuf = Buffer_default, ss_sendBuf = b, ss_epollOut = False, ss_polled = True\<rparr>"

theorem sending_keeps_bytes_witness:
  "\<exists>b b' ok out s'. AsyncBuffer_new 7 = Some b \<and> ab_Write1 (replicate 5 (CHR ''a'')) b = Some b' \<and>
    Send (Written 0) True (some_socket b') = Some (ok, out, s') \<and>
    out @ ab_contents (ss_sendBuf s') = replicate 5 (CHR ''a'')"
proof -
  have "0 < (7 :: 64 word)" "(7 :: 64 word) \<le> 2 ^ 31" by simp_all
  then obtain b where b: "AsyncBuffer_new 7 = Some b" "ab_ok b" "ab_contents b = []" by (rule AsyncBuffer_new_ok) auto
  moreover obtain b' where b': "ab_Write1 (replicate 5 (CHR ''a'')) b = Some b'" "ab_ok b'" "ab_contents b' = replicate 5 (CHR ''a'')"
    using ab_Write_step [OF b(2), of "[replicate 5 (CHR ''a'')]"] b(2,3) ub_contents_length [of "ab_backBuf b"]
    by (auto simp: ab_Write1_def ab_contents_def ab_ok_def MAX_BUFFER_SIZE_def)
  ultimately show ?thesis using sending_keeps_bytes [of "some_socket b'" Send "Written 0" True] by (fastforce simp: some_socket_def)
qed

subsection \<open>A pipeline of requests\<close>

text \<open>
  What the loop needs of a handler. \<open>ready\<close> says that no part of a request is pending, \<open>enc\<close> is a request on the
  wire: the handler takes the first request, whatever comes behind it, or nothing.
\<close>

locale packet_handler =
  fixes ready :: "'s \<Rightarrow> bool" and handle :: "string \<Rightarrow> 's \<Rightarrow> (nat \<times> 's) option" and enc :: "'r \<Rightarrow> string"
  assumes enc_nonempty: "enc r \<noteq> []"
    and handle_first: "ready s \<Longrightarrow> length (enc r @ rest) < 2 ^ 16 \<Longrightarrow> handle (enc r @ rest) s = handle (enc r) s"
    and handle_all: "ready s \<Longrightarrow> length (enc r) < 2 ^ 16 \<Longrightarrow> handle (enc r) s = Some (n, s') \<Longrightarrow> (n = 0 \<or> n = length (enc r)) \<and> ready s'"

text \<open>The requests one at a time, as if each had come alone; the list is what is left after one that was not taken.\<close>

fun one_by_one :: "(string \<Rightarrow> 's \<Rightarrow> (nat \<times> 's) option) \<Rightarrow> ('r \<Rightarrow> string) \<Rightarrow> 'r list \<Rightarrow> 's \<Rightarrow> ('r list \<times> 's) option" where
  "one_by_one h enc [] s = Some ([], s)"
| "one_by_one h enc (r # rs) s = Option.bind (h (enc r) s) (\<lambda>(n, s'). if n = 0 then Some (r # rs, s') else one_by_one h enc rs s')"

context packet_handler
begin

lemma pipeline:
  "cb_ok b \<Longrightarrow> cb_maxSize b \<le> 2 ^ 16 \<Longrightarrow> cb_contents b = concat (map enc rs) \<Longrightarrow> ready s \<Longrightarrow>
    (case one_by_one handle enc rs s of
       None \<Rightarrow> DoMsgParse_loop handle busy b s = None
     | Some (left, s') \<Rightarrow> \<exists>busy' b'. DoMsgParse_loop handle busy b s = Some (busy', b', s') \<and> cb_ok b' \<and>
         cb_contents b' = concat (map enc left) \<and> ready s')"
proof (induction rs arbitrary: b s busy)
  case Nil
  then have "DoMsgParse_loop handle busy b s = Some (busy, b, s)"
    by (subst DoMsgParse_loop.simps) (simp add: empty_contents(2))
  then show ?case using Nil by simp
next
  case (Cons r rs)
  have len: "length (enc r @ concat (map enc rs)) < 2 ^ 16"
    using Cons.prems(1-3) cb_contents_length [OF Cons.prems(1)] cb_ReadableSize_eq [OF Cons.prems(1)]
    by (auto simp: cb_ok_def split: if_splits)
  have ne: "\<not> cb_IsEmpty b" using Cons.prems(1,3) enc_nonempty [of r] by (simp add: empty_contents(2))
  obtain datum where d: "cb_GetDatum (cb_ReadableSize b) 0 b = Some datum" "gather datum (cb_buffer b) = cb_contents b"
    using cb_GetDatum_step [OF Cons.prems(1), of "cb_ReadableSize b"] Cons.prems(1) by auto
  have h: "handle (cb_contents b) s = handle (enc r) s" using handle_first [OF Cons.prems(4) len] Cons.prems(3) by simp
  show ?case
  proof (cases "handle (enc r) s")
    case None
    then show ?thesis using ne d h by (subst DoMsgParse_loop.simps) simp
  next
    case (Some ns)
    obtain n s' where ns: "ns = (n, s')" by force
    have all: "n = 0 \<or> n = length (enc r)" "ready s'" using handle_all [OF Cons.prems(4), of r n s'] len Some ns by auto
    show ?thesis
    proof (cases "n = 0")
      case True
      then have "DoMsgParse_loop handle busy b s = Some (busy, b, s')" using ne d h Some ns by (subst DoMsgParse_loop.simps) simp
      then show ?thesis using True Some ns all Cons.prems by simp
    next
      case False
      then have n: "n = length (enc r)" "0 < n" using all by auto
      let ?b = "cb_AdjustReadPtr n b"
      have step: "DoMsgParse_loop handle busy b s = DoMsgParse_loop handle True ?b s'"
        using ne d h Some ns n by (subst DoMsgParse_loop.simps) simp
      have "n \<le> cb_ReadableSize b" using Cons.prems(1,3) n by (simp flip: cb_contents_length)
      then have "cb_ok ?b" "cb_contents ?b = concat (map enc rs)" "cb_maxSize ?b = cb_maxSize b"
        using cb_skip_step [OF Cons.prems(1)] Cons.prems(3) n by (auto simp: cb_AdjustReadPtr_def)
      then show ?thesis using Cons.IH [of ?b s' True] all(2) Cons.prems(2) Some ns False step by (cases "one_by_one handle enc rs s'") auto
    qed
  qed
qed

end

end
