(* ===== verification/Receiving.thy ===== *)
theory Receiving
  imports Connection Sessions
begin

text \<open>
  The receiving side put together: the bytes of a client go through the ring buffer of its connection
  (\<open>QBase/StreamSocket.cc\<close>) to \<open>QClient::_HandlePacket\<close>. A pipeline of requests is handled like the same requests sent one
  at a time; a value too large for the ring never arrives; a request cut inside its argument count corrupts the ring.
\<close>

subsection \<open>The server as a handler of packets\<close>

definition parser_idle :: "QProtoParser \<Rightarrow> bool" where
  "parser_idle p \<longleftrightarrow> pa_multi p = -1 \<and> pa_paramLen p = -1 \<and> pa_numOfParam p = 0"

definition client_ready :: "client_id \<Rightarrow> server \<Rightarrow> bool" where
  "client_ready i s \<longleftrightarrow> (\<forall>c. map_of (clients s) i = Some c \<longrightarrow> parser_idle (parser c))"

lemma map_of_put_client [simp]: "map_of (clients (put_client i c s)) j = (if j = i then Some c else map_of (clients s) j)"
  by (simp add: put_client_def update_conv')

lemma client_ready_Reset: "client_ready i (Client_Reset i s)"
  by (auto simp: client_ready_def Client_Reset_def parser_idle_def Parser_Reset_def split: option.splits)

lemma HandlePacket_whole:
  assumes "client_ready i s" "length (SaveCommand ps @ rest) < 2 ^ 31"
  shows "HandlePacket L t tm i (SaveCommand ps @ rest) s =
    (case map_of (clients s) i of
       None \<Rightarrow> None
     | Some c \<Rightarrow> finish_request L t tm i (length (SaveCommand ps))
         (put_client i (c\<lparr>parser := \<lparr>pa_multi = int (length ps), pa_paramLen = -1, pa_numOfParam = length ps, pa_params = ps\<rparr>\<rparr>)
           (s\<lparr>current := Some i\<rparr>)))"
proof (cases "map_of (clients s) i")
  case None
  then show ?thesis by (simp add: HandlePacket_def)
next
  case (Some c)
  then have "parser_idle (parser c)" using assms(1) by (simp add: client_ready_def)
  then have "ParseRequest (SaveCommand ps @ rest) 0 (parser c) = Some (QParseResult_ok, length (SaveCommand ps),
      \<lparr>pa_multi = int (length ps), pa_paramLen = -1, pa_numOfParam = length ps, pa_params = ps\<rparr>)"
    using SaveCommand_ParseRequest [of "[]" ps rest "parser c"] assms(2) by (simp add: parser_idle_def)
  then show ?thesis using Some by (simp add: HandlePacket_def Let_def)
qed

interpretation server: packet_handler "client_ready i" "HandlePacket L t tm i" SaveCommand for L t tm i
proof unfold_locales
  fix ps :: "QString list" and rest :: string and s s' :: server and n :: nat
  show "SaveCommand ps \<noteq> []" by (simp add: SaveCommand_def WriteMultiBulkLong_def)
  show "HandlePacket L t tm i (SaveCommand ps @ rest) s = HandlePacket L t tm i (SaveCommand ps) s"
    if "client_ready i s" "length (SaveCommand ps @ rest) < 2 ^ 16"
    using HandlePacket_whole [OF that(1), of ps rest] HandlePacket_whole [OF that(1), of ps "[]"] that(2) by simp
  show "(n = 0 \<or> n = length (SaveCommand ps)) \<and> client_ready i s'"
    if "client_ready i s" "length (SaveCommand ps) < 2 ^ 16" "HandlePacket L t tm i (SaveCommand ps) s = Some (n, s')"
    using HandlePacket_whole [OF that(1), of ps "[]"] that(2,3)
    by (auto simp: finish_request_def client_ready_Reset split: option.splits if_splits)
qed

text \<open>C18: A pipeline: when several requests arrive at once, the server ends in the state, with the replies, that it reaches
  when each of them is handled alone, in their order; requests behind one that closes the connection stay unread.\<close>

theorem pipelined_like_one_by_one:
  assumes "cb_ok b" "cb_maxSize b = 64 * 1024" "cb_contents b = []" "client_ready i s"
    and "length (concat (map SaveCommand rs)) < 64 * 1024 - 1" "rs \<noteq> []"
  shows "\<exists>k b'. Recv (Read_bytes (concat (map SaveCommand rs))) b = Some (k, b') \<and>
    map_option (\<lambda>(busy, b, s). s) (DoMsgParse (HandlePacket L t tm i) b' s) =
    map_option snd (one_by_one (HandlePacket L t tm i) SaveCommand rs s)"
proof -
  let ?xs = "concat (map SaveCommand rs)"
  have "cb_ReadableSize b = 0" using assms(1,3) by (simp flip: cb_contents_length)
  then have w: "1 < cb_WritableSize b" "take (cb_WritableSize b) ?xs = ?xs"
    using assms(2,5) by (simp_all add: cb_WritableSize_def)
  have ne: "?xs \<noteq> []" using assms(6) by (cases rs) (simp_all add: SaveCommand_def WriteMultiBulkLong_def)
  obtain b' where b': "Recv (Read_bytes ?xs) b = Some (int (length ?xs), b')" "cb_ok b'" "cb_contents b' = ?xs"
    "cb_maxSize b' = cb_maxSize b" using Recv_bytes [OF assms(1) w(1) ne] w(2) assms(3) by auto
  then show ?thesis
    using server.pipeline [OF b'(2) _ b'(3) assms(4), of L t tm False] assms(2)
    by (fastforce simp: DoMsgParse_def split: option.splits)
qed

subsection \<open>Values too large for the ring\<close>

text \<open>A client whose parser waits for the rest of a value of \<open>n\<close> bytes.\<close>

definition awaits :: "client_id \<Rightarrow> nat \<Rightarrow> server \<Rightarrow> bool" where
  "awaits i n s \<longleftrightarrow> (\<exists>c. map_of (clients s) i = Some c \<and> pa_paramLen (parser c) = int n \<and> pa_multi (parser c) \<noteq> -1 \<and>
     int (pa_numOfParam (parser c)) < pa_multi (parser c))"

text \<open>What may change while it waits: the parser's list of parameters.\<close>

definition no_reply :: "client_id \<Rightarrow> server \<Rightarrow> server \<Rightarrow> bool" where
  "no_reply i s s' \<longleftrightarrow> s'\<lparr>current := None, clients := []\<rparr> = s\<lparr>current := None, clients := []\<rparr> \<and>
     map_option out (map_of (clients s') i) = map_option out (map_of (clients s) i) \<and>
     (\<forall>j. j \<noteq> i \<longrightarrow> map_of (clients s') j = map_of (clients s) j)"

lemma no_reply_trans: "no_reply i s s' \<Longrightarrow> no_reply i s' s'' \<Longrightarrow> no_reply i s s''"
  by (auto simp: no_reply_def)

lemma HandlePacket_awaits:
  assumes "awaits i n s" "length buf < n + 2" "n + 2 < 2 ^ 31"
  shows "\<exists>s'. HandlePacket L t tm i buf s = Some (0, s') \<and> awaits i n s' \<and> no_reply i s s'"
proof -
  obtain c where c: "map_of (clients s) i = Some c" "pa_paramLen (parser c) = int n" "pa_multi (parser c) \<noteq> -1"
    "int (pa_numOfParam (parser c)) < pa_multi (parser c)" using assms(1) by (auto simp: awaits_def)
  have "wrap32 (int (length buf)) = int (length buf)" "wrap32 (int n + 2) = int n + 2"
    using assms(2,3) by (auto intro!: wrap32_id)
  then have val: "ParseStrval buf 0 (parser c) r = Some (QParseResult_wait, 0, parser c, r)" for r
    using assms(2) c(2) by (intro ParseStrval_short) (auto simp: avail_def)
  have "ParseStr buf 0 (parser c) r = Some (QParseResult_wait, 0, parser c, r)" for r
    using val c(2) by (simp add: ParseStr_def)
  then have "\<exists>ps. ParseRequest buf 0 (parser c) = Some (QParseResult_wait, 0, (parser c)\<lparr>pa_params := ps\<rparr>)"
    using c(3,4) by (auto simp: ParseRequest_def Let_def ParseStrlist.simps [of buf 0])
  then show ?thesis
    using c by (auto simp: HandlePacket_def Let_def awaits_def no_reply_def put_client_def)
qed

text \<open>Rounds of the receiving thread and the server thread on one connection.\<close>

fun socket_rounds :: "(string \<Rightarrow> 's \<Rightarrow> (nat \<times> 's) option) \<Rightarrow> read_result list \<Rightarrow> CircularBuffer \<times> 's \<Rightarrow> (CircularBuffer \<times> 's) option" where
  "socket_rounds handle [] bs = Some bs"
| "socket_rounds handle (r # rs) (b, s) =
     Option.bind (Recv r b) (\<lambda>(_, b).
     Option.bind (DoMsgParse handle b s) (\<lambda>(_, b, s). socket_rounds handle rs (b, s)))"

text \<open>C23: A value of 65534 bytes or more never arrives: whatever and however often the client sends, the server goes on
  waiting, executes nothing and replies nothing, because the ring of 64 KB is full before the value is complete.\<close>

theorem large_value_never_arrives:
  assumes "cb_ok b" "cb_maxSize b = 64 * 1024" "awaits i n s" "65534 \<le> n" "n + 2 < 2 ^ 31"
  shows "\<exists>b' s'. socket_rounds (HandlePacket L t tm i) rs (b, s) = Some (b', s') \<and> awaits i n s' \<and> no_reply i s s'"
  using assms(1-3)
proof (induction rs arbitrary: b s)
  case Nil
  then show ?case by (simp add: no_reply_def)
next
  case (Cons r rs)
  obtain k b' where b': "Recv r b = Some (k, b')" "cb_ok b'" "cb_maxSize b' = 64 * 1024"
    using Recv_step [OF Cons.prems(1), of r] Cons.prems(2) by auto
  have "cb_ReadableSize b' < 64 * 1024"
    using b'(2,3) cb_ReadableSize_eq [OF b'(2)] by (auto simp: cb_ok_def split: if_splits)
  then have "length (cb_contents b') < n + 2" using b'(2) assms(4) by simp
  from HandlePacket_awaits [OF Cons.prems(3) this assms(5)] obtain s' where s': "HandlePacket L t tm i (cb_contents b') s = Some (0, s')"
    "awaits i n s'" "no_reply i s s'" by blast
  obtain datum where d: "cb_GetDatum (cb_ReadableSize b') 0 b' = Some datum" "gather datum (cb_buffer b') = cb_contents b'"
    using cb_GetDatum_step [OF b'(2), of "cb_ReadableSize b'"] b'(2) by auto
  have "\<exists>busy s''. DoMsgParse (HandlePacket L t tm i) b' s = Some (busy, b', s'') \<and> awaits i n s'' \<and> no_reply i s s''"
    using d s' Cons.prems(3)
    by (cases "cb_IsEmpty b'") (auto simp: DoMsgParse_def DoMsgParse_loop.simps [of _ _ b'] no_reply_def)
  then obtain busy s'' where "DoMsgParse (HandlePacket L t tm i) b' s = Some (busy, b', s'')" "awaits i n s''" "no_reply i s s''" by blast
  then show ?case using Cons.IH [OF b'(2,3), of s''] b'(1) by (auto intro: no_reply_trans)
qed


subsection \<open>A request cut in its header\<close>

lemma HandlePacket_cut:
  assumes "client_ready i s" "map_of (clients s) i = Some c" "100 \<le> n" "n < 2 ^ 31"
  shows "\<exists>s'. HandlePacket L t tm i (''*'' @ show_nat n) s = Some (length (''*'' @ show_nat n) + 2, s')"
proof -
  let ?buf = "''*'' @ show_nat n"
  have p: "parser_idle (parser c)" using assms(1,2) by (simp add: client_ready_def)
  have "ParseStr ?buf (length ?buf + 2) q r = Some (QParseResult_wait, length ?buf + 2, q, r)" if "pa_paramLen q = -1" for q r
    using that by (simp add: ParseStr_def ParseStrlen_def avail_def)
  then have "\<exists>q. ParseRequest ?buf 0 (parser c) = Some (QParseResult_wait, length ?buf + 2, q)"
    using p header_cut_in_digits [OF assms(3,4)] assms(3)
    by (auto simp: ParseRequest_def parser_idle_def Let_def ParseStrlist.simps [of _ "length ?buf + 2"]
        ParseStrlist.simps [of _ "Suc (Suc (Suc (length (show_nat n))))"])
  then show ?thesis using assms(2) by (auto simp: HandlePacket_def Let_def)
qed

text \<open>When the bytes that have arrived end inside the argument count of a request, the loop skips two bytes more than
  there are: the ring then counts as filled up to two bytes, and the parser is handed its old contents.\<close>

theorem cut_header_corrupts_ring:
  assumes "cb_ok b" "cb_contents b = ''*'' @ show_nat n" "client_ready i s" "map_of (clients s) i = Some c"
    and "100 \<le> n" "n < 2 ^ 31" "length (''*'' @ show_nat n) + 2 < cb_maxSize b"
  shows "\<exists>b' s'. DoMsgParse (HandlePacket L t tm i) b s = DoMsgParse_loop (HandlePacket L t tm i) True b' s' \<and>
    cb_ReadableSize b' = cb_maxSize b - 2"
proof -
  let ?n = "length (''*'' @ show_nat n)" and ?r = "cb_readPos b" and ?w = "cb_writePos b" and ?m = "cb_maxSize b"
  let ?b = "cb_AdjustReadPtr (?n + 2) b"
  obtain s' where s': "HandlePacket L t tm i (cb_contents b) s = Some (?n + 2, s')"
    using HandlePacket_cut [OF assms(3-6), of L t tm] assms(2) by auto
  obtain datum where d: "cb_GetDatum (cb_ReadableSize b) 0 b = Some datum" "gather datum (cb_buffer b) = cb_contents b"
    using cb_GetDatum_step [OF assms(1), of "cb_ReadableSize b"] assms(1) by auto
  have "\<not> cb_IsEmpty b" using empty_contents(2) [OF assms(1)] assms(2) by simp
  then have "DoMsgParse (HandlePacket L t tm i) b s = DoMsgParse_loop (HandlePacket L t tm i) True ?b s'"
    using d s' by (simp add: DoMsgParse_def DoMsgParse_loop.simps [of _ _ b])
  moreover have "cb_ReadableSize ?b = ?m - 2"
  proof -
    have p: "?r < ?m" "?w < ?m" using assms(1) by (auto simp: cb_ok_def)
    have R: "(if ?r \<le> ?w then ?w - ?r else ?m + ?w - ?r) = ?n"
      using cb_contents_length [OF assms(1)] cb_ReadableSize_eq [OF assms(1)] assms(2) by simp
    have r': "cb_readPos ?b = (if ?r + (?n + 2) < ?m then ?r + (?n + 2) else ?r + (?n + 2) - ?m)"
      using cb_mask_add [OF assms(1) p(1) assms(7)] by (simp add: cb_AdjustReadPtr_def)
    have ok: "cb_ok ?b" using assms(1,7) r' p by (auto simp: cb_ok_def cb_AdjustReadPtr_def)
    show ?thesis
      using cb_ReadableSize_eq [OF ok] r' R p assms(7) by (auto simp: cb_AdjustReadPtr_def split: if_splits)
  qed
  ultimately show ?thesis by blast
qed

subsection \<open>Concrete connections\<close>

definition connected :: server where
  "connected = put_client 7 client_new server_new"

definition waiting_client :: qclient where
  "waiting_client = client_new\<lparr>parser := \<lparr>pa_multi = 3, pa_paramLen = 100000, pa_numOfParam = 2, pa_params = [''set'', ''k'']\<rparr>\<rparr>"

lemma receive_ring:
  obtains b where "Buffer_new (64 * 1024) = Some b" "cb_ok b" "cb_contents b = []" "cb_maxSize b = 64 * 1024"
proof -
  have "0 < (64 * 1024 :: 64 word)" "(64 * 1024 :: 64 word) \<le> 2 ^ 63" by simp_all
  then obtain b i where b: "Buffer_new (64 * 1024) = Some b" "cb_ok b" "cb_contents b = []" "cb_maxSize b = 2 ^ i"
    "unat (64 * 1024 :: 64 word) \<le> 2 ^ i" "i = 0 \<or> 2 ^ (i - 1) < unat (64 * 1024 :: 64 word)" by (rule Buffer_new_ok)
  have i: "2 ^ 16 \<le> (2 :: nat) ^ i" "i = 0 \<or> (2 :: nat) ^ (i - 1) < 2 ^ 16" using b(5,6) by simp_all
  then have "16 \<le> i" "i \<le> 16" by (simp_all only: power_increasing_iff power_strict_increasing_iff) linarith+
  then show ?thesis using that b by auto
qed

lemma connected_ready: "client_ready 7 connected" "map_of (clients connected) 7 = Some client_new"
  by (simp_all add: client_ready_def connected_def client_new_def QProtoParser_new_def parser_idle_def)

theorem pipelined_like_one_by_one_witness:
  "\<exists>b k b'. Buffer_new (64 * 1024) = Some b \<and>
    Recv (Read_bytes (concat (map SaveCommand [[''ping''], [''select'', ''3'']]))) b = Some (k, b') \<and>
    map_option (\<lambda>(busy, b, s). s) (DoMsgParse (HandlePacket sample_libs [] \<lparr>t_sec = 0, t_begin = 0, t_end = 0\<rparr> 7) b' connected) =
    map_option snd (one_by_one (HandlePacket sample_libs [] \<lparr>t_sec = 0, t_begin = 0, t_end = 0\<rparr> 7) SaveCommand
      [[''ping''], [''select'', ''3'']] connected)"
proof -
  obtain b where b: "Buffer_new (64 * 1024) = Some b" "cb_ok b" "cb_contents b = []" "cb_maxSize b = 64 * 1024" by (rule receive_ring)
  have "length (concat (map SaveCommand [[''ping''], [''select'', ''3'']])) < 100" by code_simp
  then have "length (concat (map SaveCommand [[''ping''], [''select'', ''3'']])) < 64 * 1024 - 1" by linarith
  then show ?thesis
    using pipelined_like_one_by_one [OF b(2,4,3) connected_ready(1), of "[[''ping''], [''select'', ''3'']]"] b(1) by blast
qed

theorem large_value_never_arrives_witness:
  "\<exists>b b' s'. Buffer_new (64 * 1024) = Some b \<and>
    socket_rounds (HandlePacket sample_libs [] \<lparr>t_sec = 0, t_begin = 0, t_end = 0\<rparr> 7) [Read_bytes ''abc'', Read_again, Read_bytes ''def'']
      (b, put_client 7 waiting_client server_new) = Some (b', s') \<and> awaits 7 100000 s'"
proof -
  obtain b where b: "Buffer_new (64 * 1024) = Some b" "cb_ok b" "cb_contents b = []" "cb_maxSize b = 64 * 1024" by (rule receive_ring)
  have "awaits 7 100000 (put_client 7 waiting_client server_new)" by (simp add: awaits_def waiting_client_def)
  then show ?thesis
    using large_value_never_arrives [OF b(2,4), of 7 100000 _ sample_libs "[]" _ "[Read_bytes ''abc'', Read_again, Read_bytes ''def'']"] b(1)
    by force
qed

theorem cut_header_corrupts_ring_witness:
  "\<exists>b b' b'' s'. Buffer_new (64 * 1024) = Some b \<and> Recv (Read_bytes ''*123'') b = Some (4, b') \<and>
    DoMsgParse (HandlePacket sample_libs [] \<lparr>t_sec = 0, t_begin = 0, t_end = 0\<rparr> 7) b' connected =
    DoMsgParse_loop (HandlePacket sample_libs [] \<lparr>t_sec = 0, t_begin = 0, t_end = 0\<rparr> 7) True b'' s' \<and>
    cb_ReadableSize b'' = 65534"
proof -
  obtain b where b: "Buffer_new (64 * 1024) = Some b" "cb_ok b" "cb_contents b = []" "cb_maxSize b = 64 * 1024" by (rule receive_ring)
  have "cb_ReadableSize b = 0" using b(2,3) by (simp flip: cb_contents_length)
  then obtain b' where b': "Recv (Read_bytes ''*123'') b = Some (4, b')" "cb_ok b'" "cb_contents b' = ''*123''"
    "cb_maxSize b' = 64 * 1024"
    using Recv_bytes [OF b(2), of "''*123''"] b(3,4) by (auto simp: cb_WritableSize_def)
  have "show_nat 123 = ''123''" by code_simp
  then show ?thesis
    using cut_header_corrupts_ring [OF b'(2) _ connected_ready, of 123 sample_libs "[]" "\<lparr>t_sec = 0, t_begin = 0, t_end = 0\<rparr>"] b' b(1)
    by auto
qed

end
