(* ===== verification/Rewrite.thy ===== *)
theory Rewrite
  imports Serving Sets Hashes SortedSets Keys Commands
begin

text \<open>
  QedisCore/QAOF.cc, the rewriting of the log: the child of BGREWRITEAOF writes one command per key, and the server
  that starts with such a log executes it (QedisSvr/Qedis.cc). A rewritten log restores every database.
\<close>

subsection \<open>Writing objects\<close>

definition SaveExpire :: "QString \<Rightarrow> u64 \<Rightarrow> string" where
  "SaveExpire key absMs =
     WriteBulkLong 3 @ WriteBulkString ''expire'' @ WriteBulkString key @ WriteBulkLong (unat absMs)"

definition SaveStringObject :: "QString \<Rightarrow> qobject \<Rightarrow> string option" where
  "SaveStringObject key obj =
     map_option (\<lambda>str. WriteMultiBulkLong 3 @ WriteBulkString ''set'' @ WriteBulkString key @ WriteBulkString str)
       (GetDecodedString obj)"

definition SaveListObject :: "QString \<Rightarrow> qobject \<Rightarrow> string option" where
  "SaveListObject key obj =
     map_option (\<lambda>l. if l = [] then []
         else WriteMultiBulkLong (length l + 2) @ WriteBulkString ''rpush'' @ WriteBulkString key @ concat (map WriteBulkString l))
       (CastList (oval obj))"

definition SaveSetObject :: "QString \<Rightarrow> qobject \<Rightarrow> string option" where
  "SaveSetObject key obj =
     map_option (\<lambda>l. if l = [] then []
         else WriteMultiBulkLong (length l + 2) @ WriteBulkString ''sadd'' @ WriteBulkString key @ concat (map WriteBulkString l))
       (CastSet (oval obj))"

definition SaveZSetObject :: "QString \<Rightarrow> qobject \<Rightarrow> string option" where
  "SaveZSetObject key obj =
     map_option (\<lambda>z. if zSize z = 0 then []
         else WriteMultiBulkLong (2 * zSize z + 2) @ WriteBulkString ''zadd'' @ WriteBulkString key @
           concat (map (\<lambda>(member, score). WriteBulkString (Double2Str 32 score) @ WriteBulkString member) (zmembers z)))
       (CastSortedSet (oval obj))"

definition SaveHashObject :: "QString \<Rightarrow> qobject \<Rightarrow> string option" where
  "SaveHashObject key obj =
     map_option (\<lambda>h. if h = [] then []
         else WriteMultiBulkLong (2 * length h + 2) @ WriteBulkString ''hmset'' @ WriteBulkString key @
           concat (map (\<lambda>(f, v). WriteBulkString f @ WriteBulkString v) h))
       (CastHash (oval obj))"

definition SaveObject :: "QString \<Rightarrow> qobject \<Rightarrow> string option" where
  "SaveObject key obj =
     (case otype obj of
        QType_string \<Rightarrow> SaveStringObject key obj
      | QType_list \<Rightarrow> SaveListObject key obj
      | QType_set \<Rightarrow> SaveSetObject key obj
      | QType_sortedSet \<Rightarrow> SaveZSetObject key obj
      | QType_hash \<Rightarrow> SaveHashObject key obj
      | _ \<Rightarrow> None)"

subsection \<open>The child\<close>

text \<open>
  The loop over the keys of a database. \<open>TTL\<close> deletes a key whose deadline has passed from the table that the loop
  iterates over, which is fatal.
\<close>

fun RewriteProcess_keys :: "u64 \<Rightarrow> (QString \<times> qobject) list \<Rightarrow> server \<Rightarrow> string option" where
  "RewriteProcess_keys t [] s = Some []"
| "RewriteProcess_keys t ((key, obj) # kvs) s =
     (case TTL key t s of
        (ttl, _) \<Rightarrow>
          if ttl = expired then None
          else
            Option.bind (SaveObject key obj) (\<lambda>bytes.
              map_option (\<lambda>rest. bytes @ (if 0 < ttl then SaveExpire key (word_of_int ttl + t) else []) @ rest)
                (RewriteProcess_keys t kvs s)))"

text \<open>The loop over the databases, which ends at the first number that cannot be selected; \<open>clock\<close> is read once for each.\<close>

function RewriteProcess_dbs :: "(nat \<Rightarrow> u64) \<Rightarrow> nat \<Rightarrow> server \<Rightarrow> string option" where
  "RewriteProcess_dbs clock db s =
     (case SelectDB (int db) s of
        (r, s) \<Rightarrow>
          if r = -1 then Some []
          else if DBSize s = 0 then RewriteProcess_dbs clock (Suc db) s
          else
            Option.bind (RewriteProcess_keys (clock db) (cur_db s) s) (\<lambda>bytes.
              map_option (\<lambda>rest. WriteMultiBulkLong 2 @ WriteBulkString ''select'' @ WriteBulkLong db @ bytes @ rest)
                (RewriteProcess_dbs clock (Suc db) s)))"
  by pat_completeness auto
termination
  by (relation "measure (\<lambda>(clock, db, s). max (length (store s)) (Suc (dbno s)) - db)")
    (auto simp: SelectDB_def split: if_splits)

declare RewriteProcess_dbs.simps [simp del]

definition RewriteProcess :: "(nat \<Rightarrow> u64) \<Rightarrow> server \<Rightarrow> string option" where
  "RewriteProcess clock s = RewriteProcess_dbs clock 0 s"

definition bgrewriteaof_cmd :: "int \<Rightarrow> handler" where
  "bgrewriteaof_cmd pid params r s =
     (if rewritePid s \<noteq> -1 then Some (QError_ok, PushData (''-ERR aof already in progress'' @ CRLF) r, s)
      else
        let s = s\<lparr>rewritePid := pid\<rparr>
        in if pid = -1 then Some (QError_ok, PushData (''-ERR aof rewrite failed'' @ CRLF) r, s)
           else Some (QError_ok, FormatOK r, s))"

subsection \<open>Starting from a log\<close>

text \<open>
  \<open>LoadDbFromDisk\<close> executes the commands without a client and without a reply. \<^const>\<open>None\<close>: a command died, or the log was
  refused, and the server starts from its RDB file.
\<close>

definition load_cmd :: "command_table \<Rightarrow> QString list \<Rightarrow> server \<Rightarrow> server option" where
  "load_cmd t cmd s =
     (if cmd = [] then None
      else map_option (\<lambda>(err, r, s). s) (ExecuteCmd (run_command t) cmd (GetCommandInfo (hd cmd) t) None s))"

fun load_cmds :: "command_table \<Rightarrow> QString list list \<Rightarrow> server \<Rightarrow> server option" where
  "load_cmds t [] s = Some s"
| "load_cmds t (cmd # cmds) s = Option.bind (load_cmd t cmd s) (load_cmds t cmds)"

definition LoadDbFromAof :: "command_table \<Rightarrow> string \<Rightarrow> server \<Rightarrow> server option" where
  "LoadDbFromAof t content s =
     (case AOF_Load content of
        Some (True, cmds) \<Rightarrow> load_cmds t cmds s
      | _ \<Rightarrow> None)"

subsection \<open>The commands of a rewritten log\<close>

fun save_cmd :: "QString \<Rightarrow> qvalue \<Rightarrow> QString list list" where
  "save_cmd k (VRaw x) = [[''set'', k, x]]"
| "save_cmd k (VInt n) = [[''set'', k, show_int n]]"
| "save_cmd k (VList l) = (if l = [] then [] else [''rpush'' # k # l])"
| "save_cmd k (VSet l) = (if l = [] then [] else [''sadd'' # k # l])"
| "save_cmd k (VSSet z) = (if zmembers z = [] then [] else [''zadd'' # k # concat (map (\<lambda>(m, d). [Double2Str 32 d, m]) (zmembers z))])"
| "save_cmd k (VHash h) = (if h = [] then [] else [''hmset'' # k # concat (map (\<lambda>(g, v). [g, v]) h)])"
| "save_cmd k VNull = []"

lemma length_pairs: "length (concat (map (\<lambda>(a, b). [g a b, h a b]) xs)) = 2 * length xs"
  by (induction xs) auto

lemma concat_pairs: "concat (map w (concat (map (\<lambda>(a, b). [g a b, h a b]) xs))) = concat (map (\<lambda>(a, b). w (g a b) @ w (h a b)) xs)"
  by (induction xs) auto

lemma SaveObject_cmd: "obj_ok ob \<Longrightarrow> SaveObject k ob = Some (concat (map SaveCommand (save_cmd k (oval ob))))"
  by (cases "oval ob")
    (simp_all add: obj_ok_def SaveObject_def SaveStringObject_def SaveListObject_def SaveSetObject_def SaveZSetObject_def SaveHashObject_def
      GetDecodedString_def SaveCommand_def zSize_def length_pairs concat_pairs eval_nat_numeral)


subsection \<open>Executing them\<close>

text \<open>
  What a value of a key becomes: integers in strings are normalised, an empty collection is gone, and a score is what \<open>Strtod\<close>
  reads from its six digits.
\<close>

definition printed_score :: "strtod \<Rightarrow> double \<Rightarrow> double" where
  "printed_score st d = the (Strtod st (Double2Str 32 d))"

fun restored :: "strtod \<Rightarrow> qvalue \<Rightarrow> qvalue option \<Rightarrow> bool" where
  "restored st (VRaw x) v = (v = Some (oval (CreateString x)))"
| "restored st (VInt n) v = (v = Some (VInt n))"
| "restored st (VList l) v = (v = (if l = [] then None else Some (VList l)))"
| "restored st (VSet l) v = (if l = [] then v = None else \<exists>l'. v = Some (VSet l') \<and> set l' = set l)"
| "restored st (VHash h) v = (if h = [] then v = None else \<exists>h'. v = Some (VHash h') \<and> map_of h' = map_of h)"
| "restored st (VSSet z) v = (if zmembers z = [] then v = None
     else \<exists>z'. v = Some (VSSet z') \<and> (\<forall>m. map_of (zmembers z') m = map_option (printed_score st) (map_of (zmembers z) m)))"
| "restored st VNull v = False"

lemma find_command: "(n, a, k, h) \<in> set (s_info L) \<Longrightarrow> GetCommandInfo n (Table_Init L) = Some (info_of (n, a, k, h))"
  unfolding GetCommandInfo_def by (rule table_find_Some [OF Table_Init_distinct]) (force simp: Table_Init_entries)+

lemma load_plain:
  assumes "(n, a, k, Plain h) \<in> set (s_info L)" "CheckParamsCount (info_of (n, a, k, Plain h)) (int (length args + 1))"
    and "h (n # args) None s = Some (e, r, s')"
  shows "load_cmd (Table_Init L) (n # args) s = Some s'"
  using find_command [OF assms(1)] assms(2,3)
  by (simp add: load_cmd_def ExecuteCmd_def info_of_def)


text \<open>One key: it was not there, and afterwards it holds the value.\<close>

definition restores :: "strtod \<Rightarrow> QString \<Rightarrow> qvalue \<Rightarrow> server \<Rightarrow> server \<Rightarrow> bool" where
  "restores st k v s s' \<longleftrightarrow> store_ok s' \<and> frame s s' \<and> restored st v (vis s' k) \<and> (\<forall>j. j \<noteq> k \<longrightarrow> vis s' j = vis s j)"

lemma restores_string:
  assumes "store_ok s" "v = VRaw x \<or> v = VInt n \<and> x = show_int n \<and> value_ok v"
  shows "\<exists>s'. load_cmd (Table_Init L) [''set'', k, x] s = Some s' \<and> restores (lib_strtod L) k v s s'"
proof -
  from SetString_step [OF assms(1), of k x] obtain s' where s': "SetString k x False s = (True, s')" "store_ok s'" "frame s s'"
    "vis s' = (vis s)(k \<mapsto> oval (CreateString x))" .
  have "load_cmd (Table_Init L) (''set'' # [k, x]) s = Some s'"
    by (rule load_plain [where a = QAttr_write and k = 3 and h = set_cmd and e = QError_ok])
      (use s'(1) in \<open>auto simp: s_info_def CheckParamsCount_def info_of_def set_cmd_def FormatOK_def PushData_def\<close>)
  moreover have "oval (CreateString (show_int n)) = VInt n" if "value_ok (VInt n)"
    using that by (simp add: CreateString_def)
  ultimately show ?thesis using assms(2) s' by (auto simp: restores_def)
qed

lemma restores_list:
  assumes "store_ok s" "vis s k = None" "l \<noteq> []"
  shows "\<exists>s'. load_cmd (Table_Init L) (''rpush'' # k # l) s = Some s' \<and> restores (lib_strtod L) k (VList l) s s'"
proof -
  obtain s1 where g: "GetValueByType k QType_list s = (Inl QError_notExist, s1)" "store_ok s1" "frame s s1" "vis s1 = vis s"
    "\<not> is_expired s1 k" by (rule get_no_list [OF assms(1,2)])
  define ob where "ob = fst (SetValue k CreateList s1)"
  define s2 where "s2 = snd (SetValue k CreateList s1)"
  have sv: "SetValue k CreateList s1 = (ob, s2)" by (simp add: ob_def s2_def)
  have st: "store_ok s2" "frame s1 s2" "vis s2 = (vis s1)(k \<mapsto> VList [])" "oval ob = VList []" "obj_ok ob"
    using set_step [OF g(2), of CreateList k] g(5) by (simp_all add: ob_def s2_def)
  have "\<not> is_expired s2 k" using st(3) vis_def [of s2 k] by (auto split: if_splits)
  note p = put_list_step [OF st(1,5) _ this, of l]
  have e: "push_elems Pos_tail l [] = l" by (simp add: push_elems_eq)
  have "load_cmd (Table_Init L) (''rpush'' # k # l) s = Some (put_obj k (ob\<lparr>oval := VList l\<rparr>) s2)"
    by (rule load_plain [where a = QAttr_write and k = "-3" and h = rpush_cmd and e = QError_nop])
      (use assms(3) st(4) in \<open>auto simp: s_info_def CheckParamsCount_def info_of_def rpush_cmd_def push_def g(1) sv e Let_def FormatInt_def PushData_def neq_Nil_conv\<close>)
  then show ?thesis using p st(3,4) g(4) assms(3) frame_trans [OF g(3) frame_trans [OF st(2) p(3)]] by (auto simp: restores_def)
qed

lemma restores_set:
  assumes "store_ok s" "vis s k = None" "l \<noteq> []"
  shows "\<exists>s'. load_cmd (Table_Init L) (''sadd'' # k # l) s = Some s' \<and> restores (lib_strtod L) k (VSet l) s s'"
proof -
  have "vis s k = None \<and> [] = [] \<or> vis s k = Some (VSet [])" using assms(2) by simp
  from set_obj.with_new_get [OF assms(1) this] obtain ob s1 where
    g: "\<And>miss hit. with_new CastSet QType_set CreateSet miss hit k s = hit ob [] s1" "store_ok s1"
      "frame s s1" "vis s1 = (vis s)(k \<mapsto> VSet [])" "oval ob = VSet []" "obj_ok ob" "\<not> is_expired s1 k" by metis
  obtain n l' where l: "insert_all l [] = (n, l')" by (cases "insert_all l []")
  then have i: "distinct l'" "set l' = set l" using insert_all_spec [OF l] by simp_all
  note p = put_set_step [OF g(2,6,5) i(1) g(7)]
  have "load_cmd (Table_Init L) (''sadd'' # k # l) s = Some (put_set k ob l' s1)"
    by (rule load_plain [where a = QAttr_write and k = "-3" and h = sadd_cmd and e = QError_ok])
      (use assms(3) in \<open>auto simp: s_info_def CheckParamsCount_def info_of_def sadd_cmd_def g(1) l FormatInt_def PushData_def neq_Nil_conv\<close>)
  then show ?thesis using p(1,2) g(4) i(2) assms(3) frame_trans [OF g(3) p(3)] by (auto simp: restores_def)
qed

lemma map_of_rev: "distinct (map fst xs) \<Longrightarrow> map_of (rev xs) = map_of xs"
proof (induction xs)
  case (Cons x xs)
  then have "map_of xs (fst x) = None" by (auto simp: map_of_eq_None_iff)
  then show ?case using Cons by (cases x) (auto simp: fun_eq_iff map_add_def split: option.split)
qed simp

lemma restores_hash:
  assumes "store_ok s" "vis s k = None" "h \<noteq> []" "keys_distinct h"
  shows "\<exists>s'. load_cmd (Table_Init L) (''hmset'' # k # concat (map (\<lambda>(f, v). [f, v]) h)) s = Some s' \<and> restores (lib_strtod L) k (VHash h) s s'"
proof -
  let ?ps = "concat (map (\<lambda>(f, v). [f, v]) h)"
  obtain h0 :: "(QString \<times> QString) list" where h0: "h0 = []" by simp
  then have "vis s k = None \<and> h0 = [] \<or> vis s k = Some (VHash h0)" using assms(2) by simp
  from hash_obj.with_new_get [OF assms(1) this] obtain ob s1 where
    g: "\<And>miss hit. with_new CastHash QType_hash CreateHash miss hit k s = hit ob h0 s1" "store_ok s1"
      "frame s s1" "vis s1 = (vis s)(k \<mapsto> VHash h0)" "oval ob = VHash h0" "obj_ok ob" "keys_distinct h0" "\<not> is_expired s1 k" by metis
  note p = put_hash_step [OF g(2,6,5) hmset_loop_distinct [OF g(7)] g(8), of ?ps]
  have "map_of (rev h) = map_of h" using assms(4) by (simp add: keys_distinct_def map_of_rev)
  then have m: "map_of (hmset_loop ?ps h0) = map_of h" using hmset_loop_map [OF g(7), of h] h0 by simp
  have len: "length ?ps = 2 * length h" by (rule length_pairs)
  have "load_cmd (Table_Init L) (''hmset'' # k # ?ps) s = Some (put_hash k ob (hmset_loop ?ps h0) s1)"
    by (rule load_plain [where a = QAttr_write and k = "-4" and h = hmset_cmd and e = QError_ok])
      (use assms(3) len in \<open>auto simp: s_info_def CheckParamsCount_def info_of_def hmset_cmd_def g(1) FormatOK_def PushData_def neq_Nil_conv\<close>)
  then show ?thesis using p(1,2) g(4) m assms(3) frame_trans [OF g(3) p(3)] by (auto simp: restores_def)
qed

text \<open>\<open>Strtod\<close> reads the text of a score, and as a number.\<close>

definition score_parses :: "strtod \<Rightarrow> double \<Rightarrow> bool" where
  "score_parses st d = (case Strtod st (Double2Str 32 d) of None \<Rightarrow> False | Some d' \<Rightarrow> \<not> dbl_nan d')"

lemma zadd_loop_adds:
  "zset_ok z \<Longrightarrow> \<forall>(m, d) \<in> set ms. score_parses st d \<and> map_of (zmembers z) m = None \<Longrightarrow> distinct (map fst ms) \<Longrightarrow>
    \<exists>z' n'. zadd_loop st (concat (map (\<lambda>(m, d). [Double2Str 32 d, m]) ms)) n z = Some (True, n', z') \<and> zset_ok z' \<and>
      map_of (zmembers z') = map_of (zmembers z) ++ (\<lambda>m. map_option (printed_score st) (map_of ms m))"
proof (induction ms arbitrary: z n)
  case Nil
  have "map_of (zmembers z) = map_of (zmembers z) ++ (\<lambda>m. map_option (printed_score st) (map_of [] m))"
    by (simp add: fun_eq_iff map_add_def)
  then show ?case using Nil by simp
next
  case (Cons p ms)
  obtain m d where p: "p = (m, d)" by (cases p)
  let ?d = "printed_score st d"
  have d: "Strtod st (Double2Str 32 d) = Some ?d" "\<not> dbl_nan ?d"
    using Cons.prems(2) p by (auto simp: score_parses_def printed_score_def split: option.splits)
  from Cons.prems p d(2) AddMember_step [OF Cons.prems(1), of m ?d] obtain z1 where
    z1: "AddMember m ?d z = Some z1" "zset_ok z1" "map_of (zmembers z1) = (map_of (zmembers z))(m \<mapsto> ?d)" by auto
  have "\<forall>(m, d) \<in> set ms. score_parses st d \<and> map_of (zmembers z1) m = None"
    using Cons.prems(2,3) p z1(3) by (fastforce simp: image_iff)
  moreover have "distinct (map fst ms)" "map_of ms m = None" using Cons.prems(3) p by (auto simp: map_of_eq_None_iff)
  ultimately obtain z' n' where z': "zadd_loop st (concat (map (\<lambda>(m, d). [Double2Str 32 d, m]) ms)) (Suc n) z1 = Some (True, n', z')"
    "zset_ok z'" "map_of (zmembers z') = map_of (zmembers z1) ++ (\<lambda>m. map_option (printed_score st) (map_of ms m))"
    using Cons.IH [OF z1(2), of "Suc n"] by blast
  have "map_of (zmembers z') = map_of (zmembers z) ++ (\<lambda>m. map_option (printed_score st) (map_of (p # ms) m))"
    unfolding z'(3) z1(3) p using \<open>map_of ms m = None\<close> by (auto simp: fun_eq_iff map_add_def split: option.split)
  moreover have "zadd_loop st (concat (map (\<lambda>(m, d). [Double2Str 32 d, m]) (p # ms))) n z = Some (True, n', z')"
    using z'(1) d(1) p z1(1) Cons.prems(2) by simp
  ultimately show ?case using z'(2) by blast
qed

lemma restores_zset:
  assumes "store_ok s" "vis s k = None" "zmembers z \<noteq> []" "zset_ok z" "\<forall>(m, d) \<in> set (zmembers z). score_parses (lib_strtod L) d"
  shows "\<exists>s'. load_cmd (Table_Init L) (''zadd'' # k # concat (map (\<lambda>(m, d). [Double2Str 32 d, m]) (zmembers z))) s = Some s' \<and>
    restores (lib_strtod L) k (VSSet z) s s'"
proof -
  let ?ps = "concat (map (\<lambda>(m, d). [Double2Str 32 d, m]) (zmembers z))" and ?z0 = "\<lparr>zscores = [], zmembers = []\<rparr>"
  have "vis s k = None \<and> ?z0 = ?z0 \<or> vis s k = Some (VSSet ?z0)" using assms(2) by simp
  from zset_obj.with_new_get [OF assms(1) this] obtain ob s1 where
    g: "\<And>miss hit. with_new CastSortedSet QType_sortedSet CreateSSet miss hit k s = hit ob ?z0 s1" "store_ok s1" "frame s s1"
      "vis s1 = (vis s)(k \<mapsto> VSSet ?z0)" "oval ob = VSSet ?z0" "obj_ok ob" "zset_ok ?z0" "\<not> is_expired s1 k" by metis
  have "\<forall>(m, d) \<in> set (zmembers z). score_parses (lib_strtod L) d \<and> map_of (zmembers ?z0) m = None"
    "distinct (map fst (zmembers z))" using assms(4,5) by (auto simp: zset_ok_def keys_distinct_def)
  from zadd_loop_adds [OF g(7) this, of 0] obtain z' n where z': "zadd_loop (lib_strtod L) ?ps 0 ?z0 = Some (True, n, z')"
    "zset_ok z'" "\<forall>m. map_of (zmembers z') m = map_option (printed_score (lib_strtod L)) (map_of (zmembers z) m)"
    by (auto simp: map_add_def)
  note p = zset_obj.put_value [OF g(2,6,5) z'(2) g(8)]
  have len: "length ?ps = 2 * length (zmembers z)" by (rule length_pairs)
  have "load_cmd (Table_Init L) (''zadd'' # k # ?ps) s = Some (put_zset k ob z' s1)"
    by (rule load_plain [where a = QAttr_write and k = "-4" and h = "zadd_cmd (lib_strtod L)" and e = QError_ok])
      (use assms(3) len z'(1) in \<open>auto simp: s_info_def CheckParamsCount_def info_of_def zadd_cmd_def g(1) FormatInt_def PushData_def neq_Nil_conv\<close>)
  then show ?thesis using p(1,2) g(4) z'(3) assms(3) frame_trans [OF g(3) p(3)] by (auto simp: restores_def put_zset_def)
qed


text \<open>The scores of a value can be read back: a property of the C library's parser.\<close>

fun scores_parse :: "libs \<Rightarrow> qvalue \<Rightarrow> bool" where
  "scores_parse L (VSSet z) = list_all (\<lambda>(m, d). score_parses (lib_strtod L) d) (zmembers z)"
| "scores_parse L _ = True"

lemma load_cmds_append: "load_cmds t (xs @ ys) s = Option.bind (load_cmds t xs s) (load_cmds t ys)"
proof (induction xs arbitrary: s)
  case (Cons x xs)
  then show ?case by (cases "load_cmd t x s") simp_all
qed simp

lemma restores_value:
  assumes "store_ok s" "vis s k = None" "value_ok v" "scores_parse L v"
  shows "\<exists>s'. load_cmds (Table_Init L) (save_cmd k v) s = Some s' \<and> restores (lib_strtod L) k v s s'"
proof -
  have one: "load_cmds t [c] s = load_cmd t c s" for t c by (cases "load_cmd t c s") simp_all
  show ?thesis
  proof (cases "restored (lib_strtod L) v None")
    case True
    moreover have "save_cmd k v = []" using True by (cases v) (auto split: if_splits)
    ultimately show ?thesis using assms(1,2) by (simp add: restores_def)
  next
    case False
    show ?thesis
    proof (cases v)
      case (VList l)
      then have "l \<noteq> []" using False by auto
      then show ?thesis using restores_list [OF assms(1,2), of l L] VList by (simp add: one del: load_cmds.simps)
    next
      case (VSet l)
      then have "l \<noteq> []" using False by auto
      then show ?thesis using restores_set [OF assms(1,2), of l L] VSet by (simp add: one del: load_cmds.simps)
    next
      case (VHash h)
      then have "h \<noteq> []" using False by auto
      then show ?thesis using restores_hash [OF assms(1,2), of h L] VHash assms(3) by (simp add: one del: load_cmds.simps)
    next
      case (VSSet z)
      then have "zmembers z \<noteq> []" using False by auto
      then show ?thesis using restores_zset [OF assms(1,2), of z L] VSSet assms(3,4)
        by (simp add: one list_all_iff del: load_cmds.simps)
    qed (use restores_string [OF assms(1), of v _ _ L k] assms(3) in \<open>simp_all add: one del: load_cmds.simps\<close>)
  qed
qed

text \<open>The keys of one database.\<close>

definition db_cmds :: "(QString \<times> qobject) list \<Rightarrow> QString list list" where
  "db_cmds kvs = concat (map (\<lambda>(k, ob). save_cmd k (oval ob)) kvs)"

lemma restores_db:
  assumes "store_ok s" "keys_distinct kvs" "\<forall>(k, ob) \<in> set kvs. vis s k = None \<and> obj_ok ob \<and> scores_parse L (oval ob)"
  shows "\<exists>s'. load_cmds (Table_Init L) (db_cmds kvs) s = Some s' \<and> store_ok s' \<and> frame s s' \<and>
    (\<forall>k ob. map_of kvs k = Some ob \<longrightarrow> restored (lib_strtod L) (oval ob) (vis s' k)) \<and> (\<forall>k. map_of kvs k = None \<longrightarrow> vis s' k = vis s k)"
  using assms
proof (induction kvs arbitrary: s)
  case Nil
  then show ?case by (simp add: db_cmds_def)
next
  case (Cons e kvs)
  obtain k ob where e: "e = (k, ob)" by (cases e)
  have k: "k \<notin> fst ` set kvs" "keys_distinct kvs" using Cons.prems(2) e by (auto simp: keys_distinct_def)
  obtain s1 where s1: "load_cmds (Table_Init L) (save_cmd k (oval ob)) s = Some s1" "restores (lib_strtod L) k (oval ob) s s1"
    using restores_value [OF Cons.prems(1), of k "oval ob" L] Cons.prems(3) e by (auto simp: obj_ok_def)
  have ok: "store_ok s1" "\<forall>j. j \<noteq> k \<longrightarrow> vis s1 j = vis s j" using s1(2) by (simp_all add: restores_def)
  have "\<forall>(j, ob) \<in> set kvs. vis s1 j = None \<and> obj_ok ob \<and> scores_parse L (oval ob)"
  proof (clarify)
    fix j ob assume "(j, ob) \<in> set kvs"
    moreover from this have "j \<noteq> k" using k(1) by force
    ultimately show "vis s1 j = None \<and> obj_ok ob \<and> scores_parse L (oval ob)" using Cons.prems(3) ok(2) by auto
  qed
  from Cons.IH [OF ok(1) k(2) this] obtain s' where s': "load_cmds (Table_Init L) (db_cmds kvs) s1 = Some s'" "store_ok s'" "frame s1 s'"
    "\<forall>k ob. map_of kvs k = Some ob \<longrightarrow> restored (lib_strtod L) (oval ob) (vis s' k)" "\<forall>k. map_of kvs k = None \<longrightarrow> vis s' k = vis s1 k"
    by blast
  have "load_cmds (Table_Init L) (db_cmds (e # kvs)) s = Some s'"
    using s1(1) s'(1) e by (simp add: db_cmds_def load_cmds_append)
  have "map_of kvs k = None" using k(1) by (simp add: map_of_eq_None_iff)
  then have "restored (lib_strtod L) (oval ob) (vis s' k)" "\<forall>j. j \<noteq> k \<longrightarrow> map_of kvs j = None \<longrightarrow> vis s' j = vis s j"
    using s'(5) s1(2) by (simp_all add: restores_def)
  moreover have "frame s s'" using s1(2) s'(3) frame_trans by (auto simp: restores_def)
  ultimately show ?case using s'(2,4) \<open>load_cmds (Table_Init L) (db_cmds (e # kvs)) s = Some s'\<close> e by simp
qed

lemma atoi_show_nat: "db < 2 ^ 31 \<Longrightarrow> atoi (show_nat db) = int db"
proof -
  assume db: "db < 2 ^ 31"
  have "takeWhile (in_base 10) (show_nat db) = show_nat db" "base_value 10 (show_nat db) = int db"
    using show_nat_digits [of db] by (simp_all add: takeWhile_eq_all_conv in_base10 base10_value)
  then have "atoi (show_nat db) = wrap32 (if LONG_MAX < int db then LONG_MAX else int db)"
    by (simp only: atoi_def show_nat_no_space show_nat_sign Let_def prod.case) (simp add: LONG_MIN_def)
  then show ?thesis using db by (simp add: LONG_MAX_def wrap32_id)
qed

lemma load_select:
  assumes "current s = None" "db < 2 ^ 31"
  shows "load_cmd (Table_Init L) [''select'', show_nat db] s = Some (snd (SelectDB (int db) s))"
  by (rule load_plain [where a = QAttr_read and k = 2 and h = select_cmd and e = QError_ok])
    (use assms in \<open>auto simp: s_info_def CheckParamsCount_def info_of_def select_cmd_def Current_def atoi_show_nat\<close>)


subsection \<open>All databases\<close>

definition rewrite_cmds :: "server \<Rightarrow> nat \<Rightarrow> QString list list" where
  "rewrite_cmds s d =
     concat (map (\<lambda>i. if store s ! i = [] then [] else [''select'', show_nat i] # db_cmds (store s ! i)) [d..<length (store s)])"

definition no_deadlines :: "'a qstore_scheme \<Rightarrow> bool" where
  "no_deadlines s \<longleftrightarrow> (\<forall>ex \<in> set (expiresDb s). ex = [])"

lemma rewrite_cmds_step:
  "rewrite_cmds s d = (if d < length (store s)
     then (if store s ! d = [] then [] else [''select'', show_nat d] # db_cmds (store s ! d)) @ rewrite_cmds s (Suc d) else [])"
  by (simp add: rewrite_cmds_def upt_conv_Cons)

lemma rewrite_cmds_dbno: "rewrite_cmds (s\<lparr>dbno := x\<rparr>) = rewrite_cmds s"
  by (simp add: rewrite_cmds_def fun_eq_iff cong: if_cong)

lemma frame_current: "frame (s :: server) s' \<Longrightarrow> current s' = current s"
  by (auto simp: frame_def)

lemma RewriteProcess_keys_cmds:
  assumes "store_ok s" "no_deadlines s" "\<forall>(k, ob) \<in> set kvs. map_of (cur_db s) k \<noteq> None \<and> obj_ok ob"
  shows "RewriteProcess_keys t kvs s = Some (concat (map SaveCommand (db_cmds kvs)))"
  using assms(3)
proof (induction kvs)
  case Nil
  then show ?case by (simp add: db_cmds_def)
next
  case (Cons e kvs)
  obtain k ob where e: "e = (k, ob)" by (cases e)
  have "cur_exp s = []" using assms(1,2) by (simp add: no_deadlines_def cur_exp_def store_ok_def)
  then have "TTL k t s = (persist, s)" using Cons.prems e store_ok_current(5) [OF assms(1)]
    by (auto simp: TTL_def ExistsKey_def GetObject_memory ExpireIfNeed_def)
  then show ?case using Cons e SaveObject_cmd [of ob k] by (simp add: db_cmds_def persist_def expired_def)
qed

lemma RewriteProcess_dbs_cmds:
  assumes "store_ok s" "no_deadlines s"
  shows "RewriteProcess_dbs clock d s = Some (concat (map SaveCommand (rewrite_cmds s d)))"
  using assms
proof (induction "length (store s) - d" arbitrary: d s)
  case 0
  then show ?case by (subst RewriteProcess_dbs.simps) (auto simp: SelectDB_def rewrite_cmds_step [of s d] store_ok_def)
next
  case (Suc n)
  let ?s = "s\<lparr>dbno := d\<rparr>"
  have d: "d < length (store s)" using Suc.hyps(2) by simp
  have sel: "\<exists>r. SelectDB (int d) s = (r, ?s) \<and> r \<noteq> -1" by (auto simp: SelectDB_def d)
  have ok: "store_ok ?s" "no_deadlines ?s" "n = length (store ?s) - Suc d"
    using Suc.prems Suc.hyps(2) d by (simp_all add: store_ok_def no_deadlines_def)
  have "db_ok (store s ! d)" using Suc.prems(1) d by (simp add: store_ok_def)
  then have "\<forall>(k, ob) \<in> set (store s ! d). map_of (cur_db ?s) k \<noteq> None \<and> obj_ok ob"
    by (force simp: db_ok_def cur_db_def map_of_eq_None_iff)
  note keys = RewriteProcess_keys_cmds [OF ok(1,2) this, of "clock d"]
  have rest: "RewriteProcess_dbs clock (Suc d) ?s = Some (concat (map SaveCommand (rewrite_cmds s (Suc d))))"
    using Suc.hyps(1) [OF ok(3,1,2)] by (simp add: rewrite_cmds_dbno)
  have "SaveCommand [''select'', show_nat d] = WriteMultiBulkLong 2 @ WriteBulkString ''select'' @ WriteBulkLong d"
    by (simp add: SaveCommand_def WriteBulkLong_def eval_nat_numeral)
  then show ?case
    using sel keys rest d by (subst RewriteProcess_dbs.simps) (auto simp: rewrite_cmds_step [of s d] DBSize_def cur_db_def)
qed

text \<open>The database that is selected at the end: the last one that is not empty.\<close>

definition last_selected :: "server \<Rightarrow> nat \<Rightarrow> nat \<Rightarrow> nat" where
  "last_selected s d c = fold (\<lambda>i c. if store s ! i = [] then c else i) [d..<length (store s)] c"

lemma last_selected_step:
  "last_selected s d c = (if d < length (store s) then last_selected s (Suc d) (if store s ! d = [] then c else d) else c)"
  by (simp add: last_selected_def upt_conv_Cons)

lemma load_rewritten:
  assumes "store_ok s" "\<forall>db \<in> set (store s). \<forall>(k, ob) \<in> set db. scores_parse L (oval ob)" "length (store s) < 2 ^ 31"
    and "store_ok s0" "length (store s0) = length (store s)" "current s0 = None" "\<forall>i\<ge>d. i < length (store s) \<longrightarrow> vis_at i s0 = Map.empty"
    and "d \<le> length (store s)"
  shows "\<exists>s'. load_cmds (Table_Init L) (rewrite_cmds s d) s0 = Some s' \<and> store_ok s' \<and>
    dbno s' = last_selected s d (dbno s0) \<and> (\<forall>i<d. vis_at i s' = vis_at i s0) \<and>
    (\<forall>i k. d \<le> i \<and> i < length (store s) \<longrightarrow>
       (case map_of (store s ! i) k of None \<Rightarrow> vis_at i s' k = None | Some ob \<Rightarrow> restored (lib_strtod L) (oval ob) (vis_at i s' k)))"
  using assms(4-8)
proof (induction "length (store s) - d" arbitrary: d s0)
  case 0
  then show ?case by (auto simp: rewrite_cmds_step [of s d] last_selected_step [of s d])
next
  case (Suc n)
  have d: "d < length (store s)" using Suc.hyps(2) by simp
  let ?db = "store s ! d"
  have db: "db_ok ?db" "\<forall>(k, ob) \<in> set ?db. scores_parse L (oval ob)" using assms(1,2) d by (auto simp: store_ok_def)
  obtain s1 where s1: "load_cmds (Table_Init L) (if ?db = [] then [] else [''select'', show_nat d] # db_cmds ?db) s0 = Some s1"
    "store_ok s1" "length (store s1) = length (store s)" "current s1 = None" "\<forall>i. i \<noteq> d \<longrightarrow> vis_at i s1 = vis_at i s0"
    "dbno s1 = (if ?db = [] then dbno s0 else d)"
    "\<forall>k. case map_of ?db k of None \<Rightarrow> vis_at d s1 k = None | Some ob \<Rightarrow> restored (lib_strtod L) (oval ob) (vis_at d s1 k)"
  proof (cases "?db = []")
    case True
    then show ?thesis using that [of s0] Suc.prems d by simp
  next
    case False
    let ?s = "s0\<lparr>dbno := d\<rparr>"
    have sel: "snd (SelectDB (int d) s0) = ?s" using d Suc.prems(2) by (auto simp: SelectDB_def)
    have ok: "store_ok ?s" using Suc.prems(1,2) d by (simp add: store_ok_def)
    have "vis ?s = Map.empty" using Suc.prems(4) d by simp
    then have "\<forall>(k, ob) \<in> set ?db. vis ?s k = None \<and> obj_ok ob \<and> scores_parse L (oval ob)" "keys_distinct ?db"
      using db by (auto simp: db_ok_def)
    from restores_db [OF ok this(2,1)] obtain s1 where s1: "load_cmds (Table_Init L) (db_cmds ?db) ?s = Some s1" "store_ok s1"
      "frame ?s s1" "\<forall>k ob. map_of ?db k = Some ob \<longrightarrow> restored (lib_strtod L) (oval ob) (vis s1 k)"
      "\<forall>k. map_of ?db k = None \<longrightarrow> vis s1 k = vis ?s k" by blast
    have "dbno s1 = d" "length (store s1) = length (store s)" "current s1 = None"
      using frame_fields [OF s1(3)] frame_current [OF s1(3)] Suc.prems(2,3) by simp_all
    moreover have "vis_at d s1 = vis s1" using vis_at_dbno [of s1] \<open>dbno s1 = d\<close> by simp
    moreover have "vis_at i s1 = vis_at i s0" if "i \<noteq> d" for i using frame_vis_at [OF s1(3), of i] that by simp
    moreover have "d < 2 ^ 31" using d assms(3) by simp
    ultimately show ?thesis
      using that [of s1] s1 False load_select [OF Suc.prems(3), of d L] sel \<open>vis ?s = Map.empty\<close> Suc.prems(3)
      by (auto split: option.split)
  qed
  have "\<forall>i\<ge>Suc d. i < length (store s) \<longrightarrow> vis_at i s1 = Map.empty" "Suc d \<le> length (store s)" "n = length (store s) - Suc d"
    using s1(5) Suc.prems(4) Suc.hyps(2) d by auto
  from Suc.hyps(1) [OF this(3) s1(2-4) this(1,2)] obtain s' where s': "load_cmds (Table_Init L) (rewrite_cmds s (Suc d)) s1 = Some s'"
    "store_ok s'" "dbno s' = last_selected s (Suc d) (dbno s1)" "\<forall>i<Suc d. vis_at i s' = vis_at i s1"
    "\<forall>i k. Suc d \<le> i \<and> i < length (store s) \<longrightarrow>
       (case map_of (store s ! i) k of None \<Rightarrow> vis_at i s' k = None | Some ob \<Rightarrow> restored (lib_strtod L) (oval ob) (vis_at i s' k))" by blast
  have "load_cmds (Table_Init L) (rewrite_cmds s d) s0 = Some s'"
    using s1(1) s'(1) d by (subst rewrite_cmds_step) (simp add: load_cmds_append)
  moreover have "case map_of (store s ! i) k of None \<Rightarrow> vis_at i s' k = None | Some ob \<Rightarrow> restored (lib_strtod L) (oval ob) (vis_at i s' k)"
    if "d \<le> i" "i < length (store s)" for i k
  proof (cases "i = d")
    case True
    have "vis_at d s' = vis_at d s1" using s'(4) by simp
    then show ?thesis unfolding True using spec [OF s1(7), of k] by (cases "map_of (store s ! d) k") simp_all
  qed (use that s'(5) in auto)
  moreover have "dbno s' = last_selected s d (dbno s0)" using s'(3) s1(6) d by (simp add: last_selected_step [of s d])
  ultimately show ?case using s'(2,4) s1(5) by auto
qed

lemma load_append:
  assumes "length (concat (map SaveCommand cmds)) < 2 ^ 31" "cmds \<noteq> []"
  shows "LoadDbFromAof t (concat (map SaveCommand cmds)) s = load_cmds t cmds s"
proof -
  have "concat (map SaveCommand cmds) \<noteq> []" using assms(2) by (cases cmds) (simp_all add: SaveCommand_def WriteMultiBulkLong_def)
  then show ?thesis using AOF_Load_loop_commands [of "[]" cmds QProtoParser_new "[]"] assms(1)
    by (auto simp: AOF_Load_def LoadDbFromAof_def)
qed

text \<open>The six digits of \<open>Double2Str\<close> are fewer than a score has.\<close>

lemma score_digits_lost: "Double2Str 32 (long_to_dbl 1234567) = ''1.23457e+06''"
proof -
  have "dbl_exp (long_to_dbl 1234567) = 1043" "dbl_frac (long_to_dbl 1234567) = 798825262350336" "\<not> dbl_sign (long_to_dbl 1234567)"
    by (simp_all add: long_to_dbl_def Let_def top_bit.simps dbl_exp_def dbl_frac_def dbl_sign_def)
  moreover have "digit_char 1 = CHR ''1''" "digit_char 2 = CHR ''2''" "digit_char 3 = CHR ''3''" "digit_char 4 = CHR ''4''"
    "digit_char 5 = CHR ''5''" "digit_char 6 = CHR ''6''" "digit_char 7 = CHR ''7''"
    by code_simp+
  ultimately show ?thesis
    by (simp add: Double2Str_def printf_g6_def Let_def show_g6_def six_digits_def decimal_exp_def round_div_def show_nat.simps
        with_point_def strip_zeros_def show_exp_def)
qed



text \<open>A key whose deadline has passed, but that is still stored, is fatal for the child: the loop goes on from a node that
  is gone.\<close>

theorem rewrite_of_expired_dies:
  assumes "store_ok s" "cur_db s = (k, ob) # kvs" "map_of (cur_exp s) k = Some due" "due \<le> t"
  shows "RewriteProcess_keys t (cur_db s) s = None"
proof -
  have "\<not> t < due" using assms(4) by simp
  then show ?thesis using assms(2,3) store_ok_current(5) [OF assms(1)]
    by (simp add: TTL_def ExistsKey_def GetObject_memory ExpireIfNeed_def)
qed

lemma AOF_Load_loop_stops:
  assumes "length (pre @ concat (map SaveCommand cmds) @ ''$'' @ rest) < 2 ^ 31" "2 \<le> length rest"
  shows "AOF_Load_loop (pre @ concat (map SaveCommand cmds) @ ''$'' @ rest) (length pre) p acc = Some (False, acc @ cmds)"
  using assms(1)
proof (induction cmds arbitrary: pre p acc)
  case Nil
  have "ParseRequest (pre @ ''$'' @ rest) (length pre) (Parser_Reset p) = Some (QParseResult_error, length pre, Parser_Reset p)"
    using assms(2) by (simp add: ParseRequest_def Parser_Reset_def ParseMulti_def avail_def nth_append)
  then show ?case by (simp add: AOF_Load_loop.simps [of _ "length pre"])
next
  case (Cons c cmds)
  let ?buf = "pre @ SaveCommand c @ concat (map SaveCommand cmds) @ ''$'' @ rest"
  let ?q = "\<lparr>pa_multi = int (length c), pa_paramLen = -1, pa_numOfParam = length c, pa_params = c\<rparr>"
  have "ParseRequest ?buf (length pre) (Parser_Reset p) = Some (QParseResult_ok, length pre + length (SaveCommand c), ?q)"
    using Cons.prems by (intro SaveCommand_ParseRequest) (simp_all add: Parser_Reset_def)
  moreover have "length pre < length ?buf" by (simp add: SaveCommand_def WriteMultiBulkLong_def)
  ultimately have "AOF_Load_loop ?buf (length pre) p acc = AOF_Load_loop ?buf (length (pre @ SaveCommand c)) ?q (acc @ [c])"
    by (simp add: AOF_Load_loop.simps [of _ "length pre"])
  then show ?case using Cons.IH [of "pre @ SaveCommand c" ?q "acc @ [c]"] Cons.prems by simp
qed

text \<open>
  What the child writes: commands alone, or, once a key has a deadline that is still to come, commands up to a bulk string where
  a count should be.
\<close>

definition log_stops :: "string \<Rightarrow> bool" where
  "log_stops bytes \<longleftrightarrow> (\<exists>cmds rest. bytes = concat (map SaveCommand cmds) @ ''$'' @ rest \<and> 2 \<le> length rest)"

definition log_form :: "bool \<Rightarrow> string \<Rightarrow> bool" where
  "log_form stops bytes \<longleftrightarrow> (if stops then log_stops bytes else \<exists>cmds. bytes = concat (map SaveCommand cmds))"

lemma log_form_append:
  assumes "log_form a xs" "log_form b ys"
  shows "log_form (a \<or> b) (xs @ ys)"
proof (cases a)
  case True
  then obtain cmds rest where "xs = concat (map SaveCommand cmds) @ ''$'' @ rest" "2 \<le> length rest"
    using assms(1) by (auto simp: log_form_def log_stops_def)
  then have "xs @ ys = concat (map SaveCommand cmds) @ ''$'' @ (rest @ ys)" "2 \<le> length (rest @ ys)" by simp_all
  then show ?thesis using True unfolding log_form_def log_stops_def by metis
next
  case False
  then obtain cmds where xs: "xs = concat (map SaveCommand cmds)" using assms(1) by (auto simp: log_form_def)
  show ?thesis
  proof (cases b)
    case True
    then obtain cmds' rest where "ys = concat (map SaveCommand cmds') @ ''$'' @ rest" "2 \<le> length rest"
      using assms(2) by (auto simp: log_form_def log_stops_def)
    then have "xs @ ys = concat (map SaveCommand (cmds @ cmds')) @ ''$'' @ rest" "2 \<le> length rest" using xs by simp_all
    then show ?thesis using True unfolding log_form_def log_stops_def by metis
  next
    case b: False
    then obtain cmds' where "ys = concat (map SaveCommand cmds')" using assms(2) by (auto simp: log_form_def)
    then have "xs @ ys = concat (map SaveCommand (cmds @ cmds'))" using xs by simp
    then show ?thesis using False b unfolding log_form_def by metis
  qed
qed

lemma log_form_cmds: "log_form False (concat (map SaveCommand cmds))"
  by (auto simp: log_form_def)

lemma log_form_expire: "log_form True (SaveExpire k d)"
proof -
  have "SaveExpire k d = concat (map SaveCommand []) @ ''$'' @ tl (SaveExpire k d)" "2 \<le> length (tl (SaveExpire k d))"
    by (simp_all add: SaveExpire_def WriteBulkLong_def WriteBulkString_def CRLF_def)
  then show ?thesis unfolding log_form_def log_stops_def by metis
qed

text \<open>A deadline of a key that is still to come for the clock \<open>t\<close>.\<close>

definition deadline_ahead :: "u64 \<Rightarrow> (QString \<times> u64) list \<Rightarrow> QString \<Rightarrow> bool" where
  "deadline_ahead t ex k = (case map_of ex k of None \<Rightarrow> False | Some due \<Rightarrow> 0 < sint (due - t))"

lemma RewriteProcess_keys_form:
  assumes "store_ok s" "\<forall>(k, ob) \<in> set kvs. map_of (cur_db s) k \<noteq> None \<and> obj_ok ob" "RewriteProcess_keys t kvs s = Some bytes"
  shows "log_form (\<exists>k \<in> fst ` set kvs. deadline_ahead t (cur_exp s) k) bytes"
  using assms(2,3)
proof (induction kvs arbitrary: bytes)
  case Nil
  then show ?case by (auto simp: log_form_def intro: exI [of _ "[]"])
next
  case (Cons e kvs)
  obtain k ob where e: "e = (k, ob)" by (cases e)
  obtain ttl s' where ttl: "TTL k t s = (ttl, s')" by (cases "TTL k t s")
  obtain rest where b: "RewriteProcess_keys t kvs s = Some rest" "ttl \<noteq> expired"
    "bytes = concat (map SaveCommand (save_cmd k (oval ob))) @ (if 0 < ttl then SaveExpire k (word_of_int ttl + t) else []) @ rest"
    using Cons.prems e ttl SaveObject_cmd [of ob k] by (auto split: if_splits)
  have "0 < ttl \<longleftrightarrow> deadline_ahead t (cur_exp s) k"
    using ttl b(2) Cons.prems(1) e store_ok_current(5) [OF assms(1)]
    by (auto simp: TTL_def ExistsKey_def GetObject_memory ExpireIfNeed_def deadline_ahead_def persist_def expired_def notExpire_def
        split: option.splits if_splits)
  then have "log_form (deadline_ahead t (cur_exp s) k) (if 0 < ttl then SaveExpire k (word_of_int ttl + t) else [])"
    using log_form_expire log_form_cmds [of "[]"] by simp
  moreover have "log_form (\<exists>k \<in> fst ` set kvs. deadline_ahead t (cur_exp s) k) rest" using Cons.IH b(1) Cons.prems(1) by simp
  ultimately show ?case
    using log_form_append [OF log_form_cmds [of "save_cmd k (oval ob)"] log_form_append] b(3) e by simp
qed

lemma RewriteProcess_dbs_form:
  assumes "store_ok s" "RewriteProcess_dbs clock d s = Some bytes"
  shows "log_form (\<exists>i. d \<le> i \<and> i < length (store s) \<and>
    (\<exists>k \<in> fst ` set (store s ! i). deadline_ahead (clock i) (expiresDb s ! i) k)) bytes"
  using assms
proof (induction "length (store s) - d" arbitrary: d s bytes)
  case 0
  then have "bytes = []" by (subst (asm) RewriteProcess_dbs.simps) (auto simp: SelectDB_def store_ok_def)
  moreover have "(\<exists>i. d \<le> i \<and> i < length (store s) \<and> P i) = False" for P using 0 by auto
  ultimately show ?case unfolding log_form_def by (auto intro: exI [of _ "[]"])
next
  case (Suc n)
  let ?s = "s\<lparr>dbno := d\<rparr>"
  let ?here = "\<lambda>i. \<exists>k \<in> fst ` set (store s ! i). deadline_ahead (clock i) (expiresDb s ! i) k"
  have d: "d < length (store s)" using Suc.hyps(2) by simp
  have sel: "\<exists>r. SelectDB (int d) s = (r, ?s) \<and> r \<noteq> -1" by (auto simp: SelectDB_def d)
  have ok: "store_ok ?s" "n = length (store ?s) - Suc d" using Suc.prems Suc.hyps(2) d by (simp_all add: store_ok_def)
  have "db_ok (store s ! d)" using Suc.prems(1) d by (simp add: store_ok_def)
  then have keys: "\<forall>(k, ob) \<in> set (store s ! d). map_of (cur_db ?s) k \<noteq> None \<and> obj_ok ob"
    by (force simp: db_ok_def cur_db_def map_of_eq_None_iff)
  have split: "(\<exists>i. d \<le> i \<and> i < length (store s) \<and> ?here i) = (?here d \<or> (\<exists>i. Suc d \<le> i \<and> i < length (store s) \<and> ?here i))"
    using d by (metis Suc_le_eq le_eq_less_or_eq)
  have rest: "log_form (\<exists>i. Suc d \<le> i \<and> i < length (store s) \<and> ?here i) r" if "RewriteProcess_dbs clock (Suc d) ?s = Some r" for r
    using Suc.hyps(1) [OF ok(2,1) that] by simp
  show ?case
  proof (cases "store s ! d = []")
    case True
    then have "RewriteProcess_dbs clock (Suc d) ?s = Some bytes"
      using Suc.prems(2) sel by (subst (asm) RewriteProcess_dbs.simps) (auto simp: DBSize_def cur_db_def)
    then show ?thesis unfolding split using rest True by simp
  next
    case False
    then obtain b r where b: "RewriteProcess_keys (clock d) (store s ! d) ?s = Some b" "RewriteProcess_dbs clock (Suc d) ?s = Some r"
      "bytes = WriteMultiBulkLong 2 @ WriteBulkString ''select'' @ WriteBulkLong d @ b @ r"
      using Suc.prems(2) sel by (subst (asm) RewriteProcess_dbs.simps) (auto simp: DBSize_def cur_db_def bind_eq_Some_conv)
    have "cur_exp ?s = expiresDb s ! d" by (simp add: cur_exp_def)
    then have "log_form (?here d) b" using RewriteProcess_keys_form [OF ok(1) keys b(1)] by simp
    moreover have "WriteMultiBulkLong 2 @ WriteBulkString ''select'' @ WriteBulkLong d = concat (map SaveCommand [[''select'', show_nat d]])"
      by (simp add: SaveCommand_def WriteBulkLong_def eval_nat_numeral)
    then have "bytes = concat (map SaveCommand [[''select'', show_nat d]]) @ b @ r" using b(3) by (metis append.assoc)
    ultimately show ?thesis
      unfolding split using log_form_append [OF log_form_cmds [of "[[''select'', show_nat d]]"] log_form_append [OF _ rest [OF b(2)]]] by simp
  qed
qed

text \<open>C25: A deadline makes a rewritten log unreadable. If any key of any database has a deadline that is still to come when its
  database is written, then the loader refuses the log that the rewrite wrote, and a restart ignores it: the deadline is
  written with a bulk string where its count should be.\<close>

theorem deadline_spoils_log:
  assumes "store_ok s" "RewriteProcess clock s = Some bytes" "length bytes < 2 ^ 31"
    and "d < length (store s)" "map_of (store s ! d) k = Some ob" "map_of (expiresDb s ! d) k = Some due" "0 < sint (due - clock d)"
  shows "(\<exists>cmds. AOF_Load bytes = Some (False, cmds)) \<and> LoadDbFromAof tbl bytes s0 = None"
proof -
  have "k \<in> fst ` set (store s ! d)" using assms(5) by (metis map_of_eq_None_iff option.distinct(1))
  moreover have "deadline_ahead (clock d) (expiresDb s ! d) k" using assms(6,7) by (simp add: deadline_ahead_def)
  ultimately have "\<exists>i. 0 \<le> i \<and> i < length (store s) \<and> (\<exists>k \<in> fst ` set (store s ! i). deadline_ahead (clock i) (expiresDb s ! i) k)"
    using assms(4) by blast
  then have "log_stops bytes" using RewriteProcess_dbs_form [OF assms(1), of clock 0 bytes] assms(2)
    by (auto simp: RewriteProcess_def log_form_def)
  then obtain cmds rest where r: "bytes = concat (map SaveCommand cmds) @ ''$'' @ rest" "2 \<le> length rest" by (auto simp: log_stops_def)
  then have "AOF_Load bytes = Some (False, cmds)"
    using AOF_Load_loop_stops [of "[]" cmds rest QProtoParser_new "[]"] assms(3) by (simp add: AOF_Load_def)
  then show ?thesis by (simp add: LoadDbFromAof_def)
qed

subsection \<open>The thread of the log\<close>

text \<open>
  \<open>QAOFThreadController\<close>: the file, the buffer of the running thread, the buffer for the time without a thread and the
  database selected last in the log. The buffers are queues of bytes (\<open>AsyncBuffer\<close>).
\<close>

record aof_ctl =
  aof_file :: string
  aof_thread :: "string option"
  aof_tmpBuffer :: string
  aof_lastDb :: int

definition aof_Write :: "string \<Rightarrow> aof_ctl \<Rightarrow> aof_ctl" where
  "aof_Write bytes c =
     (case aof_thread c of
        Some buf \<Rightarrow> c\<lparr>aof_thread := Some (buf @ bytes)\<rparr>
      | None \<Rightarrow> c\<lparr>aof_tmpBuffer := aof_tmpBuffer c @ bytes\<rparr>)"

definition aof_WriteSelectDB :: "nat \<Rightarrow> aof_ctl \<Rightarrow> aof_ctl" where
  "aof_WriteSelectDB db c =
     (if int db = aof_lastDb c then c
      else aof_Write (WriteMultiBulkLong 2 @ WriteBulkString ''select'' @ WriteBulkLong db) (c\<lparr>aof_lastDb := int db\<rparr>))"

definition aof_SaveCommand :: "QString list \<Rightarrow> nat \<Rightarrow> aof_ctl \<Rightarrow> aof_ctl" where
  "aof_SaveCommand params db c = aof_Write (SaveCommand params) (aof_WriteSelectDB db c)"

text \<open>\<open>Flush\<close> writes the \<open>n\<close> bytes that \<open>ProcessBuffer\<close> shows.\<close>

definition aof_Flush :: "nat \<Rightarrow> aof_ctl \<Rightarrow> aof_ctl" where
  "aof_Flush n c =
     (case aof_thread c of
        Some buf \<Rightarrow> c\<lparr>aof_file := aof_file c @ take n buf, aof_thread := Some (drop n buf)\<rparr>
      | None \<Rightarrow> c)"

text \<open>\<open>Stop\<close>: the loop of the thread ends without a last flush, and its buffer is gone with it.\<close>

definition aof_Stop :: "aof_ctl \<Rightarrow> aof_ctl" where
  "aof_Stop c = c\<lparr>aof_thread := None\<rparr>"

text \<open>\<open>Start\<close>: the new thread writes the other buffer first.\<close>

definition aof_Start :: "aof_ctl \<Rightarrow> aof_ctl" where
  "aof_Start c = c\<lparr>aof_file := aof_file c @ aof_tmpBuffer c, aof_tmpBuffer := [], aof_thread := Some []\<rparr>"

definition aof_RewriteDoneHandler :: "bool \<Rightarrow> string \<Rightarrow> aof_ctl \<Rightarrow> aof_ctl" where
  "aof_RewriteDoneHandler ok tmp c = aof_Start (if ok then c\<lparr>aof_file := tmp\<rparr> else c)"

text \<open>What is in the log, written or not.\<close>

definition aof_bytes :: "aof_ctl \<Rightarrow> string" where
  "aof_bytes c = aof_file c @ (case aof_thread c of Some buf \<Rightarrow> buf | None \<Rightarrow> []) @ aof_tmpBuffer c"

lemma aof_log_grows:
  "aof_thread c = None \<or> aof_tmpBuffer c = [] \<Longrightarrow> aof_bytes (aof_Write bytes c) = aof_bytes c @ bytes"
  "aof_bytes (aof_Flush n c) = aof_bytes c" "aof_thread c = None \<Longrightarrow> aof_bytes (aof_Start c) = aof_bytes c"
  by (auto simp: aof_bytes_def aof_Write_def aof_Flush_def aof_Start_def split: option.split)

text \<open>C26: A write that comes while the log is rewritten, in the database that the old log had selected last, is written
  behind the rewritten log without a SELECT: after a restart it is in the last database that was not empty.\<close>

theorem write_during_rewrite_moves:
  assumes "store_ok s" "no_deadlines s" "length (store s) < 2 ^ 31"
    and "\<forall>db \<in> set (store s). \<forall>(k, ob) \<in> set db. scores_parse L (oval ob)"
    and "store_ok s0" "length (store s0) = length (store s)" "current s0 = None" "\<forall>d<length (store s). vis_at d s0 = Map.empty"
    and "aof_lastDb c = int db" "aof_tmpBuffer c = []" "db < length (store s)" "db \<noteq> last_selected s 0 (dbno s0)"
    and "\<forall>bytes. RewriteProcess clock s = Some bytes \<longrightarrow> length (bytes @ SaveCommand [''set'', k, v]) < 2 ^ 31"
  shows "\<exists>bytes s'. RewriteProcess clock s = Some bytes \<and>
    LoadDbFromAof (Table_Init L) (aof_file (aof_RewriteDoneHandler True bytes (aof_SaveCommand [''set'', k, v] db (aof_Stop c)))) s0 = Some s' \<and>
    vis_at (last_selected s 0 (dbno s0)) s' k = Some (oval (CreateString v)) \<and>
    (case vis_at db s k of None \<Rightarrow> vis_at db s' k = None | Some x \<Rightarrow> restored (lib_strtod L) x (vis_at db s' k))"
proof -
  let ?cmds = "rewrite_cmds s 0" and ?d = "last_selected s 0 (dbno s0)" and ?c = "[''set'', k, v]"
  have w: "RewriteProcess clock s = Some (concat (map SaveCommand ?cmds))"
    unfolding RewriteProcess_def by (rule RewriteProcess_dbs_cmds [OF assms(1,2)])
  have f: "aof_file (aof_RewriteDoneHandler True (concat (map SaveCommand ?cmds)) (aof_SaveCommand ?c db (aof_Stop c))) =
      concat (map SaveCommand (?cmds @ [?c]))"
    using assms(9,10) by (simp add: aof_RewriteDoneHandler_def aof_SaveCommand_def aof_WriteSelectDB_def aof_Stop_def aof_Write_def aof_Start_def)
  obtain s1 where s1: "load_cmds (Table_Init L) ?cmds s0 = Some s1" "store_ok s1" "dbno s1 = ?d"
    "\<forall>i k. i < length (store s) \<longrightarrow>
       (case map_of (store s ! i) k of None \<Rightarrow> vis_at i s1 k = None | Some ob \<Rightarrow> restored (lib_strtod L) (oval ob) (vis_at i s1 k))"
    using load_rewritten [OF assms(1,4,3,5,6,7), of 0] assms(8) by auto
  obtain s' where s': "load_cmd (Table_Init L) ?c s1 = Some s'" "restores (lib_strtod L) k (VRaw v) s1 s'"
    using restores_string [OF s1(2), of "VRaw v" v] by blast
  then have v: "vis s' k = Some (oval (CreateString v))" "dbno s' = ?d" "vis_at db s' = vis_at db s1"
    using frame_fields(1) [of s1 s'] frame_vis_at [of s1 s' db] s1(3) assms(12) by (auto simp: restores_def)
  have "expiresDb s ! db = []" using assms(1,2,11) by (simp add: no_deadlines_def store_ok_def)
  then have "case vis_at db s k of None \<Rightarrow> vis_at db s' k = None | Some x \<Rightarrow> restored (lib_strtod L) x (vis_at db s' k)"
    unfolding v(3) using spec [OF spec [OF s1(4), of db], of k] assms(11)
    by (cases "map_of (store s ! db) k") (simp_all add: vis_at_simps [of _ s])
  moreover have "LoadDbFromAof (Table_Init L) (concat (map SaveCommand (?cmds @ [?c]))) s0 = Some s'"
    using load_append [of "?cmds @ [?c]" "Table_Init L" s0] assms(13) w s1(1) s'(1) by (simp add: load_cmds_append)
  ultimately show ?thesis using w f v(1,2) vis_at_dbno [of s'] by auto
qed

definition long_score :: QSortedSet where
  "long_score = \<lparr>zscores = [(long_to_dbl 1234567, [''m''])], zmembers = [(''m'', long_to_dbl 1234567)]\<rparr>"

definition saved_server :: server where
  "saved_server = put_obj ''z'' (obj_of (VSSet long_score))
     (put_obj ''l'' (obj_of (VList [''a'', ''b''])) (put_obj ''s'' (obj_of (VRaw ''x'')) (Store_Init 2 server_new)))"

text \<open>A parser that knows the number of the log.\<close>

definition digit_libs :: libs where
  "digit_libs = sample_libs\<lparr>lib_strtod := map_of [(''1.23457e+06'', (long_to_dbl 1234570, 11))]\<rparr>"

lemma long_scores:
  "\<not> dbl_nan (long_to_dbl 1234567)" "zset_ok long_score" "score_parses (lib_strtod digit_libs) (long_to_dbl 1234567)"
  "printed_score (lib_strtod digit_libs) (long_to_dbl 1234567) = long_to_dbl 1234570"
proof -
  have n: "\<not> dbl_nan (long_to_dbl 1234567)" "\<not> dbl_nan (long_to_dbl 1234570)"
    by (simp_all add: dbl_nan_def long_to_dbl_def Let_def top_bit.simps)
  then show "\<not> dbl_nan (long_to_dbl 1234567)" "zset_ok long_score" by (simp_all add: long_score_def zset_ok_def keys_distinct_def)
  show "score_parses (lib_strtod digit_libs) (long_to_dbl 1234567)"
    "printed_score (lib_strtod digit_libs) (long_to_dbl 1234567) = long_to_dbl 1234570"
    using n(2) by (simp_all add: score_parses_def printed_score_def score_digits_lost digit_libs_def Strtod_def)
qed

lemma saved_server:
  "store_ok saved_server" "no_deadlines saved_server" "length (store saved_server) = 2"
  "store saved_server =
     [[(''s'', obj_of (VRaw ''x'')), (''l'', obj_of (VList [''a'', ''b''])), (''z'', obj_of (VSSet long_score))], []]"
  "expiresDb saved_server = [[], []]"
proof -
  have init: "store (Store_Init 2 server_new) = [[], []]" "expiresDb (Store_Init 2 server_new) = [[], []]"
    "dbno (Store_Init 2 server_new) = 0"
    by (simp_all add: Store_Init_def resize_def server_new_def kMaxDbNum_def eval_nat_numeral)
  show "store_ok saved_server" by (simp add: saved_server_def store_ok_put_obj long_scores(2))
  show s: "store saved_server =
      [[(''s'', obj_of (VRaw ''x'')), (''l'', obj_of (VList [''a'', ''b''])), (''z'', obj_of (VSSet long_score))], []]"
    by (simp add: saved_server_def put_obj_def upd_db_def cur_db_def init)
  then show "length (store saved_server) = 2" by simp
  show "expiresDb saved_server = [[], []]" by (simp add: saved_server_def put_obj_def upd_db_def init)
  then show "no_deadlines saved_server" by (simp add: no_deadlines_def)
qed

lemma empty_server:
  "length (store (Store_Init 2 server_new)) = 2" "current (Store_Init 2 server_new) = None" "dbno (Store_Init 2 server_new) = 0"
  "\<forall>d<2. vis_at d (Store_Init 2 server_new) = Map.empty"
  by (auto simp: Store_Init_def resize_def server_new_def kMaxDbNum_def vis_at_simps fun_eq_iff less_Suc_eq eval_nat_numeral)

lemma saved_log:
  "RewriteProcess (\<lambda>_. 0) saved_server = Some (concat (map SaveCommand [[''select'', ''0''], [''set'', ''s'', ''x''], [''rpush'', ''l'', ''a'', ''b''], [''zadd'', ''z'', ''1.23457e+06'', ''m'']]))"
  "\<forall>db \<in> set (store saved_server). \<forall>(k, ob) \<in> set db. scores_parse digit_libs (oval ob)"
proof -
  have "rewrite_cmds saved_server 0 = [[''select'', ''0''], [''set'', ''s'', ''x''], [''rpush'', ''l'', ''a'', ''b''], [''zadd'', ''z'', ''1.23457e+06'', ''m'']]"
    by (simp add: rewrite_cmds_def saved_server(4) db_cmds_def show_nat_0 upt_conv_Cons long_score_def score_digits_lost)
  then show "RewriteProcess (\<lambda>_. 0) saved_server = Some (concat (map SaveCommand [[''select'', ''0''], [''set'', ''s'', ''x''], [''rpush'', ''l'', ''a'', ''b''], [''zadd'', ''z'', ''1.23457e+06'', ''m'']]))"
    using RewriteProcess_dbs_cmds [OF saved_server(1,2), of "\<lambda>_. 0" 0] by (simp add: RewriteProcess_def)
qed (simp add: saved_server(4) long_score_def long_scores(3))

lemma saved_log_length:
  "concat (map SaveCommand [[''select'', ''0''], [''set'', ''s'', ''x''], [''rpush'', ''l'', ''a'', ''b''], [''zadd'', ''z'', ''1.23457e+06'', ''m'']]) \<noteq> [] \<and> length (concat (map SaveCommand [[''select'', ''0''], [''set'', ''s'', ''x''], [''rpush'', ''l'', ''a'', ''b''], [''zadd'', ''z'', ''1.23457e+06'', ''m'']])) < 1000"
proof -
  have "show_nat (length ''1.23457e+06'') = ''11''" by code_simp
  from this [simplified] show ?thesis
    by (simp add: SaveCommand_def WriteMultiBulkLong_def WriteBulkString_def CRLF_def show_nat_small)
qed


theorem write_during_rewrite_moves_witness:
  "\<exists>bytes s'. RewriteProcess (\<lambda>_. 0) saved_server = Some bytes \<and>
    LoadDbFromAof (Table_Init digit_libs) (aof_file (aof_RewriteDoneHandler True bytes (aof_SaveCommand [''set'', ''x'', ''y''] 1
      (aof_Stop \<lparr>aof_file = [], aof_thread = Some [], aof_tmpBuffer = [], aof_lastDb = 1\<rparr>)))) (Store_Init 2 server_new) = Some s' \<and>
    vis_at 0 s' ''x'' = Some (oval (CreateString ''y''))"
proof -
  let ?c = "\<lparr>aof_file = [], aof_thread = Some [], aof_tmpBuffer = [], aof_lastDb = 1\<rparr>"
  have d: "last_selected saved_server 0 0 = 0" by (simp add: last_selected_def saved_server(4) upt_conv_Cons)
  have "length (SaveCommand [''set'', ''x'', ''y'']) < 1000"
    by (simp add: SaveCommand_def WriteMultiBulkLong_def WriteBulkString_def CRLF_def show_nat_small)
  then have bound: "\<forall>bytes. RewriteProcess (\<lambda>_. 0) saved_server = Some bytes \<longrightarrow>
      length (bytes @ SaveCommand [''set'', ''x'', ''y'']) < 2 ^ 31"
    unfolding saved_log(1) using saved_log_length by (simp del: map_concat concat.simps list.map)
  show ?thesis
    using write_during_rewrite_moves [OF saved_server(1,2) _ saved_log(2) store_ok_server_new _ empty_server(2) _ _ _ _ _ bound, of ?c 1]
      empty_server(1,3,4) saved_server(3) d by auto
qed


text \<open>The deadline is that of a key in the middle of the second database.\<close>

definition expiring_server :: server where
  "expiring_server =
     SetExpire ''z'' 90 (put_obj ''z'' (obj_of (VList [''a''])) (put_obj ''y'' (obj_of (VRaw ''b'')) (saved_server\<lparr>dbno := 1\<rparr>)))"

lemma expiring_server:
  "store_ok expiring_server"
  "store expiring_server = [store saved_server ! 0, [(''y'', obj_of (VRaw ''b'')), (''z'', obj_of (VList [''a'']))]]"
  "expiresDb expiring_server = [[], [(''z'', 90)]]" "dbno expiring_server = 1"
proof -
  let ?s = "put_obj ''z'' (obj_of (VList [''a''])) (put_obj ''y'' (obj_of (VRaw ''b'')) (saved_server\<lparr>dbno := 1\<rparr>))"
  have "store_ok (saved_server\<lparr>dbno := 1\<rparr>)" using saved_server(1,3) by (simp add: store_ok_def)
  then have ok: "store_ok ?s" by (simp add: store_ok_put_obj)
  then show "store_ok expiring_server"
    using store_ok_current(4) [OF ok] by (auto simp: expiring_server_def SetExpire_def intro!: store_ok_upd_exp keys_distinct_update)
  show "store expiring_server = [store saved_server ! 0, [(''y'', obj_of (VRaw ''b'')), (''z'', obj_of (VList [''a'']))]]"
    by (simp add: expiring_server_def SetExpire_def put_obj_def upd_db_def upd_exp_def cur_db_def saved_server(4))
  show "expiresDb expiring_server = [[], [(''z'', 90)]]"
    by (simp add: expiring_server_def SetExpire_def put_obj_def upd_db_def upd_exp_def cur_exp_def saved_server(5))
  show "dbno expiring_server = 1" by (simp add: expiring_server_def SetExpire_def put_obj_def upd_db_def upd_exp_def)
qed

theorem deadline_spoils_log_witness:
  "\<exists>bytes. RewriteProcess (\<lambda>_. 5) expiring_server = Some bytes \<and>
    LoadDbFromAof (Table_Init sample_libs) bytes (Store_Init 2 server_new) = None"
proof -
  have b: "backends expiring_server = []" using store_ok_current(5) [OF expiring_server(1)] .
  have z: "zmembers long_score = [(''m'', long_to_dbl 1234567)]" by (simp add: long_score_def)
  have "show_nat (length ''1.23457e+06'') = ''11''" "show_nat 90 = ''90''" by code_simp+
  from this(1) [simplified] this(2) obtain bytes where r: "RewriteProcess (\<lambda>_. 5) expiring_server = Some bytes" "length bytes < 1000"
    unfolding RewriteProcess_def
    by (simp add: RewriteProcess_dbs.simps [of _ 0] RewriteProcess_dbs.simps [of _ "Suc 0"] RewriteProcess_dbs.simps [of _ "Suc (Suc 0)"]
      SelectDB_def DBSize_def cur_db_def cur_exp_def expiring_server saved_server(4) b TTL_def ExistsKey_def GetObject_memory ExpireIfNeed_def
      persist_def expired_def notExpire_def SaveObject_cmd long_scores(2) z score_digits_lost SaveCommand_def
      WriteMultiBulkLong_def WriteBulkString_def WriteBulkLong_def CRLF_def show_nat_small SaveExpire_def)
  have "sint (90 - 5 :: u64) = 85" by simp
  then show ?thesis
    using deadline_spoils_log [OF expiring_server(1) r(1), of 1 "''z''" "obj_of (VList [''a''])" 90] r expiring_server(2,3) by auto
qed

end
