(* ===== verification/Binary.thy ===== *)
theory Binary
  imports Prelude
begin

text \<open>
  What the binary formats share: integers as little endian bytes, the reader of a memory file
  (QBase/Log/MemoryFile.cc) and sequences of encoded items.

  A reader holds the bytes it has not read yet. \<open>Thrown\<close> is a \<open>std::runtime_error\<close>, which the callers catch;
  \<open>Died\<close> is a failed assertion, an uncaught exception or a read outside the memory.
\<close>

subsection \<open>Integers as bytes\<close>

fun le_bytes :: "nat \<Rightarrow> nat \<Rightarrow> string" where
  "le_bytes 0 n = []"
| "le_bytes (Suc k) n = char_of (n mod 256) # le_bytes k (n div 256)"

fun le_value :: "string \<Rightarrow> nat" where
  "le_value [] = 0"
| "le_value (c # cs) = code c + 256 * le_value cs"

lemma length_le_bytes [simp]: "length (le_bytes k n) = k"
  by (induction k arbitrary: n) simp_all

lemma le_value_bytes [simp]: "le_value (le_bytes k n) = n mod 256 ^ k"
proof (induction k arbitrary: n)
  case (Suc k)
  have "n mod (256 * 256 ^ k) = 256 * (n div 256 mod 256 ^ k) + n mod 256" by (simp add: mod_mult2_eq)
  moreover have "code (char_of (n mod 256)) = n mod 256" by (rule code_char_of) simp
  ultimately show ?case using Suc by simp
qed simp

lemma le_value_less: "le_value cs < 256 ^ length cs"
proof (induction cs)
  case (Cons c cs)
  have "code c < 256" by simp
  moreover have "le_value cs + 1 \<le> 256 ^ length cs" using Cons by simp
  ultimately have "code c + 256 * le_value cs < 256 * 256 ^ length cs" by linarith
  then show ?case by simp
qed simp

lemma le_bytes_value: "le_bytes (length cs) (le_value cs) = cs"
proof (induction cs)
  case (Cons c cs)
  have "code c < 256" by simp
  then have "(code c + 256 * le_value cs) mod 256 = code c" "(code c + 256 * le_value cs) div 256 = le_value cs"
    by simp_all
  with Cons show ?case by (simp add: code_def)
qed simp

text \<open>An \<open>int64_t\<close> in memory.\<close>

definition int64_bytes :: "int \<Rightarrow> string" where
  "int64_bytes x = le_bytes 8 (nat (x mod 2 ^ 64))"

definition int64_value :: "string \<Rightarrow> int" where
  "int64_value cs = wrap64 (int (le_value cs))"

lemma length_int64_bytes [simp]: "length (int64_bytes x) = 8"
  by (simp add: int64_bytes_def)

lemma int64_value_bytes: "LONG_MIN \<le> x \<Longrightarrow> x \<le> LONG_MAX \<Longrightarrow> int64_value (int64_bytes x) = x"
proof -
  assume r: "LONG_MIN \<le> x" "x \<le> LONG_MAX"
  have "nat (x mod 2 ^ 64) < 256 ^ 8" by simp
  then have "int (le_value (int64_bytes x)) = x mod 2 ^ 64" by (simp add: int64_bytes_def)
  then show ?thesis using wrap64_id [OF r] by (simp add: int64_value_def wrap64_def mod_simps)
qed

subsection \<open>Reading\<close>

datatype 'x load = Loaded 'x string | Thrown | Died

fun load_bind :: "'x load \<Rightarrow> ('x \<Rightarrow> string \<Rightarrow> 'y load) \<Rightarrow> 'y load" where
  "load_bind (Loaded x rest) f = f x rest"
| "load_bind Thrown f = Thrown"
| "load_bind Died f = Died"

lemma load_bind_cong [fundef_cong]:
  "m = m' \<Longrightarrow> (\<And>x rest. m' = Loaded x rest \<Longrightarrow> f x rest = g x rest) \<Longrightarrow> load_bind m f = load_bind m' g"
  by (cases m') auto

text \<open>\<open>Read<T>\<close>: the bytes of a \<open>T\<close>, or an exception when the file is shorter.\<close>

definition mem_Read :: "nat \<Rightarrow> string \<Rightarrow> nat load" where
  "mem_Read k mem = (if length mem < k then Thrown else Loaded (le_value (take k mem)) (drop k mem))"

text \<open>\<open>Read(len)\<close> cuts \<open>len\<close> to what is left; at the end of the file it leaves \<open>len\<close> and returns a null pointer.\<close>

definition mem_Peek :: "nat \<Rightarrow> string \<Rightarrow> string option \<times> nat" where
  "mem_Peek len mem = (if mem = [] then (None, len) else (Some (take len mem), min len (length mem)))"

definition mem_Skip :: "nat \<Rightarrow> string \<Rightarrow> unit load" where
  "mem_Skip len mem = (if length mem < len then Thrown else Loaded () (drop len mem))"

lemma mem_Read_bytes [bytes_simps]: "length cs = k \<Longrightarrow> mem_Read k (cs @ rest) = Loaded (le_value cs) rest"
  by (simp add: mem_Read_def)

lemma mem_Read_one [bytes_simps]: "mem_Read 1 (c # rest) = Loaded (code c) rest" "mem_Read (Suc 0) (c # rest) = Loaded (code c) rest"
  by (simp_all add: mem_Read_def)

subsection \<open>Sequences of items\<close>

fun load_many :: "(string \<Rightarrow> 'x load) \<Rightarrow> ('x \<Rightarrow> 'c \<Rightarrow> 'c option) \<Rightarrow> nat \<Rightarrow> string \<Rightarrow> 'c \<Rightarrow> 'c load" where
  "load_many dec add 0 mem acc = Loaded acc mem"
| "load_many dec add (Suc n) mem acc =
     load_bind (dec mem) (\<lambda>x mem. case add x acc of None \<Rightarrow> Died | Some acc \<Rightarrow> load_many dec add n mem acc)"

fun add_all :: "('x \<Rightarrow> 'c \<Rightarrow> 'c option) \<Rightarrow> 'x list \<Rightarrow> 'c \<Rightarrow> 'c option" where
  "add_all add [] acc = Some acc"
| "add_all add (x # xs) acc = Option.bind (add x acc) (add_all add xs)"

definition load_pair :: "(string \<Rightarrow> 'x load) \<Rightarrow> (string \<Rightarrow> 'y load) \<Rightarrow> string \<Rightarrow> ('x \<times> 'y) load" where
  "load_pair d1 d2 mem = load_bind (d1 mem) (\<lambda>x mem. load_bind (d2 mem) (\<lambda>y mem. Loaded (x, y) mem))"

fun all_fit :: "('x \<Rightarrow> string) \<Rightarrow> ('x \<Rightarrow> string \<Rightarrow> bool) \<Rightarrow> 'x list \<Rightarrow> string \<Rightarrow> bool" where
  "all_fit enc fits [] rest = True"
| "all_fit enc fits (x # xs) rest = (fits x (concat (map enc xs) @ rest) \<and> all_fit enc fits xs rest)"

definition enc_pair :: "('x \<Rightarrow> string) \<Rightarrow> ('y \<Rightarrow> string) \<Rightarrow> 'x \<times> 'y \<Rightarrow> string" where
  "enc_pair e1 e2 p = e1 (fst p) @ e2 (snd p)"

definition fits_pair :: "('y \<Rightarrow> string) \<Rightarrow> ('x \<Rightarrow> string \<Rightarrow> bool) \<Rightarrow> ('y \<Rightarrow> string \<Rightarrow> bool) \<Rightarrow> 'x \<times> 'y \<Rightarrow> string \<Rightarrow> bool" where
  "fits_pair e2 f1 f2 p rest \<longleftrightarrow> f1 (fst p) (e2 (snd p) @ rest) \<and> f2 (snd p) rest"

text \<open>
  An encoder and the reader of its bytes. The reader may normalise what was written, and it may need something of the
  bytes that follow.
\<close>

locale byte_codec =
  fixes enc :: "'x \<Rightarrow> string" and dec :: "string \<Rightarrow> 'y load" and norm :: "'x \<Rightarrow> 'y" and fits :: "'x \<Rightarrow> string \<Rightarrow> bool"
  assumes decodes: "fits x rest \<Longrightarrow> dec (enc x @ rest) = Loaded (norm x) rest"
begin

lemma many:
  "all_fit enc fits xs rest \<Longrightarrow>
    load_many dec add (length xs) (concat (map enc xs) @ rest) acc =
      (case add_all add (map norm xs) acc of None \<Rightarrow> Died | Some acc \<Rightarrow> Loaded acc rest)"
proof (induction xs arbitrary: acc)
  case (Cons x xs)
  then show ?case by (cases "add (norm x) acc") (simp_all add: decodes)
qed simp

end

locale two_codecs = c1: byte_codec enc1 dec1 norm1 fits1 + c2: byte_codec enc2 dec2 norm2 fits2
  for enc1 :: "'x \<Rightarrow> string" and dec1 :: "string \<Rightarrow> 'y load" and norm1 fits1
    and enc2 :: "'u \<Rightarrow> string" and dec2 :: "string \<Rightarrow> 'v load" and norm2 fits2
begin

lemma pair: "fits1 x (enc2 y @ rest) \<Longrightarrow> fits2 y rest \<Longrightarrow>
  load_pair dec1 dec2 (enc1 x @ enc2 y @ rest) = Loaded (norm1 x, norm2 y) rest"
  by (simp add: load_pair_def c1.decodes c2.decodes)

end

sublocale two_codecs \<subseteq> pairs: byte_codec "enc_pair enc1 enc2" "load_pair dec1 dec2" "map_prod norm1 norm2" "fits_pair enc2 fits1 fits2"
  by unfold_locales (auto simp: pair enc_pair_def fits_pair_def split: prod.splits)

lemma add_all_snoc: "add_all (\<lambda>x acc. Some (acc @ [x])) xs acc = Some (acc @ xs)"
  by (induction xs arbitrary: acc) auto

end
