(* ===== verification/Backend.thy ===== *)
theory Backend
  imports Binary Strings SortedSets Hashes Admin
begin

unbundle bit_operations_syntax

text \<open>
  QedisCore/QLeveldb.cc and the rest of QedisCore/QStore.cc: the encoding of objects for the backend, the timer that
  synchronises the written keys with it, and the eviction of keys when the memory is full. The database of a backend is
  a map from keys to bytes: \<open>Get\<close> returns what the last \<open>Put\<close> of the key stored, nothing after a \<open>Delete\<close>. The images
  of doubles (\<open>std::to_string\<close>) and \<open>std::stod\<close> are arguments.
\<close>

subsection \<open>Encoding\<close>

fun type_code :: "QType \<Rightarrow> nat" where
  "type_code QType_invalid = 0"
| "type_code QType_string = 1"
| "type_code QType_list = 2"
| "type_code QType_set = 3"
| "type_code QType_sortedSet = 4"
| "type_code QType_hash = 5"

text \<open>Lengths are cast to \<open>uint32_t\<close>.\<close>

definition EncodeString :: "QString \<Rightarrow> string" where
  "EncodeString str = le_bytes 4 (length str) @ take (length str mod 2 ^ 32) str"

definition EncodeHash :: "QHash \<Rightarrow> string" where
  "EncodeHash h = le_bytes 4 (length h) @ concat (map (enc_pair EncodeString EncodeString) h)"

definition EncodeList :: "QString list \<Rightarrow> string" where
  "EncodeList l = le_bytes 4 (length l) @ concat (map EncodeString l)"

definition EncodeSet :: "QString list \<Rightarrow> string" where
  "EncodeSet s = le_bytes 4 (length s) @ concat (map EncodeString s)"

definition EncodeSSet :: "(double \<Rightarrow> string) \<Rightarrow> QSortedSet \<Rightarrow> string" where
  "EncodeSSet to_string ss =
     le_bytes 4 (zSize ss) @ concat (map (enc_pair EncodeString (EncodeString \<circ> to_string)) (zmembers ss))"

definition EncodeObject :: "(double \<Rightarrow> string) \<Rightarrow> qobject \<Rightarrow> int \<Rightarrow> string option" where
  "EncodeObject to_string obj absttl =
     map_option (\<lambda>contents.
         (if 0 < absttl then CHR 0x01 # int64_bytes absttl else [NUL]) @ char_of (type_code (otype obj)) # contents)
       (case encoding obj of
          QEncode_raw \<Rightarrow> map_option EncodeString (GetDecodedString obj)
        | QEncode_int \<Rightarrow> map_option EncodeString (GetDecodedString obj)
        | QEncode_list \<Rightarrow> map_option EncodeList (CastList (oval obj))
        | QEncode_set \<Rightarrow> map_option EncodeSet (CastSet (oval obj))
        | QEncode_hash \<Rightarrow> map_option EncodeHash (CastHash (oval obj))
        | QEncode_sset \<Rightarrow> map_option (EncodeSSet to_string) (CastSortedSet (oval obj))
        | QEncode_invalid \<Rightarrow> Some [])"

subsection \<open>Decoding\<close>

text \<open>The assertion asks for one byte more than the length takes, so an empty string at the end fails it.\<close>

definition DecodeString :: "string \<Rightarrow> QString load" where
  "DecodeString mem =
     (if length mem \<le> 4 then Died
      else let slen = le_value (take 4 mem)
           in if length mem < 4 + slen then Died else Loaded (take slen (drop 4 mem)) (drop (4 + slen) mem))"

definition DecodeList :: "string \<Rightarrow> qobject load" where
  "DecodeList mem =
     (if length mem < 4 then Died
      else load_bind (load_many DecodeString (\<lambda>elem list. Some (list @ [elem])) (le_value (take 4 mem)) (drop 4 mem) [])
             (\<lambda>list. Loaded (Obj_Reset (VList list) CreateList)))"

definition DecodeSet :: "string \<Rightarrow> qobject load" where
  "DecodeSet mem =
     (if length mem < 4 then Died
      else load_bind (load_many DecodeString (\<lambda>elem set. Some (snd (set_insert elem set))) (le_value (take 4 mem)) (drop 4 mem) [])
             (\<lambda>set. Loaded (Obj_Reset (VSet set) CreateSet)))"

text \<open>\<open>insert\<close> leaves a field that is there as it is.\<close>

definition hash_insert :: "QString \<times> QString \<Rightarrow> QHash \<Rightarrow> QHash option" where
  "hash_insert e h = Some (if map_of h (fst e) = None then h @ [e] else h)"

definition DecodeHash :: "string \<Rightarrow> qobject load" where
  "DecodeHash mem =
     (if length mem < 4 then Died
      else load_bind (load_many (load_pair DecodeString DecodeString) hash_insert (le_value (take 4 mem)) (drop 4 mem) [])
             (\<lambda>hash. Loaded (Obj_Reset (VHash hash) CreateHash)))"

text \<open>The score goes through a \<open>long\<close>. \<open>std::stod\<close> throws when it finds no number.\<close>

definition add_score :: "(string \<Rightarrow> double option) \<Rightarrow> QString \<times> QString \<Rightarrow> QSortedSet \<Rightarrow> QSortedSet option" where
  "add_score stod e z =
     Option.bind (stod (snd e)) (\<lambda>score. AddMember (fst e) (long_to_dbl (dbl_to_long score)) z)"

definition DecodeSSet :: "(string \<Rightarrow> double option) \<Rightarrow> string \<Rightarrow> qobject load" where
  "DecodeSSet stod mem =
     (if length mem < 4 then Died
      else load_bind (load_many (load_pair DecodeString DecodeString) (add_score stod) (le_value (take 4 mem)) (drop 4 mem)
               \<lparr>zscores = [], zmembers = []\<rparr>)
             (\<lambda>sset. Loaded (Obj_Reset (VSSet sset) CreateSSet)))"

text \<open>
  The object and the seconds it has left. An encoded object whose deadline has passed is invalid.
\<close>

definition DecodeObject :: "(string \<Rightarrow> double option) \<Rightarrow> u64 \<Rightarrow> string \<Rightarrow> (qobject \<times> int) load" where
  "DecodeObject stod t mem =
     (case mem of
        [] \<Rightarrow> Died
      | hasttl # mem \<Rightarrow>
          if hasttl \<noteq> NUL \<and> length mem < 8 then Died
          else
            let absttl = (if hasttl \<noteq> NUL then int64_value (take 8 mem) else 0);
                mem = (if hasttl \<noteq> NUL then drop 8 mem else mem)
            in if absttl \<noteq> 0 \<and> absttl \<le> sint t then Loaded (QObject_new QType_invalid, 0) mem
               else
                 let remainTtl = (if absttl \<noteq> 0 then (absttl - sint t) div 1000 else 0)
                 in case mem of
                      [] \<Rightarrow> Died
                    | type # mem \<Rightarrow>
                        load_bind
                          (if code type = type_code QType_string
                           then load_bind (DecodeString mem) (\<lambda>str. Loaded (CreateString str))
                           else if code type = type_code QType_list then DecodeList mem
                           else if code type = type_code QType_set then DecodeSet mem
                           else if code type = type_code QType_sortedSet then DecodeSSet stod mem
                           else if code type = type_code QType_hash then DecodeHash mem
                           else Died)
                          (\<lambda>obj. Loaded (obj, remainTtl)))"

subsection \<open>The backend\<close>

type_synonym leveldb = "QString \<Rightarrow> string option"

text \<open>The remaining seconds travel in the 24 bits of \<open>lru\<close>.\<close>

definition leveldb_Get :: "(string \<Rightarrow> double option) \<Rightarrow> u64 \<Rightarrow> leveldb \<Rightarrow> QString \<Rightarrow> qobject option" where
  "leveldb_Get stod t db key =
     (case db key of
        None \<Rightarrow> Some (QObject_new QType_invalid)
      | Some v \<Rightarrow>
          (case DecodeObject stod t v of
             Loaded (obj, remain) _ \<Rightarrow> Some (obj\<lparr>lru := (if 0 < remain then word_of_int remain else 0)\<rparr>)
           | _ \<Rightarrow> None))"

definition leveldb_Put :: "(double \<Rightarrow> string) \<Rightarrow> QString \<Rightarrow> qobject \<Rightarrow> int \<Rightarrow> leveldb \<Rightarrow> leveldb option" where
  "leveldb_Put to_string key obj absttl db =
     map_option (\<lambda>v. db(key \<mapsto> v)) (EncodeObject to_string obj absttl)"

definition leveldb_Delete :: "QString \<Rightarrow> leveldb \<Rightarrow> leveldb" where
  "leveldb_Delete key db = db(key := None)"

text \<open>\<open>Put\<close> of a key of the current database.\<close>

definition leveldb_Put_key ::
  "(double \<Rightarrow> string) \<Rightarrow> u64 \<Rightarrow> QString \<Rightarrow> server \<Rightarrow> leveldb \<Rightarrow> (bool \<times> server \<times> leveldb) option" where
  "leveldb_Put_key to_string t key s db =
     (case GetValue key False s of
        (Inl _, s) \<Rightarrow> Some (False, s, db)
      | (Inr obj, s) \<Rightarrow>
          (case TTL key t s of
             (ttl, s) \<Rightarrow>
               if 0 < ttl then map_option (\<lambda>db. (True, s, db)) (leveldb_Put to_string key obj (wrap64 (ttl + uint t)) db)
               else if ttl = expired then Some (False, s, db)
               else map_option (\<lambda>db. (True, s, db)) (leveldb_Put to_string key obj ttl db)))"

subsection \<open>Synchronising\<close>

text \<open>
  The loop of \<open>DumpToBackends\<close> always looks at the first waiting key, because it erases every key it has handled. The
  pointer of a waiting key is read after \<open>TTL\<close>, which clears it when it deletes the key. A pointer to an object that
  is gone would be fatal.
\<close>

fun DumpToBackends_loop ::
  "(double \<Rightarrow> string) \<Rightarrow> u64 \<Rightarrow> nat \<Rightarrow> nat \<Rightarrow> server \<Rightarrow> leveldb \<Rightarrow> (server \<times> leveldb) option" where
  "DumpToBackends_loop f t d 0 s db = Some (s, db)"
| "DumpToBackends_loop f t d (Suc n) s db =
     (case waitSyncKeys s ! d of
        [] \<Rightarrow> Some (s, db)
      | (key, _) # _ \<Rightarrow>
          (case TTL key t s of
             (when, s) \<Rightarrow>
               let s' = s\<lparr>waitSyncKeys := (waitSyncKeys s)[d := AList.delete key (waitSyncKeys s ! d)]\<rparr>
               in if map_of (waitSyncKeys s ! d) key = Some True \<and> when \<noteq> expired then
                    if when = notExpire then None
                    else
                      Option.bind (map_of (store s ! d) key) (\<lambda>obj.
                        Option.bind (leveldb_Put f key obj (if 0 < when then wrap64 (when + uint t) else when) db) (\<lambda>db.
                          DumpToBackends_loop f t d n s' db))
                  else DumpToBackends_loop f t d n s' (leveldb_Delete key db)))"

definition kMaxSync :: nat where "kMaxSync = 100"

definition DumpToBackends ::
  "(double \<Rightarrow> string) \<Rightarrow> u64 \<Rightarrow> nat \<Rightarrow> server \<Rightarrow> leveldb \<Rightarrow> (server \<times> leveldb) option" where
  "DumpToBackends f t d s db =
     (if length (waitSyncKeys s) \<le> d then Some (s, db) else DumpToBackends_loop f t d kMaxSync s db)"

text \<open>The timer of a database.\<close>

definition dump_timer :: "(double \<Rightarrow> string) \<Rightarrow> u64 \<Rightarrow> nat \<Rightarrow> server \<Rightarrow> leveldb \<Rightarrow> (server \<times> leveldb) option" where
  "dump_timer f t i s db =
     (case SelectDB (int i) s of
        (oldDb, s) \<Rightarrow> map_option (\<lambda>(s, db). (snd (SelectDB oldDb s), db)) (DumpToBackends f t i s db))"

subsection \<open>Eviction\<close>

text \<open>One sample after the other; the first one counts, and later ones that have been idle for longer.\<close>

fun choose_victim :: "32 word \<Rightarrow> (QString \<times> qobject) option list \<Rightarrow> QString \<times> 32 word \<Rightarrow> QString \<times> 32 word" where
  "choose_victim clock [] best = best"
| "choose_victim clock (None # samples) best = choose_victim clock samples best"
| "choose_victim clock (Some (key, val) # samples) (evictKey, choosedIdle) =
     (let idle = EstimateIdleTime clock (ucast (lru val))
      in if evictKey = [] \<or> choosedIdle < idle then choose_victim clock samples (key, idle)
         else choose_victim clock samples (evictKey, choosedIdle))"

text \<open>The loop over the databases. \<open>samples d db\<close> are the random members of \<open>db\<close> that one pass draws.\<close>

function evict_dbs :: "(nat \<Rightarrow> (QString \<times> qobject) list \<Rightarrow> (QString \<times> qobject) option list) \<Rightarrow> nat \<Rightarrow> server \<Rightarrow> server" where
  "evict_dbs samples d s =
     (case SelectDB (int d) s of
        (r, s) \<Rightarrow>
          if r = -1 then s
          else if DBSize s = 0 then evict_dbs samples (Suc d) s
          else
            (case choose_victim (lruclock s) (samples d (cur_db s)) ([], 0) of
               (evictKey, _) \<Rightarrow>
                 evict_dbs samples (Suc d) (if evictKey = [] then s else snd (DeleteKey evictKey s))))"
  by pat_completeness auto
termination
  by (relation "measure (\<lambda>(samples, d, s). max (length (store s)) (Suc (dbno s)) - d)")
    (auto simp: SelectDB_def DeleteKey_def mark_sync_def upd_db_def Let_def split: if_splits)

declare evict_dbs.simps [simp del]

text \<open>\<open>mem i\<close> is the memory the process uses at the \<open>i\<close>-th test; 32 passes at most.\<close>

fun evict_tries ::
  "(nat \<Rightarrow> nat) \<Rightarrow> nat \<Rightarrow> bool \<Rightarrow> (nat \<Rightarrow> nat \<Rightarrow> (QString \<times> qobject) list \<Rightarrow> (QString \<times> qobject) option list) \<Rightarrow> nat \<Rightarrow> server \<Rightarrow> server" where
  "evict_tries mem maxmemory noeviction samples 0 s = s"
| "evict_tries mem maxmemory noeviction samples (Suc n) s =
     (if mem n \<le> maxmemory \<or> noeviction then s
      else evict_tries mem maxmemory noeviction samples n (evict_dbs (samples n) 0 s))"

text \<open>The timer of the eviction reads the clock \<open>time\<close>, and selects the database that was selected before when it returns.\<close>

definition EvictItems ::
  "32 word \<Rightarrow> (nat \<Rightarrow> nat) \<Rightarrow> nat \<Rightarrow> bool \<Rightarrow> (nat \<Rightarrow> nat \<Rightarrow> (QString \<times> qobject) list \<Rightarrow> (QString \<times> qobject) option list) \<Rightarrow> server \<Rightarrow> server" where
  "EvictItems time mem maxmemory noeviction samples s =
     (let s = s\<lparr>lruclock := time AND kMaxLRUValue\<rparr>
      in snd (SelectDB (GetDB s) (evict_tries mem maxmemory noeviction samples 32 s)))"

subsection \<open>Round trip\<close>

lemma EncodeString_short: "length s < 2 ^ 32 \<Longrightarrow> EncodeString s = le_bytes 4 (length s) @ s"
  by (simp add: EncodeString_def)

lemma length_EncodeString: "4 \<le> length (EncodeString s)"
  by (simp add: EncodeString_def)

lemma EncodeString_nonempty [simp]: "EncodeString s \<noteq> []"
  using length_EncodeString [of s] by (metis list.size(3) not_numeral_le_zero)

definition level_fits :: "QString \<Rightarrow> string \<Rightarrow> bool" where
  "level_fits s rest \<longleftrightarrow> length s < 2 ^ 32 \<and> (s \<noteq> [] \<or> rest \<noteq> [])"

interpretation level_string: byte_codec EncodeString DecodeString id level_fits
  by unfold_locales (auto simp: level_fits_def EncodeString_short DecodeString_def Let_def)

interpretation level_pair: two_codecs EncodeString DecodeString id level_fits EncodeString DecodeString id level_fits
  by unfold_locales

lemma all_fit_strings:
  "\<forall>x \<in> set xs. length x < 2 ^ 32 \<Longrightarrow> xs = [] \<or> last xs \<noteq> [] \<Longrightarrow> all_fit EncodeString level_fits xs []"
proof (induction xs)
  case (Cons x xs)
  then show ?case by (cases xs) (simp_all add: level_fits_def)
qed simp

lemma all_fit_pairs:
  "\<forall>(x, y) \<in> set xs. length x < 2 ^ 32 \<and> length y < 2 ^ 32 \<Longrightarrow> xs = [] \<or> snd (last xs) \<noteq> [] \<Longrightarrow>
    all_fit (enc_pair EncodeString EncodeString) (fits_pair EncodeString level_fits level_fits) xs []"
proof (induction xs)
  case (Cons x xs)
  then show ?case by (cases xs) (auto simp: fits_pair_def level_fits_def enc_pair_def)
qed simp

lemma le_value_count [bytes_simps]: "n < 2 ^ 32 \<Longrightarrow> le_value (le_bytes 4 n) = n"
  by simp

lemma DecodeList_Encode:
  assumes "length l < 2 ^ 32" "all_fit EncodeString level_fits l []"
  shows "DecodeList (EncodeList l) = Loaded (Obj_Reset (VList l) CreateList) []"
  using level_string.many [OF assms(2), of "\<lambda>x acc. Some (acc @ [x])"] assms(1)
  by (simp add: DecodeList_def EncodeList_def add_all_snoc)

lemma add_all_set: "distinct (acc @ xs) \<Longrightarrow> add_all (\<lambda>e set. Some (snd (set_insert e set))) xs acc = Some (acc @ xs)"
  by (induction xs arbitrary: acc) (auto simp: set_insert_def)

lemma DecodeSet_Encode:
  assumes "length l < 2 ^ 32" "all_fit EncodeString level_fits l []" "distinct l"
  shows "DecodeSet (EncodeSet l) = Loaded (Obj_Reset (VSet l) CreateSet) []"
  using level_string.many [OF assms(2), of "\<lambda>e set. Some (snd (set_insert e set))" "[]"] assms(1) add_all_set [of "[]" l] assms(3)
  by (simp add: DecodeSet_def EncodeSet_def)

lemma add_all_hash: "distinct (map fst (acc @ xs)) \<Longrightarrow> add_all hash_insert xs acc = Some (acc @ xs)"
proof (induction xs arbitrary: acc)
  case (Cons x xs)
  then have "map_of acc (fst x) = None" by (auto simp: map_of_eq_None_iff)
  with Cons show ?case by (simp add: hash_insert_def)
qed simp

lemma DecodeHash_Encode:
  assumes "length h < 2 ^ 32" "all_fit (enc_pair EncodeString EncodeString) (fits_pair EncodeString level_fits level_fits) h []" "keys_distinct h"
  shows "DecodeHash (EncodeHash h) = Loaded (Obj_Reset (VHash h) CreateHash) []"
  using level_pair.pairs.many [OF assms(2), of hash_insert "[]"] assms(1) add_all_hash [of "[]" h] assms(3)
  by (simp add: DecodeHash_def EncodeHash_def keys_distinct_def prod.map_id0)

text \<open>No \<open>long\<close> becomes a NaN.\<close>

lemma top_bit_less: "n < 2 ^ k \<Longrightarrow> 0 < k \<Longrightarrow> top_bit n < k"
proof (induction n arbitrary: k rule: top_bit.induct)
  case (1 n)
  show ?case
  proof (cases "n < 2")
    case False
    with "1.prems" obtain j where j: "k = Suc j" "0 < j" by (cases k; cases "k - 1") auto
    have "n div 2 < 2 ^ j" using "1.prems"(1) j by (simp add: less_mult_imp_div_less mult.commute)
    with "1.IH" False j show ?thesis by (subst top_bit.simps) auto
  qed (use "1.prems" in \<open>simp add: top_bit.simps\<close>)
qed

lemma top_bit_bound: "n < 2 ^ (top_bit n + 1)"
proof (induction n rule: top_bit.induct)
  case (1 n)
  show ?case
  proof (cases "n < 2")
    case False
    then have "n div 2 < 2 ^ (top_bit (n div 2) + 1)" by (rule "1.IH")
    moreover have "top_bit n = top_bit (n div 2) + 1" using False by (simp add: top_bit.simps [of n])
    ultimately show ?thesis by (simp add: less_mult_imp_div_less)
  qed (simp add: top_bit.simps)
qed

lemma uint_low_bits: "uint (take_bit 63 (word_of_int y :: double)) = y mod 2 ^ 63"
proof -
  have "y mod 2 ^ 64 mod 2 ^ 63 = y mod (2 ^ 63 :: int)" by (rule mod_mod_cancel) simp
  then show ?thesis by (simp only: unsigned_take_bit_eq uint_word_of_int) (simp add: take_bit_eq_mod)
qed

lemma small_no_nan:
  assumes "0 \<le> w" "w \<le> 1088 * 2 ^ 52"
  shows "\<not> dbl_nan (word_of_int ((if b then 2 ^ 63 else 0) + w))"
proof -
  have "w mod 2 ^ 63 = w" by (rule mod_pos_pos_trivial) (use assms in simp_all)
  then have "((if b then 2 ^ 63 else 0) + w) mod 2 ^ 63 = w" by (cases b) (simp_all only: if_True if_False add_0 mod_add_self1)
  then have "uint (take_bit 63 (word_of_int ((if b then 2 ^ 63 else 0) + w) :: double)) = w" by (simp only: uint_low_bits)
  moreover have "1088 * 2 ^ 52 \<le> uint (0x7FF0000000000000 :: double)" by simp
  ultimately show ?thesis using assms(2) unfolding dbl_nan_def word_less_def by linarith
qed

lemma dbl_of_parts:
  assumes "e \<le> 64" "m < 2 ^ 53"
  shows "\<not> dbl_nan (word_of_int ((if b then 2 ^ 63 else 0) + int (e + 1023) * 2 ^ 52 + int m - 2 ^ 52))"
proof -
  have m: "int m < 2 ^ 53" using assms(2) by (metis of_nat_less_iff of_nat_numeral of_nat_power)
  have "\<not> dbl_nan (word_of_int ((if b then 2 ^ 63 else 0) + (int (e + 1023) * 2 ^ 52 + int m - 2 ^ 52)))"
    by (rule small_no_nan) (use assms(1) m in simp_all)
  then show ?thesis by (simp only: add_diff_eq add.assoc not_False_eq_True)
qed

lemma long_to_dbl_no_nan:
  assumes "LONG_MIN \<le> x" "x \<le> LONG_MAX"
  shows "\<not> dbl_nan (long_to_dbl x)"
proof (cases "x = 0")
  case False
  define a where "a = nat \<bar>x\<bar>"
  define e where "e = top_bit a"
  have "a < 2 ^ 64" using assms by (auto simp: a_def LONG_MIN_def LONG_MAX_def)
  then have e: "e < 64" unfolding e_def by (rule top_bit_less) simp
  have ae: "a < 2 ^ (e + 1)" unfolding e_def by (rule top_bit_bound)
  show ?thesis
  proof (cases "e \<le> 52")
    case True
    have "a * 2 ^ (52 - e) < 2 ^ (e + 1) * 2 ^ (52 - e)" using ae by simp
    also have "\<dots> = 2 ^ 53" using True by (simp flip: power_add power_Suc)
    finally have "\<not> dbl_nan (word_of_int ((if x < 0 then 2 ^ 63 else 0) + int (e + 1023) * 2 ^ 52 + int (a * 2 ^ (52 - e)) - 2 ^ 52))"
      using True by (intro dbl_of_parts) simp_all
    then show ?thesis using False True by (simp add: long_to_dbl_def Let_def a_def e_def)
  next
    case big: False
    define q where "q = a div 2 ^ (e - 52)"
    have "53 + (e - 52) = e + 1" using big by simp
    with ae have "a < 2 ^ 53 * 2 ^ (e - 52)" by (metis power_add)
    then have q: "q < 2 ^ 53" unfolding q_def by (simp add: less_mult_imp_div_less)
    define q' where "q' = (if 2 ^ (e - 53) < a mod 2 ^ (e - 52) \<or> a mod 2 ^ (e - 52) = 2 ^ (e - 53) \<and> odd q then q + 1 else q)"
    obtain m e' where p: "(if q' = 2 ^ 53 then (2 ^ 52, e + 1) else (q', e)) = (m, e')" by (metis surj_pair)
    have "q' \<le> 2 ^ 53" using q by (simp add: q'_def)
    then have "e' \<le> 64" "m < 2 ^ 53" using p e by (auto split: if_splits)
    then have "\<not> dbl_nan (word_of_int ((if x < 0 then 2 ^ 63 else 0) + int (e' + 1023) * 2 ^ 52 + int m - 2 ^ 52))"
      by (rule dbl_of_parts)
    moreover have "long_to_dbl x = word_of_int ((if x < 0 then 2 ^ 63 else 0) + int (e' + 1023) * 2 ^ 52 + int m - 2 ^ 52)"
      using p by (simp only: long_to_dbl_def Let_def False big if_False prod.case q'_def q_def a_def [symmetric] e_def [symmetric])
    ultimately show ?thesis by simp
  qed
qed (simp add: long_to_dbl_def dbl_nan_def)

lemma dbl_to_long_range: "LONG_MIN \<le> dbl_to_long d \<and> dbl_to_long d \<le> LONG_MAX"
  by (auto simp: dbl_to_long_def Let_def LONG_MIN_def LONG_MAX_def)

text \<open>The score that comes back.\<close>

definition cut_score :: "(double \<Rightarrow> string) \<Rightarrow> (string \<Rightarrow> double option) \<Rightarrow> double \<Rightarrow> double" where
  "cut_score f stod d = long_to_dbl (dbl_to_long (the (stod (f d))))"

lemma add_all_members:
  "zset_ok z \<Longrightarrow> \<forall>(m, d) \<in> set ms. map_of (zmembers z) m = None \<and> \<not> dbl_nan (g d) \<Longrightarrow> distinct (map fst ms) \<Longrightarrow>
    \<exists>z'. add_all (\<lambda>(m, d). AddMember m (g d)) ms z = Some z' \<and> zset_ok z' \<and>
      map_of (zmembers z') = map_of (zmembers z) ++ map_of (map (apsnd g) ms)"
proof (induction ms arbitrary: z)
  case (Cons p ms)
  obtain m d where p: "p = (m, d)" by (cases p)
  have "map_of (zmembers z) m = None" "\<not> dbl_nan (g d)" using Cons.prems(2) p by auto
  then obtain z1 where z1: "AddMember m (g d) z = Some z1" "zset_ok z1" "map_of (zmembers z1) = (map_of (zmembers z))(m \<mapsto> g d)"
    using AddMember_step [OF Cons.prems(1)] by metis
  have "\<forall>(m, d) \<in> set ms. map_of (zmembers z1) m = None \<and> \<not> dbl_nan (g d)"
    using Cons.prems(2,3) p z1(3) by (fastforce simp: image_iff)
  moreover have "distinct (map fst ms)" "m \<notin> fst ` set ms" using Cons.prems(3) p by auto
  ultimately obtain z' where z': "add_all (\<lambda>(m, d). AddMember m (g d)) ms z1 = Some z'" "zset_ok z'"
    "map_of (zmembers z') = map_of (zmembers z1) ++ map_of (map (apsnd g) ms)" using Cons.IH [OF z1(2)] by blast
  have "map_of (map (apsnd g) ms) m = None" using \<open>m \<notin> fst ` set ms\<close> by (force simp: map_of_eq_None_iff)
  then have "map_of (zmembers z') = map_of (zmembers z) ++ map_of (map (apsnd g) (p # ms))"
    unfolding z'(3) z1(3) p by (auto simp: fun_eq_iff map_add_def split: option.split)
  moreover have "add_all (\<lambda>(m, d). AddMember m (g d)) (p # ms) z = Some z'" using z'(1) z1(1) p by simp
  ultimately show ?case using z'(2) by blast
qed simp

lemma add_all_map: "\<forall>x \<in> set xs. add (h x) = add' x \<Longrightarrow> add_all add (map h xs) acc = add_all add' xs acc"
proof (induction xs arbitrary: acc)
  case (Cons x xs)
  then show ?case by (cases "add' x acc") simp_all
qed simp

lemma add_all_scores:
  assumes "zset_ok z" "\<forall>(m, d) \<in> set ms. stod (f d) \<noteq> None \<and> map_of (zmembers z) m = None" "distinct (map fst ms)"
  shows "\<exists>z'. add_all (add_score stod) (map (apsnd f) ms) z = Some z' \<and> zset_ok z' \<and>
      map_of (zmembers z') = map_of (zmembers z) ++ map_of (map (apsnd (cut_score f stod)) ms)"
proof -
  have "\<not> dbl_nan (cut_score f stod d)" for d using dbl_to_long_range long_to_dbl_no_nan by (auto simp: cut_score_def)
  then have "\<forall>(m, d) \<in> set ms. map_of (zmembers z) m = None \<and> \<not> dbl_nan (cut_score f stod d)" using assms(2) by auto
  note members = add_all_members [OF assms(1) this assms(3)]
  have "\<forall>e \<in> set ms. add_score stod (apsnd f e) = (case e of (m, d) \<Rightarrow> AddMember m (cut_score f stod d))"
    using assms(2) by (auto simp: add_score_def [abs_def] cut_score_def)
  then have "add_all (add_score stod) (map (apsnd f) ms) z = add_all (\<lambda>(m, d). AddMember m (cut_score f stod d)) ms z"
    by (rule add_all_map)
  with members show ?thesis by (simp only:)
qed

lemma DecodeSSet_Encode:
  assumes "zSize z < 2 ^ 32" "\<forall>(m, d) \<in> set (zmembers z). stod (f d) \<noteq> None" "zset_ok z"
    and "all_fit (enc_pair EncodeString EncodeString) (fits_pair EncodeString level_fits level_fits) (map (apsnd f) (zmembers z)) []"
  shows "\<exists>z'. DecodeSSet stod (EncodeSSet f z) = Loaded (Obj_Reset (VSSet z') CreateSSet) [] \<and> zset_ok z' \<and>
    map_of (zmembers z') = map_of (map (apsnd (cut_score f stod)) (zmembers z))"
proof -
  have "\<forall>(m, d) \<in> set (zmembers z). stod (f d) \<noteq> None \<and> map_of (zmembers \<lparr>zscores = [], zmembers = []\<rparr>) m = None"
    "distinct (map fst (zmembers z))" using assms(2,3) by (auto simp: zset_ok_def keys_distinct_def)
  from add_all_scores [OF zset_ok_empty this] obtain z' where
    z': "add_all (add_score stod) (map (apsnd f) (zmembers z)) \<lparr>zscores = [], zmembers = []\<rparr> = Some z'" "zset_ok z'"
      "map_of (zmembers z') = map_of (map (apsnd (cut_score f stod)) (zmembers z))" by auto
  have "concat (map (enc_pair EncodeString (EncodeString \<circ> f)) (zmembers z)) =
      concat (map (enc_pair EncodeString EncodeString) (map (apsnd f) (zmembers z)))"
    by (simp add: enc_pair_def [abs_def] comp_def)
  then have "DecodeSSet stod (EncodeSSet f z) = Loaded (Obj_Reset (VSSet z') CreateSSet) []"
    using level_pair.pairs.many [OF assms(4), of "add_score stod" "\<lparr>zscores = [], zmembers = []\<rparr>"] assms(1) z'(1)
    by (simp add: DecodeSSet_def EncodeSSet_def prod.map_id0 zSize_def del: map_map)
  with z'(2,3) show ?thesis by blast
qed

text \<open>What the encoding can carry, and what comes back of a value.\<close>

fun encodable :: "(double \<Rightarrow> string) \<Rightarrow> (string \<Rightarrow> double option) \<Rightarrow> qvalue \<Rightarrow> bool" where
  "encodable f stod (VRaw x) \<longleftrightarrow> length x < 2 ^ 32 \<and> x \<noteq> []"
| "encodable f stod (VList l) \<longleftrightarrow> length l < 2 ^ 32 \<and> list_all (\<lambda>x. length x < 2 ^ 32) l \<and> (l = [] \<or> last l \<noteq> [])"
| "encodable f stod (VSet l) \<longleftrightarrow> length l < 2 ^ 32 \<and> list_all (\<lambda>x. length x < 2 ^ 32) l \<and> (l = [] \<or> last l \<noteq> [])"
| "encodable f stod (VHash h) \<longleftrightarrow> length h < 2 ^ 32 \<and> list_all (\<lambda>(x, y). length x < 2 ^ 32 \<and> length y < 2 ^ 32) h \<and>
     (h = [] \<or> snd (last h) \<noteq> [])"
| "encodable f stod (VSSet z) \<longleftrightarrow> zSize z < 2 ^ 32 \<and>
     list_all (\<lambda>(m, d). length m < 2 ^ 32 \<and> 0 < length (f d) \<and> length (f d) < 2 ^ 32 \<and> stod (f d) \<noteq> None) (zmembers z)"
| "encodable f stod _ = True"

fun reloaded :: "(double \<Rightarrow> string) \<Rightarrow> (string \<Rightarrow> double option) \<Rightarrow> qvalue \<Rightarrow> qvalue \<Rightarrow> bool" where
  "reloaded f stod (VRaw x) v \<longleftrightarrow> v = oval (CreateString x)"
| "reloaded f stod (VSSet z) v \<longleftrightarrow>
     (\<exists>z'. v = VSSet z' \<and> zset_ok z' \<and> map_of (zmembers z') = map_of (map (apsnd (cut_score f stod)) (zmembers z)))"
| "reloaded f stod w v \<longleftrightarrow> v = w"

lemma fits_scores:
  "list_all (\<lambda>(m, d). length m < 2 ^ 32 \<and> 0 < length (f d) \<and> length (f d) < 2 ^ 32 \<and> stod (f d) \<noteq> None) zs \<Longrightarrow>
    all_fit (enc_pair EncodeString EncodeString) (fits_pair EncodeString level_fits level_fits) (map (apsnd f) zs) []"
  by (rule all_fit_pairs) (auto simp: list_all_iff last_map split_def)

lemma show_int_short: "LONG_MIN \<le> n \<Longrightarrow> n \<le> LONG_MAX \<Longrightarrow> length (show_int n) < 2 ^ 32 \<and> show_int n \<noteq> []"
  using length_show_int [of n] by fastforce

text \<open>The contents of an object, after the type byte.\<close>

definition DecodeContents :: "(string \<Rightarrow> double option) \<Rightarrow> QType \<Rightarrow> string \<Rightarrow> qobject load" where
  "DecodeContents stod ty mem =
     (case ty of
        QType_string \<Rightarrow> load_bind (DecodeString mem) (\<lambda>str. Loaded (CreateString str))
      | QType_list \<Rightarrow> DecodeList mem
      | QType_set \<Rightarrow> DecodeSet mem
      | QType_sortedSet \<Rightarrow> DecodeSSet stod mem
      | QType_hash \<Rightarrow> DecodeHash mem
      | QType_invalid \<Rightarrow> Died)"

lemma DecodeContents_Encode:
  assumes "obj_ok ob" "encodable f stod (oval ob)"
  shows "\<exists>bytes ob'. EncodeObject f ob ttl =
      Some ((if 0 < ttl then CHR 0x01 # int64_bytes ttl else [NUL]) @ char_of (type_code (otype ob)) # bytes) \<and>
    DecodeContents stod (otype ob) bytes = Loaded ob' [] \<and> obj_ok ob' \<and> reloaded f stod (oval ob) (oval ob') \<and>
    otype ob \<noteq> QType_invalid"
proof (cases "oval ob")
  case VNull
  then show ?thesis using assms(1) by (simp add: obj_ok_def)
next
  case (VRaw x)
  then have "DecodeString (EncodeString x) = Loaded x []"
    using level_string.decodes [of x "[]"] assms(2) by (simp add: level_fits_def)
  moreover have "otype ob = QType_string" "encoding ob = QEncode_raw" using assms(1) VRaw by (simp_all add: obj_ok_def)
  ultimately show ?thesis using VRaw by (simp add: EncodeObject_def GetDecodedString_def DecodeContents_def)
next
  case (VInt n)
  then have n: "LONG_MIN \<le> n" "n \<le> LONG_MAX" using assms(1) by (simp_all add: obj_ok_def)
  then have "DecodeString (EncodeString (show_int n)) = Loaded (show_int n) []"
    using level_string.decodes [of "show_int n" "[]"] show_int_short by (simp add: level_fits_def)
  then show ?thesis using assms VInt n
    by (simp add: obj_ok_def EncodeObject_def GetDecodedString_def DecodeContents_def CreateString_def QObject_new_def Strtol_show_int)
next
  case (VList l)
  then have "all_fit EncodeString level_fits l []" using assms(2) by (intro all_fit_strings) (simp_all add: list_all_iff)
  with VList assms show ?thesis
    by (simp add: obj_ok_def EncodeObject_def DecodeContents_def DecodeList_Encode CreateList_def QObject_new_def Obj_Reset_def)
next
  case (VSet l)
  then have "all_fit EncodeString level_fits l []" using assms(2) by (intro all_fit_strings) (simp_all add: list_all_iff)
  with VSet assms show ?thesis
    by (simp add: obj_ok_def EncodeObject_def DecodeContents_def DecodeSet_Encode CreateSet_def QObject_new_def Obj_Reset_def)
next
  case (VHash h)
  then have "all_fit (enc_pair EncodeString EncodeString) (fits_pair EncodeString level_fits level_fits) h []"
    using assms(2) by (intro all_fit_pairs) (simp_all add: list_all_iff)
  with VHash assms show ?thesis
    by (simp add: obj_ok_def EncodeObject_def DecodeContents_def DecodeHash_Encode CreateHash_def QObject_new_def Obj_Reset_def)
next
  case (VSSet z)
  then have "zSize z < 2 ^ 32" "\<forall>(m, d) \<in> set (zmembers z). stod (f d) \<noteq> None" "zset_ok z"
    using assms by (auto simp: list_all_iff obj_ok_def)
  moreover have "list_all (\<lambda>(m, d). length m < 2 ^ 32 \<and> 0 < length (f d) \<and> length (f d) < 2 ^ 32 \<and> stod (f d) \<noteq> None) (zmembers z)"
    using VSSet assms(2) by simp
  note fits_scores [OF this]
  ultimately obtain z' where z': "DecodeSSet stod (EncodeSSet f z) = Loaded (Obj_Reset (VSSet z') CreateSSet) []" "zset_ok z'"
    "map_of (zmembers z') = map_of (map (apsnd (cut_score f stod)) (zmembers z))" using DecodeSSet_Encode by blast
  from VSSet assms(1) have "otype ob = QType_sortedSet" "encoding ob = QEncode_sset" by (simp_all add: obj_ok_def)
  with VSSet z' show ?thesis
    by (auto simp: obj_ok_def EncodeObject_def DecodeContents_def CreateSSet_def QObject_new_def Obj_Reset_def)
qed

lemma DecodeObject_Encode:
  assumes "ty \<noteq> QType_invalid" "ttl \<le> LONG_MAX" "LONG_MIN \<le> ttl" "DecodeContents stod ty bytes = Loaded ob' []"
  shows "DecodeObject stod t ((if 0 < ttl then CHR 0x01 # int64_bytes ttl else [NUL]) @ char_of (type_code ty) # bytes) =
    (if 0 < ttl \<and> ttl \<le> sint t then Loaded (QObject_new QType_invalid, 0) (char_of (type_code ty) # bytes)
     else Loaded (ob', if 0 < ttl then (ttl - sint t) div 1000 else 0) [])"
proof -
  show ?thesis using assms
    by (cases ty) (simp_all add: DecodeObject_def DecodeContents_def int64_value_bytes Let_def)
qed



lemma load_many_add:
  "load_many dec add (m + n) mem acc = load_bind (load_many dec add m mem acc) (\<lambda>acc mem. load_many dec add n mem acc)"
proof (induction m arbitrary: mem acc)
  case (Suc m)
  then show ?case by (cases "dec mem") (simp_all split: option.split)
qed simp

lemma all_fit_before:
  "\<forall>x \<in> set xs. length x < 2 ^ 32 \<Longrightarrow> rest \<noteq> [] \<Longrightarrow> all_fit EncodeString level_fits xs rest"
  by (induction xs) (simp_all add: level_fits_def)

lemma DecodeString_empty: "DecodeString (EncodeString []) = Died"
  by (simp add: DecodeString_def EncodeString_def)

text \<open>A list whose last element is empty is written to the backend without an error, and reading it back fails
  the assertion of \<open>_DecodeString\<close>: the server dies on the next access to the key.\<close>

theorem empty_tail_dies:
  assumes "l \<noteq> []" "last l = []" "length l < 2 ^ 32" "\<forall>x \<in> set l. length x < 2 ^ 32"
  shows "\<exists>v. leveldb_Put f k (Obj_Reset (VList l) CreateList) (-1) db = Some (db(k \<mapsto> v)) \<and>
    leveldb_Get stod t (db(k \<mapsto> v)) k = None"
proof -
  obtain xs where l: "l = xs @ [[]]" using assms(1,2) by (metis append_butlast_last_id)
  have fit: "all_fit EncodeString level_fits xs (EncodeString [])" using assms(4) l by (intro all_fit_before) simp_all
  have "load_many DecodeString (\<lambda>elem list. Some (list @ [elem])) (length xs + 1) (concat (map EncodeString l)) [] = Died"
    unfolding load_many_add using level_string.many [OF fit, of "\<lambda>elem list. Some (list @ [elem])" "[]"]
    by (simp add: l add_all_snoc DecodeString_empty)
  then have "DecodeList (EncodeList l) = Died" using assms(3) by (simp add: DecodeList_def EncodeList_def l)
  then have "leveldb_Get stod t (db(k \<mapsto> NUL # char_of (2::nat) # EncodeList l)) k = None"
    by (simp add: leveldb_Get_def DecodeObject_def)
  moreover have "leveldb_Put f k (Obj_Reset (VList l) CreateList) (-1) db = Some (db(k \<mapsto> NUL # char_of (2::nat) # EncodeList l))"
    by (simp add: leveldb_Put_def EncodeObject_def Obj_Reset_def CreateList_def QObject_new_def)
  ultimately show ?thesis by blast
qed

lemma empty_tail_dies_witness:
  "\<exists>v. leveldb_Put (\<lambda>_. []) ''k'' (Obj_Reset (VList [''x'', []]) CreateList) (-1) (\<lambda>_. None) = Some ((\<lambda>_. None)(''k'' \<mapsto> v)) \<and>
    leveldb_Get (\<lambda>_. None) 0 ((\<lambda>_. None)(''k'' \<mapsto> v)) ''k'' = None"
  by (rule empty_tail_dies) simp_all

subsection \<open>Synchronising stores what the server holds\<close>

text \<open>What the backend should hold of a key at time \<open>t\<close>.\<close>

definition synced_value :: "(double \<Rightarrow> string) \<Rightarrow> u64 \<Rightarrow> server \<Rightarrow> QString \<Rightarrow> string option" where
  "synced_value f t s k =
     Option.bind (map_of (cur_db s) k) (\<lambda>ob.
       case map_of (cur_exp s) k of
         None \<Rightarrow> EncodeObject f ob (-1)
       | Some w \<Rightarrow> if t < w then EncodeObject f ob (uint w) else None)"

definition wait_ok :: "server \<Rightarrow> bool" where
  "wait_ok s \<longleftrightarrow> dbno s < length (store s) \<and> length (expiresDb s) = length (store s) \<and>
     length (waitSyncKeys s) = length (store s) \<and> keys_distinct (waitSyncKeys s ! dbno s) \<and>
     (\<forall>ob \<in> ran (map_of (cur_db s)). obj_ok ob) \<and> (\<forall>w \<in> ran (map_of (cur_exp s)). w < 2 ^ 63)"

lemma EncodeObject_ok: "obj_ok ob \<Longrightarrow> \<exists>v. EncodeObject f ob ttl = Some v"
  by (cases "oval ob") (simp_all add: obj_ok_def EncodeObject_def GetDecodedString_def)

lemma ttl_left: "(t::u64) < w \<Longrightarrow> w < 2 ^ 63 \<Longrightarrow> sint (w - t) = uint w - uint t \<and> wrap64 (uint w) = uint w"
proof -
  assume "t < w" "w < 2 ^ 63"
  then have u: "uint t < uint w" "uint w < 2 ^ 63" by (simp_all add: word_less_def)
  have "uint (w - t) = uint w - uint t" using u by (simp add: uint_sub_lem [THEN iffD1])
  moreover have "uint (w - t) < 2 ^ 63" using u calculation uint_ge_0 [of t] by linarith
  moreover from this have "sint (w - t) = uint (w - t)" unfolding sint_uint
    by (intro signed_take_bit_int_eq_self) (use uint_ge_0 [of "w - t"] in \<open>linarith | simp\<close>)+
  moreover have "wrap64 (uint w) = uint w"
    by (rule wrap64_id) (use u uint_ge_0 [of w] in \<open>unfold LONG_MIN_def LONG_MAX_def, linarith+\<close>)
  ultimately show "sint (w - t) = uint w - uint t \<and> wrap64 (uint w) = uint w" by simp
qed

text \<open>A key that waits is never looked up in the backend. Its time to live tells whether it is to be stored.\<close>

lemma TTL_waiting:
  assumes "wait_ok s" "map_of (waitSyncKeys s ! dbno s) k = Some p"
  shows "case synced_value f t s k of
      None \<Rightarrow> fst (TTL k t s) = expired \<and>
        (snd (TTL k t s) = s \<or> snd (TTL k t s) = upd_exp (AList.delete k) (snd (DeleteKey k s)))
    | Some v \<Rightarrow> \<exists>when ob. TTL k t s = (when, s) \<and> when \<noteq> expired \<and> when \<noteq> notExpire \<and> map_of (cur_db s) k = Some ob \<and>
        EncodeObject f ob (if 0 < when then wrap64 (when + uint t) else when) = Some v"
proof (cases "map_of (cur_db s) k")
  case None
  then have "GetObject k s = (None, s)" using assms(2) by (simp add: GetObject_def)
  with None show ?thesis by (simp add: synced_value_def TTL_def ExistsKey_def notExist_def expired_def)
next
  case (Some ob)
  then have get: "GetObject k s = (Some ob, s)" by (simp add: GetObject_def)
  have ok: "obj_ok ob" using assms(1) Some by (auto simp: wait_ok_def ran_def)
  show ?thesis
  proof (cases "map_of (cur_exp s) k")
    case None
    moreover obtain v where "EncodeObject f ob (-1) = Some v" using EncodeObject_ok [OF ok] by blast
    ultimately show ?thesis using get Some
      by (simp add: synced_value_def TTL_def ExistsKey_def ExpireIfNeed_def persist_def expired_def notExpire_def)
  next
    case (Some w)
    note w = this
    show ?thesis
    proof (cases "t < w")
      case True
      moreover have "w < 2 ^ 63" using assms(1) w by (auto simp: wait_ok_def ran_def)
      ultimately have l: "sint (w - t) = uint w - uint t" "wrap64 (uint w) = uint w" using ttl_left by auto
      have "0 < uint w - uint t" using True by (simp add: word_less_def)
      moreover obtain v where "EncodeObject f ob (uint w) = Some v" using EncodeObject_ok [OF ok] by blast
      ultimately show ?thesis using get \<open>map_of (cur_db s) k = Some ob\<close> w True l
        by (simp add: synced_value_def TTL_def ExistsKey_def ExpireIfNeed_def persist_def expired_def notExpire_def)
    next
      case False
      then show ?thesis using get \<open>map_of (cur_db s) k = Some ob\<close> w
        by (simp add: synced_value_def TTL_def ExistsKey_def ExpireIfNeed_def persist_def expired_def notExpire_def)
    qed
  qed
qed

text \<open>The state after a key has been handled.\<close>

definition handled :: "QString \<Rightarrow> server \<Rightarrow> server" where
  "handled k s = s\<lparr>waitSyncKeys := (waitSyncKeys s)[dbno s := AList.delete k (waitSyncKeys s ! dbno s)]\<rparr>"

lemma ran_delete: "ran ((m::'x \<Rightarrow> 'y option)(k := None)) \<subseteq> ran m"
  by (auto simp: ran_def split: if_splits)

lemma length_update_le: "length (AList.update k v al) \<le> Suc (length al)"
  by (induction al) auto

lemma delete_update: "AList.delete k (AList.update k v al) = AList.delete k al"
  by (induction al) auto

lemma handled_step:
  assumes "wait_ok s" "s1 = s \<or> s1 = upd_exp (AList.delete k) (snd (DeleteKey k s))"
  shows "wait_ok (handled k s1)" "dbno (handled k s1) = dbno s"
    "waitSyncKeys (handled k s1) ! dbno s = AList.delete k (waitSyncKeys s ! dbno s)"
    "k' \<noteq> k \<Longrightarrow> synced_value f t (handled k s1) k' = synced_value f t s k'"
proof -
  have l: "dbno s < length (store s)" "dbno s < length (expiresDb s)" "dbno s < length (waitSyncKeys s)" "waitSyncKeys s \<noteq> []"
    using assms(1) by (auto simp: wait_ok_def)
  have v: "dbno (handled k s1) = dbno s \<and> length (store (handled k s1)) = length (store s) \<and>
      length (expiresDb (handled k s1)) = length (expiresDb s) \<and> length (waitSyncKeys (handled k s1)) = length (waitSyncKeys s) \<and>
      waitSyncKeys (handled k s1) ! dbno s = AList.delete k (waitSyncKeys s ! dbno s) \<and>
      (map_of (cur_db (handled k s1)) = map_of (cur_db s) \<or> map_of (cur_db (handled k s1)) = (map_of (cur_db s))(k := None)) \<and>
      (map_of (cur_exp (handled k s1)) = map_of (cur_exp s) \<or> map_of (cur_exp (handled k s1)) = (map_of (cur_exp s))(k := None))"
    using assms(2) l
    by (auto simp: handled_def upd_exp_def upd_db_def DeleteKey_def mark_sync_def cur_db_def cur_exp_def delete_update)
  then show "wait_ok (handled k s1)" using assms(1) ran_delete [of "map_of (cur_db s)" k] ran_delete [of "map_of (cur_exp s)" k]
    by (auto simp: wait_ok_def intro: keys_distinct_delete)
  show "dbno (handled k s1) = dbno s" "waitSyncKeys (handled k s1) ! dbno s = AList.delete k (waitSyncKeys s ! dbno s)"
    using v by simp_all
  show "k' \<noteq> k \<Longrightarrow> synced_value f t (handled k s1) k' = synced_value f t s k'"
    using v by (auto simp: synced_value_def)
qed

lemma DumpToBackends_loop_syncs:
  "wait_ok s \<Longrightarrow> dbno s = d \<Longrightarrow> length (waitSyncKeys s ! d) \<le> n \<Longrightarrow>
    \<exists>s' db'. DumpToBackends_loop f t d n s db = Some (s', db') \<and> waitSyncKeys s' ! d = [] \<and>
      (\<forall>k. db' k = (case map_of (waitSyncKeys s ! d) k of
             None \<Rightarrow> db k | Some live \<Rightarrow> if live then synced_value f t s k else None))"
proof (induction n arbitrary: s db)
  case (Suc n)
  note ok = Suc.prems
  show ?case
  proof (cases "waitSyncKeys s ! d")
    case (Cons e rest)
    obtain k p where e: "e = (k, p)" by (cases e)
    obtain left s1 where ttl: "TTL k t s = (left, s1)" by (cases "TTL k t s")
    have m: "map_of (waitSyncKeys s ! dbno s) k = Some p" using Cons e ok(2) by simp
    note T = TTL_waiting [OF ok(1) m, where f = f and t = t, unfolded ttl fst_conv snd_conv]
    have s1: "s1 = s \<or> s1 = upd_exp (AList.delete k) (snd (DeleteKey k s))"
      using T by (cases "synced_value f t s k") auto
    note h = handled_step [OF ok(1) s1]
    have "k \<notin> fst ` set rest" using ok(1,2) Cons e by (auto simp: wait_ok_def keys_distinct_def)
    then have del: "waitSyncKeys (handled k s1) ! d = rest" using h(3) ok(2) Cons e by (simp add: delete_idem)
    define v where "v = (if p then synced_value f t s k else None)"
    have "DumpToBackends_loop f t d (Suc n) s db = DumpToBackends_loop f t d n (handled k s1) (db(k := v))"
    proof (cases "synced_value f t s k")
      case None
      then show ?thesis using T ttl Cons e ok(2) s1
        by (auto simp: v_def handled_def Let_def leveldb_Delete_def upd_exp_def upd_db_def DeleteKey_def mark_sync_def)
    next
      case (Some x)
      then show ?thesis using T ttl Cons e ok(2) m
        by (auto simp: v_def handled_def Let_def leveldb_Delete_def leveldb_Put_def cur_db_def)
    qed
    moreover have "length (waitSyncKeys (handled k s1) ! d) \<le> n" using del ok(3) Cons by simp
    then obtain s' db' where r: "DumpToBackends_loop f t d n (handled k s1) (db(k := v)) = Some (s', db')" "waitSyncKeys s' ! d = []"
      "\<forall>k'. db' k' = (case map_of rest k' of None \<Rightarrow> (db(k := v)) k' | Some live \<Rightarrow> if live then synced_value f t (handled k s1) k' else None)"
      using Suc.IH [OF h(1) h(2) [unfolded ok(2)], of "db(k := v)"] unfolding del by blast
    moreover have "db' k' = (case map_of (waitSyncKeys s ! d) k' of None \<Rightarrow> db k' | Some live \<Rightarrow> if live then synced_value f t s k' else None)" for k'
    proof (cases "k' = k")
      case True
      have "map_of rest k = None" using \<open>k \<notin> fst ` set rest\<close> by (simp add: map_of_eq_None_iff)
      then show ?thesis using r(3) [rule_format, of k'] Cons e True by (simp add: v_def)
    next
      case False
      then show ?thesis using r(3) [rule_format, of k'] h(4) [of k' f t] Cons e by (simp split: option.split)
    qed
    ultimately show ?thesis by auto
  qed simp
qed simp


text \<open>One database with one key, which waits.\<close>

definition waiting_server :: server where
  "waiting_server = server_new\<lparr>store := [[(''k'', obj_of (VRaw ''x''))]], expiresDb := [[]], waitSyncKeys := [[(''k'', True), (''j'', False)]]\<rparr>"

lemma waiting_server_simps:
  "store waiting_server = [[(''k'', obj_of (VRaw ''x''))]]" "dbno waiting_server = 0" "expiresDb waiting_server = [[]]"
  "waitSyncKeys waiting_server = [[(''k'', True), (''j'', False)]]"
  "cur_db waiting_server = [(''k'', obj_of (VRaw ''x''))]" "cur_exp waiting_server = []"
  by (simp_all add: waiting_server_def server_new_def cur_db_def cur_exp_def)

lemma waiting_server_ok: "wait_ok waiting_server"
  by (simp add: wait_ok_def waiting_server_simps keys_distinct_def obj_of_def obj_ok_def)


text \<open>A key that is evicted because the memory is full is deleted from the backend as well, by the next run of the timer:
  its value is lost.\<close>

theorem evicted_key_is_lost:
  assumes "wait_ok s" "length (store s) = 1" "length (waitSyncKeys s ! 0) < 100"
    and "map_of (cur_db s) k = Some ob" "k \<noteq> []" "samples 31 0 (cur_db s) = [Some (k, ob)]"
    and "mem 31 > maxmemory" "mem 30 \<le> maxmemory"
  shows "\<exists>s' db'. DumpToBackends f t 0 (EvictItems time mem maxmemory False samples s) db = Some (s', db') \<and> db' k = None"
proof -
  have d: "dbno s = 0" using assms(1,2) by (simp add: wait_ok_def)
  let ?s = "s\<lparr>lruclock := time AND kMaxLRUValue\<rparr>"
  have "evict_dbs (samples 31) 0 ?s = snd (DeleteKey k ?s)"
    using assms(2,4,5,6) d
    by (subst evict_dbs.simps, subst evict_dbs.simps)
      (auto simp: SelectDB_def DBSize_def cur_db_def DeleteKey_def mark_sync_def upd_db_def Let_def)
  moreover have "(32::nat) = Suc 31" "(31::nat) = Suc 30" by simp_all
  then have "evict_tries mem maxmemory False samples 32 ?s = snd (DeleteKey k ?s)"
    using assms(7,8) calculation by (metis (no_types, lifting) evict_tries.simps(2) linorder_not_le)
  ultimately have e: "EvictItems time mem maxmemory False samples s = snd (DeleteKey k ?s)"
    using d by (simp add: EvictItems_def SelectDB_def GetDB_def DeleteKey_def mark_sync_def upd_db_def Let_def)
  let ?s1 = "snd (DeleteKey k ?s)"
  have l: "length (waitSyncKeys s) = 1" using assms(1,2) by (simp add: wait_ok_def)
  then obtain ws where ws: "waitSyncKeys s = [ws]" by (auto simp: length_Suc_conv)
  obtain kvs where kvs: "store s = [kvs]" using assms(2) by (auto simp: length_Suc_conv)
  have s1: "waitSyncKeys ?s1 = [AList.update k False ws]" "store ?s1 = [AList.delete k kvs]" "dbno ?s1 = 0" "expiresDb ?s1 = expiresDb s"
    using ws kvs d by (simp_all add: DeleteKey_def mark_sync_def upd_db_def cur_db_def Let_def)
  have "wait_ok ?s1" using assms(1) s1 ws kvs d ran_delete [of "map_of kvs" k]
    by (auto simp: wait_ok_def cur_db_def cur_exp_def intro: keys_distinct_update)
  moreover have "length (waitSyncKeys ?s1 ! dbno ?s1) \<le> 100"
    using assms(3) ws s1 length_update_le [of k False ws] by simp
  ultimately obtain s' db' where r: "DumpToBackends f t (dbno ?s1) ?s1 db = Some (s', db')" "waitSyncKeys s' ! dbno ?s1 = []"
    "\<forall>k. db' k = (case map_of (waitSyncKeys ?s1 ! dbno ?s1) k of None \<Rightarrow> db k | Some live \<Rightarrow> if live then synced_value f t ?s1 k else None)"
    using DumpToBackends_loop_syncs [of ?s1 0 kMaxSync f t db] s1
    by (auto simp: DumpToBackends_def kMaxSync_def)
  show ?thesis unfolding e using r s1 by auto
qed

lemma evicted_key_is_lost_witness:
  "\<exists>s' db'. DumpToBackends (\<lambda>_. []) 0 0 (EvictItems 5 (\<lambda>i. if i = 31 then 2 else 0) 1 False (\<lambda>_ _ _. [Some (''k'', obj_of (VRaw ''x''))]) waiting_server)
      (\<lambda>_. Some []) = Some (s', db') \<and> db' ''k'' = None"
  by (rule evicted_key_is_lost [OF waiting_server_ok]) (simp_all add: waiting_server_simps)

end
