(* ===== verification/Compact.thy ===== *)
theory Compact
  imports Binary Common
begin

unbundle bit_operations_syntax

text \<open>
  The readers of QedisCore/redisIntset.c and QedisCore/redisZipList.c that the loader of RDB files uses. Both formats are
  blocks of bytes, which come from the file; \<^const>\<open>None\<close> is a read behind the block or a failed assertion.
\<close>

subsection \<open>Bytes of a block\<close>

definition block_bytes :: "string \<Rightarrow> nat \<Rightarrow> nat \<Rightarrow> string option" where
  "block_bytes blob off n = (if length blob < off + n then None else Some (take n (drop off blob)))"

definition block_nat :: "string \<Rightarrow> nat \<Rightarrow> nat \<Rightarrow> nat option" where
  "block_nat blob off n = map_option le_value (block_bytes blob off n)"

text \<open>Two's complement at any width.\<close>

definition signed_value :: "string \<Rightarrow> int" where
  "signed_value cs =
     (let v = int (le_value cs); m = 256 ^ length cs in if v < m div 2 then v else v - m)"

definition block_int :: "string \<Rightarrow> nat \<Rightarrow> nat \<Rightarrow> int option" where
  "block_int blob off n = map_option signed_value (block_bytes blob off n)"

subsection \<open>Intsets\<close>

definition INTSET_ENC_INT16 :: nat where "INTSET_ENC_INT16 = 2"
definition INTSET_ENC_INT32 :: nat where "INTSET_ENC_INT32 = 4"
definition INTSET_ENC_INT64 :: nat where "INTSET_ENC_INT64 = 8"

definition intsetLen :: "string \<Rightarrow> nat option" where
  "intsetLen is = block_nat is 4 4"

definition intsetGetEncoded :: "string \<Rightarrow> nat \<Rightarrow> nat \<Rightarrow> int option" where
  "intsetGetEncoded is pos enc =
     (if enc = INTSET_ENC_INT64 then block_int is (8 + 8 * pos) 8
      else if enc = INTSET_ENC_INT32 then block_int is (8 + 4 * pos) 4
      else block_int is (8 + 2 * pos) 2)"

text \<open>\<open>_intsetGet\<close> hands the encoding over in one byte.\<close>

definition intset_at :: "string \<Rightarrow> nat \<Rightarrow> int option" where
  "intset_at is pos = Option.bind (block_nat is 0 4) (\<lambda>enc. intsetGetEncoded is pos (enc mod 256))"

text \<open>The value at a position, if the position is in range.\<close>

definition intsetGet :: "string \<Rightarrow> nat \<Rightarrow> int option option" where
  "intsetGet is pos =
     Option.bind (intsetLen is) (\<lambda>len. if pos < len then map_option Some (intset_at is pos) else Some None)"

subsection \<open>Ziplists\<close>

definition ZIP_END :: nat where "ZIP_END = 255"
definition ZIP_BIGLEN :: nat where "ZIP_BIGLEN = 254"
definition ZIPLIST_HEADER_SIZE :: nat where "ZIPLIST_HEADER_SIZE = 10"

definition zipIntSize :: "nat \<Rightarrow> nat" where
  "zipIntSize encoding =
     (if encoding = 0xFE then 1 else if encoding = 0xC0 then 2 else if encoding = 0xF0 then 3
      else if encoding = 0xD0 then 4 else if encoding = 0xE0 then 8 else 0)"

text \<open>The encoding, the size of the length and the length; strings have the encodings 0, 64 and 128.\<close>

definition ZIP_DECODE_LENGTH :: "string \<Rightarrow> nat \<Rightarrow> (nat \<times> nat \<times> nat) option" where
  "ZIP_DECODE_LENGTH zl p =
     Option.bind (block_nat zl p 1) (\<lambda>b.
       if b < 0xC0 then
         (if b div 64 = 0 then Some (0, 1, b mod 64)
          else if b div 64 = 1 then map_option (\<lambda>l. (64, 2, b mod 64 * 256 + l)) (block_nat zl (p + 1) 1)
          else map_option (\<lambda>l. (128, 5, le_value (rev l))) (block_bytes zl (p + 1) 4))
       else Some (b, 1, zipIntSize b))"

definition ZIP_DECODE_PREVLENSIZE :: "string \<Rightarrow> nat \<Rightarrow> nat option" where
  "ZIP_DECODE_PREVLENSIZE zl p = map_option (\<lambda>b. if b < ZIP_BIGLEN then 1 else 5) (block_nat zl p 1)"

text \<open>The sum is an \<open>unsigned int\<close>.\<close>

definition zipRawEntryLength :: "string \<Rightarrow> nat \<Rightarrow> nat option" where
  "zipRawEntryLength zl p =
     Option.bind (ZIP_DECODE_PREVLENSIZE zl p) (\<lambda>prevlensize.
       map_option (\<lambda>(_, lensize, len). (prevlensize + lensize + len) mod 2 ^ 32) (ZIP_DECODE_LENGTH zl (p + prevlensize)))"

text \<open>
  The length is in the header unless it is too large for it; then the entries are counted. An entry that takes no byte,
  because the sum has wrapped around, would be counted for ever: the budget, one more than the block has bytes, is then used up.
\<close>

fun zip_count :: "nat \<Rightarrow> string \<Rightarrow> nat \<Rightarrow> nat \<Rightarrow> nat option" where
  "zip_count 0 zl p len = None"
| "zip_count (Suc fuel) zl p len =
     Option.bind (block_nat zl p 1) (\<lambda>b.
       if b = ZIP_END then Some len
       else Option.bind (zipRawEntryLength zl p) (\<lambda>n. zip_count fuel zl (p + n) (len + 1)))"

definition ziplistLen :: "string \<Rightarrow> nat option" where
  "ziplistLen zl =
     Option.bind (block_nat zl 8 2) (\<lambda>len.
       if len < 65535 then Some len else zip_count (length zl + 1) zl ZIPLIST_HEADER_SIZE 0)"

text \<open>\<open>ziplistIndex\<close> with a number from the head. The inner \<^const>\<open>None\<close> is a null pointer.\<close>

fun zip_walk :: "string \<Rightarrow> nat \<Rightarrow> nat \<Rightarrow> nat option option" where
  "zip_walk zl index p =
     Option.bind (block_nat zl p 1) (\<lambda>b.
       if b = ZIP_END then Some None
       else case index of
              0 \<Rightarrow> Some (Some p)
            | Suc index \<Rightarrow> Option.bind (zipRawEntryLength zl p) (\<lambda>n. zip_walk zl index (p + n)))"

declare zip_walk.simps [simp del]

definition ziplistIndex :: "string \<Rightarrow> nat \<Rightarrow> nat option option" where
  "ziplistIndex zl index = zip_walk zl index ZIPLIST_HEADER_SIZE"

definition zipLoadInteger :: "string \<Rightarrow> nat \<Rightarrow> nat \<Rightarrow> int option" where
  "zipLoadInteger zl p encoding =
     (if encoding = 0xFE then block_int zl p 1
      else if encoding = 0xC0 then block_int zl p 2
      else if encoding = 0xD0 then block_int zl p 4
      else if encoding = 0xF0 then block_int zl p 3
      else if encoding = 0xE0 then block_int zl p 8
      else if 0xF1 \<le> encoding \<and> encoding \<le> 0xFD then Some (int (encoding mod 16) - 1)
      else None)"

datatype ZipListElement = Sval string | Lval int

text \<open>
  \<open>ziplistGet\<close> and the read of the string it points to. The inner \<^const>\<open>None\<close> is the result 0. \<open>zipEntry\<close> also reads the length
  of the previous entry, which must lie in the block.
\<close>

definition ziplistGet :: "string \<Rightarrow> nat option \<Rightarrow> ZipListElement option option" where
  "ziplistGet zl pos =
     (case pos of
        None \<Rightarrow> Some None
      | Some p \<Rightarrow>
          Option.bind (block_nat zl p 1) (\<lambda>b.
            if b = ZIP_END then Some None
            else
              Option.bind (ZIP_DECODE_PREVLENSIZE zl p) (\<lambda>prevrawlensize.
                Option.bind (block_bytes zl p prevrawlensize) (\<lambda>_.
                  Option.bind (ZIP_DECODE_LENGTH zl (p + prevrawlensize)) (\<lambda>(encoding, lensize, len).
                    if encoding < 0xC0
                    then map_option (Some \<circ> Sval) (block_bytes zl (p + prevrawlensize + lensize) len)
                    else map_option (Some \<circ> Lval) (zipLoadInteger zl (p + prevrawlensize + lensize) encoding))))))"

subsection \<open>Writing entries\<close>

definition zipPrevEncodeLength :: "nat \<Rightarrow> string" where
  "zipPrevEncodeLength len = (if len < ZIP_BIGLEN then [char_of len] else char_of ZIP_BIGLEN # le_bytes 4 len)"

text \<open>The length of a string; an integer has only its encoding.\<close>

definition zipEncodeLength :: "nat \<Rightarrow> nat \<Rightarrow> string" where
  "zipEncodeLength encoding rawlen =
     (if encoding < 0xC0 then
        (if rawlen \<le> 0x3F then [char_of rawlen]
         else if rawlen \<le> 0x3FFF then [char_of (64 + rawlen div 256 mod 64), char_of (rawlen mod 256)]
         else char_of (128::nat) # rev (le_bytes 4 rawlen))
      else [char_of encoding])"

text \<open>The smallest encoding of an integer, as \<open>zipTryEncoding\<close> chooses it.\<close>

definition zip_int_encoding :: "int \<Rightarrow> nat" where
  "zip_int_encoding value =
     (if 0 \<le> value \<and> value \<le> 12 then 0xF1 + nat value
      else if - 128 \<le> value \<and> value \<le> 127 then 0xFE
      else if - 32768 \<le> value \<and> value \<le> 32767 then 0xC0
      else if - 8388608 \<le> value \<and> value \<le> 8388607 then 0xF0
      else if - 2147483648 \<le> value \<and> value \<le> 2147483647 then 0xD0
      else 0xE0)"

definition int_bytes :: "nat \<Rightarrow> int \<Rightarrow> string" where
  "int_bytes k v = le_bytes k (nat (v mod 256 ^ k))"

definition zipSaveInteger :: "int \<Rightarrow> nat \<Rightarrow> string" where
  "zipSaveInteger value encoding = int_bytes (zipIntSize encoding) value"

definition zip_item :: "ZipListElement \<Rightarrow> string" where
  "zip_item e =
     (case e of
        Sval s \<Rightarrow> zipEncodeLength 0 (length s) @ s
      | Lval v \<Rightarrow> zipEncodeLength (zip_int_encoding v) 0 @ zipSaveInteger v (zip_int_encoding v))"

text \<open>The block of a list of entries, as the comment at the top of the file lays it out.\<close>

fun zip_entries :: "nat \<Rightarrow> ZipListElement list \<Rightarrow> string" where
  "zip_entries prevlen [] = []"
| "zip_entries prevlen (e # es) =
     (let entry = zipPrevEncodeLength prevlen @ zip_item e in entry @ zip_entries (length entry) es)"

definition zip_block :: "nat \<Rightarrow> ZipListElement list \<Rightarrow> string" where
  "zip_block tail es =
     (let entries = zip_entries 0 es
      in le_bytes 4 (ZIPLIST_HEADER_SIZE + length entries + 1) @ le_bytes 4 tail @ le_bytes 2 (min (length es) 65535) @
         entries @ [char_of ZIP_END])"

subsection \<open>What is written is read back\<close>

lemma block_bytes_at: "blob = pre @ xs @ post \<Longrightarrow> off = length pre \<Longrightarrow> n = length xs \<Longrightarrow> block_bytes blob off n = Some xs"
  by (simp add: block_bytes_def)

lemma block_nat_at: "blob = pre @ xs @ post \<Longrightarrow> off = length pre \<Longrightarrow> n = length xs \<Longrightarrow> block_nat blob off n = Some (le_value xs)"
  by (simp add: block_nat_def block_bytes_at)

lemma signed_int_bytes:
  assumes "0 < k" "- (256 ^ k div 2) \<le> v" "v < 256 ^ k div 2"
  shows "signed_value (int_bytes k v) = v"
proof -
  have m: "0 < (256::int) ^ k" "even ((256::int) ^ k)" using assms(1) by simp_all
  have "nat (v mod 256 ^ k) < 256 ^ k" using m(1) by (simp add: nat_less_iff)
  then have "int (le_value (int_bytes k v)) = v mod 256 ^ k" using m(1) by (simp add: int_bytes_def)
  moreover have "length (int_bytes k v) = k" by (simp add: int_bytes_def)
  moreover have "v mod 256 ^ k = (if v < 0 then v + 256 ^ k else v)"
  proof (cases "v < 0")
    case True
    have "v mod 256 ^ k = (v + 256 ^ k) mod 256 ^ k" by simp
    also have "\<dots> = v + 256 ^ k" using True assms(2) m by (intro mod_pos_pos_trivial) linarith+
    finally show ?thesis using True by simp
  qed (use assms(3) m in \<open>simp add: mod_pos_pos_trivial\<close>)
  ultimately show ?thesis using assms m by (auto simp: signed_value_def Let_def)
qed

definition zip_fits :: "ZipListElement \<Rightarrow> bool" where
  "zip_fits e = (case e of Sval s \<Rightarrow> length s < 2 ^ 32 - 10 | Lval v \<Rightarrow> LONG_MIN \<le> v \<and> v \<le> LONG_MAX)"

lemma rev_le_value: "n < 2 ^ 32 \<Longrightarrow> le_value (rev (rev (le_bytes 4 n))) = n"
  by simp

lemma prev_len_at:
  assumes "zl = pre @ (zipPrevEncodeLength prevlen @ post)"
  shows "ZIP_DECODE_PREVLENSIZE zl (length pre) = Some (length (zipPrevEncodeLength prevlen))"
    "block_bytes zl (length pre) (length (zipPrevEncodeLength prevlen)) = Some (zipPrevEncodeLength prevlen)"
    "\<exists>b. block_nat zl (length pre) 1 = Some b \<and> b \<noteq> ZIP_END"
proof -
  obtain c cs where c: "zipPrevEncodeLength prevlen = c # cs" "(code c < ZIP_BIGLEN) = (cs = [])" "code c \<noteq> ZIP_END"
    "cs \<noteq> [] \<Longrightarrow> length cs = 4"
  proof (cases "prevlen < ZIP_BIGLEN")
    case True
    then have "code (char_of prevlen) = prevlen" by (intro code_char_of) (simp add: ZIP_BIGLEN_def)
    then show ?thesis using that [of "char_of prevlen" "[]"] True by (simp add: zipPrevEncodeLength_def ZIP_BIGLEN_def ZIP_END_def)
  next
    case False
    have "le_bytes 4 prevlen \<noteq> []" using length_le_bytes [of 4 prevlen] by (metis list.size(3) zero_neq_numeral)
    moreover have "code (char_of ZIP_BIGLEN) = 254" unfolding ZIP_BIGLEN_def by (rule code_char_of) simp
    ultimately show ?thesis using that [of "char_of ZIP_BIGLEN" "le_bytes 4 prevlen"] False
      by (simp add: zipPrevEncodeLength_def ZIP_BIGLEN_def ZIP_END_def)
  qed
  have b: "block_nat zl (length pre) 1 = Some (code c)"
    using block_nat_at [of zl pre "[c]" "cs @ post"] assms c(1) by simp
  then show "\<exists>b. block_nat zl (length pre) 1 = Some b \<and> b \<noteq> ZIP_END" using c(3) by blast
  show "ZIP_DECODE_PREVLENSIZE zl (length pre) = Some (length (zipPrevEncodeLength prevlen))"
    using b c by (cases cs) (simp_all add: ZIP_DECODE_PREVLENSIZE_def)
  show "block_bytes zl (length pre) (length (zipPrevEncodeLength prevlen)) = Some (zipPrevEncodeLength prevlen)"
    by (rule block_bytes_at [OF assms refl refl])
qed

lemma decode_length_string:
  assumes "zl = pre @ zipEncodeLength 0 (length s) @ s @ post" "length s < 2 ^ 32"
  shows "\<exists>enc < 0xC0. ZIP_DECODE_LENGTH zl (length pre) = Some (enc, length (zipEncodeLength 0 (length s)), length s)"
proof -
  let ?n = "length s"
  consider "?n \<le> 0x3F" | "0x3F < ?n" "?n \<le> 0x3FFF" | "0x3FFF < ?n" by linarith
  then show ?thesis
  proof cases
    case 1
    have "code (char_of ?n) = ?n" using 1 by (intro code_char_of) simp
    then have "block_nat zl (length pre) 1 = Some ?n"
      using block_nat_at [of zl pre "[char_of ?n]" "s @ post"] assms(1) 1 by (simp add: zipEncodeLength_def)
    then show ?thesis using 1 by (auto simp: ZIP_DECODE_LENGTH_def zipEncodeLength_def)
  next
    case 2
    have q: "?n div 256 < 64" using 2 by (simp add: less_mult_imp_div_less)
    have "code (char_of (64 + ?n div 256 mod 64)) = 64 + ?n div 256" using q by (subst code_char_of) simp_all
    then have b: "block_nat zl (length pre) 1 = Some (64 + ?n div 256)"
      using block_nat_at [of zl pre "[char_of (64 + ?n div 256 mod 64)]" "char_of (?n mod 256) # s @ post"] assms(1) 2
      by (simp add: zipEncodeLength_def)
    have "code (char_of (?n mod 256)) = ?n mod 256" by (intro code_char_of) simp
    then have "block_nat zl (length pre + 1) 1 = Some (?n mod 256)"
      using block_nat_at [of zl "pre @ [char_of (64 + ?n div 256 mod 64)]" "[char_of (?n mod 256)]" "s @ post"] assms(1) 2
      by (simp add: zipEncodeLength_def)
    moreover have "(64 + ?n div 256) div 64 = 1" "(64 + ?n div 256) mod 64 = ?n div 256" using q by simp_all
    ultimately show ?thesis using b q 2 by (auto simp: ZIP_DECODE_LENGTH_def zipEncodeLength_def)
  next
    case 3
    have "code (char_of (128::nat)) = 128" by (intro code_char_of) simp
    then have b: "block_nat zl (length pre) 1 = Some 128"
      using block_nat_at [of zl pre "[char_of (128::nat)]" "rev (le_bytes 4 ?n) @ s @ post"] assms(1) 3 by (simp add: zipEncodeLength_def)
    have "block_bytes zl (length pre + 1) 4 = Some (rev (le_bytes 4 ?n))"
      using block_bytes_at [of zl "pre @ [char_of (128::nat)]" "rev (le_bytes 4 ?n)" "s @ post"] assms(1) 3 by (simp add: zipEncodeLength_def)
    then show ?thesis using b 3 rev_le_value [OF assms(2)] by (auto simp: ZIP_DECODE_LENGTH_def zipEncodeLength_def)
  qed
qed

lemma int_encoding_range: "0xC0 \<le> zip_int_encoding v \<and> zip_int_encoding v \<le> 0xFE"
  by (auto simp: zip_int_encoding_def)

lemma decode_length_int:
  assumes "zl = pre @ zipEncodeLength (zip_int_encoding v) 0 @ post"
  shows "ZIP_DECODE_LENGTH zl (length pre) = Some (zip_int_encoding v, 1, zipIntSize (zip_int_encoding v))"
    "length (zipEncodeLength (zip_int_encoding v) 0) = 1"
proof -
  have r: "\<not> zip_int_encoding v < 0xC0" using int_encoding_range [of v] by simp
  then show "length (zipEncodeLength (zip_int_encoding v) 0) = 1" by (simp add: zipEncodeLength_def)
  have "code (char_of (zip_int_encoding v)) = zip_int_encoding v" using int_encoding_range [of v] by (intro code_char_of) simp
  then have "block_nat zl (length pre) 1 = Some (zip_int_encoding v)"
    using block_nat_at [of zl pre "[char_of (zip_int_encoding v)]" post] assms r by (simp add: zipEncodeLength_def)
  then show "ZIP_DECODE_LENGTH zl (length pre) = Some (zip_int_encoding v, 1, zipIntSize (zip_int_encoding v))"
    using r by (simp add: ZIP_DECODE_LENGTH_def)
qed

lemma load_saved_int:
  assumes "zl = pre @ zipSaveInteger v (zip_int_encoding v) @ post" "LONG_MIN \<le> v" "v \<le> LONG_MAX"
  shows "zipLoadInteger zl (length pre) (zip_int_encoding v) = Some v"
proof -
  have i: "block_int zl (length pre) k = Some v"
    if "zipIntSize (zip_int_encoding v) = k" "0 < k" "- (256 ^ k div 2) \<le> v" "v < 256 ^ k div 2" for k
  proof -
    have "length (int_bytes k v) = k" by (simp add: int_bytes_def)
    then have "block_bytes zl (length pre) k = Some (int_bytes k v)"
      using block_bytes_at [of zl pre "int_bytes k v" post] assms(1) that(1) by (simp add: zipSaveInteger_def)
    then show ?thesis using signed_int_bytes [OF that(2-4)] by (simp add: block_int_def)
  qed
  consider "0 \<le> v \<and> v \<le> 12" | "\<not> (0 \<le> v \<and> v \<le> 12)" "- 128 \<le> v \<and> v \<le> 127"
    | "\<not> (- 128 \<le> v \<and> v \<le> 127)" "- 32768 \<le> v \<and> v \<le> 32767" | "\<not> (- 32768 \<le> v \<and> v \<le> 32767)" "- 8388608 \<le> v \<and> v \<le> 8388607"
    | "\<not> (- 8388608 \<le> v \<and> v \<le> 8388607)" "- 2147483648 \<le> v \<and> v \<le> 2147483647" | "\<not> (- 2147483648 \<le> v \<and> v \<le> 2147483647)"
    by blast
  then show ?thesis
  proof cases
    case 1
    have "n \<le> 12 \<Longrightarrow> (241 + n) mod 16 = n + 1" for n :: nat by presburger
    moreover have n: "nat v \<le> 12" using 1 by linarith
    ultimately have "zip_int_encoding v = 241 + nat v" "(241 + nat v) mod 16 = nat v + 1" using 1 by (simp_all add: zip_int_encoding_def)
    then show ?thesis using 1 n by (simp add: zipLoadInteger_def)
  next
    case 2
    then have "zip_int_encoding v = 0xFE" by (auto simp: zip_int_encoding_def)
    then show ?thesis using i [of 1] 2 by (simp add: zipLoadInteger_def zipIntSize_def)
  next
    case 3
    then have "zip_int_encoding v = 0xC0" by (auto simp: zip_int_encoding_def)
    then show ?thesis using i [of 2] 3 by (simp add: zipLoadInteger_def zipIntSize_def)
  next
    case 4
    then have "zip_int_encoding v = 0xF0" by (auto simp: zip_int_encoding_def)
    then show ?thesis using i [of 3] 4 by (simp add: zipLoadInteger_def zipIntSize_def)
  next
    case 5
    then have "zip_int_encoding v = 0xD0" by (auto simp: zip_int_encoding_def)
    then show ?thesis using i [of 4] 5 by (simp add: zipLoadInteger_def zipIntSize_def)
  next
    case 6
    then have "zip_int_encoding v = 0xE0" by (auto simp: zip_int_encoding_def)
    then show ?thesis using i [of 8] assms(2,3) by (simp add: zipLoadInteger_def zipIntSize_def LONG_MIN_def LONG_MAX_def)
  qed
qed

text \<open>One entry: its bytes, its successor and its value.\<close>

lemma entry_at:
  assumes "zl = pre @ (zipPrevEncodeLength prevlen @ zip_item e) @ post" "zip_fits e"
  shows "zipRawEntryLength zl (length pre) = Some (length (zipPrevEncodeLength prevlen @ zip_item e)) \<and>
    ziplistGet zl (Some (length pre)) = Some (Some e) \<and> (\<exists>b. block_nat zl (length pre) 1 = Some b \<and> b \<noteq> ZIP_END)"
proof -
  let ?p = "zipPrevEncodeLength prevlen"
  have z0: "zl = pre @ (?p @ (zip_item e @ post))" using assms(1) by simp
  note p = prev_len_at [OF z0]
  have l: "length ?p \<le> 5" by (simp add: zipPrevEncodeLength_def)
  obtain b where b: "block_nat zl (length pre) 1 = Some b" "b \<noteq> ZIP_END" using p(3) by auto
  show ?thesis
  proof (cases e)
    case (Sval s)
    then have s: "length s < 2 ^ 32 - 10" using assms(2) by (simp add: zip_fits_def)
    then have s': "length s < 2 ^ 32" by simp
    have z: "zl = (pre @ ?p) @ zipEncodeLength 0 (length s) @ s @ post" using assms(1) Sval by (simp add: zip_item_def)
    obtain enc where d: "enc < 0xC0" "ZIP_DECODE_LENGTH zl (length pre + length ?p) = Some (enc, length (zipEncodeLength 0 (length s)), length s)"
      using decode_length_string [OF z s'] by auto
    have "length (zipEncodeLength 0 (length s)) \<le> 5" by (simp add: zipEncodeLength_def)
    then have m: "(length ?p + length (zipEncodeLength 0 (length s)) + length s) mod 2 ^ 32 = length ?p + length (zipEncodeLength 0 (length s)) + length s"
      using l s by (intro mod_less) linarith
    have "block_bytes zl (length pre + length ?p + length (zipEncodeLength 0 (length s))) (length s) = Some s"
      by (rule block_bytes_at [of zl "pre @ ?p @ zipEncodeLength 0 (length s)" s post]) (use z in simp_all)
    then show ?thesis using p b d m Sval by (simp add: zipRawEntryLength_def ziplistGet_def zip_item_def)
  next
    case (Lval v)
    let ?e = "zip_int_encoding v"
    have z: "zl = (pre @ ?p) @ zipEncodeLength ?e 0 @ (zipSaveInteger v ?e @ post)" using assms(1) Lval by (simp add: zip_item_def)
    note d = decode_length_int [OF z]
    have "zipLoadInteger zl (length ((pre @ ?p) @ zipEncodeLength ?e 0)) ?e = Some v"
      by (rule load_saved_int [of zl _ v post]) (use z assms(2) Lval in \<open>simp_all add: zip_fits_def\<close>)
    moreover have "length (zipSaveInteger v ?e) = zipIntSize ?e" by (simp add: zipSaveInteger_def int_bytes_def)
    moreover have "zipIntSize ?e \<le> 8" by (simp add: zipIntSize_def)
    moreover have "\<not> ?e < 0xC0" using int_encoding_range [of v] by simp
    ultimately show ?thesis using p b d l Lval by (simp add: zipRawEntryLength_def ziplistGet_def zip_item_def)
  qed
qed

lemma walk_entries:
  "list_all zip_fits es \<Longrightarrow> zl = pre @ zip_entries prevlen es @ [char_of ZIP_END] @ post \<Longrightarrow> i < length es \<Longrightarrow>
    \<exists>p. zip_walk zl i (length pre) = Some (Some p) \<and> ziplistGet zl (Some p) = Some (Some (es ! i))"
proof (induction es arbitrary: pre prevlen i)
  case (Cons e es)
  let ?entry = "zipPrevEncodeLength prevlen @ zip_item e"
  have z: "zl = pre @ ?entry @ (zip_entries (length ?entry) es @ [char_of ZIP_END] @ post)" using Cons.prems(2) by (simp add: Let_def)
  have f: "zip_fits e" using Cons.prems(1) by simp
  note E = entry_at [OF z f]
  then obtain b where b: "block_nat zl (length pre) 1 = Some b" "b \<noteq> ZIP_END" by blast
  show ?case
  proof (cases i)
    case 0
    then show ?thesis using E b by (simp add: zip_walk.simps [of zl 0])
  next
    case (Suc j)
    have "zl = (pre @ ?entry) @ zip_entries (length ?entry) es @ [char_of ZIP_END] @ post" using z by simp
    from Cons.IH [OF _ this, of j] Cons.prems(1,3) Suc obtain p where
      "zip_walk zl j (length (pre @ ?entry)) = Some (Some p)" "ziplistGet zl (Some p) = Some (Some (es ! j))" by auto
    then show ?thesis using E b Suc by (simp add: zip_walk.simps [of zl "Suc j"])
  qed
qed simp

lemma count_entries:
  "list_all zip_fits es \<Longrightarrow> zl = pre @ zip_entries prevlen es @ [char_of ZIP_END] @ post \<Longrightarrow> length es < fuel \<Longrightarrow>
    zip_count fuel zl (length pre) len = Some (len + length es)"
proof (induction es arbitrary: pre prevlen fuel len)
  case Nil
  then obtain k where k: "fuel = Suc k" by (cases fuel) auto
  have "code (char_of ZIP_END) = ZIP_END" by (intro code_char_of) (simp add: ZIP_END_def)
  then have "block_nat zl (length pre) 1 = Some ZIP_END" using Nil.prems(2) block_nat_at [of zl pre "[char_of ZIP_END]" post] by simp
  then show ?case using k by simp
next
  case (Cons e es)
  let ?entry = "zipPrevEncodeLength prevlen @ zip_item e"
  obtain k where k: "fuel = Suc k" "length es < k" using Cons.prems(3) by (cases fuel) auto
  have z: "zl = pre @ ?entry @ (zip_entries (length ?entry) es @ [char_of ZIP_END] @ post)" using Cons.prems(2) by (simp add: Let_def)
  have f: "zip_fits e" using Cons.prems(1) by simp
  note E = entry_at [OF z f]
  then obtain b where b: "block_nat zl (length pre) 1 = Some b" "b \<noteq> ZIP_END" by blast
  have "zl = (pre @ ?entry) @ zip_entries (length ?entry) es @ [char_of ZIP_END] @ post" using z by simp
  from Cons.IH [OF _ this k(2), of "len + 1"] Cons.prems(1) show ?case using E b k(1) by simp
qed

lemma zip_entries_longer: "length es \<le> length (zip_entries prevlen es)"
proof (induction es arbitrary: prevlen)
  case (Cons e es)
  have "1 \<le> length (zipPrevEncodeLength prevlen)" by (simp add: zipPrevEncodeLength_def)
  with Cons [of "length (zipPrevEncodeLength prevlen @ zip_item e)"] show ?case unfolding zip_entries.simps Let_def length_append list.size by linarith
qed simp

text \<open>C33: The readers get out of a ziplist, laid out as its format says, as many entries as went in, and every entry
  as it went in: strings of any length and integers of every width, also when the list is too long for the header to count.\<close>

theorem ziplist_reads_back:
  assumes "list_all zip_fits es"
  shows "ziplistLen (zip_block tail es) = Some (length es) \<and>
    (\<forall>i < length es. Option.bind (ziplistIndex (zip_block tail es) i) (ziplistGet (zip_block tail es)) = Some (Some (es ! i)))"
proof -
  let ?zl = "zip_block tail es"
  let ?n = "min (length es) 65535"
  let ?b4 = "le_bytes 4 (ZIPLIST_HEADER_SIZE + length (zip_entries 0 es) + 1)"
  define pre where "pre = ?b4 @ le_bytes 4 tail @ le_bytes 2 ?n"
  have pre: "length pre = ZIPLIST_HEADER_SIZE" by (simp add: pre_def ZIPLIST_HEADER_SIZE_def)
  have z: "?zl = pre @ zip_entries 0 es @ [char_of ZIP_END] @ []" by (simp add: zip_block_def pre_def Let_def)
  have "?zl = (?b4 @ le_bytes 4 tail) @ le_bytes 2 ?n @ (zip_entries 0 es @ [char_of ZIP_END])" by (simp add: zip_block_def Let_def)
  from block_nat_at [OF this, of 8 2] have h: "block_nat ?zl 8 2 = Some ?n" by simp
  have "ziplistLen ?zl = Some (length es)"
  proof (cases "length es < 65535")
    case False
    have "length es < length ?zl + 1" using zip_entries_longer [of es 0] by (simp add: zip_block_def Let_def)
    from count_entries [OF assms z this, of 0] show ?thesis using h pre False by (simp add: ziplistLen_def)
  qed (use h in \<open>simp add: ziplistLen_def\<close>)
  moreover have "Option.bind (ziplistIndex ?zl i) (ziplistGet ?zl) = Some (Some (es ! i))" if "i < length es" for i
    using walk_entries [OF assms z that] pre by (auto simp: ziplistIndex_def)
  ultimately show ?thesis by blast
qed

lemma ziplist_reads_back_witness:
  "ziplistLen (zip_block 12 [Sval ''abc'', Lval 300, Lval 5]) = Some 3 \<and>
    Option.bind (ziplistIndex (zip_block 12 [Sval ''abc'', Lval 300, Lval 5]) 1) (ziplistGet (zip_block 12 [Sval ''abc'', Lval 300, Lval 5])) =
      Some (Some (Lval 300))"
proof -
  have "list_all zip_fits [Sval ''abc'', Lval 300, Lval 5]" by (simp add: zip_fits_def LONG_MIN_def LONG_MAX_def)
  from ziplist_reads_back [OF this, of 12] show ?thesis by (auto dest: spec [of _ 1])
qed

text \<open>The block of an intset of \<open>w\<close> bytes per value.\<close>

definition intset_block :: "nat \<Rightarrow> int list \<Rightarrow> string" where
  "intset_block w xs = le_bytes 4 w @ le_bytes 4 (length xs) @ concat (map (int_bytes w) xs)"

lemma intset_reads_back:
  assumes "w \<in> {INTSET_ENC_INT16, INTSET_ENC_INT32, INTSET_ENC_INT64}" "length xs < 2 ^ 32"
    and "list_all (\<lambda>x. - (256 ^ w div 2) \<le> x \<and> x < 256 ^ w div 2) xs"
  shows "intsetLen (intset_block w xs) = Some (length xs)"
    "i < length xs \<Longrightarrow> intsetGet (intset_block w xs) i = Some (Some (xs ! i))"
proof -
  have w: "w = 2 \<or> w = 4 \<or> w = 8" using assms(1) by (auto simp: INTSET_ENC_INT16_def INTSET_ENC_INT32_def INTSET_ENC_INT64_def)
  have "intset_block w xs = le_bytes 4 w @ le_bytes 4 (length xs) @ concat (map (int_bytes w) xs)" by (simp add: intset_block_def)
  from block_nat_at [OF this, of 4 4] show l: "intsetLen (intset_block w xs) = Some (length xs)"
    using assms(2) by (simp add: intsetLen_def)
  have "intset_block w xs = [] @ le_bytes 4 w @ (le_bytes 4 (length xs) @ concat (map (int_bytes w) xs))" by (simp add: intset_block_def)
  from block_nat_at [OF this, of 0 4] have e: "block_nat (intset_block w xs) 0 4 = Some w" using w by auto
  show "intsetGet (intset_block w xs) i = Some (Some (xs ! i))" if i: "i < length xs"
  proof -
    have len: "length (concat (map (int_bytes w) ys)) = w * length ys" for ys
      by (induction ys) (simp_all add: int_bytes_def)
    have "xs = take i xs @ xs ! i # drop (Suc i) xs" using i by (rule id_take_nth_drop)
    then have c: "concat (map (int_bytes w) xs) = concat (map (int_bytes w) (take i xs)) @ int_bytes w (xs ! i) @ concat (map (int_bytes w) (drop (Suc i) xs))"
      by (metis concat.simps(2) concat_append list.simps(9) map_append)
    let ?pre = "le_bytes 4 w @ le_bytes 4 (length xs) @ concat (map (int_bytes w) (take i xs))"
    have "intset_block w xs = ?pre @ int_bytes w (xs ! i) @ concat (map (int_bytes w) (drop (Suc i) xs))"
      by (simp add: intset_block_def c)
    moreover have "8 + w * i = length ?pre" using i len [of "take i xs"] by simp
    moreover have "w = length (int_bytes w (xs ! i))" by (simp add: int_bytes_def)
    ultimately have "block_bytes (intset_block w xs) (8 + w * i) w = Some (int_bytes w (xs ! i))" by (rule block_bytes_at)
    moreover have "signed_value (int_bytes w (xs ! i)) = xs ! i"
      using assms(3) i w by (intro signed_int_bytes) (auto simp: list_all_length)
    ultimately have "block_int (intset_block w xs) (8 + w * i) w = Some (xs ! i)" by (simp add: block_int_def)
    then have "intset_at (intset_block w xs) i = Some (xs ! i)" using e w
      by (auto simp: intset_at_def intsetGetEncoded_def INTSET_ENC_INT32_def INTSET_ENC_INT64_def)
    then show ?thesis using l i by (simp add: intsetGet_def)
  qed
qed

end
