(* ===== verification/Lzf.thy ===== *)
theory Lzf
  imports Prelude
begin

unbundle bit_operations_syntax

text \<open>
  QBase/lzf: the compression of the strings in an RDB file. The table of the compressor lies on the stack and is not
  initialised, so its first contents are an argument: offsets from the start of the input, anywhere in memory. Decompressing
  undoes compressing whatever they are.
\<close>

definition MAX_LIT :: nat where "MAX_LIT = 32"
definition MAX_OFF :: int where "MAX_OFF = 8192"
definition MAX_REF :: nat where "MAX_REF = 264"

definition FRST :: "string \<Rightarrow> nat \<Rightarrow> 32 word" where
  "FRST inp ip = push_bit 8 (of_nat (code (inp ! ip))) OR of_nat (code (inp ! (ip + 1)))"

definition NEXT :: "32 word \<Rightarrow> string \<Rightarrow> nat \<Rightarrow> 32 word" where
  "NEXT v inp ip = push_bit 8 v OR of_nat (code (inp ! (ip + 2)))"

definition IDX :: "32 word \<Rightarrow> nat" where
  "IDX h = unat ((drop_bit 8 h - h * 5) AND 0xFFFF)"

subsection \<open>Compressing\<close>

text \<open>
  The output is a list that grows at \<open>op\<close>. A run of literals starts with a byte that is filled in when the run stops,
  and dropped when the run is empty.
\<close>

definition fill_run :: "nat \<Rightarrow> string \<Rightarrow> string" where
  "fill_run lit out = out[length out - lit - 1 := char_of (if lit = 0 then 255 else lit - 1)]"

definition stop_run :: "nat \<Rightarrow> string \<Rightarrow> string" where
  "stop_run lit out = (if lit = 0 then butlast (fill_run lit out) else fill_run lit out)"

definition start_run :: "string \<Rightarrow> string" where
  "start_run out = out @ [NUL]"

text \<open>The bytes that agree: sixteen comparisons without a bound, when there is room, and then the loop.\<close>

fun match_unrolled :: "string \<Rightarrow> nat \<Rightarrow> nat \<Rightarrow> nat \<Rightarrow> nat \<Rightarrow> bool \<times> nat" where
  "match_unrolled inp ref ip 0 len = (True, len)"
| "match_unrolled inp ref ip (Suc k) len =
     (let len = len + 1 in if inp ! (ref + len) \<noteq> inp ! (ip + len) then (False, len) else match_unrolled inp ref ip k len)"

function match_rest :: "string \<Rightarrow> nat \<Rightarrow> nat \<Rightarrow> nat \<Rightarrow> nat \<Rightarrow> nat" where
  "match_rest inp ref ip maxlen len =
     (let len = len + 1
      in if len < maxlen \<and> inp ! (ref + len) = inp ! (ip + len) then match_rest inp ref ip maxlen len else len)"
  by (pat_completeness, simp)
termination
  by (relation "measure (\<lambda>(inp, ref, ip, maxlen, len). maxlen - len)") auto

declare match_rest.simps [simp del]

definition match_len :: "string \<Rightarrow> nat \<Rightarrow> nat \<Rightarrow> nat \<Rightarrow> nat" where
  "match_len inp ref ip maxlen =
     (if 16 < maxlen then
        (case match_unrolled inp ref ip 16 2 of (all, len) \<Rightarrow> if all then match_rest inp ref ip maxlen len else len)
      else match_rest inp ref ip maxlen 2)"

definition back_ref :: "nat \<Rightarrow> nat \<Rightarrow> string" where
  "back_ref off len =
     (if len < 7 then [char_of (off div 256 + len * 32)] else [char_of (off div 256 + 7 * 32), char_of (len - 7)]) @
     [char_of (off mod 256)]"

text \<open>Whether three bytes at \<open>ref\<close>, which can be anywhere, agree with those at \<open>ip\<close>; nothing is read outside the input.\<close>

definition match_at :: "string \<Rightarrow> nat \<Rightarrow> int \<Rightarrow> bool" where
  "match_at inp ip ref \<longleftrightarrow>
     (let off = int ip - ref - 1
      in 0 \<le> off \<and> off < MAX_OFF \<and> ip + 4 < length inp \<and> 0 < ref \<and>
         inp ! nat ref = inp ! ip \<and> inp ! (nat ref + 1) = inp ! (ip + 1) \<and> inp ! (nat ref + 2) = inp ! (ip + 2))"

text \<open>A match ends the run of literals and writes the reference; \<^const>\<open>None\<close> when the output does not fit.\<close>

definition put_match :: "string \<Rightarrow> nat \<Rightarrow> nat \<Rightarrow> nat \<Rightarrow> nat \<Rightarrow> string \<Rightarrow> (nat \<times> string) option" where
  "put_match inp out_len ip ref lit out =
     (let maxlen = min (length inp - ip - 2) MAX_REF;
          out = stop_run lit out
      in if out_len \<le> length out + 3 + 1 then None
         else let len = match_len inp ref ip maxlen - 2
              in Some (len, start_run (out @ back_ref (ip - ref - 1) len)))"

text \<open>The two places before \<open>ip\<close> enter the table.\<close>

definition rehash :: "string \<Rightarrow> nat \<Rightarrow> (nat \<Rightarrow> int) \<Rightarrow> 32 word \<times> (nat \<Rightarrow> int)" where
  "rehash inp ip htab =
     (let hval = NEXT (FRST inp (ip - 2)) inp (ip - 2);
          htab = htab(IDX hval := int (ip - 2));
          hval = NEXT hval inp (ip - 1)
      in (hval, htab(IDX hval := int (ip - 1))))"

text \<open>One more literal; a run of 32 is complete.\<close>

definition put_literal :: "string \<Rightarrow> nat \<Rightarrow> nat \<Rightarrow> string \<Rightarrow> nat \<times> string" where
  "put_literal inp ip lit out =
     (let lit = lit + 1; out = out @ [inp ! ip]
      in if lit = MAX_LIT then (0, start_run (fill_run lit out)) else (lit, out))"

text \<open>The main loop.\<close>

function lzf_loop ::
  "string \<Rightarrow> nat \<Rightarrow> (nat \<Rightarrow> int) \<Rightarrow> nat \<Rightarrow> 32 word \<Rightarrow> nat \<Rightarrow> string \<Rightarrow> (nat \<times> nat \<times> string) option" where
  "lzf_loop inp out_len htab ip hval lit out =
     (if length inp \<le> ip + 2 then Some (ip, lit, out)
      else
        let hval = NEXT hval inp ip;
            ref = htab (IDX hval);
            htab = htab(IDX hval := int ip)
        in if match_at inp ip ref then
             (case put_match inp out_len ip (nat ref) lit out of
                None \<Rightarrow> None
              | Some (len, out) \<Rightarrow>
                  if length inp \<le> ip + len + 2 + 2 then Some (ip + len + 2, 0, out)
                  else (case rehash inp (ip + len + 2) htab of (hval, htab) \<Rightarrow> lzf_loop inp out_len htab (ip + len + 2) hval 0 out))
           else if out_len \<le> length out then None
           else (case put_literal inp ip lit out of (lit, out) \<Rightarrow> lzf_loop inp out_len htab (ip + 1) hval lit out))"
  by (pat_completeness, simp)
termination
  by (relation "measure (\<lambda>(inp, out_len, htab, ip, hval, lit, out). length inp - ip)") auto

declare lzf_loop.simps [simp del]

text \<open>The last bytes are literals.\<close>

function lzf_tail :: "string \<Rightarrow> nat \<Rightarrow> nat \<Rightarrow> string \<Rightarrow> nat \<times> string" where
  "lzf_tail inp ip lit out =
     (if length inp \<le> ip then (lit, out)
      else (case put_literal inp ip lit out of (lit, out) \<Rightarrow> lzf_tail inp (ip + 1) lit out))"
  by (pat_completeness, simp)
termination
  by (relation "measure (\<lambda>(inp, ip, lit, out). length inp - ip)") auto

declare lzf_tail.simps [simp del]

text \<open>The compressed bytes; none when they do not fit into \<open>out_len\<close>.\<close>

definition lzf_compress :: "(nat \<Rightarrow> int) \<Rightarrow> string \<Rightarrow> nat \<Rightarrow> string" where
  "lzf_compress htab inp out_len =
     (if inp = [] \<or> out_len = 0 then []
      else
        case lzf_loop inp out_len htab 0 (FRST inp 0) 0 (start_run []) of
          None \<Rightarrow> []
        | Some (ip, lit, out) \<Rightarrow>
            if out_len < length out + 3 then []
            else (case lzf_tail inp ip lit out of (lit, out) \<Rightarrow> stop_run lit out))"

subsection \<open>Decompressing\<close>

fun copy_back :: "nat \<Rightarrow> nat \<Rightarrow> string \<Rightarrow> string" where
  "copy_back 0 ref out = out"
| "copy_back (Suc n) ref out = copy_back n (ref + 1) (out @ [out ! ref])"

text \<open>The length and the source of a reference, whose bytes end before the input does.\<close>

definition read_ref :: "nat \<Rightarrow> string \<Rightarrow> nat \<Rightarrow> (nat \<times> int \<times> string) option" where
  "read_ref ctrl ip op =
     (let len = ctrl div 32; ref = int op - int (ctrl mod 32 * 256) - 1
      in if ip = [] then None
         else if len = 7 then
           (if tl ip = [] then None else Some (len + code (hd ip), ref - int (code (hd (tl ip))), tl (tl ip)))
         else Some (len, ref - int (code (hd ip)), tl ip))"

lemma read_ref_shorter: "read_ref ctrl ip op = Some (len, ref, ip') \<Longrightarrow> length ip' < length ip"
  by (auto simp: read_ref_def Let_def neq_Nil_conv split: if_splits)

text \<open>The output grows at \<open>op\<close>; \<^const>\<open>None\<close> is an error. The code tests for the end of the input behind the body of its loop.\<close>

function lzf_dec :: "string \<Rightarrow> nat \<Rightarrow> string \<Rightarrow> string option" where
  "lzf_dec ip out_len out =
     (if ip = [] then Some out
      else
        let ctrl = code (hd ip); ip = tl ip
        in if ctrl < 32 then
             (if out_len < length out + (ctrl + 1) \<or> length ip < ctrl + 1 then None
              else lzf_dec (drop (ctrl + 1) ip) out_len (out @ take (ctrl + 1) ip))
           else
             (case read_ref ctrl ip (length out) of
                None \<Rightarrow> None
              | Some (len, ref, ip) \<Rightarrow>
                  if out_len < length out + len + 2 \<or> ref < 0 then None
                  else lzf_dec ip out_len (copy_back (len + 2) (nat ref) out)))"
  by (pat_completeness, simp)
termination
  by (relation "measure (\<lambda>(ip, out_len, out). length ip)") (auto simp: less_Suc_eq_le neq_Nil_conv dest: read_ref_shorter)

declare lzf_dec.simps [simp del]

definition lzf_decompress :: "string \<Rightarrow> nat \<Rightarrow> string option" where
  "lzf_decompress inp out_len = (if inp = [] then None else lzf_dec inp out_len [])"

subsection \<open>Decompressing undoes compressing\<close>

text \<open>The tokens \<open>toks\<close> expand to the first \<open>n\<close> bytes of the input.\<close>

definition expands :: "string \<Rightarrow> string \<Rightarrow> nat \<Rightarrow> bool" where
  "expands inp toks n \<longleftrightarrow> n \<le> length inp \<and>
     (\<forall>rest. lzf_dec (toks @ rest) (length inp) [] = lzf_dec rest (length inp) (take n inp))"

lemma expands_Nil: "expands inp [] 0"
  by (simp add: expands_def)

lemma expands_run:
  assumes "expands inp toks n" "0 < k" "k \<le> 32" "n + k \<le> length inp"
  shows "expands inp (toks @ char_of (k - 1) # take k (drop n inp)) (n + k)"
proof -
  obtain j where k: "k = Suc j" "j < 32" using assms(2,3) by (cases k) auto
  have "code (char_of j) = j" using k(2) by (intro code_char_of) simp
  then have "lzf_dec (char_of (k - 1) # take k (drop n inp) @ rest) (length inp) (take n inp) = lzf_dec rest (length inp) (take (n + k) inp)" for rest
    using assms(4) k(2) take_add [of n "Suc j" inp] unfolding k(1) by (subst lzf_dec.simps) (simp del: take_Suc)
  then show ?thesis using assms(1,4) by (simp add: expands_def)
qed

lemma copy_back_take:
  "r < n \<Longrightarrow> n + m \<le> length inp \<Longrightarrow> \<forall>i < m. inp ! (r + i) = inp ! (n + i) \<Longrightarrow> copy_back m r (take n inp) = take (n + m) inp"
proof (induction m arbitrary: r n)
  case (Suc m)
  have "take n inp @ [take n inp ! r] = take (Suc n) inp"
    using Suc.prems(1,2) Suc.prems(3) [rule_format, of 0] by (simp add: take_Suc_conv_app_nth)
  moreover have "\<forall>i < m. inp ! (Suc r + i) = inp ! (Suc n + i)" using Suc.prems(3) by (metis Suc_less_eq add_Suc_shift)
  ultimately show ?case using Suc.IH [of "Suc r" "Suc n"] Suc.prems(1,2) by simp
qed simp

lemma split_offset: "int op - int (off div 256 * 256) - 1 - int (off mod 256) = int op - int off - 1"
proof -
  have "int (off div 256 * 256) + int (off mod 256) = int off" by (simp only: div_mult_mod_eq flip: of_nat_add)
  then show ?thesis by linarith
qed

lemma back_ref_read:
  assumes "off < 8192" "1 \<le> len" "len \<le> 262"
  shows "\<exists>c ip. back_ref off len = c # ip \<and> 32 \<le> code c \<and>
    (\<forall>rest op. read_ref (code c) (ip @ rest) op = Some (len, int op - int off - 1, rest))"
proof (cases "len < 7")
  case True
  have c: "code (char_of (off div 256 + len * 32)) = off div 256 + len * 32" using assms True by (intro code_char_of) linarith
  have d: "code (char_of (off mod 256)) = off mod 256" by (intro code_char_of) simp
  have "(off div 256 + len * 32) div 32 = len" "(off div 256 + len * 32) mod 32 = off div 256" using assms(1) by simp_all
  moreover have "int op - int (off div 256 * 256) - 1 - int (off mod 256) = int op - int off - 1" for op by (rule split_offset)
  ultimately show ?thesis using True c d assms(2) by (simp add: back_ref_def read_ref_def)
next
  case False
  have c: "code (char_of (off div 256 + 7 * 32)) = off div 256 + 7 * 32" using assms by (intro code_char_of) linarith
  have l: "code (char_of (len - 7)) = len - 7" using assms(3) by (intro code_char_of) linarith
  have d: "code (char_of (off mod 256)) = off mod 256" by (intro code_char_of) simp
  have "(off div 256 + 7 * 32) div 32 = 7" "(off div 256 + 7 * 32) mod 32 = off div 256"
    using assms(1) mod_mult_self1 [of "off div 256" 7 32] by (simp_all add: less_mult_imp_div_less)
  moreover have "int op - int (off div 256 * 256) - 1 - int (off mod 256) = int op - int off - 1" for op by (rule split_offset)
  ultimately show ?thesis using False c d l by (simp add: back_ref_def read_ref_def)
qed

lemma expands_ref:
  assumes "expands inp toks n" "r < n" "n - r - 1 < 8192" "1 \<le> len" "len \<le> 262" "n + (len + 2) \<le> length inp"
    and "\<forall>i < len + 2. inp ! (r + i) = inp ! (n + i)"
  shows "expands inp (toks @ back_ref (n - r - 1) len) (n + (len + 2))"
proof -
  obtain c ip where b: "back_ref (n - r - 1) len = c # ip" "32 \<le> code c"
    "\<And>rest op. read_ref (code c) (ip @ rest) op = Some (len, int op - int (n - r - 1) - 1, rest)"
    using back_ref_read [OF assms(3-5)] by blast
  have "int n - int (n - r - 1) - 1 = int r" using assms(2) by simp
  moreover have "length (take n inp) = n" using assms(1) by (simp add: expands_def)
  ultimately have "lzf_dec ((c # ip) @ rest) (length inp) (take n inp) = lzf_dec rest (length inp) (take (n + (len + 2)) inp)" for rest
    using b(2,3) assms(6) copy_back_take [OF assms(2,6,7)] by (subst lzf_dec.simps) (simp add: Let_def)
  then show ?thesis using assms(1,6) b(1) by (simp add: expands_def)
qed

text \<open>How far a match goes.\<close>

definition same :: "string \<Rightarrow> nat \<Rightarrow> nat \<Rightarrow> nat \<Rightarrow> bool" where
  "same inp ref ip i \<longleftrightarrow> inp ! (ref + i) = inp ! (ip + i)"

definition agree :: "string \<Rightarrow> nat \<Rightarrow> nat \<Rightarrow> nat \<Rightarrow> bool" where
  "agree inp ref ip m \<longleftrightarrow> (\<forall>i < m. same inp ref ip i)"

lemma agree_Suc: "agree inp ref ip (Suc m) \<longleftrightarrow> agree inp ref ip m \<and> same inp ref ip m"
  by (auto simp: agree_def less_Suc_eq)

lemma match_unrolled_step:
  "match_unrolled inp ref ip (Suc k) len =
    (if same inp ref ip (Suc len) then match_unrolled inp ref ip k (Suc len) else (False, Suc len))"
  by (simp add: same_def)

lemma match_rest_step:
  "match_rest inp ref ip maxlen len =
    (if Suc len < maxlen \<and> same inp ref ip (Suc len) then match_rest inp ref ip maxlen (Suc len) else Suc len)"
  by (subst match_rest.simps) (simp add: same_def Let_def)

lemma match_unrolled_ok:
  "agree inp ref ip (Suc len) \<Longrightarrow> match_unrolled inp ref ip k len = (all, m) \<Longrightarrow>
    len \<le> m \<and> (0 < k \<longrightarrow> len < m) \<and> m \<le> len + k \<and> agree inp ref ip m \<and> (all \<longrightarrow> m = len + k \<and> agree inp ref ip (Suc m))"
proof (induction k arbitrary: len)
  case (Suc k)
  show ?case
  proof (cases "same inp ref ip (Suc len)")
    case True
    then have "agree inp ref ip (Suc (Suc len))" "match_unrolled inp ref ip k (Suc len) = (all, m)"
      using Suc.prems by (simp_all only: agree_Suc match_unrolled_step if_True)
    from Suc.IH [OF this] show ?thesis by auto
  next
    case False
    then have "m = Suc len \<and> \<not> all" using Suc.prems(2) by (simp add: match_unrolled_step del: match_unrolled.simps(2))
    then show ?thesis using Suc.prems(1) by simp
  qed
qed (simp add: agree_Suc)

lemma match_rest_ok:
  "agree inp ref ip (Suc len) \<Longrightarrow>
    len < match_rest inp ref ip maxlen len \<and> match_rest inp ref ip maxlen len \<le> max maxlen (len + 1) \<and>
    agree inp ref ip (match_rest inp ref ip maxlen len)"
proof (induction "maxlen - len" arbitrary: len rule: less_induct)
  case less
  show ?case
  proof (cases "Suc len < maxlen \<and> same inp ref ip (Suc len)")
    case True
    then have e: "match_rest inp ref ip maxlen len = match_rest inp ref ip maxlen (Suc len)" by (subst match_rest_step) simp
    have "agree inp ref ip (Suc (Suc len))" using less.prems True by (simp add: agree_Suc)
    moreover have "maxlen - Suc len < maxlen - len" using True by (intro diff_less_mono2) auto
    ultimately have "Suc len < match_rest inp ref ip maxlen (Suc len)" "match_rest inp ref ip maxlen (Suc len) \<le> max maxlen (Suc len + 1)"
      "agree inp ref ip (match_rest inp ref ip maxlen (Suc len))" using less.hyps [of "Suc len"] by blast+
    then show ?thesis unfolding e using True by auto
  next
    case False
    then have "match_rest inp ref ip maxlen len = Suc len" by (subst match_rest_step) auto
    then show ?thesis using less.prems by simp
  qed
qed

lemma match_len_ok:
  assumes "match_at inp ip (int ref)" "maxlen = min (length inp - ip - 2) MAX_REF"
  shows "3 \<le> match_len inp ref ip maxlen \<and> match_len inp ref ip maxlen \<le> MAX_REF \<and> ip + match_len inp ref ip maxlen \<le> length inp \<and>
    agree inp ref ip (match_len inp ref ip maxlen)"
proof -
  have m: "agree inp ref ip (Suc 2)" and n: "ip + 4 < length inp"
    using assms(1) by (simp_all add: match_at_def Let_def agree_Suc numeral_2_eq_2 same_def) (simp add: agree_def)
  have x: "maxlen \<le> MAX_REF" "maxlen + ip + 2 \<le> length inp" using assms(2) n by simp_all
  show ?thesis
  proof (cases "16 < maxlen")
    case True
    obtain all k where u: "match_unrolled inp ref ip 16 2 = (all, k)" by (cases "match_unrolled inp ref ip 16 2")
    note k = match_unrolled_ok [OF m u]
    show ?thesis
    proof (cases all)
      case True
      then have l: "match_len inp ref ip maxlen = match_rest inp ref ip maxlen k" using u \<open>16 < maxlen\<close> by (simp add: match_len_def)
      have "agree inp ref ip (Suc k)" "k = 18" using k True by blast (use k True in simp)
      with match_rest_ok [of inp ref ip k maxlen] x \<open>16 < maxlen\<close> show ?thesis unfolding l MAX_REF_def by auto
    next
      case False
      then have "match_len inp ref ip maxlen = k" using u \<open>16 < maxlen\<close> by (simp add: match_len_def)
      with k x \<open>16 < maxlen\<close> show ?thesis by (simp add: MAX_REF_def)
    qed
  next
    case False
    have "3 \<le> maxlen" using assms(2) n by (simp add: MAX_REF_def)
    with False match_rest_ok [OF m, of maxlen] x show ?thesis by (auto simp: match_len_def MAX_REF_def)
  qed
qed

text \<open>The output is complete but for a run of \<open>lit\<close> literals in front of \<open>ip\<close>.\<close>

definition run_ok :: "string \<Rightarrow> nat \<Rightarrow> nat \<Rightarrow> string \<Rightarrow> bool" where
  "run_ok inp ip lit out \<longleftrightarrow> lit < MAX_LIT \<and> lit \<le> ip \<and> ip \<le> length inp \<and>
     (\<exists>toks h. out = toks @ h # take lit (drop (ip - lit) inp) \<and> expands inp toks (ip - lit))"

lemma fill_run_eq: "length ls = lit \<Longrightarrow> fill_run lit (toks @ h # ls) = toks @ char_of (if lit = 0 then 255 else lit - 1) # ls"
  by (simp add: fill_run_def)

lemma run_ok_start: "expands inp toks ip \<Longrightarrow> run_ok inp ip 0 (start_run toks)"
  by (auto simp: run_ok_def start_run_def MAX_LIT_def expands_def)

lemma stop_run_ok:
  assumes "run_ok inp ip lit out"
  shows "expands inp (stop_run lit out) ip"
proof -
  obtain toks h where o: "out = toks @ h # take lit (drop (ip - lit) inp)" "expands inp toks (ip - lit)" "lit < 32" "lit \<le> ip" "ip \<le> length inp"
    using assms by (auto simp: run_ok_def MAX_LIT_def)
  have l: "length (take lit (drop (ip - lit) inp)) = lit" using o(4,5) by simp
  show ?thesis
  proof (cases "lit = 0")
    case True
    then show ?thesis using o by (simp add: stop_run_def fill_run_def)
  next
    case False
    then show ?thesis using expands_run [OF o(2), of lit] o fill_run_eq [OF l, of toks h] by (simp add: stop_run_def)
  qed
qed

lemma put_literal_ok:
  assumes "run_ok inp ip lit out" "ip < length inp" "put_literal inp ip lit out = (lit', out')"
  shows "run_ok inp (ip + 1) lit' out'"
proof -
  obtain toks h where o: "out = toks @ h # take lit (drop (ip - lit) inp)" "expands inp toks (ip - lit)" "lit < 32" "lit \<le> ip"
    using assms(1) by (auto simp: run_ok_def MAX_LIT_def)
  have t: "take lit (drop (ip - lit) inp) @ [inp ! ip] = take (lit + 1) (drop (ip - lit) inp)"
    using o(4) assms(2) by (simp add: take_Suc_conv_app_nth)
  have l: "length (take (lit + 1) (drop (ip - lit) inp)) = lit + 1" using o(4) assms(2) by simp
  have out: "out @ [inp ! ip] = toks @ h # take (lit + 1) (drop (ip - lit) inp)" using o(1) t by simp
  have d: "ip + 1 - (lit + 1) = ip - lit" by simp
  show ?thesis
  proof (cases "lit + 1 = MAX_LIT")
    case True
    then have "out' = start_run (toks @ char_of (lit + 1 - 1) # take (lit + 1) (drop (ip - lit) inp))" "lit' = 0"
      using assms(3) fill_run_eq [OF l, of toks h] out by (simp_all add: put_literal_def)
    moreover have "expands inp (toks @ char_of (lit + 1 - 1) # take (lit + 1) (drop (ip - lit) inp)) (ip - lit + (lit + 1))"
      using o(2-4) assms(2) by (intro expands_run) simp_all
    ultimately show ?thesis using o(4) run_ok_start by simp
  next
    case False
    then have "out' = out @ [inp ! ip]" "lit' = lit + 1" using assms(3) by (simp_all add: put_literal_def)
    then show ?thesis using o(2-4) False assms(2) out d unfolding run_ok_def MAX_LIT_def by (metis Suc_eq_plus1 Suc_leI Suc_lessI add_le_mono1)
  qed
qed

lemma put_match_ok:
  assumes "run_ok inp ip lit out" "match_at inp ip ref" "put_match inp out_len ip (nat ref) lit out = Some (len, out')"
  shows "run_ok inp (ip + len + 2) 0 out'"
proof -
  define r where "r = nat ref"
  have r: "int r = ref" "r < ip" "ip - r - 1 < 8192" using assms(2) by (auto simp: match_at_def Let_def r_def MAX_OFF_def)
  let ?m = "match_len inp r ip (min (length inp - ip - 2) MAX_REF)"
  have m: "3 \<le> ?m" "?m \<le> 264" "ip + ?m \<le> length inp" "agree inp r ip ?m"
    using match_len_ok [of inp ip r, OF _ refl] assms(2) r(1) by (simp_all add: MAX_REF_def)
  have len: "len = ?m - 2" "out' = start_run (stop_run lit out @ back_ref (ip - r - 1) len)"
    using assms(3) by (auto simp: put_match_def Let_def r_def split: if_splits)
  have "len + 2 = ?m" using len(1) m(1) by linarith
  then have "expands inp (stop_run lit out @ back_ref (ip - r - 1) len) (ip + (len + 2))"
    using m r by (intro expands_ref stop_run_ok [OF assms(1)]) (auto simp: agree_def same_def)
  then show ?thesis using len(2) run_ok_start by (simp add: add.assoc)
qed

lemma lzf_loop_ok:
  "run_ok inp ip lit out \<Longrightarrow> lzf_loop inp out_len htab ip hval lit out = Some (ip', lit', out') \<Longrightarrow>
    run_ok inp ip' lit' out' \<and> length inp \<le> ip' + 2"
proof (induction inp out_len htab ip hval lit out rule: lzf_loop.induct)
  case (1 inp out_len htab ip hval lit out)
  let ?h = "NEXT hval inp ip"
  let ?ref = "htab (IDX ?h)" and ?htab = "htab(IDX ?h := int ip)"
  consider "length inp \<le> ip + 2" | "\<not> length inp \<le> ip + 2" "match_at inp ip ?ref" | "\<not> length inp \<le> ip + 2" "\<not> match_at inp ip ?ref" by blast
  then show ?case
  proof cases
    case a: 1
    then show ?thesis using "1.prems" by (auto simp: lzf_loop.simps [of inp out_len htab ip])
  next
    case a: 2
    then obtain len out2 where p: "put_match inp out_len ip (nat ?ref) lit out = Some (len, out2)"
      using "1.prems"(2) by (subst (asm) lzf_loop.simps) (auto simp: Let_def split: option.splits)
    note ok = put_match_ok [OF "1.prems"(1) a(2) p]
    obtain hval' htab' where h: "rehash inp (ip + len + 2) ?htab = (hval', htab')" by (cases "rehash inp (ip + len + 2) ?htab")
    show ?thesis
    proof (cases "length inp \<le> ip + len + 2 + 2")
      case True
      then show ?thesis using "1.prems"(2) a p ok by (subst (asm) lzf_loop.simps) (auto simp: Let_def)
    next
      case False
      then have "lzf_loop inp out_len htab' (ip + len + 2) hval' 0 out2 = Some (ip', lit', out')"
        using "1.prems"(2) a p h by (subst (asm) lzf_loop.simps) (simp add: Let_def)
      then show ?thesis using "1.IH"(1) [OF a(1) refl refl refl a(2) p refl False h [symmetric] ok] by blast
    qed
  next
    case a: 3
    obtain lit2 out2 where p: "put_literal inp ip lit out = (lit2, out2)" by (cases "put_literal inp ip lit out")
    have ok: "run_ok inp (ip + 1) lit2 out2" using a(1) by (intro put_literal_ok [OF "1.prems"(1) _ p]) simp
    have n: "\<not> out_len \<le> length out" using "1.prems"(2) a by (subst (asm) lzf_loop.simps) (auto simp: Let_def split: if_splits)
    then have "lzf_loop inp out_len ?htab (ip + 1) ?h lit2 out2 = Some (ip', lit', out')"
      using "1.prems"(2) a p by (subst (asm) lzf_loop.simps) (simp add: Let_def)
    then show ?thesis using "1.IH"(2) [OF a(1) refl refl refl a(2) n p [symmetric] ok] by blast
  qed
qed

lemma lzf_tail_ok: "run_ok inp ip lit out \<Longrightarrow> lzf_tail inp ip lit out = (lit', out') \<Longrightarrow> run_ok inp (length inp) lit' out'"
proof (induction inp ip lit out rule: lzf_tail.induct)
  case (1 inp ip lit out)
  show ?case
  proof (cases "length inp \<le> ip")
    case True
    then have "ip = length inp" using "1.prems"(1) by (simp add: run_ok_def)
    then show ?thesis using "1.prems" by (subst (asm) lzf_tail.simps) simp
  next
    case False
    obtain lit2 out2 where p: "put_literal inp ip lit out = (lit2, out2)" by (cases "put_literal inp ip lit out")
    then have "lzf_tail inp (ip + 1) lit2 out2 = (lit', out')" using "1.prems"(2) False by (subst (asm) lzf_tail.simps) simp
    then show ?thesis using "1.IH" [OF False p [symmetric]] put_literal_ok [OF "1.prems"(1) _ p] False by simp
  qed
qed

lemma lzf_decompress_compress: "lzf_compress htab inp out_len = [] \<or> lzf_decompress (lzf_compress htab inp out_len) (length inp) = Some inp"
proof (cases "lzf_compress htab inp out_len = []")
  case False
  have "inp \<noteq> [] \<and> out_len \<noteq> 0" by (rule ccontr) (use False in \<open>auto simp: lzf_compress_def\<close>)
  then have i: "inp \<noteq> []" "out_len \<noteq> 0" by simp_all
  with False obtain ip lit out where l: "lzf_loop inp out_len htab 0 (FRST inp 0) 0 (start_run []) = Some (ip, lit, out)" "\<not> out_len < length out + 3"
    by (auto simp: lzf_compress_def split: option.splits if_splits)
  obtain lit' out' where t: "lzf_tail inp ip lit out = (lit', out')" by (cases "lzf_tail inp ip lit out")
  have "run_ok inp 0 0 (start_run [])" using run_ok_start [OF expands_Nil] .
  from stop_run_ok [OF lzf_tail_ok [OF conjunct1 [OF lzf_loop_ok [OF this l(1)]] t]]
  have "lzf_dec (stop_run lit' out' @ []) (length inp) [] = lzf_dec [] (length inp) inp" unfolding expands_def by (metis order_refl take_all)
  moreover have "lzf_compress htab inp out_len = stop_run lit' out'" using i l t by (simp add: lzf_compress_def)
  ultimately show ?thesis using False by (simp add: lzf_decompress_def lzf_dec.simps [of "[]"])
qed simp


text \<open>Three bytes with a table that points at the second: two literals and no reference, because the input ends too soon.\<close>

lemma put_literal_length: "put_literal inp ip lit out = (lit', out') \<Longrightarrow> length out' \<le> length out + (if lit + 1 = MAX_LIT then 2 else 1)"
  by (auto simp: put_literal_def Let_def start_run_def fill_run_def split: if_splits)

lemma put_literal_lit: "put_literal inp ip lit out = (lit', out') \<Longrightarrow> lit' = (if lit + 1 = MAX_LIT then 0 else lit + 1)"
  by (auto simp: put_literal_def Let_def split: if_splits)

lemma stop_run_length: "length (stop_run lit out) \<le> length out"
  by (simp add: stop_run_def fill_run_def)

lemma lzf_tail_length:
  assumes "length inp \<le> ip + 2" "lzf_tail inp ip lit out = (lit', out')"
  shows "length out' \<le> length out + 3"
proof -
  obtain l1 o1 where p1: "put_literal inp ip lit out = (l1, o1)" by (cases "put_literal inp ip lit out")
  obtain l2 o2 where p2: "put_literal inp (ip + 1) l1 o1 = (l2, o2)" by (cases "put_literal inp (ip + 1) l1 o1")
  have "lzf_tail inp (ip + 2) l2 o2 = (l2, o2)" using assms(1) by (simp add: lzf_tail.simps)
  then have "lzf_tail inp (ip + 1) l1 o1 = (l1, o1) \<or> lzf_tail inp (ip + 1) l1 o1 = (l2, o2)"
    using p2 by (subst (1 2) lzf_tail.simps) simp
  then have "(lit', out') \<in> {(lit, out), (l1, o1), (l2, o2)}"
    using assms(2) p1 by (subst (asm) lzf_tail.simps) (auto split: if_splits)
  moreover have "length o1 \<le> length out + 3 \<and> length o2 \<le> length out + 3"
    using put_literal_length [OF p1] put_literal_length [OF p2] put_literal_lit [OF p1] by (auto simp: MAX_LIT_def split: if_splits)
  ultimately show ?thesis by auto
qed

lemma lzf_compress_fits: "length (lzf_compress htab inp out_len) \<le> out_len"
proof (cases "lzf_loop inp out_len htab 0 (FRST inp 0) 0 (start_run [])")
  case (Some r)
  obtain ip lit out where r: "r = (ip, lit, out)" by (cases r)
  obtain lit' out' where t: "lzf_tail inp ip lit out = (lit', out')" by (cases "lzf_tail inp ip lit out")
  have "length out' \<le> length out + 3" using lzf_tail_length [OF conjunct2 [OF lzf_loop_ok] t] run_ok_start [OF expands_Nil] Some r by blast
  then show ?thesis using stop_run_length [of lit' out'] Some r t by (auto simp: lzf_compress_def)
qed (simp add: lzf_compress_def)

text \<open>C32: Compressing and decompressing are inverse, whatever the uninitialised table of the compressor holds: unless it reports
  that it found nothing to save, the compressed bytes fit into the room the caller gave, and decompressing them into a
  buffer of the length of the input gives the input.\<close>

theorem lzf_roundtrip:
  "lzf_compress htab inp out_len = [] \<or>
    length (lzf_compress htab inp out_len) \<le> out_len \<and> lzf_decompress (lzf_compress htab inp out_len) (length inp) = Some inp"
  using lzf_decompress_compress lzf_compress_fits by blast

lemma lzf_example: "map code (lzf_compress (\<lambda>_. 0) ''aaa'' 9) = [2, 97, 97, 97]"
  by (simp add: lzf_compress_def lzf_loop.simps [of "''aaa''"] lzf_tail.simps start_run_def stop_run_def fill_run_def put_literal_def
      match_at_def FRST_def NEXT_def IDX_def code_def MAX_LIT_def MAX_OFF_def)

end
