(* ===== verification/Crc64.thy ===== *)
theory Crc64
  imports Prelude
begin

unbundle bit_operations_syntax

text \<open>
  QedisCore/crc64.c: the checksum of RDB files and DUMP payloads. It reads a table of 256 words; the checksum is the one
  that shifts the reflected polynomial 0xad93d23594c935a9 through the message bit by bit.
\<close>

definition crc64_tab :: "64 word list" where
  "crc64_tab =
    [0x0000000000000000, 0x7ad870c830358979, 0xf5b0e190606b12f2, 0x8f689158505e9b8b,
     0xc038e5739841b68f, 0xbae095bba8743ff6, 0x358804e3f82aa47d, 0x4f50742bc81f2d04,
     0xab28ecb46814fe75, 0xd1f09c7c5821770c, 0x5e980d24087fec87, 0x24407dec384a65fe,
     0x6b1009c7f05548fa, 0x11c8790fc060c183, 0x9ea0e857903e5a08, 0xe478989fa00bd371,
     0x7d08ff3b88be6f81, 0x07d08ff3b88be6f8, 0x88b81eabe8d57d73, 0xf2606e63d8e0f40a,
     0xbd301a4810ffd90e, 0xc7e86a8020ca5077, 0x4880fbd87094cbfc, 0x32588b1040a14285,
     0xd620138fe0aa91f4, 0xacf86347d09f188d, 0x2390f21f80c18306, 0x594882d7b0f40a7f,
     0x1618f6fc78eb277b, 0x6cc0863448deae02, 0xe3a8176c18803589, 0x997067a428b5bcf0,
     0xfa11fe77117cdf02, 0x80c98ebf2149567b, 0x0fa11fe77117cdf0, 0x75796f2f41224489,
     0x3a291b04893d698d, 0x40f16bccb908e0f4, 0xcf99fa94e9567b7f, 0xb5418a5cd963f206,
     0x513912c379682177, 0x2be1620b495da80e, 0xa489f35319033385, 0xde51839b2936bafc,
     0x9101f7b0e12997f8, 0xebd98778d11c1e81, 0x64b116208142850a, 0x1e6966e8b1770c73,
     0x8719014c99c2b083, 0xfdc17184a9f739fa, 0x72a9e0dcf9a9a271, 0x08719014c99c2b08,
     0x4721e43f0183060c, 0x3df994f731b68f75, 0xb29105af61e814fe, 0xc849756751dd9d87,
     0x2c31edf8f1d64ef6, 0x56e99d30c1e3c78f, 0xd9810c6891bd5c04, 0xa3597ca0a188d57d,
     0xec09088b6997f879, 0x96d1784359a27100, 0x19b9e91b09fcea8b, 0x636199d339c963f2,
     0xdf7adabd7a6e2d6f, 0xa5a2aa754a5ba416, 0x2aca3b2d1a053f9d, 0x50124be52a30b6e4,
     0x1f423fcee22f9be0, 0x659a4f06d21a1299, 0xeaf2de5e82448912, 0x902aae96b271006b,
     0x74523609127ad31a, 0x0e8a46c1224f5a63, 0x81e2d7997211c1e8, 0xfb3aa75142244891,
     0xb46ad37a8a3b6595, 0xceb2a3b2ba0eecec, 0x41da32eaea507767, 0x3b024222da65fe1e,
     0xa2722586f2d042ee, 0xd8aa554ec2e5cb97, 0x57c2c41692bb501c, 0x2d1ab4dea28ed965,
     0x624ac0f56a91f461, 0x1892b03d5aa47d18, 0x97fa21650afae693, 0xed2251ad3acf6fea,
     0x095ac9329ac4bc9b, 0x7382b9faaaf135e2, 0xfcea28a2faafae69, 0x8632586aca9a2710,
     0xc9622c4102850a14, 0xb3ba5c8932b0836d, 0x3cd2cdd162ee18e6, 0x460abd1952db919f,
     0x256b24ca6b12f26d, 0x5fb354025b277b14, 0xd0dbc55a0b79e09f, 0xaa03b5923b4c69e6,
     0xe553c1b9f35344e2, 0x9f8bb171c366cd9b, 0x10e3202993385610, 0x6a3b50e1a30ddf69,
     0x8e43c87e03060c18, 0xf49bb8b633338561, 0x7bf329ee636d1eea, 0x012b592653589793,
     0x4e7b2d0d9b47ba97, 0x34a35dc5ab7233ee, 0xbbcbcc9dfb2ca865, 0xc113bc55cb19211c,
     0x5863dbf1e3ac9dec, 0x22bbab39d3991495, 0xadd33a6183c78f1e, 0xd70b4aa9b3f20667,
     0x985b3e827bed2b63, 0xe2834e4a4bd8a21a, 0x6debdf121b863991, 0x1733afda2bb3b0e8,
     0xf34b37458bb86399, 0x8993478dbb8deae0, 0x06fbd6d5ebd3716b, 0x7c23a61ddbe6f812,
     0x3373d23613f9d516, 0x49aba2fe23cc5c6f, 0xc6c333a67392c7e4, 0xbc1b436e43a74e9d,
     0x95ac9329ac4bc9b5, 0xef74e3e19c7e40cc, 0x601c72b9cc20db47, 0x1ac40271fc15523e,
     0x5594765a340a7f3a, 0x2f4c0692043ff643, 0xa02497ca54616dc8, 0xdafce7026454e4b1,
     0x3e847f9dc45f37c0, 0x445c0f55f46abeb9, 0xcb349e0da4342532, 0xb1eceec59401ac4b,
     0xfebc9aee5c1e814f, 0x8464ea266c2b0836, 0x0b0c7b7e3c7593bd, 0x71d40bb60c401ac4,
     0xe8a46c1224f5a634, 0x927c1cda14c02f4d, 0x1d148d82449eb4c6, 0x67ccfd4a74ab3dbf,
     0x289c8961bcb410bb, 0x5244f9a98c8199c2, 0xdd2c68f1dcdf0249, 0xa7f41839ecea8b30,
     0x438c80a64ce15841, 0x3954f06e7cd4d138, 0xb63c61362c8a4ab3, 0xcce411fe1cbfc3ca,
     0x83b465d5d4a0eece, 0xf96c151de49567b7, 0x76048445b4cbfc3c, 0x0cdcf48d84fe7545,
     0x6fbd6d5ebd3716b7, 0x15651d968d029fce, 0x9a0d8ccedd5c0445, 0xe0d5fc06ed698d3c,
     0xaf85882d2576a038, 0xd55df8e515432941, 0x5a3569bd451db2ca, 0x20ed197575283bb3,
     0xc49581ead523e8c2, 0xbe4df122e51661bb, 0x3125607ab548fa30, 0x4bfd10b2857d7349,
     0x04ad64994d625e4d, 0x7e7514517d57d734, 0xf11d85092d094cbf, 0x8bc5f5c11d3cc5c6,
     0x12b5926535897936, 0x686de2ad05bcf04f, 0xe70573f555e26bc4, 0x9ddd033d65d7e2bd,
     0xd28d7716adc8cfb9, 0xa85507de9dfd46c0, 0x273d9686cda3dd4b, 0x5de5e64efd965432,
     0xb99d7ed15d9d8743, 0xc3450e196da80e3a, 0x4c2d9f413df695b1, 0x36f5ef890dc31cc8,
     0x79a59ba2c5dc31cc, 0x037deb6af5e9b8b5, 0x8c157a32a5b7233e, 0xf6cd0afa9582aa47,
     0x4ad64994d625e4da, 0x300e395ce6106da3, 0xbf66a804b64ef628, 0xc5bed8cc867b7f51,
     0x8aeeace74e645255, 0xf036dc2f7e51db2c, 0x7f5e4d772e0f40a7, 0x05863dbf1e3ac9de,
     0xe1fea520be311aaf, 0x9b26d5e88e0493d6, 0x144e44b0de5a085d, 0x6e963478ee6f8124,
     0x21c640532670ac20, 0x5b1e309b16452559, 0xd476a1c3461bbed2, 0xaeaed10b762e37ab,
     0x37deb6af5e9b8b5b, 0x4d06c6676eae0222, 0xc26e573f3ef099a9, 0xb8b627f70ec510d0,
     0xf7e653dcc6da3dd4, 0x8d3e2314f6efb4ad, 0x0256b24ca6b12f26, 0x788ec2849684a65f,
     0x9cf65a1b368f752e, 0xe62e2ad306bafc57, 0x6946bb8b56e467dc, 0x139ecb4366d1eea5,
     0x5ccebf68aecec3a1, 0x2616cfa09efb4ad8, 0xa97e5ef8cea5d153, 0xd3a62e30fe90582a,
     0xb0c7b7e3c7593bd8, 0xca1fc72bf76cb2a1, 0x45775673a732292a, 0x3faf26bb9707a053,
     0x70ff52905f188d57, 0x0a2722586f2d042e, 0x854fb3003f739fa5, 0xff97c3c80f4616dc,
     0x1bef5b57af4dc5ad, 0x61372b9f9f784cd4, 0xee5fbac7cf26d75f, 0x9487ca0fff135e26,
     0xdbd7be24370c7322, 0xa10fceec0739fa5b, 0x2e675fb4576761d0, 0x54bf2f7c6752e8a9,
     0xcdcf48d84fe75459, 0xb71738107fd2dd20, 0x387fa9482f8c46ab, 0x42a7d9801fb9cfd2,
     0x0df7adabd7a6e2d6, 0x772fdd63e7936baf, 0xf8474c3bb7cdf024, 0x829f3cf387f8795d,
     0x66e7a46c27f3aa2c, 0x1c3fd4a417c62355, 0x935745fc4798b8de, 0xe98f353477ad31a7,
     0xa6df411fbfb21ca3, 0xdc0731d78f8795da, 0x536fa08fdfd90e51, 0x29b7d047efec8728]"

fun crc64 :: "64 word \<Rightarrow> string \<Rightarrow> 64 word" where
  "crc64 crc [] = crc"
| "crc64 crc (c # s) =
     crc64 (crc64_tab ! unat ((ucast crc :: 8 word) XOR of_nat (code c)) XOR drop_bit 8 crc) s"

subsection \<open>The table\<close>

text \<open>The polynomial in reflected form, and what a register does with one bit and with eight.\<close>

definition crc_poly :: "64 word" where "crc_poly = 0x95AC9329AC4BC9B5"

definition crc_bit :: "64 word \<Rightarrow> 64 word" where
  "crc_bit r = (if bit r 0 then drop_bit 1 r XOR crc_poly else drop_bit 1 r)"

definition crc_byte :: "64 word \<Rightarrow> 64 word" where
  "crc_byte r = crc_bit (crc_bit (crc_bit (crc_bit (crc_bit (crc_bit (crc_bit (crc_bit r)))))))"

lemma crc_bit_XOR: "crc_bit (a XOR b) = crc_bit a XOR crc_bit b"
  by (simp add: crc_bit_def bit_xor_iff ac_simps)

lemma crc_byte_XOR: "crc_byte (a XOR b) = crc_byte a XOR crc_byte b"
  by (simp add: crc_byte_def crc_bit_XOR)

lemma crc_basis:
  "crc_bit (crc_bit (crc_bit (crc_bit (crc_bit (crc_bit (crc_bit (crc_bit 1))))))) = 0x7ad870c830358979"
  "crc_bit (crc_bit (crc_bit (crc_bit (crc_bit (crc_bit (crc_bit (crc_bit 2))))))) = 0xf5b0e190606b12f2"
  "crc_bit (crc_bit (crc_bit (crc_bit (crc_bit (crc_bit (crc_bit (crc_bit 4))))))) = 0xc038e5739841b68f"
  "crc_bit (crc_bit (crc_bit (crc_bit (crc_bit (crc_bit (crc_bit (crc_bit 8))))))) = 0xab28ecb46814fe75"
  "crc_bit (crc_bit (crc_bit (crc_bit (crc_bit (crc_bit (crc_bit (crc_bit 16))))))) = 0x7d08ff3b88be6f81"
  "crc_bit (crc_bit (crc_bit (crc_bit (crc_bit (crc_bit (crc_bit (crc_bit 32))))))) = 0xfa11fe77117cdf02"
  "crc_bit (crc_bit (crc_bit (crc_bit (crc_bit (crc_bit (crc_bit (crc_bit 64))))))) = 0xdf7adabd7a6e2d6f"
  "crc_bit (crc_bit (crc_bit (crc_bit (crc_bit (crc_bit (crc_bit (crc_bit 128))))))) = 0x95ac9329ac4bc9b5"
  by (simp_all add: crc_bit_def crc_poly_def)

lemma tab_0: "drop 1 (take 2 crc64_tab) = map (\<lambda>w. w XOR 0x7ad870c830358979) (take 1 crc64_tab)"
  by (simp add: crc64_tab_def)

lemma tab_1: "drop 2 (take 4 crc64_tab) = map (\<lambda>w. w XOR 0xf5b0e190606b12f2) (take 2 crc64_tab)"
  by (simp add: crc64_tab_def)

lemma tab_2: "drop 4 (take 8 crc64_tab) = map (\<lambda>w. w XOR 0xc038e5739841b68f) (take 4 crc64_tab)"
  by (simp add: crc64_tab_def)

lemma tab_3: "drop 8 (take 16 crc64_tab) = map (\<lambda>w. w XOR 0xab28ecb46814fe75) (take 8 crc64_tab)"
  by (simp add: crc64_tab_def)

lemma tab_4: "drop 16 (take 32 crc64_tab) = map (\<lambda>w. w XOR 0x7d08ff3b88be6f81) (take 16 crc64_tab)"
  by (simp add: crc64_tab_def)

lemma tab_5: "drop 32 (take 64 crc64_tab) = map (\<lambda>w. w XOR 0xfa11fe77117cdf02) (take 32 crc64_tab)"
  by (simp add: crc64_tab_def)

lemma tab_6: "drop 64 (take 128 crc64_tab) = map (\<lambda>w. w XOR 0xdf7adabd7a6e2d6f) (take 64 crc64_tab)"
  by (simp add: crc64_tab_def)

lemma tab_7: "drop 128 (take 256 crc64_tab) = map (\<lambda>w. w XOR 0x95ac9329ac4bc9b5) (take 128 crc64_tab)"
  by (simp add: crc64_tab_def)

text \<open>Half of the table gives the other half.\<close>

lemma tab_double:
  assumes "\<forall>i < N. crc64_tab ! i = crc_byte (of_nat i)" "N = 2 ^ k" "k < 8"
    and "drop N (take (2 * N) crc64_tab) = map (\<lambda>w. w XOR p) (take N crc64_tab)" "crc_byte (2 ^ k) = p"
  shows "\<forall>i < 2 * N. crc64_tab ! i = crc_byte (of_nat i)"
proof (intro allI impI)
  fix i :: nat
  assume i: "i < 2 * N"
  have len: "length crc64_tab = 256" by (simp add: crc64_tab_def)
  have "(2::nat) ^ Suc k \<le> 2 ^ 8" using assms(3) by (intro power_increasing) simp_all
  then have le: "2 * N \<le> 256" using assms(2) by simp
  show "crc64_tab ! i = crc_byte (of_nat i)"
  proof (cases "i < N")
    case False
    define j where "j = i - N"
    have j: "j < 2 ^ k" "i = N + j" "j < N" using i False assms(2) by (simp_all add: j_def)
    have "crc64_tab ! i = drop N (take (2 * N) crc64_tab) ! j" using j le len by simp
    also have "\<dots> = crc64_tab ! j XOR p" using j le len unfolding assms(4) by simp
    also have "\<dots> = crc_byte (of_nat j XOR 2 ^ k)" using assms(1,5) j(3) by (simp add: crc_byte_XOR)
    also have "of_nat j XOR 2 ^ k = (of_nat i :: 64 word)"
    proof -
      have "\<not> bit j k" using j(1) by (simp add: bit_iff_odd)
      then have "\<not> bit (of_nat j :: 64 word) k" by (simp add: bit_of_nat_iff)
      then have "of_nat j AND (2 ^ k :: 64 word) = 0" by (simp add: and_exp_eq_0_iff_not_bit)
      then show ?thesis using j(2) assms(2) by (simp add: disjunctive_add_eq_xor [symmetric] add.commute)
    qed
    finally show ?thesis .
  qed (use assms(1) in blast)
qed

lemma crc64_tab_entry: "i < 256 \<Longrightarrow> crc64_tab ! i = crc_byte (of_nat i)"
proof -
  assume i: "i < 256"
  have "\<forall>i < 1. crc64_tab ! i = crc_byte (of_nat i)" by (simp add: crc64_tab_def crc_byte_def crc_bit_def)
  from tab_double [OF this, of 0 "0x7ad870c830358979"] have "\<forall>i < 2. crc64_tab ! i = crc_byte (of_nat i)"
    using tab_0 by (simp add: crc_basis [folded crc_byte_def])
  from tab_double [OF this, of 1 "0xf5b0e190606b12f2"] have "\<forall>i < 4. crc64_tab ! i = crc_byte (of_nat i)"
    using tab_1 by (simp add: crc_basis [folded crc_byte_def])
  from tab_double [OF this, of 2 "0xc038e5739841b68f"] have "\<forall>i < 8. crc64_tab ! i = crc_byte (of_nat i)"
    using tab_2 by (simp add: crc_basis [folded crc_byte_def])
  from tab_double [OF this, of 3 "0xab28ecb46814fe75"] have "\<forall>i < 16. crc64_tab ! i = crc_byte (of_nat i)"
    using tab_3 by (simp add: crc_basis [folded crc_byte_def])
  from tab_double [OF this, of 4 "0x7d08ff3b88be6f81"] have "\<forall>i < 32. crc64_tab ! i = crc_byte (of_nat i)"
    using tab_4 by (simp add: crc_basis [folded crc_byte_def])
  from tab_double [OF this, of 5 "0xfa11fe77117cdf02"] have "\<forall>i < 64. crc64_tab ! i = crc_byte (of_nat i)"
    using tab_5 by (simp add: crc_basis [folded crc_byte_def])
  from tab_double [OF this, of 6 "0xdf7adabd7a6e2d6f"] have "\<forall>i < 128. crc64_tab ! i = crc_byte (of_nat i)"
    using tab_6 by (simp add: crc_basis [folded crc_byte_def])
  from tab_double [OF this, of 7 "0x95ac9329ac4bc9b5"] have "\<forall>i < 256. crc64_tab ! i = crc_byte (of_nat i)"
    using tab_7 by (simp add: crc_basis [folded crc_byte_def])
  then show ?thesis using i by simp
qed

subsection \<open>The checksum\<close>

text \<open>The register that takes the message bit by bit, the least significant bit of a byte first.\<close>

definition crc_shift :: "64 word \<Rightarrow> bool \<Rightarrow> 64 word" where
  "crc_shift r b = (if bit r 0 \<noteq> b then drop_bit 1 r XOR crc_poly else drop_bit 1 r)"

definition byte_bits :: "char \<Rightarrow> bool list" where
  "byte_bits c = map (bit (code c)) [0, 1, 2, 3, 4, 5, 6, 7]"

definition crc_serial :: "64 word \<Rightarrow> string \<Rightarrow> 64 word" where
  "crc_serial crc s = foldl crc_shift crc (concat (map byte_bits s))"

lemma crc_shift_XOR:
  assumes "n < 256"
  shows "crc_bit (r XOR of_nat n) = crc_shift r (bit n 0) XOR of_nat (n div 2)"
proof -
  have "\<not> bit n 64" using assms by (simp add: bit_iff_odd)
  then have "drop_bit 1 (of_nat n :: 64 word) = of_nat (n div 2)"
  proof (intro bit_eqI)
    fix k
    assume "possible_bit TYPE(64 word) k"
    then have k: "k < 64" by simp
    have "bit (drop_bit 1 (of_nat n :: 64 word)) k \<longleftrightarrow> bit (of_nat n :: 64 word) (Suc k)" by (simp only: bit_drop_bit_eq o_apply plus_1_eq_Suc)
    also have "\<dots> \<longleftrightarrow> bit n (Suc k)" using k \<open>\<not> bit n 64\<close> by (cases "k = 63") (auto simp: bit_of_nat_iff simp del: bit_Suc)
    finally show "bit (drop_bit 1 (of_nat n :: 64 word)) k \<longleftrightarrow> bit (of_nat (n div 2) :: 64 word) k"
      using k by (simp add: bit_of_nat_iff bit_Suc)
  qed
  then show ?thesis by (simp add: crc_bit_def crc_shift_def bit_xor_iff bit_of_nat_iff ac_simps)
qed

lemma crc_byte_serial:
  assumes "n < 256"
  shows "crc_byte (r XOR of_nat n) = foldl crc_shift r (map (bit n) [0, 1, 2, 3, 4, 5, 6, 7])"
proof -
  have d: "bit (n div 2 ^ k) 0 = bit n k" "n div 2 ^ k < 256" for k
    using assms by (simp_all add: bit_iff_odd div_less_dividend le_less_trans [OF div_le_dividend])
  have s: "crc_bit (r XOR of_nat (n div 2 ^ k)) = crc_shift r (bit n k) XOR of_nat (n div 2 ^ Suc k)" for r k
    unfolding d(1) [symmetric] crc_shift_XOR [OF d(2)] by (simp only: power_Suc2 div_mult2_eq)
  have "n div 256 = 0" using assms by simp
  then show ?thesis
    using s [of _ 0] s [of _ 1] s [of _ 2] s [of _ 3] s [of _ 4] s [of _ 5] s [of _ 6] s [of _ 7]
    by (simp add: crc_byte_def)
qed

lemma crc_byte_high: "\<forall>k < 8. \<not> bit y k \<Longrightarrow> crc_byte y = drop_bit 8 y"
  by (simp add: crc_byte_def crc_bit_def bit_drop_bit_eq drop_bit_drop_bit eval_nat_numeral)

lemma crc64_step:
  assumes "n < 256"
  shows "crc64_tab ! unat ((ucast crc :: 8 word) XOR of_nat n) XOR drop_bit 8 crc = crc_byte (crc XOR of_nat n)"
proof -
  let ?x = "crc XOR of_nat n"
  let ?m = "unat ((ucast crc :: 8 word) XOR of_nat n)"
  define y where "y = ?x XOR take_bit 8 ?x"
  have n: "\<not> bit n k" if "8 \<le> k" for k
  proof -
    have "n < 2 ^ k" using assms power_increasing [OF that, of "2::nat"] by simp
    then show ?thesis by (simp add: bit_iff_odd)
  qed
  have "?m < 256" using unsigned_less [of "(ucast crc :: 8 word) XOR of_nat n"] by simp
  then have "crc64_tab ! ?m = crc_byte (of_nat ?m)" by (rule crc64_tab_entry)
  also have "(of_nat ?m :: 64 word) = take_bit 8 ?x"
    by (rule bit_eqI) (auto simp: bit_take_bit_iff bit_xor_iff bit_of_nat_iff bit_ucast_iff)
  finally have t: "crc64_tab ! ?m = crc_byte (take_bit 8 ?x)" .
  have "crc_byte y = drop_bit 8 y" by (rule crc_byte_high) (simp add: y_def bit_xor_iff bit_take_bit_iff)
  also have "drop_bit 8 y = drop_bit 8 crc"
    by (rule bit_eqI) (auto simp: y_def bit_xor_iff bit_take_bit_iff bit_drop_bit_eq bit_of_nat_iff n)
  finally have "crc64_tab ! ?m XOR drop_bit 8 crc = crc_byte (take_bit 8 ?x XOR y)" using t by (simp add: crc_byte_XOR)
  moreover have "take_bit 8 ?x XOR y = ?x" by (simp add: y_def ac_simps)
  ultimately show ?thesis by simp
qed

text \<open>C34: The checksum that is computed with the table, a byte at a time, is that of the register that takes the message bit by
  bit with the reflected polynomial 0xad93d23594c935a9.\<close>

theorem crc64_is_serial: "crc64 crc s = crc_serial crc s"
proof (induction s arbitrary: crc)
  case (Cons c s)
  show ?case
    using Cons [of "crc_byte (crc XOR of_nat (code c))"] crc_byte_serial [of "code c" crc] crc64_step [of "code c" crc]
    by (simp add: crc_serial_def byte_bits_def)
qed (simp add: crc_serial_def)

text \<open>The check value of the specification.\<close>

lemma crc64_check: "crc64 0 ''123456789'' = 0xe9c6d914c4b8d9ca"
  by (simp add: crc64_tab_def code_def)

end
