(* ===== verification/Rdb.thy ===== *)
theory Rdb
  imports Backend Compact Lzf Crc64
begin

text \<open>
  QedisCore/QDB.cc: the RDB file. \<open>QDBSaver\<close> writes a snapshot of all databases, \<open>QDBLoader\<close> reads one, also with the compact
  encodings that only Redis writes; DUMP and RESTORE use the same encoding for one value. A written file is the list of its
  bytes, and a file that is read is the list of the bytes not read yet.

  The images of doubles (\<open>%.6g\<close>), their parsers and the contents of the compressor's uninitialised table, which may differ from
  string to string, are arguments.
\<close>

subsection \<open>Saving strings and numbers\<close>

definition SaveLength :: "nat \<Rightarrow> string option" where
  "SaveLength len =
     (if 2 ^ 32 \<le> len then None
      else if len < 64 then Some [char_of len]
      else if len < 16384 then Some [char_of (64 + len div 256), char_of (len mod 256)]
      else Some (char_of (128::nat) # rev (le_bytes 4 len)))"

definition SaveString_int :: "int \<Rightarrow> string option" where
  "SaveString_int intVal =
     (if 0 \<le> intVal \<and> intVal < 2 ^ 7 then Some (char_of (192::nat) # le_bytes 1 (nat intVal))
      else if 0 \<le> intVal \<and> intVal < 2 ^ 15 then Some (char_of (193::nat) # le_bytes 2 (nat intVal))
      else if 0 \<le> intVal \<and> intVal < 2 ^ 31 then Some (char_of (194::nat) # le_bytes 4 (nat intVal))
      else let buf = Number2Str 64 intVal in map_option (\<lambda>l. l @ buf) (SaveLength (length buf)))"

type_synonym lzf_tables = "string \<Rightarrow> nat \<Rightarrow> int"

text \<open>Whether the string was written, and what.\<close>

definition SaveLZFString :: "lzf_tables \<Rightarrow> QString \<Rightarrow> (bool \<times> string) option" where
  "SaveLZFString htab str =
     (if length str < 20 then Some (False, [])
      else
        let outBuf = lzf_compress (htab str) str (length str - 4)
        in if outBuf = [] then Some (False, [])
           else
             Option.bind (SaveLength (length outBuf)) (\<lambda>clen.
               map_option (\<lambda>rlen. (True, char_of (195::nat) # clen @ rlen @ outBuf)) (SaveLength (length str))))"

definition SaveString :: "lzf_tables \<Rightarrow> QString \<Rightarrow> string option" where
  "SaveString htab str =
     (case (if length str < 10 then Strtol str else None) of
        Some lVal \<Rightarrow> SaveString_int lVal
      | None \<Rightarrow>
          Option.bind (SaveLZFString htab str) (\<lambda>(saved, bytes).
            if saved then Some bytes else map_option (\<lambda>l. l @ str) (SaveLength (length str))))"

definition SaveKey :: "lzf_tables \<Rightarrow> QString \<Rightarrow> string option" where
  "SaveKey htab key = SaveString htab key"

definition dbl_inf :: "double \<Rightarrow> bool" where
  "dbl_inf d \<longleftrightarrow> take_bit 63 d = 0x7FF0000000000000"

definition SaveDoubleValue :: "(double \<Rightarrow> string) \<Rightarrow> double \<Rightarrow> string" where
  "SaveDoubleValue fmt val =
     (if dbl_nan val then [char_of (253::nat)]
      else if dbl_inf val then [char_of (if dbl_sign val then 255 else 254 :: nat)]
      else char_of (length (fmt val)) # fmt val)"

subsection \<open>Saving objects\<close>

fun save_all :: "('x \<Rightarrow> string option) \<Rightarrow> 'x list \<Rightarrow> string option" where
  "save_all f [] = Some []"
| "save_all f (x # xs) = Option.bind (f x) (\<lambda>b. map_option (\<lambda>bs. b @ bs) (save_all f xs))"

definition SaveList :: "lzf_tables \<Rightarrow> QString list \<Rightarrow> string option" where
  "SaveList htab l = Option.bind (SaveLength (length l)) (\<lambda>n. map_option (\<lambda>bs. n @ bs) (save_all (SaveString htab) l))"

definition SaveSet :: "lzf_tables \<Rightarrow> QString list \<Rightarrow> string option" where
  "SaveSet htab s = Option.bind (SaveLength (length s)) (\<lambda>n. map_option (\<lambda>bs. n @ bs) (save_all (SaveString htab) s))"

definition save_pair :: "('x \<Rightarrow> string option) \<Rightarrow> ('y \<Rightarrow> string option) \<Rightarrow> 'x \<times> 'y \<Rightarrow> string option" where
  "save_pair f g p = Option.bind (f (fst p)) (\<lambda>a. map_option (\<lambda>b. a @ b) (g (snd p)))"

definition SaveHash :: "lzf_tables \<Rightarrow> QHash \<Rightarrow> string option" where
  "SaveHash htab h =
     Option.bind (SaveLength (length h)) (\<lambda>n. map_option (\<lambda>bs. n @ bs) (save_all (save_pair (SaveString htab) (SaveString htab)) h))"

definition SaveSSet :: "(double \<Rightarrow> string) \<Rightarrow> lzf_tables \<Rightarrow> QSortedSet \<Rightarrow> string option" where
  "SaveSSet fmt htab ss =
     Option.bind (SaveLength (zSize ss)) (\<lambda>n.
       map_option (\<lambda>bs. n @ bs) (save_all (save_pair (SaveString htab) (Some \<circ> SaveDoubleValue fmt)) (zmembers ss)))"

fun SaveType :: "QEncode \<Rightarrow> nat option" where
  "SaveType QEncode_raw = Some 0"
| "SaveType QEncode_int = Some 0"
| "SaveType QEncode_list = Some 1"
| "SaveType QEncode_hash = Some 4"
| "SaveType QEncode_set = Some 2"
| "SaveType QEncode_sset = Some 3"
| "SaveType QEncode_invalid = None"

definition SaveObject_rdb :: "(double \<Rightarrow> string) \<Rightarrow> lzf_tables \<Rightarrow> qobject \<Rightarrow> string option" where
  "SaveObject_rdb fmt htab obj =
     (case encoding obj of
        QEncode_raw \<Rightarrow> Option.bind (GetDecodedString obj) (SaveString htab)
      | QEncode_int \<Rightarrow> Option.bind (GetDecodedString obj) (SaveString htab)
      | QEncode_list \<Rightarrow> Option.bind (CastList (oval obj)) (SaveList htab)
      | QEncode_set \<Rightarrow> Option.bind (CastSet (oval obj)) (SaveSet htab)
      | QEncode_hash \<Rightarrow> Option.bind (CastHash (oval obj)) (SaveHash htab)
      | QEncode_sset \<Rightarrow> Option.bind (CastSortedSet (oval obj)) (SaveSSet fmt htab)
      | QEncode_invalid \<Rightarrow> Some [])"

subsection \<open>Saving everything\<close>

definition save_entry :: "(double \<Rightarrow> string) \<Rightarrow> lzf_tables \<Rightarrow> QString \<Rightarrow> qobject \<Rightarrow> string option" where
  "save_entry fmt htab key obj =
     Option.bind (SaveType (encoding obj)) (\<lambda>t.
       Option.bind (SaveKey htab key) (\<lambda>k. map_option (\<lambda>v. char_of t # k @ v) (SaveObject_rdb fmt htab obj)))"

text \<open>As in the log, \<open>TTL\<close> deletes a key whose deadline has passed from the table the loop iterates over.\<close>

fun Save_keys :: "(double \<Rightarrow> string) \<Rightarrow> lzf_tables \<Rightarrow> u64 \<Rightarrow> (QString \<times> qobject) list \<Rightarrow> server \<Rightarrow> string option" where
  "Save_keys fmt htab t [] s = Some []"
| "Save_keys fmt htab t ((key, obj) # kvs) s =
     (case TTL key t s of
        (ttl, _) \<Rightarrow>
          if ttl = expired then None
          else
            Option.bind (save_entry fmt htab key obj) (\<lambda>entry.
              map_option (\<lambda>rest. (if 0 < ttl then char_of (0xFC::nat) # int64_bytes (wrap64 (ttl + uint t)) else []) @ entry @ rest)
                (Save_keys fmt htab t kvs s)))"

function Save_dbs :: "(double \<Rightarrow> string) \<Rightarrow> lzf_tables \<Rightarrow> (nat \<Rightarrow> u64) \<Rightarrow> nat \<Rightarrow> server \<Rightarrow> (string \<times> server) option" where
  "Save_dbs fmt htab clock db s =
     (case SelectDB (int db) s of
        (r, s) \<Rightarrow>
          if r = -1 then Some ([], s)
          else if DBSize s = 0 then Save_dbs fmt htab clock (Suc db) s
          else
            Option.bind (SaveLength db) (\<lambda>n.
              Option.bind (Save_keys fmt htab (clock db) (cur_db s) s) (\<lambda>bytes.
                map_option (\<lambda>(rest, s). (char_of (0xFE::nat) # n @ bytes @ rest, s)) (Save_dbs fmt htab clock (Suc db) s))))"
  by pat_completeness auto
termination
  by (relation "measure (\<lambda>(fmt, htab, clock, db, s). max (length (store s)) (Suc (dbno s)) - db)")
    (auto simp: SelectDB_def split: if_splits)

declare Save_dbs.simps [simp del]

definition kQDBVersion :: nat where "kQDBVersion = 6"

text \<open>The file, and the store, whose last database is now selected.\<close>

definition QDB_Save :: "(double \<Rightarrow> string) \<Rightarrow> lzf_tables \<Rightarrow> (nat \<Rightarrow> u64) \<Rightarrow> server \<Rightarrow> (string \<times> server) option" where
  "QDB_Save fmt htab clock s =
     map_option (\<lambda>(bytes, s).
         let data = ''REDIS0006'' @ bytes @ [char_of (0xFF::nat)]
         in (data @ le_bytes 8 (unat (crc64 0 data)), s))
       (Save_dbs fmt htab clock 0 s)"

subsection \<open>Loading strings and numbers\<close>

text \<open>The bytes of one to eight octets are unsigned here; \<open>LoadLength\<close> tells whether the length is special.\<close>

definition LoadByte :: "string \<Rightarrow> nat load" where
  "LoadByte mem = mem_Read 1 mem"

definition LoadLength :: "string \<Rightarrow> (bool \<times> nat) load" where
  "LoadLength mem =
     load_bind (mem_Read 1 mem) (\<lambda>byte mem.
       if byte div 64 = 0 then Loaded (False, byte mod 64) mem
       else if byte div 64 = 1 then load_bind (mem_Read 1 mem) (\<lambda>low. Loaded (False, byte mod 64 * 256 + low))
       else if byte div 64 = 2 then load_bind (mem_Read 4 mem) (\<lambda>v. Loaded (False, le_value (rev (le_bytes 4 v))))
       else Loaded (True, byte mod 64) mem)"

definition LoadLZFString :: "string \<Rightarrow> QString load" where
  "LoadLZFString mem =
     load_bind (LoadLength mem) (\<lambda>(special, compressLen) mem.
       if special then Loaded [] mem
       else
         load_bind (LoadLength mem) (\<lambda>(special, rawLen) mem.
           if special then Loaded [] mem
           else
             case mem_Peek compressLen mem of
               (None, _) \<Rightarrow> Died
             | (Some compressStr, compressLen) \<Rightarrow>
                 (case lzf_decompress compressStr rawLen of
                    None \<Rightarrow> Loaded [] mem
                  | Some val \<Rightarrow>
                      load_bind (mem_Skip compressLen mem) (\<lambda>_. Loaded (val @ replicate (rawLen - length val) NUL)))))"

definition LoadSpecialStringObject :: "nat \<Rightarrow> string \<Rightarrow> qobject load" where
  "LoadSpecialStringObject specialVal mem =
     (if specialVal = 0 then load_bind (mem_Read 1 mem) (\<lambda>v. Loaded (CreateString_long (int v)))
      else if specialVal = 1 then load_bind (mem_Read 2 mem) (\<lambda>v. Loaded (CreateString_long (int v)))
      else if specialVal = 2 then load_bind (mem_Read 4 mem) (\<lambda>v. Loaded (CreateString_long (int v)))
      else if specialVal = 3 then load_bind (LoadLZFString mem) (\<lambda>s. Loaded (CreateString s))
      else Thrown)"

text \<open>A string that the file ends in the middle of is what is left of it.\<close>

definition LoadString :: "nat \<Rightarrow> string \<Rightarrow> QString load" where
  "LoadString strLen mem =
     (case mem_Peek strLen mem of
        (str, strLen) \<Rightarrow> load_bind (mem_Skip strLen mem) (\<lambda>_. Loaded (case str of None \<Rightarrow> [] | Some s \<Rightarrow> s)))"

definition decoded :: "qobject \<Rightarrow> string \<Rightarrow> QString load" where
  "decoded obj mem = (case GetDecodedString obj of None \<Rightarrow> Died | Some s \<Rightarrow> Loaded s mem)"

definition LoadGenericString :: "string \<Rightarrow> QString load" where
  "LoadGenericString mem =
     load_bind (LoadLength mem) (\<lambda>(special, len) mem.
       if special then load_bind (LoadSpecialStringObject len mem) decoded else LoadString len mem)"

definition LoadKey :: "string \<Rightarrow> QString load" where
  "LoadKey mem = LoadGenericString mem"

text \<open>\<open>stream\<close> is \<open>operator>>\<close>. The byte that stands for minus infinity is read as plus infinity.\<close>

definition LoadDoubleValue :: "(string \<Rightarrow> double) \<Rightarrow> string \<Rightarrow> double load" where
  "LoadDoubleValue stream mem =
     load_bind (mem_Read 1 mem) (\<lambda>byte1st mem.
       if byte1st = 253 then Loaded 0x7FF8000000000000 mem
       else if byte1st = 254 then Loaded 0x7FF0000000000000 mem
       else if byte1st = 255 then Loaded 0x7FF0000000000000 mem
       else
         case mem_Peek byte1st mem of
           (val, len) \<Rightarrow>
             if len \<noteq> byte1st then Died
             else load_bind (mem_Skip len mem) (\<lambda>_. Loaded (stream (case val of None \<Rightarrow> [] | Some s \<Rightarrow> s))))"

subsection \<open>Loading objects\<close>

text \<open>A length that must not be special.\<close>

definition LoadCount :: "string \<Rightarrow> nat load" where
  "LoadCount mem = load_bind (LoadLength mem) (\<lambda>(special, len) mem. if special then Thrown else Loaded len mem)"

definition LoadList :: "string \<Rightarrow> qobject load" where
  "LoadList mem =
     load_bind (LoadCount mem) (\<lambda>len mem.
       load_bind (load_many LoadGenericString (\<lambda>elem list. Some (list @ [elem])) len mem [])
         (\<lambda>list. Loaded (Obj_Reset (VList list) CreateList)))"

definition LoadSet :: "string \<Rightarrow> qobject load" where
  "LoadSet mem =
     load_bind (LoadCount mem) (\<lambda>len mem.
       load_bind (load_many LoadGenericString (\<lambda>elem set. Some (snd (set_insert elem set))) len mem [])
         (\<lambda>set. Loaded (Obj_Reset (VSet set) CreateSet)))"

definition LoadHash :: "string \<Rightarrow> qobject load" where
  "LoadHash mem =
     load_bind (LoadCount mem) (\<lambda>len mem.
       load_bind (load_many (load_pair LoadGenericString LoadGenericString) hash_insert len mem [])
         (\<lambda>hash. Loaded (Obj_Reset (VHash hash) CreateHash)))"

definition LoadSSet :: "(string \<Rightarrow> double) \<Rightarrow> string \<Rightarrow> qobject load" where
  "LoadSSet stream mem =
     load_bind (LoadCount mem) (\<lambda>len mem.
       load_bind (load_many (load_pair LoadGenericString (LoadDoubleValue stream))
           (\<lambda>(member, score). AddMember member (long_to_dbl (dbl_to_long score))) len mem \<lparr>zscores = [], zmembers = []\<rparr>)
         (\<lambda>sset. Loaded (Obj_Reset (VSSet sset) CreateSSet)))"

subsection \<open>The compact encodings\<close>

text \<open>\<open>ToString\<close> prints an integer into 16 bytes.\<close>

fun ZipListElement_ToString :: "ZipListElement \<Rightarrow> QString" where
  "ZipListElement_ToString (Sval s) = s"
| "ZipListElement_ToString (Lval v) = Number2Str 16 v"

fun zip_elements :: "string \<Rightarrow> nat list \<Rightarrow> ZipListElement list option" where
  "zip_elements zl [] = Some []"
| "zip_elements zl (i # is) =
     (case Option.bind (ziplistIndex zl i) (ziplistGet zl) of
        Some (Some e) \<Rightarrow> map_option (Cons e) (zip_elements zl is)
      | _ \<Rightarrow> None)"

fun zip_pairs :: "'x list \<Rightarrow> ('x \<times> 'x) list option" where
  "zip_pairs [] = Some []"
| "zip_pairs [x] = None"
| "zip_pairs (x # y # xs) = map_option (Cons (x, y)) (zip_pairs xs)"

text \<open>A score that is no number leaves its variable uninitialised.\<close>

definition zip_score :: "strtod \<Rightarrow> ZipListElement \<Rightarrow> double option" where
  "zip_score strtod e = (case e of Sval s \<Rightarrow> Strtod strtod s | Lval v \<Rightarrow> Some (long_to_dbl v))"

definition LoadZipList :: "strtod \<Rightarrow> QString \<Rightarrow> nat \<Rightarrow> qobject option" where
  "LoadZipList strtod zl type =
     Option.bind (ziplistLen zl) (\<lambda>nElem.
       Option.bind (zip_elements zl [0..<nElem]) (\<lambda>elements.
         if type = 10 then Some (Obj_Reset (VList (map ZipListElement_ToString elements)) CreateList)
         else if type = 13 then
           Option.bind (zip_pairs elements) (\<lambda>ps.
             map_option (\<lambda>hash. Obj_Reset (VHash hash) CreateHash)
               (add_all hash_insert (map (map_prod ZipListElement_ToString ZipListElement_ToString) ps) []))
         else if type = 12 then
           Option.bind (zip_pairs elements) (\<lambda>ps.
             map_option (\<lambda>sset. Obj_Reset (VSSet sset) CreateSSet)
               (add_all (\<lambda>(member, e) z. Option.bind (zip_score strtod e) (\<lambda>score. AddMember (ZipListElement_ToString member) score z))
                  ps \<lparr>zscores = [], zmembers = []\<rparr>))
         else None))"

definition load_opt :: "'x option \<Rightarrow> string \<Rightarrow> 'x load" where
  "load_opt v mem = (case v of None \<Rightarrow> Died | Some x \<Rightarrow> Loaded x mem)"

definition LoadZipList_mem :: "strtod \<Rightarrow> nat \<Rightarrow> string \<Rightarrow> qobject load" where
  "LoadZipList_mem strtod type mem = load_bind (LoadGenericString mem) (\<lambda>zl. load_opt (LoadZipList strtod zl type))"

fun intset_elements :: "string \<Rightarrow> nat list \<Rightarrow> int list option" where
  "intset_elements iset [] = Some []"
| "intset_elements iset (i # is) =
     (case intsetGet iset i of
        Some (Some v) \<Rightarrow> map_option (Cons v) (intset_elements iset is)
      | Some None \<Rightarrow> map_option (Cons 0) (intset_elements iset is)
      | None \<Rightarrow> None)"

definition LoadIntset :: "string \<Rightarrow> qobject load" where
  "LoadIntset mem =
     load_bind (LoadGenericString mem) (\<lambda>str.
       load_opt
         (Option.bind (intsetLen str) (\<lambda>nElem.
            Option.bind (intset_elements str [0..<nElem]) (\<lambda>elements.
              map_option (\<lambda>set. Obj_Reset (VSet set) CreateSet)
                (add_all (\<lambda>v set. Some (snd (set_insert (Number2Str 64 v) set))) elements [])))))"

text \<open>Whether the length is special is not looked at. Empty nodes are skipped.\<close>

fun quick_nodes :: "strtod \<Rightarrow> nat \<Rightarrow> string \<Rightarrow> QString list \<Rightarrow> QString list load" where
  "quick_nodes strtod 0 mem list = Loaded list mem"
| "quick_nodes strtod (Suc n) mem list =
     load_bind (LoadGenericString mem) (\<lambda>zl mem.
       if zl = [] then quick_nodes strtod n mem list
       else
         case Option.bind (LoadZipList strtod zl 10) (\<lambda>l. CastList (oval l)) of
           None \<Rightarrow> Died
         | Some tmplist \<Rightarrow> quick_nodes strtod n mem (list @ tmplist))"

definition LoadQuickList :: "strtod \<Rightarrow> string \<Rightarrow> qobject load" where
  "LoadQuickList strtod mem =
     load_bind (LoadLength mem) (\<lambda>(_, nElem) mem.
       load_bind (quick_nodes strtod nElem mem []) (\<lambda>list. Loaded (Obj_Reset (VList list) CreateList)))"

subsection \<open>Loading a file\<close>

record rdb_libs =
  rdb_stream :: "string \<Rightarrow> double"
  rdb_strtod :: strtod

definition LoadObject :: "rdb_libs \<Rightarrow> nat \<Rightarrow> string \<Rightarrow> qobject load" where
  "LoadObject L type mem =
     (if type = 0 then
        load_bind (LoadLength mem) (\<lambda>(special, len) mem.
          if special then LoadSpecialStringObject len mem
          else load_bind (LoadString len mem) (\<lambda>s. Loaded (CreateString s)))
      else if type = 1 then LoadList mem
      else if type = 10 then LoadZipList_mem (rdb_strtod L) 10 mem
      else if type = 2 then LoadSet mem
      else if type = 11 then LoadIntset mem
      else if type = 4 then LoadHash mem
      else if type = 13 then LoadZipList_mem (rdb_strtod L) 13 mem
      else if type = 9 then Died
      else if type = 3 then LoadSSet (rdb_stream L) mem
      else if type = 12 then LoadZipList_mem (rdb_strtod L) 12 mem
      else if type = 14 then LoadQuickList (rdb_strtod L) mem
      else Loaded (QObject_new QType_invalid) mem)"

definition LoadAux :: "string \<Rightarrow> unit load" where
  "LoadAux mem = load_bind (LoadGenericString mem) (\<lambda>auxkey mem. load_bind (LoadGenericString mem) (\<lambda>auxvalue. Loaded ()))"

definition LoadResizeDB :: "string \<Rightarrow> unit load" where
  "LoadResizeDB mem = load_bind (LoadCount mem) (\<lambda>dbsize mem. load_bind (LoadCount mem) (\<lambda>expiresize. Loaded ()))"

text \<open>Readers never give bytes back.\<close>

definition shrinks :: "(string \<Rightarrow> 'x load) \<Rightarrow> bool" where
  "shrinks f \<longleftrightarrow> (\<forall>mem x rest. f mem = Loaded x rest \<longrightarrow> length rest \<le> length mem)"

named_theorems shrink_rules \<open>readers never give bytes back\<close>

lemma shrinksD: "shrinks f \<Longrightarrow> f mem = Loaded x rest \<Longrightarrow> length rest \<le> length mem"
  by (auto simp: shrinks_def)

lemma shrinks_bind [shrink_rules]:
  assumes "shrinks f" "\<And>x. shrinks (g x)"
  shows "shrinks (\<lambda>mem. load_bind (f mem) g)"
  unfolding shrinks_def
proof (intro allI impI)
  fix mem y rest
  assume "load_bind (f mem) g = Loaded y rest"
  then obtain x m where "f mem = Loaded x m" "g x m = Loaded y rest" by (cases "f mem") auto
  then show "length rest \<le> length mem" using shrinksD [OF assms(1)] shrinksD [OF assms(2)] le_trans by blast
qed

lemma shrinks_basic [shrink_rules]:
  "shrinks (Loaded x)" "shrinks (\<lambda>mem. Died)" "shrinks (\<lambda>mem. Thrown)" "shrinks (mem_Read n)" "shrinks (mem_Skip n)"
  "shrinks (load_opt v)" "shrinks (decoded ob)" "shrinks LoadByte"
  by (auto simp: shrinks_def mem_Read_def mem_Skip_def load_opt_def decoded_def LoadByte_def split: option.splits if_splits)

lemma shrinks_if [shrink_rules]: "shrinks f \<Longrightarrow> shrinks g \<Longrightarrow> shrinks (\<lambda>mem. if b then f mem else g mem)"
  by (cases b) simp_all

lemma shrinks_if_mem [shrink_rules]: "shrinks f \<Longrightarrow> shrinks g \<Longrightarrow> shrinks (\<lambda>mem. if b mem then f mem else g mem)"
  by (auto simp: shrinks_def)

lemma shrinks_case_prod [shrink_rules]: "(\<And>x y. shrinks (f x y)) \<Longrightarrow> shrinks (case p of (x, y) \<Rightarrow> f x y)"
  by (cases p) simp

lemma shrinks_case_option [shrink_rules]:
  "shrinks f \<Longrightarrow> (\<And>x. shrinks (g x)) \<Longrightarrow> shrinks (\<lambda>mem. case v of None \<Rightarrow> f mem | Some x \<Rightarrow> g x mem)"
  by (cases v) simp_all

lemma shrinks_peek [shrink_rules]:
  "(\<And>x. shrinks (f x)) \<Longrightarrow> shrinks (\<lambda>mem. case mem_Peek n mem of (str, len) \<Rightarrow> f (str, len) mem)"
  by (auto simp: shrinks_def split: prod.splits)

lemma shrinks_many [shrink_rules]: "shrinks f \<Longrightarrow> shrinks (\<lambda>mem. load_many f add n mem acc)"
proof (induction n arbitrary: acc)
  case (Suc n)
  show ?case unfolding load_many.simps by (intro shrinks_bind shrinks_case_option shrinks_basic Suc)
qed (simp add: shrinks_basic)

lemma shrinks_LoadLength [shrink_rules]: "shrinks LoadLength" "shrinks LoadCount"
proof -
  show "shrinks LoadLength" unfolding LoadLength_def [abs_def] by (intro shrink_rules)
  then show "shrinks LoadCount" unfolding LoadCount_def [abs_def] by (intro shrink_rules)
qed

lemma shrinks_LoadLZFString [shrink_rules]: "shrinks LoadLZFString"
  unfolding LoadLZFString_def [abs_def]
  by (intro shrink_rules) (auto simp: shrinks_def mem_Skip_def mem_Peek_def split: option.splits if_splits)

lemma shrinks_LoadString [shrink_rules]: "shrinks (LoadString n)"
  by (auto simp: shrinks_def LoadString_def mem_Peek_def mem_Skip_def split: if_splits)

lemma shrinks_strings [shrink_rules]: "shrinks (LoadSpecialStringObject n)" "shrinks LoadGenericString" "shrinks LoadKey"
proof -
  show s: "shrinks (LoadSpecialStringObject n)" for n
    unfolding LoadSpecialStringObject_def [abs_def] by (intro shrink_rules)
  show "shrinks LoadGenericString" unfolding LoadGenericString_def [abs_def] by (intro shrink_rules s)
  then show "shrinks LoadKey" unfolding LoadKey_def [abs_def] .
qed

lemma shrinks_LoadDoubleValue [shrink_rules]: "shrinks (LoadDoubleValue f)"
  by (auto simp: shrinks_def LoadDoubleValue_def mem_Read_def mem_Peek_def mem_Skip_def split: if_splits)

lemma shrinks_pair [shrink_rules]: "shrinks f \<Longrightarrow> shrinks g \<Longrightarrow> shrinks (load_pair f g)"
  unfolding load_pair_def [abs_def] by (intro shrink_rules)

lemma shrinks_quick_nodes [shrink_rules]: "shrinks (\<lambda>mem. quick_nodes st n mem l)"
proof (induction n arbitrary: l)
  case (Suc n)
  show ?case unfolding quick_nodes.simps by (intro shrinks_bind shrink_rules Suc)
qed (simp add: shrinks_basic)

lemma shrinks_LoadObject [shrink_rules]: "shrinks (LoadObject L t)"
proof -
  have "shrinks LoadList" "shrinks LoadSet" "shrinks LoadHash" "shrinks (LoadSSet f)" "shrinks (LoadZipList_mem st ty)" "shrinks LoadIntset"
    "shrinks (LoadQuickList st)" for f st ty
    unfolding LoadList_def [abs_def] LoadSet_def [abs_def] LoadHash_def [abs_def] LoadSSet_def [abs_def] LoadZipList_mem_def [abs_def]
      LoadIntset_def [abs_def] LoadQuickList_def [abs_def]
    by (intro shrink_rules)+
  then show ?thesis unfolding LoadObject_def [abs_def] by (intro shrink_rules)
qed

lemma shrinks_others [shrink_rules]: "shrinks LoadAux" "shrinks LoadResizeDB"
  unfolding LoadAux_def [abs_def] LoadResizeDB_def [abs_def] by (intro shrink_rules)+

text \<open>
  What one turn of the loop of \<open>Load\<close> does: it returns a code, which is a line number of the source, or goes on with the
  store, the rest of the file and the deadline for the next key.
\<close>

datatype load_step = Return int server | Next server string int | Dead

fun on_load :: "int \<Rightarrow> server \<Rightarrow> 'x load \<Rightarrow> ('x \<Rightarrow> string \<Rightarrow> load_step) \<Rightarrow> load_step" where
  "on_load line s (Loaded x mem) f = f x mem"
| "on_load line s Thrown f = Return (- line) s"
| "on_load line s Died f = Dead"

definition value_type :: "nat \<Rightarrow> bool" where
  "value_type t \<longleftrightarrow> t \<in> {0, 1, 10, 2, 11, 4, 13, 9, 3, 12, 14}"

definition load_key_value :: "rdb_libs \<Rightarrow> nat \<Rightarrow> server \<Rightarrow> string \<Rightarrow> int \<Rightarrow> load_step" where
  "load_key_value L indicator s mem absTimeout =
     on_load 551 s (LoadKey mem) (\<lambda>key mem.
       on_load 551 s (LoadObject L indicator mem) (\<lambda>obj mem.
         if otype obj = QType_invalid then Dead
         else if absTimeout < 0 then Return (- 557) s
         else if absTimeout = 0 then Next (snd (SetValue key obj s)) mem 0
         else if sint (now s) < absTimeout then Next (SetExpire key (word_of_int absTimeout) (snd (SetValue key obj s))) mem 0
         else Next s mem 0))"

definition Load_step :: "rdb_libs \<Rightarrow> server \<Rightarrow> string \<Rightarrow> int \<Rightarrow> load_step" where
  "Load_step L s mem absTimeout =
     on_load 440 s (LoadByte mem) (\<lambda>indicator mem.
       if indicator = 0xFF then Return 0 s
       else if indicator = 0xFA then on_load 457 s (LoadAux mem) (\<lambda>_ mem. Next s mem absTimeout)
       else if indicator = 0xFB then on_load 468 s (LoadResizeDB mem) (\<lambda>_ mem. Next s mem absTimeout)
       else if indicator = 0xFE then
         on_load 481 s (LoadLength mem) (\<lambda>(special, db) mem.
           if special then Return (- 487) s
           else if kMaxDbNum < int db then Return 494 s
           else
             case SelectDB (int db) s of
               (r, s) \<Rightarrow> if r = -1 then Return 500 s else Next s mem absTimeout)
       else if indicator = 0xFC then on_load 512 s (mem_Read 8 mem) (\<lambda>v mem. Next s mem (wrap64 (int v)))
       else if indicator = 0xFD then on_load 524 s (mem_Read 8 mem) (\<lambda>v mem. Next s mem (wrap64 (wrap64 (int v) * 1000)))
       else if value_type indicator then load_key_value L indicator s mem absTimeout
       else Return (- 584) s)"

lemma on_load_next:
  "on_load line s m f = Next s' mem' t \<Longrightarrow> \<exists>x rest. m = Loaded x rest \<and> f x rest = Next s' mem' t"
  by (cases m) auto

lemma LoadByte_shorter: "LoadByte mem = Loaded b rest \<Longrightarrow> length rest < length mem"
  by (auto simp: LoadByte_def mem_Read_def split: if_splits)

lemma load_key_value_shorter:
  assumes "load_key_value L indicator s mem t = Next s' mem' t'"
  shows "length mem' \<le> length mem"
proof -
  obtain key m obj where k: "LoadKey mem = Loaded key m" "LoadObject L indicator m = Loaded obj mem'"
    using assms by (auto simp: load_key_value_def split: if_splits dest!: on_load_next)
  show ?thesis using shrinksD [OF shrinks_strings(3) k(1)] shrinksD [OF shrinks_LoadObject k(2)] by simp
qed

lemma Load_step_shorter: "Load_step L s mem t = Next s' mem' t' \<Longrightarrow> length mem' < length mem"
proof -
  assume n: "Load_step L s mem t = Next s' mem' t'"
  obtain b rest where b: "LoadByte mem = Loaded b rest" using n by (cases "LoadByte mem") (simp_all add: Load_step_def)
  have "length mem' \<le> length rest"
    using n b
    by (auto simp: Load_step_def split: if_splits prod.splits dest!: on_load_next
        dest: load_key_value_shorter shrinksD [OF shrinks_others(1)] shrinksD [OF shrinks_others(2)] shrinksD [OF shrinks_LoadLength(1)]
          shrinksD [OF shrinks_basic(4)])
  with LoadByte_shorter [OF b] show ?thesis by simp
qed

function Load_loop :: "rdb_libs \<Rightarrow> server \<Rightarrow> string \<Rightarrow> int \<Rightarrow> (int \<times> server) option" where
  "Load_loop L s mem absTimeout =
     (case Load_step L s mem absTimeout of
        Return line s \<Rightarrow> Some (line, s)
      | Next s mem absTimeout \<Rightarrow> Load_loop L s mem absTimeout
      | Dead \<Rightarrow> None)"
  by pat_completeness auto
termination
  by (relation "measure (\<lambda>(L, s, mem, absTimeout). length mem)") (auto dest: Load_step_shorter)

declare Load_loop.simps [simp del]

text \<open>
  The version is four digits, which the C library reads as an octal number when they start with 0; the byte behind them is
  no digit. The word in front of it is not looked at. An empty file cannot be mapped.
\<close>

definition QDB_Load :: "rdb_libs \<Rightarrow> string \<Rightarrow> server \<Rightarrow> (int \<times> server) option" where
  "QDB_Load L content s =
     (if content = [] then Some (- 406, s)
      else if length content < 9 then Some (- 415, s)
      else
        case Strtol (take 4 (drop 5 content)) of
          None \<Rightarrow> Some (- 422, s)
        | Some qdbversion \<Rightarrow> if qdbversion < 6 then Some (- 422, s) else Load_loop L s (drop 9 content) 0)"

subsection \<open>DUMP and RESTORE\<close>

definition DumpObject :: "(double \<Rightarrow> string) \<Rightarrow> lzf_tables \<Rightarrow> qobject \<Rightarrow> string option" where
  "DumpObject fmt htab val =
     Option.bind (SaveType (encoding val)) (\<lambda>t.
       map_option (\<lambda>v.
           let result = char_of t # v @ [char_of kQDBVersion, NUL]
           in result @ le_bytes 8 (unat (crc64 0 result)))
         (SaveObject_rdb fmt htab val))"

text \<open>The object is decoded before the version and the checksum behind it are read. An exception gives an invalid object.\<close>

definition RestoreObject :: "rdb_libs \<Rightarrow> string \<Rightarrow> qobject option" where
  "RestoreObject L data =
     (case load_bind (LoadByte data) (\<lambda>type mem.
             load_bind (LoadObject L type mem) (\<lambda>obj mem.
               load_bind (LoadByte mem) (\<lambda>v0 mem.
                 load_bind (LoadByte mem) (\<lambda>v1 mem.
                   if v0 \<noteq> kQDBVersion then Loaded (QObject_new QType_invalid) mem
                   else
                     load_bind (mem_Read 8 mem) (\<lambda>crc.
                       Loaded (if of_nat crc = crc64 0 (take (length data - 8) data) then obj else QObject_new QType_invalid)))))) of
        Loaded obj _ \<Rightarrow> Some obj
      | Thrown \<Rightarrow> Some (QObject_new QType_invalid)
      | Died \<Rightarrow> None)"

definition dump_cmd :: "(double \<Rightarrow> string) \<Rightarrow> lzf_tables \<Rightarrow> handler" where
  "dump_cmd fmt htab params r s =
     (case GetValue (params ! 1) True s of
        (Inl _, s) \<Rightarrow> fail QError_notExist QError_notExist r s
      | (Inr val, s) \<Rightarrow> map_option (\<lambda>str. (QError_ok, FormatBulk str r, s)) (DumpObject fmt htab val))"

definition restore_cmd :: "rdb_libs \<Rightarrow> handler" where
  "restore_cmd L params r s =
     Option.bind (RestoreObject L (params ! 3)) (\<lambda>obj.
       if otype obj = QType_invalid
       then Some (QError_nop, PushData (''-ERR DUMP payload version or checksum are wrong'' @ CRLF) r, s)
       else
         case Strtol (params ! 2) of
           None \<Rightarrow> fail QError_nan QError_nan r s
         | Some ttl \<Rightarrow>
             let replace = (length params = 5 \<and> params ! 4 = ''replace''); key = params ! 1
             in case (if replace then (None, s) else GetObject key s) of
                  (Some _, s) \<Rightarrow> fail QError_busykey QError_busykey r s
                | (None, s) \<Rightarrow>
                    let s = snd (SetValue key obj s);
                        s = (if 0 < ttl then SetExpireAfter key (word_of_int ttl) s else s)
                    in Some (QError_ok, FormatOK r, s))"

end
