(* ===== verification/Snapshot.thy ===== *)
theory Snapshot
  imports Rdb
begin

text \<open>
  Reading back what was saved: the RDB file of a server, loaded into a fresh one.
\<close>

subsection \<open>Lengths\<close>

lemma SaveLength_some: "n < 2 ^ 32 \<Longrightarrow> \<exists>b. SaveLength n = Some b"
  by (simp add: SaveLength_def)

lemma LoadLength_Save:
  assumes "SaveLength n = Some b"
  shows "LoadLength (b @ rest) = Loaded (False, n) rest"
proof -
  have n: "n < 2 ^ 32" using assms by (simp add: SaveLength_def split: if_splits)
  consider "n < 64" | "64 \<le> n" "n < 16384" | "16384 \<le> n" by linarith
  then show ?thesis
  proof cases
    case 1
    then show ?thesis using assms n by (auto simp: SaveLength_def LoadLength_def mem_Read_one)
  next
    case 2
    then have h: "64 + n div 256 < 128" "n div 256 < 64" by simp_all
    then have "code (char_of (64 + n div 256)) = 64 + n div 256" "code (char_of (n mod 256)) = n mod 256"
      by (intro code_char_of; simp)+
    moreover have "(64 + n div 256) div 64 = 1" "(64 + n div 256) mod 64 * 256 + n mod 256 = n" using h by simp_all
    ultimately show ?thesis using assms 2 n by (auto simp: SaveLength_def LoadLength_def mem_Read_one simp del: code_char_of)
  next
    case 3
    then have b: "b = char_of (128::nat) # rev (le_bytes 4 n)" using assms by (simp add: SaveLength_def split: if_splits)
    define v where "v = le_value (rev (le_bytes 4 n))"
    have "le_bytes 4 v = rev (le_bytes 4 n)" using le_bytes_value [of "rev (le_bytes 4 n)"] by (simp add: v_def)
    then have "le_value (rev (le_bytes 4 v)) = n" using n by simp
    moreover have "mem_Read 4 (rev (le_bytes 4 n) @ rest) = Loaded v rest" by (simp add: mem_Read_bytes v_def)
    moreover have "mem_Read 1 (b @ rest) = Loaded 128 (rev (le_bytes 4 n) @ rest)" by (simp add: b mem_Read_one)
    ultimately show ?thesis by (simp add: LoadLength_def)
  qed
qed

lemma LoadCount_Save: "SaveLength n = Some b \<Longrightarrow> LoadCount (b @ rest) = Loaded n rest"
  by (simp add: LoadCount_def LoadLength_Save)

subsection \<open>Strings\<close>

text \<open>A string of fewer than ten characters is no large number.\<close>

lemma base_value_less: "\<forall>c \<in> set cs. in_base b c \<Longrightarrow> b \<le> 16 \<Longrightarrow> 0 \<le> base_value b cs \<and> base_value b cs < 16 ^ length cs"
proof (induction cs rule: rev_induct)
  case (snoc c cs)
  then have "0 \<le> base_value b cs" "base_value b cs + 1 \<le> 16 ^ length cs" by simp_all
  moreover have d: "the (base_digit c) < b" using snoc.prems(1) by (simp add: in_base_def split: option.splits)
  ultimately have "base_value b cs * int b + int (the (base_digit c)) < (16 ^ length cs) * 16"
  proof -
    have "base_value b cs * int b + int (the (base_digit c)) < (base_value b cs + 1) * int b" using d by (simp add: algebra_simps)
    also have "\<dots> \<le> 16 ^ length cs * int b" using \<open>base_value b cs + 1 \<le> 16 ^ length cs\<close> by (intro mult_right_mono) simp_all
    also have "\<dots> \<le> 16 ^ length cs * 16" using snoc.prems(2) by simp
    finally show ?thesis .
  qed
  then show ?case using \<open>0 \<le> base_value b cs\<close> by (simp add: base_value_def)
qed (simp add: base_value_def)

lemma strtol_parts:
  "length (snd (strtol_sign s)) \<le> length s" "length (snd (strtol_base s)) \<le> length s" "fst (strtol_base s) \<le> 16"
  by (cases s; auto simp: strtol_sign_def) (cases s rule: strtol_base.cases; auto)+

lemma Strtol_small:
  assumes "Strtol x = Some v" "length x < 10"
  shows "LONG_MIN < v \<and> v \<le> LONG_MAX"
proof -
  obtain neg s1 where s1: "strtol_sign (dropWhile isspace x) = (neg, s1)" by (cases "strtol_sign (dropWhile isspace x)")
  obtain b s2 where s2: "strtol_base s1 = (b, s2)" by (cases "strtol_base s1")
  let ?ds = "takeWhile (in_base b) s2"
  have "length s2 \<le> length s1" "b \<le> 16" using strtol_parts(2,3) [of s1] s2 by simp_all
  moreover have "length s1 \<le> length (dropWhile isspace x)" using strtol_parts(1) [of "dropWhile isspace x"] s1 by simp
  moreover have "length ?ds \<le> length s2" by (rule length_takeWhile_le)
  ultimately have "length ?ds \<le> 9" using assms(2) length_dropWhile_le [of isspace x] by linarith
  moreover have "0 \<le> base_value b ?ds \<and> base_value b ?ds < 16 ^ length ?ds"
    using base_value_less \<open>b \<le> 16\<close> by (metis set_takeWhileD)
  moreover have "(16::int) ^ length ?ds \<le> 16 ^ 9" using \<open>length ?ds \<le> 9\<close> by (intro power_increasing) simp_all
  ultimately have "0 \<le> base_value b ?ds" "base_value b ?ds < 16 ^ 9" by simp_all
  then have "LONG_MIN < - base_value b ?ds" "base_value b ?ds \<le> LONG_MAX" by (simp_all add: LONG_MIN_def LONG_MAX_def)
  moreover have "v = 0 \<or> v = base_value b ?ds \<or> v = - base_value b ?ds"
    using assms(1) s1 s2 by (auto simp: Strtol_def strtol0_def Let_def split: if_splits option.splits prod.splits)
  ultimately show ?thesis using \<open>0 \<le> base_value b ?ds\<close> by (auto simp: LONG_MIN_def LONG_MAX_def)
qed

text \<open>A key or an element comes back in canonical form when it was written as a number or compressed.\<close>

definition rdb_form :: "lzf_tables \<Rightarrow> QString \<Rightarrow> QString" where
  "rdb_form htab x =
     (if length x < 10 \<or> 20 \<le> length x \<and> lzf_compress (htab x) x (length x - 4) \<noteq> [] then canon x else x)"

lemma LoadString_exact: "LoadString (length x) (x @ rest) = Loaded x rest"
  by (cases "x @ rest = []") (auto simp: LoadString_def mem_Peek_def mem_Skip_def)


lemma LoadLength_special: "i < 64 \<Longrightarrow> LoadLength (char_of (192 + i) # rest) = Loaded (True, i) rest"
proof -
  assume "i < 64"
  then have "code (char_of (192 + i)) = 192 + i" by simp
  moreover have "192 + i = i + 3 * 64" by simp
  then have "(192 + i) div 64 = 3 + i div 64" "(192 + i) mod 64 = i mod 64"
    by (simp_all only: div_mult_self1 mod_mult_self1 zero_neq_numeral not_False_eq_True)
  ultimately show ?thesis using \<open>i < 64\<close> by (simp add: LoadLength_def mem_Read_one del: code_char_of)
qed

lemma LoadSpecial_int:
  assumes "0 \<le> v" "v < 2 ^ 31"
  shows "\<exists>i b. SaveString_int v = Some (char_of (192 + i) # b) \<and> i < 64 \<and>
    (\<forall>rest. LoadSpecialStringObject i (b @ rest) = Loaded (CreateString_long v) rest)"
proof -
  consider "v < 2 ^ 7" | "2 ^ 7 \<le> v" "v < 2 ^ 15" | "2 ^ 15 \<le> v" by linarith
  then show ?thesis
  proof cases
    case 1
    then have "mem_Read 1 (le_bytes 1 (nat v) @ rest) = Loaded (nat v) rest" for rest
      by (subst mem_Read_bytes [OF length_le_bytes]) (simp only: le_value_bytes, simp)
    with 1 assms show ?thesis
      by (intro exI [of _ 0] exI [of _ "le_bytes 1 (nat v)"]) (simp add: SaveString_int_def LoadSpecialStringObject_def del: le_bytes.simps)
  next
    case 2
    then have "nat v mod 256 ^ 2 = nat v" by (intro mod_less) simp
    with 2 assms show ?thesis
      by (intro exI [of _ 1] exI [of _ "le_bytes 2 (nat v)"]) (simp add: SaveString_int_def LoadSpecialStringObject_def mem_Read_bytes)
  next
    case 3
    then have "nat v mod 256 ^ 4 = nat v" using assms(2) by (intro mod_less) simp
    with 3 assms show ?thesis
      by (intro exI [of _ 2] exI [of _ "le_bytes 4 (nat v)"]) (simp add: SaveString_int_def LoadSpecialStringObject_def mem_Read_bytes)
  qed
qed

text \<open>What the two readers of a string make of the bytes of \<open>x\<close>.\<close>

definition reads_string :: "string \<Rightarrow> QString \<Rightarrow> QString \<Rightarrow> bool" where
  "reads_string b x y \<longleftrightarrow>
     (\<forall>L rest. LoadGenericString (b @ rest) = Loaded y rest \<and> LoadObject L 0 (b @ rest) = Loaded (CreateString x) rest)"

lemma reads_special:
  assumes "i < 64" "\<And>rest. LoadSpecialStringObject i (b @ rest) = Loaded (CreateString x) rest"
  shows "reads_string (char_of (192 + i) # b) x (canon x)"
  using assms(2) by (simp add: reads_string_def LoadGenericString_def LoadObject_def LoadLength_special [OF assms(1)] decoded_def)

lemma reads_plain:
  assumes "SaveLength (length y) = Some b" "CreateString y = CreateString x"
  shows "reads_string (b @ y) x y"
  by (simp add: reads_string_def LoadGenericString_def LoadObject_def LoadLength_Save [OF assms(1)] LoadString_exact assms(2))

lemma SaveString_int_reads:
  assumes "Strtol x = Some v" "length x < 10"
  shows "\<exists>b. SaveString_int v = Some b \<and> reads_string b x (canon x)"
proof (cases "0 \<le> v \<and> v < 2 ^ 31")
  case True
  then obtain i b where "SaveString_int v = Some (char_of (192 + i) # b)" "i < 64"
    "\<And>rest. LoadSpecialStringObject i (b @ rest) = Loaded (CreateString_long v) rest" using LoadSpecial_int by blast
  moreover have "CreateString_long v = CreateString x" using assms(1) by (simp add: CreateString_def CreateString_long_def)
  ultimately show ?thesis using reads_special by metis
next
  case False
  note v = Strtol_small [OF assms]
  then have c: "Number2Str 64 v = canon x" "length (canon x) \<le> 20"
    using length_show_int(1) [of v] assms(1) by (simp_all add: canon_def Number2Str_show_int)
  moreover have "SaveString_int v = map_option (\<lambda>l. l @ canon x) (SaveLength (length (canon x)))"
    using False c(1) by (auto simp: SaveString_int_def Let_def)
  moreover have "CreateString (canon x) = CreateString x" using v assms(1) by (simp add: CreateString_def canon_def)
  moreover obtain b where "SaveLength (length (canon x)) = Some b" using SaveLength_some c(2) by fastforce
  ultimately show ?thesis using reads_plain by auto
qed

lemma lzf_saved_reads:
  assumes "lzf_compress t x (length x - 4) = z" "z \<noteq> []" "SaveLength (length z) = Some c" "SaveLength (length x) = Some r"
  shows "reads_string (char_of (195::nat) # c @ r @ z) x (canon x)"
proof -
  have "LoadSpecialStringObject 3 ((c @ r @ z) @ rest) = Loaded (CreateString x) rest" for rest
  proof -
    have "mem_Peek (length z) (z @ rest) = (Some z, length z)" "mem_Skip (length z) (z @ rest) = Loaded () rest"
      using assms(2) by (simp_all add: mem_Peek_def mem_Skip_def)
    moreover have "lzf_decompress z (length x) = Some x" using lzf_decompress_compress [of t x "length x - 4"] assms(1,2) by simp
    ultimately show ?thesis
      by (simp add: LoadSpecialStringObject_def LoadLZFString_def LoadLength_Save [OF assms(3)] LoadLength_Save [OF assms(4)])
  qed
  then show ?thesis using reads_special [of 3 "c @ r @ z" x] by simp
qed

lemma SaveString_reads:
  assumes "length x < 2 ^ 32"
  shows "\<exists>b. SaveString htab x = Some b \<and> reads_string b x (rdb_form htab x)"
proof (cases "length x < 10 \<and> Strtol x \<noteq> None")
  case True
  then obtain v where "Strtol x = Some v" "length x < 10" by auto
  then show ?thesis using SaveString_int_reads by (simp add: SaveString_def rdb_form_def)
next
  case False
  let ?z = "lzf_compress (htab x) x (length x - 4)"
  obtain r where r: "SaveLength (length x) = Some r" using SaveLength_some [OF assms] by blast
  have save: "SaveString htab x = Option.bind (SaveLZFString htab x) (\<lambda>(saved, bytes). if saved then Some bytes else Some (r @ x))"
    using False r by (auto simp: SaveString_def intro!: bind_option_cong)
  show ?thesis
  proof (cases "20 \<le> length x \<and> ?z \<noteq> []")
    case True
    have "length ?z < 2 ^ 32" using lzf_compress_fits [of "htab x" x "length x - 4"] assms by linarith
    then obtain c where c: "SaveLength (length ?z) = Some c" using SaveLength_some by blast
    have "SaveString htab x = Some (char_of (195::nat) # c @ r @ ?z)"
      using True c r by (simp add: save SaveLZFString_def Let_def)
    then show ?thesis using lzf_saved_reads [OF refl _ c r] True by (simp add: rdb_form_def)
  next
    case plain: False
    then have "SaveString htab x = Some (r @ x)" by (auto simp: save SaveLZFString_def Let_def)
    moreover have "rdb_form htab x = x" using plain False by (auto simp: rdb_form_def canon_def)
    ultimately show ?thesis using reads_plain [OF r refl] by simp
  qed
qed

definition rdb_string :: "lzf_tables \<Rightarrow> QString \<Rightarrow> string" where
  "rdb_string htab x = the (SaveString htab x)"

definition rdb_fits :: "QString \<Rightarrow> string \<Rightarrow> bool" where
  "rdb_fits x rest \<longleftrightarrow> length x < 2 ^ 32"

interpretation rdb_strings: byte_codec "rdb_string htab" LoadGenericString "rdb_form htab" rdb_fits for htab
proof (unfold_locales, goal_cases)
  case (1 x rest)
  then obtain b where "SaveString htab x = Some b" "reads_string b x (rdb_form htab x)"
    using SaveString_reads by (auto simp: rdb_fits_def)
  then show ?case by (simp add: rdb_string_def reads_string_def)
qed


subsection \<open>Collections\<close>

text \<open>The score that comes back.\<close>

definition rdb_double :: "(double \<Rightarrow> string) \<Rightarrow> (string \<Rightarrow> double) \<Rightarrow> double \<Rightarrow> double" where
  "rdb_double fmt stream d = (if dbl_inf d then 0x7FF0000000000000 else stream (fmt d))"

definition rdb_score :: "(double \<Rightarrow> string) \<Rightarrow> (string \<Rightarrow> double) \<Rightarrow> double \<Rightarrow> double" where
  "rdb_score fmt stream d = long_to_dbl (dbl_to_long (rdb_double fmt stream d))"

definition double_fits :: "(double \<Rightarrow> string) \<Rightarrow> double \<Rightarrow> string \<Rightarrow> bool" where
  "double_fits fmt d rest \<longleftrightarrow> \<not> dbl_nan d \<and> length (fmt d) < 253"

interpretation rdb_doubles: byte_codec "SaveDoubleValue fmt" "LoadDoubleValue stream" "rdb_double fmt stream" "double_fits fmt"
  for fmt stream
proof (unfold_locales, goal_cases)
  case (1 d rest)
  then have d: "\<not> dbl_nan d" "length (fmt d) < 253" by (simp_all add: double_fits_def)
  show ?case
  proof (cases "dbl_inf d")
    case True
    then show ?thesis using d by (simp add: SaveDoubleValue_def LoadDoubleValue_def rdb_double_def mem_Read_one)
  next
    case False
    have "mem_Peek (length (fmt d)) (fmt d @ rest) = (if fmt d @ rest = [] then None else Some (fmt d), length (fmt d))"
      "mem_Skip (length (fmt d)) (fmt d @ rest) = Loaded () rest"
      by (simp_all add: mem_Peek_def mem_Skip_def)
    moreover have "code (char_of (length (fmt d))) = length (fmt d)" using d(2) by simp
    ultimately show ?thesis using d False
      by (auto simp: SaveDoubleValue_def LoadDoubleValue_def rdb_double_def mem_Read_one simp del: code_char_of)
  qed
qed

interpretation rdb_pairs: two_codecs "rdb_string htab" LoadGenericString "rdb_form htab" rdb_fits
    "rdb_string htab" LoadGenericString "rdb_form htab" rdb_fits for htab
  by unfold_locales

interpretation rdb_scored: two_codecs "rdb_string htab" LoadGenericString "rdb_form htab" rdb_fits
    "SaveDoubleValue fmt" "LoadDoubleValue stream" "rdb_double fmt stream" "double_fits fmt" for htab fmt stream
  by unfold_locales

lemma save_all_some: "(\<And>x. x \<in> set xs \<Longrightarrow> f x = Some (g x)) \<Longrightarrow> save_all f xs = Some (concat (map g xs))"
  by (induction xs) simp_all

lemma all_fit_all: "(\<And>x rest. x \<in> set xs \<Longrightarrow> fits x rest) \<Longrightarrow> all_fit enc fits xs rest"
  by (induction xs) simp_all

lemma SaveString_some: "length x < 2 ^ 32 \<Longrightarrow> SaveString htab x = Some (rdb_string htab x)"
  using SaveString_reads [of x htab] by (auto simp: rdb_string_def)

lemma add_all_insert:
  "distinct acc \<Longrightarrow> \<exists>l. add_all (\<lambda>e set. Some (snd (set_insert e set))) xs acc = Some l \<and> distinct l \<and> set l = set acc \<union> set xs"
proof (induction xs arbitrary: acc)
  case (Cons x xs)
  then have "distinct (snd (set_insert x acc))" by (simp add: set_insert_def)
  from Cons.IH [OF this] show ?case by (auto simp: set_insert_def)
qed simp

lemma add_all_first:
  "keys_distinct acc \<Longrightarrow> \<exists>h. add_all hash_insert xs acc = Some h \<and> keys_distinct h \<and> map_of h = map_of (acc @ xs)"
proof (induction xs arbitrary: acc)
  case (Cons x xs)
  let ?acc = "if map_of acc (fst x) = None then acc @ [x] else acc"
  have "keys_distinct ?acc" using Cons.prems by (auto simp: keys_distinct_def map_of_eq_None_iff)
  from Cons.IH [OF this] obtain h where h: "add_all hash_insert xs ?acc = Some h" "keys_distinct h" "map_of h = map_of (?acc @ xs)" by blast
  have "map_of (?acc @ xs) = map_of (acc @ x # xs)" by (cases x) (auto simp: fun_eq_iff map_add_def split: option.splits)
  then have "map_of h = map_of (acc @ x # xs)" using h(3) by simp
  moreover have "add_all hash_insert (x # xs) acc = Some h" using h(1) by (simp add: hash_insert_def)
  ultimately show ?case using h(2) by blast
qed simp

subsection \<open>Objects\<close>

text \<open>What a file can hold: members that fall together would stop the loader.\<close>

fun savable :: "(double \<Rightarrow> string) \<Rightarrow> lzf_tables \<Rightarrow> qvalue \<Rightarrow> bool" where
  "savable fmt htab (VRaw x) \<longleftrightarrow> length x < 2 ^ 32"
| "savable fmt htab (VList l) \<longleftrightarrow> length l < 2 ^ 32 \<and> list_all (\<lambda>x. length x < 2 ^ 32) l"
| "savable fmt htab (VSet l) \<longleftrightarrow> length l < 2 ^ 32 \<and> list_all (\<lambda>x. length x < 2 ^ 32) l"
| "savable fmt htab (VHash h) \<longleftrightarrow> length h < 2 ^ 32 \<and> list_all (\<lambda>(x, y). length x < 2 ^ 32 \<and> length y < 2 ^ 32) h"
| "savable fmt htab (VSSet z) \<longleftrightarrow> zSize z < 2 ^ 32 \<and> distinct (map (rdb_form htab \<circ> fst) (zmembers z)) \<and>
     list_all (\<lambda>(m, d). length m < 2 ^ 32 \<and> \<not> dbl_nan d \<and> length (fmt d) < 253) (zmembers z)"
| "savable fmt htab _ \<longleftrightarrow> True"

text \<open>What comes back of a value.\<close>

fun rdb_value :: "(double \<Rightarrow> string) \<Rightarrow> lzf_tables \<Rightarrow> (string \<Rightarrow> double) \<Rightarrow> qvalue \<Rightarrow> qvalue \<Rightarrow> bool" where
  "rdb_value fmt htab stream (VRaw x) w \<longleftrightarrow> w = oval (CreateString x)"
| "rdb_value fmt htab stream (VInt n) w \<longleftrightarrow> w = VInt n"
| "rdb_value fmt htab stream (VList l) w \<longleftrightarrow> w = VList (map (rdb_form htab) l)"
| "rdb_value fmt htab stream (VSet l) w \<longleftrightarrow> (\<exists>l'. w = VSet l' \<and> set l' = rdb_form htab ` set l)"
| "rdb_value fmt htab stream (VHash h) w \<longleftrightarrow>
     (\<exists>h'. w = VHash h' \<and> map_of h' = map_of (map (map_prod (rdb_form htab) (rdb_form htab)) h))"
| "rdb_value fmt htab stream (VSSet z) w \<longleftrightarrow>
     (\<exists>z'. w = VSSet z' \<and> map_of (zmembers z') = map_of (map (map_prod (rdb_form htab) (rdb_score fmt stream)) (zmembers z)))"
| "rdb_value fmt htab stream VNull w \<longleftrightarrow> False"

text \<open>The type byte and the bytes of an object, and what they are read as.\<close>

definition object_reads :: "(double \<Rightarrow> string) \<Rightarrow> lzf_tables \<Rightarrow> rdb_libs \<Rightarrow> qobject \<Rightarrow> nat \<Rightarrow> string \<Rightarrow> qobject \<Rightarrow> bool" where
  "object_reads fmt htab L ob t b ob' \<longleftrightarrow>
     SaveType (encoding ob) = Some t \<and> SaveObject_rdb fmt htab ob = Some b \<and> value_type t \<and>
     (\<forall>rest. LoadObject L t (b @ rest) = Loaded ob' rest) \<and> obj_ok ob' \<and> rdb_value fmt htab (rdb_stream L) (oval ob) (oval ob')"

lemma string_reads:
  assumes "obj_ok ob" "sval (oval ob) = Some x" "length x < 2 ^ 32" "\<And>w. rdb_value fmt htab (rdb_stream L) (oval ob) w \<longleftrightarrow> w = oval (CreateString x)"
  shows "\<exists>t b ob'. object_reads fmt htab L ob t b ob'"
proof -
  obtain b where b: "SaveString htab x = Some b" "reads_string b x (rdb_form htab x)" using SaveString_reads [OF assms(3)] by blast
  have "encoding ob = QEncode_raw \<or> encoding ob = QEncode_int" using assms(1,2) by (cases "oval ob") (simp_all add: obj_ok_def)
  then have "object_reads fmt htab L ob 0 b (CreateString x)"
    using b assms by (auto simp: object_reads_def SaveObject_rdb_def reads_string_def value_type_def)
  then show ?thesis by blast
qed

lemma list_reads:
  assumes "obj_ok ob" "oval ob = VList l" "savable fmt htab (VList l)"
  shows "\<exists>t b ob'. object_reads fmt htab L ob t b ob'"
proof -
  obtain n where n: "SaveLength (length l) = Some n" using assms(3) SaveLength_some by auto
  have "save_all (SaveString htab) l = Some (concat (map (rdb_string htab) l))"
    using assms(3) by (intro save_all_some SaveString_some) (simp add: list_all_iff)
  moreover have "all_fit (rdb_string htab) rdb_fits l rest" for rest
    using assms(3) by (intro all_fit_all) (simp add: list_all_iff rdb_fits_def)
  note rdb_strings.many [OF this, of "\<lambda>elem list. Some (list @ [elem])" _ "[]"]
  ultimately have "object_reads fmt htab L ob 1 (n @ concat (map (rdb_string htab) l)) (Obj_Reset (VList (map (rdb_form htab) l)) CreateList)"
    using assms(1,2) n
    by (simp add: object_reads_def obj_ok_def SaveObject_rdb_def SaveList_def value_type_def LoadObject_def LoadList_def LoadCount_Save [OF n]
        add_all_snoc CreateList_def QObject_new_def Obj_Reset_def)
  then show ?thesis by blast
qed

lemma set_reads:
  assumes "obj_ok ob" "oval ob = VSet l" "savable fmt htab (VSet l)"
  shows "\<exists>t b ob'. object_reads fmt htab L ob t b ob'"
proof -
  obtain n where n: "SaveLength (length l) = Some n" using assms(3) SaveLength_some by auto
  have "save_all (SaveString htab) l = Some (concat (map (rdb_string htab) l))"
    using assms(3) by (intro save_all_some SaveString_some) (simp add: list_all_iff)
  moreover have "all_fit (rdb_string htab) rdb_fits l rest" for rest
    using assms(3) by (intro all_fit_all) (simp add: list_all_iff rdb_fits_def)
  note rdb_strings.many [OF this, of "\<lambda>elem set. Some (snd (set_insert elem set))" _ "[]"]
  moreover obtain l' where l': "add_all (\<lambda>e set. Some (snd (set_insert e set))) (map (rdb_form htab) l) [] = Some l'" "distinct l'"
    "set l' = rdb_form htab ` set l" using add_all_insert [of "[]" "map (rdb_form htab) l"] by auto
  ultimately have "object_reads fmt htab L ob 2 (n @ concat (map (rdb_string htab) l)) (Obj_Reset (VSet l') CreateSet)"
    using assms(1,2) n
    by (simp add: object_reads_def obj_ok_def SaveObject_rdb_def SaveSet_def value_type_def LoadObject_def LoadSet_def LoadCount_Save [OF n]
        CreateSet_def QObject_new_def Obj_Reset_def)
  then show ?thesis by blast
qed

lemma hash_reads:
  assumes "obj_ok ob" "oval ob = VHash h" "savable fmt htab (VHash h)"
  shows "\<exists>t b ob'. object_reads fmt htab L ob t b ob'"
proof -
  let ?form = "map_prod (rdb_form htab) (rdb_form htab)" and ?enc = "enc_pair (rdb_string htab) (rdb_string htab)"
  obtain n where n: "SaveLength (length h) = Some n" using assms(3) SaveLength_some by auto
  have "save_all (save_pair (SaveString htab) (SaveString htab)) h = Some (concat (map ?enc h))"
    using assms(3) by (intro save_all_some) (auto simp: list_all_iff save_pair_def enc_pair_def SaveString_some)
  moreover have "all_fit ?enc (fits_pair (rdb_string htab) rdb_fits rdb_fits) h rest" for rest
    using assms(3) by (intro all_fit_all) (auto simp: list_all_iff rdb_fits_def fits_pair_def)
  note rdb_pairs.pairs.many [OF this, of hash_insert _ "[]"]
  moreover obtain h' where h': "add_all hash_insert (map ?form h) [] = Some h'" "keys_distinct h'" "map_of h' = map_of (map ?form h)"
    using add_all_first [of "[]" "map ?form h"] by (auto simp: keys_distinct_def)
  ultimately have "object_reads fmt htab L ob 4 (n @ concat (map ?enc h)) (Obj_Reset (VHash h') CreateHash)"
    using assms(1,2) n
    by (simp add: object_reads_def obj_ok_def SaveObject_rdb_def SaveHash_def value_type_def LoadObject_def LoadHash_def LoadCount_Save [OF n]
        CreateHash_def QObject_new_def Obj_Reset_def)
  then show ?thesis by blast
qed

lemma rdb_score_no_nan: "\<not> dbl_nan (long_to_dbl (dbl_to_long d))"
  using dbl_to_long_range [of d] by (intro long_to_dbl_no_nan) simp_all

lemma sset_reads:
  assumes "obj_ok ob" "oval ob = VSSet z" "savable fmt htab (VSSet z)"
  shows "\<exists>t b ob'. object_reads fmt htab L ob t b ob'"
proof -
  let ?form = "map_prod (rdb_form htab) (rdb_double fmt (rdb_stream L))" and ?enc = "enc_pair (rdb_string htab) (SaveDoubleValue fmt)"
  let ?cut = "\<lambda>d. long_to_dbl (dbl_to_long d)" and ?none = "\<lparr>zscores = [], zmembers = []\<rparr>"
  obtain n where n: "SaveLength (zSize z) = Some n" using assms(3) SaveLength_some by auto
  have "save_all (save_pair (SaveString htab) (Some \<circ> SaveDoubleValue fmt)) (zmembers z) = Some (concat (map ?enc (zmembers z)))"
    using assms(3) by (intro save_all_some) (auto simp: list_all_iff save_pair_def enc_pair_def SaveString_some)
  moreover have "all_fit ?enc (fits_pair (SaveDoubleValue fmt) rdb_fits (double_fits fmt)) (zmembers z) rest" for rest
    using assms(3) by (intro all_fit_all) (auto simp: list_all_iff rdb_fits_def double_fits_def fits_pair_def)
  note rdb_scored.pairs.many [OF this, of "rdb_stream L" "\<lambda>(m, d). AddMember m (?cut d)" _ ?none]
  moreover have "distinct (map fst (map ?form (zmembers z)))" using assms(3) by (simp add: comp_def)
  then obtain z' where z': "add_all (\<lambda>(m, d). AddMember m (?cut d)) (map ?form (zmembers z)) ?none = Some z'" "zset_ok z'"
    "map_of (zmembers z') = map_of (map (apsnd ?cut) (map ?form (zmembers z)))"
    using add_all_members [OF zset_ok_empty, of "map ?form (zmembers z)" ?cut] rdb_score_no_nan by auto
  moreover have "map (apsnd ?cut) (map ?form (zmembers z)) = map (map_prod (rdb_form htab) (rdb_score fmt (rdb_stream L))) (zmembers z)"
    by (auto simp: rdb_score_def)
  then have "map_of (zmembers z') = map_of (map (map_prod (rdb_form htab) (rdb_score fmt (rdb_stream L))) (zmembers z))"
    using z'(3) by (simp only:)
  ultimately have "object_reads fmt htab L ob 3 (n @ concat (map ?enc (zmembers z))) (Obj_Reset (VSSet z') CreateSSet)"
    using assms(1,2) n
    by (simp add: object_reads_def obj_ok_def SaveObject_rdb_def SaveSSet_def value_type_def LoadObject_def LoadSSet_def LoadCount_Save [OF n]
        CreateSSet_def QObject_new_def Obj_Reset_def zSize_def)
  then show ?thesis by blast
qed

lemma object_saved_reads:
  assumes "obj_ok ob" "savable fmt htab (oval ob)"
  shows "\<exists>t b ob'. object_reads fmt htab L ob t b ob'"
proof (cases "oval ob")
  case VNull
  then show ?thesis using assms(1) by (simp add: obj_ok_def)
next
  case (VRaw x)
  then show ?thesis using assms by (intro string_reads) auto
next
  case (VInt v)
  then have "LONG_MIN \<le> v" "v \<le> LONG_MAX" using assms(1) by (simp_all add: obj_ok_def)
  then show ?thesis using VInt assms(1) show_int_short [of v] by (intro string_reads) (auto simp: CreateString_def)
qed (use assms list_reads set_reads hash_reads sset_reads in auto)

subsection \<open>Keys\<close>

lemma LoadByte_Cons [bytes_simps]: "LoadByte (c # mem) = Loaded (code c) mem"
  by (simp add: LoadByte_def mem_Read_one)

definition deadline_bytes :: "u64 option \<Rightarrow> string" where
  "deadline_bytes due = (case due of None \<Rightarrow> [] | Some w \<Rightarrow> char_of (0xFC::nat) # int64_bytes (uint w))"

definition in_future :: "u64 \<Rightarrow> u64 option \<Rightarrow> bool" where
  "in_future t due \<longleftrightarrow> (\<forall>w. due = Some w \<longrightarrow> t < w \<and> w < 2 ^ 63)"

lemma uint_small:
  fixes w :: u64
  assumes "w < 2 ^ 63"
  shows "uint w < 2 ^ 63" "sint w = uint w" "wrap64 (uint w) = uint w" "LONG_MIN \<le> uint w" "uint w \<le> LONG_MAX"
proof -
  show u: "uint w < 2 ^ 63" using assms by (simp add: word_less_def)
  have "0 \<le> uint w" by simp
  with u show r: "LONG_MIN \<le> uint w" "uint w \<le> LONG_MAX" unfolding LONG_MIN_def LONG_MAX_def by linarith+
  then show "wrap64 (uint w) = uint w" by (rule wrap64_id)
  show "sint w = uint w" using u using signed_take_bit_int_eq_self [of 63 "uint w"] uint_ge_0 [of w] by (simp add: sint_uint)
qed

lemma load_deadline:
  assumes "w < 2 ^ 63"
  shows "Load_loop L s (deadline_bytes (Some w) @ rest) 0 = Load_loop L s rest (uint w)"
proof -
  have "mem_Read 8 (int64_bytes (uint w) @ rest) = Loaded (le_value (int64_bytes (uint w))) rest"
    by (simp add: mem_Read_bytes)
  moreover have "wrap64 (int (le_value (int64_bytes (uint w)))) = uint w"
    using int64_value_bytes [of "uint w"] uint_small [OF assms] by (simp add: int64_value_def)
  ultimately have "Load_step L s (deadline_bytes (Some w) @ rest) 0 = Next s rest (uint w)"
    by (simp add: Load_step_def deadline_bytes_def LoadByte_Cons)
  then show ?thesis by (simp add: Load_loop.simps [of L s "deadline_bytes (Some w) @ rest"])
qed

lemma load_key_value_step:
  assumes "value_type t" "object_reads fmt htab L ob t b ob'" "length k < 2 ^ 32"
  shows "Load_step L s (char_of t # rdb_string htab k @ b @ rest) T =
    (if T < 0 then Return (- 557) s
     else if T = 0 then Next (snd (SetValue (rdb_form htab k) ob' s)) rest 0
     else if sint (now s) < T then Next (SetExpire (rdb_form htab k) (word_of_int T) (snd (SetValue (rdb_form htab k) ob' s))) rest 0
     else Next s rest 0)"
proof -
  have t: "t < 15" "code (char_of t) = t" using assms(1) by (auto simp: value_type_def)
  have "LoadKey (rdb_string htab k @ b @ rest) = Loaded (rdb_form htab k) (b @ rest)"
    using rdb_strings.decodes [of k "b @ rest" htab] assms(3) by (simp add: LoadKey_def rdb_fits_def)
  moreover have "LoadObject L t (b @ rest) = Loaded ob' rest" "otype ob' \<noteq> QType_invalid"
    using assms(2) by (cases "oval ob'"; simp add: object_reads_def obj_ok_def)+
  ultimately have "load_key_value L t s (rdb_string htab k @ b @ rest) T =
    (if T < 0 then Return (- 557) s
     else if T = 0 then Next (snd (SetValue (rdb_form htab k) ob' s)) rest 0
     else if sint (now s) < T then Next (SetExpire (rdb_form htab k) (word_of_int T) (snd (SetValue (rdb_form htab k) ob' s))) rest 0
     else Next s rest 0)" by (simp add: load_key_value_def)
  then show ?thesis using t assms(1) by (simp add: Load_step_def LoadByte_Cons del: code_char_of)
qed

text \<open>One key enters the selected database.\<close>

definition enters :: "QString \<Rightarrow> qvalue \<Rightarrow> u64 option \<Rightarrow> server \<Rightarrow> server \<Rightarrow> bool" where
  "enters k v due s s' \<longleftrightarrow>
     store_ok s' \<and> frame s s' \<and> vis s' = (vis s)(k \<mapsto> v) \<and> deadline s' = (deadline s)(k := due)"

lemma load_entry:
  assumes "store_ok s" "now s < 2 ^ 63" "deadline s (rdb_form htab k) = None" "length k < 2 ^ 32"
    and "object_reads fmt htab L ob t b ob'" "in_future (now s) due"
  shows "\<exists>s'. Load_loop L s (deadline_bytes due @ char_of t # rdb_string htab k @ b @ rest) 0 = Load_loop L s' rest 0 \<and>
    enters (rdb_form htab k) (oval ob') due s s'"
proof -
  let ?k = "rdb_form htab k" and ?mem = "char_of t # rdb_string htab k @ b @ rest"
  let ?s1 = "snd (SetValue ?k ob' s)"
  have o: "obj_ok ob'" "value_type t" using assms(5) by (simp_all add: object_reads_def)
  note step = load_key_value_step [OF o(2) assms(5,4)]
  have x: "\<not> is_expired s ?k" using assms(3) by (simp add: is_expired_def deadline_def)
  note s1 = set_step [OF assms(1) o(1), of ?k]
  have e1: "enters ?k (oval ob') None s ?s1"
    using s1(1,2) s1(3) [OF x] assms(1,3) by (auto simp: enters_def fun_eq_iff)
  show ?thesis
  proof (cases due)
    case None
    then show ?thesis using e1 step [of s rest 0] by (auto simp: deadline_bytes_def Load_loop.simps [of L s ?mem])
  next
    case (Some w)
    then have w: "now s < w" "w < 2 ^ 63" using assms(6) by (simp_all add: in_future_def)
    let ?s2 = "SetExpire ?k w ?s1"
    have "uint (now s) < uint w" using w(1) by (simp add: word_less_def)
    moreover from this have "0 < uint w" using uint_ge_0 [of "now s"] by linarith
    ultimately have "0 < uint w" "sint (now s) < uint w" using uint_small(2) [OF assms(2)] by simp_all
    then have "Load_loop L s ?mem (uint w) = Load_loop L ?s2 rest 0"
      using step [of s rest "uint w"] by (simp add: Load_loop.simps [of L s ?mem])
    then have "Load_loop L s (deadline_bytes due @ ?mem) 0 = Load_loop L ?s2 rest 0"
      using load_deadline [OF w(2), of L s ?mem] Some by simp
    moreover have "\<not> is_expired ?s1 ?k" using e1 by (simp add: enters_def is_expired_def deadline_def)
    then have "enters ?k (oval ob') due s ?s2"
      using SetExpire_step [of ?s1 ?k w] e1 w(1) Some frame_fields(2) [OF s1(2)] frame_trans [OF s1(2)] s1(1)
      by (auto simp: enters_def)
    ultimately show ?thesis by blast
  qed
qed


text \<open>All keys of one database: what the saver wrote makes the loader enter each.\<close>

definition key_savable :: "(double \<Rightarrow> string) \<Rightarrow> lzf_tables \<Rightarrow> QString \<times> qobject \<Rightarrow> bool" where
  "key_savable fmt htab e \<longleftrightarrow> length (fst e) < 2 ^ 32 \<and> obj_ok (snd e) \<and> savable fmt htab (oval (snd e))"

definition entered :: "(double \<Rightarrow> string) \<Rightarrow> lzf_tables \<Rightarrow> rdb_libs \<Rightarrow> (QString \<times> qobject) list \<Rightarrow> (QString \<Rightarrow> u64 option) \<Rightarrow>
    server \<Rightarrow> server \<Rightarrow> bool" where
  "entered fmt htab L kvs due s s' \<longleftrightarrow>
     store_ok s' \<and> frame s s' \<and>
     (\<forall>(k, ob) \<in> set kvs. (\<exists>v. vis s' (rdb_form htab k) = Some v \<and> rdb_value fmt htab (rdb_stream L) (oval ob) v) \<and>
        deadline s' (rdb_form htab k) = due k) \<and>
     (\<forall>j. j \<notin> rdb_form htab ` fst ` set kvs \<longrightarrow> vis s' j = vis s j \<and> deadline s' j = deadline s j)"

lemma saved_ttl:
  assumes "store_ok s" "map_of (cur_db s) k \<noteq> None" "in_future t (map_of (cur_exp s) k)"
  obtains ttl where "TTL k t s = (ttl, s)" "ttl \<noteq> expired"
    "(if 0 < ttl then char_of (0xFC::nat) # int64_bytes (wrap64 (ttl + uint t)) else []) = deadline_bytes (map_of (cur_exp s) k)"
proof (cases "map_of (cur_exp s) k")
  case None
  then have "TTL k t s = (persist, s)" using assms(2) store_ok_current(5) [OF assms(1)]
    by (auto simp: TTL_def ExistsKey_def GetObject_memory ExpireIfNeed_def)
  then show ?thesis using that None by (simp add: persist_def expired_def deadline_bytes_def)
next
  case (Some w)
  then have w: "t < w" "w < 2 ^ 63" using assms(3) by (simp_all add: in_future_def)
  then have "w - t \<le> w" by (simp add: word_le_nat_alt unat_sub_if_size word_less_nat_alt)
  then have b: "w - t < 2 ^ 63" using w(2) by simp
  note s = sint_ahead(1) [OF w(1) b]
  have "sint (w - t) = uint w - uint t"
    using uint_small(2) [OF b] uint_sub_lem [of t w] w(1) by (simp add: word_less_def)
  then have "wrap64 (sint (w - t) + uint t) = uint w" using uint_small(3) [OF w(2)] by simp
  moreover have "TTL k t s = (sint (w - t), s)" using assms(2) Some w store_ok_current(5) [OF assms(1)]
    by (auto simp: TTL_def ExistsKey_def GetObject_memory ExpireIfNeed_def expired_def persist_def notExpire_def)
  ultimately show ?thesis using that Some s by (simp add: deadline_bytes_def expired_def)
qed

lemma load_keys:
  assumes "store_ok s" "\<forall>e \<in> set kvs. key_savable fmt htab e \<and> map_of (cur_db s) (fst e) \<noteq> None \<and> in_future t (map_of (cur_exp s) (fst e))"
  shows "\<exists>bytes. Save_keys fmt htab t kvs s = Some bytes \<and>
    (\<forall>s0 rest. store_ok s0 \<longrightarrow> now s0 < 2 ^ 63 \<longrightarrow> distinct (map (rdb_form htab \<circ> fst) kvs) \<longrightarrow>
       (\<forall>e \<in> set kvs. deadline s0 (rdb_form htab (fst e)) = None \<and> in_future (now s0) (map_of (cur_exp s) (fst e))) \<longrightarrow>
       (\<exists>s'. Load_loop L s0 (bytes @ rest) 0 = Load_loop L s' rest 0 \<and> entered fmt htab L kvs (map_of (cur_exp s)) s0 s'))"
  using assms(2)
proof (induction kvs)
  case Nil
  then show ?case by (auto simp: entered_def)
next
  case (Cons e kvs)
  obtain k ob where e: "e = (k, ob)" by (cases e)
  let ?due = "map_of (cur_exp s)" and ?form = "rdb_form htab"
  have k: "length k < 2 ^ 32" "obj_ok ob" "savable fmt htab (oval ob)" "map_of (cur_db s) k \<noteq> None" "in_future t (?due k)"
    using Cons.prems e by (simp_all add: key_savable_def)
  obtain ty b ob' where r: "object_reads fmt htab L ob ty b ob'" using object_saved_reads [OF k(2,3)] by blast
  have "\<forall>e \<in> set kvs. key_savable fmt htab e \<and> map_of (cur_db s) (fst e) \<noteq> None \<and> in_future t (?due (fst e))"
    using Cons.prems by simp
  from Cons.IH [OF this] obtain bytes where bytes: "Save_keys fmt htab t kvs s = Some bytes"
    "\<forall>s0 rest. store_ok s0 \<longrightarrow> now s0 < 2 ^ 63 \<longrightarrow> distinct (map (?form \<circ> fst) kvs) \<longrightarrow>
       (\<forall>e \<in> set kvs. deadline s0 (?form (fst e)) = None \<and> in_future (now s0) (?due (fst e))) \<longrightarrow>
       (\<exists>s'. Load_loop L s0 (bytes @ rest) 0 = Load_loop L s' rest 0 \<and> entered fmt htab L kvs ?due s0 s')"
    by blast
  let ?entry = "char_of ty # rdb_string htab k @ b"
  obtain ttl where "TTL k t s = (ttl, s)" "ttl \<noteq> expired"
    "(if 0 < ttl then char_of (0xFC::nat) # int64_bytes (wrap64 (ttl + uint t)) else []) = deadline_bytes (?due k)"
    by (rule saved_ttl [OF assms(1) k(4,5)])
  moreover have "save_entry fmt htab k ob = Some ?entry"
    using r k(1) by (simp add: save_entry_def object_reads_def SaveKey_def SaveString_some)
  ultimately have save: "Save_keys fmt htab t (e # kvs) s = Some (deadline_bytes (?due k) @ ?entry @ bytes)"
    using bytes(1) e by simp
  have "\<exists>s'. Load_loop L s0 ((deadline_bytes (?due k) @ ?entry @ bytes) @ rest) 0 = Load_loop L s' rest 0 \<and>
      entered fmt htab L (e # kvs) ?due s0 s'"
    if s0: "store_ok s0" "now s0 < 2 ^ 63" "distinct (map (?form \<circ> fst) (e # kvs))"
      "\<forall>e \<in> set (e # kvs). deadline s0 (?form (fst e)) = None \<and> in_future (now s0) (?due (fst e))" for s0 rest
  proof -
    have "deadline s0 (?form k) = None" "in_future (now s0) (?due k)" using s0(4) e by simp_all
    from load_entry [OF s0(1,2) this(1) k(1) r this(2), of "bytes @ rest"] obtain s1 where
      s1: "Load_loop L s0 (deadline_bytes (?due k) @ ?entry @ bytes @ rest) 0 = Load_loop L s1 (bytes @ rest) 0"
        "enters (?form k) (oval ob') (?due k) s0 s1" by auto
    have new: "?form k \<notin> ?form ` fst ` set kvs" "distinct (map (?form \<circ> fst) kvs)" using s0(3) e by (auto simp: image_comp)
    have now: "now s1 = now s0" "store_ok s1" using s1(2) frame_fields(2) [of s0 s1] by (simp_all add: enters_def)
    have "\<forall>e \<in> set kvs. deadline s1 (?form (fst e)) = None \<and> in_future (now s1) (?due (fst e))"
    proof
      fix e' assume "e' \<in> set kvs"
      moreover from this have "?form (fst e') \<noteq> ?form k" using new(1) by (metis image_eqI)
      ultimately show "deadline s1 (?form (fst e')) = None \<and> in_future (now s1) (?due (fst e'))"
        using s0(4) s1(2) now(1) by (simp add: enters_def)
    qed
    then obtain s' where s': "Load_loop L s1 (bytes @ rest) 0 = Load_loop L s' rest 0" "entered fmt htab L kvs ?due s1 s'"
      using bytes(2) s0(2) now new(2) by metis
    have "entered fmt htab L (e # kvs) ?due s0 s'"
      using s'(2) s1(2) new(1) r e frame_trans [of s0 s1 s'] by (auto simp: entered_def enters_def object_reads_def split: prod.splits)
    then show ?thesis using s1(1) s'(1) by auto
  qed
  then show ?case using save by blast
qed


subsection \<open>Databases\<close>

definition deadline_at :: "nat \<Rightarrow> 'a qstore_scheme \<Rightarrow> QString \<Rightarrow> u64 option" where
  "deadline_at d s = map_of (expiresDb s ! d)"

text \<open>
  A database a file can hold: its keys stay apart in their canonical form, and no deadline has passed at the time \<open>t\<close> when
  it is saved and \<open>t'\<close> when it is loaded.
\<close>

definition db_savable :: "(double \<Rightarrow> string) \<Rightarrow> lzf_tables \<Rightarrow> u64 \<Rightarrow> u64 \<Rightarrow> nat \<Rightarrow> server \<Rightarrow> bool" where
  "db_savable fmt htab t t' d s \<longleftrightarrow>
     distinct (map (rdb_form htab \<circ> fst) (store s ! d)) \<and>
     (\<forall>e \<in> set (store s ! d). key_savable fmt htab e \<and> in_future t (deadline_at d s (fst e)) \<and> in_future t' (deadline_at d s (fst e)))"

definition db_loaded :: "(double \<Rightarrow> string) \<Rightarrow> lzf_tables \<Rightarrow> rdb_libs \<Rightarrow> nat \<Rightarrow> server \<Rightarrow> server \<Rightarrow> bool" where
  "db_loaded fmt htab L d s s' \<longleftrightarrow>
     (\<forall>(k, ob) \<in> set (store s ! d). (\<exists>v. vis_at d s' (rdb_form htab k) = Some v \<and> rdb_value fmt htab (rdb_stream L) (oval ob) v) \<and>
        deadline_at d s' (rdb_form htab k) = deadline_at d s k) \<and>
     (\<forall>j. j \<notin> rdb_form htab ` fst ` set (store s ! d) \<longrightarrow> vis_at d s' j = None \<and> deadline_at d s' j = None)"

definition empty_at :: "nat \<Rightarrow> server \<Rightarrow> bool" where
  "empty_at d s \<longleftrightarrow> vis_at d s = Map.empty \<and> deadline_at d s = Map.empty"

definition same_at :: "nat \<Rightarrow> server \<Rightarrow> server \<Rightarrow> bool" where
  "same_at d s s' \<longleftrightarrow> vis_at d s' = vis_at d s \<and> deadline_at d s' = deadline_at d s"

lemma deadline_at_simps [simp]: "deadline_at d (s\<lparr>dbno := x\<rparr>) = deadline_at d s" "deadline (s\<lparr>dbno := x\<rparr>) = deadline_at x s"
  by (simp_all add: deadline_at_def deadline_def cur_exp_def fun_eq_iff)

lemma same_at_frame: "frame s s' \<Longrightarrow> d \<noteq> dbno s \<Longrightarrow> same_at d s s'"
  using frame_vis_at [of s s' d] frame_fields(13) [of s s' d] by (simp add: same_at_def deadline_at_def)

lemma same_at_dbno [simp]: "same_at d (s\<lparr>dbno := x\<rparr>) s' = same_at d s s'" "same_at d s (s'\<lparr>dbno := x\<rparr>) = same_at d s s'"
  by (simp_all add: same_at_def)

lemma same_at_trans: "same_at d s s' \<Longrightarrow> same_at d s' s'' \<Longrightarrow> same_at d s s''"
  by (simp add: same_at_def)

lemma same_at_moves:
  "same_at d s s' \<Longrightarrow> empty_at d s' = empty_at d s" "same_at d s1 s2 \<Longrightarrow> db_loaded fmt htab L d s s2 = db_loaded fmt htab L d s s1"
  by (simp_all add: same_at_def empty_at_def db_loaded_def)

lemma load_select_db:
  assumes "SaveLength d = Some n" "d < length (store s)" "int d \<le> kMaxDbNum"
  shows "Load_loop L s (char_of (0xFE::nat) # n @ rest) 0 = Load_loop L (s\<lparr>dbno := d\<rparr>) rest 0"
proof -
  have "\<exists>r. SelectDB (int d) s = (r, s\<lparr>dbno := d\<rparr>) \<and> r \<noteq> -1" using assms(2) by (auto simp: SelectDB_def)
  then have "Load_step L s (char_of (0xFE::nat) # n @ rest) 0 = Next (s\<lparr>dbno := d\<rparr>) rest 0"
    using assms(3) by (auto simp: Load_step_def LoadByte_Cons LoadLength_Save [OF assms(1)])
  then show ?thesis by (simp add: Load_loop.simps [of L s "char_of (0xFE::nat) # n @ rest"])
qed

text \<open>One database, which is skipped when it is empty.\<close>

lemma load_db:
  assumes "store_ok s" "dbno s = d" "db_savable fmt htab t t' d s" "int d \<le> kMaxDbNum" "SaveLength d = Some n"
  shows "\<exists>bytes. Save_keys fmt htab t (cur_db s) s = Some bytes \<and>
    (\<forall>s0 rest. store_ok s0 \<longrightarrow> now s0 = t' \<longrightarrow> t' < 2 ^ 63 \<longrightarrow> d < length (store s0) \<longrightarrow> empty_at d s0 \<longrightarrow>
       (\<exists>s'. Load_loop L s0 (char_of (0xFE::nat) # n @ bytes @ rest) 0 = Load_loop L s' rest 0 \<and> store_ok s' \<and> now s' = t' \<and>
          length (store s') = length (store s0) \<and> db_loaded fmt htab L d s s' \<and> (\<forall>i. i \<noteq> d \<longrightarrow> same_at i s0 s')))"
proof -
  have cur: "cur_db s = store s ! d" "map_of (cur_exp s) = deadline_at d s" using assms(2) by (simp_all add: cur_db_def cur_exp_def deadline_at_def)
  have "\<forall>e \<in> set (cur_db s). key_savable fmt htab e \<and> map_of (cur_db s) (fst e) \<noteq> None \<and> in_future t (map_of (cur_exp s) (fst e))"
    using assms(3) cur by (auto simp: db_savable_def map_of_eq_None_iff)
  from load_keys [OF assms(1) this, of L] obtain bytes where b: "Save_keys fmt htab t (cur_db s) s = Some bytes"
    "\<And>s0 rest. store_ok s0 \<Longrightarrow> now s0 < 2 ^ 63 \<Longrightarrow> distinct (map (rdb_form htab \<circ> fst) (cur_db s)) \<Longrightarrow>
       \<forall>e \<in> set (cur_db s). deadline s0 (rdb_form htab (fst e)) = None \<and> in_future (now s0) (map_of (cur_exp s) (fst e)) \<Longrightarrow>
       \<exists>s'. Load_loop L s0 (bytes @ rest) 0 = Load_loop L s' rest 0 \<and> entered fmt htab L (cur_db s) (map_of (cur_exp s)) s0 s'" by metis
  have "\<exists>s'. Load_loop L s0 (char_of (0xFE::nat) # n @ bytes @ rest) 0 = Load_loop L s' rest 0 \<and> store_ok s' \<and> now s' = t' \<and>
      length (store s') = length (store s0) \<and> db_loaded fmt htab L d s s' \<and> (\<forall>i. i \<noteq> d \<longrightarrow> same_at i s0 s')"
    if s0: "store_ok s0" "now s0 = t'" "t' < 2 ^ 63" "d < length (store s0)" "empty_at d s0" for s0 rest
  proof -
    let ?s0 = "s0\<lparr>dbno := d\<rparr>"
    have "store_ok ?s0" using s0(1,4) by (simp add: store_ok_def)
    then obtain s' where s': "Load_loop L ?s0 (bytes @ rest) 0 = Load_loop L s' rest 0"
      "entered fmt htab L (cur_db s) (map_of (cur_exp s)) ?s0 s'"
      using b(2) [of ?s0 rest] s0(2,3,5) assms(3) cur by (auto simp: db_savable_def empty_at_def)
    have f: "frame ?s0 s'" "store_ok s'" using s'(2) by (simp_all add: entered_def)
    have "dbno s' = d" using frame_fields(1) [OF f(1)] by simp
    then have "vis s' = vis_at d s'" "deadline s' = deadline_at d s'" using vis_at_dbno [of s'] by (auto simp: deadline_def deadline_at_def cur_exp_def)
    then have "db_loaded fmt htab L d s s'" using s'(2) s0(5) cur by (auto simp: db_loaded_def entered_def empty_at_def)
    moreover have "\<forall>i. i \<noteq> d \<longrightarrow> same_at i s0 s'" using same_at_frame [OF f(1)] by simp
    ultimately show ?thesis
      using load_select_db [OF assms(5) s0(4) assms(4)] s'(1) f(2) frame_fields(2,10) [OF f(1)] s0(2) by auto
  qed
  then show ?thesis using b(1) by blast
qed


lemma db_savable_dbno [simp]: "db_savable fmt htab t t' d (s\<lparr>dbno := x\<rparr>) = db_savable fmt htab t t' d s"
  "db_loaded fmt htab L d (s\<lparr>dbno := x\<rparr>) = db_loaded fmt htab L d s"
  by (simp_all add: db_savable_def db_loaded_def fun_eq_iff)

lemma empty_db_loaded: "store s ! d = [] \<Longrightarrow> empty_at d s' \<Longrightarrow> db_loaded fmt htab L d s s'"
  by (simp add: db_loaded_def empty_at_def)

lemma load_dbs:
  assumes "store_ok s" "\<forall>i < length (store s). db_savable fmt htab (clock i) t' i s" "int (length (store s)) \<le> kMaxDbNum" "t' < 2 ^ 63"
  shows "\<exists>bytes s2. Save_dbs fmt htab clock d s = Some (bytes, s2) \<and>
    (\<forall>s0 rest. store_ok s0 \<longrightarrow> now s0 = t' \<longrightarrow> length (store s0) = length (store s) \<longrightarrow>
       (\<forall>i. d \<le> i \<longrightarrow> i < length (store s) \<longrightarrow> empty_at i s0) \<longrightarrow>
       (\<exists>s'. Load_loop L s0 (bytes @ rest) 0 = Load_loop L s' rest 0 \<and> store_ok s' \<and>
          (\<forall>i. d \<le> i \<longrightarrow> i < length (store s) \<longrightarrow> db_loaded fmt htab L i s s') \<and> (\<forall>i<d. same_at i s0 s')))"
  using assms(1,2,3)
proof (induction "length (store s) - d" arbitrary: d s)
  case 0
  then have "Save_dbs fmt htab clock d s = Some ([], s)"
    by (subst Save_dbs.simps) (auto simp: SelectDB_def store_ok_def)
  then show ?case using 0 by (auto simp: same_at_def)
next
  case (Suc m)
  let ?s = "s\<lparr>dbno := d\<rparr>" and ?n = "length (store s)"
  have d: "d < ?n" using Suc.hyps(2) by simp
  have sel: "\<exists>r. SelectDB (int d) s = (r, ?s) \<and> r \<noteq> -1" by (auto simp: SelectDB_def d)
  have ok: "store_ok ?s" "m = length (store ?s) - Suc d" "db_savable fmt htab (clock d) t' d ?s" "int d \<le> kMaxDbNum"
    using Suc.prems Suc.hyps(2) d by (simp_all add: store_ok_def)
  have "\<exists>bytes s2. Save_dbs fmt htab clock (Suc d) ?s = Some (bytes, s2) \<and>
    (\<forall>s0 rest. store_ok s0 \<longrightarrow> now s0 = t' \<longrightarrow> length (store s0) = ?n \<longrightarrow>
       (\<forall>i. Suc d \<le> i \<longrightarrow> i < ?n \<longrightarrow> empty_at i s0) \<longrightarrow>
       (\<exists>s'. Load_loop L s0 (bytes @ rest) 0 = Load_loop L s' rest 0 \<and> store_ok s' \<and>
          (\<forall>i. Suc d \<le> i \<longrightarrow> i < ?n \<longrightarrow> db_loaded fmt htab L i s s') \<and> (\<forall>i<Suc d. same_at i s0 s')))"
    using Suc.hyps(1) [OF ok(2,1)] Suc.prems(2,3) by simp
  then obtain bytes s2 where rest: "Save_dbs fmt htab clock (Suc d) ?s = Some (bytes, s2)"
    "\<And>s0 rest. store_ok s0 \<Longrightarrow> now s0 = t' \<Longrightarrow> length (store s0) = ?n \<Longrightarrow> \<forall>i. Suc d \<le> i \<longrightarrow> i < ?n \<longrightarrow> empty_at i s0 \<Longrightarrow>
       \<exists>s'. Load_loop L s0 (bytes @ rest) 0 = Load_loop L s' rest 0 \<and> store_ok s' \<and>
          (\<forall>i. Suc d \<le> i \<longrightarrow> i < ?n \<longrightarrow> db_loaded fmt htab L i s s') \<and> (\<forall>i<Suc d. same_at i s0 s')" by metis
  have le: "(\<forall>i. d \<le> i \<longrightarrow> P i) \<longleftrightarrow> P d \<and> (\<forall>i. Suc d \<le> i \<longrightarrow> P i)" for P by (metis Suc_leD Suc_leI le_neq_implies_less order_refl)
  show ?case
  proof (cases "store s ! d = []")
    case True
    then have "Save_dbs fmt htab clock d s = Some (bytes, s2)"
      using sel rest(1) by (subst Save_dbs.simps) (auto simp: DBSize_def cur_db_def)
    moreover have "\<exists>s'. Load_loop L s0 (bytes @ rest) 0 = Load_loop L s' rest 0 \<and> store_ok s' \<and>
        (\<forall>i. d \<le> i \<longrightarrow> i < ?n \<longrightarrow> db_loaded fmt htab L i s s') \<and> (\<forall>i<d. same_at i s0 s')"
      if s0: "store_ok s0" "now s0 = t'" "length (store s0) = ?n" "\<forall>i. d \<le> i \<longrightarrow> i < ?n \<longrightarrow> empty_at i s0" for s0 rest
    proof -
      have "\<forall>i. Suc d \<le> i \<longrightarrow> i < ?n \<longrightarrow> empty_at i s0" using s0(4) by simp
      from rest(2) [OF s0(1-3) this] obtain s' where s': "Load_loop L s0 (bytes @ rest) 0 = Load_loop L s' rest 0" "store_ok s'"
        "\<forall>i. Suc d \<le> i \<longrightarrow> i < ?n \<longrightarrow> db_loaded fmt htab L i s s'" "\<forall>i<Suc d. same_at i s0 s'" by blast
      have "empty_at d s'" using same_at_moves(1) [of d s0 s'] s'(4) s0(4) d by simp
      then show ?thesis using s' empty_db_loaded [OF True] le [of "\<lambda>i. i < ?n \<longrightarrow> db_loaded fmt htab L i s s'"] by (metis less_Suc_eq)
    qed
    ultimately show ?thesis by blast
  next
    case False
    have "d < 2 ^ 32" using ok(4) by (simp add: kMaxDbNum_def)
    then obtain n where n: "SaveLength d = Some n" using SaveLength_some by blast
    from load_db [OF ok(1) _ ok(3,4) n, of L] obtain b where b: "Save_keys fmt htab (clock d) (cur_db ?s) ?s = Some b"
      "\<And>s0 rest. store_ok s0 \<Longrightarrow> now s0 = t' \<Longrightarrow> t' < 2 ^ 63 \<Longrightarrow> d < length (store s0) \<Longrightarrow> empty_at d s0 \<Longrightarrow>
         \<exists>s'. Load_loop L s0 (char_of (0xFE::nat) # n @ b @ rest) 0 = Load_loop L s' rest 0 \<and> store_ok s' \<and> now s' = t' \<and>
            length (store s') = length (store s0) \<and> db_loaded fmt htab L d s s' \<and> (\<forall>i. i \<noteq> d \<longrightarrow> same_at i s0 s')" by auto
    have "Save_dbs fmt htab clock d s = Some (char_of (0xFE::nat) # n @ b @ bytes, s2)"
      using sel rest(1) False n b(1) by (subst Save_dbs.simps) (auto simp: DBSize_def cur_db_def)
    moreover have "\<exists>s'. Load_loop L s0 ((char_of (0xFE::nat) # n @ b @ bytes) @ rest) 0 = Load_loop L s' rest 0 \<and> store_ok s' \<and>
        (\<forall>i. d \<le> i \<longrightarrow> i < ?n \<longrightarrow> db_loaded fmt htab L i s s') \<and> (\<forall>i<d. same_at i s0 s')"
      if s0: "store_ok s0" "now s0 = t'" "length (store s0) = ?n" "\<forall>i. d \<le> i \<longrightarrow> i < ?n \<longrightarrow> empty_at i s0" for s0 rest
    proof -
      obtain s1 where s1: "Load_loop L s0 (char_of (0xFE::nat) # n @ b @ bytes @ rest) 0 = Load_loop L s1 (bytes @ rest) 0" "store_ok s1"
        "now s1 = t'" "length (store s1) = ?n" "db_loaded fmt htab L d s s1" "\<forall>i. i \<noteq> d \<longrightarrow> same_at i s0 s1"
        using b(2) [OF s0(1,2) assms(4), of "bytes @ rest"] s0(3,4) d by auto
      have "\<forall>i. Suc d \<le> i \<longrightarrow> i < ?n \<longrightarrow> empty_at i s1" using s1(6) s0(4) same_at_moves(1) by fastforce
      from rest(2) [OF s1(2-4) this] obtain s' where s': "Load_loop L s1 (bytes @ rest) 0 = Load_loop L s' rest 0" "store_ok s'"
        "\<forall>i. Suc d \<le> i \<longrightarrow> i < ?n \<longrightarrow> db_loaded fmt htab L i s s'" "\<forall>i<Suc d. same_at i s1 s'" by blast
      have "db_loaded fmt htab L d s s'" using same_at_moves(2) [of d s1 s'] s'(4) s1(5) by simp
      moreover have "\<forall>i<d. same_at i s0 s'" using s1(6) s'(4) same_at_trans by (metis less_Suc_eq less_irrefl)
      ultimately show ?thesis
        using s1(1) s'(1-3) le [of "\<lambda>i. i < ?n \<longrightarrow> db_loaded fmt htab L i s s'"] by auto
    qed
    ultimately show ?thesis by blast
  qed
qed

lemma header_version: "take 4 (drop 5 (''REDIS0006'' @ xs)) = ''0006''" "drop 9 (''REDIS0006'' @ xs) = xs" "Strtol ''0006'' = Some 6"
  by (simp_all add: numeral_eq_Suc) (simp add: Strtol_def strtol0_def strtol_sign_def isspace_def code_def in_base_def base_digit_def base_value_def LONG_MIN_def LONG_MAX_def)

text \<open>The bytes behind the end of the file do not matter.\<close>

lemma rdb_roundtrip_padded:
  assumes "store_ok s" "int (length (store s)) \<le> kMaxDbNum"
    and "\<forall>d < length (store s). db_savable fmt htab (clock d) (now s0) d s"
    and "store_ok s0" "length (store s0) = length (store s)" "\<forall>d < length (store s). empty_at d s0" "now s0 < 2 ^ 63"
  shows "\<exists>content s2 s'. QDB_Save fmt htab clock s = Some (content, s2) \<and> QDB_Load L (content @ pad) s0 = Some (0, s') \<and> store_ok s' \<and>
    (\<forall>d < length (store s). db_loaded fmt htab L d s s')"
proof -
  obtain bytes s2 where w: "Save_dbs fmt htab clock 0 s = Some (bytes, s2)"
    "\<And>rest. \<exists>s'. Load_loop L s0 (bytes @ rest) 0 = Load_loop L s' rest 0 \<and> store_ok s' \<and>
          (\<forall>i < length (store s). db_loaded fmt htab L i s s')"
    using load_dbs [OF assms(1,3,2,7), of 0 L] assms(4-6) by auto
  define crc where "crc = le_bytes 8 (unat (crc64 0 (''REDIS0006'' @ bytes @ [char_of (0xFF::nat)])))"
  have save: "QDB_Save fmt htab clock s = Some (''REDIS0006'' @ bytes @ char_of (0xFF::nat) # crc, s2)"
    using w(1) by (simp add: QDB_Save_def Let_def crc_def)
  obtain s' where s': "Load_loop L s0 (bytes @ char_of (0xFF::nat) # crc @ pad) 0 = Load_loop L s' (char_of (0xFF::nat) # crc @ pad) 0" "store_ok s'"
    "\<forall>i < length (store s). db_loaded fmt htab L i s s'" using w(2) [of "char_of (0xFF::nat) # crc @ pad"] by blast
  have "Load_loop L s' (char_of (0xFF::nat) # crc @ pad) 0 = Some (0, s')"
    by (simp add: Load_loop.simps [of L s'] Load_step_def LoadByte_Cons)
  then have "QDB_Load L (''REDIS0006'' @ bytes @ char_of (0xFF::nat) # crc @ pad) s0 = Some (0, s')"
    using s'(1) header_version by (simp only: QDB_Load_def) simp
  then show ?thesis using save s'(2,3) by (metis append.assoc append_Cons)
qed


text \<open>C29: A saved file restores the server. A fresh server that loads it gets, in every database, each key in its canonical form
  with the value the key had (numbers in canonical form, scores cut to integers) and with its deadline, and no other key, as
  long as the canonical forms of the keys of a database, and of the members of a sorted set, stay apart and no deadline
  has passed. In between lie the length bytes, the integers of one, two and four bytes and the compressed strings.\<close>

theorem rdb_roundtrip:
  assumes "store_ok s" "int (length (store s)) \<le> kMaxDbNum"
    and "\<forall>d < length (store s). db_savable fmt htab (clock d) (now s0) d s"
    and "store_ok s0" "length (store s0) = length (store s)" "\<forall>d < length (store s). empty_at d s0" "now s0 < 2 ^ 63"
  shows "\<exists>content s2 s'. QDB_Save fmt htab clock s = Some (content, s2) \<and> QDB_Load L content s0 = Some (0, s') \<and> store_ok s' \<and>
    (\<forall>d < length (store s). db_loaded fmt htab L d s s')"
  using rdb_roundtrip_padded [OF assms, of L "[]"] by simp


definition dated_server :: server where
  "dated_server = put_obj ''s'' (obj_of (VRaw ''x'')) (SetExpire ''s'' 5000 (Store_Init 2 server_new))"

lemma dated_server:
  "store_ok dated_server" "store dated_server = [[(''s'', obj_of (VRaw ''x''))], []]" "expiresDb dated_server = [[(''s'', 5000)], []]"
proof -
  have init: "store (Store_Init 2 server_new) = [[], []]" "expiresDb (Store_Init 2 server_new) = [[], []]" "dbno (Store_Init 2 server_new) = 0"
    by (simp_all add: Store_Init_def resize_def server_new_def kMaxDbNum_def eval_nat_numeral)
  show "store_ok dated_server" by (simp add: dated_server_def store_ok_put_obj store_ok_SetExpire)
  show "store dated_server = [[(''s'', obj_of (VRaw ''x''))], []]" "expiresDb dated_server = [[(''s'', 5000)], []]"
    by (simp_all add: dated_server_def put_obj_def upd_db_def SetExpire_def upd_exp_def cur_db_def cur_exp_def init)
qed

lemma letters_no_number: "Strtol ''x'' = None" "Strtol ''s'' = None"
  by (simp_all add: Strtol_def strtol0_def strtol_sign_def isspace_def code_def in_base_def base_digit_def)

theorem rdb_roundtrip_witness:
  "\<exists>content s2 s'. QDB_Save (\<lambda>_. ''0'') (\<lambda>_ _. 0) (\<lambda>_. 0) dated_server = Some (content, s2) \<and>
    QDB_Load \<lparr>rdb_stream = \<lambda>_. 0, rdb_strtod = \<lambda>_. None\<rparr> content (Store_Init 2 server_new) = Some (0, s') \<and>
    vis_at 0 s' ''s'' = Some (VRaw ''x'') \<and> deadline_at 0 s' ''s'' = Some 5000"
proof -
  let ?L = "\<lparr>rdb_stream = \<lambda>_. 0, rdb_strtod = \<lambda>_. None\<rparr>" and ?s0 = "Store_Init 2 server_new :: server"
  have s: "int (length (store dated_server)) \<le> kMaxDbNum" "length (store dated_server) = 2" by (simp_all add: dated_server(2) kMaxDbNum_def)
  have s0: "length (store ?s0) = 2" "now ?s0 = 0" "\<forall>d < 2. empty_at d ?s0"
    by (auto simp: Store_Init_def resize_def server_new_def kMaxDbNum_def vis_at_simps deadline_at_def empty_at_def fun_eq_iff
        less_Suc_eq eval_nat_numeral)
  have sv: "\<forall>d < 2. db_savable (\<lambda>_. ''0'') (\<lambda>_ _. 0) 0 0 d dated_server"
    by (auto simp: db_savable_def dated_server key_savable_def deadline_at_def in_future_def less_2_cases_iff)
  have ok: "store_ok ?s0" by (rule store_ok_server_new)
  from rdb_roundtrip [OF dated_server(1) s(1) _ ok, of "\<lambda>_. ''0''" "\<lambda>_ _. 0" "\<lambda>_. 0" ?L] s s0 sv
  obtain content s2 s' where r: "QDB_Save (\<lambda>_. ''0'') (\<lambda>_ _. 0) (\<lambda>_. 0) dated_server = Some (content, s2)"
    "QDB_Load ?L content ?s0 = Some (0, s')" "db_loaded (\<lambda>_. ''0'') (\<lambda>_ _. 0) ?L 0 dated_server s'" by auto
  have "rdb_form (\<lambda>_ _. 0) ''s'' = ''s''" by (simp add: rdb_form_def canon_def letters_no_number)
  then have "vis_at 0 s' ''s'' = Some (VRaw ''x'')" "deadline_at 0 s' ''s'' = Some 5000"
    using r(3) by (simp_all add: db_loaded_def dated_server deadline_at_def CreateString_def letters_no_number)
  then show ?thesis using r(1,2) by blast
qed

subsection \<open>Any file keeps the invariant\<close>

lemma load_bind_Loaded: "load_bind m f = Loaded y rest \<longleftrightarrow> (\<exists>x mem. m = Loaded x mem \<and> f x mem = Loaded y rest)"
  by (cases m) auto

lemma load_many_inv:
  assumes "\<And>x acc acc'. P acc \<Longrightarrow> add x acc = Some acc' \<Longrightarrow> P acc'"
  shows "load_many dec add n mem acc = Loaded acc' rest \<Longrightarrow> P acc \<Longrightarrow> P acc'"
proof (induction n arbitrary: mem acc)
  case (Suc n)
  then obtain x mem' acc1 where "add x acc = Some acc1" "load_many dec add n mem' acc1 = Loaded acc' rest"
    by (auto simp: load_bind_Loaded split: option.splits)
  then show ?case using Suc.IH Suc.prems(2) assms by blast
qed simp

lemma add_all_inv:
  assumes "\<And>x acc acc'. P acc \<Longrightarrow> add x acc = Some acc' \<Longrightarrow> P acc'"
  shows "add_all add xs acc = Some acc' \<Longrightarrow> P acc \<Longrightarrow> P acc'"
proof (induction xs arbitrary: acc)
  case (Cons x xs)
  then show ?case using assms by (auto simp: bind_eq_Some_conv)
qed simp

lemma hash_insert_keys: "keys_distinct h \<Longrightarrow> hash_insert e h = Some h' \<Longrightarrow> keys_distinct h'"
  by (auto simp: hash_insert_def keys_distinct_def map_of_eq_None_iff split: if_splits)

lemma AddMember_zset_ok:
  assumes "zset_ok z" "AddMember m d z = Some z'"
  shows "zset_ok z'"
proof -
  have "map_of (zmembers z) m = None" "\<not> dbl_nan d" using assms(2) by (auto simp: AddMember_def split: if_splits)
  then obtain z1 where "AddMember m d z = Some z1" "zset_ok z1" using AddMember_step [OF assms(1)] by metis
  then show ?thesis using assms(2) by simp
qed

lemma hash_insert_all_keys: "add_all hash_insert ps [] = Some h \<Longrightarrow> keys_distinct h"
  "load_many dec hash_insert n mem [] = Loaded h rest \<Longrightarrow> keys_distinct h"
  using add_all_inv [of keys_distinct hash_insert ps "[]" h] load_many_inv [of keys_distinct hash_insert dec n mem "[]" h rest]
  by (auto simp: keys_distinct_def dest!: hash_insert_keys [unfolded keys_distinct_def])

lemma set_insert_distinct: "distinct acc \<Longrightarrow> distinct (snd (set_insert e acc))"
  by (simp add: set_insert_def)

text \<open>An object that was read is well formed or invalid.\<close>

definition loads_ok :: "qobject load \<Rightarrow> bool" where
  "loads_ok m \<longleftrightarrow> (\<forall>ob rest. m = Loaded ob rest \<longrightarrow> otype ob = QType_invalid \<or> obj_ok ob)"

lemma loads_ok_bind: "(\<And>x mem. m = Loaded x mem \<Longrightarrow> loads_ok (f x mem)) \<Longrightarrow> loads_ok (load_bind m f)"
  by (auto simp: loads_ok_def load_bind_Loaded)

lemma loads_ok_simps:
  "loads_ok Died" "loads_ok Thrown" "obj_ok ob \<Longrightarrow> loads_ok (Loaded ob rest)"
  by (simp_all add: loads_ok_def)

lemma loads_ok_values:
  "loads_ok (Loaded (Obj_Reset (VList l) CreateList) rest)"
  "distinct s \<Longrightarrow> loads_ok (Loaded (Obj_Reset (VSet s) CreateSet) rest)"
  "keys_distinct h \<Longrightarrow> loads_ok (Loaded (Obj_Reset (VHash h) CreateHash) rest)"
  "zset_ok z \<Longrightarrow> loads_ok (Loaded (Obj_Reset (VSSet z) CreateSSet) rest)"
  by (simp_all add: loads_ok_def Obj_Reset_def CreateList_def CreateSet_def CreateHash_def CreateSSet_def QObject_new_def obj_ok_def)

lemma le_value_take: "mem_Read k mem = Loaded v rest \<Longrightarrow> v < 256 ^ k"
  using le_value_less [of "take k mem"] by (auto simp: mem_Read_def split: if_splits)

lemma loads_ok_special: "loads_ok (LoadSpecialStringObject n mem)"
proof -
  have "obj_ok (CreateString_long (int v))" if "v < 2 ^ 32" for v
    using that by (simp add: CreateString_long_def obj_ok_def QObject_new_def LONG_MIN_def LONG_MAX_def)
  then show ?thesis
    by (auto simp: LoadSpecialStringObject_def intro!: loads_ok_bind loads_ok_simps dest!: le_value_take)
qed

lemma loads_ok_collections:
  "loads_ok (LoadList mem)" "loads_ok (LoadSet mem)" "loads_ok (LoadHash mem)" "loads_ok (LoadSSet f mem)" "loads_ok (LoadQuickList st mem)"
proof -
  show "loads_ok (LoadList mem)" "loads_ok (LoadQuickList st mem)"
    by (auto simp: LoadList_def LoadQuickList_def intro!: loads_ok_bind loads_ok_values)
  show "loads_ok (LoadSet mem)" unfolding LoadSet_def
    by (intro loads_ok_bind loads_ok_values) (rule load_many_inv [where P = distinct], auto simp: set_insert_distinct)
  show "loads_ok (LoadHash mem)" unfolding LoadHash_def
    by (intro loads_ok_bind loads_ok_values) (rule hash_insert_all_keys(2))
  show "loads_ok (LoadSSet f mem)" unfolding LoadSSet_def
    by (intro loads_ok_bind loads_ok_values)
      (rule load_many_inv [where P = zset_ok], auto simp: zset_ok_empty dest: AddMember_zset_ok)
qed


lemma loads_ok_opt: "(\<And>ob. v = Some ob \<Longrightarrow> loads_ok (Loaded ob mem)) \<Longrightarrow> loads_ok (load_opt v mem)"
  by (cases v) (simp_all add: load_opt_def loads_ok_simps)

lemma loads_ok_compact: "loads_ok (LoadZipList_mem st ty mem)" "loads_ok (LoadIntset mem)"
proof -
  have "loads_ok (Loaded ob rest)" if "LoadZipList st zl ty = Some ob" for ob zl rest
  proof -
    have z: "add_all (\<lambda>(m, e) z. Option.bind (zip_score st e) (\<lambda>d. AddMember (ZipListElement_ToString m) d z)) ps
        \<lparr>zscores = [], zmembers = []\<rparr> = Some z \<Longrightarrow> zset_ok z" for ps z
      by (erule add_all_inv [where P = zset_ok, rotated])
        (auto simp: zset_ok_empty bind_eq_Some_conv split: prod.splits dest: AddMember_zset_ok)
    show ?thesis using that
      by (auto simp: LoadZipList_def bind_eq_Some_conv split: if_splits intro!: loads_ok_values dest: hash_insert_all_keys(1) z)
  qed
  then show "loads_ok (LoadZipList_mem st ty mem)" by (auto simp: LoadZipList_mem_def intro!: loads_ok_bind loads_ok_opt)
  have "distinct s" if "add_all (\<lambda>v set. Some (snd (set_insert (Number2Str 64 v) set))) vs [] = Some s" for vs s
    using that by (rule add_all_inv [where P = distinct, rotated]) (auto simp: set_insert_distinct)
  then show "loads_ok (LoadIntset mem)"
    by (auto simp: LoadIntset_def bind_eq_Some_conv intro!: loads_ok_bind loads_ok_opt loads_ok_values)
qed

lemma loads_ok_LoadObject: "loads_ok (LoadObject L t mem)"
proof -
  have "loads_ok (Loaded (QObject_new QType_invalid) mem)" by (simp add: loads_ok_def QObject_new_def)
  then show ?thesis
    by (auto simp: LoadObject_def intro!: loads_ok_collections loads_ok_compact loads_ok_special loads_ok_bind loads_ok_simps)
qed

text \<open>One turn of the loop.\<close>

definition step_ok :: "load_step \<Rightarrow> bool" where
  "step_ok m \<longleftrightarrow> (case m of Return r s \<Rightarrow> store_ok s | Next s mem t \<Rightarrow> store_ok s | Dead \<Rightarrow> True)"

lemma step_ok_simps [simp]: "step_ok (Return r s) = store_ok s" "step_ok (Next s mem t) = store_ok s" "step_ok Dead"
  by (simp_all add: step_ok_def)

lemma step_ok_on_load: "store_ok s \<Longrightarrow> (\<And>x rest. m = Loaded x rest \<Longrightarrow> step_ok (f x rest)) \<Longrightarrow> step_ok (on_load line s m f)"
  by (cases m) simp_all

lemma SelectDB_ok: "store_ok s \<Longrightarrow> SelectDB d s = (r, s') \<Longrightarrow> store_ok s'"
  by (auto simp: SelectDB_def store_ok_def split: if_splits)

lemma Load_step_ok: "store_ok s \<Longrightarrow> step_ok (Load_step L s mem t)"
proof -
  assume s: "store_ok s"
  have "step_ok (load_key_value L ind s m t)" for ind m
    unfolding load_key_value_def
  proof (intro step_ok_on_load s)
    fix key m ob m'
    assume "LoadObject L ind m = Loaded ob m'"
    then have "otype ob = QType_invalid \<or> obj_ok ob" using loads_ok_LoadObject [of L ind m] by (simp add: loads_ok_def)
    then show "step_ok (if otype ob = QType_invalid then Dead
         else if t < 0 then Return (- 557) s
         else if t = 0 then Next (snd (SetValue key ob s)) m' 0
         else if sint (now s) < t then Next (SetExpire key (word_of_int t) (snd (SetValue key ob s))) m' 0
         else Next s m' 0)"
      using s set_step(1) [OF s, of ob key] by (auto simp: store_ok_SetExpire)
  qed
  then show ?thesis
    using s by (auto simp: Load_step_def intro!: step_ok_on_load split: prod.split dest!: SelectDB_ok [OF s])
qed

lemma Load_loop_ok: "store_ok s \<Longrightarrow> Load_loop L s mem t = Some (r, s') \<Longrightarrow> store_ok s'"
proof (induction L s mem t rule: Load_loop.induct)
  case (1 L s mem t)
  from Load_step_ok [OF "1.prems"(1), of L mem t] show ?case
    using "1.prems"(2) "1.IH" by (subst (asm) Load_loop.simps) (auto split: load_step.splits)
qed

text \<open>C30: Whatever bytes a file holds, loading it keeps the store well formed, unless the server dies: distinct keys, a value that
  fits its type and encoding under each, distinct elements and fields, sorted sets whose two indexes agree. This covers
  the encodings of Redis (ziplists, intsets, quicklists), corrupt ones as well, and a file that is given up half way.\<close>

theorem any_file_keeps_store_ok: "store_ok s \<Longrightarrow> QDB_Load L content s = Some (r, s') \<Longrightarrow> store_ok s'"
  by (auto simp: QDB_Load_def split: if_splits option.splits dest: Load_loop_ok)

theorem any_file_keeps_store_ok_witness:
  "\<exists>s'. QDB_Load \<lparr>rdb_stream = \<lambda>_. 0, rdb_strtod = \<lambda>_. None\<rparr> (''REDIS0006'' @ [CHR 0x02, CHR 0x01, CHR ''k'', CHR 0x01, CHR 0x01, CHR ''e''])
      (Store_Init 2 server_new) = Some (- 440, s') \<and> store_ok s' \<and> vis s' ''k'' = Some (VSet [''e''])"
proof -
  let ?L = "\<lparr>rdb_stream = \<lambda>_. 0, rdb_strtod = \<lambda>_. None\<rparr>" and ?s0 = "Store_Init 2 server_new :: server"
  let ?mem = "[CHR 0x02, CHR 0x01, CHR ''k'', CHR 0x01, CHR 0x01, CHR ''e'']"
  let ?s1 = "snd (SetValue ''k'' (Obj_Reset (VSet [''e'']) CreateSet) ?s0)"
  have g: "LoadGenericString (CHR 0x01 # c # rest) = Loaded [c] rest" for c rest
    by (simp add: LoadGenericString_def LoadLength_def mem_Read_one LoadString_def mem_Peek_def mem_Skip_def code_def)
  have "LoadSet [CHR 0x01, CHR 0x01, CHR ''e''] = Loaded (Obj_Reset (VSet [''e'']) CreateSet) []"
    by (simp add: LoadSet_def LoadCount_def LoadLength_def mem_Read_one code_def g set_insert_def)
  then have "Load_step ?L ?s0 ?mem 0 = Next ?s1 [] 0"
    by (simp add: Load_step_def LoadByte_Cons code_def value_type_def load_key_value_def LoadKey_def g LoadObject_def
        Obj_Reset_def CreateSet_def QObject_new_def)
  moreover have "Load_step ?L ?s1 [] 0 = Return (- 440) ?s1" by (simp add: Load_step_def LoadByte_def mem_Read_def)
  ultimately have "Load_loop ?L ?s0 ?mem 0 = Some (- 440, ?s1)" by (simp add: Load_loop.simps [of ?L ?s0] Load_loop.simps [of ?L ?s1])
  then have l: "QDB_Load ?L (''REDIS0006'' @ ?mem) ?s0 = Some (- 440, ?s1)"
    using header_version by (simp only: QDB_Load_def) simp
  have "obj_ok (Obj_Reset (VSet [''e'']) CreateSet)" by (simp add: obj_ok_def Obj_Reset_def CreateSet_def QObject_new_def)
  moreover have "\<not> is_expired ?s0 ''k''"
    by (simp add: is_expired_def Store_Init_def resize_def server_new_def kMaxDbNum_def cur_exp_def)
  ultimately have "vis ?s1 ''k'' = Some (VSet [''e''])"
    using set_step(3) [of ?s0 "Obj_Reset (VSet [''e'']) CreateSet" "''k''"] by (simp add: Obj_Reset_def)
  then show ?thesis using l any_file_keeps_store_ok [OF _ l] by simp
qed

subsection \<open>DUMP and RESTORE\<close>

lemma le_bytes_crc: "mem_Read 8 (le_bytes 8 (unat (w :: 64 word)) @ rest) = Loaded (unat w) rest"
proof -
  have "unat w < 256 ^ 8" using unsigned_less [of w, where ?'a = nat] by simp
  then show ?thesis by (simp add: mem_Read_bytes)
qed

lemma RestoreObject_Dump:
  assumes "obj_ok ob" "savable fmt htab (oval ob)"
  shows "\<exists>data ob'. DumpObject fmt htab ob = Some data \<and> RestoreObject L data = Some ob' \<and> obj_ok ob' \<and>
    rdb_value fmt htab (rdb_stream L) (oval ob) (oval ob')"
proof -
  obtain t b ob' where r: "object_reads fmt htab L ob t b ob'" using object_saved_reads [OF assms] by blast
  let ?result = "char_of t # b @ [char_of kQDBVersion, NUL]"
  let ?crc = "le_bytes 8 (unat (crc64 0 ?result))"
  have t: "code (char_of t) = t" using r by (auto simp: object_reads_def value_type_def)
  have d: "DumpObject fmt htab ob = Some (?result @ ?crc)" using r by (simp add: DumpObject_def object_reads_def Let_def)
  have tk: "take (length (x @ y) - 8) (x @ y) = x" if "length y = 8" for x y :: string using that by simp
  have "take (length (?result @ ?crc) - 8) (?result @ ?crc) = ?result" by (rule tk) simp
  moreover have "mem_Read 8 ?crc = Loaded (unat (crc64 0 ?result)) []" using le_bytes_crc [of _ "[]"] by simp
  moreover have "LoadObject L t (b @ rest) = Loaded ob' rest" for rest using r by (simp add: object_reads_def)
  moreover have "code (char_of kQDBVersion) = kQDBVersion" by (simp add: kQDBVersion_def)
  ultimately have "RestoreObject L (?result @ ?crc) = Some ob'"
    using t unfolding RestoreObject_def by (simp add: LoadByte_Cons del: code_char_of crc64.simps)
  then show ?thesis using d r by (auto simp: object_reads_def)
qed



text \<open>RESTORE decodes the object before it looks at the checksum: the type of a zipmap stops the server.\<close>

theorem restore_zipmap_dies: "restore_cmd L [c, k, n, char_of (9::nat) # mem] r s = None"
  by (simp add: restore_cmd_def RestoreObject_def LoadByte_Cons LoadObject_def)

text \<open>A key that reads as a number comes back under another name.\<close>

theorem numeric_key_changes: "rdb_form htab ''007'' = ''7''"
proof -
  have "of_char (CHR ''7'') = (55::nat)" by simp
  then have "char_of (55::nat) = CHR ''7''" by (metis char_of_char)
  then show ?thesis
    by (simp add: rdb_form_def canon_def Strtol_def strtol0_def strtol_sign_def isspace_def code_def in_base_def base_digit_def
        base_value_def LONG_MIN_def LONG_MAX_def show_int_def show_nat_small digit_char_def)
qed

end
