(* ===== verification/Replication.thy ===== *)
theory Replication
  imports Snapshot Sessions
begin

text \<open>
  QedisCore/QReplication.h and QReplication.cc, the part of QClient.cc that talks to the master, and what QedisSvr/Qedis.cc
  and QServerCommand.cc do with the processes that save: master and slave synchronise by an RDB file, and the master sends
  its slaves every write from then on.

  The state of the replication lies around the state of the server, whose field \<open>slaves\<close> is what the rest
  of the server sees of the slaves; the state as a slave is its field \<open>masterState\<close>. A slave is a client that has slave information; a process that was forked is its number,
  and the contents of the RDB file, when a process has ended, are an argument, as are the clock and the network.
\<close>

subsection \<open>State\<close>

datatype QSlaveState = QSlaveState_none | QSlaveState_wait_bgsave_start | QSlaveState_wait_bgsave_end | QSlaveState_online

record QSlaveInfo =
  slave_state :: QSlaveState
  listenPort :: nat

text \<open>An address is the pair of the address \<open>inet_addr\<close> gives and the port; the address of nobody is \<^const>\<open>None\<close>.\<close>

type_synonym SocketAddr = "32 word \<times> nat"

text \<open>\<open>rdbSize\<close> is \<^const>\<open>None\<close> for \<open>size_t(-1)\<close>; \<open>rdb_tmp\<close> are the bytes of the temporary file.\<close>

record QMasterInfo =
  m_addr :: "SocketAddr option"
  downSince :: int
  rdbSize :: "nat option"
  rdbRecved :: nat

record replication =
  srv :: server
  links :: "(client_id \<times> QSlaveInfo) list"
  masterInfo :: QMasterInfo
  master_client :: "client_id option"
  rdb_tmp :: string
  pingCron :: "32 word"
  lastQDBSave :: int

definition QSlaveInfo_new :: QSlaveInfo where
  "QSlaveInfo_new = \<lparr>slave_state = QSlaveState_none, listenPort = 0\<rparr>"

definition QMasterInfo_new :: QMasterInfo where
  "QMasterInfo_new = \<lparr>m_addr = None, downSince = 0, rdbSize = None, rdbRecved = 0\<rparr>"

definition link_view :: "(client_id \<times> QSlaveInfo) list \<Rightarrow> (client_id \<times> bool) list" where
  "link_view ls = map (\<lambda>(i, x). (i, slave_state x = QSlaveState_online)) ls"

text \<open>Every change of the slaves goes through \<open>set_links\<close>, every change of the state towards the master through \<open>SetMasterState\<close>.\<close>

definition upd_srv :: "(server \<Rightarrow> server) \<Rightarrow> replication \<Rightarrow> replication" where
  "upd_srv f r = r\<lparr>srv := f (srv r)\<rparr>"

definition set_links :: "(client_id \<times> QSlaveInfo) list \<Rightarrow> replication \<Rightarrow> replication" where
  "set_links ls r = upd_srv (\<lambda>s. s\<lparr>slaves := link_view ls\<rparr>) (r\<lparr>links := ls\<rparr>)"

definition SetMasterState :: "QReplState \<Rightarrow> replication \<Rightarrow> replication" where
  "SetMasterState st r = upd_srv (\<lambda>s. s\<lparr>masterState := st\<rparr>) r"

definition GetMasterState :: "replication \<Rightarrow> QReplState" where
  "GetMasterState r = masterState (srv r)"

definition SetMasterAddr :: "SocketAddr option \<Rightarrow> replication \<Rightarrow> replication" where
  "SetMasterAddr a r = r\<lparr>masterInfo := (masterInfo r)\<lparr>m_addr := a\<rparr>\<rparr>"

definition SetRdbSize :: "nat \<Rightarrow> replication \<Rightarrow> replication" where
  "SetRdbSize n r = r\<lparr>masterInfo := (masterInfo r)\<lparr>rdbSize := Some n\<rparr>\<rparr>"

definition SetMaster :: "client_id \<Rightarrow> replication \<Rightarrow> replication" where
  "SetMaster i r = r\<lparr>master_client := Some i\<rparr>"

text \<open>\<open>lock()\<close> of a weak pointer.\<close>

definition alive :: "client_id \<Rightarrow> server \<Rightarrow> bool" where
  "alive i s \<longleftrightarrow> map_of (clients s) i \<noteq> None"

definition the_master :: "replication \<Rightarrow> (client_id \<times> qclient) option" where
  "the_master r = Option.bind (master_client r) (\<lambda>i. map_option (Pair i) (map_of (clients (srv r)) i))"

subsection \<open>The master's side\<close>

definition IsBgsaving :: "replication \<Rightarrow> bool" where
  "IsBgsaving r = bgsaving (srv r)"

definition HasAnyWaitingBgsave :: "replication \<Rightarrow> bool" where
  "HasAnyWaitingBgsave r \<longleftrightarrow> (\<exists>(i, x) \<in> set (links r). alive i (srv r) \<and> slave_state x = QSlaveState_wait_bgsave_start)"

definition AddSlave :: "client_id \<Rightarrow> replication \<Rightarrow> replication" where
  "AddSlave i r = set_links (links r @ [(i, QSlaveInfo_new)]) r"

definition OnStartBgsave :: "bool \<Rightarrow> replication \<Rightarrow> replication" where
  "OnStartBgsave succ r =
     (let r = upd_srv (\<lambda>s. s\<lparr>replBuf := [], bgsaving := succ\<rparr>) r;
          waits = (\<lambda>(i, x). alive i (srv r) \<and> slave_state x = QSlaveState_wait_bgsave_start)
      in if succ
         then set_links (map (\<lambda>(i, x). if waits (i, x) then (i, x\<lparr>slave_state := QSlaveState_wait_bgsave_end\<rparr>) else (i, x)) (links r)) r
         else upd_srv (fold (\<lambda>(i, x). drop_client i) (filter waits (links r))) r)"

text \<open>\<open>pid\<close> is what \<open>fork\<close> returns to the parent. The running process \<open>g_qdbPid\<close> is not looked at.\<close>

definition TryBgsave :: "int \<Rightarrow> replication \<Rightarrow> replication" where
  "TryBgsave pid r =
     (if IsBgsaving r then r
      else if \<not> HasAnyWaitingBgsave r then r
      else if pid = -1 then OnStartBgsave False r
      else OnStartBgsave True (upd_srv (\<lambda>s. s\<lparr>qdbPid := pid\<rparr>) r))"

text \<open>The RDB file of a slave, and the writes since it was begun. Without a file the loop ends, and the buffer is kept.\<close>

definition rdb_packet :: "string \<Rightarrow> string" where
  "rdb_packet data = ''$'' @ show_nat (length data) @ CRLF @ data"

fun send_rdb :: "string option \<Rightarrow> (client_id \<times> QSlaveInfo) list \<Rightarrow> server \<Rightarrow> (client_id \<times> QSlaveInfo) list \<times> bool \<times> server" where
  "send_rdb rdb [] s = ([], True, s)"
| "send_rdb rdb ((i, x) # ls) s =
     (if alive i s \<and> slave_state x = QSlaveState_wait_bgsave_end then
        let x = x\<lparr>slave_state := QSlaveState_online\<rparr>
        in case rdb of
             None \<Rightarrow> ((i, x) # ls, False, s)
           | Some data \<Rightarrow>
               (case send_rdb rdb ls (send i (replBuf s) (send i (rdb_packet data) s)) of (ls, ok, s) \<Rightarrow> ((i, x) # ls, ok, s))
      else (case send_rdb rdb ls s of (ls, ok, s) \<Rightarrow> ((i, x) # ls, ok, s)))"

definition OnRdbSaveDone :: "string option \<Rightarrow> replication \<Rightarrow> replication" where
  "OnRdbSaveDone rdb r =
     (case send_rdb rdb (links r) ((srv r)\<lparr>bgsaving := False\<rparr>) of
        (ls, ok, s) \<Rightarrow> set_links ls (r\<lparr>srv := (if ok then s\<lparr>replBuf := []\<rparr> else s)\<rparr>))"

text \<open>Every fiftieth time the slaves that are gone are forgotten and the others get a PING.\<close>

fun ping_links :: "(client_id \<times> QSlaveInfo) list \<Rightarrow> server \<Rightarrow> (client_id \<times> QSlaveInfo) list \<times> server" where
  "ping_links [] s = ([], s)"
| "ping_links ((i, x) # ls) s =
     (if \<not> alive i s then ping_links ls s
      else
        case ping_links ls (if slave_state x = QSlaveState_online then send i (''PING'' @ CRLF) s else s) of
          (ls, s) \<Rightarrow> ((i, x) # ls, s))"

subsection \<open>The slave's side\<close>

text \<open>What the cron job reads of the configuration, the clock, and whether the job connects is in the result.\<close>

record repl_env =
  self_addr :: SocketAddr
  self_port :: nat
  masterauth :: QString
  time_sec :: int

definition master_down :: "repl_env \<Rightarrow> replication \<Rightarrow> replication" where
  "master_down E r =
     (let r = SetMasterState QReplState_none r in r\<lparr>masterInfo := (masterInfo r)\<lparr>downSince := time_sec E\<rparr>\<rparr>)"

definition cron_wait_auth :: "repl_env \<Rightarrow> replication \<Rightarrow> replication" where
  "cron_wait_auth E r =
     (case the_master r of
        None \<Rightarrow> master_down E r
      | Some (i, c) \<Rightarrow>
          if auth c
          then SetMasterState QReplState_wait_replconf
                 (upd_srv (send i (''replconf listening-port '' @ show_nat (self_port E) @ CRLF)) r)
          else r)"

text \<open>The flag tells that a connection to the master was begun.\<close>

definition cron_master :: "repl_env \<Rightarrow> replication \<Rightarrow> (bool \<times> replication) option" where
  "cron_master E r =
     (case m_addr (masterInfo r) of
        Some a \<Rightarrow>
          (case GetMasterState r of
             QReplState_none \<Rightarrow>
               if a = self_addr E then None
               else
                 let r = (case the_master r of None \<Rightarrow> r | Some (i, _) \<Rightarrow> upd_srv (drop_client i) r)
                 in Some (True, SetMasterState QReplState_connecting r)
           | QReplState_connected \<Rightarrow>
               (case the_master r of
                  Some (i, _) \<Rightarrow>
                    if masterauth E \<noteq> [] then
                      Some (False, SetMasterState QReplState_wait_auth (upd_srv (send i (''auth '' @ masterauth E @ CRLF)) r))
                    else Some (False, cron_wait_auth E r)
                | None \<Rightarrow> Some (False, cron_wait_auth E r))
           | QReplState_wait_auth \<Rightarrow> Some (False, cron_wait_auth E r)
           | QReplState_wait_replconf \<Rightarrow>
               (case the_master r of
                  None \<Rightarrow> Some (False, master_down E r)
                | Some (i, _) \<Rightarrow>
                    let r = upd_srv (send i (''SYNC'' @ CRLF)) r;
                        r = r\<lparr>rdb_tmp := [], masterInfo := (masterInfo r)\<lparr>rdbRecved := 0, rdbSize := None\<rparr>\<rparr>
                    in Some (False, SetMasterState QReplState_wait_rdb r))
           | QReplState_online \<Rightarrow> Some (False, if the_master r = None then master_down E r else r)
           | _ \<Rightarrow> Some (False, r))
      | None \<Rightarrow>
          if GetMasterState r \<noteq> QReplState_none then
            let r = (case the_master r of None \<Rightarrow> r | Some (i, _) \<Rightarrow> upd_srv (drop_client i) r)
            in Some (False, master_down E r)
          else Some (False, r))"

definition Cron :: "repl_env \<Rightarrow> replication \<Rightarrow> (bool \<times> replication) option" where
  "Cron E r =
     (let ping = (pingCron r mod 50 = 0);
          r = r\<lparr>pingCron := pingCron r + 1\<rparr>;
          r = (if ping then (case ping_links (links r) (srv r) of (ls, s) \<Rightarrow> set_links ls (r\<lparr>srv := s\<rparr>)) else r)
      in cron_master E r)"

text \<open>The callback when the connection fails.\<close>

definition OnConnectMasterFail :: "repl_env \<Rightarrow> replication \<Rightarrow> replication" where
  "OnConnectMasterFail E r =
     (let r = SetMasterState QReplState_none r
      in if downSince (masterInfo r) = 0 then r\<lparr>masterInfo := (masterInfo r)\<lparr>downSince := time_sec E\<rparr>\<rparr> else r)"

text \<open>\<open>OnConnect\<close> of the connection to the master.\<close>

definition OnConnect_master :: "repl_env \<Rightarrow> client_id \<Rightarrow> replication \<Rightarrow> replication" where
  "OnConnect_master E i r =
     (let r = SetMaster i (SetMasterState QReplState_connected r);
          c = SetFlag ClientFlag_master (SetName ''MasterConnection'' client_new)
      in upd_srv (\<lambda>s. put_client i (if masterauth E = [] then SetAuth c else c) (snd (SelectDB 0 s))) r)"

text \<open>
  More bytes of the RDB file. The file is mapped, and longer than what was written of it: the loader sees \<open>pad\<close> zeros
  behind the bytes. What the loader returns is ignored.
\<close>

definition SaveTmpRdb :: "rdb_libs \<Rightarrow> nat \<Rightarrow> string \<Rightarrow> replication \<Rightarrow> (nat \<times> replication) option" where
  "SaveTmpRdb L pad data r =
     (let m = masterInfo r;
          size = (case rdbSize m of None \<Rightarrow> 2 ^ 64 - 1 | Some n \<Rightarrow> n);
          len = (if size < rdbRecved m + length data then size - rdbRecved m else length data);
          r = r\<lparr>rdb_tmp := rdb_tmp r @ take len data, masterInfo := m\<lparr>rdbRecved := rdbRecved m + len\<rparr>\<rparr>
      in if rdbRecved m + len = size then
           map_option (\<lambda>(_, s).
               let r = SetMasterState QReplState_online (r\<lparr>srv := s\<rparr>)
               in (len, r\<lparr>masterInfo := (masterInfo r)\<lparr>downSince := 0\<rparr>\<rparr>))
             (QDB_Load L (rdb_tmp r @ replicate pad NUL) (ResetDb (srv r)))
         else Some (len, r))"

definition OK_line :: string where "OK_line = ''+OK'' @ CRLF"

text \<open>
  The bytes of the master, before they are parsed as requests. \<^const>\<open>None\<close> in the first place is the result \<open>-1\<close>, nothing
  done. The dollar sign is skipped each time the length of the file has not been read yet.
\<close>

definition ProcessMaster :: "rdb_libs \<Rightarrow> nat \<Rightarrow> client_id \<Rightarrow> string \<Rightarrow> replication \<Rightarrow> (nat option \<times> replication) option" where
  "ProcessMaster L pad i buf r =
     (case GetMasterState r of
        QReplState_connected \<Rightarrow> Some (Some (length buf), r)
      | QReplState_wait_auth \<Rightarrow>
          if length buf < 5 then Some (Some 0, r)
          else if strncaseeq buf OK_line 5 then
            (case map_of (clients (srv r)) i of
               None \<Rightarrow> None
             | Some c \<Rightarrow> Some (Some 5, upd_srv (put_client i (SetAuth c)) r))
          else None
      | QReplState_wait_replconf \<Rightarrow>
          if length buf < 5 then Some (Some 0, r)
          else if strncaseeq buf OK_line 5 then Some (Some 5, r)
          else None
      | QReplState_wait_rdb \<Rightarrow>
          if rdbSize (masterInfo r) = None then
            (case GetIntUntilCRLF (tl buf) of
               (res, n, v) \<Rightarrow>
                 if res = QParseResult_ok then
                   (if v \<le> 0 then None else Some (Some (1 + n), SetRdbSize (nat v) r))
                 else Some (Some (1 + n), r))
          else map_option (\<lambda>(n, r). (Some n, r)) (SaveTmpRdb L pad buf r)
      | QReplState_online \<Rightarrow> Some (None, r)
      | _ \<Rightarrow> None)"

text \<open>\<open>_HandlePacket\<close> on the connection to the master.\<close>

definition Master_HandlePacket ::
  "rdb_libs \<Rightarrow> nat \<Rightarrow> libs \<Rightarrow> command_table \<Rightarrow> clocks \<Rightarrow> client_id \<Rightarrow> string \<Rightarrow> replication \<Rightarrow> (nat \<times> replication) option" where
  "Master_HandlePacket L pad LB t tm i buf r =
     (case ProcessMaster L pad i buf (upd_srv (\<lambda>s. s\<lparr>current := Some i\<rparr>) r) of
        None \<Rightarrow> None
      | Some (Some n, r) \<Rightarrow> Some (n, r)
      | Some (None, r) \<Rightarrow> map_option (\<lambda>(n, s). (n, r\<lparr>srv := s\<rparr>)) (HandlePacket LB t tm i buf (srv r)))"

subsection \<open>Commands\<close>

type_synonym repl_result = "(QError \<times> reply \<times> replication) option"

definition repl_fail :: "QError \<Rightarrow> reply \<Rightarrow> replication \<Rightarrow> repl_result" where
  "repl_fail e rep r = map_option (\<lambda>rep. (e, rep, r)) (ReplyError e rep)"

text \<open>The slave information of the current client, made when it has none.\<close>

definition need_slave :: "client_id \<Rightarrow> replication \<Rightarrow> replication" where
  "need_slave i r = (if map_of (links r) i = None then AddSlave i r else r)"

fun replconf_loop :: "QString list \<Rightarrow> reply \<Rightarrow> replication \<Rightarrow> repl_result" where
  "replconf_loop (opt # val # ps) rep r =
     (if strncaseeq opt ''listening-port'' 14 then
        (case TryStr2Long val of
           (False, _) \<Rightarrow> repl_fail QError_param rep r
         | (True, port) \<Rightarrow>
             (case Current (srv r) of
                None \<Rightarrow> None
              | Some (i, _) \<Rightarrow>
                  let r = need_slave i r;
                      ls = map (\<lambda>(j, x). (j, if j = i then x\<lparr>listenPort := nat (port mod 2 ^ 16)\<rparr> else x)) (links r)
                  in replconf_loop ps rep (set_links ls r)))
      else Some (QError_syntax, PushData (''-ERR:Unrecognized REPLCONF option:'' @ opt) rep, r))"
| "replconf_loop _ rep r = Some (QError_ok, FormatOK rep, r)"

definition replconf_cmd :: "QString list \<Rightarrow> reply \<Rightarrow> replication \<Rightarrow> repl_result" where
  "replconf_cmd params rep r =
     (if even (length params) then repl_fail QError_syntax rep r else replconf_loop (tl params) rep r)"

text \<open>\<open>std::stoi\<close> throws when there is no number or it does not fit.\<close>

definition stoi :: "string \<Rightarrow> int option" where
  "stoi s =
     (let (neg, s) = strtol_sign (dropWhile isspace s);
          ds = takeWhile (in_base 10) s;
          v = (if neg then - base_value 10 ds else base_value 10 ds)
      in if ds = [] \<or> v < - (2 ^ 31) \<or> 2 ^ 31 \<le> v then None else Some v)"

definition slaveof_cmd :: "(QString \<Rightarrow> 32 word) \<Rightarrow> QString list \<Rightarrow> reply \<Rightarrow> replication \<Rightarrow> repl_result" where
  "slaveof_cmd inet_addr params rep r =
     (if strncaseeq (params ! 1) ''no'' 2 \<and> strncaseeq (params ! 2) ''one'' 3
      then Some (QError_ok, FormatOK rep, SetMasterAddr None r)
      else
        Option.bind (stoi (params ! 2)) (\<lambda>v.
          let port = nat (v mod 2 ^ 16);
              reqMaster = (inet_addr (params ! 1), port);
              r = (if 0 < port \<and> m_addr (masterInfo r) \<noteq> Some reqMaster
                   then SetMasterState QReplState_none (SetMasterAddr (Some reqMaster) r) else r)
          in Some (QError_ok, FormatOK rep, r)))"

definition set_slave_state :: "client_id \<Rightarrow> QSlaveState \<Rightarrow> replication \<Rightarrow> replication" where
  "set_slave_state i st r = set_links (map (\<lambda>(j, x). (j, if j = i then x\<lparr>slave_state := st\<rparr> else x)) (links r)) r"

definition slave_state_of :: "client_id \<Rightarrow> replication \<Rightarrow> QSlaveState option" where
  "slave_state_of i r = map_option slave_state (map_of (links r) i)"

definition sync_cmd :: "int \<Rightarrow> QString list \<Rightarrow> reply \<Rightarrow> replication \<Rightarrow> repl_result" where
  "sync_cmd pid params rep r =
     (case Current (srv r) of
        None \<Rightarrow> None
      | Some (i, _) \<Rightarrow>
          let r = need_slave i r
          in if slave_state_of i r \<in> {Some QSlaveState_wait_bgsave_end, Some QSlaveState_online} then Some (QError_ok, rep, r)
             else Some (QError_ok, rep, TryBgsave pid (set_slave_state i QSlaveState_wait_bgsave_start r)))"

subsection \<open>Processes that save\<close>

definition in_progress :: string where "in_progress = ''-ERR Background save or aof already in progress''"

definition bgsave_cmd :: "int \<Rightarrow> handler" where
  "bgsave_cmd pid params rep s =
     Some (QError_ok,
       if qdbPid s \<noteq> -1 \<or> rewritePid s \<noteq> -1 then (FormatBulk in_progress rep, s)
       else if pid = -1 then (FormatSingle ''Background saving FAILED'' rep, s)
       else (FormatSingle ''Background saving started'' rep, s\<lparr>qdbPid := pid\<rparr>))"

text \<open>The file that is written is the second result, if any.\<close>

definition save_file :: "(server \<Rightarrow> (string \<times> server) option) \<Rightarrow> int \<Rightarrow> reply \<Rightarrow> replication \<Rightarrow> (string option \<times> QError \<times> reply \<times> replication) option" where
  "save_file saver now_sec rep r =
     (if qdbPid (srv r) \<noteq> -1 \<or> rewritePid (srv r) \<noteq> -1 then Some (None, QError_ok, FormatBulk in_progress rep, r)
      else
        map_option (\<lambda>(content, s). (Some content, QError_ok, FormatOK rep, r\<lparr>srv := s, lastQDBSave := now_sec\<rparr>))
          (saver (srv r)))"

definition lastsave_cmd :: "reply \<Rightarrow> replication \<Rightarrow> repl_result" where
  "lastsave_cmd rep r = Some (QError_ok, FormatInt (lastQDBSave r) rep, r)"

text \<open>\<open>QdbCron\<close>: \<open>changes\<close> and \<open>seconds\<close> are the configuration, \<open>t\<close> the clock in milliseconds.\<close>

definition QdbCron :: "int \<Rightarrow> int \<Rightarrow> u64 \<Rightarrow> int \<Rightarrow> replication \<Rightarrow> replication" where
  "QdbCron changes seconds t pid r =
     (if qdbPid (srv r) \<noteq> -1 then r
      else if word_of_int ((lastQDBSave r + seconds mod 2 ^ 32) * 1000) < t \<and> changes \<le> dirty (srv r) then
        (if pid = -1 then r else upd_srv (\<lambda>s. s\<lparr>qdbPid := pid\<rparr>) r)
      else r)"

definition SaveDoneHandler :: "int \<Rightarrow> int \<Rightarrow> int \<Rightarrow> replication \<Rightarrow> replication" where
  "SaveDoneHandler now_sec exitRet whatSignal r =
     (let r = (if exitRet = 0 \<and> whatSignal = 0 then upd_srv (\<lambda>s. s\<lparr>dirty := 0\<rparr>) (r\<lparr>lastQDBSave := now_sec\<rparr>) else r)
      in upd_srv (\<lambda>s. s\<lparr>qdbPid := -1\<rparr>) r)"

text \<open>
  \<open>CheckChild\<close>: \<open>ended\<close> is the process \<open>wait3\<close> reports, if any, with its exit code and signal; \<open>rdb\<close> the RDB file at that
  time; \<open>pid\<close> what the next \<open>fork\<close> returns. What the end of a rewriting does to the log is \<open>aof_RewriteDoneHandler\<close>.
\<close>

definition CheckChild :: "int \<Rightarrow> (int \<times> int \<times> int) option \<Rightarrow> string option \<Rightarrow> int \<Rightarrow> replication \<Rightarrow> replication option" where
  "CheckChild now_sec ended rdb pid r =
     (if qdbPid (srv r) = -1 \<and> rewritePid (srv r) = -1 then Some r
      else
        case ended of
          None \<Rightarrow> Some r
        | Some (p, exit, sig) \<Rightarrow>
            if p = qdbPid (srv r) then
              let r = SaveDoneHandler now_sec exit sig r
              in Some (if IsBgsaving r then OnRdbSaveDone rdb r else TryBgsave pid r)
            else if p = rewritePid (srv r) then Some (upd_srv (\<lambda>s. s\<lparr>rewritePid := -1\<rparr>) r)
            else None)"


subsection \<open>INFO\<close>

text \<open>
  The sections of INFO are printed into a buffer of 1024 bytes of which \<open>snprintf\<close> uses 1023, and as many bytes as the
  text would have are sent: up to \<open>m\<close> the missing ones are zeros, beyond the server reads outside of the buffer.
\<close>

definition info_buf :: "nat \<Rightarrow> string \<Rightarrow> string option" where
  "info_buf m txt =
     (if length txt \<le> 1022 then Some txt
      else if length txt \<le> m then Some (take 1022 txt @ replicate (length txt - 1022) NUL)
      else None)"

definition info_section :: "nat \<Rightarrow> string \<Rightarrow> string \<Rightarrow> string option" where
  "info_section m res txt = map_option (\<lambda>buf. (if res = [] then [] else res @ CRLF) @ buf) (info_buf m txt)"

text \<open>The values the kernel reports in bytes, and the two that are also printed in megabytes by \<open>std::to_string\<close>.\<close>

record memory_info =
  VmPeak :: nat
  VmSize :: nat
  VmHWM :: nat
  VmRSS :: nat
  VmLck :: nat
  VmSwap :: nat

definition OnMemoryInfoCollect :: "(nat \<Rightarrow> string) \<Rightarrow> memory_info \<Rightarrow> string \<Rightarrow> string option" where
  "OnMemoryInfoCollect megabytes m res =
     info_section 1023 res
       (''# Memory'' @ CRLF @ ''used_memory_peak:'' @ show_nat (VmPeak m) @ CRLF @ ''used_memory:'' @ show_nat (VmSize m) @ CRLF @
        ''used_memory_human:'' @ megabytes (VmSize m) @ ''MB'' @ CRLF @ ''used_memory_rss_peak:'' @ show_nat (VmHWM m) @ CRLF @
        ''used_memory_rss:'' @ show_nat (VmRSS m) @ CRLF @ ''used_memory_rss_human:'' @ megabytes (VmRSS m) @ ''MB'' @ CRLF @
        ''used_memory_lock:'' @ show_nat (VmLck m) @ CRLF @ ''used_memory_swap:'' @ show_nat (VmSwap m) @ CRLF)"

record host_info =
  sysname :: string
  release :: string
  machine :: string
  runid :: string
  hz :: int
  tcp_port :: nat

definition OnServerInfoCollect :: "host_info \<Rightarrow> string \<Rightarrow> string option" where
  "OnServerInfoCollect h res =
     info_section 1023 res
       (''# Server'' @ CRLF @ ''redis_mode:standalone'' @ CRLF @ ''os:'' @ sysname h @ '' '' @ release h @ '' '' @ machine h @ CRLF @
        ''run_id:'' @ runid h @ CRLF @ ''hz:'' @ show_int (hz h) @ CRLF @ ''tcp_port:'' @ show_nat (tcp_port h) @ CRLF)"

definition OnClientInfoCollect :: "server \<Rightarrow> string \<Rightarrow> string option" where
  "OnClientInfoCollect s res =
     info_section 1023 res
       (''# Clients'' @ CRLF @ ''connected_clients:'' @ show_nat (length (clients s)) @ CRLF @
        ''blocked_clients:'' @ show_nat (BlockedSize s) @ CRLF)"

text \<open>\<open>ip_of\<close> is the text of an address, \<open>peer\<close> the address of a client.\<close>

definition slave_state_text :: "QSlaveState \<Rightarrow> string" where
  "slave_state_text st =
     (case st of QSlaveState_none \<Rightarrow> ''none'' | QSlaveState_online \<Rightarrow> ''online'' | _ \<Rightarrow> ''wait_bgsave'')"

fun info_slaves :: "(client_id \<Rightarrow> string) \<Rightarrow> server \<Rightarrow> nat \<Rightarrow> (client_id \<times> QSlaveInfo) list \<Rightarrow> nat \<times> string" where
  "info_slaves peer s n [] = (n, [])"
| "info_slaves peer s n ((i, x) # ls) =
     (if alive i s then
        (case info_slaves peer s (n + 1) ls of
           (k, txt) \<Rightarrow> (k, ''slave'' @ show_nat n @ '':'' @ peer i @ '','' @ show_nat (listenPort x) @ '','' @
                           slave_state_text (slave_state x) @ CRLF @ txt))
      else info_slaves peer s n ls)"

definition info_master :: "(32 word \<Rightarrow> string) \<Rightarrow> int \<Rightarrow> replication \<Rightarrow> string option" where
  "info_master ip_of now_sec r =
     (case m_addr (masterInfo r) of
        None \<Rightarrow> Some []
      | Some (ip, port) \<Rightarrow>
          let txt = ''master_host:'' @ ip_of ip @ CRLF @ ''master_port:'' @ show_nat port @ CRLF @ ''master_link_status:''
          in if the_master r \<noteq> None then Some (txt @ ''up'' @ CRLF)
             else if downSince (masterInfo r) = 0 then None
             else Some (txt @ ''down'' @ CRLF @ ''master_link_down_since_seconds:'' @
                        show_int (now_sec - downSince (masterInfo r)) @ CRLF))"

definition OnInfoCommand ::
  "(client_id \<Rightarrow> string) \<Rightarrow> (32 word \<Rightarrow> string) \<Rightarrow> int \<Rightarrow> replication \<Rightarrow> string \<Rightarrow> string option" where
  "OnInfoCommand peer ip_of now_sec r res =
     (case info_slaves peer (srv r) 0 (links r) of
        (n, txt) \<Rightarrow>
          Option.bind (info_master ip_of now_sec r) (\<lambda>mtxt.
            map_option (\<lambda>res. res @ mtxt)
              (info_section 1024 res
                (''# Replication'' @ CRLF @ ''role:'' @ (if m_addr (masterInfo r) = None then ''master'' else ''slave'') @ CRLF @
                 ''connected_slaves:'' @ show_nat n @ CRLF @ txt))))"

text \<open>The four collectors in the order they are registered.\<close>

definition info_cmd ::
  "(nat \<Rightarrow> string) \<Rightarrow> memory_info \<Rightarrow> host_info \<Rightarrow> (client_id \<Rightarrow> string) \<Rightarrow> (32 word \<Rightarrow> string) \<Rightarrow> int \<Rightarrow> reply \<Rightarrow> replication \<Rightarrow> repl_result" where
  "info_cmd megabytes m h peer ip_of now_sec rep r =
     map_option (\<lambda>res. (QError_ok, FormatBulk res rep, r))
       (Option.bind (OnMemoryInfoCollect megabytes m []) (\<lambda>res.
        Option.bind (OnServerInfoCollect h res) (\<lambda>res.
        Option.bind (OnClientInfoCollect (srv r) res) (OnInfoCommand peer ip_of now_sec r))))"

subsection \<open>SHUTDOWN\<close>

text \<open>The file that is written, if any; the flag tells that the server is told to end.\<close>

definition shutdown_cmd ::
  "(server \<Rightarrow> (string \<times> server) option) \<Rightarrow> QString list \<Rightarrow> reply \<Rightarrow> server \<Rightarrow> (bool \<times> string option \<times> QError \<times> reply \<times> server) option" where
  "shutdown_cmd saver params rep s =
     (if length params = 2 \<and> strncaseeq (params ! 1) ''save'' 4
      then map_option (\<lambda>(content, s). (True, Some content, QError_ok, rep, s)) (saver s)
      else Some (True, None, QError_ok, rep, s))"

end
