(* ===== verification/Syncing.thy ===== *)
theory Syncing
  imports Replication Safety
begin

text \<open>
  How a master brings its slaves up to date, and how a slave receives the file: what is sent, in which order, and what is lost.
\<close>

subsection \<open>What a slave is sent\<close>

definition packets :: "client_id \<Rightarrow> server \<Rightarrow> string option" where
  "packets i s = map_option out (map_of (clients s) i)"

definition slaves_ok :: "replication \<Rightarrow> bool" where
  "slaves_ok r \<longleftrightarrow> distinct (map fst (links r)) \<and> slaves (srv r) = link_view (links r)"

lemma put_client_fields [simp]:
  "bgsaving (put_client i c s) = bgsaving s" "replBuf (put_client i c s) = replBuf s" "slaves (put_client i c s) = slaves s"
  "masterState (put_client i c s) = masterState s" "qdbPid (put_client i c s) = qdbPid s" "rewritePid (put_client i c s) = rewritePid s"
  "map_of (clients (put_client i c s)) j = (if j = i then Some c else map_of (clients s) j)"
  by (simp_all add: put_client_def update_conv)

lemma send_fields [simp]:
  "bgsaving (send i b s) = bgsaving s" "replBuf (send i b s) = replBuf s" "slaves (send i b s) = slaves s"
  "masterState (send i b s) = masterState s" "qdbPid (send i b s) = qdbPid s" "rewritePid (send i b s) = rewritePid s"
  "alive j (send i b s) = alive j s"
  by (simp_all add: send_def alive_def split: option.splits)

lemma packets_send: "packets j (send i b s) = (if j = i then map_option (\<lambda>x. x @ b) (packets j s) else packets j s)"
  by (simp add: packets_def send_def SendPacket_def split: option.splits)

lemma send_to_send: "send_to b (i, online) s = (if online then send i b s else s)"
  by (simp add: send_to_def send_def split: option.split)

lemma alive_packets: "alive i s \<longleftrightarrow> packets i s \<noteq> None"
  by (simp add: alive_def packets_def)

lemma fold_send_to_fields [simp]:
  "bgsaving (fold (send_to b) xs s) = bgsaving s" "replBuf (fold (send_to b) xs s) = replBuf s"
  "slaves (fold (send_to b) xs s) = slaves s" "masterState (fold (send_to b) xs s) = masterState s"
  "qdbPid (fold (send_to b) xs s) = qdbPid s" "rewritePid (fold (send_to b) xs s) = rewritePid s"
  "alive j (fold (send_to b) xs s) = alive j s"
  by (induction xs arbitrary: s) (auto simp: send_to_send split: if_splits)

lemma packets_fold_send_to:
  "distinct (map fst xs) \<Longrightarrow>
   packets i (fold (send_to b) xs s) = (if map_of xs i = Some True then map_option (\<lambda>x. x @ b) (packets i s) else packets i s)"
proof (induction xs arbitrary: s)
  case (Cons x xs)
  obtain j online where x: "x = (j, online)" by (cases x)
  have "map_of xs j = None" using Cons.prems x by (simp add: map_of_eq_None_iff)
  then show ?case using Cons x by (auto simp: send_to_send packets_send)
qed simp

lemma link_view_lookup: "map_of (link_view ls) i = map_option (\<lambda>x. slave_state x = QSlaveState_online) (map_of ls i)"
  by (induction ls) (auto simp: link_view_def)

lemma link_view_fst [simp]: "map fst (link_view ls) = map fst ls"
  by (auto simp: link_view_def)

lemma packets_upd [simp]:
  "packets i (s\<lparr>replBuf := b\<rparr>) = packets i s" "packets i (s\<lparr>bgsaving := g\<rparr>) = packets i s" "packets i (s\<lparr>slaves := l\<rparr>) = packets i s"
  "packets i (s\<lparr>qdbPid := p\<rparr>) = packets i s"
  "alive i (s\<lparr>replBuf := b\<rparr>) = alive i s" "alive i (s\<lparr>bgsaving := g\<rparr>) = alive i s" "alive i (s\<lparr>slaves := l\<rparr>) = alive i s"
  "alive i (s\<lparr>qdbPid := p\<rparr>) = alive i s"
  by (simp_all add: packets_def alive_def)

lemma SendToSlaves_fields [simp]:
  "bgsaving (SendToSlaves ps s) = bgsaving s" "slaves (SendToSlaves ps s) = slaves s" "masterState (SendToSlaves ps s) = masterState s"
  "qdbPid (SendToSlaves ps s) = qdbPid s" "rewritePid (SendToSlaves ps s) = rewritePid s" "alive j (SendToSlaves ps s) = alive j s"
  by (simp_all add: SendToSlaves_def)

text \<open>A sequence of writes.\<close>

definition writes :: "QString list list \<Rightarrow> replication \<Rightarrow> replication" where
  "writes ws r = upd_srv (fold SendToSlaves ws) r"

definition write_log :: "QString list list \<Rightarrow> string" where
  "write_log ws = concat (map SaveCommand ws)"

lemma writes_links [simp]: "links (writes ws r) = links r"
  by (simp add: writes_def upd_srv_def)

lemma fold_SendToSlaves_fields [simp]:
  "bgsaving (fold SendToSlaves ws s) = bgsaving s" "slaves (fold SendToSlaves ws s) = slaves s"
  "qdbPid (fold SendToSlaves ws s) = qdbPid s" "alive j (fold SendToSlaves ws s) = alive j s"
  by (induction ws arbitrary: s) auto

text \<open>While a file is saved for the slaves, the writes gather in the buffer; otherwise every slave that is online gets them.\<close>

lemma writes_bgsaving:
  assumes "bgsaving s"
  shows "fold SendToSlaves ws s = s\<lparr>replBuf := replBuf s @ write_log ws\<rparr>"
  using assms
proof (induction ws arbitrary: s)
  case (Cons w ws)
  have "SendToSlaves w s = s\<lparr>replBuf := replBuf s @ SaveCommand w\<rparr>" using Cons.prems by (simp add: SendToSlaves_def)
  then show ?case using Cons by (simp add: write_log_def)
qed (simp add: write_log_def)

lemma writes_online:
  assumes "\<not> bgsaving s" "distinct (map fst (slaves s))" "map_of (slaves s) i = Some True" "packets i s = Some old"
  shows "packets i (fold SendToSlaves ws s) = Some (old @ write_log ws)"
  using assms
proof (induction ws arbitrary: s old)
  case (Cons w ws)
  have "packets i (SendToSlaves w s) = Some (old @ SaveCommand w)"
    using Cons.prems by (simp add: SendToSlaves_def packets_fold_send_to)
  then show ?case using Cons.IH [of "SendToSlaves w s"] Cons.prems by (simp add: write_log_def)
qed (simp add: write_log_def)

lemma set_links_simps [simp]:
  "links (set_links ls r) = ls" "srv (set_links ls r) = (srv r)\<lparr>slaves := link_view ls\<rparr>" "masterInfo (set_links ls r) = masterInfo r"
  by (simp_all add: set_links_def upd_srv_def)

lemma upd_srv_simps [simp]: "srv (upd_srv f r) = f (srv r)" "links (upd_srv f r) = links r" "masterInfo (upd_srv f r) = masterInfo r"
  by (simp_all add: upd_srv_def)

subsection \<open>The end of a background save\<close>

lemma send_rdb_fields [simp]:
  "send_rdb rdb ls s = (ls', ok, s') \<Longrightarrow> bgsaving s' = bgsaving s"
  "send_rdb rdb ls s = (ls', ok, s') \<Longrightarrow> replBuf s' = replBuf s"
  "send_rdb rdb ls s = (ls', ok, s') \<Longrightarrow> qdbPid s' = qdbPid s"
  "send_rdb rdb ls s = (ls', ok, s') \<Longrightarrow> masterState s' = masterState s"
  "send_rdb rdb ls s = (ls', ok, s') \<Longrightarrow> rewritePid s' = rewritePid s"
  "send_rdb rdb ls s = (ls', ok, s') \<Longrightarrow> alive j s' = alive j s"
  "send_rdb rdb ls s = (ls', ok, s') \<Longrightarrow> map fst ls' = map fst ls"
  by (induction rdb ls s arbitrary: ls' ok s' rule: send_rdb.induct; auto simp: Let_def split: if_splits option.splits prod.splits)+

text \<open>With a file, every slave that waits for it is sent the file and the buffer and is online; the others are as before.\<close>

definition served :: "server \<Rightarrow> client_id \<times> QSlaveInfo \<Rightarrow> client_id \<times> QSlaveInfo" where
  "served s = (\<lambda>(i, x). (i, if alive i s \<and> slave_state x = QSlaveState_wait_bgsave_end then x\<lparr>slave_state := QSlaveState_online\<rparr> else x))"

lemma send_rdb_file:
  assumes "distinct (map fst ls)"
  shows "\<exists>s'. send_rdb (Some f) ls s = (map (served s) ls, True, s') \<and>
    (\<forall>i. packets i s' =
      (if map_option slave_state (map_of ls i) = Some QSlaveState_wait_bgsave_end
       then map_option (\<lambda>x. x @ rdb_packet f @ replBuf s) (packets i s) else packets i s))"
  using assms
proof (induction ls arbitrary: s)
  case (Cons l ls)
  obtain j x where l: "l = (j, x)" by (cases l)
  have no: "map_of ls j = None" using Cons.prems l by (simp add: map_of_eq_None_iff)
  show ?case
  proof (cases "alive j s \<and> slave_state x = QSlaveState_wait_bgsave_end")
    case True
    let ?s = "send j (replBuf s) (send j (rdb_packet f) s)"
    obtain s' where s': "send_rdb (Some f) ls ?s = (map (served ?s) ls, True, s')"
      "\<forall>i. packets i s' = (if map_option slave_state (map_of ls i) = Some QSlaveState_wait_bgsave_end
        then map_option (\<lambda>x. x @ rdb_packet f @ replBuf ?s) (packets i ?s) else packets i ?s)"
      using Cons.IH [of ?s] Cons.prems by auto
    have "served ?s = served s" by (simp add: served_def fun_eq_iff)
    then have "send_rdb (Some f) (l # ls) s = (map (served s) (l # ls), True, s')"
      using s'(1) True l by (simp add: Let_def served_def)
    moreover have "packets i s' = (if map_option slave_state (map_of (l # ls) i) = Some QSlaveState_wait_bgsave_end
        then map_option (\<lambda>x. x @ rdb_packet f @ replBuf s) (packets i s) else packets i s)" for i
      using s'(2) no True by (auto simp: l packets_send option.map_comp comp_def)
    ultimately show ?thesis by blast
  next
    case False
    obtain s' where s': "send_rdb (Some f) ls s = (map (served s) ls, True, s')"
      "\<forall>i. packets i s' = (if map_option slave_state (map_of ls i) = Some QSlaveState_wait_bgsave_end
        then map_option (\<lambda>x. x @ rdb_packet f @ replBuf s) (packets i s) else packets i s)"
      using Cons.IH [of s] Cons.prems by auto
    have "send_rdb (Some f) (l # ls) s = (map (served s) (l # ls), True, s')"
      using s'(1) False l by (auto simp: served_def)
    moreover have "packets i s' = (if map_option slave_state (map_of (l # ls) i) = Some QSlaveState_wait_bgsave_end
        then map_option (\<lambda>x. x @ rdb_packet f @ replBuf s) (packets i s) else packets i s)" for i
      using s'(2) no False by (auto simp: l alive_packets)
    ultimately show ?thesis by blast
  qed
qed simp


text \<open>The beginning of a background save for slaves.\<close>

definition begun :: "server \<Rightarrow> client_id \<times> QSlaveInfo \<Rightarrow> client_id \<times> QSlaveInfo" where
  "begun s = (\<lambda>(i, x). if alive i s \<and> slave_state x = QSlaveState_wait_bgsave_start
                       then (i, x\<lparr>slave_state := QSlaveState_wait_bgsave_end\<rparr>) else (i, x))"

lemma map_of_relabel: "(\<And>p. fst (g p) = fst p) \<Longrightarrow> map_of (map g ls) i = map_option (\<lambda>x. snd (g (i, x))) (map_of ls i)"
proof (induction ls)
  case (Cons l ls)
  then show ?case by (cases l) (metis (no_types, lifting) fst_conv list.simps(9) map_of_Cons_code(2) option.simps(9) prod.collapse)
qed simp

lemma begun_simps:
  "map_of (map (begun s) ls) i = map_option (\<lambda>x. snd (begun s (i, x))) (map_of ls i)" "map fst (map (begun s) ls) = map fst ls"
  by (rule map_of_relabel) (auto simp: begun_def)

lemma served_simps:
  "map_of (map (served s) ls) i = map_option (\<lambda>x. snd (served s (i, x))) (map_of ls i)" "map fst (map (served s) ls) = map fst ls"
  by (rule map_of_relabel) (auto simp: served_def)

lemma TryBgsave_started:
  assumes "\<not> IsBgsaving r" "HasAnyWaitingBgsave r" "pid \<noteq> -1"
  shows "links (TryBgsave pid r) = map (begun (srv r)) (links r)"
    "srv (TryBgsave pid r) = (srv r)\<lparr>qdbPid := pid, replBuf := [], bgsaving := True, slaves := link_view (map (begun (srv r)) (links r))\<rparr>"
proof -
  have "TryBgsave pid r = OnStartBgsave True (upd_srv (\<lambda>s. s\<lparr>qdbPid := pid\<rparr>) r)" using assms by (simp add: TryBgsave_def)
  moreover have "(\<lambda>(i, x). if case (i, x) of (i, x) \<Rightarrow> alive i (srv r) \<and> slave_state x = QSlaveState_wait_bgsave_start
      then (i, x\<lparr>slave_state := QSlaveState_wait_bgsave_end\<rparr>) else (i, x)) = begun (srv r)"
    by (auto simp: begun_def fun_eq_iff)
  ultimately show "links (TryBgsave pid r) = map (begun (srv r)) (links r)"
    "srv (TryBgsave pid r) = (srv r)\<lparr>qdbPid := pid, replBuf := [], bgsaving := True, slaves := link_view (map (begun (srv r)) (links r))\<rparr>"
    by (simp_all add: OnStartBgsave_def Let_def)
qed

lemma waiting_slave: "map_of (links r) i = Some x \<Longrightarrow> slave_state x = QSlaveState_wait_bgsave_start \<Longrightarrow> alive i (srv r) \<Longrightarrow> HasAnyWaitingBgsave r"
  by (force simp: HasAnyWaitingBgsave_def dest: map_of_SomeD)

text \<open>A save for slaves as a whole: begun, writes \<open>ws\<close> while it runs, ended with the file \<open>f\<close>.\<close>

definition sync_save :: "int \<Rightarrow> QString list list \<Rightarrow> string \<Rightarrow> replication \<Rightarrow> replication" where
  "sync_save pid ws f r = OnRdbSaveDone (Some f) (writes ws (TryBgsave pid r))"

lemma sync_save_result:
  assumes "slaves_ok r" "\<not> IsBgsaving r" "HasAnyWaitingBgsave r" "pid \<noteq> -1"
  shows "slaves_ok (sync_save pid ws f r)" "\<not> IsBgsaving (sync_save pid ws f r)" "replBuf (srv (sync_save pid ws f r)) = []"
    "map_of (links (sync_save pid ws f r)) i = map_option (\<lambda>x. snd (served (srv r) (begun (srv r) (i, x)))) (map_of (links r) i)"
    "packets i (srv (sync_save pid ws f r)) =
      (if map_option (\<lambda>x. slave_state (snd (begun (srv r) (i, x)))) (map_of (links r) i) = Some QSlaveState_wait_bgsave_end
       then map_option (\<lambda>x. x @ rdb_packet f @ write_log ws) (packets i (srv r)) else packets i (srv r))"
proof -
  let ?ls = "map (begun (srv r)) (links r)"
  let ?s = "(srv r)\<lparr>qdbPid := pid, replBuf := write_log ws, bgsaving := False, slaves := link_view ?ls\<rparr>"
  let ?r = "writes ws (TryBgsave pid r)"
  note b = TryBgsave_started [OF assms(2-4)]
  have d: "distinct (map fst ?ls)" using assms(1) by (simp only: slaves_ok_def begun_simps(2))
  have w: "links ?r = ?ls" "(srv ?r)\<lparr>bgsaving := False\<rparr> = ?s"
    using b writes_bgsaving [of "srv (TryBgsave pid r)" ws] by (simp_all add: writes_def)
  obtain s' where s': "send_rdb (Some f) ?ls ?s = (map (served ?s) ?ls, True, s')"
    "\<And>i. packets i s' = (if map_option slave_state (map_of ?ls i) = Some QSlaveState_wait_bgsave_end
       then map_option (\<lambda>x. x @ rdb_packet f @ replBuf ?s) (packets i ?s) else packets i ?s)"
    using send_rdb_file [OF d, of f ?s] by blast
  have sv: "served ?s = served (srv r)" by (simp add: served_def fun_eq_iff alive_def)
  have res: "sync_save pid ws f r = set_links (map (served (srv r)) ?ls) (?r\<lparr>srv := s'\<lparr>replBuf := []\<rparr>\<rparr>)"
    using s'(1) w sv by (simp add: sync_save_def OnRdbSaveDone_def)
  show "slaves_ok (sync_save pid ws f r)" using d by (simp only: res slaves_ok_def set_links_simps served_simps(2)) simp
  show "\<not> IsBgsaving (sync_save pid ws f r)" using send_rdb_fields(1) [OF s'(1)] by (simp add: res IsBgsaving_def)
  show "replBuf (srv (sync_save pid ws f r)) = []" by (simp add: res)
  show "map_of (links (sync_save pid ws f r)) i = map_option (\<lambda>x. snd (served (srv r) (begun (srv r) (i, x)))) (map_of (links r) i)"
    by (simp only: res set_links_simps served_simps begun_simps option.map_comp comp_def)
      (auto simp: begun_def served_def intro!: option.map_cong)
  have e: "packets i (srv (sync_save pid ws f r)) = packets i s'" "packets i ?s = packets i (srv r)" "replBuf ?s = write_log ws"
    by (simp add: res) (simp_all add: packets_def)
  show "packets i (srv (sync_save pid ws f r)) =
      (if map_option (\<lambda>x. slave_state (snd (begun (srv r) (i, x)))) (map_of (links r) i) = Some QSlaveState_wait_bgsave_end
       then map_option (\<lambda>x. x @ rdb_packet f @ write_log ws) (packets i (srv r)) else packets i (srv r))"
    using s'(2) [of i] by (simp only: e begun_simps option.map_comp comp_def)
qed


definition one_waiting :: replication where
  "one_waiting = \<lparr>srv = put_client 1 client_new (server_new\<lparr>slaves := [(1, False)]\<rparr>),
     links = [(1, \<lparr>slave_state = QSlaveState_wait_bgsave_start, listenPort = 6380\<rparr>)], masterInfo = QMasterInfo_new,
     master_client = None, rdb_tmp = [], pingCron = 0, lastQDBSave = 0\<rparr>"

lemma client_new_out: "out client_new = []"
  by (simp add: client_new_def)


text \<open>C38: A slave that is online loses what is written while a file is saved for another slave: the writes go into the buffer, the
  buffer goes to the slaves that wait for the file only, and it is emptied. The slave stays online and does not learn of it.\<close>

theorem online_slave_misses_writes:
  assumes "slaves_ok r" "\<not> IsBgsaving r" "HasAnyWaitingBgsave r" "pid \<noteq> -1"
    and "map_of (links r) i = Some x" "slave_state x = QSlaveState_online"
  shows "packets i (srv (sync_save pid ws f r)) = packets i (srv r) \<and> map_of (links (sync_save pid ws f r)) i = Some x \<and>
    replBuf (srv (sync_save pid ws f r)) = []"
  using sync_save_result [OF assms(1-4), where ws = ws and f = f] assms(5,6) by (simp_all add: begun_def served_def)

definition online_and_waiting :: replication where
  "online_and_waiting = \<lparr>srv = put_client 1 client_new (put_client 2 client_new (server_new\<lparr>slaves := [(2, True), (1, False)]\<rparr>)),
     links = [(2, \<lparr>slave_state = QSlaveState_online, listenPort = 6381\<rparr>),
              (1, \<lparr>slave_state = QSlaveState_wait_bgsave_start, listenPort = 6380\<rparr>)], masterInfo = QMasterInfo_new,
     master_client = None, rdb_tmp = [], pingCron = 0, lastQDBSave = 0\<rparr>"

theorem online_slave_misses_writes_witness:
  "packets 2 (srv (sync_save 77 [[''set'', ''k'', ''v'']] ''RDB'' online_and_waiting)) = Some []"
  using online_slave_misses_writes [of online_and_waiting 77 2 "\<lparr>slave_state = QSlaveState_online, listenPort = 6381\<rparr>"
      "[[''set'', ''k'', ''v'']]" "''RDB''"]
  by (simp add: online_and_waiting_def slaves_ok_def link_view_def IsBgsaving_def HasAnyWaitingBgsave_def packets_def alive_def
      server_new_def put_client_def client_new_out)

text \<open>C39: SYNC while a BGSAVE runs. The slave should wait for that process; instead a second one is forked at once and its number
  replaces the first in \<open>g_qdbPid\<close>, and when the first ends, \<open>CheckChild\<close> does not know it: the assertion stops the server.\<close>

theorem sync_during_bgsave_kills:
  assumes "slaves_ok r" "current (srv r) = Some i" "alive i (srv r)" "map_of (links r) i = None"
    and "\<not> IsBgsaving r" "qdbPid (srv r) = p" "p \<noteq> -1" "pid \<notin> {-1, p}" "rewritePid (srv r) \<noteq> p"
  shows "\<exists>r'. sync_cmd pid ps rep r = Some (QError_ok, rep, r') \<and> qdbPid (srv r') = pid \<and> IsBgsaving r' \<and>
    CheckChild t (Some (p, 0, 0)) rdb pid' r' = None"
proof -
  define r0 where "r0 = set_slave_state i QSlaveState_wait_bgsave_start (need_slave i r)"
  have l: "links (need_slave i r) = links r @ [(i, QSlaveInfo_new)]" "\<And>j. alive j (srv (need_slave i r)) = alive j (srv r)"
    "bgsaving (srv (need_slave i r)) = bgsaving (srv r)" "rewritePid (srv (need_slave i r)) = rewritePid (srv r)"
    using assms(4) by (simp_all add: need_slave_def AddSlave_def)
  have st: "slave_state_of i (need_slave i r) = Some QSlaveState_none"
    using l assms(4) by (simp add: slave_state_of_def QSlaveInfo_new_def map_add_def)
  have cur: "\<exists>c. Current (srv r) = Some (i, c)" using assms(2,3) by (auto simp: Current_def alive_def)
  then have sync: "sync_cmd pid ps rep r = Some (QError_ok, rep, TryBgsave pid r0)" using st by (auto simp: sync_cmd_def r0_def)
  have "HasAnyWaitingBgsave r0"
    using l assms(3) by (auto simp: HasAnyWaitingBgsave_def r0_def set_slave_state_def)
  moreover have "\<not> IsBgsaving r0" using l assms(5) by (simp add: r0_def set_slave_state_def IsBgsaving_def)
  ultimately have t: "srv (TryBgsave pid r0) = (srv r0)\<lparr>qdbPid := pid, replBuf := [], bgsaving := True, slaves := link_view (map (begun (srv r0)) (links r0))\<rparr>"
    using TryBgsave_started(2) assms(8) by simp
  have "rewritePid (srv r0) = rewritePid (srv r)" using l by (simp add: r0_def set_slave_state_def)
  then have "CheckChild t (Some (p, 0, 0)) rdb pid' (TryBgsave pid r0) = None"
    using t assms(8,9) by (auto simp: CheckChild_def)
  then show ?thesis using sync t by (auto simp: IsBgsaving_def)
qed

theorem sync_during_bgsave_kills_witness:
  "\<exists>r'. sync_cmd 78 [''sync''] None (one_waiting\<lparr>links := [],
      srv := (put_client 1 client_new server_new)\<lparr>current := Some 1, qdbPid := 77\<rparr>\<rparr>) = Some (QError_ok, None, r') \<and>
    qdbPid (srv r') = 78 \<and> IsBgsaving r' \<and> CheckChild 5 (Some (77, 0, 0)) None 79 r' = None"
  using sync_during_bgsave_kills [of "one_waiting\<lparr>links := [],
      srv := (put_client 1 client_new server_new)\<lparr>current := Some 1, qdbPid := 77\<rparr>\<rparr>" 1 77 78 "[''sync'']" None 5 None 79]
  by (simp add: slaves_ok_def link_view_def IsBgsaving_def alive_def server_new_def put_client_def)


subsection \<open>A slave receives the file\<close>

lemma state_simps [simp]:
  "GetMasterState (SetRdbSize n r) = GetMasterState r" "masterInfo (SetRdbSize n r) = (masterInfo r)\<lparr>rdbSize := Some n\<rparr>"
  "srv (SetRdbSize n r) = srv r" "rdb_tmp (SetRdbSize n r) = rdb_tmp r"
  by (simp_all add: GetMasterState_def SetRdbSize_def)

lemma GetIntUntilCRLF_digits:
  assumes "ds \<noteq> []" "\<forall>c \<in> set ds. isdigit c" "digits_value ds < 2 ^ 31"
  shows "GetIntUntilCRLF (ds @ CRLF @ rest) = (QParseResult_ok, length ds + 2, digits_value ds)"
proof -
  obtain c cs where c: "ds = c # cs" "isdigit c" using assms(1,2) by (cases ds) auto
  then have "c \<noteq> CHR ''-''" "c \<noteq> CHR ''+''" by auto
  moreover have "GetInt_loop 0 0 (ds @ CR # LF # rest) = (QParseResult_ok, 0 + length ds + 2, 0 * 10 ^ length ds + digits_value ds)"
    using assms by (intro GetInt_loop_digits) auto
  ultimately show ?thesis using c by (simp add: GetIntUntilCRLF_def CRLF_def Let_def)
qed

definition awaits_file :: "replication \<Rightarrow> bool" where
  "awaits_file r \<longleftrightarrow> GetMasterState r = QReplState_wait_rdb \<and> rdbSize (masterInfo r) = None \<and> rdbRecved (masterInfo r) = 0 \<and> rdb_tmp r = []"

text \<open>The line before the file.\<close>

definition rdb_header :: "string \<Rightarrow> string" where
  "rdb_header f = ''$'' @ show_nat (length f) @ CRLF"

lemma rdb_packet_header: "rdb_packet f = rdb_header f @ f"
  by (simp add: rdb_packet_def rdb_header_def)

lemma header_read:
  assumes "awaits_file r" "0 < length f" "length f < 2 ^ 31"
  shows "ProcessMaster L pad i (rdb_header f @ rest) r = Some (Some (length (rdb_header f)), SetRdbSize (length f) r)"
  using assms GetIntUntilCRLF_show_nat [of "length f" rest]
  by (simp add: ProcessMaster_def awaits_file_def rdb_header_def CRLF_def)

text \<open>The bytes of the file, one piece of what arrives after the other.\<close>

fun receive_file :: "rdb_libs \<Rightarrow> nat \<Rightarrow> client_id \<Rightarrow> string list \<Rightarrow> replication \<Rightarrow> replication option" where
  "receive_file L pad i [] r = Some r"
| "receive_file L pad i (c # cs) r =
     (case ProcessMaster L pad i c r of
        Some (Some n, r) \<Rightarrow> if n = length c then receive_file L pad i cs r else None
      | _ \<Rightarrow> None)"

definition file_loaded :: "string \<Rightarrow> server \<Rightarrow> replication \<Rightarrow> replication" where
  "file_loaded f s r =
     r\<lparr>srv := s\<lparr>masterState := QReplState_online\<rparr>, rdb_tmp := f,
       masterInfo := (masterInfo r)\<lparr>rdbRecved := length f, downSince := 0\<rparr>\<rparr>"

lemma SaveTmpRdb_last:
  assumes "rdbSize (masterInfo r) = Some (length f)" "rdbRecved (masterInfo r) + length c = length f" "rdb_tmp r @ c = f"
    and "QDB_Load L (f @ replicate pad NUL) (ResetDb (srv r)) = Some (res, s)"
  shows "SaveTmpRdb L pad c r = Some (length c, file_loaded f s r)"
proof -
  have "take (length c) c = c" "rdb_tmp r @ c @ replicate pad NUL = f @ replicate pad NUL" using assms(3) by auto
  then show ?thesis using assms by (simp add: SaveTmpRdb_def Let_def SetMasterState_def upd_srv_def file_loaded_def)
qed

lemma SaveTmpRdb_more:
  assumes "rdbSize (masterInfo r) = Some n" "rdbRecved (masterInfo r) + length c < n"
  shows "SaveTmpRdb L pad c r = Some (length c, r\<lparr>rdb_tmp := rdb_tmp r @ c,
    masterInfo := (masterInfo r)\<lparr>rdbRecved := rdbRecved (masterInfo r) + length c\<rparr>\<rparr>)"
  using assms by (simp add: SaveTmpRdb_def Let_def)

lemma receive_pieces:
  assumes "GetMasterState r = QReplState_wait_rdb" "rdbSize (masterInfo r) = Some (length f)"
    and "rdbRecved (masterInfo r) = length (rdb_tmp r)" "rdb_tmp r @ concat cs = f" "length (rdb_tmp r) < length f" "[] \<notin> set cs"
    and "QDB_Load L (f @ replicate pad NUL) (ResetDb (srv r)) = Some (res, s)"
  shows "receive_file L pad i cs r = Some (file_loaded f s r)"
  using assms
proof (induction cs arbitrary: r)
  case (Cons c cs)
  let ?got = "rdb_tmp r @ c"
  have le: "length ?got \<le> length f" using Cons.prems(4) by auto
  let ?r = "r\<lparr>rdb_tmp := ?got, masterInfo := (masterInfo r)\<lparr>rdbRecved := length ?got\<rparr>\<rparr>"
  show ?case
  proof (cases "length ?got = length f")
    case True
    then have all: "?got = f" "cs = []" using Cons.prems(4,6) by (auto simp: concat_eq_Nil_conv) (metis list.set_intros(1) neq_Nil_conv)
    then have "ProcessMaster L pad i c r = Some (Some (length c), file_loaded f s r)"
      using SaveTmpRdb_last [OF Cons.prems(2) _ _ Cons.prems(7), of c] Cons.prems(1-3) by (auto simp: ProcessMaster_def)
    then show ?thesis using all by simp
  next
    case False
    then have "ProcessMaster L pad i c r = Some (Some (length c), ?r)"
      using SaveTmpRdb_more [OF Cons.prems(2), of c] Cons.prems(1-3) le by (simp add: ProcessMaster_def)
    moreover have "receive_file L pad i cs ?r = Some (file_loaded f s ?r)"
    proof (rule Cons.IH)
      show "rdb_tmp ?r @ concat cs = f" "length (rdb_tmp ?r) < length f" using Cons.prems(4) le False by auto
      show "QDB_Load L (f @ replicate pad NUL) (ResetDb (srv ?r)) = Some (res, s)" using Cons.prems(7) by simp
    qed (use Cons.prems(1-3,6) in \<open>simp_all add: GetMasterState_def\<close>)
    ultimately show ?thesis by (simp add: file_loaded_def)
  qed
qed simp

text \<open>The file of a master makes the slave its copy, whatever the slave held before.\<close>

lemma empty_after_reset: "store_ok (s :: server) \<Longrightarrow> d < length (store s) \<Longrightarrow> empty_at d (ResetDb s)"
  by (auto simp: empty_at_def vis_at_simps deadline_at_def ResetDb_def store_ok_def fun_eq_iff)

lemma db_loaded_masterState: "db_loaded fmt htab L d s (s'\<lparr>masterState := b\<rparr>) = db_loaded fmt htab L d s s'"
proof -
  have "vis_at d (s'\<lparr>masterState := b\<rparr>) = vis_at d s'" "deadline_at d (s'\<lparr>masterState := b\<rparr>) = deadline_at d s'"
    by (simp_all add: fun_eq_iff vis_at_simps deadline_at_def)
  then show ?thesis by (simp only: db_loaded_def)
qed


lemma dated_server_saved: "\<exists>f s2. QDB_Save (\<lambda>_. ''0'') (\<lambda>_ _. 0) (\<lambda>_. 0) dated_server = Some (f, s2) \<and> 5 < length f \<and> length f < 100"
proof -
  have d: "dbno dated_server = 0"
    by (simp add: dated_server_def put_obj_def upd_db_def SetExpire_def upd_exp_def Store_Init_def resize_def server_new_def kMaxDbNum_def)
  have sel: "SelectDB 0 dated_server = (0, dated_server)" "SelectDB 1 dated_server = (0, dated_server\<lparr>dbno := 1\<rparr>)"
    "SelectDB 2 (dated_server\<lparr>dbno := 1\<rparr>) = (-1, dated_server\<lparr>dbno := 1\<rparr>)"
    by (simp_all add: SelectDB_def dated_server d)
  have ttl: "TTL ''s'' 0 dated_server = (5000, dated_server)" 
    by (simp add: TTL_def ExistsKey_def GetObject_def ExpireIfNeed_def dated_server cur_exp_def cur_db_def d expired_def persist_def notExpire_def)
  let ?S = "Save_dbs (\<lambda>_. ''0'') (\<lambda>_ _. 0) (\<lambda>_. 0)" and ?t = "dated_server\<lparr>dbno := 1\<rparr>"
  have 2: "?S 2 ?t = Some ([], ?t)" using sel(3) by (subst Save_dbs.simps) simp
  have 1: "?S 1 dated_server = Some ([], ?t)"
    using sel(2) 2 by (subst Save_dbs.simps) (simp add: DBSize_def cur_db_def dated_server numeral_2_eq_2)
  obtain e where e: "save_entry (\<lambda>_. ''0'') (\<lambda>_ _. 0) ''s'' (obj_of (VRaw ''x'')) = Some e" "length e = 5"
    by (simp add: save_entry_def SaveKey_def SaveString_def letters_no_number SaveLZFString_def SaveLength_def SaveObject_rdb_def
        obj_of_def CreateString_def QObject_new_def GetDecodedString_def)
  have "?S 0 dated_server = Some (char_of (254::nat) # char_of (0::nat) # char_of (252::nat) # int64_bytes 5000 @ e, ?t)"
    using sel(1) 1 e(1) by (subst Save_dbs.simps) (simp add: DBSize_def cur_db_def dated_server d ttl SaveLength_def expired_def wrap64_def)
  then show ?thesis using e(2) by (simp add: QDB_Save_def Let_def int64_bytes_def)
qed

definition new_slave :: replication where
  "new_slave = \<lparr>srv = (Store_Init 2 server_new)\<lparr>masterState := QReplState_wait_rdb\<rparr>, links = [], masterInfo = QMasterInfo_new,
     master_client = None, rdb_tmp = [], pingCron = 0, lastQDBSave = 0\<rparr>"


text \<open>A header that arrives in two packets is misread: with only the dollar sign there, it is skipped, and with the rest it is
  skipped again, which now is the first digit. The slave waits for a file of the wrong length.\<close>

theorem split_header_misread:
  assumes "awaits_file r" "show_nat (length f) = d # ds" "digits_value ds \<noteq> 0" "length f < 2 ^ 31"
  shows "ProcessMaster L pad i ''$'' r = Some (Some 1, r)"
    "ProcessMaster L pad i (show_nat (length f) @ CRLF @ f) r =
      Some (Some (length (show_nat (length f)) + 2), SetRdbSize (nat (digits_value ds)) r)"
    "digits_value ds \<noteq> int (length f)"
proof -
  have dg: "\<forall>c \<in> set (d # ds). isdigit c" "digits_value (d # ds) = int (length f)"
    using show_nat_digits [of "length f"] show_nat_value [of "length f"] assms(2) by simp_all
  have ds: "ds \<noteq> []" using assms(3) by (auto simp: digits_value_def)
  have "length f \<noteq> 0" using assms(2) ds show_nat_0 by auto
  then have "0 < digit_value d" using show_nat_hd [of "length f"] assms(2) by auto
  then have "0 < digit_value d * 10 ^ length ds" by simp
  then have lt: "digits_value ds < int (length f)" "0 \<le> digits_value ds"
    using dg digits_value_nonneg [of ds] by (auto simp: digits_value_Cons)
  show "ProcessMaster L pad i ''$'' r = Some (Some 1, r)"
    using assms(1) by (simp add: ProcessMaster_def awaits_file_def GetIntUntilCRLF_def)
  show "ProcessMaster L pad i (show_nat (length f) @ CRLF @ f) r =
      Some (Some (length (show_nat (length f)) + 2), SetRdbSize (nat (digits_value ds)) r)"
    using assms GetIntUntilCRLF_digits [OF ds, of f] dg lt by (simp add: ProcessMaster_def awaits_file_def)
  show "digits_value ds \<noteq> int (length f)" using lt by simp
qed


theorem split_header_misread_witness:
  "show_nat (length (replicate 1234 NUL)) = ''1234'' \<and>
   ProcessMaster \<lparr>rdb_stream = \<lambda>_. 0, rdb_strtod = \<lambda>_. None\<rparr> 3 1 ''$'' new_slave = Some (Some 1, new_slave) \<and>
   ProcessMaster \<lparr>rdb_stream = \<lambda>_. 0, rdb_strtod = \<lambda>_. None\<rparr> 3 1 (''1234'' @ CRLF @ replicate 1234 NUL) new_slave =
     Some (Some 6, SetRdbSize 234 new_slave)"
proof -
  let ?f = "replicate 1234 NUL"
  have n: "show_nat (length ?f) = ''1234''" unfolding length_replicate by code_simp
  have v: "digits_value ''234'' = 234" by (simp add: digits_value_def digit_value_def code_def)
  have r: "awaits_file new_slave" by (simp add: new_slave_def awaits_file_def GetMasterState_def QMasterInfo_new_def)
  show ?thesis using split_header_misread(1,2) [OF r n, of _ 3 1] v n by simp
qed


subsection \<open>Slaves that come late\<close>

text \<open>A slave that asks for synchronisation while a file is saved for another one is left behind: the end of that save serves
  the others only and begins no save for it, and from then on no process runs, so that \<open>CheckChild\<close> does nothing any more.
  It waits until some other save happens to end or another slave asks.\<close>

theorem late_slave_is_left:
  assumes "slaves_ok r" "IsBgsaving r" "rewritePid (srv r) = -1" "qdbPid (srv r) \<noteq> -1" "slave_state_of j r = Some QSlaveState_wait_bgsave_start"
  shows "\<exists>r'. CheckChild t (Some (qdbPid (srv r), ex, sig)) (Some f) pid r = Some r' \<and> \<not> IsBgsaving r' \<and>
    slave_state_of j r' = Some QSlaveState_wait_bgsave_start \<and> (\<forall>t ended rdb pid. CheckChild t ended rdb pid r' = Some r')"
proof -
  define r0 where "r0 = SaveDoneHandler t ex sig r"
  have r0: "links r0 = links r" "IsBgsaving r0" "qdbPid (srv r0) = -1" "rewritePid (srv r0) = -1"
    using assms(2,3) by (simp_all add: r0_def SaveDoneHandler_def IsBgsaving_def Let_def)
  have "distinct (map fst (links r0))" using assms(1) r0(1) by (simp add: slaves_ok_def)
  from send_rdb_file [OF this, of f "(srv r0)\<lparr>bgsaving := False\<rparr>"] obtain s' where
    s': "send_rdb (Some f) (links r0) ((srv r0)\<lparr>bgsaving := False\<rparr>) = (map (served (srv r0\<lparr>bgsaving := False\<rparr>)) (links r0), True, s')" by blast
  let ?r = "OnRdbSaveDone (Some f) r0"
  have res: "links ?r = map (served (srv r0\<lparr>bgsaving := False\<rparr>)) (links r0)" "srv ?r = s'\<lparr>replBuf := [], slaves := link_view (links ?r)\<rparr>"
    by (simp_all add: OnRdbSaveDone_def s')
  have "qdbPid (srv ?r) = -1" "rewritePid (srv ?r) = -1" "\<not> IsBgsaving ?r"
    using res(2) send_rdb_fields(1,3,5) [OF s'] r0(3,4) by (simp_all add: IsBgsaving_def)
  moreover have "slave_state_of j ?r = Some QSlaveState_wait_bgsave_start"
  proof -
    obtain z where "map_of (links r) j = Some z" "slave_state z = QSlaveState_wait_bgsave_start"
      using assms(5) by (auto simp: slave_state_of_def)
    then show ?thesis unfolding slave_state_of_def res(1) r0(1) served_simps by (simp add: served_def)
  qed
  moreover have "CheckChild t (Some (qdbPid (srv r), ex, sig)) (Some f) pid r = Some ?r"
    using assms(3,4) r0(2) by (simp add: CheckChild_def r0_def)
  ultimately show ?thesis by (auto simp: CheckChild_def)
qed

definition late_slave :: replication where
  "late_slave = \<lparr>srv = put_client 1 client_new (put_client 2 client_new (server_new\<lparr>slaves := [(1, False), (2, False)], bgsaving := True, qdbPid := 77\<rparr>)),
     links = [(1, \<lparr>slave_state = QSlaveState_wait_bgsave_end, listenPort = 6380\<rparr>),
              (2, \<lparr>slave_state = QSlaveState_wait_bgsave_start, listenPort = 6381\<rparr>)], masterInfo = QMasterInfo_new,
     master_client = None, rdb_tmp = [], pingCron = 0, lastQDBSave = 0\<rparr>"

theorem late_slave_is_left_witness:
  "\<exists>r'. CheckChild 5 (Some (77, 0, 0)) (Some ''RDB'') 78 late_slave = Some r' \<and>
    slave_state_of 2 r' = Some QSlaveState_wait_bgsave_start \<and> CheckChild 6 None None 79 r' = Some r'"
  using late_slave_is_left [of late_slave 2 5 0 0 "''RDB''" 78]
  by (auto simp: late_slave_def slaves_ok_def link_view_def IsBgsaving_def slave_state_of_def server_new_def)

subsection \<open>INFO\<close>

lemma info_buf_long: "1024 < length tx \<Longrightarrow> m \<le> 1024 \<Longrightarrow> info_buf m tx = None"
  by (simp add: info_buf_def)

lemma info_slaves_length: "16 * length (filter (\<lambda>(i, x). alive i s) ls) \<le> length (snd (info_slaves peer s n ls))"
proof (induction ls arbitrary: n)
  case (Cons l ls)
  obtain i x where l: "l = (i, x)" by (cases l)
  obtain k tx where k: "info_slaves peer s (Suc n) ls = (k, tx)" by fastforce
  have "1 \<le> length (show_nat n)" "1 \<le> length (show_nat (listenPort x))"
    using show_nat_nonempty by (metis One_nat_def Suc_leI length_greater_0_conv)+
  moreover have "4 \<le> length (slave_state_text (slave_state x))" by (simp add: slave_state_text_def split: QSlaveState.split)
  ultimately show ?case using Cons.IH [of "Suc n"] Cons.IH [of n] k by (simp add: l CRLF_def)
qed simp

text \<open>INFO is fatal with many slaves, and on a slave that has not reached its master yet. The section about replication is printed
  into 1024 bytes, but as many bytes as the whole text has are sent from there; 64 slaves are always too many. And INFO
  asserts that the time is known since when the master is down, which SLAVEOF does not set.\<close>

theorem info_kills:
  assumes "64 \<le> length (filter (\<lambda>(i, x). alive i (srv r)) (links r)) \<or>
    m_addr (masterInfo r) \<noteq> None \<and> the_master r = None \<and> downSince (masterInfo r) = 0"
  shows "info_cmd megabytes m h peer ip_of t rep r = None"
proof -
  have "OnInfoCommand peer ip_of t r res = None" if "64 \<le> length (filter (\<lambda>(i, x). alive i (srv r)) (links r))" for res
  proof -
    obtain n tx where n: "info_slaves peer (srv r) 0 (links r) = (n, tx)" by fastforce
    then have "1024 \<le> length tx" using info_slaves_length [of "srv r" "links r" peer 0] that by simp
    then have "info_section 1024 res (''# Replication'' @ CRLF @ ''role:'' @ role @ CRLF @ ''connected_slaves:'' @ k @ CRLF @ tx) = None" for role k
      by (simp add: info_section_def info_buf_long)
    then show ?thesis using n by (simp add: OnInfoCommand_def)
  qed
  moreover have "OnInfoCommand peer ip_of t r res = None"
    if "m_addr (masterInfo r) \<noteq> None \<and> the_master r = None \<and> downSince (masterInfo r) = 0" for res
    using that by (auto simp: OnInfoCommand_def info_master_def split: prod.splits)
  ultimately have "OnInfoCommand peer ip_of t r = (\<lambda>_. None)" using assms by blast
  then show ?thesis by (simp add: info_cmd_def bind_eq_None_conv)
qed

theorem info_kills_witness:
  "\<exists>r'. slaveof_cmd (\<lambda>_. 7) [''slaveof'', ''10.0.0.1'', ''6379''] None (new_slave\<lparr>masterInfo := QMasterInfo_new\<rparr>) = Some (QError_ok, None, r') \<and>
    info_cmd (\<lambda>_. ''0.5'') m h peer ip_of t None r' = None"
proof -
  have s: "stoi ''6379'' = Some 6379"
    by (simp add: stoi_def strtol_sign_def isspace_def code_def in_base_def base_digit_def base_value_def)
  let ?r = "SetMasterState QReplState_none (SetMasterAddr (Some (7, 6379)) (new_slave\<lparr>masterInfo := QMasterInfo_new\<rparr>))"
  have "slaveof_cmd (\<lambda>_. 7) [''slaveof'', ''10.0.0.1'', ''6379''] None (new_slave\<lparr>masterInfo := QMasterInfo_new\<rparr>) = Some (QError_ok, None, ?r)"
    by (simp add: slaveof_cmd_def s QMasterInfo_new_def strncaseeq_def tolower_def code_def FormatOK_def PushData_def)
  moreover have "info_cmd (\<lambda>_. ''0.5'') m h peer ip_of t None ?r = None"
    by (rule info_kills) (simp add: SetMasterState_def SetMasterAddr_def new_slave_def QMasterInfo_new_def the_master_def upd_srv_def)
  ultimately show ?thesis by blast
qed

end
