(* ===== verification/Replicas.thy ===== *)
theory Replicas
  imports Syncing
begin

text \<open>
  The replication as a transition system: every command, timer, ended child, client and packet of a master is a step, and an
  invariant holds in every state that can be reached.
\<close>

subsection \<open>What always holds\<close>

definition repl_ok :: "bool \<Rightarrow> replication \<Rightarrow> bool" where
  "repl_ok opens r \<longleftrightarrow> slaves_ok r \<and> (IsBgsaving r \<longrightarrow> qdbPid (srv r) \<noteq> -1) \<and>
     (opens \<longrightarrow> (\<forall>(i, x) \<in> set (links r). alive i (srv r) \<and> slave_state x = QSlaveState_wait_bgsave_end \<longrightarrow> IsBgsaving r))"

text \<open>Everything that happens to the replication: commands, timers, the end of a child, writes, clients and the bytes of the master.
  \<open>opens\<close> says that the file can be opened whenever a save has ended.\<close>

inductive repl_step :: "rdb_libs \<Rightarrow> nat \<Rightarrow> bool \<Rightarrow> replication \<Rightarrow> replication \<Rightarrow> bool" for L pad opens where
  written: "repl_step L pad opens r (upd_srv (SendToSlaves ps) r)"
| sync: "sync_cmd pid ps rep r = Some (e, rep', r') \<Longrightarrow> repl_step L pad opens r r'"
| replconf: "replconf_cmd ps rep r = Some (e, rep', r') \<Longrightarrow> repl_step L pad opens r r'"
| slaveof: "slaveof_cmd inet ps rep r = Some (e, rep', r') \<Longrightarrow> repl_step L pad opens r r'"
| bgsave: "bgsave_cmd pid ps rep (srv r) = Some (e, rep', s) \<Longrightarrow> repl_step L pad opens r (r\<lparr>srv := s\<rparr>)"
| autosave: "repl_step L pad opens r (QdbCron changes seconds t pid r)"
| child: "(opens \<longrightarrow> rdb \<noteq> None) \<Longrightarrow> CheckChild t ended rdb pid r = Some r' \<Longrightarrow> repl_step L pad opens r r'"
| cron: "Cron E r = Some (b, r') \<Longrightarrow> repl_step L pad opens r r'"
| unreachable: "repl_step L pad opens r (OnConnectMasterFail E r)"
| connected: "map_of (links r) i = None \<Longrightarrow> repl_step L pad opens r (OnConnect_master E i r)"
| bytes: "ProcessMaster L pad i buf r = Some (n, r') \<Longrightarrow> repl_step L pad opens r r'"
| join: "map_of (links r) i = None \<Longrightarrow> repl_step L pad opens r (upd_srv (put_client i c) r)"
| leave: "repl_step L pad opens r (upd_srv (drop_client i) r)"

text \<open>Changes that the replication does not notice.\<close>

definition same_repl :: "server \<Rightarrow> server \<Rightarrow> bool" where
  "same_repl s s' \<longleftrightarrow> slaves s' = slaves s \<and> bgsaving s' = bgsaving s \<and> (qdbPid s \<noteq> -1 \<longrightarrow> qdbPid s' \<noteq> -1) \<and>
     (\<forall>i. alive i s' \<longrightarrow> alive i s)"

lemma same_repl_refl [simp]: "same_repl s s"
  by (simp add: same_repl_def)

lemma same_repl_trans: "same_repl s s' \<Longrightarrow> same_repl s' s'' \<Longrightarrow> same_repl s s''"
  by (simp add: same_repl_def)

lemma same_repl_send [simp]: "same_repl s (send i b s)" "same_repl s (drop_client i s)" "same_repl s (SendToSlaves ps s)"
  by (simp_all add: same_repl_def) (simp_all add: drop_client_def alive_def delete_conv)

lemma same_repl_more: "qstore.more s' = qstore.more s \<Longrightarrow> qdbPid s' = qdbPid s \<Longrightarrow> same_repl s s'"
  by (cases s, cases s') (simp add: same_repl_def alive_def)

lemma repl_ok_same:
  assumes "repl_ok opens r" "same_repl (srv r) s"
  shows "repl_ok opens (r\<lparr>srv := s\<rparr>)"
  using assms by (auto simp: repl_ok_def same_repl_def slaves_ok_def GetMasterState_def IsBgsaving_def)

lemma repl_ok_upd_srv: "repl_ok opens r \<Longrightarrow> same_repl (srv r) (f (srv r)) \<Longrightarrow> repl_ok opens (upd_srv f r)"
  using repl_ok_same [where r = r and s = "f (srv r)"] by (simp add: upd_srv_def)

lemma repl_ok_irrelevant [simp]:
  "repl_ok opens (r\<lparr>rdb_tmp := a\<rparr>) = repl_ok opens r" "repl_ok opens (r\<lparr>pingCron := b\<rparr>) = repl_ok opens r" "repl_ok opens (r\<lparr>lastQDBSave := c\<rparr>) = repl_ok opens r"
  "repl_ok opens (r\<lparr>master_client := d\<rparr>) = repl_ok opens r" "repl_ok opens (r\<lparr>masterInfo := mi\<rparr>) = repl_ok opens r"
  by (simp_all add: repl_ok_def slaves_ok_def GetMasterState_def IsBgsaving_def)

lemma repl_ok_SetMasterState: "repl_ok opens r \<Longrightarrow> repl_ok opens (SetMasterState st r)"
  by (simp add: repl_ok_def slaves_ok_def SetMasterState_def upd_srv_def GetMasterState_def IsBgsaving_def alive_def)

lemma repl_ok_moves: "repl_ok opens r \<Longrightarrow> repl_ok opens (SetMasterAddr a r)" "repl_ok opens r \<Longrightarrow> repl_ok opens (SetRdbSize n r)"
  "repl_ok opens r \<Longrightarrow> repl_ok opens (SetMaster i r)" "repl_ok opens r \<Longrightarrow> repl_ok opens (master_down E r)" "repl_ok opens r \<Longrightarrow> repl_ok opens (OnConnectMasterFail E r)"
  by (simp_all add: SetMasterAddr_def SetRdbSize_def SetMaster_def master_down_def OnConnectMasterFail_def Let_def repl_ok_SetMasterState)

text \<open>Relabelling slaves without making one wait for the end of a save.\<close>

lemma repl_ok_set_links:
  assumes "repl_ok opens r" "distinct (map fst ls)"
    and "\<And>i x. opens \<Longrightarrow> (i, x) \<in> set ls \<Longrightarrow> slave_state x = QSlaveState_wait_bgsave_end \<Longrightarrow> alive i (srv r) \<Longrightarrow> IsBgsaving r"
  shows "repl_ok opens (set_links ls r)"
  using assms by (auto simp: repl_ok_def slaves_ok_def IsBgsaving_def GetMasterState_def)

lemma repl_ok_waiting: "repl_ok opens r \<Longrightarrow> opens \<Longrightarrow> (i, x) \<in> set (links r) \<Longrightarrow> slave_state x = QSlaveState_wait_bgsave_end \<Longrightarrow> alive i (srv r) \<Longrightarrow> IsBgsaving r"
  by (auto simp: repl_ok_def)

lemma repl_ok_need_slave: "repl_ok opens r \<Longrightarrow> repl_ok opens (need_slave i r)"
  unfolding need_slave_def AddSlave_def
  by (auto intro!: repl_ok_set_links dest: repl_ok_waiting simp: QSlaveInfo_new_def map_of_eq_None_iff) (simp add: repl_ok_def slaves_ok_def)

lemma repl_ok_relabel:
  assumes "repl_ok opens r" "\<And>j x. slave_state (snd (g (j, x))) = QSlaveState_wait_bgsave_end \<Longrightarrow> slave_state x = QSlaveState_wait_bgsave_end"
    and "\<And>p. fst (g p) = fst p"
  shows "repl_ok opens (set_links (map g (links r)) r)"
proof (rule repl_ok_set_links [OF assms(1)])
  have "map fst (map g (links r)) = map fst (links r)" using assms(3) by simp
  then show "distinct (map fst (map g (links r)))" using assms(1) by (simp only: repl_ok_def slaves_ok_def)
  fix i x assume "opens" "(i, x) \<in> set (map g (links r))" "slave_state x = QSlaveState_wait_bgsave_end" "alive i (srv r)"
  then obtain j y where y: "(j, y) \<in> set (links r)" "g (j, y) = (i, x)" by auto
  then have "i = j" using assms(3) [of "(j, y)"] by simp
  moreover have "slave_state y = QSlaveState_wait_bgsave_end" using assms(2) [of j y] y(2) \<open>slave_state x = _\<close> by simp
  ultimately show "IsBgsaving r" using repl_ok_waiting [OF assms(1) \<open>opens\<close> y(1)] \<open>alive i (srv r)\<close> by simp
qed

lemma same_repl_fold: "(\<And>x s. same_repl s (f x s)) \<Longrightarrow> same_repl s (fold f xs s)"
  by (induction xs arbitrary: s) (auto intro: same_repl_trans)

lemma repl_ok_TryBgsave:
  assumes "repl_ok opens r"
  shows "repl_ok opens (TryBgsave pid r)"
proof -
  consider "IsBgsaving r \<or> \<not> HasAnyWaitingBgsave r" | "\<not> IsBgsaving r" "HasAnyWaitingBgsave r" "pid = -1"
    | "\<not> IsBgsaving r" "HasAnyWaitingBgsave r" "pid \<noteq> -1" by blast
  then show ?thesis
  proof cases
    case 2
    have t: "TryBgsave pid r = OnStartBgsave False r" using 2 by (simp add: TryBgsave_def)
    have "repl_ok opens (upd_srv (\<lambda>s. s\<lparr>replBuf := [], bgsaving := False\<rparr>) r)"
      using assms 2(1) by (intro repl_ok_upd_srv) (simp_all add: same_repl_def IsBgsaving_def)
    then show ?thesis unfolding t OnStartBgsave_def Let_def
      by (auto intro!: repl_ok_upd_srv same_repl_fold)
  next
    case 3
    note b = TryBgsave_started [OF 3]
    have "distinct (map fst (links (TryBgsave pid r)))"
      using assms by (simp only: b(1) begun_simps(2) repl_ok_def slaves_ok_def)
    then show ?thesis
      using assms b 3(3) by (auto simp: repl_ok_def slaves_ok_def IsBgsaving_def GetMasterState_def TryBgsave_def OnStartBgsave_def Let_def)
  qed (use assms in \<open>auto simp: TryBgsave_def\<close>)
qed

lemma repl_ok_OnRdbSaveDone:
  assumes "slaves_ok r" "opens \<longrightarrow> rdb \<noteq> None"
  shows "repl_ok opens (OnRdbSaveDone rdb r)" "\<not> IsBgsaving (OnRdbSaveDone rdb r)"
proof -
  let ?s = "(srv r)\<lparr>bgsaving := False\<rparr>" and ?r = "OnRdbSaveDone rdb r"
  obtain ls ok s' where s': "send_rdb rdb (links r) ?s = (ls, ok, s')" by (metis prod_cases3)
  have res: "?r = set_links ls (r\<lparr>srv := (if ok then s'\<lparr>replBuf := []\<rparr> else s')\<rparr>)" by (simp add: OnRdbSaveDone_def s')
  show no: "\<not> IsBgsaving ?r" using send_rdb_fields(1) [OF s'] by (simp add: res IsBgsaving_def)
  have ls: "links ?r = ls" "slaves (srv ?r) = link_view ls" "alive i (srv ?r) \<longleftrightarrow> alive i (srv r)" for i
    using send_rdb_fields(6) [OF s'] by (simp_all add: res)
  have "distinct (map fst ls)" using send_rdb_fields(7) [OF s'] assms(1) by (simp only: slaves_ok_def)
  moreover have "\<forall>(i, x) \<in> set ls. alive i (srv ?r) \<and> slave_state x = QSlaveState_wait_bgsave_end \<longrightarrow> IsBgsaving ?r" if "opens"
  proof -
    obtain f where f: "rdb = Some f" using assms(2) \<open>opens\<close> by blast
    have "send_rdb (Some f) (links r) ?s = (map (served ?s) (links r), True, s')" 
      using send_rdb_file [of "links r" f ?s] assms(1) s' unfolding f slaves_ok_def by fastforce
    then have "ls = map (served ?s) (links r)" using s' f by simp
    then show ?thesis using ls(3) by (auto simp: served_def split: if_splits)
  qed
  ultimately show "repl_ok opens ?r" using no ls(1,2) by (simp add: repl_ok_def slaves_ok_def)
qed

lemma repl_ok_CheckChild:
  assumes "repl_ok opens r" "opens \<longrightarrow> rdb \<noteq> None" "CheckChild t ended rdb pid r = Some r'"
  shows "repl_ok opens r'"
proof -
  have ended: "IsBgsaving (SaveDoneHandler t ex sig r) \<Longrightarrow> repl_ok opens (OnRdbSaveDone rdb (SaveDoneHandler t ex sig r))"
    "\<not> IsBgsaving (SaveDoneHandler t ex sig r) \<Longrightarrow> repl_ok opens (TryBgsave pid (SaveDoneHandler t ex sig r))" for ex sig
  proof -
    let ?q = "SaveDoneHandler t ex sig r"
    have q: "slaves_ok ?q" "links ?q = links r" "IsBgsaving ?q = IsBgsaving r"
      "\<And>i. alive i (srv ?q) = alive i (srv r)"
      using assms(1) by (auto simp: SaveDoneHandler_def Let_def repl_ok_def slaves_ok_def GetMasterState_def IsBgsaving_def alive_def)
    then have "repl_ok opens ?q" if "\<not> IsBgsaving ?q" using that assms(1) by (auto simp: repl_ok_def)
    then show "IsBgsaving ?q \<Longrightarrow> repl_ok opens (OnRdbSaveDone rdb ?q)" "\<not> IsBgsaving ?q \<Longrightarrow> repl_ok opens (TryBgsave pid ?q)"
      using repl_ok_OnRdbSaveDone [OF q(1) assms(2)] by (auto intro: repl_ok_TryBgsave)
  qed
  have "repl_ok opens (upd_srv (\<lambda>s. s\<lparr>rewritePid := -1\<rparr>) r)" using assms(1) by (rule repl_ok_upd_srv) (simp add: same_repl_def alive_def)
  then show ?thesis using assms ended by (auto simp: CheckChild_def Let_def split: if_splits option.splits)
qed

lemma repl_ok_sync:
  assumes "repl_ok opens r" "sync_cmd pid ps rep r = Some (e, rep', r')"
  shows "repl_ok opens r'"
proof -
  have "repl_ok opens (set_slave_state i QSlaveState_wait_bgsave_start (need_slave i r))" for i
    using repl_ok_need_slave [OF assms(1)] unfolding set_slave_state_def by (intro repl_ok_relabel) (auto split: if_splits)
  then show ?thesis
    using assms repl_ok_need_slave by (auto simp: sync_cmd_def Let_def repl_ok_TryBgsave split: option.splits if_splits)
qed

lemma repl_ok_replconf_loop: "repl_ok opens r \<Longrightarrow> replconf_loop ps rep r = Some (e, rep', r') \<Longrightarrow> repl_ok opens r'"
proof (induction ps rep r rule: replconf_loop.induct)
  case (1 opt val ps rep r)
  have "repl_ok opens (set_links (map (\<lambda>(j, x). (j, if j = i then x\<lparr>listenPort := n\<rparr> else x)) (links (need_slave i r))) (need_slave i r))" for i n
    using repl_ok_need_slave [OF "1.prems"(1)] by (intro repl_ok_relabel) (auto split: if_splits)
  then show ?case
    using "1.prems" "1.IH" by (auto simp: repl_fail_def Let_def split: if_splits prod.splits bool.splits option.splits)
qed auto

lemma repl_ok_commands:
  assumes "repl_ok opens r"
  shows "replconf_cmd ps rep r = Some (e, rep', r') \<Longrightarrow> repl_ok opens r'"
    "slaveof_cmd inet ps rep r = Some (e, rep', r') \<Longrightarrow> repl_ok opens r'"
    "bgsave_cmd pid ps rep (srv r) = Some (e, rep', s) \<Longrightarrow> repl_ok opens (r\<lparr>srv := s\<rparr>)"
    "repl_ok opens (QdbCron changes seconds t pid r)"
proof -
  show "replconf_cmd ps rep r = Some (e, rep', r') \<Longrightarrow> repl_ok opens r'"
    using assms repl_ok_replconf_loop by (auto simp: replconf_cmd_def repl_fail_def split: if_splits)
  show "slaveof_cmd inet ps rep r = Some (e, rep', r') \<Longrightarrow> repl_ok opens r'"
    using assms by (auto simp: slaveof_cmd_def Let_def bind_eq_Some_conv repl_ok_moves repl_ok_SetMasterState split: if_splits)
  have p: "repl_ok opens (r\<lparr>srv := (srv r)\<lparr>qdbPid := pid\<rparr>\<rparr>)" if "pid \<noteq> -1"
    using assms that by (intro repl_ok_same) (simp_all add: same_repl_def)
  then show "bgsave_cmd pid ps rep (srv r) = Some (e, rep', s) \<Longrightarrow> repl_ok opens (r\<lparr>srv := s\<rparr>)"
    using assms by (auto simp: bgsave_cmd_def split: if_splits)
  show "repl_ok opens (QdbCron changes seconds t pid r)" using assms p by (simp add: QdbCron_def upd_srv_def)
qed

lemma ping_links_result:
  "ping_links ls s = (ls', s') \<Longrightarrow> same_repl s s' \<and> (set ls' \<subseteq> set ls) \<and> (distinct (map fst ls) \<longrightarrow> distinct (map fst ls'))"
proof (induction ls s arbitrary: ls' s' rule: ping_links.induct)
  case (2 i x ls s)
  show ?case
  proof (cases "alive i s")
    case True
    let ?s = "if slave_state x = QSlaveState_online then send i (''PING'' @ CRLF) s else s"
    obtain ls1 where l: "ping_links ls ?s = (ls1, s')" "ls' = (i, x) # ls1" using "2.prems" True by (auto split: prod.splits)
    have "same_repl s ?s" by simp
    then show ?thesis using "2.IH"(2) [OF _ l(1)] True l(2) by (auto intro: same_repl_trans)
  next
    case False
    then show ?thesis using "2.IH"(1) "2.prems" by auto
  qed
qed simp

lemma repl_ok_cron_wait_auth: "repl_ok opens r \<Longrightarrow> repl_ok opens (cron_wait_auth E r)"
  by (auto simp: cron_wait_auth_def repl_ok_moves split: option.split intro!: repl_ok_SetMasterState repl_ok_upd_srv)

lemma repl_ok_cron_master:
  assumes "repl_ok opens r" "cron_master E r = Some (b, r')"
  shows "repl_ok opens r'"
proof -
  have d: "repl_ok opens (upd_srv (drop_client i) r)" "repl_ok opens (upd_srv (send i bs) r)" for i bs
    using assms(1) by (auto intro: repl_ok_upd_srv)
  show ?thesis
    using assms d
    by (auto simp: cron_master_def Let_def repl_ok_moves repl_ok_cron_wait_auth repl_ok_SetMasterState
        split: option.splits QReplState.splits if_splits)
qed

lemma repl_ok_Cron:
  assumes "repl_ok opens r" "Cron E r = Some (b, r')"
  shows "repl_ok opens r'"
proof -
  let ?r = "r\<lparr>pingCron := pingCron r + 1\<rparr>"
  obtain ls s where p: "ping_links (links ?r) (srv ?r) = (ls, s)" by fastforce
  have q: "same_repl (srv ?r) s" "set ls \<subseteq> set (links r)" "distinct (map fst ls)"
    using ping_links_result [OF p] assms(1) by (auto simp: repl_ok_def slaves_ok_def)
  then have s: "repl_ok opens (?r\<lparr>srv := s\<rparr>)" using assms(1) by (intro repl_ok_same) simp_all
  have "repl_ok opens (set_links ls (?r\<lparr>srv := s\<rparr>))"
  proof (rule repl_ok_set_links [OF s q(3)])
    fix i x assume "opens" "(i, x) \<in> set ls" "slave_state x = QSlaveState_wait_bgsave_end" "alive i (srv (?r\<lparr>srv := s\<rparr>))"
    then show "IsBgsaving (?r\<lparr>srv := s\<rparr>)" using q(2) by (intro repl_ok_waiting [OF s \<open>opens\<close>, of i x]) auto
  qed
  moreover have "repl_ok opens ?r" using assms(1) by simp
  ultimately show ?thesis
    using assms(2) p repl_ok_cron_master [where E = E and b = b and r' = r' and opens = opens] by (auto simp only: Cron_def Let_def split: if_splits prod.splits)
qed

text \<open>Loading a file.\<close>

lemma same_repl_load:
  "same_repl s (snd (SetValue k ob s))" "same_repl s (SetExpire k t s)" "same_repl s (snd (SelectDB d s))" "same_repl s (ResetDb s)"
  by (auto intro!: same_repl_more simp: SetValue_def SetExpire_def upd_db_def upd_exp_def put_obj_def mark_sync_def SelectDB_def ResetDb_def Let_def
      split: if_splits option.splits prod.splits)

definition step_same :: "server \<Rightarrow> load_step \<Rightarrow> bool" where
  "step_same s m \<longleftrightarrow> (case m of Return r s' \<Rightarrow> same_repl s s' | Next s' mem t \<Rightarrow> same_repl s s' | Dead \<Rightarrow> True)"

lemma step_same_simps [simp]: "step_same s (Return r s') = same_repl s s'" "step_same s (Next s' mem t) = same_repl s s'" "step_same s Dead"
  by (simp_all add: step_same_def)

lemma step_same_on_load: "(\<And>x rest. step_same s (f x rest)) \<Longrightarrow> step_same s (on_load line s m f)"
  by (cases m) simp_all

lemma Load_step_same: "step_same s (Load_step L s mem t)"
proof -
  have "step_same s (load_key_value L ind s m t)" for ind m
    unfolding load_key_value_def
    by (intro step_same_on_load) (auto intro: same_repl_load same_repl_trans [OF same_repl_load(1) same_repl_load(2)])
  then show ?thesis
    by (auto simp: Load_step_def case_prod_beta same_repl_load(3) intro!: step_same_on_load)
qed

lemma Load_loop_same: "Load_loop L s mem t = Some (res, s') \<Longrightarrow> same_repl s s'"
proof (induction L s mem t rule: Load_loop.induct)
  case (1 L s mem t)
  from Load_step_same [of s L mem t] show ?case
    using "1.prems" "1.IH" by (subst (asm) Load_loop.simps) (auto split: load_step.splits intro: same_repl_trans)
qed

lemma QDB_Load_same: "QDB_Load L f s = Some (res, s') \<Longrightarrow> same_repl s s'"
  by (auto simp: QDB_Load_def split: if_splits option.splits dest: Load_loop_same)

lemma repl_ok_SaveTmpRdb:
  assumes "repl_ok opens r" "SaveTmpRdb L pad c r = Some (n, r')"
  shows "repl_ok opens r'"
proof -
  define len where "len = (if (case rdbSize (masterInfo r) of None \<Rightarrow> 2 ^ 64 - 1 | Some n \<Rightarrow> n) < rdbRecved (masterInfo r) + length c
    then (case rdbSize (masterInfo r) of None \<Rightarrow> 2 ^ 64 - 1 | Some n \<Rightarrow> n) - rdbRecved (masterInfo r) else length c)"
  define r1 where "r1 = r\<lparr>rdb_tmp := rdb_tmp r @ take len c, masterInfo := (masterInfo r)\<lparr>rdbRecved := rdbRecved (masterInfo r) + len\<rparr>\<rparr>"
  have r1: "repl_ok opens r1" using assms(1) by (simp add: r1_def)
  have s1: "srv r1 = srv r" "rdb_tmp r1 = rdb_tmp r @ take len c" by (simp_all add: r1_def)
  from assms(2) consider "r' = r1"
    | res s where "QDB_Load L (rdb_tmp r1 @ replicate pad NUL) (ResetDb (srv r1)) = Some (res, s)"
        "r' = (SetMasterState QReplState_online (r1\<lparr>srv := s\<rparr>))\<lparr>masterInfo := (masterInfo (SetMasterState QReplState_online (r1\<lparr>srv := s\<rparr>)))\<lparr>downSince := 0\<rparr>\<rparr>"
    by (auto simp: SaveTmpRdb_def Let_def r1_def len_def [symmetric] split: if_splits)
  then show ?thesis
  proof cases
    case 2
    have "same_repl (srv r1) s" using QDB_Load_same [OF 2(1)] same_repl_load(4) same_repl_trans by blast
    then have "repl_ok opens (SetMasterState QReplState_online (r1\<lparr>srv := s\<rparr>))" using r1 by (intro repl_ok_SetMasterState repl_ok_same)
    then show ?thesis unfolding 2(2) by simp
  qed (use r1 in simp)
qed

lemma repl_ok_ProcessMaster:
  assumes "repl_ok opens r" "ProcessMaster L pad i buf r = Some (n, r')"
  shows "repl_ok opens r'"
proof -
  have "repl_ok opens (upd_srv (put_client i (SetAuth c)) r)" if "map_of (clients (srv r)) i = Some c" for c
    using assms(1) that by (intro repl_ok_upd_srv) (auto simp: same_repl_def alive_def)
  then show ?thesis
    using assms repl_ok_SaveTmpRdb repl_ok_moves(2)
    by (auto simp: ProcessMaster_def split: QReplState.splits if_splits option.splits prod.splits)
qed

lemma repl_ok_clients:
  assumes "repl_ok opens r" "map_of (links r) i = None"
  shows "repl_ok opens (upd_srv (put_client i c) r)" "repl_ok opens (OnConnect_master E i r)"
proof -
  have put: "repl_ok opens (upd_srv (put_client i c) q)" if "repl_ok opens q" "links q = links r" for q c
  proof -
    have "i \<noteq> j" if "(j, x) \<in> set (links q)" for j x using that \<open>links q = links r\<close> assms(2) by (force simp: map_of_eq_None_iff)
    then have "alive j (put_client i c (srv q)) = alive j (srv q)" if "(j, x) \<in> set (links q)" for j x
      using that by (fastforce simp: alive_def)
    then show ?thesis using that(1) by (fastforce simp: repl_ok_def slaves_ok_def GetMasterState_def IsBgsaving_def)
  qed
  then show "repl_ok opens (upd_srv (put_client i c) r)" using assms(1) by simp
  let ?q = "SetMaster i (SetMasterState QReplState_connected r)" and ?f = "\<lambda>s. snd (SelectDB 0 s)"
  have q: "repl_ok opens (upd_srv ?f ?q)" "links (upd_srv ?f ?q) = links r"
    using assms(1) by (auto intro!: repl_ok_upd_srv repl_ok_moves repl_ok_SetMasterState same_repl_load(3))
      (simp add: SetMaster_def SetMasterState_def)
  have "OnConnect_master E i r = upd_srv (put_client i (let c = SetFlag ClientFlag_master (SetName ''MasterConnection'' client_new) in
      if masterauth E = [] then SetAuth c else c)) (upd_srv ?f ?q)"
    by (simp add: OnConnect_master_def Let_def upd_srv_def)
  then show "repl_ok opens (OnConnect_master E i r)" using put [OF q] by simp
qed

lemma repl_step_ok: "repl_step L pad opens r r' \<Longrightarrow> repl_ok opens r \<Longrightarrow> repl_ok opens r'"
  by (induction rule: repl_step.induct)
    (auto intro: repl_ok_upd_srv repl_ok_sync repl_ok_commands repl_ok_CheckChild repl_ok_Cron repl_ok_moves repl_ok_ProcessMaster repl_ok_clients)

definition repl_start :: "server \<Rightarrow> replication" where
  "repl_start s = \<lparr>srv = s\<lparr>slaves := [], masterState := QReplState_none, bgsaving := False\<rparr>, links = [], masterInfo = QMasterInfo_new,
     master_client = None, rdb_tmp = [], pingCron = 0, lastQDBSave = 0\<rparr>"


text \<open>Without the file the first slave that waits for it is taken for served, and the next one waits for ever.\<close>

lemma no_file_leaves_slaves:
  assumes "links r = [(i, x), (j, y)]" "alive i (srv r)" "alive j (srv r)" "i \<noteq> j"
    and "slave_state x = QSlaveState_wait_bgsave_end" "slave_state y = QSlaveState_wait_bgsave_end"
  shows "slave_state_of i (OnRdbSaveDone None r) = Some QSlaveState_online \<and>
    slave_state_of j (OnRdbSaveDone None r) = Some QSlaveState_wait_bgsave_end \<and> \<not> IsBgsaving (OnRdbSaveDone None r) \<and>
    clients (srv (OnRdbSaveDone None r)) = clients (srv r)"
  using assms
  by (simp add: OnRdbSaveDone_def alive_def slave_state_of_def set_links_def upd_srv_def IsBgsaving_def)

definition first_sync :: replication where
  "first_sync = TryBgsave 77 (set_slave_state 1 QSlaveState_wait_bgsave_start
     (need_slave 1 (repl_start ((put_client 1 client_new server_new)\<lparr>current := Some 1\<rparr>))))"

lemma first_sync:
  "sync_cmd 77 [''sync''] None (repl_start ((put_client 1 client_new server_new)\<lparr>current := Some 1\<rparr>)) = Some (QError_ok, None, first_sync)"
  "slave_state_of 1 first_sync = Some QSlaveState_wait_bgsave_end" "alive 1 (srv first_sync)"
  by (simp_all add: sync_cmd_def first_sync_def repl_start_def Current_def server_new_def put_client_def need_slave_def AddSlave_def
      set_links_def upd_srv_def link_view_def slave_state_of_def QSlaveInfo_new_def set_slave_state_def TryBgsave_def IsBgsaving_def
      HasAnyWaitingBgsave_def alive_def OnStartBgsave_def Let_def)


end
