(* ===== verification/Timers.thy ===== *)
theory Timers
  imports Prelude
begin

text \<open>
  QBase/Timer.h and Timer.cc: the wheel of timers and the time it prints. A time is a number of milliseconds, kept modulo
  2 to the 64; a timer is its number, its fields and whether it has a callback. What a callback does to the wheel is an argument.
\<close>

subsection \<open>Dates\<close>

definition IsLeapYear :: "int \<Rightarrow> bool" where
  "IsLeapYear year \<longleftrightarrow> year mod 400 = 0 \<or> (year mod 4 = 0 \<and> year mod 100 \<noteq> 0)"

definition DaysOfMonth :: "int \<Rightarrow> nat \<Rightarrow> int" where
  "DaysOfMonth year month =
     (if month = 2 \<and> IsLeapYear year then 29 else [-1, 31, 28, 31, 30, 31, 30, 31, 31, 30, 31, 30, 31] ! month)"

record tm =
  tm_year :: int
  tm_mon :: nat
  tm_mday :: int
  tm_hour :: int
  tm_min :: int
  tm_sec :: int

text \<open>The next moment with this hour, minute and second: what \<open>mktime\<close> gets, from the local time \<open>t\<close>.\<close>

definition Time_at :: "tm \<Rightarrow> int \<Rightarrow> int \<Rightarrow> int \<Rightarrow> tm" where
  "Time_at t hour minute sec =
     (let tomorrow = (hour < tm_hour t \<or> (hour = tm_hour t \<and> minute < tm_min t) \<or> (hour = tm_hour t \<and> minute = tm_min t \<and> sec < tm_sec t));
          year = tm_year t + 1900; mon = tm_mon t + 1; day = tm_mday t;
          (year, mon, day) =
            (if \<not> tomorrow then (year, mon, day)
             else if DaysOfMonth year mon = day then (if mon = 12 then (year + 1, 1, 1) else (year, mon + 1, 1))
             else (year, mon, day + 1))
      in \<lparr>tm_year = year - 1900, tm_mon = mon - 1, tm_mday = day, tm_hour = hour, tm_min = minute, tm_sec = sec\<rparr>)"

definition two_digits :: "int \<Rightarrow> string option" where
  "two_digits n = (if 0 \<le> n \<and> n < 60 then Some [digit_char (nat n div 10), digit_char (nat n mod 10)] else None)"

definition YEAR :: "int \<Rightarrow> string option" where
  "YEAR i = (if 0 \<le> i \<and> i < 11 then Some (show_nat (2015 + nat i)) else None)"

text \<open>The table of years ends with 2025, and a null pointer.\<close>

definition FormatTime :: "tm \<Rightarrow> nat \<Rightarrow> string option" where
  "FormatTime t ms =
     Option.bind (YEAR (tm_year t + 1900 - 2015)) (\<lambda>y.
     Option.bind (two_digits (int (tm_mon t) + 1)) (\<lambda>mo.
     Option.bind (two_digits (tm_mday t)) (\<lambda>d.
     Option.bind (two_digits (tm_hour t)) (\<lambda>h.
     Option.bind (two_digits (tm_min t)) (\<lambda>m.
     map_option (\<lambda>s. y @ ''-'' @ mo @ ''-'' @ d @ ''['' @ h @ '':'' @ m @ '':'' @ s @ ''.'' @
         [digit_char (ms mod 1000 div 100), digit_char (ms mod 100 div 10), digit_char (ms mod 10)] @ '']'')
       (two_digits (tm_sec t)))))))"

subsection \<open>Timers\<close>

record timer =
  tm_id :: nat
  has_func :: bool
  triggerTime :: nat
  interval :: nat
  tm_count :: int

record timers =
  list1 :: "timer list list"
  list2 :: "timer list list"
  list3 :: "timer list list"
  list4 :: "timer list list"
  list5 :: "timer list list"
  lastCheckTime :: nat
  freepool :: "nat list"
  async_timers :: "timer list"

definition AddDelay :: "nat \<Rightarrow> nat \<Rightarrow> nat" where
  "AddDelay delay ms = (ms + delay) mod 2 ^ 64"

definition Timer_Init :: "nat \<Rightarrow> nat \<Rightarrow> int \<Rightarrow> timer \<Rightarrow> timer" where
  "Timer_Init now_ms ival cnt t = t\<lparr>interval := ival, tm_count := cnt, triggerTime := AddDelay ival now_ms\<rparr>"

text \<open>The flag tells that the callback was called, which is done after the next time is set.\<close>

definition OnTimer :: "timer \<Rightarrow> bool \<times> timer" where
  "OnTimer t =
     (if \<not> has_func t then (False, t)
      else
        let t' = (if tm_count t < 0 then t else t\<lparr>tm_count := tm_count t - 1\<rparr>)
        in if tm_count t < 0 \<or> 0 \<le> tm_count t' then (True, t'\<lparr>triggerTime := AddDelay (interval t) (triggerTime t)\<rparr>) else (False, t'))"

definition TimerManager_new :: "nat \<Rightarrow> timers" where
  "TimerManager_new now_ms = \<lparr>list1 = replicate 256 [], list2 = replicate 64 [], list3 = replicate 64 [], list4 = replicate 64 [],
     list5 = replicate 64 [], lastCheckTime = now_ms, freepool = [], async_timers = []\<rparr>"

definition CreateTimer :: "nat \<Rightarrow> timers \<Rightarrow> nat \<times> timers" where
  "CreateTimer fresh w = (case freepool w of [] \<Rightarrow> (fresh, w) | i # is \<Rightarrow> (i, w\<lparr>freepool := is\<rparr>))"

definition push_slot :: "nat \<Rightarrow> timer \<Rightarrow> timer list list \<Rightarrow> timer list list" where
  "push_slot i t ls = ls[i := t # ls ! i]"

text \<open>The distance to the time of the timer is cut to 32 bits; as a signed number it may be negative.\<close>

definition timer_diff :: "timer \<Rightarrow> timers \<Rightarrow> nat" where
  "timer_diff t w = (triggerTime t + 2 ^ 64 - lastCheckTime w) mod 2 ^ 32"

definition AddTimer :: "timer \<Rightarrow> timers \<Rightarrow> timers" where
  "AddTimer t w =
     (let diff = timer_diff t w; trig = triggerTime t;
          w = (if 2 ^ 31 \<le> diff then w\<lparr>list1 := push_slot (lastCheckTime w mod 256) t (list1 w)\<rparr>
               else if diff < 2 ^ 8 then w\<lparr>list1 := push_slot (trig mod 256) t (list1 w)\<rparr>
               else if diff < 2 ^ 14 then w\<lparr>list2 := push_slot (trig div 2 ^ 8 mod 64) t (list2 w)\<rparr>
               else if diff < 2 ^ 20 then w\<lparr>list3 := push_slot (trig div 2 ^ 14 mod 64) t (list3 w)\<rparr>
               else if diff < 2 ^ 26 then w\<lparr>list4 := push_slot (trig div 2 ^ 20 mod 64) t (list4 w)\<rparr>
               else w\<lparr>list5 := push_slot (trig div 2 ^ 26 mod 64) t (list5 w)\<rparr>)
      in w\<lparr>freepool := removeAll (tm_id t) (freepool w)\<rparr>)"

definition AsyncAddTimer :: "timer \<Rightarrow> timers \<Rightarrow> timers" where
  "AsyncAddTimer t w = w\<lparr>async_timers := async_timers w @ [t]\<rparr>"

definition ScheduleAt :: "timer \<Rightarrow> nat \<Rightarrow> timers \<Rightarrow> timers" where
  "ScheduleAt t trig w = AddTimer (t\<lparr>triggerTime := trig\<rparr>) w"

text \<open>A timer lies in at most one list, which it is unlinked from.\<close>

definition unlink :: "nat \<Rightarrow> timer list list \<Rightarrow> timer list list" where
  "unlink i ls = map (filter (\<lambda>t. tm_id t \<noteq> i)) ls"

definition KillTimer :: "nat \<Rightarrow> timers \<Rightarrow> timers" where
  "KillTimer i w = w\<lparr>list1 := unlink i (list1 w), list2 := unlink i (list2 w), list3 := unlink i (list3 w),
     list4 := unlink i (list4 w), list5 := unlink i (list5 w)\<rparr>"

definition Index :: "nat \<Rightarrow> timers \<Rightarrow> nat" where
  "Index level w = lastCheckTime w div 2 ^ (8 + level * 6) mod 64"

definition put2 :: "timer list list \<Rightarrow> timers \<Rightarrow> timers" where "put2 ls w = w\<lparr>list2 := ls\<rparr>"
definition put3 :: "timer list list \<Rightarrow> timers \<Rightarrow> timers" where "put3 ls w = w\<lparr>list3 := ls\<rparr>"
definition put4 :: "timer list list \<Rightarrow> timers \<Rightarrow> timers" where "put4 ls w = w\<lparr>list4 := ls\<rparr>"
definition put5 :: "timer list list \<Rightarrow> timers \<Rightarrow> timers" where "put5 ls w = w\<lparr>list5 := ls\<rparr>"

text \<open>The result tells whether there was a timer in the slot. It is not whether the slot is the first one of its list.\<close>

definition Cacsade ::
  "(timers \<Rightarrow> timer list list) \<Rightarrow> (timer list list \<Rightarrow> timers \<Rightarrow> timers) \<Rightarrow> nat \<Rightarrow> timers \<Rightarrow> bool \<times> timers" where
  "Cacsade get put index w =
     (if get w ! index = [] then (False, w)
      else (True, fold AddTimer (get w ! index) (put ((get w)[index := []]) w)))"

definition cascades :: "timers \<Rightarrow> timers" where
  "cascades w =
     (if lastCheckTime w mod 256 \<noteq> 0 then w
      else
        case Cacsade list2 put2 (Index 0 w) w of
          (True, w) \<Rightarrow> w
        | (False, w) \<Rightarrow>
            (case Cacsade list3 put3 (Index 1 w) w of
               (True, w) \<Rightarrow> w
             | (False, w) \<Rightarrow>
                 (case Cacsade list4 put4 (Index 2 w) w of
                    (True, w) \<Rightarrow> w
                  | (False, w) \<Rightarrow> snd (Cacsade list5 put5 (Index 3 w) w))))"

text \<open>All timers of a slot, also those that are put into it meanwhile; the result has the numbers of those that were called.\<close>

partial_function (option) run_slot :: "(nat \<Rightarrow> timers \<Rightarrow> timers) \<Rightarrow> nat \<Rightarrow> timers \<Rightarrow> nat list \<Rightarrow> (nat list \<times> timers) option" where
  "run_slot cb index w fired =
     (case list1 w ! index of
        [] \<Rightarrow> Some (fired, w)
      | t # ts \<Rightarrow>
          let w = w\<lparr>list1 := (list1 w)[index := ts]\<rparr>
          in if fst (OnTimer t)
             then run_slot cb index (AddTimer (snd (OnTimer t)) (cb (tm_id t) w)) (fired @ [tm_id t])
             else run_slot cb index (w\<lparr>freepool := List.insert (tm_id t) (freepool w)\<rparr>) fired)"

partial_function (option) update_loop ::
  "(nat \<Rightarrow> timers \<Rightarrow> timers) \<Rightarrow> nat \<Rightarrow> timers \<Rightarrow> (nat \<times> nat) list \<Rightarrow> ((nat \<times> nat) list \<times> timers) option" where
  "update_loop cb now_ms w log =
     (if lastCheckTime w \<le> now_ms then
        Option.bind (run_slot cb (lastCheckTime w mod 256) ((cascades w)\<lparr>lastCheckTime := AddDelay 1 (lastCheckTime w)\<rparr>) [])
          (\<lambda>(ids, w'). update_loop cb now_ms w' (log @ map (Pair (lastCheckTime w)) ids))
      else Some (log, w))"

text \<open>Timers that another thread has added wait when it holds the lock. The log has each callback with the millisecond it was due in.\<close>

definition UpdateTimers ::
  "(nat \<Rightarrow> timers \<Rightarrow> timers) \<Rightarrow> bool \<Rightarrow> nat \<Rightarrow> timers \<Rightarrow> (bool \<times> (nat \<times> nat) list \<times> timers) option" where
  "UpdateTimers cb locked now_ms w =
     (let w = (if async_timers w \<noteq> [] \<and> \<not> locked then fold AddTimer (async_timers w) (w\<lparr>async_timers := []\<rparr>) else w)
      in map_option (\<lambda>(log, w'). (lastCheckTime w \<le> now_ms, log, w')) (update_loop cb now_ms w []))"


subsection \<open>The time as text\<close>

text \<open>The time of a line of the log: 24 characters for a valid time of the years 2015 to 2025, and a crash from 2026 on, where the
  table of years has ended.\<close>

theorem FormatTime_years:
  assumes "tm_mon t < 12" "0 < tm_mday t" "tm_mday t \<le> 31" "0 \<le> tm_hour t" "tm_hour t < 24" "0 \<le> tm_min t" "tm_min t < 60"
    "0 \<le> tm_sec t" "tm_sec t < 60"
  shows "(2015 \<le> tm_year t + 1900 \<and> tm_year t + 1900 \<le> 2025 \<longrightarrow> (\<exists>txt. FormatTime t ms = Some txt \<and> length txt = 24)) \<and>
    (2026 \<le> tm_year t + 1900 \<longrightarrow> FormatTime t ms = None)"
proof -
  have d: "\<exists>a b. two_digits n = Some [a, b]" if "0 \<le> n" "n < 60" for n using that by (simp add: two_digits_def)
  have y: "\<exists>txt. YEAR i = Some txt \<and> length txt = 4" if "0 \<le> i" "i < 11" for i
  proof -
    have "length (show_nat m) = 4" if "1000 \<le> m" "m < 10000" for m
    proof -
      have "\<not> m < 10" "\<not> m div 10 < 10" "\<not> m div 10 div 10 < 10" "m div 10 div 10 div 10 < 10"
        using that by (simp_all add: less_mult_imp_div_less)
      then show ?thesis
        by (simp add: show_nat.simps [of m] show_nat.simps [of "m div 10"] show_nat.simps [of "m div 10 div 10"]
            show_nat.simps [of "m div 10 div 10 div 10"])
    qed
    then have "length (show_nat (2015 + n)) = 4" if "n < 11" for n using that by simp
    then show ?thesis using that by (simp add: YEAR_def)
  qed
  show ?thesis
  proof (intro conjI impI)
    assume "2015 \<le> tm_year t + 1900 \<and> tm_year t + 1900 \<le> 2025"
    then obtain yr where "YEAR (tm_year t + 1900 - 2015) = Some yr" "length yr = 4" using y [of "tm_year t + 1900 - 2015"] by auto
    moreover obtain a b where "two_digits (int (tm_mon t) + 1) = Some [a, b]" using d assms(1) by force
    moreover obtain c e where "two_digits (tm_mday t) = Some [c, e]" using d assms(2,3) by force
    moreover obtain f g where "two_digits (tm_hour t) = Some [f, g]" using d assms(4,5) by force
    moreover obtain h i where "two_digits (tm_min t) = Some [h, i]" using d assms(6,7) by force
    moreover obtain k l where "two_digits (tm_sec t) = Some [k, l]" using d assms(8,9) by force
    ultimately show "\<exists>txt. FormatTime t ms = Some txt \<and> length txt = 24" by (simp add: FormatTime_def)
  qed (simp add: FormatTime_def YEAR_def)
qed

subsection \<open>Placing a timer\<close>

definition slots_ok :: "timers \<Rightarrow> bool" where
  "slots_ok w \<longleftrightarrow> length (list1 w) = 256 \<and> length (list2 w) = 64 \<and> length (list3 w) = 64 \<and> length (list4 w) = 64 \<and> length (list5 w) = 64"

definition all_timers :: "timers \<Rightarrow> timer set" where
  "all_timers w = set (concat (list1 w)) \<union> set (concat (list2 w)) \<union> set (concat (list3 w)) \<union> set (concat (list4 w)) \<union>
     set (concat (list5 w)) \<union> set (async_timers w)"

definition interval_ok :: "timer \<Rightarrow> bool" where
  "interval_ok t \<longleftrightarrow> 0 < interval t \<and> interval t < 2 ^ 32"

definition wheel_ok :: "timers \<Rightarrow> bool" where
  "wheel_ok w \<longleftrightarrow> slots_ok w \<and> (\<forall>t \<in> all_timers w. interval_ok t)"

lemma set_push_slot: "set (concat (push_slot i t ls)) \<subseteq> insert t (set (concat ls))"
proof (cases "i < length ls")
  case True
  then have "set (push_slot i t ls) \<subseteq> insert (t # ls ! i) (set ls)" "ls ! i \<in> set ls"
    unfolding push_slot_def by (auto simp: set_update_subset_insert)
  then show ?thesis by fastforce
qed (auto simp: push_slot_def not_less list_update_beyond)

lemma push_slot_nth: "set (ls ! k) \<subseteq> set (push_slot i t ls ! k)" "i < length ls \<Longrightarrow> t \<in> set (push_slot i t ls ! i)"
  "k \<noteq> i \<Longrightarrow> push_slot i t ls ! k = ls ! k" "length (push_slot i t ls) = length ls"
  by (cases "k = i"; cases "i < length ls") (auto simp: push_slot_def not_less list_update_beyond)

lemma AddTimer_fields [simp]:
  "lastCheckTime (AddTimer t w) = lastCheckTime w" "async_timers (AddTimer t w) = async_timers w"
  by (simp_all add: AddTimer_def Let_def)

lemma AddTimer_grows: "set (list1 w ! k) \<subseteq> set (list1 (AddTimer t w) ! k)" "set (list2 w ! k) \<subseteq> set (list2 (AddTimer t w) ! k)"
  "set (list3 w ! k) \<subseteq> set (list3 (AddTimer t w) ! k)"
  by (simp_all add: AddTimer_def Let_def push_slot_nth(1))

lemma AddTimer_all: "all_timers (AddTimer t w) \<subseteq> insert t (all_timers w)"
  using set_push_slot [of "lastCheckTime w mod 256" t "list1 w"] set_push_slot [of "triggerTime t mod 256" t "list1 w"]
    set_push_slot [of "triggerTime t div 2 ^ 8 mod 64" t "list2 w"] set_push_slot [of "triggerTime t div 2 ^ 14 mod 64" t "list3 w"]
    set_push_slot [of "triggerTime t div 2 ^ 20 mod 64" t "list4 w"] set_push_slot [of "triggerTime t div 2 ^ 26 mod 64" t "list5 w"]
  by (auto simp: AddTimer_def Let_def all_timers_def simp del: set_concat)

lemma AddTimer_wheel: "wheel_ok w \<Longrightarrow> interval_ok t \<Longrightarrow> wheel_ok (AddTimer t w)"
  using AddTimer_all [of t w] by (auto simp: wheel_ok_def slots_ok_def AddTimer_def Let_def push_slot_nth(4))

text \<open>A timer that is due within 2 to the 14 milliseconds, in its slot of the first or the second list.\<close>

definition in_place :: "timer \<Rightarrow> timers \<Rightarrow> bool" where
  "in_place t w \<longleftrightarrow> lastCheckTime w \<le> triggerTime t \<and> triggerTime t < lastCheckTime w + 2 ^ 14 \<and>
     (triggerTime t < lastCheckTime w + 256 \<and> t \<in> set (list1 w ! (triggerTime t mod 256)) \<or>
      lastCheckTime w \<le> triggerTime t div 256 * 256 \<and> t \<in> set (list2 w ! (triggerTime t div 256 mod 64)))"

lemma near_diff:
  assumes "lastCheckTime w \<le> triggerTime t" "triggerTime t < lastCheckTime w + 2 ^ 14"
  shows "timer_diff t w = triggerTime t - lastCheckTime w"
proof -
  obtain n where n: "triggerTime t = lastCheckTime w + n" using assms(1) le_Suc_ex by blast
  then have "n < 2 ^ 32" using assms(2) by simp
  moreover have "triggerTime t + 2 ^ 64 - lastCheckTime w = n + 2 ^ 32 * 2 ^ 32" using n by simp
  ultimately have "timer_diff t w = n" unfolding timer_diff_def by (metis mod_less mod_mult_self2)
  then show ?thesis using n by simp
qed

lemma AddTimer_in_place:
  assumes "slots_ok w" "lastCheckTime w \<le> triggerTime t" "triggerTime t < lastCheckTime w + 2 ^ 14"
  shows "in_place t (AddTimer t w)" "triggerTime t < lastCheckTime w + 256 \<Longrightarrow> t \<in> set (list1 (AddTimer t w) ! (triggerTime t mod 256))"
proof -
  note d = near_diff [OF assms(2,3)]
  show l: "t \<in> set (list1 (AddTimer t w) ! (triggerTime t mod 256))" if "triggerTime t < lastCheckTime w + 256"
  proof -
    have "timer_diff t w < 256" using d that by simp
    then show ?thesis using assms(1) by (simp add: AddTimer_def Let_def slots_ok_def push_slot_nth(2))
  qed
  show "in_place t (AddTimer t w)"
  proof (cases "triggerTime t < lastCheckTime w + 256")
    case True
    then show ?thesis using l assms(2,3) by (simp add: in_place_def)
  next
    case False
    then have r: "256 \<le> timer_diff t w" "timer_diff t w < 16384" using d assms(3) by auto
    then have "t \<in> set (list2 (AddTimer t w) ! (triggerTime t div 256 mod 64))"
      using assms(1) by (simp add: AddTimer_def Let_def slots_ok_def push_slot_nth(2))
    moreover have "lastCheckTime w \<le> triggerTime t div 256 * 256" using False div_mult_mod_eq [of "triggerTime t" 256] mod_less_divisor [of 256 "triggerTime t"] by linarith
    ultimately show ?thesis using assms(2,3) by (simp add: in_place_def)
  qed
qed

lemma AddTimer_keeps: "in_place t w \<Longrightarrow> in_place t (AddTimer u w)"
  using AddTimer_grows(1) [of w "triggerTime t mod 256" u] AddTimer_grows(2) [of w "triggerTime t div 256 mod 64" u]
  by (auto simp: in_place_def)

lemma fold_AddTimer:
  "wheel_ok w \<Longrightarrow> \<forall>u \<in> set ts. interval_ok u \<Longrightarrow> wheel_ok (fold AddTimer ts w)"
  "lastCheckTime (fold AddTimer ts w) = lastCheckTime w" "async_timers (fold AddTimer ts w) = async_timers w"
  "in_place t w \<Longrightarrow> in_place t (fold AddTimer ts w)"
  "set (list1 w ! k) \<subseteq> set (list1 (fold AddTimer ts w) ! k)" "set (list2 w ! k) \<subseteq> set (list2 (fold AddTimer ts w) ! k)"
proof (induction ts arbitrary: w)
  case (Cons u ts)
  { case 1 then show ?case using Cons(1) AddTimer_wheel by simp next
    case 2 then show ?case using Cons(2) by simp next
    case 3 then show ?case using Cons(3) by simp next
    case 4 then show ?case using Cons(4) AddTimer_keeps by simp next
    case 5 then show ?case using Cons(5) [of "AddTimer u w"] AddTimer_grows(1) [of w k u] by auto next
    case 6 then show ?case using Cons(6) [of "AddTimer u w"] AddTimer_grows(2) [of w k u] by auto }
qed simp_all

lemma fold_AddTimer_member:
  "slots_ok w \<Longrightarrow> t \<in> set ts \<Longrightarrow> lastCheckTime w \<le> triggerTime t \<Longrightarrow> triggerTime t < lastCheckTime w + 256 \<Longrightarrow>
   t \<in> set (list1 (fold AddTimer ts w) ! (triggerTime t mod 256))"
proof (induction ts arbitrary: w)
  case (Cons u ts)
  have s: "slots_ok (AddTimer u w)" using Cons.prems(1) by (simp add: slots_ok_def AddTimer_def Let_def push_slot_nth(4))
  show ?case
  proof (cases "u = t")
    case True
    then show ?thesis using AddTimer_in_place(2) [OF Cons.prems(1,3)] Cons.prems(4) fold_AddTimer(5) [of "AddTimer t w" _ ts] by auto
  next
    case False
    then show ?thesis using Cons.IH [OF s] Cons.prems by simp
  qed
qed simp

subsection \<open>Cascading\<close>

text \<open>Where a timer that is in place lies once the slots have been cascaded: what remains in the second list is due later.\<close>

definition settled :: "timer \<Rightarrow> timers \<Rightarrow> bool" where
  "settled t w \<longleftrightarrow> lastCheckTime w \<le> triggerTime t \<and> triggerTime t < lastCheckTime w + 2 ^ 14 \<and>
     (triggerTime t < lastCheckTime w + 256 \<and> t \<in> set (list1 w ! (triggerTime t mod 256)) \<or>
      lastCheckTime w < triggerTime t div 256 * 256 \<and> t \<in> set (list2 w ! (triggerTime t div 256 mod 64)))"

lemma settled_fold: "settled t w \<Longrightarrow> settled t (fold AddTimer ts w)"
  using fold_AddTimer(5) [of w "triggerTime t mod 256" ts] fold_AddTimer(6) [of w "triggerTime t div 256 mod 64" ts]
  by (auto simp: settled_def fold_AddTimer(2))

lemma slot_timers:
  "i < length (list2 w) \<Longrightarrow> set (list2 w ! i) \<subseteq> all_timers w" "i < length (list3 w) \<Longrightarrow> set (list3 w ! i) \<subseteq> all_timers w"
  "i < length (list4 w) \<Longrightarrow> set (list4 w ! i) \<subseteq> all_timers w" "i < length (list5 w) \<Longrightarrow> set (list5 w ! i) \<subseteq> all_timers w"
  "i < length (list1 w) \<Longrightarrow> set (list1 w ! i) \<subseteq> all_timers w"
  by (auto simp: all_timers_def intro: nth_mem)

lemma set_cleared: "set (concat (ls[i := []])) \<subseteq> set (concat ls)"
  using set_update_subset_insert [of ls i "[]"] by auto

lemma all_timers_cleared:
  "all_timers (w\<lparr>list2 := (list2 w)[i := []]\<rparr>) \<subseteq> all_timers w" "all_timers (w\<lparr>list3 := (list3 w)[i := []]\<rparr>) \<subseteq> all_timers w"
  "all_timers (w\<lparr>list4 := (list4 w)[i := []]\<rparr>) \<subseteq> all_timers w" "all_timers (w\<lparr>list5 := (list5 w)[i := []]\<rparr>) \<subseteq> all_timers w"
  using set_cleared [of "list2 w" i] set_cleared [of "list3 w" i] set_cleared [of "list4 w" i] set_cleared [of "list5 w" i]
  by (auto simp: all_timers_def simp del: set_concat)

lemma wheel_cleared:
  assumes "wheel_ok w"
  shows "wheel_ok (w\<lparr>list2 := (list2 w)[i := []]\<rparr>)" "wheel_ok (w\<lparr>list3 := (list3 w)[i := []]\<rparr>)"
    "wheel_ok (w\<lparr>list4 := (list4 w)[i := []]\<rparr>)" "wheel_ok (w\<lparr>list5 := (list5 w)[i := []]\<rparr>)"
  using assms all_timers_cleared [of w i] by (auto simp: wheel_ok_def slots_ok_def)

lemma Index_less: "Index level w < 64"
  by (simp add: Index_def)

lemma Cacsade_ok:
  assumes "wheel_ok w"
  shows "wheel_ok (snd (Cacsade list2 put2 (Index 0 w) w))" "wheel_ok (snd (Cacsade list3 put3 (Index 1 w) w))"
    "wheel_ok (snd (Cacsade list4 put4 (Index 2 w) w))" "wheel_ok (snd (Cacsade list5 put5 (Index 3 w) w))"
proof -
  have l: "length (list2 w) = 64" "length (list3 w) = 64" "length (list4 w) = 64" "length (list5 w) = 64"
    using assms by (simp_all add: wheel_ok_def slots_ok_def)
  have i: "\<forall>t \<in> all_timers w. interval_ok t" using assms by (simp add: wheel_ok_def)
  show "wheel_ok (snd (Cacsade list2 put2 (Index 0 w) w))"
    using slot_timers(1) [of "Index 0 w" w] i l assms wheel_cleared(1) [OF assms, of "Index 0 w"] Index_less [of 0 w]
    by (auto simp: Cacsade_def put2_def put3_def put4_def put5_def intro!: fold_AddTimer(1))
  show "wheel_ok (snd (Cacsade list3 put3 (Index 1 w) w))"
    using slot_timers(2) [of "Index 1 w" w] i l assms wheel_cleared(2) [OF assms, of "Index 1 w"] Index_less [of 1 w]
    by (auto simp: Cacsade_def put2_def put3_def put4_def put5_def intro!: fold_AddTimer(1))
  show "wheel_ok (snd (Cacsade list4 put4 (Index 2 w) w))"
    using slot_timers(3) [of "Index 2 w" w] i l assms wheel_cleared(3) [OF assms, of "Index 2 w"] Index_less [of 2 w]
    by (auto simp: Cacsade_def put2_def put3_def put4_def put5_def intro!: fold_AddTimer(1))
  show "wheel_ok (snd (Cacsade list5 put5 (Index 3 w) w))"
    using slot_timers(4) [of "Index 3 w" w] i l assms wheel_cleared(4) [OF assms, of "Index 3 w"] Index_less [of 3 w]
    by (auto simp: Cacsade_def put2_def put3_def put4_def put5_def intro!: fold_AddTimer(1))
qed

lemma settled_other: "settled t (w\<lparr>list3 := x\<rparr>) = settled t w" "settled t (w\<lparr>list4 := x\<rparr>) = settled t w" "settled t (w\<lparr>list5 := x\<rparr>) = settled t w"
  by (simp_all add: settled_def)

lemma Cacsade_settled:
  assumes "settled t w"
  shows "settled t (snd (Cacsade list3 put3 i w))" "settled t (snd (Cacsade list4 put4 i w))"
    "settled t (snd (Cacsade list5 put5 i w))"
  using assms by (simp_all add: Cacsade_def put3_def put4_def put5_def settled_other settled_fold)

text \<open>The slot of the second list that begins now holds exactly the timers in place that are due within 256 milliseconds.\<close>

lemma mod_shift: "n < 64 \<Longrightarrow> (a + n) mod 64 = a mod 64 \<Longrightarrow> n = (0 :: nat)"
  using mod_add_left_eq [of a 64 n] mod_if [of "a mod 64 + n" 64] mod_less_divisor [of 64 a] by (auto simp: le_mod_geq split: if_splits)

lemma Cacsade_list2:
  assumes "wheel_ok w" "in_place t w" "lastCheckTime w mod 256 = 0"
  shows "settled t (snd (Cacsade list2 put2 (Index 0 w) w))"
proof -
  let ?T = "lastCheckTime w" and ?d = "triggerTime t"
  have b: "?T \<le> ?d" "?d < ?T + 2 ^ 14" using assms(2) by (simp_all add: in_place_def)
  have T: "?T = ?T div 256 * 256" using assms(3) by (metis add.right_neutral div_mult_mod_eq)
  have q: "?T div 256 \<le> ?d div 256" "?d div 256 < ?T div 256 + 64"
  proof -
    show "?T div 256 \<le> ?d div 256" by (rule div_le_mono [OF b(1)])
    have "?T div 256 * 256 + 16384 = (?T div 256 + 64) * 256" by simp
    moreover have "?d < ?T + 16384" using b(2) by simp
    ultimately have "?d < (?T div 256 + 64) * 256" using T by linarith
    then show "?d div 256 < ?T div 256 + 64" by (rule less_mult_imp_div_less)
  qed
  have same: "?d div 256 = ?T div 256" if "?d div 256 mod 64 = ?T div 256 mod 64"
  proof -
    obtain n where n: "?d div 256 = ?T div 256 + n" using q(1) le_Suc_ex by blast
    then have "n < 64" "(?T div 256 + n) mod 64 = ?T div 256 mod 64" using q(2) that by simp_all
    then show ?thesis using n mod_shift by simp
  qed
  have ix: "Index 0 w = ?T div 256 mod 64" by (simp add: Index_def)
  let ?w = "w\<lparr>list2 := (list2 w)[Index 0 w := []]\<rparr>" and ?ts = "list2 w ! Index 0 w"
  have c: "snd (Cacsade list2 put2 (Index 0 w) w) = (if ?ts = [] then w else fold AddTimer ?ts ?w)"
    by (simp add: Cacsade_def put2_def put3_def put4_def put5_def)
  from assms(2) consider "?d < ?T + 256" "t \<in> set (list1 w ! (?d mod 256))"
    | "t \<in> set (list2 w ! (?d div 256 mod 64))" "?d div 256 mod 64 = ?T div 256 mod 64"
    | "t \<in> set (list2 w ! (?d div 256 mod 64))" "?d div 256 mod 64 \<noteq> ?T div 256 mod 64"
    unfolding in_place_def by blast
  then show ?thesis
  proof cases
    case 1
    then have "settled t w" "settled t ?w" using b by (simp_all add: settled_def)
    then show ?thesis unfolding c by (simp add: settled_fold)
  next
    case 2
    then have near: "?d < ?T + 256" using same T by (metis div_mult_mod_eq mod_less_divisor nat_add_left_cancel_less zero_less_numeral)
    have t: "t \<in> set ?ts" using 2 ix by simp
    then have ne: "?ts \<noteq> []" by auto
    have "t \<in> set (list1 (fold AddTimer ?ts ?w) ! (?d mod 256))"
      using assms(1) near b(1) t by (intro fold_AddTimer_member) (auto simp: wheel_ok_def slots_ok_def)
    then show ?thesis unfolding c using ne near b by (simp add: settled_def fold_AddTimer(2))
  next
    case 3
    then have "?T div 256 < ?d div 256" using q(1) by (metis le_neq_implies_less)
    then have "?T < ?d div 256 * 256" using T by simp
    then have "settled t w" "settled t ?w" using b 3 ix by (simp_all add: settled_def)
    then show ?thesis unfolding c by (simp add: settled_fold)
  qed
qed

lemma cascades_settled:
  assumes "wheel_ok w" "in_place t w"
  shows "settled t (cascades w)"
proof (cases "lastCheckTime w mod 256 = 0")
  case True
  have s: "settled t (snd (Cacsade list2 put2 (Index 0 w) w))" by (rule Cacsade_list2 [OF assms True])
  then show ?thesis
    using True by (auto simp: cascades_def split: prod.split bool.split) (metis Cacsade_settled snd_conv)+
next
  case False
  then have "lastCheckTime w \<noteq> triggerTime t div 256 * 256" by auto
  then show ?thesis using assms(2) False by (auto simp: cascades_def in_place_def settled_def)
qed

lemma Cacsade_False: "Cacsade g p i w = (False, w') \<Longrightarrow> w' = w"
  by (auto simp: Cacsade_def put2_def put3_def put4_def put5_def split: if_splits)

lemma Cacsade_fields: "lastCheckTime (snd (Cacsade list2 put2 i w)) = lastCheckTime w"
  "lastCheckTime (snd (Cacsade list3 put3 i w)) = lastCheckTime w" "lastCheckTime (snd (Cacsade list4 put4 i w)) = lastCheckTime w"
  "lastCheckTime (snd (Cacsade list5 put5 i w)) = lastCheckTime w"
  by (simp_all add: Cacsade_def put2_def put3_def put4_def put5_def fold_AddTimer(2))

lemma cascades_ok:
  assumes "wheel_ok w"
  shows "wheel_ok (cascades w)" "lastCheckTime (cascades w) = lastCheckTime w"
proof -
  have "wheel_ok (cascades w) \<and> lastCheckTime (cascades w) = lastCheckTime w"
    using assms Cacsade_ok [OF assms] Cacsade_fields [of _ w]
    by (auto simp: cascades_def split: prod.split bool.split dest!: Cacsade_False) (metis snd_conv)+
  then show "wheel_ok (cascades w)" "lastCheckTime (cascades w) = lastCheckTime w" by simp_all
qed

subsection \<open>Running a slot\<close>

text \<open>Callbacks that leave the wheel alone, though they may hand timers to it for the next update.\<close>

definition keeps_wheel :: "(nat \<Rightarrow> timers \<Rightarrow> timers) \<Rightarrow> bool" where
  "keeps_wheel cb \<longleftrightarrow>
     (\<forall>i w. \<exists>a f. cb i w = w\<lparr>async_timers := a, freepool := f\<rparr> \<and> ((\<forall>t \<in> set (async_timers w). interval_ok t) \<longrightarrow> (\<forall>t \<in> set a. interval_ok t)))"

lemma diff_delay:
  assumes "T \<le> 2 ^ 64"
  shows "(AddDelay i x + 2 ^ 64 - T) mod 2 ^ 32 = ((x + 2 ^ 64 - T) mod 2 ^ 32 + i) mod (2 ^ 32 :: nat)"
proof -
  let ?c = "2 ^ 64 - T"
  have c: "y + 2 ^ 64 - T = y + ?c" for y using assms by simp
  have "(2 :: nat) ^ 32 dvd 2 ^ 64" by (rule le_imp_power_dvd) simp
  then have "AddDelay i x mod 2 ^ 32 = (x + i) mod 2 ^ 32" unfolding AddDelay_def by (rule mod_mod_cancel)
  then have "(AddDelay i x + ?c) mod 2 ^ 32 = (x + i + ?c) mod 2 ^ 32" by (metis mod_add_left_eq)
  also have "x + i + ?c = x + ?c + i" by (simp only: add.assoc add.commute [of i])
  also have "(x + ?c + i) mod 2 ^ 32 = ((x + ?c) mod 2 ^ 32 + i) mod 2 ^ 32" by (rule mod_add_left_eq [symmetric])
  finally show ?thesis by (simp only: c)
qed

lemma slot_of_diff:
  assumes "lastCheckTime w \<le> 2 ^ 64"
  shows "triggerTime t mod 256 = (lastCheckTime w + timer_diff t w) mod 256"
proof -
  let ?T = "lastCheckTime w" and ?x = "triggerTime t"
  let ?c = "2 ^ 64 - ?T"
  have "(256 :: nat) dvd 2 ^ 32" using le_imp_power_dvd [of 8 32 "2 :: nat"] by simp
  moreover have "timer_diff t w = (?x + ?c) mod 2 ^ 32" using assms by (simp add: timer_diff_def)
  ultimately have "timer_diff t w mod 256 = (?x + ?c) mod 256" by (simp only: mod_mod_cancel)
  then have "(?T + timer_diff t w) mod 256 = (?T + (?x + ?c)) mod 256" by (metis mod_add_right_eq)
  also have "?T + (?x + ?c) = ?x + 256 * 2 ^ 56" using assms by simp
  also have "(?x + 256 * 2 ^ 56) mod 256 = ?x mod 256" by (rule mod_mult_self2)
  finally show ?thesis by simp
qed

text \<open>Only a timer that is due in exactly 255 milliseconds comes into the slot that has just begun to run.\<close>

lemma slot_shift: "d < 256 \<Longrightarrow> (T + d) mod 256 = (T + 255) mod 256 \<Longrightarrow> d = (255 :: nat)"
proof -
  assume d: "d < 256" "(T + d) mod 256 = (T + 255) mod 256"
  then have "(T mod 256 + d) mod 256 = (T mod 256 + 255) mod 256" by (metis mod_add_left_eq)
  moreover have "(m + e) mod 256 = (if m + e < 256 then m + e else m + e - 256)" if "m < 256" "e < 256" for m e :: nat
    using that by (simp add: le_mod_geq)
  ultimately have "(if T mod 256 + d < 256 then T mod 256 + d else T mod 256 + d - 256) =
      (if T mod 256 + 255 < 256 then T mod 256 + 255 else T mod 256 + 255 - 256)" using d(1) by simp
  then show ?thesis using d(1) mod_less_divisor [of 256 T] by (auto split: if_splits)
qed

lemma AddTimer_other_slot:
  assumes "lastCheckTime w \<le> 2 ^ 64" "timer_diff t w \<noteq> 255"
  shows "list1 (AddTimer t w) ! ((lastCheckTime w + 255) mod 256) = list1 w ! ((lastCheckTime w + 255) mod 256)"
proof -
  have "lastCheckTime w mod 256 \<noteq> (lastCheckTime w + 255) mod 256" using slot_shift [of 0 "lastCheckTime w"] by auto
  moreover have "triggerTime t mod 256 \<noteq> (lastCheckTime w + 255) mod 256" if "timer_diff t w < 256"
    using slot_of_diff [OF assms(1), of t] slot_shift [OF that, of "lastCheckTime w"] assms(2) by auto
  ultimately show ?thesis by (cases "timer_diff t w < 256") (simp_all add: AddTimer_def Let_def push_slot_nth(3))
qed

lemma AddTimer_same_slot:
  assumes "lastCheckTime w \<le> 2 ^ 64" "timer_diff t w = 255" "length (list1 w) = 256"
  shows "list1 (AddTimer t w) ! ((lastCheckTime w + 255) mod 256) = t # list1 w ! ((lastCheckTime w + 255) mod 256)"
  using slot_of_diff [OF assms(1), of t] assms(2,3) by (simp add: AddTimer_def Let_def push_slot_def)

definition again :: "timer \<Rightarrow> timers \<Rightarrow> bool" where
  "again t w \<longleftrightarrow> timer_diff (snd (OnTimer t)) w = 255"

lemma OnTimer_called: "fst (OnTimer t) \<Longrightarrow> triggerTime (snd (OnTimer t)) = AddDelay (interval t) (triggerTime t)"
  by (auto simp: OnTimer_def Let_def split: if_splits)

lemma OnTimer_interval: "interval (snd (OnTimer t)) = interval t" "tm_id (snd (OnTimer t)) = tm_id t"
  by (auto simp: OnTimer_def Let_def)

lemma not_twice_again:
  assumes "lastCheckTime w \<le> 2 ^ 64" "timer_diff t w = 255" "interval_ok t" "fst (OnTimer t)"
  shows "\<not> again t w"
proof
  assume "again t w"
  then have "(255 + interval t) mod 2 ^ 32 = 255"
    using diff_delay [OF assms(1), of "interval t" "triggerTime t"] assms(2,4) OnTimer_called by (simp add: again_def timer_diff_def)
  then show False using assms(3) by (auto simp: interval_ok_def mod_if split: if_splits)
qed

definition turns :: "nat \<Rightarrow> timers \<Rightarrow> nat" where
  "turns index w = sum_list (map (\<lambda>t. if fst (OnTimer t) \<and> again t w then 2 else 1) (list1 w ! index))"

lemma again_lastCheck: "lastCheckTime w' = lastCheckTime w \<Longrightarrow> again t w' = again t w"
  by (simp add: again_def timer_diff_def)

lemma wheel_ok_tail:
  assumes "wheel_ok w" "list1 w ! i = t # ts" "i < 256"
  shows "wheel_ok (w\<lparr>list1 := (list1 w)[i := ts]\<rparr>)" "interval_ok t"
proof -
  have "set (concat ((list1 w)[i := ts])) \<subseteq> set (concat (list1 w))"
  proof -
    have "list1 w ! i \<in> set (list1 w)" by (rule nth_mem) (use assms(1,3) in \<open>simp add: wheel_ok_def slots_ok_def\<close>)
    moreover have "set ts \<subseteq> set (list1 w ! i)" using assms(2) by auto
    ultimately show ?thesis using set_update_subset_insert [of "list1 w" i ts] by auto
  qed
  then have "all_timers (w\<lparr>list1 := (list1 w)[i := ts]\<rparr>) \<subseteq> all_timers w" by (auto simp: all_timers_def simp del: set_concat)
  then show "wheel_ok (w\<lparr>list1 := (list1 w)[i := ts]\<rparr>)" using assms(1) by (auto simp: wheel_ok_def slots_ok_def)
  have "t \<in> all_timers w" using slot_timers(5) [of i w] assms by (auto simp: wheel_ok_def slots_ok_def)
  then show "interval_ok t" using assms(1) by (simp add: wheel_ok_def)
qed

lemma callback_wheel:
  assumes "keeps_wheel cb" "wheel_ok w"
  shows "wheel_ok (cb i w)" "lastCheckTime (cb i w) = lastCheckTime w" "list1 (cb i w) = list1 w" "list2 (cb i w) = list2 w" "list3 (cb i w) = list3 w"
proof -
  obtain a f where c: "cb i w = w\<lparr>async_timers := a, freepool := f\<rparr>" "(\<forall>t \<in> set (async_timers w). interval_ok t) \<longrightarrow> (\<forall>t \<in> set a. interval_ok t)"
    using assms(1) keeps_wheel_def by metis
  have "\<forall>t \<in> set (async_timers w). interval_ok t" using assms(2) by (simp add: wheel_ok_def all_timers_def)
  then show "wheel_ok (cb i w)" using c assms(2) by (auto simp: wheel_ok_def slots_ok_def all_timers_def simp del: set_concat)
  show "lastCheckTime (cb i w) = lastCheckTime w" "list1 (cb i w) = list1 w" "list2 (cb i w) = list2 w" "list3 (cb i w) = list3 w" using c(1) by simp_all
qed

definition in_second :: "timer \<Rightarrow> timers \<Rightarrow> bool" where
  "in_second t w \<longleftrightarrow> lastCheckTime w \<le> triggerTime t div 256 * 256 \<and> t \<in> set (list2 w ! (triggerTime t div 256 mod 64))"

lemma in_place_tail:
  "in_place t w \<Longrightarrow> triggerTime t mod 256 \<noteq> i \<or> in_second t w \<Longrightarrow> in_place t (w\<lparr>list1 := (list1 w)[i := ts]\<rparr>)"
  by (auto simp: in_place_def in_second_def)

lemma in_second_AddTimer: "in_second t w \<Longrightarrow> in_second t (AddTimer u w)"
  using AddTimer_grows(2) [of w "triggerTime t div 256 mod 64" u] by (auto simp: in_second_def)

lemma wheel_ok_freepool [simp]: "wheel_ok (w\<lparr>freepool := f\<rparr>) = wheel_ok w" "in_place t (w\<lparr>freepool := f\<rparr>) = in_place t w" "in_second t (w\<lparr>freepool := f\<rparr>) = in_second t w"
  "in_second t (w\<lparr>list1 := l\<rparr>) = in_second t w" "in_place t (w\<lparr>async_timers := a\<rparr>) = in_place t w"
  by (simp_all add: wheel_ok_def slots_ok_def all_timers_def in_place_def in_second_def)

text \<open>Running a slot returns, calls every timer of the slot that has turns left, and leaves the timers of the other slots in place.\<close>

definition slot_done :: "nat \<Rightarrow> timers \<Rightarrow> nat list \<Rightarrow> timers \<Rightarrow> bool" where
  "slot_done index w ids w' \<longleftrightarrow>
     wheel_ok w' \<and> lastCheckTime w' = lastCheckTime w \<and>
     (\<forall>t. in_place t w \<longrightarrow> triggerTime t mod 256 \<noteq> index \<or> in_second t w \<longrightarrow> in_place t w') \<and>
     (\<forall>i. set (list3 w ! i) \<subseteq> set (list3 w' ! i)) \<and>
     (\<forall>t \<in> set (list1 w ! index). fst (OnTimer t) \<longrightarrow> tm_id t \<in> set ids)"

lemma run_slot_returns:
  assumes "keeps_wheel cb" "wheel_ok w" "lastCheckTime w \<le> 2 ^ 64" "index = (lastCheckTime w + 255) mod 256"
  shows "\<exists>ids w'. run_slot cb index w fired = Some (fired @ ids, w') \<and> slot_done index w ids w'"
  using assms
proof (induction "turns index w" arbitrary: w fired rule: less_induct)
  case less
  show ?case
  proof (cases "list1 w ! index")
    case Nil
    then have "run_slot cb index w fired = Some (fired, w)" by (simp add: run_slot.simps)
    then show ?thesis using less.prems(2) Nil by (auto simp: slot_done_def)
  next
    case (Cons t ts)
    have i: "index < 256" using less.prems(4) by simp
    let ?w = "w\<lparr>list1 := (list1 w)[index := ts]\<rparr>"
    note tl = wheel_ok_tail [OF less.prems(2) Cons i]
    have slot: "list1 ?w ! index = ts" using less.prems(2) i by (simp add: wheel_ok_def slots_ok_def)
    show ?thesis
    proof (cases "fst (OnTimer t)")
      case False
      let ?v = "?w\<lparr>freepool := List.insert (tm_id t) (freepool ?w)\<rparr>"
      have "turns index ?v < turns index w" using slot Cons False again_lastCheck [of ?v w] by (simp add: turns_def)
      then obtain ids w' where r: "run_slot cb index ?v fired = Some (fired @ ids, w')" "slot_done index ?v ids w'"
        using less.hyps [of ?v fired] less.prems(1,3,4) tl(1) by auto
      have "run_slot cb index w fired = Some (fired @ ids, w')" using r(1) Cons False by (simp add: run_slot.simps [of cb index w] Let_def)
      moreover have "slot_done index w ids w'"
        using r(2) Cons False slot in_place_tail [of _ w index ts] by (auto simp: slot_done_def)
      ultimately show ?thesis by blast
    next
      case True
      let ?u = "snd (OnTimer t)" and ?c = "cb (tm_id t) ?w"
      let ?v = "AddTimer ?u ?c"
      note c = callback_wheel [OF less.prems(1) tl(1), of "tm_id t"]
      have T: "lastCheckTime ?v = lastCheckTime w" using c(2) by simp
      have v: "wheel_ok ?v" using c(1) tl(2) by (intro AddTimer_wheel) (simp_all add: interval_ok_def OnTimer_interval)
      have cT: "lastCheckTime ?c \<le> 2 ^ 64" "index = (lastCheckTime ?c + 255) mod 256" using c(2) less.prems(3,4) by simp_all
      have ag: "again x ?v = again x w" for x by (rule again_lastCheck [OF T])
      have d: "timer_diff ?u ?c = 255 \<longleftrightarrow> again t w" using c(2) by (simp add: again_def timer_diff_def)
      have new: "list1 ?v ! index = (if again t w then ?u # ts else ts)"
        using AddTimer_other_slot [OF cT(1), of ?u] AddTimer_same_slot [OF cT(1), of ?u] d c(3) slot cT(2) tl(1)
        by (auto simp: wheel_ok_def slots_ok_def)
      have once: "\<not> (fst (OnTimer ?u) \<and> again ?u w)" if "again t w"
        using not_twice_again [of ?c ?u] cT(1) that d tl(2) again_lastCheck [of ?c w] c(2) by (auto simp: interval_ok_def OnTimer_interval)
      have "turns index ?v < turns index w" unfolding turns_def new ag using once Cons True by auto
      then obtain ids w' where r: "run_slot cb index ?v (fired @ [tm_id t]) = Some ((fired @ [tm_id t]) @ ids, w')" "slot_done index ?v ids w'"
        using less.hyps [of ?v "fired @ [tm_id t]"] less.prems(1,3,4) v T by auto
      have run: "run_slot cb index w fired = Some (fired @ tm_id t # ids, w')" using r(1) Cons True by (simp add: run_slot.simps [of cb index w] Let_def)
      have "in_place x ?v \<and> (triggerTime x mod 256 \<noteq> index \<or> in_second x ?v)" if "in_place x w" "triggerTime x mod 256 \<noteq> index \<or> in_second x w" for x
      proof -
        have "in_place x ?c" using in_place_tail [OF that, of ts] c(2-4) by (simp add: in_place_def)
        moreover have "in_second x ?c" if "in_second x w" using that c(2,4) by (simp add: in_second_def)
        ultimately show ?thesis using that(2) AddTimer_keeps in_second_AddTimer by blast
      qed
      note keep = this
      have grow: "set (list3 w ! i) \<subseteq> set (list3 w' ! i)" for i
      proof (rule subset_trans)
        show "set (list3 w ! i) \<subseteq> set (list3 ?v ! i)" using AddTimer_grows(3) [of ?c i ?u] c(5) by simp
        show "set (list3 ?v ! i) \<subseteq> set (list3 w' ! i)" using r(2) by (simp add: slot_done_def)
      qed
      have "slot_done index w (tm_id t # ids) w'" unfolding slot_done_def
      proof (intro conjI)
        show "wheel_ok w'" "lastCheckTime w' = lastCheckTime w" using r(2) T by (simp_all add: slot_done_def)
        show "\<forall>x. in_place x w \<longrightarrow> triggerTime x mod 256 \<noteq> index \<or> in_second x w \<longrightarrow> in_place x w'"
          using r(2) keep by (simp add: slot_done_def)
        show "\<forall>i. set (list3 w ! i) \<subseteq> set (list3 w' ! i)" using grow by blast
        show "\<forall>x \<in> set (list1 w ! index). fst (OnTimer x) \<longrightarrow> tm_id x \<in> set (tm_id t # ids)"
          using r(2) Cons new by (auto simp: slot_done_def split: if_splits)
      qed
      then show ?thesis using run by blast
    qed
  qed
qed

subsection \<open>Updates\<close>

lemma slot_shift_zero: "0 < n \<Longrightarrow> n < 256 \<Longrightarrow> (T + n) mod 256 \<noteq> (T :: nat) mod 256"
proof -
  assume n: "0 < n" "n < 256"
  have "(T mod 256 + n) mod 256 = (if T mod 256 + n < 256 then T mod 256 + n else T mod 256 + n - 256)"
    using n mod_less_divisor [of 256 T] by (simp add: le_mod_geq)
  then show ?thesis using n mod_less_divisor [of 256 T] mod_add_left_eq [of T 256 n] by (auto split: if_splits)
qed

definition update_done :: "nat \<Rightarrow> timers \<Rightarrow> (nat \<times> nat) list \<Rightarrow> timers \<Rightarrow> bool" where
  "update_done now_ms w log w' \<longleftrightarrow>
     wheel_ok w' \<and> lastCheckTime w' = max (lastCheckTime w) (Suc now_ms) \<and>
     (\<forall>t. in_place t w \<longrightarrow> (if triggerTime t \<le> now_ms then fst (OnTimer t) \<longrightarrow> (triggerTime t, tm_id t) \<in> set log else in_place t w'))"

lemma update_loop_returns:
  assumes "keeps_wheel cb" "wheel_ok w" "now_ms < 2 ^ 63"
  shows "\<exists>log w'. update_loop cb now_ms w log0 = Some (log0 @ log, w') \<and> update_done now_ms w log w'"
  using assms(2)
proof (induction "Suc now_ms - lastCheckTime w" arbitrary: w log0 rule: less_induct)
  case less
  let ?T = "lastCheckTime w"
  show ?case
  proof (cases "?T \<le> now_ms")
    case False
    then have "update_loop cb now_ms w log0 = Some (log0, w)" by (simp add: update_loop.simps)
    moreover have "update_done now_ms w [] w" using False less.prems by (auto simp: update_done_def in_place_def)
    ultimately show ?thesis by auto
  next
    case True
    have d: "AddDelay 1 ?T = Suc ?T" using True assms(3) by (simp add: AddDelay_def)
    let ?v = "(cascades w)\<lparr>lastCheckTime := Suc ?T\<rparr>"
    have v: "wheel_ok ?v" using cascades_ok(1) [OF less.prems] by (simp add: wheel_ok_def slots_ok_def all_timers_def)
    have "lastCheckTime ?v \<le> 2 ^ 64" using True assms(3) by simp
    moreover have "?T mod 256 = (lastCheckTime ?v + 255) mod 256" by simp
    ultimately obtain ids u where r: "run_slot cb (?T mod 256) ?v [] = Some ([] @ ids, u)" "slot_done (?T mod 256) ?v ids u"
      using run_slot_returns [OF assms(1) v] by blast
    have u: "wheel_ok u" "lastCheckTime u = Suc ?T" using r(2) by (simp_all add: slot_done_def)
    have "Suc now_ms - lastCheckTime u < Suc now_ms - ?T" using u(2) True by simp
    then obtain log w' where l: "update_loop cb now_ms u (log0 @ map (Pair ?T) ids) = Some ((log0 @ map (Pair ?T) ids) @ log, w')"
      "update_done now_ms u log w'" using less.hyps u(1) by blast
    have "update_loop cb now_ms w log0 = Some (log0 @ map (Pair ?T) ids @ log, w')"
      using l(1) r(1) True d by (simp add: update_loop.simps [of cb now_ms w])
    moreover have "update_done now_ms w (map (Pair ?T) ids @ log) w'"
    proof -
      have "if triggerTime t \<le> now_ms then fst (OnTimer t) \<longrightarrow> (triggerTime t, tm_id t) \<in> set (map (Pair ?T) ids @ log) else in_place t w'"
        if "in_place t w" for t
      proof -
        have s: "settled t (cascades w)" by (rule cascades_settled [OF less.prems that])
        note T = cascades_ok(2) [OF less.prems]
        show ?thesis
        proof (cases "triggerTime t = ?T")
          case True
          then have "t \<in> set (list1 ?v ! (?T mod 256))" using s T by (auto simp: settled_def)
          then have "fst (OnTimer t) \<longrightarrow> tm_id t \<in> set ids" using r(2) by (auto simp: slot_done_def)
          then show ?thesis using True \<open>?T \<le> now_ms\<close> by auto
        next
          case False
          then have gt: "Suc ?T \<le> triggerTime t" using s T by (auto simp: settled_def)
          have "in_place t ?v" using s T gt by (auto simp: settled_def in_place_def)
          moreover have "triggerTime t mod 256 \<noteq> ?T mod 256 \<or> in_second t ?v"
          proof (cases "in_second t ?v")
            case False
            then have near: "triggerTime t < ?T + 256" using s T by (auto simp: settled_def in_second_def)
            obtain n where n: "triggerTime t = ?T + n" "0 < n" "n < 256" using gt near by (metis Suc_le_eq add.commute less_imp_add_positive nat_add_left_cancel_less)
            then show ?thesis using slot_shift_zero by simp
          qed simp
          ultimately have "in_place t u" using r(2) by (auto simp: slot_done_def)
          then show ?thesis using l(2) by (auto simp: update_done_def split: if_splits)
        qed
      qed
      moreover have "wheel_ok w'" "lastCheckTime w' = max ?T (Suc now_ms)" using l(2) u(2) True by (simp_all add: update_done_def)
      ultimately show ?thesis unfolding update_done_def by blast
    qed
    ultimately show ?thesis by auto
  qed
qed

lemma UpdateTimers_returns:
  assumes "keeps_wheel cb" "wheel_ok w" "now_ms < 2 ^ 63"
  shows "\<exists>log w'. UpdateTimers cb locked now_ms w = Some (lastCheckTime w \<le> now_ms, log, w') \<and> update_done now_ms w log w'"
proof -
  let ?w = "if async_timers w \<noteq> [] \<and> \<not> locked then fold AddTimer (async_timers w) (w\<lparr>async_timers := []\<rparr>) else w"
  have ok: "wheel_ok (w\<lparr>async_timers := []\<rparr>)" "\<forall>u \<in> set (async_timers w). interval_ok u"
    using assms(2) by (auto simp: wheel_ok_def slots_ok_def all_timers_def simp del: set_concat)
  have w: "wheel_ok ?w" "lastCheckTime ?w = lastCheckTime w" "\<And>t. in_place t w \<Longrightarrow> in_place t ?w"
    using fold_AddTimer(1) [OF ok] assms(2) fold_AddTimer(4) by (simp_all add: fold_AddTimer(2))
  obtain log w' where l: "update_loop cb now_ms ?w [] = Some ([] @ log, w')" "update_done now_ms ?w log w'"
    using update_loop_returns [OF assms(1) w(1) assms(3)] by blast
  have "UpdateTimers cb locked now_ms w = Some (lastCheckTime w \<le> now_ms, log, w')"
    using l(1) w(2) by (simp add: UpdateTimers_def Let_def)
  moreover have "update_done now_ms w log w'" using l(2) w(2,3) unfolding update_done_def by auto
  ultimately show ?thesis by blast
qed

text \<open>A sequence of updates.\<close>

fun updates :: "(nat \<Rightarrow> timers \<Rightarrow> timers) \<Rightarrow> (nat \<times> bool) list \<Rightarrow> timers \<Rightarrow> ((nat \<times> nat) list \<times> timers) option" where
  "updates cb [] w = Some ([], w)"
| "updates cb ((now_ms, locked) # ns) w =
     Option.bind (UpdateTimers cb locked now_ms w) (\<lambda>(_, log, w).
       map_option (\<lambda>(log', w). (log @ log', w)) (updates cb ns w))"

text \<open>C40: A timer that is added less than 16384 milliseconds before it is due is called on time: the loop over the updates always
  returns, and as soon as one of them has a time that is not before the timer's, the timer has been called for exactly the
  millisecond it was due in, whatever other timers there are and wherever the cascades move them. This is for callbacks that
  leave the wheel to the manager and timers with an interval.\<close>

theorem near_timer_on_time:
  assumes "keeps_wheel cb" "wheel_ok w" "interval_ok t" "fst (OnTimer t)"
    and "lastCheckTime w \<le> triggerTime t" "triggerTime t < lastCheckTime w + 2 ^ 14"
    and "\<forall>(n, locked) \<in> set ns. n < 2 ^ 63" "\<exists>(n, locked) \<in> set ns. triggerTime t \<le> n"
  shows "\<exists>log w'. updates cb ns (AddTimer t w) = Some (log, w') \<and> (triggerTime t, tm_id t) \<in> set log"
proof -
  have returns: "\<exists>log w'. updates cb ns v = Some (log, w')" if "wheel_ok v" "\<forall>(n, locked) \<in> set ns. n < 2 ^ 63" for ns v
    using that
  proof (induction ns arbitrary: v)
    case (Cons p ns)
    obtain n locked where p: "p = (n, locked)" by (cases p)
    have "n < 2 ^ 63" using Cons.prems(2) p by simp
    then obtain log v' where u: "UpdateTimers cb locked n v = Some (lastCheckTime v \<le> n, log, v')" "update_done n v log v'"
      using UpdateTimers_returns [OF assms(1) Cons.prems(1)] by blast
    then have "wheel_ok v'" by (simp add: update_done_def)
    then show ?case using Cons.IH [of v'] Cons.prems(2) p u(1) by auto
  qed simp
  have called: "\<exists>log w'. updates cb ns v = Some (log, w') \<and> (triggerTime t, tm_id t) \<in> set log"
    if "wheel_ok v" "in_place t v" "\<forall>(n, locked) \<in> set ns. n < 2 ^ 63" "\<exists>(n, locked) \<in> set ns. triggerTime t \<le> n" for ns v
    using that
  proof (induction ns arbitrary: v)
    case (Cons p ns)
    obtain n locked where p: "p = (n, locked)" by (cases p)
    have "n < 2 ^ 63" using Cons.prems(3) p by simp
    then obtain log v' where u: "UpdateTimers cb locked n v = Some (lastCheckTime v \<le> n, log, v')" "update_done n v log v'"
      using UpdateTimers_returns [OF assms(1) Cons.prems(1)] by blast
    then have v': "wheel_ok v'" by (simp add: update_done_def)
    show ?case
    proof (cases "triggerTime t \<le> n")
      case True
      then have "(triggerTime t, tm_id t) \<in> set log" using u(2) Cons.prems(2) assms(4) by (auto simp: update_done_def)
      then show ?thesis using returns [OF v', of ns] Cons.prems(3) p u(1) by auto
    next
      case False
      then have "in_place t v'" using u(2) Cons.prems(2) by (auto simp: update_done_def)
      then show ?thesis using Cons.IH [OF v'] Cons.prems(3,4) p u(1) False by auto
    qed
  qed simp
  have "slots_ok w" using assms(2) by (simp add: wheel_ok_def)
  then show ?thesis by (intro called AddTimer_wheel AddTimer_in_place(1) assms)
qed

lemma keeps_wheel_id: "keeps_wheel (\<lambda>_ w. w)"
  unfolding keeps_wheel_def
proof (intro allI)
  fix w :: timers
  show "\<exists>a f. w = w\<lparr>async_timers := a, freepool := f\<rparr> \<and> ((\<forall>t \<in> set (async_timers w). interval_ok t) \<longrightarrow> (\<forall>t \<in> set a. interval_ok t))"
    by (rule exI [of _ "async_timers w"], rule exI [of _ "freepool w"]) simp
qed

theorem near_timer_on_time_witness:
  "\<exists>log w'. updates (\<lambda>_ w. w) [(700, False), (1600, True)]
      (AddTimer \<lparr>tm_id = 7, has_func = True, triggerTime = 1500, interval = 1500, tm_count = -1\<rparr> (TimerManager_new 0)) = Some (log, w') \<and>
    (1500, 7) \<in> set log"
proof -
  have "keeps_wheel (\<lambda>_ w. w)" by (rule keeps_wheel_id)
  moreover have "wheel_ok (TimerManager_new 0)" by (auto simp: wheel_ok_def slots_ok_def all_timers_def TimerManager_new_def)
  ultimately show ?thesis
    using near_timer_on_time [of "\<lambda>_ w. w" "TimerManager_new 0"
        "\<lparr>tm_id = 7, has_func = True, triggerTime = 1500, interval = 1500, tm_count = -1\<rparr>" "[(700, False), (1600, True)]"]
    by (simp add: interval_ok_def OnTimer_def TimerManager_new_def)
qed

subsection \<open>What goes wrong\<close>

text \<open>The third list is looked at only when the slot of the second one is empty. When it is not, a timer that is due at the
  beginning of that slot is not called but stays in the third list, and comes 256 milliseconds late at least.\<close>

theorem occupied_slot_delays:
  assumes "keeps_wheel cb" "wheel_ok w" "lastCheckTime w < 2 ^ 63" "lastCheckTime w mod 256 = 0" "async_timers w = []"
    and "list2 w ! Index 0 w \<noteq> []" "t \<in> set (list3 w ! i)"
  shows "\<exists>log w'. UpdateTimers cb locked (lastCheckTime w) w = Some (True, log, w') \<and> lastCheckTime w' = Suc (lastCheckTime w) \<and>
    t \<in> set (list3 w' ! i)"
proof -
  let ?T = "lastCheckTime w"
  have c: "cascades w = fold AddTimer (list2 w ! Index 0 w) (put2 ((list2 w)[Index 0 w := []]) w)"
    using assms(4,6) by (simp add: cascades_def Cacsade_def)
  have g: "set (list3 v ! i) \<subseteq> set (list3 (fold AddTimer ts v) ! i)" for ts v
    by (induction ts arbitrary: v) (auto dest: subsetD [OF AddTimer_grows(3)])
  have t: "t \<in> set (list3 (cascades w) ! i)" using assms(7) g [of "put2 ((list2 w)[Index 0 w := []]) w"] by (auto simp: c put2_def)
  let ?v = "(cascades w)\<lparr>lastCheckTime := Suc ?T\<rparr>"
  have d: "AddDelay 1 ?T = Suc ?T" using assms(3) by (simp add: AddDelay_def)
  have v: "wheel_ok ?v" using cascades_ok(1) [OF assms(2)] by (simp add: wheel_ok_def slots_ok_def all_timers_def)
  have "lastCheckTime ?v \<le> 2 ^ 64" "?T mod 256 = (lastCheckTime ?v + 255) mod 256" using assms(3) by simp_all
  then obtain ids u where r: "run_slot cb (?T mod 256) ?v [] = Some ([] @ ids, u)" "slot_done (?T mod 256) ?v ids u"
    using run_slot_returns [OF assms(1) v] by blast
  then have u: "lastCheckTime u = Suc ?T" "t \<in> set (list3 u ! i)" using t by (auto simp: slot_done_def)
  have "update_loop cb ?T u (map (Pair ?T) ids) = Some (map (Pair ?T) ids, u)" using u(1) by (simp add: update_loop.simps)
  then have "update_loop cb ?T w [] = Some (map (Pair ?T) ids, u)" using r(1) d by (simp add: update_loop.simps [of cb ?T w])
  then show ?thesis using assms(5) u by (simp add: UpdateTimers_def)
qed

theorem occupied_slot_delays_witness:
  "\<exists>w log w'. w = (AddTimer \<lparr>tm_id = 2, has_func = True, triggerTime = 16400, interval = 8000, tm_count = -1\<rparr>
        ((AddTimer \<lparr>tm_id = 1, has_func = True, triggerTime = 16384, interval = 16384, tm_count = -1\<rparr> (TimerManager_new 0))
         \<lparr>lastCheckTime := 8400\<rparr>))\<lparr>lastCheckTime := 16384\<rparr> \<and>
    UpdateTimers (\<lambda>_ w. w) False 16384 w = Some (True, log, w') \<and>
    \<lparr>tm_id = 1, has_func = True, triggerTime = 16384, interval = 16384, tm_count = -1\<rparr> \<in> set (list3 w' ! 1)"
proof -
  let ?t = "\<lparr>tm_id = 1, has_func = True, triggerTime = 16384, interval = 16384, tm_count = -1\<rparr>"
  let ?u = "\<lparr>tm_id = 2, has_func = True, triggerTime = 16400, interval = 8000, tm_count = -1\<rparr>"
  let ?v = "(AddTimer ?t (TimerManager_new 0))\<lparr>lastCheckTime := 8400\<rparr>"
  let ?w = "(AddTimer ?u ?v)\<lparr>lastCheckTime := 16384\<rparr>"
  have new: "wheel_ok (TimerManager_new 0)" by (auto simp: wheel_ok_def slots_ok_def all_timers_def TimerManager_new_def)
  have clock: "wheel_ok (w\<lparr>lastCheckTime := n\<rparr>) = wheel_ok w" for w n by (simp add: wheel_ok_def slots_ok_def all_timers_def)
  have "wheel_ok ?v" using AddTimer_wheel [OF new, of ?t] by (simp add: clock interval_ok_def)
  then have ok: "wheel_ok ?w" using AddTimer_wheel [of ?v ?u] by (simp add: clock interval_ok_def)
  have lists: "list3 ?w ! 1 = [?t]" "list2 ?w ! 0 = [?u]" "async_timers ?w = []"
    by (simp_all add: AddTimer_def timer_diff_def TimerManager_new_def push_slot_def Let_def)
  have clk: "lastCheckTime ?w = 16384" by simp
  have ix: "Index 0 ?w = 0" by (simp add: Index_def)
  have "\<exists>log w'. UpdateTimers (\<lambda>_ w. w) False (lastCheckTime ?w) ?w = Some (True, log, w') \<and> lastCheckTime w' = Suc (lastCheckTime ?w) \<and>
      ?t \<in> set (list3 w' ! 1)"
  proof (rule occupied_slot_delays [OF keeps_wheel_id ok])
    show "list2 ?w ! Index 0 ?w \<noteq> []" unfolding ix lists(2) by simp
    show "?t \<in> set (list3 ?w ! 1)" unfolding lists(1) by simp
  qed (simp_all only: clk lists(3), simp_all)
  then show ?thesis by auto
qed

text \<open>A timer with an interval of 256 milliseconds is called twice each time: its next time falls into the slot that is being run.\<close>

theorem timer_256_called_twice:
  assumes "has_func t" "tm_count t < 0" "interval t = 256" "triggerTime t < 2 ^ 62" "lastCheckTime w = Suc (triggerTime t)"
    and "length (list1 w) = 256" "list1 w ! (triggerTime t mod 256) = [t]"
  shows "\<exists>w'. run_slot (\<lambda>_ w. w) (triggerTime t mod 256) w [] = Some ([tm_id t, tm_id t], w')"
proof -
  let ?i = "triggerTime t mod 256" and ?w = "w\<lparr>list1 := (list1 w)[triggerTime t mod 256 := []]\<rparr>"
  let ?t1 = "t\<lparr>triggerTime := triggerTime t + 256\<rparr>" and ?t2 = "t\<lparr>triggerTime := triggerTime t + 512\<rparr>"
  have o1: "OnTimer t = (True, ?t1)" "OnTimer ?t1 = (True, ?t2)" using assms(1-4) by (simp_all add: OnTimer_def AddDelay_def Let_def)
  have i: "?i = (lastCheckTime w + 255) mod 256" "lastCheckTime w \<le> 2 ^ 64" using assms(4,5) by simp_all
  have shift: "(x + k + 2 ^ 64 - Suc x) mod 2 ^ 32 = k - 1" if "0 < k" "k < 2 ^ 32" for x k :: nat
  proof -
    have "x + k + 2 ^ 64 - Suc x = (k - 1) + 2 ^ 32 * 2 ^ 32" using that(1) by simp
    then show ?thesis using that by (simp only: mod_mult_self2) simp
  qed
  have df: "timer_diff ?t1 v = 255" "timer_diff ?t2 v = 511" if "lastCheckTime v = Suc (triggerTime t)" for v
  proof -
    have n: "triggerTime ?t1 = triggerTime t + 256" "triggerTime ?t2 = triggerTime t + 512" by simp_all
    have "timer_diff ?t1 v = 256 - 1" unfolding timer_diff_def that n by (rule shift) simp_all
    then show "timer_diff ?t1 v = 255" by simp
    have "timer_diff ?t2 v = 512 - 1" unfolding timer_diff_def that n by (rule shift) simp_all
    then show "timer_diff ?t2 v = 511" by simp
  qed
  have s1: "list1 (AddTimer ?t1 ?w) ! ?i = [?t1]"
  proof -
    have "list1 (AddTimer ?t1 ?w) ! ((lastCheckTime ?w + 255) mod 256) = ?t1 # list1 ?w ! ((lastCheckTime ?w + 255) mod 256)"
      by (rule AddTimer_same_slot) (use df(1) [of ?w] i(2) assms(5,6) in simp_all)
    moreover have "(lastCheckTime ?w + 255) mod 256 = ?i" using assms(5) by simp
    moreover have "list1 ?w ! ?i = []" using assms(6) by simp
    ultimately show ?thesis by (simp only:)
  qed
  let ?v = "(AddTimer ?t1 ?w)\<lparr>list1 := (list1 (AddTimer ?t1 ?w))[?i := []]\<rparr>"
  have l: "length (list1 (AddTimer ?t1 ?w)) = 256" using assms(6) by (simp add: AddTimer_def Let_def push_slot_nth(4))
  have s2: "list1 (AddTimer ?t2 ?v) ! ?i = []"
  proof -
    have "list1 (AddTimer ?t2 ?v) ! ((lastCheckTime ?v + 255) mod 256) = list1 ?v ! ((lastCheckTime ?v + 255) mod 256)"
      by (rule AddTimer_other_slot) (use df(2) [of ?v] i(2) assms(5) in simp_all)
    moreover have "(lastCheckTime ?v + 255) mod 256 = ?i" using assms(5) by simp
    moreover have "list1 ?v ! ?i = []" using l by simp
    ultimately show ?thesis by (simp only:)
  qed
  have "run_slot (\<lambda>_ w. w) ?i (AddTimer ?t2 ?v) [tm_id t, tm_id t] = Some ([tm_id t, tm_id t], AddTimer ?t2 ?v)"
    using s2 by (simp add: run_slot.simps)
  then have "run_slot (\<lambda>_ w. w) ?i (AddTimer ?t1 ?w) [tm_id t] = Some ([tm_id t, tm_id t], AddTimer ?t2 ?v)"
    using s1 o1(2) by (subst run_slot.simps) (simp add: Let_def)
  then have "run_slot (\<lambda>_ w. w) ?i w [] = Some ([tm_id t, tm_id t], AddTimer ?t2 ?v)"
    using assms(7) o1(1) by (subst run_slot.simps) (simp add: Let_def)
  then show ?thesis by blast
qed

end
