(* ===== verification/Spec2Isabelle.thy ===== *)
theory Spec2Isabelle
  imports Common Proto Glob Helper Strings Serving Sets Hashes SortedSets Keys Sessions System Transactions Receiving Rewrite Snapshot Replicas Timers
begin

text \<open>
  A model of Qedis, the reimplementation of the Redis server in C++: its core (src/QedisCore), the server that is built from
  it (src/QedisSvr) and the parts of the base library (src/QBase) its data goes through.

  \<^bold>\<open>How the program works.\<close> A connection (StreamSocket) collects the bytes of a client in a ring buffer and hands them to
  \<open>QClient::_HandlePacket\<close>, which parses a request (QProtoParser), refuses, queues or executes it through the table of commands
  (QCommandTable), and propagates the writes to watching clients, the append-only file and the slaves. The commands work on
  \<open>QStore\<close>: numbered databases of objects with their deadlines, queues of blocked clients, and perhaps a LevelDB behind them. Timers
  remove expired keys, release blocked clients, evict keys, write to the backend, start background saves and drive the replication.

  \<^bold>\<open>Conventions.\<close> One definition per function of the code, under its name; commands carry the suffix \<open>_cmd\<close>. A handler takes the
  parameters of the request, the reply so far and the server, and returns the error code, the reply and the server.
  \<^const>\<open>None\<close> means that the server dies there: a failed assertion, an exception nobody catches, or undefined behaviour that was
  reached. Errors that the code reports are values. Times and stamps are machine words, a \<open>long\<close> is an \<open>int\<close> whose wrap-around is
  written out, a \<open>std::string\<close> is a list of bytes, a table an association list with distinct keys, in the order of iteration. What the
  C library makes of floating point numbers, what chance, the layout of a hash table and the system give, is a parameter: the
  record \<open>libs\<close>, or an argument of the definition that needs it.

  \<^bold>\<open>The theories and the code.\<close>
  \<^item> \<open>Prelude\<close>: names of types, digits, association lists; the lemma collections the others use.
  \<^item> \<open>Common\<close> (QCommon.h, QCommon.cc), \<open>Helper\<close> (QHelper), \<open>Glob\<close> (QGlobRegex), \<open>Proto\<close> (QProtoParser, the encoder of QAOF.h and the
    loader of QAOF.cc): numbers and texts, replies, cursors over hash tables, patterns, requests.
  \<^item> \<open>Store\<close> (QStore), \<open>Server\<close> (the state around the store: QClient, QMulti, \<open>Propogate\<close>), \<open>Blocked\<close> (blocked clients and the timers of
    QStore.cc), \<open>Backend\<close> (QLeveldb.cc, synchronisation, eviction).
  \<^item> \<open>Strings\<close>, \<open>Lists\<close>, \<open>Sets\<close>, \<open>Hashes\<close>, \<open>SortedSets\<close>, \<open>Keys\<close>, \<open>Pubsub\<close>, \<open>Admin\<close>: the commands of QString.cc, QList.cc, QSet.cc, QHash.cc,
    QSortedSet.cc, QKeyCommand.cc, QPubsub.cc and QServerCommand.cc with QSlowLog.cc. \<open>Serving\<close> relates blocked clients and pushes.
  \<^item> \<open>Commands\<close> (QCommand.cc, QMulti.cc), \<open>Sessions\<close> (QClient.cc): the table, transactions, what happens to a packet.
  \<^item> \<open>Safety\<close>, \<open>System\<close>, \<open>Transactions\<close>, \<open>Receiving\<close>: the components put together, as a transition system of clients, packets and timers.
  \<^item> \<open>Buffers\<close> (UnboundedBuffer, Buffer.h), \<open>Connection\<close> (AsyncBuffer, StreamSocket): the bytes between socket and parser, with the
    interleavings of the server thread and the network thread.
  \<^item> \<open>Rewrite\<close> (QAOF.cc, Qedis.cc): BGREWRITEAOF and loading a log.
  \<^item> \<open>Binary\<close>, \<open>Compact\<close> (redisIntset.c, redisZipList.c), \<open>Lzf\<close>, \<open>Crc64\<close>, \<open>Rdb\<close> (QDB.cc): the binary formats; \<open>Snapshot\<close>: reading back what was saved.
  \<^item> \<open>Replication\<close> (QReplication, the master's connection in QClient.cc, the processes that save in Qedis.cc and QServerCommand.cc, INFO);
    \<open>Syncing\<close>, \<open>Replicas\<close>: what slaves receive, and the invariant of the replication.
  \<^item> \<open>Timers\<close> (Timer.h, Timer.cc): the wheel of timers and the time of a line of the log.
  \<^bold>\<open>What the lemmas show.\<close> The invariant \<open>store_ok\<close> (distinct keys, values that fit their type and encoding, sorted sets whose two indexes
  agree) is kept by every operation, so by every packet and timer, and by loading any file. The view \<open>vis\<close>, what a client can
  observe of a key, is the abstract state on which commands are specified; \<open>quiet\<close> steps do not change it. Readers and writers are
  proved inverse: requests, the log, values in LevelDB, RDB files, DUMP, ziplist entries, LZF. Buffers refine queues of bytes (locale
  \<open>byte_queue\<close>, interpreted by both). Optimised routines equal references: the matcher its meaning, the checksum the
  division by its polynomial, ranks a count, pipelines single requests. Where the code goes wrong, the lemma states what it does.

  \<^bold>\<open>Bounds and fuel.\<close> Loops are recursive with measures. Serving blocked clients runs with fuel that covers
  every round, each of which takes an entry from the queue, an element from the list or the target from a client. Loops that a callback can keep alive are partial functions, and
  that they return is part of the theorems about them. Requests are below 2 to the 31 bytes where an \<open>int\<close> holds their length.

  \<^bold>\<open>Not modelled.\<close> System calls and the loops around them (Server.cc, NetThreadPool.cc, EPoller.cc, Kqueue.cc, the sockets, TaskManager.cc, memory
  mapped files, fork): their results are inputs. The logger and the thread pool: output for humans, and threads that carry no
  state of the server. QModule.cc and Modules: shared objects that are loaded at run time. QMigration.cc: a client of another
  server. QSentinel, the generated ZooKeeper client and src/cluster: separate programs on a network library of their own.
  Of CONFIG SET and of the configuration file only the values that commands use appear, as fields of the state.
\<close>

end
